(* ===== verification/Prelude.thy ===== *)
theory Prelude imports Main "HOL-Library.Word" "HOL-Library.List_Lexorder" "HOL-Library.Char_ord" begin

text \<open>
  Shared vocabulary of the development: the machine types, the error-and-state plumbing that
  stands for Rust's \<open>?\<close> operator, the little-endian codecs of the standard library
  (\<open>to_le_bytes\<close> / \<open>from_le_bytes\<close>), decimal file-name formatting and the generic list
  lemmas that the component theories share.
\<close>

unbundle bit_operations_syntax

named_theorems codec_simps \<open>byte-codec round trips\<close>
named_theorems run_simps \<open>symbolic execution of fallible state-passing code\<close>

section \<open>Machine types\<close>

type_synonym u8 = "8 word"
type_synonym u32 = "32 word"
type_synonym u64 = "64 word"
type_synonym u128 = "128 word"
type_synonym bytes = "u8 list"

text \<open>
  A path is the list of its components. \<open>Path::join\<close> of a plain file name appends a
  component, \<open>Path::parent\<close> drops the last one, and Rust's \<open>Ord\<close> on paths compares
  component by component, which is the lexicographic order on this list.
\<close>

type_synonym path = "string list"

definition join :: "path \<Rightarrow> string \<Rightarrow> path" where
  "join dir name = dir @ [name]"

definition parent :: "path \<Rightarrow> path option" where
  "parent p = (if p = [] then None else Some (butlast p))"

definition file_name :: "path \<Rightarrow> string option" where
  "file_name p = (if p = [] then None else Some (last p))"

lemma parent_join [simp]: "parent (join d n) = Some d"
  by (simp add: parent_def join_def)

lemma file_name_join [simp]: "file_name (join d n) = Some n"
  by (simp add: file_name_def join_def)

lemma join_eq_iff [simp]: "join d n = join d' n' \<longleftrightarrow> d = d' \<and> n = n'"
  by (simp add: join_def)

section \<open>Fallible code\<close>

text \<open>
  A fallible operation returns \<open>Inl error\<close> or \<open>Inr value\<close>; an operation on a mutable
  object also returns the object's next state. \<open>ok_then\<close> runs the continuation after
  success and returns early on an error, keeping the effects made so far: this is what the
  \<open>?\<close> operator does in a method that mutates through a shared reference.
\<close>

definition ok_then ::
  "('e + 'a) \<times> 's \<Rightarrow> ('a \<Rightarrow> 's \<Rightarrow> ('e + 'b) \<times> 's) \<Rightarrow> ('e + 'b) \<times> 's" where
  "ok_then r f = (case fst r of Inl e \<Rightarrow> (Inl e, snd r) | Inr x \<Rightarrow> f x (snd r))"

definition err_map :: "('e \<Rightarrow> 'f) \<Rightarrow> ('e + 'a) \<times> 's \<Rightarrow> ('f + 'a) \<times> 's" where
  "err_map g r = (case fst r of Inl e \<Rightarrow> (Inl (g e), snd r) | Inr x \<Rightarrow> (Inr x, snd r))"

definition res_then :: "'e + 'a \<Rightarrow> ('a \<Rightarrow> 'e + 'b) \<Rightarrow> 'e + 'b" where
  "res_then r f = (case r of Inl e \<Rightarrow> Inl e | Inr x \<Rightarrow> f x)"

definition res_err :: "('e \<Rightarrow> 'f) \<Rightarrow> 'e + 'a \<Rightarrow> 'f + 'a" where
  "res_err g r = (case r of Inl e \<Rightarrow> Inl (g e) | Inr x \<Rightarrow> Inr x)"

lemma ok_then_simps [simp, run_simps]:
  "ok_then (Inl e, s) f = (Inl e, s)"
  "ok_then (Inr x, s) f = f x s"
  by (simp_all add: ok_then_def)

lemma err_map_simps [simp, run_simps]:
  "err_map g (Inl e, s) = (Inl (g e), s)"
  "err_map g (Inr x, s) = (Inr x, s)"
  by (simp_all add: err_map_def)

lemma ok_then_assoc: "ok_then (ok_then r f) g = ok_then r (\<lambda>x s. ok_then (f x s) g)"
  by (cases r; cases "fst r") auto

lemma res_then_simps [simp, run_simps]:
  "res_then (Inl e) h = Inl e"
  "res_then (Inr x) h = h x"
  by (simp_all add: res_then_def)

lemma res_err_simps [simp, run_simps]:
  "res_err g (Inl e) = Inl (g e)"
  "res_err g (Inr x) = Inr x"
  by (simp_all add: res_err_def)

lemma res_then_InrE [elim!]:
  assumes "res_then r f = Inr y"
  obtains x where "r = Inr x" and "f x = Inr y"
  using assms by (cases r) auto

lemma ok_then_InrE:
  assumes "ok_then r f = (Inr y, t)"
  obtains x s where "r = (Inr x, s)" and "f x s = (Inr y, t)"
  using assms by (cases r; cases "fst r") auto

lemma ok_then_cong [fundef_cong]:
  "r = r' \<Longrightarrow> (\<And>x s. r' = (Inr x, s) \<Longrightarrow> f x s = f' x s) \<Longrightarrow> ok_then r f = ok_then r' f'"
  by (cases r'; cases "fst r'") auto

lemma res_then_cong [fundef_cong]:
  "r = r' \<Longrightarrow> (\<And>x. r' = Inr x \<Longrightarrow> f x = f' x) \<Longrightarrow> res_then r f = res_then r' f'"
  by (cases r') auto

section \<open>A flipped bit\<close>

definition flip_bit :: "bytes \<Rightarrow> nat \<Rightarrow> nat \<Rightarrow> bytes" where
  "flip_bit bs byte b = bs[byte := (bs ! byte) XOR push_bit b 1]"

lemma flip_bit_neq: "i < length bs \<Longrightarrow> b < 8 \<Longrightarrow> flip_bit bs i b \<noteq> bs"
proof
  assume i: "i < length bs" "b < 8" and e: "flip_bit bs i b = bs"
  from e have "(bs ! i) XOR push_bit b 1 = bs ! i" unfolding flip_bit_def using i(1) by (metis nth_list_update_eq)
  then have "(bs ! i) XOR ((bs ! i) XOR push_bit b 1) = (bs ! i) XOR (bs ! i)" by (rule arg_cong)
  then have "push_bit b (1 :: u8) = 0" by (simp only: xor.assoc [symmetric] xor_self_eq xor.left_neutral)
  then have "bit (push_bit b (1 :: u8)) b = bit (0 :: u8) b" by (simp only:)
  then show False using i(2) by (simp only: bit_push_bit_iff) (simp add: bit_simps)
qed

lemma length_flip_bit [simp]: "length (flip_bit bs i b) = length bs"
  by (simp add: flip_bit_def)

lemma flip_bit_append:
  "flip_bit (xs @ ys) i b = (if i < length xs then flip_bit xs i b @ ys else xs @ flip_bit ys (i - length xs) b)"
  by (simp add: flip_bit_def list_update_append nth_append)

section \<open>Little-endian integers\<close>

text \<open>
  \<open>le_nat\<close> reads a byte string as a little-endian number and \<open>nat_le k\<close> writes the low
  \<open>k\<close> bytes of a number; the 32- and 64-bit codecs are these at widths 4 and 8.
\<close>

fun le_nat :: "bytes \<Rightarrow> nat" where
  "le_nat [] = 0"
| "le_nat (b # bs) = unat b + 256 * le_nat bs"

fun nat_le :: "nat \<Rightarrow> nat \<Rightarrow> bytes" where
  "nat_le 0 n = []"
| "nat_le (Suc k) n = of_nat (n mod 256) # nat_le k (n div 256)"

definition u32_le :: "u32 \<Rightarrow> bytes" where
  "u32_le w = nat_le 4 (unat w)"

definition u64_le :: "u64 \<Rightarrow> bytes" where
  "u64_le w = nat_le 8 (unat w)"

definition le_u32 :: "bytes \<Rightarrow> u32" where
  "le_u32 bs = of_nat (le_nat bs)"

definition le_u64 :: "bytes \<Rightarrow> u64" where
  "le_u64 bs = of_nat (le_nat bs)"

lemma length_nat_le [simp]: "length (nat_le k n) = k"
  by (induction k arbitrary: n) auto

lemma unat_of_nat_byte: "unat (of_nat (n mod 256) :: u8) = n mod 256"
  by (simp add: unat_of_nat)

lemma le_nat_nat_le [codec_simps]: "le_nat (nat_le k n) = n mod 256 ^ k"
proof (induction k arbitrary: n)
  case (Suc k)
  have "n mod 256 + 256 * (n div 256 mod 256 ^ k) = n mod (256 * 256 ^ k)"
    by (simp add: mod_mult2_eq)
  then show ?case using Suc by (simp add: unat_of_nat_byte)
qed simp

lemma le_nat_bound: "le_nat bs < 256 ^ length bs"
proof (induction bs)
  case (Cons b bs)
  have "unat b < 256" using unsigned_less [of b, where ?'a = nat] by simp
  with Cons show ?case by simp
qed simp

lemma nat_le_le_nat [codec_simps]: "nat_le (length bs) (le_nat bs) = bs"
proof (induction bs)
  case (Cons b bs)
  have "unat b < 256" using unsigned_less [of b, where ?'a = nat] by simp
  with Cons show ?case by simp
qed simp

lemma length_u32_le [simp]: "length (u32_le w) = 4"
  by (simp add: u32_le_def)

lemma length_u64_le [simp]: "length (u64_le w) = 8"
  by (simp add: u64_le_def)

lemma le_u32_u32_le [simp, codec_simps]: "le_u32 (u32_le w) = w"
proof -
  have "unat w < 256 ^ 4" using unsigned_less [of w, where ?'a = nat] by simp
  then show ?thesis by (simp add: le_u32_def u32_le_def le_nat_nat_le)
qed

lemma le_u64_u64_le [simp, codec_simps]: "le_u64 (u64_le w) = w"
proof -
  have "unat w < 256 ^ 8" using unsigned_less [of w, where ?'a = nat] by simp
  then show ?thesis by (simp add: le_u64_def u64_le_def le_nat_nat_le)
qed

lemma u32_le_le_u32 [codec_simps]: "length bs = 4 \<Longrightarrow> u32_le (le_u32 bs) = bs"
  using le_nat_bound [of bs] nat_le_le_nat [of bs]
  by (simp add: le_u32_def u32_le_def unat_of_nat)

lemma u64_le_le_u64 [codec_simps]: "length bs = 8 \<Longrightarrow> u64_le (le_u64 bs) = bs"
  using le_nat_bound [of bs] nat_le_le_nat [of bs]
  by (simp add: le_u64_def u64_le_def unat_of_nat)

lemma u32_le_inject [simp]: "u32_le a = u32_le b \<longleftrightarrow> a = b"
  by (metis le_u32_u32_le)

lemma u64_le_inject [simp]: "u64_le a = u64_le b \<longleftrightarrow> a = b"
  by (metis le_u64_u64_le)

lemma u32_le_not_Nil [simp]: "u32_le w \<noteq> []" "[] \<noteq> u32_le w"
  by (auto dest: arg_cong [where f = length])

lemma u64_le_not_Nil [simp]: "u64_le w \<noteq> []" "[] \<noteq> u64_le w"
  by (auto dest: arg_cong [where f = length])

text \<open>A length cast to \<open>u32\<close> reads back unchanged below the width.\<close>

lemma unat_of_nat_32 [simp]: "n < 2 ^ 32 \<Longrightarrow> unat (of_nat n :: u32) = n"
  by (simp add: unat_of_nat)

lemma unat_of_nat_64 [simp]: "n < 2 ^ 64 \<Longrightarrow> unat (of_nat n :: u64) = n"
  by (simp add: unat_of_nat)

lemma unat_u64_Suc: "unat (w :: u64) + 1 < 2 ^ 64 \<Longrightarrow> unat (w + 1) = unat w + 1"
  by (simp add: unat_word_ariths)

section \<open>Decimal and hexadecimal formatting\<close>

definition digit_char :: "nat \<Rightarrow> char" where
  "digit_char d = char_of (48 + d)"

definition char_digit :: "char \<Rightarrow> nat" where
  "char_digit c = of_char c - 48"

definition is_digit :: "char \<Rightarrow> bool" where
  "is_digit c \<longleftrightarrow> 48 \<le> (of_char c :: nat) \<and> (of_char c :: nat) \<le> 57"

fun dec :: "nat \<Rightarrow> string" where
  "dec n = (if n < 10 then [digit_char n] else dec (n div 10) @ [digit_char (n mod 10)])"

declare dec.simps [simp del]

definition zero_pad :: "nat \<Rightarrow> string \<Rightarrow> string" where
  "zero_pad w s = replicate (w - length s) (CHR ''0'') @ s"

fun dec_value :: "nat \<Rightarrow> string \<Rightarrow> nat" where
  "dec_value acc [] = acc"
| "dec_value acc (c # cs) = dec_value (acc * 10 + char_digit c) cs"

text \<open>\<open>str::parse::<u64>\<close>: an optional plus sign, at least one digit, no overflow.\<close>

definition parse_u64 :: "string \<Rightarrow> u64 option" where
  "parse_u64 s =
     (let ds = (case s of [] \<Rightarrow> [] | c # cs \<Rightarrow> if c = CHR ''+'' then cs else s)
      in if ds = [] \<or> \<not> list_all is_digit ds then None
         else if dec_value 0 ds < 2 ^ 64 then Some (of_nat (dec_value 0 ds)) else None)"

text \<open>\<open>str::strip_suffix\<close>.\<close>

definition strip_suffix :: "string \<Rightarrow> string \<Rightarrow> string option" where
  "strip_suffix suf s =
     (let k = length s - length suf
      in if length suf \<le> length s \<and> drop k s = suf then Some (take k s) else None)"

lemma strip_suffix_append [simp]: "strip_suffix suf (s @ suf) = Some s"
  by (simp add: strip_suffix_def)

lemma strip_suffix_Some: "strip_suffix suf s = Some t \<longleftrightarrow> s = t @ suf"
  by (auto simp: strip_suffix_def Let_def split: if_splits)
     (metis append_take_drop_id)

lemma digit_char_props:
  assumes "d < 10"
  shows "is_digit (digit_char d)" and "char_digit (digit_char d) = d"
proof -
  have "of_char (char_of (48 + d) :: char) = (48 + d :: nat)"
    using assms by (simp add: of_char_of)
  then show "is_digit (digit_char d)" and "char_digit (digit_char d) = d"
    using assms by (simp_all add: is_digit_def digit_char_def char_digit_def)
qed

lemma dec_value_append:
  "dec_value acc (xs @ ys) = dec_value (dec_value acc xs) ys"
  by (induction xs arbitrary: acc) auto

lemma dec_not_Nil [simp]: "dec n \<noteq> []"
  by (subst dec.simps) simp

lemma dec_digits: "list_all is_digit (dec n)"
proof (induction n rule: dec.induct)
  case (1 n)
  then show ?case by (subst dec.simps) (auto simp: digit_char_props)
qed

lemma dec_value_dec: "dec_value 0 (dec n) = n"
proof (induction n rule: dec.induct)
  case (1 n)
  then show ?case
    by (subst dec.simps) (auto simp: digit_char_props dec_value_append)
qed

lemma length_dec: "n < 10 ^ Suc k \<Longrightarrow> length (dec n) \<le> Suc k"
proof (induction k arbitrary: n)
  case 0
  then show ?case by (subst dec.simps) simp
next
  case (Suc k)
  then have "length (dec (n div 10)) \<le> Suc k" by simp
  then show ?case by (subst dec.simps) simp
qed

lemma dec_value_zeros: "dec_value 0 (replicate k (CHR ''0'') @ s) = dec_value 0 s"
  by (induction k) (auto simp: char_digit_def)

lemma is_digit_zero: "is_digit (CHR ''0'')"
  by (simp add: is_digit_def)

lemma not_is_digit_plus: "\<not> is_digit (CHR ''+'')"
  by (simp add: is_digit_def)

lemma parse_u64_digits:
  assumes "list_all is_digit s" and "s \<noteq> []" and "dec_value 0 s < 2 ^ 64"
  shows "parse_u64 s = Some (of_nat (dec_value 0 s))"
  using assms by (cases s) (auto simp: parse_u64_def not_is_digit_plus)

text \<open>A 20-digit zero-padded \<open>u64\<close> parses back to itself.\<close>

lemma length_zero_pad_dec: "length (zero_pad 20 (dec (unat (w :: u64)))) = 20"
proof -
  have "unat w < 10 ^ Suc 19" using unsigned_less [of w, where ?'a = nat] by simp
  then have "length (dec (unat w)) \<le> 20" using length_dec [of "unat w" 19] by simp
  then show ?thesis by (simp add: zero_pad_def)
qed

lemma parse_zero_pad [simp]: "parse_u64 (zero_pad k (dec (unat w))) = Some w"
proof -
  have v: "dec_value 0 (zero_pad k (dec (unat w))) = unat w"
    by (simp add: zero_pad_def dec_value_zeros dec_value_dec)
  have "list_all is_digit (zero_pad k (dec (unat w)))"
    by (auto simp: zero_pad_def dec_digits is_digit_zero list_all_iff dest: dec_digits [unfolded list_all_iff, rule_format])
  then show ?thesis
    using parse_u64_digits [of "zero_pad k (dec (unat w))"] v unsigned_less [of w, where ?'a = nat]
    by (simp add: zero_pad_def)
qed

section \<open>Lists\<close>

lemma drop_append_exact [simp]: "n = length xs \<Longrightarrow> drop n (xs @ ys) = ys"
  by simp

lemma take_append_exact [simp]: "n = length xs \<Longrightarrow> take n (xs @ ys) = xs"
  by simp

lemma strict_sorted_map_of:
  fixes xs :: "('a::linorder \<times> 'b) list"
  shows "sorted_wrt (<) (map fst xs) \<Longrightarrow> (k, v) \<in> set xs \<longleftrightarrow> map_of xs k = Some v"
  by (auto simp: strict_sorted_iff dest: map_of_SomeD)

text \<open>A strictly sorted association list is determined by its lookup function.\<close>

lemma sorted_alist_eqI:
  fixes xs ys :: "('a::linorder \<times> 'b) list"
  assumes xs: "sorted_wrt (<) (map fst xs)" and ys: "sorted_wrt (<) (map fst ys)"
    and eq: "map_of xs = map_of ys"
  shows "xs = ys"
proof (rule map_sorted_distinct_set_unique [where f = fst])
  show sets: "set xs = set ys"
    using strict_sorted_map_of [OF xs] strict_sorted_map_of [OF ys] eq by auto
  have "inj_on fst (set xs)"
    using xs by (auto simp: strict_sorted_iff distinct_map)
  then show "inj_on fst (set xs \<union> set ys)" using sets by simp
qed (use xs ys in \<open>simp_all add: strict_sorted_iff\<close>)

end
