(* ===== verification/Frame.thy ===== *)
theory Frame imports Prelude begin

text \<open>
  WAL record framing (\<open>src/src/wal/frame.rs\<close>): a frame is the payload length, the CRC of the
  payload and the payload. The \<open>crc32fast\<close> crate is the parameter \<open>crc\<close>; nothing is
  assumed of it except in the statements about corrupted bytes.
\<close>

definition LEN_SZ :: nat where "LEN_SZ = 4"
definition CRC_SZ :: nat where "CRC_SZ = 4"
definition HEADER_SZ :: nat where "HEADER_SZ = LEN_SZ + CRC_SZ"

lemma header_sz_8 [simp]: "HEADER_SZ = 8" and len_sz_4 [simp]: "LEN_SZ = 4" and crc_sz_4 [simp]: "CRC_SZ = 4"
  by (simp_all add: HEADER_SZ_def LEN_SZ_def CRC_SZ_def)

type_synonym crc = "bytes \<Rightarrow> u32"

text \<open>\<open>payload.len() as u32\<close> keeps the low 32 bits of the length.\<close>

definition encode :: "crc \<Rightarrow> bytes \<Rightarrow> bytes" where
  "encode crc payload = u32_le (of_nat (length payload)) @ u32_le (crc payload) @ payload"

record decoded_frame =
  payload :: bytes
  total_len :: nat

datatype frame_error = Truncated | BadCrc

text \<open>\<open>usize::checked_add\<close> on the 64-bit targets the engine supports.\<close>

definition checked_add :: "nat \<Rightarrow> nat \<Rightarrow> nat option" where
  "checked_add a b = (if a + b < 2 ^ 64 then Some (a + b) else None)"

definition slice :: "bytes \<Rightarrow> nat \<Rightarrow> nat \<Rightarrow> bytes" where
  "slice buf a b = take (b - a) (drop a buf)"

definition decode :: "crc \<Rightarrow> bytes \<Rightarrow> nat \<Rightarrow> frame_error + decoded_frame" where
  "decode crc buf offset =
     (case checked_add offset HEADER_SZ of None \<Rightarrow> Inl Truncated
      | Some header_end \<Rightarrow>
          if length buf < header_end then Inl Truncated
          else let payload_len = unat (le_u32 (slice buf offset (offset + LEN_SZ)));
                   want_crc = le_u32 (slice buf (offset + LEN_SZ) header_end)
               in case checked_add header_end payload_len of None \<Rightarrow> Inl Truncated
                  | Some payload_end \<Rightarrow>
                      if length buf < payload_end then Inl Truncated
                      else let p = slice buf header_end payload_end
                           in if crc p \<noteq> want_crc then Inl BadCrc
                              else Inr \<lparr>payload = p, total_len = HEADER_SZ + payload_len\<rparr>)"

section \<open>Encoding\<close>

lemma length_encode [simp]: "length (encode crc p) = HEADER_SZ + length p"
  by (simp add: encode_def)

lemma encode_not_Nil [simp]: "encode crc p \<noteq> []"
  by (simp add: encode_def)

lemma encode_inject:
  assumes "encode crc p = encode crc q"
  shows "p = q"
  using arg_cong [OF assms, of "drop 8"] by (simp add: encode_def)

section \<open>Decoding what was encoded\<close>

lemma slice_whole [simp]: "slice (xs @ ys @ zs) (length xs) (length xs + length ys) = ys"
  by (simp add: slice_def)

lemma slice_mid: "a = length xs \<Longrightarrow> b = a + length ys \<Longrightarrow> slice (xs @ ys @ zs) a b = ys"
  by (simp add: slice_def)

text \<open>The buffers that fit into memory: shorter than the address space.\<close>

definition addressable :: "bytes \<Rightarrow> bool" where
  "addressable buf \<longleftrightarrow> length buf < 2 ^ 64"

lemma decode_at:
  assumes buf: "buf = pre @ encode crc p @ rest" and off: "off = length pre"
    and len: "length p < 2 ^ 32" and mem: "addressable buf"
  shows "decode crc buf off = Inr \<lparr>payload = p, total_len = length (encode crc p)\<rparr>"
proof -
  have e: "buf = pre @ u32_le (of_nat (length p)) @ u32_le (crc p) @ p @ rest"
    by (simp add: buf encode_def)
  have l: "length buf = off + 8 + length p + length rest" by (simp add: e off)
  have "slice buf off (off + 4) = u32_le (of_nat (length p))"
    unfolding e by (rule slice_mid) (simp_all add: off)
  then have s1: "unat (le_u32 (slice buf off (off + 4))) = length p" using len by simp
  have "buf = (pre @ u32_le (of_nat (length p))) @ u32_le (crc p) @ (p @ rest)" by (simp add: e)
  then have s2: "slice buf (off + 4) (off + 8) = u32_le (crc p)"
    using slice_mid [of "off + 4" "pre @ u32_le (of_nat (length p))" "off + 8" "u32_le (crc p)" "p @ rest"]
    by (simp add: off)
  have "buf = (pre @ u32_le (of_nat (length p)) @ u32_le (crc p)) @ p @ rest" by (simp add: e)
  then have s3: "slice buf (off + 8) (off + 8 + length p) = p"
    using slice_mid [of "off + 8" "pre @ u32_le (of_nat (length p)) @ u32_le (crc p)" "off + 8 + length p" p rest]
    by (simp add: off)
  have "off + 8 < 2 ^ 64" "off + 8 + length p < 2 ^ 64" using mem l by (simp_all add: addressable_def)
  then show ?thesis using s1 s2 s3 l by (simp add: decode_def checked_add_def)
qed

text \<open>A strict prefix of a frame never decodes: this is what makes a torn append detectable
  without any assumption on the checksum.\<close>

lemma decode_torn:
  assumes buf: "buf = pre @ take k (encode crc p)" and off: "off = length pre"
    and k: "k < length (encode crc p)" and len: "length p < 2 ^ 32"
  shows "decode crc buf off = Inl Truncated"
proof (cases "k < 8")
  case True
  then have "length buf < off + 8" by (simp add: buf off)
  then show ?thesis by (simp add: decode_def checked_add_def)
next
  case False
  then have "take k (encode crc p) = u32_le (of_nat (length p)) @ u32_le (crc p) @ take (k - 8) p"
    by (simp add: encode_def)
  then have "slice buf off (off + 4) = u32_le (of_nat (length p))"
    using slice_mid [of off pre "off + 4" "u32_le (of_nat (length p))"] by (simp add: buf off)
  then have s1: "unat (le_u32 (slice buf off (off + 4))) = length p" using len by simp
  have "length buf = off + k" using k by (simp add: buf off)
  then show ?thesis using k s1 by (auto simp: decode_def checked_add_def Let_def)
qed

lemma slice_split:
  assumes "a \<le> b" and "b \<le> c"
  shows "slice buf a c = slice buf a b @ slice buf b c"
proof -
  have "take (c - a) (drop a buf) = take (b - a) (drop a buf) @ take (c - b) (drop (b - a) (drop a buf))"
    using take_add [of "b - a" "c - b" "drop a buf"] assms by simp
  moreover have "drop (b - a) (drop a buf) = drop b buf" using assms by simp
  ultimately show ?thesis by (simp add: slice_def)
qed

text \<open>Whatever decodes is a frame: the bytes read are the encoding of the payload returned.\<close>

lemma decode_sound:
  assumes d: "decode crc buf off = Inr f"
  shows "take (total_len f) (drop off buf) = encode crc (payload f)"
    and "off + total_len f \<le> length buf" and "total_len f = HEADER_SZ + length (payload f)"
    and "length (payload f) < 2 ^ 32"
proof -
  define n where "n = unat (le_u32 (slice buf off (off + 4)))"
  define q where "q = slice buf (off + 8) (off + 8 + n)"
  have f: "f = \<lparr>payload = q, total_len = 8 + n\<rparr>" and l: "off + 8 + n \<le> length buf"
    and c: "crc q = le_u32 (slice buf (off + 4) (off + 8))"
    using d by (auto simp: decode_def checked_add_def Let_def n_def q_def split: if_splits)
  have lq: "length q = n" using l by (simp add: slice_def q_def)
  have l4: "length (slice buf off (off + 4)) = 4" "length (slice buf (off + 4) (off + 8)) = 4"
    using l by (simp_all add: slice_def)
  have h1: "slice buf off (off + 4) = u32_le (of_nat (length q))"
    using u32_le_le_u32 [OF l4(1)] by (simp add: lq n_def)
  have h2: "slice buf (off + 4) (off + 8) = u32_le (crc q)"
    unfolding c using u32_le_le_u32 [OF l4(2)] by simp
  have "slice buf off (off + 8 + n) = slice buf off (off + 4) @ slice buf (off + 4) (off + 8) @ q"
    using slice_split [of off "off + 4" "off + 8 + n" buf]
      slice_split [of "off + 4" "off + 8" "off + 8 + n" buf] by (simp add: q_def)
  then have "slice buf off (off + 8 + n) = encode crc q" by (simp only: h1 h2 encode_def)
  then show "take (total_len f) (drop off buf) = encode crc (payload f)"
    by (simp add: f slice_def)
  show "off + total_len f \<le> length buf" using l by (simp add: f)
  show "total_len f = HEADER_SZ + length (payload f)" by (simp add: f lq)
  show "length (payload f) < 2 ^ 32"
    using unsigned_less [of "le_u32 (slice buf off (off + 4))", where ?'a = nat] by (simp add: f lq n_def)
qed

section \<open>A flipped bit\<close>

text \<open>What the checksum has to tell apart for a record: the record from its copies with one bit
  flipped (every CRC does) and from its own prefixes (the length field is not covered by it).\<close>

definition flip_safe :: "crc \<Rightarrow> bytes \<Rightarrow> bool" where
  "flip_safe crc p \<longleftrightarrow> (\<forall>i<length p. \<forall>b<8. crc (flip_bit p i b) \<noteq> crc p) \<and> (\<forall>k<length p. crc (take k p) \<noteq> crc p)"

lemma encode_prefix_parts:
  assumes e: "encode crc q @ rest = l @ c @ p" and l: "length l = 4" and c: "length c = 4"
  shows "l = u32_le (of_nat (length q))" and "c = u32_le (crc q)" and "q = take (length q) p"
proof -
  have e': "u32_le (of_nat (length q)) @ u32_le (crc q) @ q @ rest = l @ c @ p"
    using e by (simp add: encode_def)
  then have s1: "u32_le (of_nat (length q)) = l" and t1: "u32_le (crc q) @ q @ rest = c @ p"
    using l by (simp_all add: append_eq_append_conv)
  then have s2: "u32_le (crc q) = c" and t2: "q @ rest = p"
    using c by (simp_all add: append_eq_append_conv)
  show "l = u32_le (of_nat (length q))" and "c = u32_le (crc q)" and "q = take (length q) p"
    using s1 s2 t2 by auto
qed

lemma u32_length_inject:
  "length p < 2 ^ 32 \<Longrightarrow> length q < 2 ^ 32 \<Longrightarrow> u32_le (of_nat (length q)) = u32_le (of_nat (length p)) \<Longrightarrow> length q = length p"
  by (drule arg_cong [where f = "\<lambda>b. unat (le_u32 b)"]) simp

lemma decode_flipped:
  assumes safe: "flip_safe crc p" and len: "length p < 2 ^ 32" and i: "i < length (encode crc p)" "b < 8"
  obtains e where "decode crc (pre @ flip_bit (encode crc p) i b) (length pre) = Inl e"
proof (cases "decode crc (pre @ flip_bit (encode crc p) i b) (length pre)")
  case (Inr f)
  let ?L = "u32_le (of_nat (length p))" and ?C = "u32_le (crc p)" and ?q = "payload f"
  note d = decode_sound [OF Inr, simplified]
  have F: "encode crc ?q @ drop (total_len f) (flip_bit (encode crc p) i b) = flip_bit (?L @ ?C @ p) i b"
    using d(1) append_take_drop_id by (metis encode_def)
  have le: "length ?q \<le> length p" using d(2,3) by simp
  consider "i < 4" | "4 \<le> i" "i < 8" | "8 \<le> i" by linarith
  then have False
  proof cases
    case 1
    then have e: "encode crc ?q @ drop (total_len f) (flip_bit (encode crc p) i b) = flip_bit ?L i b @ ?C @ p"
      using F by (simp add: flip_bit_append)
    note q = encode_prefix_parts [OF e, simplified]
    have "crc (take (length ?q) p) = crc p"
      using q(2,3) by (metis le_u32_u32_le)
    then have "length ?q = length p" using safe le unfolding flip_safe_def by (meson le_neq_implies_less)
    then have "flip_bit ?L i b = ?L" using q(1) by simp
    then show False using flip_bit_neq [of i ?L b] 1 i(2) by simp
  next
    case 2
    then have "i - 4 < 4" by simp
    with 2 have e: "encode crc ?q @ drop (total_len f) (flip_bit (encode crc p) i b) = ?L @ flip_bit ?C (i - 4) b @ p"
      using F by (simp add: flip_bit_append)
    note q = encode_prefix_parts [OF e, simplified]
    have "length ?q = length p" using u32_length_inject [of p ?q] len d(4) q(1) by simp
    then have "?q = p" using q(3) by simp
    then have "flip_bit ?C (i - 4) b = ?C" using q(2) by simp
    then show False using flip_bit_neq [of "i - 4" ?C b] 2 i(2) by simp
  next
    case 3
    then have "\<not> i - 4 < 4" "\<not> i < 4" "i - 4 - 4 = i - 8" by simp_all
    with 3 have e: "encode crc ?q @ drop (total_len f) (flip_bit (encode crc p) i b) = ?L @ ?C @ flip_bit p (i - 8) b"
      using F by (simp add: flip_bit_append)
    note q = encode_prefix_parts [OF e, simplified]
    have "length ?q = length p" using u32_length_inject [of p ?q] len d(4) q(1) by simp
    then have "?q = flip_bit p (i - 8) b" using q(3) by simp
    then have "crc (flip_bit p (i - 8) b) = crc p" using q(2) by (metis le_u32_u32_le)
    moreover have "i - 8 < length p" using 3 i(1) by simp
    ultimately show False using safe i(2) by (simp add: flip_safe_def)
  qed
  then show thesis ..
qed (rule that)

section \<open>Properties\<close>

text \<open>C26 (frame_roundtrip): a record framed anywhere in a buffer decodes to itself, and the decoder
  advances exactly past the frame.\<close>

theorem frame_roundtrip:
  assumes "length p < 2 ^ 32" and "addressable (pre @ encode crc p @ rest)"
  shows "decode crc (pre @ encode crc p @ rest) (length pre)
    = Inr \<lparr>payload = p, total_len = length (encode crc p)\<rparr>"
  using assms by (intro decode_at) auto

theorem frame_roundtrip_witness:
  "decode (\<lambda>_. 7) ([9] @ encode (\<lambda>_. 7) [1, 2] @ [5]) (length [9 :: u8])
    = Inr \<lparr>payload = [1, 2], total_len = length (encode (\<lambda>_. 7) [1, 2])\<rparr>"
  by (rule frame_roundtrip) (simp_all add: addressable_def)

text \<open>A strict prefix of a frame is reported as truncated, whatever the checksum
  function: a torn append is detected from the length alone.\<close>

theorem frame_torn:
  assumes "k < length (encode crc p)" and "length p < 2 ^ 32"
  shows "decode crc (pre @ take k (encode crc p)) (length pre) = Inl Truncated"
  using assms by (intro decode_torn) auto

theorem frame_torn_witness:
  "decode (\<lambda>_. 7) ([9] @ take 9 (encode (\<lambda>_. 7) [1, 2])) (length [9 :: u8]) = Inl Truncated"
  by (rule frame_torn) simp_all

text \<open>C27 (frame_decode_sound): whatever decodes is a frame inside the buffer: the bytes consumed are
  the encoding of the payload returned, so corrupted bytes are accepted only if they form another
  valid frame.\<close>

theorem frame_decode_sound:
  assumes "decode crc buf off = Inr f"
  shows "take (total_len f) (drop off buf) = encode crc (payload f)
    \<and> off + total_len f \<le> length buf \<and> total_len f = HEADER_SZ + length (payload f)"
  using decode_sound [OF assms] by simp

theorem frame_decode_sound_witness:
  "take 10 (drop 0 (encode (\<lambda>_. 7) [1, 2])) = encode (\<lambda>_. 7) [1, 2]
    \<and> 0 + 10 \<le> length (encode (\<lambda>_. 7) [1, 2]) \<and> 10 = HEADER_SZ + length [1 :: u8, 2]"
proof -
  have "decode (\<lambda>_. 7) (encode (\<lambda>_. 7) [1, 2]) 0 = Inr \<lparr>payload = [1, 2], total_len = 10\<rparr>"
    using decode_at [of "encode (\<lambda>_. 7) [1, 2]" "[]" "\<lambda>_. 7" "[1, 2]" "[]" 0] by (simp add: addressable_def)
  from frame_decode_sound [OF this] show ?thesis by simp
qed

end
