(* ===== verification/Storage.thy ===== *)
theory Storage imports Prelude begin

text \<open>
  The storage seam (\<open>src/src/storage/mod.rs\<close>): the error type, the object-safe trait
  \<open>Storage\<close> as a record of operations over a backend state (the engine holds it as
  \<open>Arc<dyn Storage>\<close>, so every engine definition takes this record as an argument), and the
  contract \<open>live_fs\<close> the engine relies on while no power loss occurs.
\<close>

section \<open>Errors\<close>

datatype storage_error =
    NotFound path
  | AlreadyExists path
  | OutOfBounds path nat nat
  | NotADirectory path
  | Io path string

section \<open>The trait\<close>

text \<open>
  Mutating calls return the backend's next state; \<open>open\<close>, \<open>read_at\<close>, \<open>list\<close> and
  \<open>len\<close> only read it. \<open>st_read_at p off n\<close> is \<open>read_at\<close> with a buffer of \<open>n\<close>
  bytes: it returns the bytes that were filled in.
\<close>

record 'fs storage =
  st_create :: "path \<Rightarrow> 'fs \<Rightarrow> (storage_error + unit) \<times> 'fs"
  st_open :: "path \<Rightarrow> 'fs \<Rightarrow> storage_error + unit"
  st_append :: "path \<Rightarrow> bytes \<Rightarrow> 'fs \<Rightarrow> (storage_error + nat) \<times> 'fs"
  st_write_at :: "path \<Rightarrow> nat \<Rightarrow> bytes \<Rightarrow> 'fs \<Rightarrow> (storage_error + unit) \<times> 'fs"
  st_read_at :: "path \<Rightarrow> nat \<Rightarrow> nat \<Rightarrow> 'fs \<Rightarrow> storage_error + bytes"
  st_sync_file :: "path \<Rightarrow> 'fs \<Rightarrow> (storage_error + unit) \<times> 'fs"
  st_sync_dir :: "path \<Rightarrow> 'fs \<Rightarrow> (storage_error + unit) \<times> 'fs"
  st_rename :: "path \<Rightarrow> path \<Rightarrow> 'fs \<Rightarrow> (storage_error + unit) \<times> 'fs"
  st_delete :: "path \<Rightarrow> 'fs \<Rightarrow> (storage_error + unit) \<times> 'fs"
  st_list :: "path \<Rightarrow> 'fs \<Rightarrow> storage_error + path list"
  st_len :: "path \<Rightarrow> 'fs \<Rightarrow> storage_error + nat"

section \<open>The contract of a running backend\<close>

text \<open>
  \<open>view s p\<close> is the content the process sees at \<open>p\<close> (\<open>None\<close> when there is no file) and
  \<open>ok\<close> the backend's own invariant together with "no crash has happened". The reading calls
  are specified first: recovery and the table readers need nothing else.
\<close>

locale read_fs =
  fixes S :: "'fs storage"
    and ok :: "'fs \<Rightarrow> bool"
    and view :: "'fs \<Rightarrow> path \<Rightarrow> bytes option"
  assumes fs_open: "ok s \<Longrightarrow> st_open S p s = (case view s p of None \<Rightarrow> Inl (NotFound p) | Some _ \<Rightarrow> Inr ())"
    and fs_read_at: "ok s \<Longrightarrow> view s p = Some c \<Longrightarrow> off \<le> length c \<Longrightarrow>
      st_read_at S p off n s = Inr (take n (drop off c))"
    and fs_list: "ok s \<Longrightarrow> \<exists>ps. st_list S dir s = Inr ps \<and> sorted_wrt (<) ps
      \<and> set ps = {p. view s p \<noteq> None \<and> parent p = Some dir}"
    and fs_len: "ok s \<Longrightarrow> st_len S p s = (case view s p of None \<Rightarrow> Inl (NotFound p) | Some c \<Rightarrow> Inr (length c))"

text \<open>Each law of a mutating call gives its result and the next view; the error laws leave the
  state as it is.\<close>

locale live_fs = read_fs S ok view
  for S :: "'fs storage" and ok :: "'fs \<Rightarrow> bool" and view :: "'fs \<Rightarrow> path \<Rightarrow> bytes option" +
  assumes fs_create: "ok s \<Longrightarrow> view s p = None \<Longrightarrow>
      \<exists>s'. st_create S p s = (Inr (), s') \<and> ok s' \<and> view s' = (view s)(p \<mapsto> [])"
    and fs_create_exists: "ok s \<Longrightarrow> view s p = Some c \<Longrightarrow>
      st_create S p s = (Inl (AlreadyExists p), s)"
    and fs_append: "ok s \<Longrightarrow> view s p = Some c \<Longrightarrow>
      \<exists>s'. st_append S p d s = (Inr (length c), s') \<and> ok s' \<and> view s' = (view s)(p \<mapsto> c @ d)"
    and fs_sync_file: "ok s \<Longrightarrow> view s p = Some c \<Longrightarrow>
      \<exists>s'. st_sync_file S p s = (Inr (), s') \<and> ok s' \<and> view s' = view s"
    and fs_sync_dir: "ok s \<Longrightarrow> \<exists>s'. st_sync_dir S dir s = (Inr (), s') \<and> ok s' \<and> view s' = view s"
    and fs_rename: "ok s \<Longrightarrow> view s p = Some c \<Longrightarrow> p \<noteq> q \<Longrightarrow> parent p = parent q \<Longrightarrow>
      \<exists>s'. st_rename S p q s = (Inr (), s') \<and> ok s' \<and> view s' = (view s)(p := None, q \<mapsto> c)"
    and fs_delete: "ok s \<Longrightarrow> view s p = Some c \<Longrightarrow>
      \<exists>s'. st_delete S p s = (Inr (), s') \<and> ok s' \<and> view s' = (view s)(p := None)"
    and fs_delete_missing: "ok s \<Longrightarrow> view s p = None \<Longrightarrow> st_delete S p s = (Inl (NotFound p), s)"
begin

text \<open>\<open>let _ = fs.delete(p)\<close>: whether the file was there or not, it is gone afterwards and
  nothing else changed.\<close>

lemma fs_delete_quiet:
  assumes "ok s"
  shows "\<exists>s'. snd (st_delete S p s) = s' \<and> ok s' \<and> view s' = (view s)(p := None)"
proof (cases "view s p")
  case None
  then have "(view s)(p := None) = view s" by auto
  with None assms fs_delete_missing show ?thesis by fastforce
next
  case (Some c)
  with assms fs_delete [of s p c] show ?thesis by force
qed

text \<open>The scratch-file protocol both the manifest and the tail truncation use: a new file is
  written, made durable and renamed over the target.\<close>

lemma fs_replace:
  assumes "ok s" and "tmp \<noteq> dst" and "parent tmp = parent dst"
  shows "\<exists>s'. ok_then (st_create S tmp (snd (st_delete S tmp s)))
      (\<lambda>_ s. ok_then (st_append S tmp d s)
      (\<lambda>_ s. ok_then (st_sync_file S tmp s)
      (\<lambda>_ s. ok_then (st_rename S tmp dst s)
      (\<lambda>_ s. st_sync_dir S dir s)))) = (Inr (), s')
    \<and> ok s' \<and> view s' = (view s)(tmp := None, dst \<mapsto> d)"
proof -
  obtain s1 where s1: "snd (st_delete S tmp s) = s1" "ok s1" "view s1 = (view s)(tmp := None)"
    using fs_delete_quiet [OF assms(1)] by blast
  obtain s2 where s2: "st_create S tmp s1 = (Inr (), s2)" "ok s2" "view s2 = (view s1)(tmp \<mapsto> [])"
    using fs_create [of s1 tmp] s1 by auto
  obtain s3 n where s3: "st_append S tmp d s2 = (Inr n, s3)" "ok s3" "view s3 = (view s2)(tmp \<mapsto> d)"
    using fs_append [of s2 tmp "[]" d] s2 by auto
  obtain s4 where s4: "st_sync_file S tmp s3 = (Inr (), s4)" "ok s4" "view s4 = view s3"
    using fs_sync_file [of s3 tmp d] s3 by auto
  obtain s5 where s5: "st_rename S tmp dst s4 = (Inr (), s5)" "ok s5"
      "view s5 = (view s4)(tmp := None, dst \<mapsto> d)"
    using fs_rename [of s4 tmp d dst] s4 s3 assms(2,3) by auto
  obtain s6 where s6: "st_sync_dir S dir s5 = (Inr (), s6)" "ok s6" "view s6 = view s5"
    using fs_sync_dir [of s5 dir] s5 by auto
  have "view s6 = (view s)(tmp := None, dst \<mapsto> d)"
    using assms(2) by (auto simp: s1 s2 s3 s4 s5 s6 fun_eq_iff)
  then show ?thesis
    by (simp add: s1 s2 s3 s4 s5 s6)
qed

end

end
