(* ===== verification/Segment.thy ===== *)
theory Segment imports Storage begin

text \<open>
  WAL segment files (\<open>src/src/wal/segment.rs\<close>): their names, the directory listing, the
  per-file append and sync operations and the whole-file read recovery uses. \<open>S\<close> is the
  \<open>&dyn Storage\<close> argument.
\<close>

definition ID_WIDTH :: nat where "ID_WIDTH = 20"
definition SUFFIX :: string where "SUFFIX = ''.wal''"

definition segment_path :: "path \<Rightarrow> u64 \<Rightarrow> path" where
  "segment_path dir i = join dir (zero_pad ID_WIDTH (dec (unat i)) @ SUFFIX)"

definition parse_segment_id :: "path \<Rightarrow> u64 option" where
  "parse_segment_id p =
     (case file_name p of None \<Rightarrow> None
      | Some name \<Rightarrow>
          (case strip_suffix SUFFIX name of None \<Rightarrow> None
           | Some digits \<Rightarrow> if length digits \<noteq> ID_WIDTH then None else parse_u64 digits))"

text \<open>The keys of an unstable sort are the parsed ids; two files share an id only when one of
  the names carries a plus sign, which the engine never writes.\<close>

definition list_segments :: "'fs storage \<Rightarrow> path \<Rightarrow> 'fs \<Rightarrow> storage_error + (u64 \<times> path) list" where
  "list_segments S dir s =
     res_then (st_list S dir s) (\<lambda>ps.
       Inr (sort_key fst (List.map_filter (\<lambda>p. map_option (\<lambda>i. (i, p)) (parse_segment_id p)) ps)))"

record segment =
  seg_id :: u64
  seg_path :: path
  write_offset :: nat

definition segment_create :: "'fs storage \<Rightarrow> path \<Rightarrow> u64 \<Rightarrow> 'fs \<Rightarrow> (storage_error + segment) \<times> 'fs" where
  "segment_create S dir i s =
     (let p = segment_path dir i
      in ok_then (st_create S p s) (\<lambda>_ s. (Inr \<lparr>seg_id = i, seg_path = p, write_offset = 0\<rparr>, s)))"

definition segment_open :: "'fs storage \<Rightarrow> path \<Rightarrow> u64 \<Rightarrow> 'fs \<Rightarrow> storage_error + segment" where
  "segment_open S dir i s =
     (let p = segment_path dir i
      in res_then (st_len S p s) (\<lambda>n. Inr \<lparr>seg_id = i, seg_path = p, write_offset = n\<rparr>))"

text \<open>\<open>append\<close> mutates the handle: the next handle is the result.\<close>

definition segment_append :: "'fs storage \<Rightarrow> segment \<Rightarrow> bytes \<Rightarrow> 'fs \<Rightarrow> (storage_error + segment) \<times> 'fs" where
  "segment_append S g bs s =
     ok_then (st_append S (seg_path g) bs s)
       (\<lambda>_ s. (Inr (g\<lparr>write_offset := write_offset g + length bs\<rparr>), s))"

definition segment_sync :: "'fs storage \<Rightarrow> segment \<Rightarrow> 'fs \<Rightarrow> (storage_error + unit) \<times> 'fs" where
  "segment_sync S g s = st_sync_file S (seg_path g) s"

text \<open>The read loop; \<open>buf\<close> is the part of the buffer that has been filled.\<close>

function read_loop :: "'fs storage \<Rightarrow> path \<Rightarrow> nat \<Rightarrow> bytes \<Rightarrow> 'fs \<Rightarrow> storage_error + bytes" where
  "read_loop S p len buf s =
     (if length buf < len then
        (case st_read_at S p (length buf) (len - length buf) s of Inl e \<Rightarrow> Inl e
         | Inr bs \<Rightarrow> if bs = [] then Inr buf else read_loop S p len (buf @ bs) s)
      else Inr buf)"
  by pat_completeness auto
termination
  by (relation "measure (\<lambda>(S, p, len, buf, s). len - length buf)") (auto intro!: diff_less_mono2)

declare read_loop.simps [simp del]

definition read_all :: "'fs storage \<Rightarrow> path \<Rightarrow> 'fs \<Rightarrow> storage_error + bytes" where
  "read_all S p s =
     (case st_len S p s of
        Inr len \<Rightarrow> read_loop S p len [] s
      | Inl (NotFound _) \<Rightarrow> Inr []
      | Inl e \<Rightarrow> Inl e)"

section \<open>Names\<close>

lemma parse_segment_path [simp]: "parse_segment_id (segment_path dir i) = Some i"
  by (simp add: parse_segment_id_def segment_path_def ID_WIDTH_def length_zero_pad_dec)

lemma parent_segment_path [simp]: "parent (segment_path dir i) = Some dir"
  by (simp add: segment_path_def)

lemma segment_path_inject [simp]: "segment_path dir i = segment_path dir j \<longleftrightarrow> i = j"
  by (metis parse_segment_path option.inject)

text \<open>A file that parses as a segment but is not one the engine names: a plus sign in front.\<close>

definition canonical_names :: "path \<Rightarrow> path set \<Rightarrow> bool" where
  "canonical_names dir ps \<longleftrightarrow>
     (\<forall>p\<in>ps. \<forall>i. parent p = Some dir \<longrightarrow> parse_segment_id p = Some i \<longrightarrow> p = segment_path dir i)"

section \<open>Behaviour over a running backend\<close>

context read_fs
begin

lemma read_loop_view:
  assumes "ok s" and "view s p = Some c" and "length buf \<le> length c" and "buf = take (length buf) c"
  shows "read_loop S p (length c) buf s = Inr c"
  using assms(3,4)
proof (induction "length c - length buf" arbitrary: buf rule: less_induct)
  case less
  have r: "st_read_at S p (length buf) (length c - length buf) s = Inr (drop (length buf) c)"
    using fs_read_at [OF assms(1,2) less.prems(1)] by simp
  show ?case
  proof (cases "length buf < length c")
    case True
    have whole: "buf @ drop (length buf) c = c" using less.prems(2) by (metis append_take_drop_id)
    have "read_loop S p (length c) c s = Inr c" by (subst read_loop.simps) simp
    with True whole show ?thesis by (subst read_loop.simps) (simp add: r)
  next
    case False
    then show ?thesis using less.prems by (subst read_loop.simps) simp
  qed
qed

lemma read_all_view:
  assumes "ok s"
  shows "read_all S p s = Inr (case view s p of None \<Rightarrow> [] | Some c \<Rightarrow> c)"
  using fs_len [OF assms, of p] read_loop_view [OF assms, of p _ "[]"]
  by (auto simp: read_all_def split: option.splits)

lemma list_segments_view:
  assumes "ok s" and "canonical_names dir (dom (view s))"
  shows "list_segments S dir s
    = Inr (map (\<lambda>i. (i, segment_path dir i)) (sorted_list_of_set {i. view s (segment_path dir i) \<noteq> None}))"
proof -
  obtain ps where ps: "st_list S dir s = Inr ps" "sorted_wrt (<) ps"
    "set ps = {p. view s p \<noteq> None \<and> parent p = Some dir}"
    using fs_list [OF assms(1)] by blast
  let ?I = "{i. view s (segment_path dir i) \<noteq> None}"
  let ?xs = "List.map_filter (\<lambda>p. map_option (\<lambda>i. (i, p)) (parse_segment_id p)) ps"
  have canon: "p = segment_path dir i" if "p \<in> set ps" "parse_segment_id p = Some i" for p i
    using that ps(3) assms(2) by (auto simp: canonical_names_def dom_def)
  have set: "set ?xs = (\<lambda>i. (i, segment_path dir i)) ` ?I"
  proof (intro set_eqI iffI)
    fix x assume "x \<in> set ?xs"
    then obtain p i where p: "p \<in> set ps" "parse_segment_id p = Some i" and x: "x = (i, p)"
      by (auto simp: map_filter_def)
    from canon [OF p] p(1) ps(3) show "x \<in> (\<lambda>i. (i, segment_path dir i)) ` ?I"
      unfolding x by blast
  next
    fix x assume "x \<in> (\<lambda>i. (i, segment_path dir i)) ` ?I"
    then show "x \<in> set ?xs" using ps(3) by (force simp: map_filter_def)
  qed
  have dist: "distinct ?xs"
  proof -
    have "distinct ps" using ps(2) by (simp add: strict_sorted_iff)
    then show ?thesis
      by (auto simp: map_filter_def distinct_map intro!: inj_onI)
  qed
  have fin: "finite ?I"
  proof (rule finite_imageD)
    show "finite ((\<lambda>i. (i, segment_path dir i)) ` ?I)" unfolding set [symmetric] by simp
  qed (auto intro: inj_onI)
  let ?ys = "map (\<lambda>i. (i, segment_path dir i)) (sorted_list_of_set ?I)"
  have inj: "inj_on fst (set ?xs)" unfolding set by (rule inj_onI) auto
  have "sort_key fst ?xs = ?ys"
  proof (rule map_sorted_distinct_set_unique [where f = fst])
    show "inj_on fst (set (sort_key fst ?xs) \<union> set ?ys)" using set inj fin by simp
    show "sorted (map fst (sort_key fst ?xs))" by simp
    show "sorted (map fst ?ys)" by (simp add: comp_def)
    show "set (sort_key fst ?xs) = set ?ys" using set fin by simp
    show "distinct (map fst (sort_key fst ?xs))" using dist inj by (simp add: distinct_map)
    show "distinct (map fst ?ys)" by (simp add: comp_def)
  qed
  then show ?thesis by (simp add: list_segments_def ps(1))
qed

end

end
