(* ===== verification/Recovery.thy ===== *)
theory Recovery imports Frame Segment begin

text \<open>
  WAL recovery (\<open>src/src/wal/recovery.rs\<close>): scanning a segment up to its first undecodable
  frame, replaying all segments in id order, and rewriting the tail segment to its valid prefix.
\<close>

datatype stop_reason = Clean | StopTruncated | StopBadCrc

record recovered =
  records :: "bytes list"
  tail_segment :: "u64 option"
  tail_valid_len :: nat
  stop_reason :: stop_reason

definition default_recovered :: recovered where
  "default_recovered = \<lparr>records = [], tail_segment = None, tail_valid_len = 0, stop_reason = Clean\<rparr>"

text \<open>The loop of \<open>scan_buffer\<close>; it ends because a decoded frame is at least a header long and
  lies inside the buffer.\<close>

function scan_from :: "crc \<Rightarrow> bytes \<Rightarrow> nat \<Rightarrow> bytes list \<Rightarrow> (nat \<times> stop_reason) \<times> bytes list" where
  "scan_from crc buf off out =
     (if off = length buf then ((off, Clean), out)
      else (case decode crc buf off of
              Inr f \<Rightarrow> scan_from crc buf (off + total_len f) (out @ [payload f])
            | Inl Truncated \<Rightarrow> ((off, StopTruncated), out)
            | Inl BadCrc \<Rightarrow> ((off, StopBadCrc), out)))"
  by pat_completeness auto
termination
proof (relation "measure (\<lambda>(crc, buf, off, out). length buf - off)")
  fix crc :: crc and buf off and out :: "bytes list" and f
  assume "off \<noteq> length buf" and "decode crc buf off = Inr f"
  then show "((crc, buf, off + total_len f, out @ [payload f]), crc, buf, off, out)
      \<in> measure (\<lambda>(crc, buf, off, out). length buf - off)"
    using decode_sound(2,3) [of crc buf off f] by simp
qed simp

declare scan_from.simps [simp del]

definition scan_buffer :: "crc \<Rightarrow> bytes \<Rightarrow> bytes list \<Rightarrow> (nat \<times> stop_reason) \<times> bytes list" where
  "scan_buffer crc buf out = scan_from crc buf 0 out"

fun recover_loop ::
  "crc \<Rightarrow> 'fs storage \<Rightarrow> (u64 \<times> path) list \<Rightarrow> recovered \<Rightarrow> 'fs \<Rightarrow> storage_error + recovered" where
  "recover_loop crc S [] result s = Inr result"
| "recover_loop crc S ((i, p) # rest) result s =
     res_then (read_all S p s) (\<lambda>buf.
       (let ((valid_len, reason), recs) = scan_buffer crc buf (records result);
            result' = \<lparr>records = recs, tail_segment = Some i, tail_valid_len = valid_len,
                       stop_reason = reason\<rparr>
        in if reason \<noteq> Clean then Inr result' else recover_loop crc S rest result' s))"

definition recover :: "crc \<Rightarrow> 'fs storage \<Rightarrow> path \<Rightarrow> 'fs \<Rightarrow> storage_error + recovered" where
  "recover crc S dir s =
     res_then (list_segments S dir s) (\<lambda>segments.
       if segments = [] then Inr (default_recovered\<lparr>stop_reason := Clean\<rparr>)
       else recover_loop crc S segments default_recovered s)"

definition tmp_path :: "path \<Rightarrow> u64 \<Rightarrow> path" where
  "tmp_path dir i = join dir (zero_pad 20 (dec (unat i)) @ ''.wal.tmp'')"

definition truncate_tail ::
  "'fs storage \<Rightarrow> path \<Rightarrow> u64 \<Rightarrow> nat \<Rightarrow> 'fs \<Rightarrow> (storage_error + unit) \<times> 'fs" where
  "truncate_tail S dir tail_seg valid_len s =
     (let p = segment_path dir tail_seg
      in case st_len S p s of Inl e \<Rightarrow> (Inl e, s)
         | Inr current \<Rightarrow>
             if current \<le> valid_len then (Inr (), s)
             else (case read_all S p s of Inl e \<Rightarrow> (Inl e, s)
                   | Inr buf \<Rightarrow>
                       (let keep = take valid_len buf; tmp = tmp_path dir tail_seg
                        in ok_then (st_create S tmp (snd (st_delete S tmp s))) (\<lambda>_ s.
                           ok_then (st_append S tmp keep s) (\<lambda>_ s.
                           ok_then (st_sync_file S tmp s) (\<lambda>_ s.
                           ok_then (st_rename S tmp p s) (\<lambda>_ s.
                           st_sync_dir S dir s)))))))"

section \<open>Scanning one segment\<close>

text \<open>\<open>frames crc ps\<close> is a segment holding the records \<open>ps\<close>; \<open>records_ok\<close> says that every
  record's length fits the length field.\<close>

definition frames :: "crc \<Rightarrow> bytes list \<Rightarrow> bytes" where
  "frames crc ps = concat (map (encode crc) ps)"

definition records_ok :: "bytes list \<Rightarrow> bool" where
  "records_ok ps \<longleftrightarrow> (\<forall>p\<in>set ps. length p < 2 ^ 32)"

lemma frames_simps [simp]:
  "frames crc [] = []" "frames crc (p # ps) = encode crc p @ frames crc ps"
  "frames crc (ps @ qs) = frames crc ps @ frames crc qs"
  by (simp_all add: frames_def)

lemma records_ok_simps [simp]:
  "records_ok []" "records_ok (p # ps) \<longleftrightarrow> length p < 2 ^ 32 \<and> records_ok ps"
  "records_ok (ps @ qs) \<longleftrightarrow> records_ok ps \<and> records_ok qs"
  by (auto simp: records_ok_def)

text \<open>The scan runs through whole frames, whatever follows them.\<close>

lemma scan_frames:
  assumes "records_ok ps" and "addressable (pre @ frames crc ps @ rest)"
  shows "scan_from crc (pre @ frames crc ps @ rest) (length pre) out
    = scan_from crc (pre @ frames crc ps @ rest) (length pre + length (frames crc ps)) (out @ ps)"
  using assms
proof (induction ps arbitrary: pre out)
  case (Cons p ps)
  let ?buf = "pre @ frames crc (p # ps) @ rest"
  have d: "decode crc ?buf (length pre) = Inr \<lparr>payload = p, total_len = length (encode crc p)\<rparr>"
    using Cons.prems by (intro decode_at) auto
  have "scan_from crc ?buf (length pre) out
    = scan_from crc ?buf (length (pre @ encode crc p)) (out @ [p])"
    using d by (subst scan_from.simps) simp
  also have "\<dots> = scan_from crc ?buf (length pre + length (frames crc (p # ps))) (out @ p # ps)"
    using Cons.IH [of "pre @ encode crc p" "out @ [p]"] Cons.prems by (simp add: add.assoc)
  finally show ?case .
qed simp

text \<open>What the scan returns is a partition of the buffer into frames and an undecodable rest.\<close>

lemma scan_sound:
  assumes "scan_from crc buf off out = ((n, r), out')" and "off \<le> length buf"
  shows "\<exists>ps. out' = out @ ps \<and> off \<le> n \<and> n \<le> length buf \<and> records_ok ps
      \<and> take (n - off) (drop off buf) = frames crc ps
      \<and> (case r of Clean \<Rightarrow> n = length buf
         | StopTruncated \<Rightarrow> n \<noteq> length buf \<and> decode crc buf n = Inl Truncated
         | StopBadCrc \<Rightarrow> n \<noteq> length buf \<and> decode crc buf n = Inl BadCrc)"
  using assms
proof (induction crc buf off out rule: scan_from.induct)
  case (1 crc buf off out)
  show ?case
  proof (cases "off < length buf \<and> (\<exists>f. decode crc buf off = Inr f)")
    case True
    then obtain f where f: "decode crc buf off = Inr f" and lt: "off \<noteq> length buf" by auto
    note s = decode_sound [OF f]
    have "scan_from crc buf (off + total_len f) (out @ [payload f]) = ((n, r), out')"
      using "1.prems"(1) lt by (subst (asm) scan_from.simps) (simp add: f)
    from "1.IH" [OF lt f this s(2)] obtain ps where ps: "out' = (out @ [payload f]) @ ps"
      "off + total_len f \<le> n" "n \<le> length buf" "records_ok ps"
      "take (n - (off + total_len f)) (drop (off + total_len f) buf) = frames crc ps"
      "case r of Clean \<Rightarrow> n = length buf
         | StopTruncated \<Rightarrow> n \<noteq> length buf \<and> decode crc buf n = Inl Truncated
         | StopBadCrc \<Rightarrow> n \<noteq> length buf \<and> decode crc buf n = Inl BadCrc" by blast
    have "slice buf off n = slice buf off (off + total_len f) @ slice buf (off + total_len f) n"
      using ps(2) by (intro slice_split) auto
    then have "take (n - off) (drop off buf) = frames crc (payload f # ps)"
      using s(1) ps(5) by (simp add: slice_def)
    with ps s(4) show ?thesis by (intro exI [of _ "payload f # ps"]) auto
  next
    case False
    then show ?thesis using "1.prems"
      by (subst (asm) scan_from.simps) (auto split: sum.splits frame_error.splits if_splits)
  qed
qed

lemma scan_buffer_frames:
  assumes "records_ok ps" and "addressable (frames crc ps)"
  shows "scan_buffer crc (frames crc ps) out = ((length (frames crc ps), Clean), out @ ps)"
  using scan_frames [OF assms(1), of "[]" crc "[]" out] assms(2)
  by (simp add: scan_buffer_def scan_from.simps [of crc "frames crc ps" "length (frames crc ps)"])

lemma scan_buffer_torn:
  assumes "records_ok ps" and "length p < 2 ^ 32" and k: "0 < k" "k < length (encode crc p)"
    and "addressable (frames crc ps @ take k (encode crc p))"
  shows "scan_buffer crc (frames crc ps @ take k (encode crc p)) out
    = ((length (frames crc ps), StopTruncated), out @ ps)"
proof -
  let ?buf = "frames crc ps @ take k (encode crc p)"
  have "decode crc ?buf (length (frames crc ps)) = Inl Truncated"
    using assms by (intro decode_torn [OF refl refl])
  then show ?thesis
    using scan_frames [OF assms(1), of "[]" crc "take k (encode crc p)" out] assms k
    by (simp add: scan_buffer_def scan_from.simps [of crc ?buf "length (frames crc ps)"])
qed

text \<open>Whatever bytes follow the synced frames, the scan returns at least the synced records.\<close>

lemma scan_buffer_prefix:
  assumes "records_ok ps" and "addressable (frames crc ps @ rest)"
  obtains qs n r where "scan_buffer crc (frames crc ps @ rest) out = ((n, r), out @ ps @ qs)"
    and "length (frames crc ps) \<le> n"
proof -
  let ?buf = "frames crc ps @ rest"
  obtain n r out' where e: "scan_from crc ?buf (length (frames crc ps)) (out @ ps) = ((n, r), out')"
    by (metis prod.collapse)
  from scan_sound [OF e] obtain qs where "out' = (out @ ps) @ qs" "length (frames crc ps) \<le> n" by auto
  then show ?thesis
    using that [of n r qs] e scan_frames [OF assms(1), of "[]" crc rest out] assms(2)
    by (simp add: scan_buffer_def)
qed

text \<open>A prefix of frames is whole frames followed by at most one torn frame, so that a truncated
  tail costs only the records it cuts.\<close>

lemma take_frames:
  "\<exists>j k'. take k (frames crc qs) = frames crc (take j qs) @ (case drop j qs of [] \<Rightarrow> [] | q # _ \<Rightarrow> take k' (encode crc q))
     \<and> (case drop j qs of [] \<Rightarrow> True | q # _ \<Rightarrow> k' < length (encode crc q))"
proof (induction qs arbitrary: k)
  case (Cons q qs)
  show ?case
  proof (cases "k < length (encode crc q)")
    case True
    then show ?thesis by (intro exI [of _ 0] exI [of _ k]) simp
  next
    case False
    obtain j k' where "take (k - length (encode crc q)) (frames crc qs)
        = frames crc (take j qs) @ (case drop j qs of [] \<Rightarrow> [] | q # _ \<Rightarrow> take k' (encode crc q))"
      "case drop j qs of [] \<Rightarrow> True | q # _ \<Rightarrow> k' < length (encode crc q)"
      using Cons.IH by blast
    then show ?thesis using False by (intro exI [of _ "Suc j"] exI [of _ k']) simp
  qed
qed simp

lemma scan_buffer_cut:
  assumes "records_ok (ps @ qs)" and mem: "addressable (frames crc (ps @ qs))"
  shows "\<exists>j n r. scan_buffer crc (frames crc ps @ take k (frames crc qs)) out = ((n, r), out @ ps @ take j qs)
      \<and> r \<noteq> StopBadCrc"
proof -
  obtain j k' where t: "take k (frames crc qs)
      = frames crc (take j qs) @ (case drop j qs of [] \<Rightarrow> [] | q # _ \<Rightarrow> take k' (encode crc q))"
    and k': "case drop j qs of [] \<Rightarrow> True | q # _ \<Rightarrow> k' < length (encode crc q)"
    using take_frames by blast
  have ok: "records_ok (ps @ take j qs)" using assms(1) by (auto simp: records_ok_def dest: in_set_takeD)
  have len: "length (frames crc ps @ take k (frames crc qs)) < 2 ^ 64"
    using mem by (simp add: addressable_def)
  let ?buf = "frames crc ps @ take k (frames crc qs)"
  show ?thesis
  proof (cases "k' = 0 \<or> drop j qs = []")
    case True
    then have "?buf = frames crc (ps @ take j qs)" by (auto simp: t split: list.splits)
    then show ?thesis using scan_buffer_frames [OF ok, of crc out] len
      by (auto simp: addressable_def simp del: frames_simps(3))
  next
    case False
    then obtain q where q: "drop j qs = q # drop (Suc j) qs" by (metis drop_Suc list.collapse tl_drop)
    then have "q \<in> set qs" by (metis in_set_dropD list.set_intros(1))
    then have lq: "length q < 2 ^ 32" using assms(1) by (auto simp: records_ok_def)
    have b: "?buf = frames crc (ps @ take j qs) @ take k' (encode crc q)" by (simp add: t q)
    have "scan_buffer crc ?buf out = ((length (frames crc (ps @ take j qs)), StopTruncated), out @ ps @ take j qs)"
      unfolding b using scan_buffer_torn [OF ok lq, of k' crc out] False k' q len b
      by (simp add: addressable_def)
    then show ?thesis by blast
  qed
qed

text \<open>With one bit of the last record flipped the scan returns the records before it.\<close>

lemma scan_buffer_flipped:
  assumes "records_ok ps" and x: "length x < 2 ^ 32" "flip_safe crc x" and i: "i < length (encode crc x)" "b < 8"
    and "addressable (frames crc ps @ flip_bit (encode crc x) i b)"
  shows "\<exists>r. scan_buffer crc (frames crc ps @ flip_bit (encode crc x) i b) out = ((length (frames crc ps), r), out @ ps)"
proof -
  let ?buf = "frames crc ps @ flip_bit (encode crc x) i b"
  obtain e where "decode crc ?buf (length (frames crc ps)) = Inl e"
    using decode_flipped [OF x(2,1) i] by blast
  then have "\<exists>r. scan_from crc ?buf (length (frames crc ps)) (out @ ps) = ((length (frames crc ps), r), out @ ps)"
    by (subst scan_from.simps) (cases e; simp)
  then show ?thesis
    using scan_frames [OF assms(1), of "[]" crc "flip_bit (encode crc x) i b" out] assms(6)
    by (simp add: scan_buffer_def)
qed

section \<open>The log as a set of files\<close>

text \<open>\<open>log_files crc dir v lead t buf\<close>: among the files \<open>v\<close>, the segments of \<open>dir\<close> are
  those of \<open>lead\<close>, each holding whole frames of the records given, and the last one \<open>t\<close> with
  the bytes \<open>buf\<close>.\<close>

definition log_files ::
  "crc \<Rightarrow> path \<Rightarrow> (path \<Rightarrow> bytes option) \<Rightarrow> (u64 \<times> bytes list) list \<Rightarrow> u64 \<Rightarrow> bytes \<Rightarrow> bool" where
  "log_files crc dir v lead t buf \<longleftrightarrow>
     sorted_wrt (<) (map fst lead @ [t])
     \<and> (\<forall>i. v (segment_path dir i) \<noteq> None \<longleftrightarrow> i \<in> set (map fst lead @ [t]))
     \<and> (\<forall>(i, ps)\<in>set lead. v (segment_path dir i) = Some (frames crc ps) \<and> records_ok ps
          \<and> addressable (frames crc ps))
     \<and> v (segment_path dir t) = Some buf \<and> canonical_names dir (dom v)"

lemma log_filesD:
  assumes "log_files crc dir v lead t buf"
  shows "sorted_list_of_set {i. v (segment_path dir i) \<noteq> None} = map fst lead @ [t]"
    and "(i, ps) \<in> set lead \<Longrightarrow> v (segment_path dir i) = Some (frames crc ps) \<and> records_ok ps
          \<and> addressable (frames crc ps)"
    and "v (segment_path dir t) = Some buf" and "canonical_names dir (dom v)"
    and "v (segment_path dir i) \<noteq> None \<longleftrightarrow> i \<in> insert t (fst ` set lead)"
    and "i \<in> fst ` set lead \<Longrightarrow> i < t"
proof -
  have "{i. v (segment_path dir i) \<noteq> None} = set (map fst lead @ [t])"
    using assms unfolding log_files_def by blast
  then show "sorted_list_of_set {i. v (segment_path dir i) \<noteq> None} = map fst lead @ [t]"
    using assms by (simp only: log_files_def strict_sorted_iff sorted_list_of_set.idem_if_sorted_distinct)
  show "v (segment_path dir i) \<noteq> None \<longleftrightarrow> i \<in> insert t (fst ` set lead)"
    using assms unfolding log_files_def by simp
qed (use assms in \<open>auto simp: log_files_def sorted_wrt_append\<close>)

lemma log_files_congI:
  assumes "log_files crc dir v lead t buf" and "\<And>i. v' (segment_path dir i) = v (segment_path dir i)"
    and "canonical_names dir (dom v')"
  shows "log_files crc dir v' lead t buf"
  using assms by (simp add: log_files_def)

text \<open>Scratch files are not segments.\<close>

lemma strip_tmp: "strip_suffix SUFFIX (zero_pad 20 ds @ ''.wal.tmp'') = None"
proof (rule ccontr)
  assume "strip_suffix SUFFIX (zero_pad 20 ds @ ''.wal.tmp'') \<noteq> None"
  then obtain t where "zero_pad 20 ds @ ''.wal.tmp'' = t @ SUFFIX"
    by (auto simp: strip_suffix_Some)
  then have "last (zero_pad 20 ds @ ''.wal.tmp'') = last (t @ SUFFIX)" by simp
  then show False by (simp add: SUFFIX_def)
qed

lemma tmp_path_simps [simp]:
  "parent (tmp_path dir i) = Some dir" "parse_segment_id (tmp_path dir i) = None"
  "tmp_path dir i \<noteq> segment_path dir j" "segment_path dir j \<noteq> tmp_path dir i"
proof -
  show none: "parse_segment_id (tmp_path dir i) = None"
    by (simp add: parse_segment_id_def tmp_path_def strip_tmp)
  show "tmp_path dir i \<noteq> segment_path dir j" "segment_path dir j \<noteq> tmp_path dir i"
    using none by (metis parse_segment_path option.distinct(1))+
qed (simp add: tmp_path_def)

context read_fs
begin

lemma recover_loop_lead:
  assumes "ok s" and "\<And>i ps. (i, ps) \<in> set lead \<Longrightarrow> view s (segment_path dir i) = Some (frames crc ps)
      \<and> records_ok ps \<and> addressable (frames crc ps)"
  shows "\<exists>res'. records res' = records res @ concat (map snd lead) \<and>
    recover_loop crc S (map (\<lambda>i. (i, segment_path dir i)) (map fst lead) @ rest) res s
    = recover_loop crc S rest res' s"
  using assms(2)
proof (induction lead arbitrary: res)
  case (Cons x lead)
  obtain i ps where x: "x = (i, ps)" by force
  have v: "view s (segment_path dir i) = Some (frames crc ps)" "records_ok ps" "addressable (frames crc ps)"
    using Cons.prems [of i ps] by (auto simp: x)
  let ?res = "\<lparr>records = records res @ ps, tail_segment = Some i,
    tail_valid_len = length (frames crc ps), stop_reason = Clean\<rparr>"
  obtain res' where r: "records res' = records ?res @ concat (map snd lead)"
    "recover_loop crc S (map (\<lambda>i. (i, segment_path dir i)) (map fst lead) @ rest) ?res s
      = recover_loop crc S rest res' s"
    using Cons.IH [of ?res] Cons.prems by auto
  show ?case
    by (rule exI [of _ res']) (use r in \<open>simp add: x read_all_view [OF assms(1)] v scan_buffer_frames\<close>)
qed auto

text \<open>Recovery returns the records of the leading segments and what the scan of the last one
  yields.\<close>

lemma recover_log:
  assumes "ok s" and log: "log_files crc dir (view s) lead t buf"
    and scan: "scan_buffer crc buf (concat (map snd lead)) = ((n, r), recs)"
  shows "recover crc S dir s = Inr \<lparr>records = recs, tail_segment = Some t, tail_valid_len = n, stop_reason = r\<rparr>"
proof -
  note l = log_filesD [OF log]
  have segs: "list_segments S dir s = Inr (map (\<lambda>i. (i, segment_path dir i)) (map fst lead)
      @ [(t, segment_path dir t)])"
    using list_segments_view [OF assms(1) l(4)] l(1) by simp
  obtain res' where "records res' = concat (map snd lead)"
    "recover_loop crc S (map (\<lambda>i. (i, segment_path dir i)) (map fst lead) @ [(t, segment_path dir t)])
      default_recovered s = recover_loop crc S [(t, segment_path dir t)] res' s"
    using recover_loop_lead [OF assms(1) l(2), of lead default_recovered "[(t, segment_path dir t)]"]
    by (auto simp: default_recovered_def)
  then show ?thesis
    by (simp add: recover_def segs read_all_view [OF assms(1)] l(3) scan Let_def)
qed

lemma recover_empty:
  assumes "ok s" and "canonical_names dir (dom (view s))" and "\<And>i. view s (segment_path dir i) = None"
  shows "recover crc S dir s = Inr default_recovered"
  by (simp add: recover_def list_segments_view [OF assms(1,2)] assms(3) default_recovered_def)

end

context live_fs
begin

lemma truncate_tail_view:
  assumes "ok s" and "view s (segment_path dir t) = Some buf"
  shows "\<exists>s'. truncate_tail S dir t n s = (Inr (), s') \<and> ok s' \<and>
    view s' = (if length buf \<le> n then view s
               else (view s)(tmp_path dir t := None, segment_path dir t \<mapsto> take n buf))"
proof (cases "length buf \<le> n")
  case True
  then show ?thesis using assms fs_len [OF assms(1), of "segment_path dir t"]
    by (simp add: truncate_tail_def)
next
  case False
  have len: "st_len S (segment_path dir t) s = Inr (length buf)"
    using fs_len [OF assms(1)] assms(2) by simp
  have rd: "read_all S (segment_path dir t) s = Inr buf"
    using read_all_view [OF assms(1)] assms(2) by simp
  show ?thesis
    using False fs_replace [OF assms(1), of "tmp_path dir t" "segment_path dir t" "take n buf" dir]
    by (simp add: truncate_tail_def Let_def len rd)
qed

text \<open>Cutting the tail segment to the length recovery reported leaves a log that replays to the
  same records and ends cleanly.\<close>

lemma recover_truncate:
  assumes "ok s" and log: "log_files crc dir (view s) lead t buf" and mem: "addressable buf"
    and rec: "recover crc S dir s = Inr rec"
  shows "\<exists>s'. truncate_tail S dir t (tail_valid_len rec) s = (Inr (), s') \<and> ok s'
    \<and> recover crc S dir s' = Inr (rec\<lparr>stop_reason := Clean\<rparr>)
    \<and> (\<exists>ps. records_ok ps \<and> log_files crc dir (view s') lead t (frames crc ps)
            \<and> records rec = concat (map snd lead) @ ps)"
proof -
  obtain n r recs where sc: "scan_buffer crc buf (concat (map snd lead)) = ((n, r), recs)"
    by (metis prod.collapse)
  have rec': "rec = \<lparr>records = recs, tail_segment = Some t, tail_valid_len = n, stop_reason = r\<rparr>"
    using recover_log [OF assms(1) log sc] rec by simp
  from scan_sound [OF sc [unfolded scan_buffer_def]] obtain ps where ps: "recs = concat (map snd lead) @ ps"
    "records_ok ps" "n \<le> length buf" "take n buf = frames crc ps" by auto
  have n: "n = length (frames crc ps)" using ps(3,4) by (metis length_take min.absorb2)
  note l = log_filesD [OF log]
  obtain s' where s': "truncate_tail S dir t n s = (Inr (), s')" "ok s'"
    "view s' = (if length buf \<le> n then view s
               else (view s)(tmp_path dir t := None, segment_path dir t \<mapsto> take n buf))"
    using truncate_tail_view [OF assms(1) l(3)] by blast
  have canon: "canonical_names dir (dom (view s'))"
    using l(4) by (auto simp: s'(3) canonical_names_def)
  have whole: "buf = take n buf" if "length buf \<le> n" using that by simp
  have log': "log_files crc dir (view s') lead t (frames crc ps)"
  proof -
    have at: "view s' (segment_path dir i) = (if i = t then Some (take n buf) else view s (segment_path dir i))" for i
      using whole l(3) by (auto simp: s'(3))
    have "t \<notin> fst ` set lead" using l(6) by blast
    then have "\<And>i qs. (i, qs) \<in> set lead \<Longrightarrow> i \<noteq> t" by force
    then show ?thesis
      using log canon unfolding log_files_def at ps(4) [symmetric] by fastforce
  qed
  have "length (frames crc ps) < 2 ^ 64" using mem ps(3) n by (simp add: addressable_def)
  then have "scan_buffer crc (frames crc ps) (concat (map snd lead)) = ((n, Clean), recs)"
    using scan_buffer_frames [OF ps(2)] by (simp add: addressable_def n ps(1))
  from recover_log [OF s'(2) log' this] show ?thesis
    using s' log' ps(1,2) by (auto simp: rec')
qed

end

section \<open>Properties\<close>

text \<open>C28 (scan_truncated_tail): cutting a segment at any byte inside its unsynced records loses only
  the records that are cut: the scan returns the synced records and a prefix of the unsynced ones,
  and never reports corruption.\<close>

theorem scan_truncated_tail:
  assumes "records_ok (ps @ qs)" and "addressable (frames crc (ps @ qs))"
  shows "\<exists>j n r. scan_buffer crc (frames crc ps @ take k (frames crc qs)) [] = ((n, r), ps @ take j qs)
    \<and> r \<noteq> StopBadCrc"
  using scan_buffer_cut [OF assms, of k "[]"] by auto

theorem scan_truncated_tail_witness:
  "\<exists>j n r. scan_buffer (\<lambda>_. 7) (frames (\<lambda>_. 7) [[1]] @ take 12 (frames (\<lambda>_. 7) [[2, 3], [4]])) []
      = ((n, r), [[1]] @ take j [[2, 3], [4]]) \<and> r \<noteq> StopBadCrc"
  by (rule scan_truncated_tail) (simp_all add: addressable_def)

text \<open>C29 (scan_maximal): the scan splits any buffer into the frames of the records it returns and a
  rest that does not decode; it ends cleanly exactly when the rest is empty.\<close>

theorem scan_maximal:
  assumes "scan_buffer crc buf [] = ((n, r), ps)"
  shows "take n buf = frames crc ps \<and> n \<le> length buf \<and> (r = Clean \<longleftrightarrow> n = length buf)
    \<and> (n < length buf \<longrightarrow> (\<exists>e. decode crc buf n = Inl e))"
  using scan_sound [OF assms [unfolded scan_buffer_def]] by (auto split: stop_reason.splits)

theorem scan_maximal_witness:
  "take 9 (frames (\<lambda>_. 7) [[1]]) = frames (\<lambda>_. 7) [[1]] \<and> 9 = length (frames (\<lambda>_. 7) [[1]])"
proof -
  have "scan_buffer (\<lambda>_. 7) (frames (\<lambda>_. 7) [[1]]) [] = ((9, Clean), [[1]])"
    using scan_buffer_frames [of "[[1]]" "\<lambda>_. 7" "[]"] by (simp add: addressable_def)
  from scan_maximal [OF this] show ?thesis by simp
qed

end
