(* ===== verification/Crash.thy ===== *)
theory Crash imports Storage begin

text \<open>
  The power-loss contract of a storage backend, and the rules that carry it through the engine's
  protocols. A \<open>disk\<close> is the abstract state: what the process sees, what of each file has been
  synced, which durable directory entry refers to which live file, and the contents each path may
  have after a power loss. The locale \<open>crash_fs\<close> says that a backend whose power may be cut at
  any operation acts on the disk as specified, or has stopped.
\<close>

named_theorems disk_simps \<open>the components of an updated disk\<close>

section \<open>The abstract disk\<close>

record disk =
  d_view :: "path \<Rightarrow> bytes option"
  d_sync :: "path \<Rightarrow> bytes option"
  d_linked :: "path \<Rightarrow> path \<Rightarrow> bool"
  d_images :: "path \<Rightarrow> bytes option set"

text \<open>A file whose synced bytes are \<open>d\<close> and whose content is \<open>c\<close> may keep any prefix of its
  unsynced tail, or the whole tail with one bit flipped.\<close>

definition tears :: "bytes \<Rightarrow> bytes \<Rightarrow> bytes set" where
  "tears d c = {d @ take k (drop (length d) c) |k. True}
     \<union> {d @ flip_bit (drop (length d) c) i b |i b. i < length (drop (length d) c) \<and> b < 8}"

definition disk_create :: "path \<Rightarrow> disk \<Rightarrow> disk" where
  "disk_create p D = D\<lparr>d_view := (d_view D)(p \<mapsto> []), d_sync := (d_sync D)(p \<mapsto> []),
     d_linked := (\<lambda>r q. r \<noteq> p \<and> d_linked D r q)\<rparr>"

definition disk_append :: "path \<Rightarrow> bytes \<Rightarrow> disk \<Rightarrow> disk" where
  "disk_append p x D = (let c = the (d_view D p) @ x in
     D\<lparr>d_view := (d_view D)(p \<mapsto> c),
       d_images := (\<lambda>q. if d_linked D p q then Some ` tears (the (d_sync D p)) c else d_images D q)\<rparr>)"

definition overwrite :: "nat \<Rightarrow> bytes \<Rightarrow> bytes \<Rightarrow> bytes" where
  "overwrite off x c = take off c @ x @ drop (off + length x) c"

definition disk_write_at :: "path \<Rightarrow> nat \<Rightarrow> bytes \<Rightarrow> disk \<Rightarrow> disk" where
  "disk_write_at p off x D = (let c = overwrite off x (the (d_view D p)) in
     D\<lparr>d_view := (d_view D)(p \<mapsto> c),
       d_images := (\<lambda>q. if d_linked D p q then Some ` tears (the (d_sync D p)) c else d_images D q)\<rparr>)"

definition disk_sync_file :: "path \<Rightarrow> disk \<Rightarrow> disk" where
  "disk_sync_file p D = D\<lparr>d_sync := (d_sync D)(p := d_view D p),
     d_images := (\<lambda>q. if d_linked D p q then {d_view D p} else d_images D q)\<rparr>"

definition disk_sync_dir :: "path \<Rightarrow> disk \<Rightarrow> disk" where
  "disk_sync_dir dir D = D\<lparr>
     d_linked := (\<lambda>r q. if parent q = Some dir then r = q \<and> d_view D q \<noteq> None else d_linked D r q),
     d_images := (\<lambda>q. if parent q = Some dir
        then (case d_view D q of None \<Rightarrow> {None} | Some c \<Rightarrow> Some ` tears (the (d_sync D q)) c)
        else d_images D q)\<rparr>"

definition disk_rename :: "path \<Rightarrow> path \<Rightarrow> disk \<Rightarrow> disk" where
  "disk_rename p q D = D\<lparr>d_view := (d_view D)(p := None, q := d_view D p),
     d_sync := (d_sync D)(p := None, q := d_sync D p),
     d_linked := (\<lambda>r x. if r = p then False else if r = q then d_linked D p x else d_linked D r x)\<rparr>"

definition disk_delete :: "path \<Rightarrow> disk \<Rightarrow> disk" where
  "disk_delete p D = D\<lparr>d_view := (d_view D)(p := None), d_sync := (d_sync D)(p := None),
     d_linked := (\<lambda>r q. r \<noteq> p \<and> d_linked D r q)\<rparr>"

text \<open>The result of writing \<open>d\<close> to a scratch file and renaming it over \<open>dst\<close>, made durable.\<close>

definition disk_replace :: "path \<Rightarrow> path \<Rightarrow> path \<Rightarrow> bytes \<Rightarrow> disk \<Rightarrow> disk" where
  "disk_replace dir tmp dst d D = disk_sync_dir dir (D\<lparr>
     d_view := (d_view D)(tmp := None, dst \<mapsto> d), d_sync := (d_sync D)(tmp := None, dst \<mapsto> d),
     d_linked := (\<lambda>r q. r \<noteq> tmp \<and> r \<noteq> dst \<and> d_linked D r q)\<rparr>)"

lemmas disk_op_defs = disk_create_def disk_append_def disk_sync_file_def disk_sync_dir_def
  disk_rename_def disk_delete_def

lemma tears_same [simp]: "tears c c = {c}"
  by (auto simp: tears_def)

lemma tears_prefix: "b \<in> tears d c \<Longrightarrow> \<exists>rest. b = d @ rest"
  by (auto simp: tears_def)

lemma tears_length: "b \<in> tears d c \<Longrightarrow> length d \<le> length c \<Longrightarrow> length b \<le> length c"
  by (auto simp: tears_def)

section \<open>Running until the power fails\<close>

text \<open>
  \<open>runs up disk down m C Q s\<close>: executing \<open>m\<close> from \<open>s\<close> either completes on a backend that is
  still up, with \<open>Q\<close> of the result and the disk; or the power failed on a disk that satisfies
  \<open>C\<close>, and if \<open>m\<close> nevertheless reported success then \<open>Q\<close> holds of that disk too (the power
  failed right after the last operation of \<open>m\<close>). The observation \<open>disk\<close> may also carry the
  in-memory state of the component that runs on the backend.
\<close>

definition runs ::
  "('s \<Rightarrow> bool) \<Rightarrow> ('s \<Rightarrow> 'd) \<Rightarrow> ('s \<Rightarrow> 'd \<Rightarrow> bool) \<Rightarrow> ('s \<Rightarrow> ('e + 'a) \<times> 's)
    \<Rightarrow> ('d \<Rightarrow> bool) \<Rightarrow> ('e + 'a \<Rightarrow> 'd \<Rightarrow> bool) \<Rightarrow> 's \<Rightarrow> bool" where
  "runs up disk down m C Q s \<longleftrightarrow>
     (up (snd (m s)) \<and> Q (fst (m s)) (disk (snd (m s))))
     \<or> (\<exists>D. down (snd (m s)) D \<and> C D \<and> (\<forall>y. fst (m s) = Inr y \<longrightarrow> Q (Inr y) D))"

text \<open>\<open>inert\<close>: on a stopped backend the code fails and changes nothing.\<close>

definition inert :: "('s \<Rightarrow> 'd \<Rightarrow> bool) \<Rightarrow> ('s \<Rightarrow> ('e + 'a) \<times> 's) \<Rightarrow> bool" where
  "inert down m \<longleftrightarrow> (\<forall>s D. down s D \<longrightarrow> (\<exists>e. m s = (Inl e, s)))"

locale crash_fs =
  fixes S :: "'fs storage"
    and up :: "'fs \<Rightarrow> bool"
    and disk :: "'fs \<Rightarrow> disk"
    and down :: "'fs \<Rightarrow> disk \<Rightarrow> bool"
    and survivor :: "'fs \<Rightarrow> path \<Rightarrow> bytes option"
  assumes cf_reads: "read_fs S up (\<lambda>s. d_view (disk s))"
    and cf_create: "up s \<Longrightarrow> d_view (disk s) p = None \<Longrightarrow> \<exists>s'. st_create S p s = (Inr (), s') \<and>
      (up s' \<and> disk s' = disk_create p (disk s) \<or> down s' (disk_create p (disk s)))"
    and cf_append: "up s \<Longrightarrow> d_view (disk s) p = Some c \<Longrightarrow> \<exists>s'. st_append S p x s = (Inr (length c), s') \<and>
      (up s' \<and> disk s' = disk_append p x (disk s) \<or> down s' (disk_append p x (disk s)))"
    and cf_sync_file: "up s \<Longrightarrow> d_view (disk s) p = Some c \<Longrightarrow> \<exists>s'. st_sync_file S p s = (Inr (), s') \<and>
      (up s' \<and> disk s' = disk_sync_file p (disk s) \<or> down s' (disk_sync_file p (disk s)))"
    and cf_sync_dir: "up s \<Longrightarrow> \<exists>s'. st_sync_dir S dir s = (Inr (), s') \<and>
      (up s' \<and> disk s' = disk_sync_dir dir (disk s) \<or> down s' (disk_sync_dir dir (disk s)))"
    and cf_rename: "up s \<Longrightarrow> d_view (disk s) p = Some c \<Longrightarrow> p \<noteq> q \<Longrightarrow> parent p = parent q \<Longrightarrow>
      \<exists>s'. st_rename S p q s = (Inr (), s') \<and>
      (up s' \<and> disk s' = disk_rename p q (disk s) \<or> down s' (disk_rename p q (disk s)))"
    and cf_delete: "up s \<Longrightarrow> d_view (disk s) p = Some c \<Longrightarrow> \<exists>s'. st_delete S p s = (Inr (), s') \<and>
      (up s' \<and> disk s' = disk_delete p (disk s) \<or> down s' (disk_delete p (disk s)))"
    and cf_delete_missing: "up s \<Longrightarrow> d_view (disk s) p = None \<Longrightarrow> st_delete S p s = (Inl (NotFound p), s)"
    and cf_missing: "up s \<Longrightarrow> d_view (disk s) p = None \<Longrightarrow> st_append S p x s = (Inl (NotFound p), s)"
      "up s \<Longrightarrow> d_view (disk s) p = None \<Longrightarrow> st_sync_file S p s = (Inl (NotFound p), s)"
      "up s \<Longrightarrow> d_view (disk s) p = None \<Longrightarrow> st_rename S p q s = (Inl (NotFound p), s)"
    and cf_excl: "up s \<Longrightarrow> \<not> down s D"
    and cf_create_exists: "up s \<Longrightarrow> d_view (disk s) p = Some c \<Longrightarrow> st_create S p s = (Inl (AlreadyExists p), s)"
    and cf_down: "down s D \<Longrightarrow> \<exists>e. st_create S p s = (Inl e, s)" "down s D \<Longrightarrow> \<exists>e. st_append S p x s = (Inl e, s)"
      "down s D \<Longrightarrow> \<exists>e. st_sync_file S p s = (Inl e, s)" "down s D \<Longrightarrow> \<exists>e. st_sync_dir S p s = (Inl e, s)"
      "down s D \<Longrightarrow> \<exists>e. st_rename S p q s = (Inl e, s)" "down s D \<Longrightarrow> \<exists>e. st_delete S p s = (Inl e, s)"
    and cf_survivor: "down s D \<Longrightarrow> survivor s p \<in> d_images D p"
    and cf_down_reads: "read_fs S (\<lambda>s. \<exists>D. down s D) survivor"

sublocale crash_fs \<subseteq> read_fs S up "\<lambda>s. d_view (disk s)"
  by (rule cf_reads)

text \<open>Reads are not stopped: on a stopped backend they see what survived.\<close>

sublocale crash_fs \<subseteq> down_reads: read_fs S "\<lambda>s. \<exists>D. down s D" survivor
  by (rule cf_down_reads)

section \<open>Rules\<close>

lemma runs_pure:
  assumes "up s" and "Q r (disk s)"
  shows "runs up disk down (\<lambda>s. (r, s)) C Q s"
  using assms by (simp add: runs_def)

lemma runs_cong: "m s = m' s \<Longrightarrow> runs u d w m C Q s = runs u d w m' C Q s"
  by (simp add: runs_def)

lemma runs_weaken:
  assumes "runs up disk down m C Q s" and "\<And>D. C D \<Longrightarrow> C' D" and "\<And>r D. Q r D \<Longrightarrow> Q' r D"
  shows "runs up disk down m C' Q' s"
  using assms unfolding runs_def by blast

text \<open>The sequencing rule: on a stopped backend the continuation changes nothing, and it may
  report success only if the disk already satisfies the postcondition.\<close>

lemma runs_then_quiet:
  assumes m: "runs up disk down m C (\<lambda>r D. \<exists>x. r = Inr x \<and> P x D) s"
    and f: "\<And>x s'. up s' \<Longrightarrow> P x (disk s') \<Longrightarrow> runs up disk down (f x) C Q s'"
    and quiet: "\<And>x s' D. down s' D \<Longrightarrow> P x D \<Longrightarrow>
      \<exists>r. f x s' = (r, s') \<and> (\<forall>y. r = Inr y \<longrightarrow> Q (Inr y) D)"
  shows "runs up disk down (\<lambda>s. ok_then (m s) f) C Q s"
proof -
  obtain r s' where r: "m s = (r, s')" by force
  show ?thesis
  proof (cases "up s' \<and> (\<exists>x. r = Inr x \<and> P x (disk s'))")
    case True
    then obtain x where "r = Inr x" "runs up disk down (f x) C Q s'" using f by blast
    then show ?thesis by (simp add: runs_def r)
  next
    case False
    then obtain D where D: "down s' D" "C D" "\<forall>x. r = Inr x \<longrightarrow> P x D"
      using m by (auto simp: runs_def r)
    show ?thesis
    proof (cases r)
      case (Inl e)
      then show ?thesis using D by (auto simp: runs_def r)
    next
      case (Inr x)
      obtain r' where "f x s' = (r', s')" "\<forall>y. r' = Inr y \<longrightarrow> Q (Inr y) D"
        using quiet [OF D(1), of x] D(3) Inr by blast
      then show ?thesis using D by (auto simp: runs_def r Inr)
    qed
  qed
qed

lemma runs_then:
  assumes "runs up disk down m C (\<lambda>r D. \<exists>x. r = Inr x \<and> P x D) s"
    and "\<And>x s'. up s' \<Longrightarrow> P x (disk s') \<Longrightarrow> runs up disk down (f x) C Q s'"
    and inert: "\<And>x. inert down (f x)"
  shows "runs up disk down (\<lambda>s. ok_then (m s) f) C Q s"
proof (rule runs_then_quiet [OF assms(1,2)])
  fix x s' D assume "down s' D"
  then obtain e where "f x s' = (Inl e, s')" using inert [of x] unfolding inert_def by blast
  then show "\<exists>r. f x s' = (r, s') \<and> (\<forall>y. r = Inr y \<longrightarrow> Q (Inr y) D)" by simp
qed

text \<open>The last step of a method returns a pure value after its last operation.\<close>

lemma runs_then_pure:
  assumes "runs up disk down m C (\<lambda>r D. \<exists>x. r = Inr x \<and> Q (Inr (g x)) D) s"
  shows "runs up disk down (\<lambda>s. ok_then (m s) (\<lambda>x s. (Inr (g x), s))) C Q s"
proof -
  obtain r s' where r: "m s = (r, s')" by force
  show ?thesis using assms by (cases r) (auto simp: runs_def r)
qed

lemma runs_then_result:
  assumes "runs up disk down m C (\<lambda>r D. \<exists>x. r = Inr x \<and> (\<forall>s'. Q (Inr (g x s')) D)) s"
  shows "runs up disk down (\<lambda>s. ok_then (m s) (\<lambda>x s. (Inr (g x s), s))) C Q s"
proof -
  obtain r s' where r: "m s = (r, s')" by force
  show ?thesis using assms by (cases r) (auto simp: runs_def r)
qed

lemma runs_err_map:
  assumes "runs up disk down m C (\<lambda>r D. Q (case r of Inl e \<Rightarrow> Inl (g e) | Inr x \<Rightarrow> Inr x) D) s"
  shows "runs up disk down (\<lambda>s. err_map g (m s)) C Q s"
proof -
  obtain r s' where r: "m s = (r, s')" by force
  show ?thesis using assms by (cases r) (auto simp: runs_def r)
qed

lemma inert_err_map [intro]: "inert down m \<Longrightarrow> inert down (\<lambda>s. err_map g (m s))"
  unfolding inert_def by fastforce

lemma inert_then [intro]: "inert down m \<Longrightarrow> inert down (\<lambda>s. ok_then (m s) f)"
  unfolding inert_def by fastforce

section \<open>Components with memory\<close>

text \<open>
  A component that keeps memory of its own beside the backend runs on the pair of both. As long as
  it does not acknowledge anything, only a weaker judgement is needed: either the power is still on
  and \<open>Q\<close> holds of the memory and the disk, or it failed on a disk that satisfies \<open>C\<close>.
\<close>

definition reaches ::
  "('s \<Rightarrow> bool) \<Rightarrow> ('s \<Rightarrow> 'd) \<Rightarrow> ('s \<Rightarrow> 'd \<Rightarrow> bool) \<Rightarrow> ('m \<times> 's \<Rightarrow> ('e + 'a) \<times> 'm \<times> 's)
    \<Rightarrow> ('d \<Rightarrow> bool) \<Rightarrow> ('e + 'a \<Rightarrow> 'm \<Rightarrow> 'd \<Rightarrow> bool) \<Rightarrow> 'm \<times> 's \<Rightarrow> bool" where
  "reaches up disk down f C Q ms \<longleftrightarrow>
     (let (r, (m, s)) = f ms in up s \<and> Q r m (disk s) \<or> (\<exists>D. down s D \<and> C D))"

text \<open>\<open>stays\<close>: on a stopped backend the code leaves the backend alone.\<close>

definition stays :: "('s \<Rightarrow> 'd \<Rightarrow> bool) \<Rightarrow> ('m \<times> 's \<Rightarrow> ('e + 'a) \<times> 'm \<times> 's) \<Rightarrow> bool" where
  "stays down f \<longleftrightarrow> (\<forall>m s D. down s D \<longrightarrow> snd (snd (f (m, s))) = s)"

lemma stays_then:
  assumes "stays down f" and "\<And>x. stays down (g x)"
  shows "stays down (\<lambda>ms. ok_then (f ms) g)"
  unfolding stays_def
proof (intro allI impI)
  fix m s D assume d: "down s D"
  obtain r m' s' where r: "f (m, s) = (r, (m', s'))" by (metis prod.exhaust)
  have "snd (snd (f (m, s))) = s" using assms(1) d unfolding stays_def by blast
  then have "s' = s" by (simp add: r)
  then show "snd (snd (ok_then (f (m, s)) g)) = s"
    using assms(2) d by (cases r) (auto simp: r stays_def)
qed

lemma stays_if: "stays down f \<Longrightarrow> stays down g \<Longrightarrow> stays down (\<lambda>ms. if P ms then f ms else g ms)"
  by (simp add: stays_def)

lemma stays_pure: "(\<And>m s. snd (snd (f (m, s))) = s) \<Longrightarrow> stays down f"
  by (simp add: stays_def)

lemma reaches_pure:
  assumes "up s" and "f (m, s) = (r, (m', s))" and "Q r m' (disk s)"
  shows "reaches up disk down f C Q (m, s)"
  using assms by (simp add: reaches_def)

lemma reaches_weaken:
  assumes "reaches up disk down f C Q ms" and "\<And>D. C D \<Longrightarrow> C' D" and "\<And>r m D. Q r m D \<Longrightarrow> Q' r m D"
  shows "reaches up disk down f C' Q' ms"
  using assms unfolding reaches_def by (auto split: prod.splits)

lemma reaches_then:
  assumes f: "reaches up disk down f C (\<lambda>r m D. \<exists>x. r = Inr x \<and> P x m D) ms"
    and g: "\<And>x m s. up s \<Longrightarrow> P x m (disk s) \<Longrightarrow> reaches up disk down (g x) C Q (m, s)"
    and stays: "\<And>x. stays down (g x)"
  shows "reaches up disk down (\<lambda>ms. ok_then (f ms) g) C Q ms"
proof -
  obtain r m s where r: "f ms = (r, (m, s))" by (metis prod.exhaust)
  show ?thesis
  proof (cases "up s \<and> (\<exists>x. r = Inr x \<and> P x m (disk s))")
    case True
    then obtain x where "r = Inr x" "reaches up disk down (g x) C Q (m, s)" using g by blast
    then show ?thesis by (simp add: reaches_def r)
  next
    case False
    then obtain D where D: "down s D" "C D" using f by (auto simp: reaches_def r)
    then have "snd (snd (g x (m, s))) = s" for x using stays [of x] unfolding stays_def by blast
    then show ?thesis using D by (cases r) (auto simp: reaches_def r case_prod_unfold Let_def)
  qed
qed

text \<open>Wrapping the result and the memory, or only the error.\<close>

lemma reaches_map:
  assumes "reaches up disk down f C (\<lambda>r m D. Q (g r) (h m) D) ms"
  shows "reaches up disk down (\<lambda>ms. let (r, (m, s)) = f ms in (g r, (h m, s))) C Q ms"
  using assms by (auto simp: reaches_def split: prod.splits)

lemma reaches_err_map:
  assumes "reaches up disk down f C (\<lambda>r m D. Q (case r of Inl e \<Rightarrow> Inl (g e) | Inr x \<Rightarrow> Inr x) m D) ms"
  shows "reaches up disk down (\<lambda>ms. err_map g (f ms)) C Q ms"
proof -
  obtain r m s where r: "f ms = (r, (m, s))" by (metis prod.exhaust)
  show ?thesis using assms by (cases r) (auto simp: reaches_def r)
qed

lemma reaches_cong: "f ms = f' ms \<Longrightarrow> reaches u d w f C Q ms = reaches u d w f' C Q ms"
  by (simp add: reaches_def)

lemma stays_err_map: "stays down f \<Longrightarrow> stays down (\<lambda>ms. err_map g (f ms))"
  by (simp add: stays_def err_map_def split: sum.split)

text \<open>One call of the backend that updates the memory: by \<open>m1\<close> on failure and \<open>m2\<close> on success.\<close>

definition mem_call ::
  "('s \<Rightarrow> ('e + 'a) \<times> 's) \<Rightarrow> ('e \<Rightarrow> 'f) \<Rightarrow> 'm \<Rightarrow> ('a \<Rightarrow> 'f + 'b) \<Rightarrow> ('a \<Rightarrow> 'm) \<Rightarrow> 's \<Rightarrow> ('f + 'b) \<times> 'm \<times> 's" where
  "mem_call op g m1 h m2 s = (let (r, s') = op s in
     case r of Inl e \<Rightarrow> (Inl (g e), (m1, s')) | Inr x \<Rightarrow> (h x, (m2 x, s')))"

lemma reaches_mem_call:
  assumes "runs up disk down op C (\<lambda>r D. \<exists>x. r = Inr x \<and> Q (h x) (m2 x) D) s"
    and "f (m0, s) = mem_call op g m1 h m2 s"
  shows "reaches up disk down f C Q (m0, s)"
proof -
  obtain r s' where r: "op s = (r, s')" by force
  show ?thesis using assms by (cases r) (auto simp: runs_def reaches_def r mem_call_def)
qed

lemma stays_mem_call:
  assumes "inert down op"
  shows "down s D \<Longrightarrow> snd (snd (mem_call op g m1 h m2 s)) = s"
  using assms unfolding inert_def mem_call_def by fastforce

text \<open>The memory goes out of scope and the code continues on the backend.\<close>

lemma runs_after_reaches:
  assumes f: "reaches up disk down f C (\<lambda>r m D. \<exists>x. r = Inr x \<and> P x m D) (m0, s)"
    and k: "\<And>x m s'. up s' \<Longrightarrow> P x m (disk s') \<Longrightarrow> runs up disk down (k x m) C Q s'"
    and inert: "\<And>x m. inert down (k x m)"
  shows "runs up disk down (\<lambda>s. let (r, (m, s')) = f (m0, s) in ok_then (r, s') (\<lambda>x. k x m)) C Q s"
proof -
  obtain r m s' where r: "f (m0, s) = (r, (m, s'))" by (metis prod.exhaust)
  show ?thesis
  proof (cases "up s' \<and> (\<exists>x. r = Inr x \<and> P x m (disk s'))")
    case True
    then obtain x where "r = Inr x" "runs up disk down (k x m) C Q s'" using k by blast
    then show ?thesis by (simp add: runs_def r)
  next
    case False
    then obtain D where D: "down s' D" "C D" using f by (auto simp: reaches_def r)
    show ?thesis
    proof (cases r)
      case (Inr x)
      obtain e where "k x m s' = (Inl e, s')" using inert [of x m] D(1) unfolding inert_def by blast
      then show ?thesis using D by (auto simp: runs_def r Inr)
    qed (use D in \<open>auto simp: runs_def r\<close>)
  qed
qed

section \<open>A file that no durable directory entry names yet\<close>

text \<open>\<open>disk_file p c d D\<close>: the file \<open>p\<close>, created since the last directory sync, has content \<open>c\<close>
  of which \<open>d\<close> is synced. A power loss does not show it.\<close>

definition disk_file :: "path \<Rightarrow> bytes \<Rightarrow> bytes \<Rightarrow> disk \<Rightarrow> disk" where
  "disk_file p c d D = D\<lparr>d_view := (d_view D)(p \<mapsto> c), d_sync := (d_sync D)(p \<mapsto> d),
     d_linked := (\<lambda>r q. r \<noteq> p \<and> d_linked D r q)\<rparr>"

lemma disk_file_sel [simp]:
  "d_view (disk_file p c d D) = (d_view D)(p \<mapsto> c)" "d_images (disk_file p c d D) = d_images D"
  "d_sync (disk_file p c d D) = (d_sync D)(p \<mapsto> d)"
  by (simp_all add: disk_file_def)

lemma disk_file_create: "disk_create p D = disk_file p [] [] D"
  by (simp add: disk_create_def disk_file_def)

lemma disk_file_append: "disk_append p x (disk_file p c d D) = disk_file p (c @ x) d D"
  by (intro disk.equality) (simp_all add: disk_append_def disk_file_def Let_def)

lemma disk_file_sync: "disk_sync_file p (disk_file p c d D) = disk_file p c c D"
  by (intro disk.equality) (simp_all add: disk_sync_file_def disk_file_def)

context crash_fs
begin

lemma inert_ops [simp, intro]:
  "inert down (st_create S p)" "inert down (st_append S p x)" "inert down (st_sync_file S p)"
  "inert down (st_sync_dir S p)" "inert down (st_rename S p q)" "inert down (st_delete S p)"
  unfolding inert_def by (intro allI impI, erule cf_down)+

lemma runs_create:
  assumes "up s" and "d_view (disk s) p = None" and "C (disk_create p (disk s))"
    and "Q (Inr ()) (disk_create p (disk s))"
  shows "runs up disk down (st_create S p) C Q s"
  using cf_create [OF assms(1,2)] assms(3,4) by (auto simp: runs_def)

lemma runs_append:
  assumes "up s" and "d_view (disk s) p = Some c" and "C (disk_append p x (disk s))"
    and "Q (Inr (length c)) (disk_append p x (disk s))"
  shows "runs up disk down (st_append S p x) C Q s"
  using cf_append [OF assms(1,2), of x] assms(3,4) by (auto simp: runs_def)

lemma runs_sync_file:
  assumes "up s" and "d_view (disk s) p = Some c" and "C (disk_sync_file p (disk s))"
    and "Q (Inr ()) (disk_sync_file p (disk s))"
  shows "runs up disk down (st_sync_file S p) C Q s"
  using cf_sync_file [OF assms(1,2)] assms(3,4) by (auto simp: runs_def)

lemma runs_sync_dir:
  assumes "up s" and "C (disk_sync_dir dir (disk s))" and "Q (Inr ()) (disk_sync_dir dir (disk s))"
  shows "runs up disk down (st_sync_dir S dir) C Q s"
  using cf_sync_dir [OF assms(1), of dir] assms(2,3) by (auto simp: runs_def)

lemma runs_rename:
  assumes "up s" and "d_view (disk s) p = Some c" and "p \<noteq> q" and "parent p = parent q"
    and "C (disk_rename p q (disk s))" and "Q (Inr ()) (disk_rename p q (disk s))"
  shows "runs up disk down (st_rename S p q) C Q s"
  using cf_rename [OF assms(1-4)] assms(5,6) by (auto simp: runs_def)

lemma runs_delete:
  assumes "up s" and "d_view (disk s) p = Some c" and "C (disk_delete p (disk s))"
    and "Q (Inr ()) (disk_delete p (disk s))"
  shows "runs up disk down (st_delete S p) C Q s"
  using cf_delete [OF assms(1,2)] assms(3,4) by (auto simp: runs_def)

text \<open>\<open>let _ = fs.delete(p)\<close> ignores the outcome: the continuation runs even on a stopped
  backend, where it fails.\<close>

lemma runs_delete_quiet:
  assumes s: "up s" and C: "C (disk_delete p (disk s))"
    and f: "\<And>s'. up s' \<Longrightarrow> disk s' = disk s \<and> d_view (disk s) p = None \<or> disk s' = disk_delete p (disk s)
      \<Longrightarrow> runs up disk down f C Q s'"
    and inert: "inert down f"
  shows "runs up disk down (\<lambda>s. f (snd (st_delete S p s))) C Q s"
proof (cases "d_view (disk s) p")
  case None
  then show ?thesis using cf_delete_missing [OF s None] f [OF s] by (simp add: runs_def)
next
  case (Some c)
  obtain s' where s': "st_delete S p s = (Inr (), s')"
    "up s' \<and> disk s' = disk_delete p (disk s) \<or> down s' (disk_delete p (disk s))"
    using cf_delete [OF s Some] by blast
  from s'(2) show ?thesis
  proof
    assume "up s' \<and> disk s' = disk_delete p (disk s)"
    then show ?thesis using f [of s'] by (simp add: runs_def s'(1))
  next
    assume d: "down s' (disk_delete p (disk s))"
    then obtain e where "f s' = (Inl e, s')" using inert unfolding inert_def by blast
    with d C show ?thesis by (auto simp: runs_def s'(1))
  qed
qed

text \<open>The scratch-file protocol is atomic: before its last operation completes, a power loss
  leaves every path as it was; afterwards the new content is durable.\<close>

lemma runs_replace:
  assumes s: "up s" and ne: "tmp \<noteq> dst" "parent tmp = parent dst"
    and C: "\<And>D. d_images D = d_images (disk s) \<Longrightarrow> C D" "C (disk_replace dir tmp dst d (disk s))"
    and Q: "Q (Inr ()) (disk_replace dir tmp dst d (disk s))"
  shows "runs up disk down (\<lambda>s. ok_then (st_create S tmp (snd (st_delete S tmp s)))
      (\<lambda>_ s. ok_then (st_append S tmp d s)
      (\<lambda>_ s. ok_then (st_sync_file S tmp s)
      (\<lambda>_ s. ok_then (st_rename S tmp dst s)
      (\<lambda>_ s. st_sync_dir S dir s))))) C Q s"
proof -
  let ?D0 = "disk s"
  let ?D1 = "disk_create tmp ?D0" let ?D2 = "disk_append tmp d ?D1"
  let ?D3 = "disk_sync_file tmp ?D2" let ?D4 = "disk_rename tmp dst ?D3"
  have re: "disk_create tmp (disk_delete tmp D) = disk_create tmp D" for D
    by (intro disk.equality) (auto simp: disk_create_def disk_delete_def fun_eq_iff)
  have im: "d_images ?D1 = d_images ?D0" "d_images ?D2 = d_images ?D0" "d_images ?D3 = d_images ?D0"
    "d_images ?D4 = d_images ?D0" "d_images (disk_delete tmp ?D0) = d_images ?D0"
    by (simp_all add: disk_op_defs Let_def)
  have fin: "disk_sync_dir dir ?D4 = disk_replace dir tmp dst d ?D0"
    unfolding disk_replace_def using ne(1)
    by (intro arg_cong [where f = "disk_sync_dir dir"] disk.equality)
       (auto simp: disk_create_def disk_append_def disk_sync_file_def disk_rename_def Let_def fun_eq_iff)
  have v: "d_view ?D1 tmp = Some []" "d_view ?D2 tmp = Some d" "d_view ?D3 tmp = Some d"
    by (simp_all add: disk_create_def disk_append_def disk_sync_file_def Let_def)
  let ?f4 = "\<lambda>s. st_sync_dir S dir s"
  let ?f3 = "\<lambda>s. ok_then (st_rename S tmp dst s) (\<lambda>_. ?f4)"
  let ?f2 = "\<lambda>s. ok_then (st_sync_file S tmp s) (\<lambda>_. ?f3)"
  let ?f1 = "\<lambda>s. ok_then (st_append S tmp d s) (\<lambda>_. ?f2)"
  let ?P = "\<lambda>D (_::'b) D'. D' = D"
  have f3: "runs up disk down ?f3 C Q s'" if "up s'" "disk s' = ?D3" for s'
  proof (rule runs_then [where P = "\<lambda>_ D. D = ?D4"])
    show "runs up disk down (st_rename S tmp dst) C (\<lambda>r D. \<exists>x. r = Inr x \<and> D = ?D4) s'"
      using v that im ne C(1) by (intro runs_rename [where c = d]) simp_all
    show "runs up disk down ?f4 C Q s''" if "up s''" "disk s'' = ?D4" for s''
      using that fin C(2) Q by (intro runs_sync_dir) simp_all
  qed (rule inert_ops)
  have f2: "runs up disk down ?f2 C Q s'" if "up s'" "disk s' = ?D2" for s'
  proof (rule runs_then [where P = "\<lambda>_ D. D = ?D3"])
    show "runs up disk down (st_sync_file S tmp) C (\<lambda>r D. \<exists>x. r = Inr x \<and> D = ?D3) s'"
      using v that im C(1) by (intro runs_sync_file [where c = d]) simp_all
  qed (use f3 in \<open>auto\<close>)
  have f1: "runs up disk down ?f1 C Q s'" if "up s'" "disk s' = ?D1" for s'
  proof (rule runs_then [where P = "\<lambda>_ D. D = ?D2"])
    show "runs up disk down (st_append S tmp d) C (\<lambda>r D. \<exists>x. r = Inr x \<and> D = ?D2) s'"
      using v that im C(1) by (intro runs_append [where c = "[]"]) simp_all
  qed (use f2 in \<open>auto\<close>)
  have f0: "runs up disk down (\<lambda>s. ok_then (st_create S tmp s) (\<lambda>_. ?f1)) C Q s'"
    if "up s'" "disk s' = ?D0 \<and> d_view ?D0 tmp = None \<or> disk s' = disk_delete tmp ?D0" for s'
  proof (rule runs_then [where P = "\<lambda>_ D. D = ?D1"])
    have "d_view (disk s') tmp = None" "disk_create tmp (disk s') = ?D1"
      using that(2) re by (auto simp: disk_delete_def)
    then show "runs up disk down (st_create S tmp) C (\<lambda>r D. \<exists>x. r = Inr x \<and> D = ?D1) s'"
      using that(1) im C(1) by (intro runs_create) simp_all
  qed (use f1 in \<open>auto\<close>)
  show ?thesis
    by (rule runs_delete_quiet [OF s _ f0]) (use im C(1) in \<open>auto\<close>)
qed

end

end
