(* ===== verification/Wal.thy ===== *)
theory Wal imports Recovery Crash begin

text \<open>
  The write-ahead log (\<open>src/src/wal/mod.rs\<close>): opening, appending in the three durability modes,
  segment rotation and reset. The state is the backend's state, the active segment behind the
  writer mutex and the group-commit coordinator; \<open>wal_cfg\<close> holds the fields that never change.
\<close>

section \<open>State\<close>

datatype durability = Always | GroupCommit | OsBuffered

definition is_durable :: "durability \<Rightarrow> bool" where
  "is_durable d = (case d of Always \<Rightarrow> True | GroupCommit \<Rightarrow> True | OsBuffered \<Rightarrow> False)"

definition DEFAULT_SEGMENT_SIZE :: nat where
  "DEFAULT_SEGMENT_SIZE = 4 * 1024 * 1024"

record coord =
  queue :: "(u64 \<times> bytes) list"
  next_seq :: u64
  synced_through :: u64
  leader_active :: bool

definition default_coord :: coord where
  "default_coord = \<lparr>queue = [], next_seq = 0, synced_through = 0, leader_active = False\<rparr>"

record wal_cfg =
  wal_dir :: path
  wal_durability :: durability
  segment_size :: nat

record 'fs wal =
  wfs :: 'fs
  active :: segment
  coord :: coord

text \<open>A storage call made by the log; an operation on the active segment.\<close>

definition on_fs :: "('fs \<Rightarrow> ('e + 'a) \<times> 'fs) \<Rightarrow> 'fs wal \<Rightarrow> ('e + 'a) \<times> 'fs wal" where
  "on_fs m W = (let (r, s) = m (wfs W) in (r, W\<lparr>wfs := s\<rparr>))"

definition active_append :: "'fs storage \<Rightarrow> bytes \<Rightarrow> 'fs wal \<Rightarrow> (storage_error + unit) \<times> 'fs wal" where
  "active_append S bs W =
     ok_then (on_fs (segment_append S (active W) bs) W) (\<lambda>g W. (Inr (), W\<lparr>active := g\<rparr>))"

definition active_sync :: "'fs storage \<Rightarrow> 'fs wal \<Rightarrow> (storage_error + unit) \<times> 'fs wal" where
  "active_sync S W = on_fs (segment_sync S (active W)) W"

section \<open>Opening\<close>

definition wal_open ::
  "crc \<Rightarrow> 'fs storage \<Rightarrow> path \<Rightarrow> 'fs \<Rightarrow> (storage_error + 'fs wal \<times> recovered) \<times> 'fs" where
  "wal_open crc S dir s =
     (case recover crc S dir s of Inl e \<Rightarrow> (Inl e, s)
      | Inr rec \<Rightarrow>
          ok_then (if stop_reason rec \<noteq> Clean
                   then (case tail_segment rec of Some tail \<Rightarrow> truncate_tail S dir tail (tail_valid_len rec) s
                         | None \<Rightarrow> (Inr (), s))
                   else (Inr (), s)) (\<lambda>_ s.
          (case list_segments S dir s of Inl e \<Rightarrow> (Inl e, s)
           | Inr segs \<Rightarrow>
               ok_then (if segs \<noteq> [] then (segment_open S dir (fst (last segs)) s, s)
                        else ok_then (segment_create S dir 1 s) (\<lambda>seg s.
                             ok_then (st_sync_dir S dir s) (\<lambda>_ s. (Inr seg, s)))) (\<lambda>seg s.
               (Inr (\<lparr>wfs = s, active = seg, coord = default_coord\<rparr>, rec), s)))))"

section \<open>Rotation and reset\<close>

definition maybe_rotate :: "'fs storage \<Rightarrow> wal_cfg \<Rightarrow> 'fs wal \<Rightarrow> (storage_error + unit) \<times> 'fs wal" where
  "maybe_rotate S cfg W =
     (if write_offset (active W) < segment_size cfg then (Inr (), W)
      else (let next_id = seg_id (active W) + 1
            in ok_then (active_sync S W) (\<lambda>_ W.
               ok_then (on_fs (segment_create S (wal_dir cfg) next_id) W) (\<lambda>seg W.
               ok_then (on_fs (st_sync_dir S (wal_dir cfg)) W) (\<lambda>_ W.
               (Inr (), W\<lparr>active := seg\<rparr>))))))"

fun delete_all :: "'fs storage \<Rightarrow> path list \<Rightarrow> 'fs \<Rightarrow> (storage_error + unit) \<times> 'fs" where
  "delete_all S [] s = (Inr (), s)"
| "delete_all S (p # ps) s = ok_then (st_delete S p s) (\<lambda>_ s. delete_all S ps s)"

definition wal_reset :: "'fs storage \<Rightarrow> wal_cfg \<Rightarrow> 'fs wal \<Rightarrow> (storage_error + unit) \<times> 'fs wal" where
  "wal_reset S cfg W =
     (case list_segments S (wal_dir cfg) (wfs W) of Inl e \<Rightarrow> (Inl e, W)
      | Inr existing \<Rightarrow>
          (let next_id = fold max (map fst existing) 0 + 1
           in ok_then (on_fs (segment_create S (wal_dir cfg) next_id) W) (\<lambda>fresh W.
              ok_then (on_fs (st_sync_dir S (wal_dir cfg)) W) (\<lambda>_ W.
              ok_then (on_fs (delete_all S (map snd existing)) W) (\<lambda>_ W.
              ok_then (on_fs (st_sync_dir S (wal_dir cfg)) W) (\<lambda>_ W.
              (Inr (), W\<lparr>active := fresh\<rparr>)))))))"

section \<open>Appending\<close>

definition commit_sync_now :: "'fs storage \<Rightarrow> wal_cfg \<Rightarrow> bytes \<Rightarrow> 'fs wal \<Rightarrow> (storage_error + unit) \<times> 'fs wal" where
  "commit_sync_now S cfg frame W =
     ok_then (active_append S frame W) (\<lambda>_ W.
     ok_then (active_sync S W) (\<lambda>_ W.
     maybe_rotate S cfg W))"

definition commit_buffered :: "'fs storage \<Rightarrow> wal_cfg \<Rightarrow> bytes \<Rightarrow> 'fs wal \<Rightarrow> (storage_error + unit) \<times> 'fs wal" where
  "commit_buffered S cfg frame W =
     ok_then (active_append S frame W) (\<lambda>_ W. maybe_rotate S cfg W)"

fun append_batch :: "'fs storage \<Rightarrow> (u64 \<times> bytes) list \<Rightarrow> 'fs wal \<Rightarrow> (storage_error + unit) \<times> 'fs wal" where
  "append_batch S [] W = (Inr (), W)"
| "append_batch S ((_, frame) # rest) W = ok_then (active_append S frame W) (\<lambda>_ W. append_batch S rest W)"

definition write_batch ::
  "'fs storage \<Rightarrow> wal_cfg \<Rightarrow> (u64 \<times> bytes) list \<Rightarrow> 'fs wal \<Rightarrow> (storage_error + unit) \<times> 'fs wal" where
  "write_batch S cfg batch W =
     ok_then (append_batch S batch W) (\<lambda>_ W.
     ok_then (active_sync S W) (\<lambda>_ W.
     maybe_rotate S cfg W))"

text \<open>
  The critical sections of \<open>commit_group\<close> under the coordinator mutex: enqueueing; deciding
  whether to return, park or lead; and publishing the outcome of a batch.
\<close>

definition group_enqueue :: "bytes \<Rightarrow> coord \<Rightarrow> u64 \<times> coord" where
  "group_enqueue frame c =
     (let seq = next_seq c + 1 in (seq, c\<lparr>next_seq := seq, queue := queue c @ [(seq, frame)]\<rparr>))"

datatype role = Acked | Park | Lead "(u64 \<times> bytes) list"

definition group_decide :: "u64 \<Rightarrow> coord \<Rightarrow> role \<times> coord" where
  "group_decide my_seq c =
     (if my_seq \<le> synced_through c then (Acked, c)
      else if leader_active c then (Park, c)
      else (Lead (queue c), c\<lparr>leader_active := True, queue := []\<rparr>))"

definition group_publish :: "u64 \<Rightarrow> (u64 \<times> bytes) list \<Rightarrow> storage_error + unit \<Rightarrow> coord \<Rightarrow> coord" where
  "group_publish my_seq batch io c =
     (let highest = (if batch = [] then my_seq else fst (last batch));
          c1 = c\<lparr>leader_active := False\<rparr>
      in case io of
           Inr _ \<Rightarrow> c1\<lparr>synced_through := max (synced_through c1) highest\<rparr>
         | Inl _ \<Rightarrow> c1\<lparr>queue := batch @ queue c1\<rparr>)"

text \<open>
  \<open>commit_group\<close> run by one thread with no other writer active: it enqueues, decides, and as
  leader writes the batch and publishes. \<open>None\<close> is a thread that parks on the condition variable
  (it cannot be woken in this run); the concurrent protocol is the step relation of
  \<open>Group_Commit\<close>.
\<close>

definition commit_group ::
  "'fs storage \<Rightarrow> wal_cfg \<Rightarrow> bytes \<Rightarrow> 'fs wal \<Rightarrow> ((storage_error + unit) \<times> 'fs wal) option" where
  "commit_group S cfg frame W =
     (let (my_seq, c1) = group_enqueue frame (coord W);
          (role, c2) = group_decide my_seq c1
      in case role of
           Acked \<Rightarrow> Some (Inr (), W\<lparr>coord := c2\<rparr>)
         | Park \<Rightarrow> None
         | Lead batch \<Rightarrow>
             (let (io, W') = write_batch S cfg batch (W\<lparr>coord := c2\<rparr>)
              in Some (io, W'\<lparr>coord := group_publish my_seq batch io (coord W')\<rparr>)))"

definition wal_append ::
  "crc \<Rightarrow> 'fs storage \<Rightarrow> wal_cfg \<Rightarrow> bytes \<Rightarrow> 'fs wal \<Rightarrow> ((storage_error + unit) \<times> 'fs wal) option" where
  "wal_append crc S cfg bs W =
     (let frame = encode crc bs
      in case wal_durability cfg of
           Always \<Rightarrow> Some (commit_sync_now S cfg frame W)
         | OsBuffered \<Rightarrow> Some (commit_buffered S cfg frame W)
         | GroupCommit \<Rightarrow> commit_group S cfg frame W)"

text \<open>A client that appends records one after the other and stops at the first error: the number
  of acknowledged records and the final state.\<close>

fun append_records ::
  "crc \<Rightarrow> 'fs storage \<Rightarrow> wal_cfg \<Rightarrow> bytes list \<Rightarrow> 'fs wal \<Rightarrow> nat \<times> 'fs wal" where
  "append_records crc S cfg [] W = (0, W)"
| "append_records crc S cfg (x # xs) W =
     (case wal_append crc S cfg x W of
        Some (Inr _, W') \<Rightarrow> (let (n, W'') = append_records crc S cfg xs W' in (Suc n, W''))
      | Some (Inl _, W') \<Rightarrow> (0, W')
      | None \<Rightarrow> (0, W))"

section \<open>Running the log on a backend\<close>

definition w_up :: "('fs \<Rightarrow> bool) \<Rightarrow> 'fs wal \<Rightarrow> bool" where
  "w_up up W = up (wfs W)"

definition w_obs :: "('fs \<Rightarrow> disk) \<Rightarrow> 'fs wal \<Rightarrow> disk \<times> segment \<times> coord" where
  "w_obs dsk W = (dsk (wfs W), active W, coord W)"

definition w_down :: "('fs \<Rightarrow> disk \<Rightarrow> bool) \<Rightarrow> 'fs wal \<Rightarrow> disk \<times> segment \<times> coord \<Rightarrow> bool" where
  "w_down down W ob \<longleftrightarrow> down (wfs W) (fst ob) \<and> snd ob = (active W, coord W)"

lemmas w_defs = w_up_def w_obs_def w_down_def

lemma runs_on_fs:
  assumes "runs up dsk down m (\<lambda>D. C (D, active W, coord W)) (\<lambda>r D. Q r (D, active W, coord W)) (wfs W)"
  shows "runs (w_up up) (w_obs dsk) (w_down down) (on_fs m) C Q W"
  using assms by (auto simp: runs_def on_fs_def w_defs split: prod.splits)

lemma inert_on_fs [intro]: "inert down m \<Longrightarrow> inert (w_down down) (on_fs m)"
  unfolding inert_def on_fs_def w_defs by fastforce

text \<open>Assigning the active segment after the last call of a step.\<close>

lemma runs_then_assign:
  assumes "runs (w_up up) (w_obs dsk) (w_down down) m (\<lambda>ob. C (fst ob))
      (\<lambda>r ob. \<exists>x. r = Inr x \<and> Q (Inr ()) (fst ob, h x, snd (snd ob))) W"
  shows "runs (w_up up) (w_obs dsk) (w_down down) (\<lambda>W. ok_then (m W) (\<lambda>x W. (Inr (), W\<lparr>active := h x\<rparr>)))
      (\<lambda>ob. C (fst ob)) Q W"
proof -
  obtain r W' where r: "m W = (r, W')" by force
  show ?thesis using assms by (cases r) (auto simp: runs_def r w_defs)
qed

end
