(* ===== verification/Wal_Crash.thy ===== *)
theory Wal_Crash imports Wal begin

text \<open>
  Crash safety of the log. \<open>wal_inv\<close> relates the disk to the records in the log: sealed segments
  are synced and linked, the active segment holds synced records \<open>ps\<close> and unsynced ones \<open>pend\<close>.
  Each step of the append pipeline keeps it, and whatever a power loss leaves behind recovers to
  the synced records followed by at most what the torn tail yields.
\<close>

section \<open>What the disk would recover to\<close>

definition seg_images ::
  "crc \<Rightarrow> (u64 \<times> bytes list) list \<Rightarrow> u64 \<Rightarrow> bytes list \<Rightarrow> bytes list \<Rightarrow> u64 \<Rightarrow> bytes option set" where
  "seg_images crc lead t ps pend i =
     (if i = t then Some ` tears (frames crc ps) (frames crc (ps @ pend))
      else (case map_of lead i of None \<Rightarrow> {None} | Some qs \<Rightarrow> {Some (frames crc qs)}))"

definition canonical_images :: "path \<Rightarrow> disk \<Rightarrow> bool" where
  "canonical_images dir D \<longleftrightarrow> (\<forall>p i. parent p = Some dir \<longrightarrow> parse_segment_id p = Some i \<longrightarrow>
     p \<noteq> segment_path dir i \<longrightarrow> d_images D p = {None})"

definition log_shape :: "crc \<Rightarrow> (u64 \<times> bytes list) list \<Rightarrow> u64 \<Rightarrow> bytes list \<Rightarrow> bool" where
  "log_shape crc lead t ps \<longleftrightarrow> sorted_wrt (<) (map fst lead @ [t])
     \<and> (\<forall>(i, qs)\<in>set lead. records_ok qs \<and> addressable (frames crc qs))
     \<and> records_ok ps \<and> addressable (frames crc ps)"

definition img_log ::
  "crc \<Rightarrow> path \<Rightarrow> disk \<Rightarrow> (u64 \<times> bytes list) list \<Rightarrow> u64 \<Rightarrow> bytes list \<Rightarrow> bytes list \<Rightarrow> bool" where
  "img_log crc dir D lead t ps pend \<longleftrightarrow> log_shape crc lead t (ps @ pend) \<and> canonical_images dir D
     \<and> (\<forall>i. d_images D (segment_path dir i) = seg_images crc lead t ps pend i)"

text \<open>A directory without any durable segment is the empty log.\<close>

definition no_log :: "path \<Rightarrow> disk \<Rightarrow> bool" where
  "no_log dir D \<longleftrightarrow> canonical_images dir D \<and> (\<forall>i. d_images D (segment_path dir i) = {None})"

definition durable_log :: "crc \<Rightarrow> path \<Rightarrow> disk \<Rightarrow> bytes list \<Rightarrow> bytes list \<Rightarrow> bool" where
  "durable_log crc dir D acked pend \<longleftrightarrow>
     (\<exists>lead t ps. img_log crc dir D lead t ps pend \<and> concat (map snd lead) @ ps = acked)
     \<or> no_log dir D \<and> acked = [] \<and> pend = []"

lemma log_shapeD:
  assumes "log_shape crc lead t ps"
  shows "i \<in> fst ` set lead \<Longrightarrow> i < t" and "distinct (map fst lead)"
    and "(i, qs) \<in> set lead \<Longrightarrow> records_ok qs \<and> addressable (frames crc qs)"
    and "records_ok ps" and "addressable (frames crc ps)"
  using assms by (auto simp: log_shape_def sorted_wrt_append strict_sorted_iff)

lemma map_of_lead:
  assumes "log_shape crc lead t ps" and "(i, qs) \<in> set lead"
  shows "map_of lead i = Some qs" and "i \<noteq> t"
  using log_shapeD(1,2) [OF assms(1)] assms(2) by (force simp: map_of_eq_Some_iff)+

lemma canonical_images_names:
  assumes canon: "canonical_images dir D" and v: "\<And>p. v p \<in> d_images D p"
  shows "canonical_names dir (dom v)"
  unfolding canonical_names_def
proof (intro ballI allI impI)
  fix p i assume p: "p \<in> dom v" "parent p = Some dir" "parse_segment_id p = Some i"
  show "p = segment_path dir i"
  proof (rule ccontr)
    assume "p \<noteq> segment_path dir i"
    then have "d_images D p = {None}" using canon p unfolding canonical_images_def by blast
    then show False using v [of p] p(1) by auto
  qed
qed

lemma img_log_files:
  assumes img: "img_log crc dir D lead t ps pend" and v: "\<And>p. v p \<in> d_images D p"
  shows "\<exists>buf. buf \<in> tears (frames crc ps) (frames crc (ps @ pend)) \<and> addressable buf
    \<and> log_files crc dir v lead t buf"
proof -
  have shape: "log_shape crc lead t (ps @ pend)" and canon: "canonical_images dir D"
    and at: "\<And>i. v (segment_path dir i) \<in> seg_images crc lead t ps pend i"
    using img v unfolding img_log_def by metis+
  obtain buf where buf: "buf \<in> tears (frames crc ps) (frames crc (ps @ pend))" "v (segment_path dir t) = Some buf"
    using at [of t] by (auto simp: seg_images_def)
  have lead: "v (segment_path dir i) = Some (frames crc qs)" if "(i, qs) \<in> set lead" for i qs
    using at [of i] map_of_lead [OF shape that] by (simp add: seg_images_def)
  have other: "v (segment_path dir i) \<noteq> None \<longleftrightarrow> i \<in> set (map fst lead @ [t])" for i
  proof (cases "i = t \<or> i \<in> fst ` set lead")
    case True
    then show ?thesis using lead buf(2) by force
  next
    case False
    then have "map_of lead i = None" by (simp add: map_of_eq_None_iff)
    with False show ?thesis using at [of i] by (simp add: seg_images_def)
  qed
  have "canonical_names dir (dom v)" using canon v by (rule canonical_images_names)
  then have "log_files crc dir v lead t buf"
    using shape lead other buf(2) by (fastforce simp: log_files_def log_shape_def)
  moreover have "length buf < 2 ^ 64"
    using tears_length [OF buf(1)] log_shapeD(5) [OF shape] by (simp add: addressable_def)
  ultimately show ?thesis using buf(1) unfolding addressable_def by blast
qed

context read_fs
begin

text \<open>Remounting any of the images and recovering yields every synced record, in order; if the
  tail was merely cut, what follows are the oldest unsynced records.\<close>

lemma recover_images:
  assumes "ok s" and img: "durable_log crc dir D acked pend" and v: "\<And>p. view s p \<in> d_images D p"
  shows "\<exists>rec extra. recover crc S dir s = Inr rec \<and> records rec = acked @ extra
      \<and> (pend = [] \<longrightarrow> extra = [] \<and> stop_reason rec = Clean)"
proof (cases "no_log dir D \<and> acked = [] \<and> pend = []")
  case True
  then have "view s (segment_path dir i) = None" "canonical_names dir (dom (view s))" for i
    using v [of "segment_path dir i"] canonical_images_names [OF _ v] by (auto simp: no_log_def)
  then show ?thesis using True recover_empty [OF assms(1)] by (simp add: default_recovered_def)
next
  case False
  obtain lead t ps where i: "img_log crc dir D lead t ps pend" and a: "acked = concat (map snd lead) @ ps"
    using img False unfolding durable_log_def by blast
  obtain buf where b: "buf \<in> tears (frames crc ps) (frames crc (ps @ pend))" "addressable buf"
    "log_files crc dir (view s) lead t buf" using img_log_files [OF i v] by blast
  obtain rest where rest: "buf = frames crc ps @ rest" using tears_prefix [OF b(1)] by blast
  have ok: "records_ok ps" using i log_shapeD(4) by (force simp: img_log_def)
  obtain qs n r where sc: "scan_buffer crc buf (concat (map snd lead)) = ((n, r), concat (map snd lead) @ ps @ qs)"
    using scan_buffer_prefix [OF ok, of crc rest] b(2) unfolding rest by metis
  have "pend = [] \<longrightarrow> qs = [] \<and> r = Clean"
  proof
    assume "pend = []"
    then have "buf = frames crc ps" using b(1) by simp
    then show "qs = [] \<and> r = Clean"
      using sc scan_buffer_frames [OF ok, of crc "concat (map snd lead)"] b(2) by simp
  qed
  then show ?thesis using recover_log [OF assms(1) b(3) sc] by (auto simp: a)
qed

end

section \<open>The invariant of a running log\<close>

definition wal_inv ::
  "crc \<Rightarrow> path \<Rightarrow> disk \<Rightarrow> segment \<Rightarrow> (u64 \<times> bytes list) list \<Rightarrow> bytes list \<Rightarrow> bytes list \<Rightarrow> bool" where
  "wal_inv crc dir D g lead ps pend \<longleftrightarrow>
     log_files crc dir (d_view D) lead (seg_id g) (frames crc (ps @ pend))
     \<and> img_log crc dir D lead (seg_id g) ps pend
     \<and> (\<forall>(i, qs)\<in>set lead. d_sync D (segment_path dir i) = Some (frames crc qs))
     \<and> d_sync D (seg_path g) = Some (frames crc ps)
     \<and> (\<forall>q. d_linked D (seg_path g) q \<longleftrightarrow> q = seg_path g)
     \<and> seg_path g = segment_path dir (seg_id g)
     \<and> write_offset g = length (frames crc (ps @ pend))"

lemma wal_invD:
  assumes "wal_inv crc dir D g lead ps pend"
  shows "log_files crc dir (d_view D) lead (seg_id g) (frames crc (ps @ pend))"
    and "img_log crc dir D lead (seg_id g) ps pend"
    and "log_shape crc lead (seg_id g) (ps @ pend)" and "canonical_images dir D"
    and "d_images D (segment_path dir i) = seg_images crc lead (seg_id g) ps pend i"
    and "(i, qs) \<in> set lead \<Longrightarrow> d_sync D (segment_path dir i) = Some (frames crc qs)"
    and "d_sync D (segment_path dir (seg_id g)) = Some (frames crc ps)"
    and "d_linked D (segment_path dir (seg_id g)) q \<longleftrightarrow> q = segment_path dir (seg_id g)"
    and "seg_path g = segment_path dir (seg_id g)"
    and "d_view D (segment_path dir (seg_id g)) = Some (frames crc (ps @ pend))"
  using assms log_filesD(3) by (auto simp: wal_inv_def img_log_def)

lemma wal_inv_durable:
  "wal_inv crc dir D g lead ps pend \<Longrightarrow> durable_log crc dir D (concat (map snd lead) @ ps) pend"
  using wal_invD(2) unfolding durable_log_def by blast

text \<open>Changing the content of the active segment and nothing else of the directory.\<close>

lemma log_files_active:
  assumes "log_files crc dir v lead t b" and "\<And>i. i \<noteq> t \<Longrightarrow> v' (segment_path dir i) = v (segment_path dir i)"
    and "v' (segment_path dir t) = Some b'" and "dom v' = dom v"
  shows "log_files crc dir v' lead t b'"
proof -
  have "v' (segment_path dir i) \<noteq> None \<longleftrightarrow> v (segment_path dir i) \<noteq> None" for i
    using assms(4) by (simp add: dom_def set_eq_iff)
  moreover have "v' (segment_path dir i) = v (segment_path dir i)" if "(i, qs) \<in> set lead" for i qs
    using assms(2) log_filesD(6) [OF assms(1), of i] that by force
  ultimately show ?thesis
    using assms(1,3,4) unfolding log_files_def by fastforce
qed

lemma wal_inv_append:
  assumes inv: "wal_inv crc dir D g lead ps pend"
    and x: "length x < 2 ^ 32" "addressable (frames crc (ps @ pend @ [x]))"
  shows "wal_inv crc dir (disk_append (seg_path g) (encode crc x) D)
      (g\<lparr>write_offset := write_offset g + length (encode crc x)\<rparr>) lead ps (pend @ [x])"
proof -
  let ?D = "disk_append (segment_path dir (seg_id g)) (encode crc x) D"
  note d = wal_invD [OF inv]
  have shape: "log_shape crc lead (seg_id g) (ps @ pend @ [x])"
    using d(3) x by (auto simp: log_shape_def)
  have "log_files crc dir (d_view ?D) lead (seg_id g) (frames crc (ps @ pend @ [x]))"
    by (rule log_files_active [OF d(1)])
       (use d(9,10) in \<open>auto simp: disk_append_def Let_def\<close>)
  moreover have "img_log crc dir ?D lead (seg_id g) ps (pend @ [x])"
    using shape d(4,5,7,8,9,10)
    by (auto simp: img_log_def disk_append_def Let_def canonical_images_def seg_images_def)
  moreover have "d_sync ?D = d_sync D" "d_linked ?D = d_linked D"
    by (simp_all add: disk_append_def Let_def)
  ultimately show ?thesis
    using inv unfolding d(9) by (auto simp: wal_inv_def)
qed

lemma wal_inv_sync:
  assumes inv: "wal_inv crc dir D g lead ps pend"
  shows "wal_inv crc dir (disk_sync_file (seg_path g) D) g lead (ps @ pend) []"
proof -
  let ?D = "disk_sync_file (segment_path dir (seg_id g)) D"
  note d = wal_invD [OF inv]
  have "img_log crc dir ?D lead (seg_id g) (ps @ pend) []"
    using d(3,4,5,8,9,10)
    by (auto simp: img_log_def disk_sync_file_def canonical_images_def seg_images_def)
  moreover have "i \<noteq> seg_id g" if "(i, qs) \<in> set lead" for i qs
    using map_of_lead [OF d(3) that] by simp
  moreover have "d_sync ?D = (d_sync D)(segment_path dir (seg_id g) \<mapsto> frames crc (ps @ pend))"
    "d_linked ?D = d_linked D" "d_view ?D = d_view D"
    using d(10) by (simp_all add: disk_sync_file_def)
  ultimately show ?thesis
    using inv unfolding d(9) by (auto simp: wal_inv_def)
qed

section \<open>Rotation\<close>

lemma img_log_create:
  "img_log crc dir (disk_create p D) lead t ps pend = img_log crc dir D lead t ps pend"
  by (simp add: img_log_def disk_create_def canonical_images_def)

lemma no_log_create: "no_log dir (disk_create p D) = no_log dir D"
  by (simp add: no_log_def disk_create_def canonical_images_def)

text \<open>Making the directory durable after creating the next segment seals the active one.\<close>

lemma wal_inv_rotate:
  assumes inv: "wal_inv crc dir D g lead ps []" and t: "seg_id g < t"
  shows "wal_inv crc dir (disk_sync_dir dir (disk_create (segment_path dir t) D))
      \<lparr>seg_id = t, seg_path = segment_path dir t, write_offset = 0\<rparr> (lead @ [(seg_id g, ps)]) []  []"
proof -
  let ?D = "disk_sync_dir dir (disk_create (segment_path dir t) D)" and ?lead = "lead @ [(seg_id g, ps)]"
  note d = wal_invD [OF inv]
  note l = log_filesD [OF d(1)]
  have lt: "i < t" if "i \<in> fst ` set ?lead" for i
  proof -
    have "i \<in> fst ` set lead \<or> i = seg_id g" using that by auto
    then show ?thesis using l(6) [of i] t by (auto intro: less_trans)
  qed
  have shape: "log_shape crc ?lead t []"
    using d(3) lt unfolding log_shape_def by (auto simp: sorted_wrt_append addressable_def)
  have view: "d_view ?D = (d_view D)(segment_path dir t \<mapsto> [])"
    by (simp add: disk_sync_dir_def disk_create_def)
  have in_lead: "d_view D (segment_path dir i) = Some (frames crc qs) \<and> d_sync D (segment_path dir i) = Some (frames crc qs)"
    if "(i, qs) \<in> set ?lead" for i qs
    using that l(2) [of i qs] d(6) [of i qs] d(7,10) by auto
  have files: "log_files crc dir (d_view ?D) ?lead t []"
    unfolding log_files_def
  proof (intro conjI allI ballI)
    show "sorted_wrt (<) (map fst ?lead @ [t])" using shape by (simp add: log_shape_def)
    show "(d_view ?D (segment_path dir i) \<noteq> None) = (i \<in> set (map fst ?lead @ [t]))" for i
      using l(5) [of i] by (auto simp: view)
    show "case x of (i, qs) \<Rightarrow> d_view ?D (segment_path dir i) = Some (frames crc qs)
        \<and> records_ok qs \<and> addressable (frames crc qs)" if "x \<in> set ?lead" for x
    proof (cases x)
      case (Pair i qs)
      then have m: "(i, qs) \<in> set ?lead" using that by simp
      show ?thesis
        using in_lead [OF m] log_shapeD(3) [OF shape m] map_of_lead(2) [OF shape m] by (simp add: Pair view)
    qed
    show "canonical_names dir (dom (d_view ?D))"
      using l(4) by (auto simp: view canonical_names_def)
  qed (simp add: view)
  have img: "d_images ?D q = (case d_view ?D q of None \<Rightarrow> {None} | Some c \<Rightarrow> Some ` tears (the (d_sync ?D q)) c)"
    if "parent q = Some dir" for q
    using that by (simp add: disk_sync_dir_def disk_create_def split: option.split)
  have sync: "d_sync ?D = (d_sync D)(segment_path dir t \<mapsto> [])"
    by (simp add: disk_sync_dir_def disk_create_def)
  have at: "d_images ?D (segment_path dir i) = seg_images crc ?lead t [] [] i" for i
  proof (cases "i = t")
    case False
    show ?thesis
    proof (cases "map_of ?lead i")
      case None
      then have "d_view D (segment_path dir i) = None"
        using l(5) [of i] by (auto simp: map_of_eq_None_iff)
      then show ?thesis using None False by (simp add: img view seg_images_def del: map_of_append)
    next
      case (Some qs)
      then show ?thesis
        using False in_lead [OF map_of_SomeD [OF Some]] by (simp add: img view sync seg_images_def del: map_of_append)
    qed
  qed (simp add: img view sync seg_images_def)
  have "canonical_images dir ?D"
    unfolding canonical_images_def
  proof (intro allI impI)
    fix p i assume p: "parent p = Some dir" "parse_segment_id p = Some i" "p \<noteq> segment_path dir i"
    have "d_view ?D p = None"
      using log_filesD(4) [OF files] p unfolding canonical_names_def by blast
    then show "d_images ?D p = {None}" using img [OF p(1)] by simp
  qed
  then have "img_log crc dir ?D ?lead t [] []" using shape at by (simp add: img_log_def)
  moreover have "d_linked ?D (segment_path dir t) q \<longleftrightarrow> q = segment_path dir t" for q
    by (auto simp: disk_sync_dir_def disk_create_def)
  moreover have "d_sync ?D (segment_path dir i) = Some (frames crc qs)" if "(i, qs) \<in> set ?lead" for i qs
    using in_lead [OF that] map_of_lead(2) [OF shape that] by (simp add: sync)
  ultimately show ?thesis
    using files by (auto simp: wal_inv_def sync)
qed

section \<open>The append pipeline\<close>

text \<open>What a power loss during the append of \<open>xs\<close> preserves: the acknowledged records and
  unsynced ones among \<open>xs\<close>, or all of them.\<close>

definition append_crash :: "crc \<Rightarrow> path \<Rightarrow> bytes list \<Rightarrow> bytes list \<Rightarrow> disk \<Rightarrow> bool" where
  "append_crash crc dir acked xs D \<longleftrightarrow> (\<exists>k. durable_log crc dir D acked (take k xs))
     \<or> durable_log crc dir D (acked @ xs) []"

context crash_fs
begin

lemma runs_active_append:
  assumes W: "w_up up W" and inv: "wal_inv crc dir (disk (wfs W)) (active W) lead ps pend"
    and x: "length x < 2 ^ 32" "addressable (frames crc (ps @ pend @ [x]))"
    and C: "\<And>D. durable_log crc dir D (concat (map snd lead) @ ps) (pend @ [x]) \<Longrightarrow> C D"
    and Q: "\<And>D g. wal_inv crc dir D g lead ps (pend @ [x]) \<Longrightarrow> seg_id g = seg_id (active W)
      \<Longrightarrow> Q (Inr ()) (D, g, coord W)"
  shows "runs (w_up up) (w_obs disk) (w_down down) (active_append S (encode crc x)) (\<lambda>ob. C (fst ob)) Q W"
proof -
  let ?g = "active W"
  note inv' = wal_inv_append [OF inv x]
  have "runs (w_up up) (w_obs disk) (w_down down) (on_fs (segment_append S ?g (encode crc x)))
      (\<lambda>ob. C (fst ob)) (\<lambda>r ob. \<exists>g. r = Inr g \<and> Q (Inr ()) (fst ob, g, snd (snd ob))) W"
    unfolding segment_append_def
    using W C [OF wal_inv_durable [OF inv']] Q [OF inv'] wal_invD(9,10) [OF inv]
    by (intro runs_on_fs runs_then_pure runs_append) (auto simp: w_defs)
  then show ?thesis
    unfolding active_append_def by (subst runs_cong) (rule refl, erule runs_then_assign [where h = "\<lambda>x. x"])
qed

lemma runs_active_sync:
  assumes W: "w_up up W" and inv: "wal_inv crc dir (disk (wfs W)) (active W) lead ps pend"
    and C: "\<And>D. durable_log crc dir D (concat (map snd lead) @ ps @ pend) [] \<Longrightarrow> C D"
    and Q: "\<And>D. wal_inv crc dir D (active W) lead (ps @ pend) [] \<Longrightarrow> Q (Inr ()) (D, active W, coord W)"
  shows "runs (w_up up) (w_obs disk) (w_down down) (active_sync S) (\<lambda>ob. C (fst ob)) Q W"
proof -
  note inv' = wal_inv_sync [OF inv]
  have "runs (w_up up) (w_obs disk) (w_down down) (on_fs (segment_sync S (active W))) (\<lambda>ob. C (fst ob)) Q W"
    unfolding segment_sync_def
    using W C Q [OF inv'] wal_inv_durable [OF inv'] wal_invD(9,10) [OF inv]
    by (intro runs_on_fs runs_sync_file) (auto simp: w_defs)
  then show ?thesis unfolding active_sync_def by (subst runs_cong) (rule refl)
qed

lemma inert_segment [intro]:
  "inert down (segment_create S dir i)" "inert down (segment_append S g bs)" "inert down (segment_sync S g)"
  unfolding segment_create_def segment_append_def segment_sync_def Let_def by (intro inert_then inert_ops)+

lemma inert_active [intro]: "inert (w_down down) (active_append S bs)" "inert (w_down down) (active_sync S)"
proof -
  show "inert (w_down down) (active_sync S)"
    using inert_on_fs [OF inert_segment(3)] unfolding inert_def active_sync_def by blast
  show "inert (w_down down) (active_append S bs)"
    unfolding inert_def active_append_def
  proof (intro allI impI)
    fix W D assume "w_down down W D"
    then obtain e where "on_fs (segment_append S (active W) bs) W = (Inl e, W)"
      using inert_on_fs [OF inert_segment(2)] unfolding inert_def by blast
    then show "\<exists>e. ok_then (on_fs (segment_append S (active W) bs) W) (\<lambda>g W. (Inr (), W\<lparr>active := g\<rparr>)) = (Inl e, W)"
      by simp
  qed
qed

lemma runs_maybe_rotate:
  assumes W: "w_up up W" and inv: "wal_inv crc dir (disk (wfs W)) (active W) lead ps []"
    and dir: "wal_dir cfg = dir" and room: "unat (seg_id (active W)) + 1 < 2 ^ 64"
    and C: "\<And>D. durable_log crc dir D (concat (map snd lead) @ ps) [] \<Longrightarrow> C D"
    and Q: "\<And>D g lead' ps'. wal_inv crc dir D g lead' ps' [] \<Longrightarrow>
      concat (map snd lead') @ ps' = concat (map snd lead) @ ps \<Longrightarrow>
      unat (seg_id g) \<le> unat (seg_id (active W)) + 1 \<Longrightarrow> Q (Inr ()) (D, g, coord W)"
  shows "runs (w_up up) (w_obs disk) (w_down down) (maybe_rotate S cfg) (\<lambda>ob. C (fst ob)) Q W"
proof (cases "write_offset (active W) < segment_size cfg")
  case True
  have "runs (w_up up) (w_obs disk) (w_down down) (\<lambda>W. (Inr (), W)) (\<lambda>ob. C (fst ob)) Q W"
    using W Q [OF inv] by (intro runs_pure) (auto simp: w_defs)
  then show ?thesis using True by (subst runs_cong) (auto simp: maybe_rotate_def)
next
  case False
  let ?g = "active W" and ?c = "coord W" and ?t = "seg_id (active W) + 1"
  let ?seg = "\<lparr>seg_id = ?t, seg_path = segment_path dir ?t, write_offset = 0\<rparr>"
  let ?P = "\<lambda>D. wal_inv crc dir D ?g lead ps []"
  have t: "unat ?t = unat (seg_id ?g) + 1" using room by (rule unat_u64_Suc)
  then have lt: "seg_id ?g < ?t" by (simp add: word_less_nat_alt)
  have fresh: "d_view D (segment_path dir ?t) = None" if "?P D" for D
    using log_filesD(5,6) [OF wal_invD(1) [OF that]] lt by (metis insertE not_less_iff_gr_or_eq)
  have C': "C (disk_create (segment_path dir ?t) D)" if "?P D" for D
    using C wal_inv_durable [OF that] by (simp add: durable_log_def img_log_create no_log_create)
  have seal: "Q (Inr ()) (disk_sync_dir dir (disk_create (segment_path dir ?t) D), ?seg, ?c)
      \<and> C (disk_sync_dir dir (disk_create (segment_path dir ?t) D))" if "?P D" for D
    using Q C wal_inv_durable wal_inv_rotate [OF that lt] t by fastforce
  have "runs (w_up up) (w_obs disk) (w_down down) (\<lambda>W. ok_then (active_sync S W) (\<lambda>_ W.
      ok_then (on_fs (segment_create S dir ?t) W) (\<lambda>seg W.
      ok_then (on_fs (st_sync_dir S dir) W) (\<lambda>_ W. (Inr (), W\<lparr>active := seg\<rparr>)))))
    (\<lambda>ob. C (fst ob)) Q W"
  proof (rule runs_then [where P = "\<lambda>_ ob. ?P (fst ob) \<and> snd ob = (?g, ?c)"])
    show "runs (w_up up) (w_obs disk) (w_down down) (active_sync S) (\<lambda>ob. C (fst ob))
        (\<lambda>r ob. \<exists>x. r = Inr x \<and> ?P (fst ob) \<and> snd ob = (?g, ?c)) W"
      using W inv C by (intro runs_active_sync [where pend = "[]"]) auto
    fix W1 assume W1: "w_up up W1" "?P (fst (w_obs disk W1)) \<and> snd (w_obs disk W1) = (?g, ?c)"
    show "runs (w_up up) (w_obs disk) (w_down down) (\<lambda>W. ok_then (on_fs (segment_create S dir ?t) W) (\<lambda>seg W.
        ok_then (on_fs (st_sync_dir S dir) W) (\<lambda>_ W. (Inr (), W\<lparr>active := seg\<rparr>)))) (\<lambda>ob. C (fst ob)) Q W1"
    proof (rule runs_then [where P = "\<lambda>seg ob. seg = ?seg \<and> snd ob = (?g, ?c)
        \<and> (\<exists>D. ?P D \<and> fst ob = disk_create (segment_path dir ?t) D)"])
      show "runs (w_up up) (w_obs disk) (w_down down) (on_fs (segment_create S dir ?t)) (\<lambda>ob. C (fst ob))
          (\<lambda>r ob. \<exists>x. r = Inr x \<and> x = ?seg \<and> snd ob = (?g, ?c)
            \<and> (\<exists>D. ?P D \<and> fst ob = disk_create (segment_path dir ?t) D)) W1"
        unfolding segment_create_def Let_def
        using W1 fresh C' by (intro runs_on_fs runs_then_pure runs_create) (auto simp: w_defs)
    next
      fix seg W2
      assume W2: "w_up up W2" "seg = ?seg \<and> snd (w_obs disk W2) = (?g, ?c)
        \<and> (\<exists>D. ?P D \<and> fst (w_obs disk W2) = disk_create (segment_path dir ?t) D)"
      then show "runs (w_up up) (w_obs disk) (w_down down) (\<lambda>W. ok_then (on_fs (st_sync_dir S dir) W)
          (\<lambda>_ W. (Inr (), W\<lparr>active := seg\<rparr>))) (\<lambda>ob. C (fst ob)) Q W2"
        using seal by (intro runs_then_assign [where h = "\<lambda>_. seg"] runs_on_fs runs_sync_dir) (auto simp: w_defs)
    qed (intro inert_then inert_on_fs inert_ops)
  qed (intro inert_then inert_on_fs inert_segment)
  then show ?thesis using False by (subst runs_cong) (auto simp: maybe_rotate_def dir Let_def)
qed

lemma inert_append_batch: "inert (w_down down) f \<Longrightarrow> inert (w_down down) (\<lambda>W. ok_then (append_batch S batch W) (\<lambda>_. f))"
proof (cases batch)
  case (Cons b rest)
  obtain n fr where "b = (n, fr)" by force
  then show ?thesis by (simp add: Cons ok_then_assoc inert_then inert_active)
qed (simp add: inert_def)

lemma runs_append_batch:
  assumes "w_up up W" and "wal_inv crc dir (disk (wfs W)) (active W) lead ps pend"
    and "map snd batch = map (encode crc) xs" and "records_ok xs" and "addressable (frames crc (ps @ pend @ xs))"
    and C: "\<And>D k. durable_log crc dir D (concat (map snd lead) @ ps) (pend @ take k xs) \<Longrightarrow> C D"
    and f: "\<And>W'. w_up up W' \<Longrightarrow> wal_inv crc dir (disk (wfs W')) (active W') lead ps (pend @ xs) \<Longrightarrow>
      seg_id (active W') = seg_id (active W) \<Longrightarrow> coord W' = coord W \<Longrightarrow>
      runs (w_up up) (w_obs disk) (w_down down) f (\<lambda>ob. C (fst ob)) Q W'"
    and inert: "inert (w_down down) f"
  shows "runs (w_up up) (w_obs disk) (w_down down) (\<lambda>W. ok_then (append_batch S batch W) (\<lambda>_. f))
    (\<lambda>ob. C (fst ob)) Q W"
  using assms(1-7)
proof (induction xs arbitrary: W batch pend)
  case Nil
  then show ?case using Nil.prems(7) [OF Nil.prems(1)] by (simp add: inert_def)
next
  case (Cons x xs)
  obtain n rest where b: "batch = (n, encode crc x) # rest" "map snd rest = map (encode crc) xs"
    using Cons.prems(3) by (cases batch) auto
  have x: "length x < 2 ^ 32" "records_ok xs" and mem: "addressable (frames crc (ps @ pend @ [x]))"
    using Cons.prems(4,5) by (auto simp: addressable_def)
  let ?P = "\<lambda>(_::unit) ob. wal_inv crc dir (fst ob) (fst (snd ob)) lead ps (pend @ [x])
    \<and> seg_id (fst (snd ob)) = seg_id (active W) \<and> snd (snd ob) = coord W"
  have C1: "durable_log crc dir D (concat (map snd lead) @ ps) (pend @ [x]) \<Longrightarrow> C D" for D
    using Cons.prems(6) [of D 1] by simp
  have "runs (w_up up) (w_obs disk) (w_down down) (\<lambda>W. ok_then (active_append S (encode crc x) W)
      (\<lambda>_ W. ok_then (append_batch S rest W) (\<lambda>_. f))) (\<lambda>ob. C (fst ob)) Q W"
  proof (rule runs_then [where P = ?P])
    show "runs (w_up up) (w_obs disk) (w_down down) (active_append S (encode crc x)) (\<lambda>ob. C (fst ob))
        (\<lambda>r ob. \<exists>y. r = Inr y \<and> ?P y ob) W"
      by (rule runs_active_append [OF Cons.prems(1,2) x(1) mem C1]) auto
    fix W1 assume W1: "w_up up W1" "?P () (w_obs disk W1)"
    show "runs (w_up up) (w_obs disk) (w_down down) (\<lambda>W. ok_then (append_batch S rest W) (\<lambda>_. f))
        (\<lambda>ob. C (fst ob)) Q W1"
    proof (rule Cons.IH [OF W1(1) _ b(2) x(2)])
      show "wal_inv crc dir (disk (wfs W1)) (active W1) lead ps (pend @ [x])" using W1(2) by (simp add: w_obs_def)
      show "addressable (frames crc (ps @ (pend @ [x]) @ xs))" using Cons.prems(5) by (simp add: addressable_def)
      show "C D" if "durable_log crc dir D (concat (map snd lead) @ ps) ((pend @ [x]) @ take k xs)" for D k
        using that Cons.prems(6) [of D "Suc k"] by simp
      show "runs (w_up up) (w_obs disk) (w_down down) f (\<lambda>ob. C (fst ob)) Q W'"
        if "w_up up W'" "wal_inv crc dir (disk (wfs W')) (active W') lead ps ((pend @ [x]) @ xs)"
          "seg_id (active W') = seg_id (active W1)" "coord W' = coord W1" for W'
      proof -
        have "seg_id (active W1) = seg_id (active W)" "coord W1 = coord W" using W1(2) by (simp_all add: w_obs_def)
        then show ?thesis using that Cons.prems(7) [of W'] by simp
      qed
    qed
  qed (rule inert_append_batch [OF inert])
  then show ?case by (simp add: b ok_then_assoc)
qed

text \<open>The commit of one batch, and of a single record in the per-write mode.\<close>

lemma runs_write_batch:
  assumes W: "w_up up W" and inv: "wal_inv crc dir (disk (wfs W)) (active W) lead ps []"
    and b: "map snd batch = map (encode crc) xs" and xs: "records_ok xs" "addressable (frames crc (ps @ xs))"
    and dir: "wal_dir cfg = dir" and room: "unat (seg_id (active W)) + 1 < 2 ^ 64"
    and Q: "\<And>D g lead' ps'. wal_inv crc dir D g lead' ps' [] \<Longrightarrow>
      concat (map snd lead') @ ps' = concat (map snd lead) @ ps @ xs \<Longrightarrow>
      unat (seg_id g) \<le> unat (seg_id (active W)) + 1 \<Longrightarrow> Q (Inr ()) (D, g, coord W)"
  shows "runs (w_up up) (w_obs disk) (w_down down) (write_batch S cfg batch)
    (\<lambda>ob. append_crash crc dir (concat (map snd lead) @ ps) xs (fst ob)) Q W"
proof -
  let ?C = "append_crash crc dir (concat (map snd lead) @ ps) xs"
  have C: "?C D" if "durable_log crc dir D (concat (map snd lead) @ ps @ xs) []" for D
    using that by (simp add: append_crash_def)
  have "runs (w_up up) (w_obs disk) (w_down down) (\<lambda>W. ok_then (append_batch S batch W)
      (\<lambda>_ W. ok_then (active_sync S W) (\<lambda>_ W. maybe_rotate S cfg W))) (\<lambda>ob. ?C (fst ob)) Q W"
  proof (rule runs_append_batch [OF W inv b xs(1)])
    show "addressable (frames crc (ps @ [] @ xs))" using xs(2) by simp
    show "?C D" if "durable_log crc dir D (concat (map snd lead) @ ps) ([] @ take k xs)" for D k
      using that by (auto simp: append_crash_def)
    show "inert (w_down down) (\<lambda>W. ok_then (active_sync S W) (\<lambda>_ W. maybe_rotate S cfg W))"
      by (intro inert_then inert_active)
    fix W1 assume W1: "w_up up W1" "wal_inv crc dir (disk (wfs W1)) (active W1) lead ps ([] @ xs)"
      "seg_id (active W1) = seg_id (active W)" "coord W1 = coord W"
    let ?P = "\<lambda>(_::unit) ob. wal_inv crc dir (fst ob) (fst (snd ob)) lead (ps @ xs) []
      \<and> seg_id (fst (snd ob)) = seg_id (active W) \<and> snd (snd ob) = coord W"
    show "runs (w_up up) (w_obs disk) (w_down down) (\<lambda>W. ok_then (active_sync S W)
        (\<lambda>_ W. maybe_rotate S cfg W)) (\<lambda>ob. ?C (fst ob)) Q W1"
    proof (rule runs_then_quiet [where P = ?P])
      show "runs (w_up up) (w_obs disk) (w_down down) (active_sync S) (\<lambda>ob. ?C (fst ob)) (\<lambda>r ob. \<exists>x. r = Inr x \<and> ?P x ob) W1"
        using W1(2-4) C by (intro runs_active_sync [OF W1(1,2)]) auto
    next
      fix W2 assume W2: "w_up up W2" "?P () (w_obs disk W2)"
      then have i: "wal_inv crc dir (disk (wfs W2)) (active W2) lead (ps @ xs) []"
        and e: "seg_id (active W2) = seg_id (active W)" "coord W2 = coord W" by (simp_all add: w_obs_def)
      show "runs (w_up up) (w_obs disk) (w_down down) (maybe_rotate S cfg) (\<lambda>ob. ?C (fst ob)) Q W2"
        using room C Q e by (intro runs_maybe_rotate [OF W2(1) i dir]) auto
    next
      fix W2 ob assume d: "w_down down W2 ob" and p: "?P () ob"
      show "\<exists>r. maybe_rotate S cfg W2 = (r, W2) \<and> (\<forall>y. r = Inr y \<longrightarrow> Q (Inr y) ob)"
      proof (cases "write_offset (active W2) < segment_size cfg")
        case True
        have "Q (Inr ()) (fst ob, fst (snd ob), coord W)"
          using p by (intro Q [of _ _ lead "ps @ xs"]) auto
        then have "Q (Inr ()) ob" using p by (cases ob) auto
        with True show ?thesis by (simp add: maybe_rotate_def)
      next
        case False
        have "inert (w_down down) (active_sync S)" by (rule inert_active)
        then obtain e where "active_sync S W2 = (Inl e, W2)" using d unfolding inert_def by blast
        with False show ?thesis by (simp add: maybe_rotate_def Let_def)
      qed
    qed
  qed
  then show ?thesis by (simp add: write_batch_def [abs_def])
qed

end

section \<open>Appending one record after the other\<close>

lemma commit_sync_now_batch: "commit_sync_now S cfg frame W = write_batch S cfg [(0, frame)] W"
  by (simp add: commit_sync_now_def write_batch_def ok_then_assoc)

definition quiet_coord :: "coord \<Rightarrow> bool" where
  "quiet_coord c \<longleftrightarrow> queue c = [] \<and> \<not> leader_active c \<and> synced_through c = next_seq c"

text \<open>The state after appending \<open>xs\<close> with \<open>n\<close> acknowledgements: either nothing failed, or the power
  did, and then the disk holds the acknowledged records and at most the record in flight.\<close>

definition log_outcome ::
  "crc \<Rightarrow> path \<Rightarrow> ('fs \<Rightarrow> bool) \<Rightarrow> ('fs \<Rightarrow> disk) \<Rightarrow> ('fs \<Rightarrow> disk \<Rightarrow> bool) \<Rightarrow> bytes list \<Rightarrow> bytes list
    \<Rightarrow> nat \<Rightarrow> 'fs wal \<Rightarrow> bool" where
  "log_outcome crc dir up dsk down old xs n W \<longleftrightarrow>
     (up (wfs W) \<and> n = length xs \<and> (\<exists>lead ps. wal_inv crc dir (dsk (wfs W)) (active W) lead ps []
        \<and> concat (map snd lead) @ ps = old @ xs))
     \<or> (\<exists>D. down (wfs W) D \<and> n \<le> length xs \<and> append_crash crc dir (old @ take n xs) (take 1 (drop n xs)) D)"

context crash_fs
begin

lemma wal_append_durable:
  assumes W: "w_up up W" and inv: "wal_inv crc dir (disk (wfs W)) (active W) lead ps []"
    and x: "length x < 2 ^ 32" "addressable (frames crc (ps @ [x]))"
    and cfg: "wal_dir cfg = dir" "is_durable (wal_durability cfg)"
    and room: "unat (seg_id (active W)) + 1 < 2 ^ 64" "unat (next_seq (coord W)) + 1 < 2 ^ 64"
    and c: "quiet_coord (coord W)" and acked: "acked = concat (map snd lead) @ ps"
  shows "\<exists>r W'. wal_append crc S cfg x W = Some (r, W') \<and>
     (r = Inr () \<longrightarrow> quiet_coord (coord W') \<and> unat (next_seq (coord W')) \<le> unat (next_seq (coord W)) + 1) \<and>
     ((r = Inr () \<and> w_up up W' \<and> (\<exists>lead' ps'. wal_inv crc dir (disk (wfs W')) (active W') lead' ps' []
          \<and> concat (map snd lead') @ ps' = acked @ [x])
        \<and> unat (seg_id (active W')) \<le> unat (seg_id (active W)) + 1)
      \<or> (\<exists>D. down (wfs W') D \<and> append_crash crc dir acked [x] D
           \<and> (r = Inr () \<longrightarrow> durable_log crc dir D (acked @ [x]) [])))"
proof -
  let ?Q = "\<lambda>(W0 :: 'a wal) r ob. r = Inr () \<and> (\<exists>lead' ps'. wal_inv crc dir (fst ob) (fst (snd ob)) lead' ps' []
      \<and> concat (map snd lead') @ ps' = acked @ [x])
      \<and> unat (seg_id (fst (snd ob))) \<le> unat (seg_id (active W)) + 1 \<and> snd (snd ob) = coord W0"
  have batch: "runs (w_up up) (w_obs disk) (w_down down) (write_batch S cfg [(n, encode crc x)])
      (\<lambda>ob. append_crash crc dir acked [x] (fst ob)) (?Q W0) W0"
    if "wfs W0 = wfs W" "active W0 = active W" for n W0
    unfolding acked
    by (rule runs_write_batch [where lead = lead and ps = ps]) (use that W inv x cfg(1) room(1) in \<open>auto simp: w_up_def\<close>)
  have fin: "(r = Inr () \<longrightarrow> coord W' = coord W0) \<and>
     ((r = Inr () \<and> w_up up W' \<and> (\<exists>lead' ps'. wal_inv crc dir (disk (wfs W')) (active W') lead' ps' []
          \<and> concat (map snd lead') @ ps' = acked @ [x])
        \<and> unat (seg_id (active W')) \<le> unat (seg_id (active W)) + 1)
      \<or> (\<exists>D. down (wfs W') D \<and> append_crash crc dir acked [x] D
           \<and> (r = Inr () \<longrightarrow> durable_log crc dir D (acked @ [x]) [])))"
    if b: "write_batch S cfg [(n, encode crc x)] W0 = (r, W')" and "wfs W0 = wfs W" "active W0 = active W" for n W0 r W'
  proof -
    from batch [OF that(2,3), of n, unfolded runs_def b w_defs fst_conv snd_conv]
    show ?thesis
    proof (elim disjE exE conjE)
      fix ob :: "disk \<times> segment \<times> coord"
      assume d: "down (wfs W') (fst ob)" "append_crash crc dir acked [x] (fst ob)"
        and o: "snd ob = (active W', coord W')" and q: "\<forall>y. r = Inr y \<longrightarrow> ?Q W0 (Inr y) ob"
      have "r = Inr () \<longrightarrow> durable_log crc dir (fst ob) (acked @ [x]) []"
      proof
        assume "r = Inr ()"
        then obtain lead' ps' where "wal_inv crc dir (fst ob) (fst (snd ob)) lead' ps' []"
          "concat (map snd lead') @ ps' = acked @ [x]" using q by blast
        then show "durable_log crc dir (fst ob) (acked @ [x]) []" using wal_inv_durable by metis
      qed
      moreover have "r = Inr () \<longrightarrow> coord W' = coord W0" using q o by auto
      ultimately show ?thesis using d by blast
    qed (auto simp: w_up_def)
  qed
  have seq: "unat (next_seq (coord W) + 1) = unat (next_seq (coord W)) + 1"
    using room(2) by (rule unat_u64_Suc)
  show ?thesis
  proof (cases "wal_durability cfg")
    case Always
    obtain r W' where b: "write_batch S cfg [(0, encode crc x)] W = (r, W')" by force
    show ?thesis using fin [OF b refl refl] c
      by (intro exI [of _ r] exI [of _ W'])
         (auto simp: wal_append_def Always commit_sync_now_batch b)
  next
    case GroupCommit
    let ?s = "next_seq (coord W) + 1"
    let ?W0 = "W\<lparr>coord := (coord W)\<lparr>next_seq := ?s, leader_active := True, queue := []\<rparr>\<rparr>"
    obtain r W' where b: "write_batch S cfg [(?s, encode crc x)] ?W0 = (r, W')" by force
    have "\<not> ?s \<le> synced_through (coord W)" using c seq by (simp add: quiet_coord_def word_le_nat_alt)
    then have app: "wal_append crc S cfg x W
        = Some (r, W'\<lparr>coord := group_publish ?s [(?s, encode crc x)] r (coord W')\<rparr>)"
      using c b by (simp add: wal_append_def GroupCommit commit_group_def group_enqueue_def
          group_decide_def quiet_coord_def Let_def)
    have "quiet_coord (group_publish ?s [(?s, encode crc x)] (Inr ()) (coord ?W0))"
      "next_seq (group_publish ?s [(?s, encode crc x)] (Inr ()) (coord ?W0)) = ?s"
      using c seq by (auto simp: group_publish_def quiet_coord_def Let_def max_def word_le_nat_alt)
    then show ?thesis using fin [OF b] seq unfolding app
      by (intro exI [of _ r] exI [of _ "W'\<lparr>coord := group_publish ?s [(?s, encode crc x)] r (coord W')\<rparr>"])
         (auto simp: w_up_def)
  next
    case OsBuffered
    then show ?thesis using cfg(2) by (simp add: is_durable_def)
  qed
qed

lemma write_batch_down: "down (wfs W) D \<Longrightarrow> \<exists>e. write_batch S cfg ((n, fr) # rest) W = (Inl e, W)"
proof -
  assume "down (wfs W) D"
  then have "w_down down W (D, active W, coord W)" by (simp add: w_down_def)
  moreover have "inert (w_down down) (active_append S fr)" by (rule inert_active)
  ultimately obtain e where "active_append S fr W = (Inl e, W)" unfolding inert_def by blast
  then show ?thesis by (simp add: write_batch_def)
qed

text \<open>On a stopped backend an append in a durable mode fails.\<close>

lemma wal_append_down:
  assumes d: "down (wfs W) D" and cfg: "is_durable (wal_durability cfg)" and c: "quiet_coord (coord W)"
    and room: "unat (next_seq (coord W)) + 1 < 2 ^ 64"
  obtains e W' where "wal_append crc S cfg x W = Some (Inl e, W')" and "wfs W' = wfs W"
proof (cases "wal_durability cfg")
  case Always
  obtain e where "write_batch S cfg [(0, encode crc x)] W = (Inl e, W)" using write_batch_down [OF d] by blast
  then show thesis by (intro that) (simp_all add: wal_append_def Always commit_sync_now_batch)
next
  case GroupCommit
  let ?s = "next_seq (coord W) + 1"
  let ?W0 = "W\<lparr>coord := (coord W)\<lparr>next_seq := ?s, leader_active := True, queue := []\<rparr>\<rparr>"
  have "unat ?s = unat (next_seq (coord W)) + 1" using room by (rule unat_u64_Suc)
  then have "\<not> ?s \<le> synced_through (coord W)" using c by (simp add: quiet_coord_def word_le_nat_alt)
  moreover have "down (wfs ?W0) D" using d by simp
  from write_batch_down [OF this] obtain e where "write_batch S cfg [(?s, encode crc x)] ?W0 = (Inl e, ?W0)"
    by blast
  ultimately have "wal_append crc S cfg x W = Some (Inl e, ?W0\<lparr>coord := group_publish ?s [(?s, encode crc x)] (Inl e) (coord ?W0)\<rparr>)"
    using c by (simp add: wal_append_def GroupCommit commit_group_def group_enqueue_def
        group_decide_def quiet_coord_def Let_def)
  then show thesis by (rule that) simp
qed (use cfg in \<open>simp add: is_durable_def\<close>)

lemma append_records_down:
  assumes d: "down (wfs W) D" and cfg: "is_durable (wal_durability cfg)" and c: "quiet_coord (coord W)"
    and room: "xs \<noteq> [] \<Longrightarrow> unat (next_seq (coord W)) + 1 < 2 ^ 64"
  shows "\<exists>W'. append_records crc S cfg xs W = (0, W') \<and> wfs W' = wfs W"
proof (cases xs)
  case (Cons x xs')
  then obtain e W' where "wal_append crc S cfg x W = Some (Inl e, W')" "wfs W' = wfs W"
    using wal_append_down [OF d cfg c, of crc x] room by auto
  then show ?thesis by (simp add: Cons)
qed simp

lemma append_records_durable:
  assumes "w_up up W" and "wal_inv crc dir (disk (wfs W)) (active W) lead ps []"
    and cfg: "wal_dir cfg = dir" "is_durable (wal_durability cfg)"
    and "records_ok xs" and "addressable (frames crc (concat (map snd lead) @ ps @ xs))"
    and "unat (seg_id (active W)) + length xs < 2 ^ 64" "unat (next_seq (coord W)) + length xs < 2 ^ 64"
    and "quiet_coord (coord W)"
    and run: "append_records crc S cfg xs W = (n, W')"
  shows "log_outcome crc dir up disk down (concat (map snd lead) @ ps) xs n W'"
  using assms(1,2,5-10)
proof (induction xs arbitrary: W lead ps n)
  case Nil
  then show ?case by (auto simp: log_outcome_def w_up_def)
next
  case (Cons x xs)
  let ?acked = "concat (map snd lead) @ ps"
  have mem: "length x < 2 ^ 32" "addressable (frames crc (ps @ [x]))"
    using Cons.prems(3,4) by (auto simp: addressable_def)
  obtain r W1 where r: "wal_append crc S cfg x W = Some (r, W1)"
    and c: "r = Inr () \<longrightarrow> quiet_coord (coord W1) \<and> unat (next_seq (coord W1)) \<le> unat (next_seq (coord W)) + 1"
    and cases: "(r = Inr () \<and> w_up up W1 \<and> (\<exists>lead' ps'. wal_inv crc dir (disk (wfs W1)) (active W1) lead' ps' []
          \<and> concat (map snd lead') @ ps' = ?acked @ [x])
        \<and> unat (seg_id (active W1)) \<le> unat (seg_id (active W)) + 1)
      \<or> (\<exists>D. down (wfs W1) D \<and> append_crash crc dir ?acked [x] D
           \<and> (r = Inr () \<longrightarrow> durable_log crc dir D (?acked @ [x]) []))"
  proof -
    have "unat (seg_id (active W)) + 1 < 2 ^ 64" "unat (next_seq (coord W)) + 1 < 2 ^ 64"
      using Cons.prems(5,6) by simp_all
    from wal_append_durable [OF Cons.prems(1,2) mem cfg this Cons.prems(7) refl] that show thesis by blast
  qed
  from cases show ?case
  proof (elim disjE exE conjE)
    fix lead' ps'
    assume up: "r = Inr ()" "w_up up W1" "unat (seg_id (active W1)) \<le> unat (seg_id (active W)) + 1"
      and inv: "wal_inv crc dir (disk (wfs W1)) (active W1) lead' ps' []" "concat (map snd lead') @ ps' = ?acked @ [x]"
    obtain m where m: "append_records crc S cfg xs W1 = (m, W')" and n: "n = Suc m"
      using Cons.prems(8) by (auto simp: r up(1) split: prod.splits)
    have "concat (map snd lead') @ ps' @ xs = concat (map snd lead) @ ps @ x # xs"
      using inv(2) by (metis append.assoc append_Cons append_Nil)
    then have a: "addressable (frames crc (concat (map snd lead') @ ps' @ xs))"
      using Cons.prems(4) by (simp only:)
    have "log_outcome crc dir up disk down (concat (map snd lead') @ ps') xs m W'"
      using Cons.prems(3,5,6) up c by (intro Cons.IH [OF up(2) inv(1) _ a _ _ _ m]) auto
    then show ?thesis by (simp add: inv(2) n log_outcome_def)
  next
    fix D assume D: "down (wfs W1) D" "append_crash crc dir ?acked [x] D"
      "r = Inr () \<longrightarrow> durable_log crc dir D (?acked @ [x]) []"
    show ?thesis
    proof (cases r)
      case (Inl e)
      then have "n = 0" "W' = W1" using Cons.prems(8) by (simp_all add: r)
      then show ?thesis using D by (auto simp: log_outcome_def)
    next
      case (Inr u)
      then have ok: "r = Inr ()" by simp
      have "xs \<noteq> [] \<Longrightarrow> unat (next_seq (coord W1)) + 1 < 2 ^ 64" using c ok Cons.prems(6) by (cases xs) auto
      then obtain W2 where "append_records crc S cfg xs W1 = (0, W2)" "wfs W2 = wfs W1"
        using append_records_down [OF D(1) cfg(2)] c ok by blast
      then have "n = 1" "wfs W' = wfs W1" using Cons.prems(8) by (auto simp: r ok)
      moreover have "append_crash crc dir (?acked @ [x]) (take 1 xs) D"
        unfolding append_crash_def using D(3) ok by (intro disjI1 exI [of _ 0]) simp
      ultimately show ?thesis using D(1) by (auto simp: log_outcome_def)
    qed
  qed
qed

end

end
