(* ===== verification/Wal_Open.thy ===== *)
theory Wal_Open imports Wal_Crash begin

text \<open>
  Opening the log on a remounted directory is itself crash-safe: whatever happens while it
  recovers, cuts a torn tail and picks the active segment, the records that would be recovered stay
  the same.
\<close>

section \<open>A remounted directory\<close>

text \<open>\<open>settled dir D\<close>: every file of the directory is synced and its entry durable.\<close>

definition settled :: "path \<Rightarrow> disk \<Rightarrow> bool" where
  "settled dir D \<longleftrightarrow> (\<forall>p. parent p = Some dir \<longrightarrow> d_images D p = {d_view D p} \<and> d_sync D p = d_view D p
     \<and> (\<forall>q. d_linked D p q \<longleftrightarrow> q = p \<and> d_view D p \<noteq> None) \<and> (\<forall>r. d_linked D r p \<longrightarrow> r = p))"

lemma settledD:
  assumes "settled dir D" and "parent p = Some dir"
  shows "d_images D p = {d_view D p}" and "d_sync D p = d_view D p"
    and "d_linked D p q \<longleftrightarrow> q = p \<and> d_view D p \<noteq> None" and "d_linked D r p \<Longrightarrow> r = p"
  using assms by (simp_all add: settled_def)

definition log_has :: "crc \<Rightarrow> path \<Rightarrow> (path \<Rightarrow> bytes option) \<Rightarrow> bytes list \<Rightarrow> bool" where
  "log_has crc dir v recs \<longleftrightarrow>
     (canonical_names dir (dom v) \<and> (\<forall>i. v (segment_path dir i) = None) \<and> recs = [])
     \<or> (\<exists>lead t b n r. log_files crc dir v lead t b \<and> addressable b
          \<and> scan_buffer crc b (concat (map snd lead)) = ((n, r), recs))"

definition recoverable :: "crc \<Rightarrow> path \<Rightarrow> disk \<Rightarrow> bytes list \<Rightarrow> bool" where
  "recoverable crc dir D recs \<longleftrightarrow> (\<forall>v. (\<forall>p. v p \<in> d_images D p) \<longrightarrow> log_has crc dir v recs)"

lemma log_files_dir_cong:
  assumes "log_files crc dir v lead t b" and eq: "\<And>p. parent p = Some dir \<Longrightarrow> v' p = v p"
  shows "log_files crc dir v' lead t b"
proof (rule log_files_congI [OF assms(1)])
  show "canonical_names dir (dom v')"
    using log_filesD(4) [OF assms(1)] eq by (simp add: canonical_names_def dom_def Ball_def) metis
qed (simp add: eq)

lemma log_has_cong:
  assumes "log_has crc dir v recs" and eq: "\<And>p. parent p = Some dir \<Longrightarrow> v' p = v p"
  shows "log_has crc dir v' recs"
proof -
  have c: "canonical_names dir (dom v') = canonical_names dir (dom v)"
    using eq by (simp add: canonical_names_def dom_def Ball_def) metis
  have "v' (segment_path dir i) = v (segment_path dir i)" for i by (rule eq) simp
  then show ?thesis
    using assms(1) log_files_dir_cong [of crc dir v _ _ _ v'] eq unfolding log_has_def c by metis
qed

lemma recoverable_settled:
  assumes "\<And>p. parent p = Some dir \<Longrightarrow> d_images D p = {v p}" and "log_has crc dir v recs"
  shows "recoverable crc dir D recs"
  unfolding recoverable_def
proof (intro allI impI)
  fix v' assume "\<forall>p. v' p \<in> d_images D p"
  then have "v' p = v p" if "parent p = Some dir" for p
    using assms(1) [OF that] by (metis singletonD)
  then show "log_has crc dir v' recs" by (rule log_has_cong [OF assms(2)])
qed

lemma durable_recoverable:
  assumes "durable_log crc dir D recs []"
  shows "recoverable crc dir D recs"
  unfolding recoverable_def
proof (intro allI impI)
  fix v assume v: "\<forall>p. v p \<in> d_images D p"
  show "log_has crc dir v recs"
  proof (cases "no_log dir D \<and> recs = []")
    case True
    then have "v (segment_path dir i) = None" for i
      using v by (metis no_log_def singletonD)
    then show ?thesis using True v canonical_images_names [of dir D v]
      by (simp add: log_has_def no_log_def)
  next
    case False
    then obtain lead t ps where i: "img_log crc dir D lead t ps []" and r: "recs = concat (map snd lead) @ ps"
      using assms unfolding durable_log_def by blast
    have sh: "records_ok ps" "addressable (frames crc ps)"
      using i log_shapeD(4,5) by (fastforce simp: img_log_def)+
    obtain b where "b \<in> tears (frames crc ps) (frames crc (ps @ []))" "log_files crc dir v lead t b"
      using img_log_files [OF i] v by blast
    then show ?thesis
      using scan_buffer_frames [OF sh, of "concat (map snd lead)"] sh(2) by (auto simp: log_has_def r)
  qed
qed

context read_fs
begin

lemma recover_log_has:
  assumes "ok s" and "log_has crc dir (view s) recs"
  shows "\<exists>rec. recover crc S dir s = Inr rec \<and> records rec = recs"
  using assms(2) unfolding log_has_def
proof (elim disjE exE conjE)
  assume "canonical_names dir (dom (view s))" "\<forall>i. view s (segment_path dir i) = None" "recs = []"
  then show ?thesis using recover_empty [OF assms(1)] by (simp add: default_recovered_def)
next
  fix lead t b n r assume "log_files crc dir (view s) lead t b"
    "scan_buffer crc b (concat (map snd lead)) = ((n, r), recs)"
  from recover_log [OF assms(1) this] show ?thesis by simp
qed

end

text \<open>A power loss while a record is appended in a durable mode: the log that survives has the
  records before it, and perhaps the record.\<close>

lemma scan_buffer_tear:
  assumes ok: "records_ok (ps @ [x])" and safe: "flip_safe crc x" and mem: "addressable (frames crc (ps @ [x]))"
    and b: "b \<in> tears (frames crc ps) (frames crc (ps @ [x]))"
  shows "\<exists>n r qs. scan_buffer crc b out = ((n, r), out @ qs) \<and> (qs = ps \<or> qs = ps @ [x])"
proof -
  have len: "length (frames crc ps) + length (encode crc x) < 2 ^ 64" using mem by (simp add: addressable_def)
  consider (cut) k where "b = frames crc ps @ take k (encode crc x)"
    | (flip) i m where "b = frames crc ps @ flip_bit (encode crc x) i m" "i < length (encode crc x)" "m < 8"
    using b by (auto simp: tears_def)
  then show ?thesis
  proof cases
    case cut
    then obtain j n r where "scan_buffer crc b out = ((n, r), out @ ps @ take j [x])"
      using scan_buffer_cut [OF ok mem, of k out] by auto
    then show ?thesis by (cases j) auto
  next
    case flip
    then show ?thesis using scan_buffer_flipped [of ps x crc i m out] ok safe len
      by (auto simp: addressable_def)
  qed
qed

lemma append_crash_log_has:
  assumes c: "append_crash crc dir acked (take n [x]) D" and safe: "flip_safe crc x" and v: "\<And>p. v p \<in> d_images D p"
  shows "log_has crc dir v acked \<or> log_has crc dir v (acked @ take n [x])"
proof -
  have have_recs: "log_has crc dir v recs" if "durable_log crc dir D recs []" for recs
    using durable_recoverable [OF that] v by (simp add: recoverable_def)
  consider (all) "durable_log crc dir D (acked @ take n [x]) []" | (none) "durable_log crc dir D acked []"
    | (some) "durable_log crc dir D acked [x]" "take n [x] = [x]"
    using c unfolding append_crash_def by (cases n) (fastforce simp: take_Cons' split: if_splits)+
  then show ?thesis
  proof cases
    case some
    then obtain lead t ps where i: "img_log crc dir D lead t ps [x]" and r: "acked = concat (map snd lead) @ ps"
      by (auto simp: durable_log_def)
    have sh: "records_ok (ps @ [x])" "addressable (frames crc (ps @ [x]))"
      using i log_shapeD(4,5) by (fastforce simp: img_log_def)+
    obtain b where b: "b \<in> tears (frames crc ps) (frames crc (ps @ [x]))" "addressable b" "log_files crc dir v lead t b"
      using img_log_files [OF i] v by blast
    show ?thesis
      using scan_buffer_tear [OF sh(1) safe sh(2) b(1), of "concat (map snd lead)"] b some(2)
      by (auto simp: log_has_def r)
  qed (use have_recs in blast)+
qed

text \<open>The segments of a log whose active segment holds exactly the frames of \<open>ps\<close>, all of it
  durable.\<close>

lemma wal_inv_settled:
  assumes log: "log_files crc dir (d_view D) lead t (frames crc ps)" and ps: "records_ok ps" "addressable (frames crc ps)"
    and im: "\<And>p. parent p = Some dir \<Longrightarrow> d_images D p = {d_view D p}"
    and sy: "\<And>i. d_sync D (segment_path dir i) = d_view D (segment_path dir i)"
    and li: "\<And>q. d_linked D (segment_path dir t) q \<longleftrightarrow> q = segment_path dir t"
  shows "wal_inv crc dir D \<lparr>seg_id = t, seg_path = segment_path dir t, write_offset = length (frames crc ps)\<rparr> lead ps []"
proof -
  note l = log_filesD [OF log]
  have shape: "log_shape crc lead t ps"
    using log ps unfolding log_shape_def log_files_def by fastforce
  have "d_images D (segment_path dir i) = seg_images crc lead t ps [] i" for i
  proof (cases "i = t")
    case False
    show ?thesis
    proof (cases "map_of lead i")
      case None
      then have "d_view D (segment_path dir i) = None"
        using l(5) [of i] False by (auto simp: map_of_eq_None_iff)
      then show ?thesis using None False im by (simp add: seg_images_def)
    next
      case (Some qs)
      then show ?thesis using False l(2) [OF map_of_SomeD [OF Some]] im by (simp add: seg_images_def)
    qed
  qed (use l(3) im in \<open>simp add: seg_images_def\<close>)
  moreover have "canonical_images dir D"
    unfolding canonical_images_def
  proof (intro allI impI)
    fix p i assume p: "parent p = Some dir" "parse_segment_id p = Some i" "p \<noteq> segment_path dir i"
    then have "d_view D p = None" using l(4) unfolding canonical_names_def by blast
    then show "d_images D p = {None}" using im [OF p(1)] by simp
  qed
  ultimately have "img_log crc dir D lead t ps []" using shape by (simp add: img_log_def)
  then show ?thesis using log l(2,3) sy li by (auto simp: wal_inv_def)
qed

lemma wal_inv_first:
  assumes none: "\<And>i. d_view D (segment_path dir i) = None" and canon: "canonical_names dir (dom (d_view D))"
    and sy: "\<And>p. parent p = Some dir \<Longrightarrow> d_sync D p = d_view D p"
  shows "wal_inv crc dir (disk_sync_dir dir (disk_create (segment_path dir t) D))
      \<lparr>seg_id = t, seg_path = segment_path dir t, write_offset = 0\<rparr> [] [] []"
proof -
  let ?D = "disk_sync_dir dir (disk_create (segment_path dir t) D)"
  have v: "d_view ?D = (d_view D)(segment_path dir t \<mapsto> [])"
    and s: "d_sync ?D = (d_sync D)(segment_path dir t \<mapsto> [])"
    by (simp_all add: disk_sync_dir_def disk_create_def)
  have sd: "d_sync ?D p = d_view ?D p" if "parent p = Some dir" for p
    using sy [OF that] by (simp add: v s)
  have "log_files crc dir (d_view ?D) [] t (frames crc [])"
    using none canon by (auto simp: log_files_def v canonical_names_def)
  moreover have "d_images ?D p = {d_view ?D p}" if "parent p = Some dir" for p
  proof -
    have "d_images ?D p = (case d_view ?D p of None \<Rightarrow> {None} | Some c \<Rightarrow> Some ` tears (the (d_sync ?D p)) c)"
      using that by (simp add: disk_sync_dir_def disk_create_def split: option.split)
    then show ?thesis using sd [OF that] by (simp split: option.split)
  qed
  moreover have "d_linked ?D (segment_path dir t) q \<longleftrightarrow> q = segment_path dir t" for q
    by (auto simp: disk_sync_dir_def disk_create_def)
  ultimately have "wal_inv crc dir ?D \<lparr>seg_id = t, seg_path = segment_path dir t,
      write_offset = length (frames crc [])\<rparr> [] [] []"
    using sd by (intro wal_inv_settled) (auto simp: addressable_def)
  then show ?thesis by simp
qed

text \<open>Replacing the torn tail by its valid prefix.\<close>

lemma settled_replace:
  assumes set: "settled dir D" and p: "parent tmp = Some dir" "parent dst = Some dir" "tmp \<noteq> dst"
  shows "settled dir (disk_replace dir tmp dst d D)"
    and "d_view (disk_replace dir tmp dst d D) = (d_view D)(tmp := None, dst \<mapsto> d)"
proof -
  let ?D = "disk_replace dir tmp dst d D"
  show v: "d_view ?D = (d_view D)(tmp := None, dst \<mapsto> d)"
    by (simp add: disk_replace_def disk_sync_dir_def)
  have s: "d_sync ?D = (d_sync D)(tmp := None, dst \<mapsto> d)"
    by (simp add: disk_replace_def disk_sync_dir_def)
  have sv: "d_sync ?D q = d_view ?D q" if "parent q = Some dir" for q
    using set that by (simp add: settled_def v s)
  have "d_images ?D q = (case d_view ?D q of None \<Rightarrow> {None} | Some c \<Rightarrow> Some ` tears (the (d_sync ?D q)) c)"
    if "parent q = Some dir" for q
    using that by (simp add: disk_replace_def disk_sync_dir_def split: option.split)
  then have im: "d_images ?D q = {d_view ?D q}" if "parent q = Some dir" for q
    using sv [OF that] that by (simp split: option.split)
  have li: "d_linked ?D r q \<longleftrightarrow> q = r \<and> d_view ?D r \<noteq> None" if "parent r = Some dir" for r q
    using that p settledD(3) [OF set that] by (auto simp: disk_replace_def disk_sync_dir_def)
  have lr: "d_linked ?D r q \<longrightarrow> r = q" if "parent q = Some dir" for r q
    using that by (simp add: disk_replace_def disk_sync_dir_def)
  show "settled dir ?D"
    unfolding settled_def by (intro allI impI conjI) (simp_all only: im sv li, drule (1) lr [rule_format])
qed

section \<open>Opening\<close>

definition opened ::
  "crc \<Rightarrow> path \<Rightarrow> bytes list \<Rightarrow> u64 set \<Rightarrow> storage_error + 'fs wal \<times> recovered \<Rightarrow> disk \<Rightarrow> bool" where
  "opened crc dir recs T r D \<longleftrightarrow> (\<exists>W rec lead ps. r = Inr (W, rec) \<and> records rec = recs
     \<and> coord W = default_coord \<and> seg_id (active W) \<in> T \<and> wal_inv crc dir D (active W) lead ps []
     \<and> concat (map snd lead) @ ps = recs)"

lemma opened_recoverable:
  assumes "opened crc dir recs T r D"
  shows "recoverable crc dir D recs"
proof -
  obtain g lead ps where "wal_inv crc dir D g lead ps []" "concat (map snd lead) @ ps = recs"
    using assms by (auto simp: opened_def)
  then show ?thesis using wal_inv_durable durable_recoverable by metis
qed

context crash_fs
begin

lemma runs_truncate_tail:
  assumes s: "up s" and v: "d_view (disk s) (segment_path dir t) = Some b" and n: "n < length b"
    and C: "\<And>D. d_images D = d_images (disk s) \<Longrightarrow> C D"
      "C (disk_replace dir (tmp_path dir t) (segment_path dir t) (take n b) (disk s))"
    and Q: "Q (Inr ()) (disk_replace dir (tmp_path dir t) (segment_path dir t) (take n b) (disk s))"
  shows "runs up disk down (truncate_tail S dir t n) C Q s"
proof -
  have "st_len S (segment_path dir t) s = Inr (length b)" "read_all S (segment_path dir t) s = Inr b"
    using fs_len [OF s] read_all_view [OF s] v by simp_all
  then show ?thesis
    using runs_replace [where tmp = "tmp_path dir t" and dst = "segment_path dir t" and C = C and Q = Q
        and d = "take n b" and dir = dir, OF s _ _ C Q] n
    by (subst runs_cong [where m' = "\<lambda>s. ok_then (st_create S (tmp_path dir t) (snd (st_delete S (tmp_path dir t) s)))
      (\<lambda>_ s. ok_then (st_append S (tmp_path dir t) (take n b) s)
      (\<lambda>_ s. ok_then (st_sync_file S (tmp_path dir t) s)
      (\<lambda>_ s. ok_then (st_rename S (tmp_path dir t) (segment_path dir t) s)
      (\<lambda>_ s. st_sync_dir S dir s))))"]) (simp_all add: truncate_tail_def Let_def)
qed

end

text \<open>Picking the active segment, and the records, of a log.\<close>

context read_fs
begin

lemma open_tail:
  assumes s: "ok s" and log: "log_files crc dir (view s) lead t b"
  shows "list_segments S dir s = Inr (map (\<lambda>i. (i, segment_path dir i)) (map fst lead @ [t]))"
    and "segment_open S dir t s = Inr \<lparr>seg_id = t, seg_path = segment_path dir t, write_offset = length b\<rparr>"
proof -
  note l = log_filesD [OF log]
  show "list_segments S dir s = Inr (map (\<lambda>i. (i, segment_path dir i)) (map fst lead @ [t]))"
    using list_segments_view [OF s l(4)] l(1) by simp
  show "segment_open S dir t s = Inr \<lparr>seg_id = t, seg_path = segment_path dir t, write_offset = length b\<rparr>"
    using fs_len [OF s] l(3) by (simp add: segment_open_def)
qed

end

text \<open>The second half of \<open>wal_open\<close>, after a possible truncation.\<close>

definition open_active :: "'fs storage \<Rightarrow> path \<Rightarrow> recovered \<Rightarrow> 'fs \<Rightarrow> (storage_error + 'fs wal \<times> recovered) \<times> 'fs" where
  "open_active S dir rec s =
     (case list_segments S dir s of Inl e \<Rightarrow> (Inl e, s)
      | Inr segs \<Rightarrow>
          ok_then (if segs \<noteq> [] then (segment_open S dir (fst (last segs)) s, s)
                   else ok_then (segment_create S dir 1 s) (\<lambda>seg s.
                        ok_then (st_sync_dir S dir s) (\<lambda>_ s. (Inr seg, s)))) (\<lambda>seg s.
          (Inr (\<lparr>wfs = s, active = seg, coord = default_coord\<rparr>, rec), s)))"

lemma open_active_log:
  assumes "read_fs S ok view" and "ok s" and "log_files crc dir (view s) lead t b"
  shows "open_active S dir rec s = (Inr (\<lparr>wfs = s, active = \<lparr>seg_id = t, seg_path = segment_path dir t,
    write_offset = length b\<rparr>, coord = default_coord\<rparr>, rec), s)"
  using read_fs.open_tail [OF assms] by (simp add: open_active_def)

context crash_fs
begin

lemma runs_open_empty:
  assumes s: "up s" and set: "settled dir (disk s)" and none: "\<And>i. d_view (disk s) (segment_path dir i) = None"
    and canon: "canonical_names dir (dom (d_view (disk s)))" and rec: "records rec = []"
    and T: "1 \<in> T"
  shows "runs up disk down (open_active S dir rec) (\<lambda>D. recoverable crc dir D []) (opened crc dir [] T) s"
proof -
  have "list_segments S dir s = Inr []"
    using list_segments_view [OF s canon] none by simp
  then have e: "open_active S dir rec s = ok_then (segment_create S dir 1 s) (\<lambda>seg s.
      ok_then (st_sync_dir S dir s) (\<lambda>_ s. (Inr (\<lparr>wfs = s, active = seg, coord = default_coord\<rparr>, rec), s)))"
    by (simp add: open_active_def ok_then_assoc)
  let ?D = "disk_create (segment_path dir 1) (disk s)"
  let ?seg = "\<lparr>seg_id = 1, seg_path = segment_path dir 1, write_offset = 0\<rparr>"
  have "log_has crc dir (d_view (disk s)) []" using none canon by (simp add: log_has_def)
  then have r: "recoverable crc dir (disk s) []"
    using recoverable_settled [of dir "disk s"] set by (simp add: settled_def)
  have rD: "recoverable crc dir ?D []" using r by (simp add: recoverable_def disk_create_def)
  have inv: "wal_inv crc dir (disk_sync_dir dir ?D) ?seg [] [] []"
    using set by (intro wal_inv_first [OF none canon]) (simp add: settled_def)
  have "runs up disk down (\<lambda>s. ok_then (segment_create S dir 1 s) (\<lambda>seg s.
      ok_then (st_sync_dir S dir s) (\<lambda>_ s. (Inr (\<lparr>wfs = s, active = seg, coord = default_coord\<rparr>, rec), s))))
      (\<lambda>D. recoverable crc dir D []) (opened crc dir [] T) s"
  proof (rule runs_then [where P = "\<lambda>seg D. seg = ?seg \<and> D = ?D"])
    show "runs up disk down (segment_create S dir 1) (\<lambda>D. recoverable crc dir D [])
        (\<lambda>r D. \<exists>seg. r = Inr seg \<and> seg = ?seg \<and> D = ?D) s"
      unfolding segment_create_def Let_def using none rD
      by (intro runs_then_pure runs_create [OF s]) simp_all
    fix seg s' assume s': "up s'" "seg = ?seg \<and> disk s' = ?D"
    have "recoverable crc dir (disk_sync_dir dir ?D) []"
      using durable_recoverable [OF wal_inv_durable [OF inv, simplified]] .
    moreover have "opened crc dir [] T (Inr (\<lparr>wfs = s'', active = ?seg, coord = default_coord\<rparr>, rec)) (disk_sync_dir dir ?D)"
      for s'' :: 'fs
      using inv rec T by (auto simp: opened_def)
    ultimately show "runs up disk down (\<lambda>s. ok_then (st_sync_dir S dir s)
        (\<lambda>_ s. (Inr (\<lparr>wfs = s, active = seg, coord = default_coord\<rparr>, rec), s)))
        (\<lambda>D. recoverable crc dir D []) (opened crc dir [] T) s'"
      using s' by (intro runs_then_result runs_sync_dir) simp_all
  qed (intro inert_then inert_ops)
  then show ?thesis unfolding runs_def e .
qed

lemma wal_open_split:
  "recover crc S dir s = Inr rec \<Longrightarrow> wal_open crc S dir s =
     ok_then (if stop_reason rec \<noteq> Clean
              then (case tail_segment rec of Some tail \<Rightarrow> truncate_tail S dir tail (tail_valid_len rec) s
                    | None \<Rightarrow> (Inr (), s))
              else (Inr (), s)) (\<lambda>_. open_active S dir rec)"
  by (simp add: wal_open_def open_active_def [abs_def])

text \<open>Opening a settled directory returns the log's records, leaves a log ready for appending, and
  loses nothing if the power fails on the way.\<close>

theorem runs_wal_open:
  assumes s: "up s" and set: "settled dir (disk s)" and log: "log_has crc dir (d_view (disk s)) recs"
    and T: "insert 1 {i. d_view (disk s) (segment_path dir i) \<noteq> None} \<subseteq> T"
  shows "runs up disk down (wal_open crc S dir) (\<lambda>D. recoverable crc dir D recs) (opened crc dir recs T) s"
  using log unfolding log_has_def
proof (elim disjE exE conjE)
  assume none: "canonical_names dir (dom (d_view (disk s)))" "\<forall>i. d_view (disk s) (segment_path dir i) = None" "recs = []"
  have "recover crc S dir s = Inr default_recovered" using recover_empty [OF s none(1)] none(2) by simp
  from wal_open_split [OF this] have "wal_open crc S dir s = open_active S dir default_recovered s"
    by (simp add: default_recovered_def)
  then show ?thesis
    using runs_open_empty [OF s set] none T
    by (subst runs_cong) (auto simp: default_recovered_def)
next
  fix lead t b n r
  assume lf: "log_files crc dir (d_view (disk s)) lead t b" and mem: "addressable b"
    and sc: "scan_buffer crc b (concat (map snd lead)) = ((n, r), recs)"
  let ?rec = "\<lparr>records = recs, tail_segment = Some t, tail_valid_len = n, stop_reason = r\<rparr>"
  note op = wal_open_split [OF recover_log [OF s lf sc]]
  from scan_sound [OF sc [unfolded scan_buffer_def]] obtain ps where ps: "recs = concat (map snd lead) @ ps"
    "records_ok ps" "n \<le> length b" "take n b = frames crc ps" and rn: "r = Clean \<longleftrightarrow> n = length b"
    by (auto split: stop_reason.splits)
  have pm: "addressable (frames crc ps)"
    using mem ps(3) unfolding addressable_def ps(4) [symmetric] by simp
  have fin: "opened crc dir recs T (Inr (\<lparr>wfs = s', active = \<lparr>seg_id = t, seg_path = segment_path dir t,
      write_offset = length (frames crc ps)\<rparr>, coord = default_coord\<rparr>, ?rec)) D"
    if "settled dir D" "log_files crc dir (d_view D) lead t (frames crc ps)" for s' :: 'fs and D
  proof -
    have "wal_inv crc dir D \<lparr>seg_id = t, seg_path = segment_path dir t, write_offset = length (frames crc ps)\<rparr> lead ps []"
      using that log_filesD(3) [OF that(2)] ps(2) pm
      by (intro wal_inv_settled [OF that(2)]) (auto simp: settled_def)
    moreover have "t \<in> T" using T log_filesD(3) [OF lf] by auto
    ultimately show ?thesis by (auto simp: opened_def ps(1))
  qed
  show ?thesis
  proof (cases "r = Clean")
    case True
    then have b: "b = frames crc ps" using ps(4) rn by simp
    have "wal_open crc S dir s = open_active S dir ?rec s" by (simp add: op True)
    also have "\<dots> = (Inr (\<lparr>wfs = s, active = \<lparr>seg_id = t, seg_path = segment_path dir t,
        write_offset = length (frames crc ps)\<rparr>, coord = default_coord\<rparr>, ?rec), s)"
      using open_active_log [OF read_fs_axioms s lf] b by simp
    finally show ?thesis
      using fin [OF set] lf b s by (simp add: runs_def)
  next
    case False
    then have n: "n < length b" using ps(3) rn by simp
    let ?D = "disk_replace dir (tmp_path dir t) (segment_path dir t) (take n b) (disk s)"
    note rep = settled_replace [OF set, of "tmp_path dir t" "segment_path dir t" "take n b", simplified]
    have lf': "log_files crc dir (d_view ?D) lead t (frames crc ps)"
    proof -
      have "log_files crc dir ((d_view (disk s))(tmp_path dir t := None)) lead t b"
        by (rule log_files_congI [OF lf]) (use log_filesD(4) [OF lf] in \<open>auto simp: canonical_names_def\<close>)
      then show ?thesis
        by (rule log_files_active) (use log_filesD(3) [OF lf] in \<open>auto simp: rep(2) [unfolded ps(4)] ps(4)\<close>)
    qed
    have rD: "recoverable crc dir ?D recs"
      using fin [OF rep(1) lf'] opened_recoverable by blast
    have rs: "recoverable crc dir D recs" if "d_images D = d_images (disk s)" for D
    proof -
      have "recoverable crc dir (disk s) recs"
        using recoverable_settled [of dir "disk s"] set log by (simp add: settled_def)
      then show ?thesis using that by (simp add: recoverable_def)
    qed
    have "runs up disk down (\<lambda>s. ok_then (truncate_tail S dir t n s) (\<lambda>_. open_active S dir ?rec))
        (\<lambda>D. recoverable crc dir D recs) (opened crc dir recs T) s"
    proof (rule runs_then_quiet [where P = "\<lambda>_ D. D = ?D"])
      show "runs up disk down (truncate_tail S dir t n) (\<lambda>D. recoverable crc dir D recs)
          (\<lambda>r D. \<exists>x. r = Inr x \<and> D = ?D) s"
        using rs rD by (intro runs_truncate_tail [OF s log_filesD(3) [OF lf] n]) auto
    next
      fix s' assume s': "up s'" "disk s' = ?D"
      show "runs up disk down (open_active S dir ?rec) (\<lambda>D. recoverable crc dir D recs) (opened crc dir recs T) s'"
        using open_active_log [OF read_fs_axioms s'(1)] s' lf' fin [OF rep(1) lf'] by (simp add: runs_def)
    next
      fix s' D assume d: "down s' D" "D = ?D"
      have "survivor s' p = d_view ?D p" if "parent p = Some dir" for p
        using cf_survivor [OF d(1), of p] rep(1) that d(2) by (simp add: settled_def)
      then have "log_files crc dir (survivor s') lead t (frames crc ps)"
        using log_files_dir_cong [OF lf', of "survivor s'"] by blast
      from open_active_log [OF cf_down_reads _ this] d(1)
      show "\<exists>r. open_active S dir ?rec s' = (r, s') \<and> (\<forall>y. r = Inr y \<longrightarrow> opened crc dir recs T (Inr y) D)"
        using fin [OF rep(1) lf'] d(2) by auto
    qed
    then show ?thesis using False by (subst runs_cong) (auto simp: op)
  qed
qed

end

end
