(* ===== verification/Ordered_Map.thy ===== *)
theory Ordered_Map imports Prelude begin

text \<open>
  The standard library's \<open>BTreeMap\<close>, used by the simulator's namespace and inode table and by
  the memtable: an association list in strictly ascending key order. The interface the clients
  rely on is the locale \<open>ordered_map\<close>; its interpretation on this model is \<open>bt\<close>.
\<close>

named_theorems bt_simps \<open>lookups in an updated BTreeMap\<close>

type_synonym ('k, 'v) btree = "('k \<times> 'v) list"

definition bt_ok :: "('k::linorder, 'v) btree \<Rightarrow> bool" where
  "bt_ok m \<longleftrightarrow> sorted_wrt (<) (map fst m)"

definition bt_get :: "('k, 'v) btree \<Rightarrow> 'k \<Rightarrow> 'v option" where
  "bt_get m k = map_of m k"

fun bt_insert :: "'k::linorder \<Rightarrow> 'v \<Rightarrow> ('k, 'v) btree \<Rightarrow> ('k, 'v) btree" where
  "bt_insert k v [] = [(k, v)]"
| "bt_insert k v ((a, b) # m) =
     (if k < a then (k, v) # (a, b) # m
      else if k = a then (k, v) # m else (a, b) # bt_insert k v m)"

text \<open>\<open>values_mut\<close> visits every value in place; \<open>retain\<close> keeps the entries that satisfy a
  predicate.\<close>

definition bt_update_all :: "('k \<Rightarrow> 'v \<Rightarrow> 'v) \<Rightarrow> ('k, 'v) btree \<Rightarrow> ('k, 'v) btree" where
  "bt_update_all f m = map (\<lambda>(k, v). (k, f k v)) m"

definition bt_retain :: "('k \<Rightarrow> 'v \<Rightarrow> bool) \<Rightarrow> ('k, 'v) btree \<Rightarrow> ('k, 'v) btree" where
  "bt_retain P m = filter (\<lambda>(k, v). P k v) m"

section \<open>The interface\<close>

locale ordered_map =
  fixes empty :: "'m"
    and get :: "'m \<Rightarrow> 'k::linorder \<Rightarrow> 'v option"
    and insert :: "'k \<Rightarrow> 'v \<Rightarrow> 'm \<Rightarrow> 'm"
    and entries :: "'m \<Rightarrow> ('k \<times> 'v) list"
    and ok :: "'m \<Rightarrow> bool"
  assumes ok_empty: "ok empty"
    and get_empty: "get empty k = None"
    and ok_insert: "ok m \<Longrightarrow> ok (insert k v m)"
    and get_insert: "ok m \<Longrightarrow> get (insert k v m) k' = (if k' = k then Some v else get m k')"
    and entries_get: "ok m \<Longrightarrow> (k, v) \<in> set (entries m) \<longleftrightarrow> get m k = Some v"
    and entries_sorted: "ok m \<Longrightarrow> sorted_wrt (<) (map fst (entries m))"
begin

lemma map_of_entries: "ok m \<Longrightarrow> map_of (entries m) k = get m k"
  using entries_get [of m k] strict_sorted_map_of [OF entries_sorted, of m k]
  by (cases "get m k"; cases "map_of (entries m) k") auto

lemma entries_eqI:
  assumes "ok m" "ok m'" "get m = get m'"
  shows "entries m = entries m'"
  using assms by (intro sorted_alist_eqI) (auto simp: fun_eq_iff map_of_entries intro: entries_sorted)

lemma get_insert_all:
  "ok m \<Longrightarrow> ok (fold (\<lambda>(k, v). insert k v) kvs m) \<and>
    get (fold (\<lambda>(k, v). insert k v) kvs m) k
      = (case map_of (rev kvs) k of Some v \<Rightarrow> Some v | None \<Rightarrow> get m k)"
proof (induction kvs arbitrary: m)
  case (Cons kv kvs)
  obtain k' v' where kv: "kv = (k', v')" by force
  then show ?case
    using Cons.IH [OF ok_insert [OF Cons.prems, of k' v']] Cons.prems
    by (auto simp: get_insert map_add_def split: option.splits)
qed simp

end

section \<open>The model satisfies the interface\<close>

lemma set_bt_insert: "set (map fst (bt_insert k v m)) = insert k (set (map fst m))"
  by (induction k v m rule: bt_insert.induct) auto

lemma bt_ok_Nil [simp]: "bt_ok []"
  by (simp add: bt_ok_def)

lemma bt_ok_insert [simp]: "bt_ok m \<Longrightarrow> bt_ok (bt_insert k v m)"
proof (induction k v m rule: bt_insert.induct)
  case (2 k v a b m)
  then show ?case
    using set_bt_insert [of k v m] by (fastforce simp: bt_ok_def)
qed (simp add: bt_ok_def)

lemma bt_get_insert [simp, bt_simps]:
  "bt_get (bt_insert k v m) k' = (if k' = k then Some v else bt_get m k')"
  by (induction k v m rule: bt_insert.induct) (auto simp: bt_get_def)

lemma bt_get_Nil [simp, bt_simps]: "bt_get [] k = None"
  by (simp add: bt_get_def)

lemma bt_get_mem: "bt_ok m \<Longrightarrow> (k, v) \<in> set m \<longleftrightarrow> bt_get m k = Some v"
  by (simp add: bt_ok_def bt_get_def strict_sorted_map_of)

interpretation bt: ordered_map "[]" bt_get bt_insert id bt_ok
proof unfold_locales
  show "sorted_wrt (<) (map fst (id m))" if "bt_ok m" for m :: "('k::linorder, 'v) btree"
    using that by (simp add: bt_ok_def)
qed (simp_all add: bt_get_mem)

section \<open>Bulk updates\<close>

lemma bt_ok_update_all [simp]: "bt_ok (bt_update_all f m) \<longleftrightarrow> bt_ok m"
  by (simp add: bt_ok_def bt_update_all_def comp_def case_prod_unfold)

lemma bt_get_update_all [simp, bt_simps]:
  "bt_get (bt_update_all f m) k = map_option (f k) (bt_get m k)"
  by (induction m) (auto simp: bt_get_def bt_update_all_def)

lemma bt_ok_retain [simp]: "bt_ok m \<Longrightarrow> bt_ok (bt_retain P m)"
  unfolding bt_ok_def bt_retain_def sorted_wrt_map by (rule sorted_wrt_filter)

lemma bt_get_retain [bt_simps]:
  assumes "bt_ok m"
  shows "bt_get (bt_retain P m) k
    = (case bt_get m k of Some v \<Rightarrow> if P k v then Some v else None | None \<Rightarrow> None)"
proof -
  have iff: "bt_get (bt_retain P m) k = Some v \<longleftrightarrow> bt_get m k = Some v \<and> P k v" for v
    using bt_get_mem [OF assms, of k v] bt_get_mem [OF bt_ok_retain [OF assms, of P], of k v]
    by (auto simp: bt_retain_def)
  show ?thesis
    using iff [of "the (bt_get m k)"] iff [of "the (bt_get (bt_retain P m) k)"]
    by (cases "bt_get (bt_retain P m) k"; cases "bt_get m k") auto
qed

lemma bt_values: "bt_ok m \<Longrightarrow> v \<in> snd ` set m \<longleftrightarrow> (\<exists>k. bt_get m k = Some v)"
  by (force simp flip: bt_get_mem)

end
