(* ===== verification/SimFs.thy ===== *)
theory SimFs imports Storage Ordered_Map begin

text \<open>
  The power-loss simulator (\<open>src/src/storage/sim.rs\<close>). A path has a live and a durable
  binding to an inode generation, an inode has live and durable bytes. \<open>sync_file\<close> moves
  bytes, \<open>sync_dir\<close> moves bindings, and a crash reverts both to their durable image after
  tearing the newest unsynced append.

  The seeded generator of the \<open>rand\<close> crate is the parameter \<open>G\<close>: \<open>G r n\<close> is
  \<open>gen_range(0..n)\<close> from generator state \<open>r\<close>, with the next generator state. What is
  documented of it is \<open>gen_ok\<close>: the draw lies in the range.
\<close>

section \<open>State\<close>

datatype tear_mode = Drop | Truncate | BitFlip

record crash_report =
  ops_before_crash :: nat
  torn_path :: "path option"
  tear_mode :: tear_mode
  tail_len :: nat
  tail_kept :: nat

record inode_state =
  live :: bytes
  durable :: bytes
  last_append_seq :: "nat option"

record path_state =
  live_inode :: "nat option"
  durable_inode :: "nat option"

record 'r sim_state =
  files :: "(path, path_state) btree"
  inodes :: "(nat, inode_state) btree"
  next_inode :: nat
  op_count :: nat
  next_append_seq :: nat
  crash_after :: "nat option"
  last_report :: "crash_report option"
  rng :: 'r

type_synonym 'r gen = "'r \<Rightarrow> nat \<Rightarrow> nat \<times> 'r"

definition gen_ok :: "'r gen \<Rightarrow> bool" where
  "gen_ok G \<longleftrightarrow> (\<forall>r n. 0 < n \<longrightarrow> fst (G r n) < n)"

definition default_inode :: inode_state where
  "default_inode = \<lparr>live = [], durable = [], last_append_seq = None\<rparr>"

definition default_path :: path_state where
  "default_path = \<lparr>live_inode = None, durable_inode = None\<rparr>"

text \<open>\<open>SimFs::new\<close>; \<open>seed_from_u64\<close> of the generator is the parameter \<open>seeded\<close>.\<close>

definition sim_new :: "(u64 \<Rightarrow> 'r) \<Rightarrow> u64 \<Rightarrow> 'r sim_state" where
  "sim_new seeded seed = \<lparr>files = [], inodes = [], next_inode = 1, op_count = 0,
     next_append_seq = 0, crash_after = None, last_report = None, rng = seeded seed\<rparr>"

definition arm_crash_after :: "nat \<Rightarrow> 'r sim_state \<Rightarrow> 'r sim_state" where
  "arm_crash_after n st = st\<lparr>crash_after := Some n\<rparr>"

section \<open>Crash\<close>

definition collect_unreferenced_inodes :: "'r sim_state \<Rightarrow> 'r sim_state" where
  "collect_unreferenced_inodes st =
     (let referenced = concat (map (\<lambda>(_, e). [live_inode e, durable_inode e]) (files st))
      in st\<lparr>inodes := bt_retain (\<lambda>i _. Some i \<in> set referenced) (inodes st)\<rparr>)"

text \<open>\<open>Iterator::max_by_key\<close> on the first component; the last of several maxima wins.\<close>

fun max_by_fst :: "(nat \<times> 'a) list \<Rightarrow> (nat \<times> 'a) option" where
  "max_by_fst [] = None"
| "max_by_fst (x # xs) =
     (case max_by_fst xs of None \<Rightarrow> Some x
      | Some y \<Rightarrow> if fst x \<le> fst y then Some y else Some x)"

definition tear_candidates :: "'r sim_state \<Rightarrow> (nat \<times> nat) list" where
  "tear_candidates st = List.map_filter (\<lambda>(ino, inode).
     case last_append_seq inode of None \<Rightarrow> None
     | Some seq \<Rightarrow>
         if length (durable inode) < length (live inode)
            \<and> list_ex (\<lambda>(_, e). durable_inode e = Some ino) (files st)
         then Some (seq, ino) else None) (inodes st)"

definition tear_target :: "'r sim_state \<Rightarrow> (path \<times> nat) option" where
  "tear_target st =
     (case max_by_fst (tear_candidates st) of None \<Rightarrow> None
      | Some (_, ino) \<Rightarrow>
          (case List.find (\<lambda>(_, e). durable_inode e = Some ino) (files st) of None \<Rightarrow> None
           | Some (p, _) \<Rightarrow> Some (p, ino)))"

text \<open>The mangled tail: the mode, the kept bytes, the kept length and the next generator.\<close>

definition tear :: "'r gen \<Rightarrow> 'r \<Rightarrow> inode_state \<Rightarrow> tear_mode \<times> bytes \<times> nat \<times> 'r" where
  "tear G r0 inode =
     (let durable_len = length (durable inode);
          tail = drop durable_len (live inode);
          (m, r1) = G r0 3
      in if m = 0 then (Drop, durable inode, 0, r1)
         else if m = 1 then
           (let (k, r2) = G r1 (length tail + 1)
            in (Truncate, durable inode @ take k tail, k, r2))
         else
           (let (b, r2) = G r1 (length tail * 8)
            in (BitFlip, flip_bit (durable inode @ tail) (durable_len + b div 8) (b mod 8),
                length tail, r2)))"

definition apply_tear :: "'r gen \<Rightarrow> 'r sim_state \<Rightarrow> crash_report \<times> 'r sim_state" where
  "apply_tear G st =
     (let report = \<lparr>ops_before_crash = op_count st, torn_path = None, tear_mode = Drop,
                    tail_len = 0, tail_kept = 0\<rparr>
      in case tear_target st of None \<Rightarrow> (report, st)
         | Some (path, ino) \<Rightarrow>
             (case bt_get (inodes st) ino of None \<Rightarrow> (report, st)
              | Some inode \<Rightarrow>
                  (let (mode, kept, n, r) = tear G (rng st) inode
                   in (report\<lparr>torn_path := Some path, tear_mode := mode,
                              tail_len := length (live inode) - length (durable inode),
                              tail_kept := n\<rparr>,
                       st\<lparr>inodes := bt_insert ino (inode\<lparr>durable := kept\<rparr>) (inodes st),
                          rng := r\<rparr>))))"

definition crash :: "'r gen \<Rightarrow> 'r sim_state \<Rightarrow> crash_report \<times> 'r sim_state" where
  "crash G st =
     (let (report, st1) = apply_tear G st;
          st2 = st1\<lparr>inodes := bt_update_all
                   (\<lambda>_ i. i\<lparr>live := durable i, last_append_seq := None\<rparr>) (inodes st1)\<rparr>;
          st3 = st2\<lparr>files := bt_retain (\<lambda>_ e. durable_inode e \<noteq> None)
                   (bt_update_all (\<lambda>_ e. e\<lparr>live_inode := durable_inode e\<rparr>) (files st2))\<rparr>;
          st4 = collect_unreferenced_inodes st3
      in (report, st4\<lparr>crash_after := None, last_report := Some report\<rparr>))"

definition bump :: "'r gen \<Rightarrow> 'r sim_state \<Rightarrow> 'r sim_state" where
  "bump G st =
     (let st1 = st\<lparr>op_count := op_count st + 1\<rparr>
      in case crash_after st1 of None \<Rightarrow> st1
         | Some n \<Rightarrow> if n \<le> op_count st1 then snd (crash G st1) else st1)"

section \<open>The \<open>Storage\<close> operations\<close>

definition is_child_of :: "path \<Rightarrow> path \<Rightarrow> bool" where
  "is_child_of p dir \<longleftrightarrow> parent p = Some dir"

definition live_of :: "'r sim_state \<Rightarrow> path \<Rightarrow> nat option" where
  "live_of st p = (case bt_get (files st) p of None \<Rightarrow> None | Some e \<Rightarrow> live_inode e)"

text \<open>\<open>inodes.get(&id).expect("live inode present")\<close>: the simulator's invariant below shows
  that the default is never read.\<close>

definition inode_at :: "'r sim_state \<Rightarrow> nat \<Rightarrow> inode_state" where
  "inode_at st ino = (case bt_get (inodes st) ino of None \<Rightarrow> default_inode | Some i \<Rightarrow> i)"

definition path_at :: "'r sim_state \<Rightarrow> path \<Rightarrow> path_state" where
  "path_at st p = (case bt_get (files st) p of None \<Rightarrow> default_path | Some e \<Rightarrow> e)"

definition sim_create :: "'r gen \<Rightarrow> path \<Rightarrow> 'r sim_state \<Rightarrow> (storage_error + unit) \<times> 'r sim_state" where
  "sim_create G p st =
     (if live_of st p \<noteq> None then (Inl (AlreadyExists p), st)
      else (let ino = next_inode st;
                st1 = st\<lparr>next_inode := ino + 1, inodes := bt_insert ino default_inode (inodes st),
                         files := bt_insert p ((path_at st p)\<lparr>live_inode := Some ino\<rparr>) (files st)\<rparr>
            in (Inr (), bump G st1)))"

definition sim_open :: "path \<Rightarrow> 'r sim_state \<Rightarrow> storage_error + unit" where
  "sim_open p st = (if live_of st p \<noteq> None then Inr () else Inl (NotFound p))"

definition sim_append ::
  "'r gen \<Rightarrow> path \<Rightarrow> bytes \<Rightarrow> 'r sim_state \<Rightarrow> (storage_error + nat) \<times> 'r sim_state" where
  "sim_append G p data st =
     (case live_of st p of None \<Rightarrow> (Inl (NotFound p), st)
      | Some ino \<Rightarrow>
          (let inode = inode_at st ino;
               seq = next_append_seq st;
               inode' = inode\<lparr>live := live inode @ data, last_append_seq := Some seq\<rparr>
           in (Inr (length (live inode)),
               bump G (st\<lparr>next_append_seq := seq + 1,
                          inodes := bt_insert ino inode' (inodes st)\<rparr>))))"

definition sim_write_at ::
  "'r gen \<Rightarrow> path \<Rightarrow> nat \<Rightarrow> bytes \<Rightarrow> 'r sim_state \<Rightarrow> (storage_error + unit) \<times> 'r sim_state" where
  "sim_write_at G p off data st =
     (case live_of st p of None \<Rightarrow> (Inl (NotFound p), st)
      | Some ino \<Rightarrow>
          (let inode = inode_at st ino; len = length (live inode)
           in if len < off \<or> len < off + length data then (Inl (OutOfBounds p off len), st)
              else (let bs = take off (live inode) @ data @ drop (off + length data) (live inode)
                    in (Inr (), bump G (st\<lparr>inodes := bt_insert ino (inode\<lparr>live := bs\<rparr>) (inodes st)\<rparr>)))))"

definition sim_read_at :: "path \<Rightarrow> nat \<Rightarrow> nat \<Rightarrow> 'r sim_state \<Rightarrow> storage_error + bytes" where
  "sim_read_at p off n st =
     (case live_of st p of None \<Rightarrow> Inl (NotFound p)
      | Some ino \<Rightarrow>
          (let bs = live (inode_at st ino)
           in if length bs < off then Inl (OutOfBounds p off (length bs))
              else Inr (take (min n (length bs - off)) (drop off bs))))"

definition sim_sync_file :: "'r gen \<Rightarrow> path \<Rightarrow> 'r sim_state \<Rightarrow> (storage_error + unit) \<times> 'r sim_state" where
  "sim_sync_file G p st =
     (case live_of st p of None \<Rightarrow> (Inl (NotFound p), st)
      | Some ino \<Rightarrow>
          (let inode = inode_at st ino;
               inode' = inode\<lparr>durable := live inode, last_append_seq := None\<rparr>
           in (Inr (), bump G (st\<lparr>inodes := bt_insert ino inode' (inodes st)\<rparr>))))"

definition sim_sync_dir :: "'r gen \<Rightarrow> path \<Rightarrow> 'r sim_state \<Rightarrow> (storage_error + unit) \<times> 'r sim_state" where
  "sim_sync_dir G dir st =
     (let committed = bt_update_all (\<lambda>p e.
            if is_child_of p dir then e\<lparr>durable_inode := live_inode e\<rparr> else e) (files st);
          kept = bt_retain (\<lambda>_ e. live_inode e \<noteq> None \<or> durable_inode e \<noteq> None) committed
      in (Inr (), bump G (collect_unreferenced_inodes (st\<lparr>files := kept\<rparr>))))"

definition sim_rename ::
  "'r gen \<Rightarrow> path \<Rightarrow> path \<Rightarrow> 'r sim_state \<Rightarrow> (storage_error + unit) \<times> 'r sim_state" where
  "sim_rename G from to st =
     (case live_of st from of None \<Rightarrow> (Inl (NotFound from), st)
      | Some ino \<Rightarrow>
          (let st1 = (if from \<noteq> to then
                 (let fs1 = bt_insert to ((path_at st to)\<lparr>live_inode := Some ino\<rparr>) (files st)
                  in st\<lparr>files := bt_insert from ((path_at st from)\<lparr>live_inode := None\<rparr>) fs1\<rparr>)
               else st)
           in (Inr (), bump G (collect_unreferenced_inodes st1))))"

definition sim_delete :: "'r gen \<Rightarrow> path \<Rightarrow> 'r sim_state \<Rightarrow> (storage_error + unit) \<times> 'r sim_state" where
  "sim_delete G p st =
     (case live_of st p of None \<Rightarrow> (Inl (NotFound p), st)
      | Some _ \<Rightarrow>
          (let st1 = st\<lparr>files := bt_insert p ((path_at st p)\<lparr>live_inode := None\<rparr>) (files st)\<rparr>
           in (Inr (), bump G (collect_unreferenced_inodes st1))))"

definition sim_list :: "path \<Rightarrow> 'r sim_state \<Rightarrow> storage_error + path list" where
  "sim_list dir st =
     Inr (map fst (filter (\<lambda>(p, e). live_inode e \<noteq> None \<and> is_child_of p dir) (files st)))"

definition sim_len :: "path \<Rightarrow> 'r sim_state \<Rightarrow> storage_error + nat" where
  "sim_len p st =
     (case live_of st p of None \<Rightarrow> Inl (NotFound p)
      | Some ino \<Rightarrow> Inr (length (live (inode_at st ino))))"

definition sim_storage :: "'r gen \<Rightarrow> 'r sim_state storage" where
  "sim_storage G = \<lparr>st_create = sim_create G, st_open = sim_open, st_append = sim_append G,
     st_write_at = sim_write_at G, st_read_at = sim_read_at, st_sync_file = sim_sync_file G,
     st_sync_dir = sim_sync_dir G, st_rename = sim_rename G, st_delete = sim_delete G,
     st_list = sim_list, st_len = sim_len\<rparr>"

end
