(* ===== verification/SimFs_Laws.thy ===== *)
theory SimFs_Laws imports SimFs begin

text \<open>
  What the simulator promises: its invariant \<open>sim_inv\<close>, the interpretation of \<open>live_fs\<close> on
  it, and the effect of a crash on what a path resolves to.
\<close>

section \<open>Views and the invariant\<close>

definition dur_of :: "'r sim_state \<Rightarrow> path \<Rightarrow> nat option" where
  "dur_of st p = (case bt_get (files st) p of None \<Rightarrow> None | Some e \<Rightarrow> durable_inode e)"

definition sim_view :: "'r sim_state \<Rightarrow> path \<Rightarrow> bytes option" where
  "sim_view st p = map_option (\<lambda>i. live (inode_at st i)) (live_of st p)"

definition sim_inv :: "'r sim_state \<Rightarrow> bool" where
  "sim_inv st \<longleftrightarrow> bt_ok (files st) \<and> bt_ok (inodes st)
     \<and> (\<forall>p i. live_of st p = Some i \<or> dur_of st p = Some i \<longrightarrow> bt_get (inodes st) i \<noteq> None)
     \<and> (\<forall>i. bt_get (inodes st) i \<noteq> None \<longrightarrow> i < next_inode st)
     \<and> (\<forall>p q i. live_of st p = Some i \<longrightarrow> live_of st q = Some i \<longrightarrow> p = q)
     \<and> (\<forall>p q i. dur_of st p = Some i \<longrightarrow> dur_of st q = Some i \<longrightarrow> p = q)
     \<and> (\<forall>p q i. live_of st p = Some i \<longrightarrow> dur_of st q = Some i \<longrightarrow> parent p = parent q)
     \<and> (\<forall>i n. bt_get (inodes st) i = Some n \<longrightarrow> length (durable n) \<le> length (live n))"

definition sim_ok :: "'r sim_state \<Rightarrow> bool" where
  "sim_ok st \<longleftrightarrow> sim_inv st \<and> crash_after st = None"

lemma sim_invD:
  assumes "sim_inv st"
  shows "bt_ok (files st)" and "bt_ok (inodes st)"
    and "live_of st p = Some i \<Longrightarrow> \<exists>n. bt_get (inodes st) i = Some n"
    and "dur_of st p = Some i \<Longrightarrow> \<exists>n. bt_get (inodes st) i = Some n"
    and "bt_get (inodes st) i = Some n \<Longrightarrow> i < next_inode st"
    and "live_of st p = Some i \<Longrightarrow> live_of st q = Some i \<Longrightarrow> p = q"
    and "dur_of st p = Some i \<Longrightarrow> dur_of st q = Some i \<Longrightarrow> p = q"
    and "live_of st p = Some i \<Longrightarrow> dur_of st q = Some i \<Longrightarrow> parent p = parent q"
    and "bt_get (inodes st) i = Some n \<Longrightarrow> length (durable n) \<le> length (live n)"
  using assms unfolding sim_inv_def by blast+

lemma of_frame [simp]:
  "live_of (st\<lparr>inodes := x\<rparr>) = live_of st" "dur_of (st\<lparr>inodes := x\<rparr>) = dur_of st"
  "live_of (st\<lparr>next_inode := n\<rparr>) = live_of st" "dur_of (st\<lparr>next_inode := n\<rparr>) = dur_of st"
  "live_of (st\<lparr>op_count := n\<rparr>) = live_of st" "dur_of (st\<lparr>op_count := n\<rparr>) = dur_of st"
  "live_of (st\<lparr>next_append_seq := n\<rparr>) = live_of st" "dur_of (st\<lparr>next_append_seq := n\<rparr>) = dur_of st"
  "live_of (st\<lparr>crash_after := c\<rparr>) = live_of st" "dur_of (st\<lparr>crash_after := c\<rparr>) = dur_of st"
  "live_of (st\<lparr>last_report := l\<rparr>) = live_of st" "dur_of (st\<lparr>last_report := l\<rparr>) = dur_of st"
  "live_of (st\<lparr>rng := r\<rparr>) = live_of st" "dur_of (st\<lparr>rng := r\<rparr>) = dur_of st"
  by (auto simp: live_of_def dur_of_def fun_eq_iff)

lemma inode_at_frame [simp]:
  "inode_at (st\<lparr>files := f\<rparr>) = inode_at st" "inode_at (st\<lparr>next_inode := n\<rparr>) = inode_at st"
  "inode_at (st\<lparr>op_count := n\<rparr>) = inode_at st" "inode_at (st\<lparr>next_append_seq := n\<rparr>) = inode_at st"
  "inode_at (st\<lparr>crash_after := c\<rparr>) = inode_at st" "inode_at (st\<lparr>last_report := l\<rparr>) = inode_at st"
  "inode_at (st\<lparr>rng := r\<rparr>) = inode_at st"
  by (auto simp: inode_at_def fun_eq_iff)

lemma of_files_insert [simp]:
  "live_of (st\<lparr>files := bt_insert p e fs\<rparr>) q = (if q = p then live_inode e else live_of (st\<lparr>files := fs\<rparr>) q)"
  "dur_of (st\<lparr>files := bt_insert p e fs\<rparr>) q = (if q = p then durable_inode e else dur_of (st\<lparr>files := fs\<rparr>) q)"
  by (auto simp: live_of_def dur_of_def)

lemma inode_at_insert [simp]:
  "inode_at (st\<lparr>inodes := bt_insert i n (inodes st)\<rparr>) j = (if j = i then n else inode_at st j)"
  by (auto simp: inode_at_def)

lemma path_at_bindings [simp]:
  "live_inode (path_at st p) = live_of st p" "durable_inode (path_at st p) = dur_of st p"
  by (auto simp: path_at_def live_of_def dur_of_def default_path_def split: option.splits)

lemma bump_unarmed: "crash_after st = None \<Longrightarrow> bump G st = st\<lparr>op_count := op_count st + 1\<rparr>"
  by (simp add: bump_def Let_def)

lemma sim_inv_frame [simp]:
  "sim_inv (st\<lparr>op_count := n\<rparr>) = sim_inv st" "sim_inv (st\<lparr>crash_after := c\<rparr>) = sim_inv st"
  "sim_inv (st\<lparr>last_report := l\<rparr>) = sim_inv st" "sim_inv (st\<lparr>rng := r\<rparr>) = sim_inv st"
  "sim_inv (st\<lparr>next_append_seq := n\<rparr>) = sim_inv st"
  by (auto simp: sim_inv_def)

lemma sim_view_frame [simp]:
  "sim_view (st\<lparr>op_count := n\<rparr>) = sim_view st" "sim_view (st\<lparr>crash_after := c\<rparr>) = sim_view st"
  "sim_view (st\<lparr>last_report := l\<rparr>) = sim_view st" "sim_view (st\<lparr>rng := r\<rparr>) = sim_view st"
  "sim_view (st\<lparr>next_append_seq := n\<rparr>) = sim_view st"
  by (auto simp: sim_view_def fun_eq_iff)

section \<open>Garbage collection of inodes\<close>

lemma referenced_iff:
  assumes "bt_ok (files st)"
  shows "Some i \<in> set (concat (map (\<lambda>(_, e). [live_inode e, durable_inode e]) (files st)))
    \<longleftrightarrow> (\<exists>p. live_of st p = Some i \<or> dur_of st p = Some i)"
    (is "?L \<longleftrightarrow> ?R")
proof -
  have "?L \<longleftrightarrow> (\<exists>p e. (p, e) \<in> set (files st) \<and> (live_inode e = Some i \<or> durable_inode e = Some i))"
    by force
  also have "\<dots> \<longleftrightarrow> (\<exists>p e. bt_get (files st) p = Some e \<and> (live_inode e = Some i \<or> durable_inode e = Some i))"
    by (simp add: bt_get_mem [OF assms])
  also have "\<dots> \<longleftrightarrow> ?R"
    unfolding live_of_def dur_of_def by (force split: option.splits)
  finally show ?thesis .
qed

lemma collect_of [simp]:
  "live_of (collect_unreferenced_inodes st) = live_of st"
  "dur_of (collect_unreferenced_inodes st) = dur_of st"
  "crash_after (collect_unreferenced_inodes st) = crash_after st"
  "op_count (collect_unreferenced_inodes st) = op_count st"
  "next_append_seq (collect_unreferenced_inodes st) = next_append_seq st"
  "files (collect_unreferenced_inodes st) = files st"
  "next_inode (collect_unreferenced_inodes st) = next_inode st"
  "last_report (collect_unreferenced_inodes st) = last_report st"
  "rng (collect_unreferenced_inodes st) = rng st"
  by (simp_all add: collect_unreferenced_inodes_def Let_def)

lemma collect_inodes:
  assumes "bt_ok (files st)" and "bt_ok (inodes st)"
  shows "bt_ok (inodes (collect_unreferenced_inodes st))"
    and "bt_get (inodes (collect_unreferenced_inodes st)) i =
      (if \<exists>p. live_of st p = Some i \<or> dur_of st p = Some i then bt_get (inodes st) i else None)"
  using assms referenced_iff [OF assms(1), of i]
  by (auto simp: collect_unreferenced_inodes_def bt_get_retain split: option.splits)

lemma collect_inv:
  assumes "sim_inv st"
  shows "sim_inv (collect_unreferenced_inodes st)"
  unfolding sim_inv_def collect_of
  using sim_invD [OF assms] collect_inodes [OF sim_invD(1,2) [OF assms]]
  by (auto split: if_splits)

lemma collect_inode_at:
  assumes "bt_ok (files st)" and "bt_ok (inodes st)" and "live_of st p = Some i \<or> dur_of st p = Some i"
  shows "inode_at (collect_unreferenced_inodes st) i = inode_at st i"
  using collect_inodes(2) [OF assms(1,2), of i] assms(3) by (auto simp: inode_at_def)

lemma collect_view:
  assumes "bt_ok (files st)" and "bt_ok (inodes st)"
  shows "sim_view (collect_unreferenced_inodes st) = sim_view st"
proof
  fix p
  show "sim_view (collect_unreferenced_inodes st) p = sim_view st p"
    using collect_inode_at [OF assms, of p] by (cases "live_of st p") (auto simp: sim_view_def)
qed

section \<open>The operations while no crash is armed\<close>

text \<open>The invariant carried across a state whose components are known pointwise.\<close>

lemma sim_invI:
  assumes "bt_ok (files st)" and "bt_ok (inodes st)"
    and "\<And>p i. live_of st p = Some i \<Longrightarrow> bt_get (inodes st) i \<noteq> None"
    and "\<And>p i. dur_of st p = Some i \<Longrightarrow> bt_get (inodes st) i \<noteq> None"
    and "\<And>i n. bt_get (inodes st) i = Some n \<Longrightarrow> i < next_inode st \<and> length (durable n) \<le> length (live n)"
    and "\<And>p q i. live_of st p = Some i \<Longrightarrow> live_of st q = Some i \<Longrightarrow> p = q"
    and "\<And>p q i. dur_of st p = Some i \<Longrightarrow> dur_of st q = Some i \<Longrightarrow> p = q"
    and "\<And>p q i. live_of st p = Some i \<Longrightarrow> dur_of st q = Some i \<Longrightarrow> parent p = parent q"
  shows "sim_inv st"
  using assms unfolding sim_inv_def by blast

lemma sim_inv_inodes:
  assumes inv: "sim_inv st" and get: "bt_get (inodes st) i = Some n"
    and len: "length (durable n') \<le> length (live n')"
  shows "sim_inv (st\<lparr>inodes := bt_insert i n' (inodes st)\<rparr>)"
  by (rule sim_invI) (use sim_invD [OF inv] get len in \<open>auto split: if_splits\<close>)

lemma inode_at_get: "bt_get (inodes st) i = Some n \<Longrightarrow> inode_at st i = n"
  by (simp add: inode_at_def)

lemma live_inode_at:
  assumes "sim_inv st" and "live_of st p = Some i"
  shows "bt_get (inodes st) i = Some (inode_at st i)"
  using sim_invD(3) [OF assms] by (auto simp: inode_at_def)

lemma durable_le_live:
  assumes "sim_inv st" and "live_of st p = Some i"
  shows "length (durable (inode_at st i)) \<le> length (live (inode_at st i))"
  using sim_invD(9) [OF assms(1) live_inode_at [OF assms]] .

lemma fresh_inode:
  assumes "sim_inv st"
  shows "bt_get (inodes st) (next_inode st) = None" "live_of st p \<noteq> Some (next_inode st)"
    "dur_of st p \<noteq> Some (next_inode st)"
proof -
  show none: "bt_get (inodes st) (next_inode st) = None"
    using sim_invD(5) [OF assms, of "next_inode st"] by (cases "bt_get (inodes st) (next_inode st)") auto
  show "live_of st p \<noteq> Some (next_inode st)" "dur_of st p \<noteq> Some (next_inode st)"
    using sim_invD(3,4) [OF assms, of p "next_inode st"] none by auto
qed

definition created :: "path \<Rightarrow> 'r sim_state \<Rightarrow> 'r sim_state" where
  "created p st = st\<lparr>next_inode := next_inode st + 1,
     inodes := bt_insert (next_inode st) default_inode (inodes st),
     files := bt_insert p ((path_at st p)\<lparr>live_inode := Some (next_inode st)\<rparr>) (files st)\<rparr>"

lemma created_of [simp]:
  "live_of (created p st) q = (if q = p then Some (next_inode st) else live_of st q)"
  "dur_of (created p st) = dur_of st"
  "inode_at (created p st) i = (if i = next_inode st then default_inode else inode_at st i)"
  by (auto simp: created_def live_of_def dur_of_def inode_at_def path_at_def default_path_def fun_eq_iff
           split: option.splits)

lemma created_inv:
  assumes inv: "sim_inv st" and none: "live_of st p = None"
  shows "sim_inv (created p st)"
proof (rule sim_invI)
  show "bt_ok (files (created p st))" "bt_ok (inodes (created p st))"
    using sim_invD [OF inv] by (simp_all add: created_def)
  show "i < next_inode (created p st) \<and> length (durable n) \<le> length (live n)"
    if "bt_get (inodes (created p st)) i = Some n" for i n
    using that sim_invD(5,9) [OF inv, of i n] by (auto simp: created_def default_inode_def split: if_splits)
qed (use sim_invD(3,4,6,7,8) [OF inv] fresh_inode [OF inv] in
      \<open>auto simp: created_def default_inode_def split: if_splits\<close>)

lemma live_Some_view: "live_of st p = Some i \<Longrightarrow> sim_view st p = Some (live (inode_at st i))"
  by (simp add: sim_view_def)

lemma view_None_iff: "sim_view st p = None \<longleftrightarrow> live_of st p = None"
  by (simp add: sim_view_def)

lemma sim_create_ok:
  assumes "sim_ok st" and "sim_view st p = None"
  shows "sim_create G p st = (Inr (), (created p st)\<lparr>op_count := op_count st + 1\<rparr>)"
    and "sim_ok ((created p st)\<lparr>op_count := op_count st + 1\<rparr>)"
    and "sim_view (created p st) = (sim_view st)(p \<mapsto> [])"
proof -
  have inv: "sim_inv st" and ca: "crash_after st = None" and none: "live_of st p = None"
    using assms by (auto simp: sim_ok_def view_None_iff)
  have ca': "crash_after (created p st) = None" "op_count (created p st) = op_count st"
    using ca by (simp_all add: created_def)
  show "sim_create G p st = (Inr (), (created p st)\<lparr>op_count := op_count st + 1\<rparr>)"
    using none bump_unarmed [OF ca'(1)] ca'(2) by (simp add: sim_create_def created_def Let_def)
  show "sim_ok ((created p st)\<lparr>op_count := op_count st + 1\<rparr>)"
    using created_inv [OF inv none] ca' by (simp add: sim_ok_def)
  show "sim_view (created p st) = (sim_view st)(p \<mapsto> [])"
    using fresh_inode(2) [OF inv]
    by (auto simp: sim_view_def fun_eq_iff default_inode_def intro!: option.map_cong)
qed

text \<open>The writing operations: each has the shape "touch one inode, then count the operation".\<close>

definition with_inode :: "nat \<Rightarrow> inode_state \<Rightarrow> 'r sim_state \<Rightarrow> 'r sim_state" where
  "with_inode i n st = st\<lparr>inodes := bt_insert i n (inodes st)\<rparr>"

definition tick :: "'r sim_state \<Rightarrow> 'r sim_state" where
  "tick st = st\<lparr>op_count := op_count st + 1\<rparr>"

lemma tick_simps [simp]:
  "live_of (tick st) = live_of st" "dur_of (tick st) = dur_of st" "inode_at (tick st) = inode_at st"
  "sim_view (tick st) = sim_view st" "sim_inv (tick st) = sim_inv st" "sim_ok (tick st) = sim_ok st"
  "crash_after (tick st) = crash_after st" "op_count (tick st) = op_count st + 1"
  "files (tick st) = files st" "inodes (tick st) = inodes st" "rng (tick st) = rng st"
  "last_report (tick st) = last_report st"
  by (simp_all add: tick_def sim_ok_def)

lemma with_inode_simps [simp]:
  "live_of (with_inode i n st) = live_of st" "dur_of (with_inode i n st) = dur_of st"
  "inode_at (with_inode i n st) j = (if j = i then n else inode_at st j)"
  "crash_after (with_inode i n st) = crash_after st" "op_count (with_inode i n st) = op_count st"
  "files (with_inode i n st) = files st" "last_report (with_inode i n st) = last_report st"
  by (simp_all add: with_inode_def)

lemma bump_tick: "crash_after st = None \<Longrightarrow> bump G st = tick st"
  by (simp add: bump_unarmed tick_def)

lemma with_inode_inv:
  assumes "sim_inv st" and "live_of st p = Some i" and "length (durable n) \<le> length (live n)"
  shows "sim_inv (with_inode i n st)"
  unfolding with_inode_def
  using assms(1) live_inode_at [OF assms(1,2)] assms(3) by (rule sim_inv_inodes)

lemma with_inode_view:
  assumes "sim_inv st" and "live_of st p = Some i"
  shows "sim_view (with_inode i n st) = (sim_view st)(p \<mapsto> live n)"
proof
  fix q
  show "sim_view (with_inode i n st) q = ((sim_view st)(p \<mapsto> live n)) q"
  proof (cases "q = p")
    case False
    then have "live_of st q \<noteq> Some i" using sim_invD(6) [OF assms(1), of q i p] assms(2) by blast
    with False show ?thesis by (cases "live_of st q") (auto simp: sim_view_def)
  qed (use assms(2) in \<open>simp add: sim_view_def\<close>)
qed

definition appended :: "path \<Rightarrow> bytes \<Rightarrow> 'r sim_state \<Rightarrow> 'r sim_state" where
  "appended p d st = (let i = the (live_of st p); n = inode_at st i
     in with_inode i (n\<lparr>live := live n @ d, last_append_seq := Some (next_append_seq st)\<rparr>)
          (st\<lparr>next_append_seq := next_append_seq st + 1\<rparr>))"

definition synced :: "path \<Rightarrow> 'r sim_state \<Rightarrow> 'r sim_state" where
  "synced p st = (let i = the (live_of st p); n = inode_at st i
     in with_inode i (n\<lparr>durable := live n, last_append_seq := None\<rparr>) st)"

lemma sim_append_ok:
  assumes "sim_ok st" and "sim_view st p = Some c"
  shows "sim_append G p d st = (Inr (length c), tick (appended p d st))"
    and "sim_ok (appended p d st)"
    and "sim_view (appended p d st) = (sim_view st)(p \<mapsto> c @ d)"
proof -
  have inv: "sim_inv st" and ca: "crash_after st = None" using assms by (auto simp: sim_ok_def)
  obtain i where i: "live_of st p = Some i" and c: "c = live (inode_at st i)"
    using assms(2) by (auto simp: sim_view_def)
  have ca': "crash_after (appended p d st) = None" using ca by (simp add: appended_def Let_def)
  let ?st = "st\<lparr>next_append_seq := next_append_seq st + 1\<rparr>"
  show "sim_append G p d st = (Inr (length c), tick (appended p d st))"
    unfolding bump_tick [OF ca', of G, symmetric]
    by (simp add: sim_append_def i c appended_def with_inode_def Let_def)
  have le: "length (durable (inode_at st i)) \<le> length (live (inode_at st i) @ d)"
    using durable_le_live [OF inv i] by simp
  show "sim_ok (appended p d st)"
    using with_inode_inv [of ?st p i] inv i le ca by (simp add: sim_ok_def appended_def Let_def)
  show "sim_view (appended p d st) = (sim_view st)(p \<mapsto> c @ d)"
    using with_inode_view [of ?st p i] inv i c by (simp add: appended_def Let_def)
qed

lemma sim_sync_file_ok:
  assumes "sim_ok st" and "sim_view st p = Some c"
  shows "sim_sync_file G p st = (Inr (), tick (synced p st))"
    and "sim_ok (synced p st)" and "sim_view (synced p st) = sim_view st"
proof -
  have inv: "sim_inv st" and ca: "crash_after st = None" using assms by (auto simp: sim_ok_def)
  obtain i where i: "live_of st p = Some i" and c: "c = live (inode_at st i)"
    using assms(2) by (auto simp: sim_view_def)
  have ca': "crash_after (synced p st) = None" using ca by (simp add: synced_def Let_def)
  show "sim_sync_file G p st = (Inr (), tick (synced p st))"
    unfolding bump_tick [OF ca', of G, symmetric]
    by (simp add: sim_sync_file_def i synced_def with_inode_def Let_def)
  show "sim_ok (synced p st)"
    using with_inode_inv [OF inv i] ca by (simp add: sim_ok_def synced_def i Let_def)
  show "sim_view (synced p st) = sim_view st"
    using with_inode_view [OF inv i] assms(2) c by (simp add: synced_def i Let_def fun_upd_idem)
qed

text \<open>The namespace operations: the files change, then unreferenced generations are collected.\<close>

lemma collected_ok:
  assumes "sim_inv st" and "crash_after st = None"
  shows "sim_ok (collect_unreferenced_inodes st)"
    and "sim_view (collect_unreferenced_inodes st) = sim_view st"
  using assms collect_inv collect_view sim_invD(1,2) by (auto simp: sim_ok_def)

definition dir_synced :: "path \<Rightarrow> 'r sim_state \<Rightarrow> 'r sim_state" where
  "dir_synced dir st = st\<lparr>files := bt_retain (\<lambda>_ e. live_inode e \<noteq> None \<or> durable_inode e \<noteq> None)
     (bt_update_all (\<lambda>p e. if is_child_of p dir then e\<lparr>durable_inode := live_inode e\<rparr> else e) (files st))\<rparr>"

lemma dir_synced_of:
  assumes "bt_ok (files st)"
  shows "live_of (dir_synced dir st) p = live_of st p"
    and "dur_of (dir_synced dir st) p = (if parent p = Some dir then live_of st p else dur_of st p)"
  using assms
  by (auto simp: dir_synced_def live_of_def dur_of_def bt_get_retain is_child_of_def split: option.splits)

lemma dir_synced_frame [simp]:
  "inodes (dir_synced dir st) = inodes st" "next_inode (dir_synced dir st) = next_inode st"
  "inode_at (dir_synced dir st) = inode_at st" "crash_after (dir_synced dir st) = crash_after st"
  by (simp_all add: dir_synced_def)

lemma dir_synced_inv:
  assumes inv: "sim_inv st"
  shows "sim_inv (dir_synced dir st)"
proof -
  note [simp] = dir_synced_of [OF sim_invD(1) [OF inv]]
  show ?thesis
  proof (rule sim_invI)
    show "bt_ok (files (dir_synced dir st))"
      using sim_invD(1) [OF inv] by (simp add: dir_synced_def)
    show "p = q" if "dur_of (dir_synced dir st) p = Some i" "dur_of (dir_synced dir st) q = Some i" for p q i
    proof (cases "parent p = Some dir"; cases "parent q = Some dir")
      assume "parent p = Some dir" "parent q \<noteq> Some dir"
      with that sim_invD(8) [OF inv, of p i q] show ?thesis by simp
    next
      assume "parent p \<noteq> Some dir" "parent q = Some dir"
      with that sim_invD(8) [OF inv, of q i p] show ?thesis by simp
    qed (use that sim_invD(6,7) [OF inv, of p i q] in simp_all)
    show "parent p = parent q" if "live_of (dir_synced dir st) p = Some i" "dur_of (dir_synced dir st) q = Some i" for p q i
      using that sim_invD(6,8) [OF inv, of p i q] by (auto split: if_splits)
  qed (use sim_invD(2-6,9) [OF inv] in \<open>auto split: if_splits\<close>)
qed

lemma dir_synced_view [simp]:
  assumes "sim_inv st"
  shows "sim_view (dir_synced dir st) = sim_view st"
  using dir_synced_of(1) [OF sim_invD(1) [OF assms]] by (simp add: sim_view_def fun_eq_iff)

lemma sim_sync_dir_ok:
  assumes "sim_ok st"
  shows "sim_sync_dir G dir st = (Inr (), tick (collect_unreferenced_inodes (dir_synced dir st)))"
    and "sim_ok (collect_unreferenced_inodes (dir_synced dir st))"
    and "sim_view (collect_unreferenced_inodes (dir_synced dir st)) = sim_view st"
proof -
  have inv: "sim_inv st" and ca: "crash_after st = None" using assms by (auto simp: sim_ok_def)
  show "sim_sync_dir G dir st = (Inr (), tick (collect_unreferenced_inodes (dir_synced dir st)))"
    unfolding sim_sync_dir_def Let_def dir_synced_def [symmetric] by (simp add: bump_tick ca)
  show "sim_ok (collect_unreferenced_inodes (dir_synced dir st))"
    "sim_view (collect_unreferenced_inodes (dir_synced dir st)) = sim_view st"
    using collected_ok [OF dir_synced_inv [OF inv]] ca inv by simp_all
qed

definition unlinked :: "path \<Rightarrow> 'r sim_state \<Rightarrow> 'r sim_state" where
  "unlinked p st = st\<lparr>files := bt_insert p ((path_at st p)\<lparr>live_inode := None\<rparr>) (files st)\<rparr>"

definition moved :: "path \<Rightarrow> path \<Rightarrow> 'r sim_state \<Rightarrow> 'r sim_state" where
  "moved p q st = st\<lparr>files := bt_insert p ((path_at st p)\<lparr>live_inode := None\<rparr>)
     (bt_insert q ((path_at st q)\<lparr>live_inode := live_of st p\<rparr>) (files st))\<rparr>"

lemma unlinked_simps [simp]:
  "live_of (unlinked p st) q = (if q = p then None else live_of st q)"
  "dur_of (unlinked p st) = dur_of st" "inodes (unlinked p st) = inodes st"
  "next_inode (unlinked p st) = next_inode st" "inode_at (unlinked p st) = inode_at st"
  "crash_after (unlinked p st) = crash_after st"
  by (auto simp: unlinked_def live_of_def dur_of_def path_at_def default_path_def fun_eq_iff split: option.splits)

lemma moved_simps [simp]:
  "live_of (moved p q st) r = (if r = p then None else if r = q then live_of st p else live_of st r)"
  "dur_of (moved p q st) = dur_of st" "inodes (moved p q st) = inodes st"
  "next_inode (moved p q st) = next_inode st" "inode_at (moved p q st) = inode_at st"
  "crash_after (moved p q st) = crash_after st"
  by (auto simp: moved_def live_of_def dur_of_def path_at_def default_path_def fun_eq_iff split: option.splits)

lemma unlinked_inv:
  assumes inv: "sim_inv st"
  shows "sim_inv (unlinked p st)"
proof (rule sim_invI)
  show "bt_ok (files (unlinked p st))" using sim_invD(1) [OF inv] by (simp add: unlinked_def)
qed (use sim_invD(2-9) [OF inv] in \<open>auto split: if_splits\<close>)

lemma moved_inv:
  assumes inv: "sim_inv st" and par: "parent p = parent q"
  shows "sim_inv (moved p q st)"
proof (rule sim_invI)
  show "bt_ok (files (moved p q st))" using sim_invD(1) [OF inv] by (simp add: moved_def)
  show "r = r'" if "live_of (moved p q st) r = Some i" "live_of (moved p q st) r' = Some i" for r r' i
    using that sim_invD(6) [OF inv, of _ i _] by (auto split: if_splits)
  show "parent r = parent r'" if "live_of (moved p q st) r = Some i" "dur_of (moved p q st) r' = Some i" for r r' i
    using that par sim_invD(8) [OF inv, of _ i r'] by (auto split: if_splits)
qed (use sim_invD(2,3,4,5,7,9) [OF inv] in \<open>auto split: if_splits\<close>)

lemma unlinked_view [simp]: "sim_view (unlinked p st) = (sim_view st)(p := None)"
  by (auto simp: sim_view_def fun_eq_iff)

lemma moved_view: "p \<noteq> q \<Longrightarrow> sim_view st p = Some c \<Longrightarrow> sim_view (moved p q st) = (sim_view st)(p := None, q \<mapsto> c)"
  by (auto simp: sim_view_def fun_eq_iff)

lemma sim_delete_ok:
  assumes "sim_ok st" and "sim_view st p = Some c"
  shows "sim_delete G p st = (Inr (), tick (collect_unreferenced_inodes (unlinked p st)))"
    and "sim_ok (collect_unreferenced_inodes (unlinked p st))"
    and "sim_view (collect_unreferenced_inodes (unlinked p st)) = (sim_view st)(p := None)"
proof -
  have inv: "sim_inv st" and ca: "crash_after st = None" using assms by (auto simp: sim_ok_def)
  obtain i where i: "live_of st p = Some i" using assms(2) by (auto simp: sim_view_def)
  show "sim_delete G p st = (Inr (), tick (collect_unreferenced_inodes (unlinked p st)))"
    unfolding sim_delete_def Let_def unlinked_def [symmetric] by (simp add: i bump_tick ca)
  show "sim_ok (collect_unreferenced_inodes (unlinked p st))"
    "sim_view (collect_unreferenced_inodes (unlinked p st)) = (sim_view st)(p := None)"
    using collected_ok [OF unlinked_inv [OF inv]] ca by simp_all
qed

lemma sim_rename_ok:
  assumes "sim_ok st" and "sim_view st p = Some c" and "p \<noteq> q" and "parent p = parent q"
  shows "sim_rename G p q st = (Inr (), tick (collect_unreferenced_inodes (moved p q st)))"
    and "sim_ok (collect_unreferenced_inodes (moved p q st))"
    and "sim_view (collect_unreferenced_inodes (moved p q st)) = (sim_view st)(p := None, q \<mapsto> c)"
proof -
  have inv: "sim_inv st" and ca: "crash_after st = None" using assms by (auto simp: sim_ok_def)
  obtain i where i: "live_of st p = Some i" using assms(2) by (auto simp: sim_view_def)
  have "sim_rename G p q st = (Inr (), bump G (collect_unreferenced_inodes (moved p q st)))"
    using assms(3) by (simp add: sim_rename_def i moved_def Let_def)
  then show "sim_rename G p q st = (Inr (), tick (collect_unreferenced_inodes (moved p q st)))"
    by (simp add: bump_tick ca)
  show "sim_ok (collect_unreferenced_inodes (moved p q st))"
    "sim_view (collect_unreferenced_inodes (moved p q st)) = (sim_view st)(p := None, q \<mapsto> c)"
    using collected_ok [OF moved_inv [OF inv assms(4)]] ca moved_view [OF assms(3,2)] by simp_all
qed

lemma take_min_drop: "take (min n (length xs - off)) (drop off xs) = take n (drop off xs)"
  by (simp add: min_def)

lemma sim_list_ok:
  assumes "sim_inv st"
  shows "\<exists>ps. sim_list dir st = Inr ps \<and> sorted_wrt (<) ps
    \<and> set ps = {p. sim_view st p \<noteq> None \<and> parent p = Some dir}"
proof -
  let ?ps = "map fst (filter (\<lambda>(p, e). live_inode e \<noteq> None \<and> is_child_of p dir) (files st))"
  have ok: "bt_ok (files st)" using sim_invD(1) [OF assms] .
  then have "sorted_wrt (<) ?ps"
    unfolding bt_ok_def sorted_wrt_map by (rule sorted_wrt_filter)
  moreover have "p \<in> set ?ps \<longleftrightarrow> sim_view st p \<noteq> None \<and> parent p = Some dir" for p
  proof -
    have "p \<in> set ?ps \<longleftrightarrow> (\<exists>e. (p, e) \<in> set (files st) \<and> live_inode e \<noteq> None \<and> parent p = Some dir)"
      by (force simp: is_child_of_def)
    also have "\<dots> \<longleftrightarrow> live_of st p \<noteq> None \<and> parent p = Some dir"
      by (auto simp: bt_get_mem [OF ok] live_of_def split: option.splits)
    finally show ?thesis by (simp add: view_None_iff)
  qed
  ultimately have "sorted_wrt (<) ?ps \<and> set ?ps = {p. sim_view st p \<noteq> None \<and> parent p = Some dir}"
    by blast
  then show ?thesis unfolding sim_list_def by blast
qed

interpretation sim: live_fs "sim_storage G" sim_ok sim_view
proof unfold_locales
  fix s :: "'a sim_state" and p q c d off n dir
  assume ok: "sim_ok s"
  then have inv: "sim_inv s" by (simp add: sim_ok_def)
  show "\<exists>s'. st_create (sim_storage G) p s = (Inr (), s') \<and> sim_ok s' \<and> sim_view s' = (sim_view s)(p \<mapsto> [])"
    if "sim_view s p = None"
    using sim_create_ok [OF ok that] by (simp add: sim_storage_def)
  show "st_create (sim_storage G) p s = (Inl (AlreadyExists p), s)" if "sim_view s p = Some c"
    using that by (auto simp: sim_storage_def sim_create_def sim_view_def)
  show "st_open (sim_storage G) p s = (case sim_view s p of None \<Rightarrow> Inl (NotFound p) | Some x \<Rightarrow> Inr ())"
    by (auto simp: sim_storage_def sim_open_def sim_view_def)
  show "\<exists>s'. st_append (sim_storage G) p d s = (Inr (length c), s') \<and> sim_ok s' \<and> sim_view s' = (sim_view s)(p \<mapsto> c @ d)"
    if "sim_view s p = Some c"
    using sim_append_ok [OF ok that] by (simp add: sim_storage_def)
  show "st_read_at (sim_storage G) p off n s = Inr (take n (drop off c))"
    if "sim_view s p = Some c" "off \<le> length c"
    using that by (auto simp: sim_storage_def sim_read_at_def sim_view_def Let_def take_min_drop)
  show "\<exists>s'. st_sync_file (sim_storage G) p s = (Inr (), s') \<and> sim_ok s' \<and> sim_view s' = sim_view s"
    if "sim_view s p = Some c"
    using sim_sync_file_ok [OF ok that] by (simp add: sim_storage_def)
  show "\<exists>s'. st_sync_dir (sim_storage G) dir s = (Inr (), s') \<and> sim_ok s' \<and> sim_view s' = sim_view s"
    using sim_sync_dir_ok [OF ok] by (simp add: sim_storage_def)
  show "\<exists>s'. st_rename (sim_storage G) p q s = (Inr (), s') \<and> sim_ok s' \<and> sim_view s' = (sim_view s)(p := None, q \<mapsto> c)"
    if "sim_view s p = Some c" "p \<noteq> q" "parent p = parent q"
    using sim_rename_ok [OF ok that] by (simp add: sim_storage_def)
  show "\<exists>s'. st_delete (sim_storage G) p s = (Inr (), s') \<and> sim_ok s' \<and> sim_view s' = (sim_view s)(p := None)"
    if "sim_view s p = Some c"
    using sim_delete_ok [OF ok that] by (simp add: sim_storage_def)
  show "st_delete (sim_storage G) p s = (Inl (NotFound p), s)" if "sim_view s p = None"
    using that by (simp add: sim_storage_def sim_delete_def view_None_iff)
  show "\<exists>ps. st_list (sim_storage G) dir s = Inr ps \<and> sorted_wrt (<) ps
      \<and> set ps = {p. sim_view s p \<noteq> None \<and> parent p = Some dir}"
    using sim_list_ok [OF inv] by (simp add: sim_storage_def)
  show "st_len (sim_storage G) p s = (case sim_view s p of None \<Rightarrow> Inl (NotFound p) | Some c \<Rightarrow> Inr (length c))"
    by (auto simp: sim_storage_def sim_len_def sim_view_def split: option.splits)
qed

section \<open>What a crash leaves behind\<close>

text \<open>The images the durable bytes of an inode may have after a crash: the synced bytes alone
  when nothing is unsynced, else also the synced bytes followed by a torn or bit-flipped tail.\<close>

definition torn_images :: "inode_state \<Rightarrow> bytes set" where
  "torn_images n = (let d = durable n; tail = drop (length d) (live n) in
     {d @ take k tail |k. k \<le> length tail} \<union>
     {flip_bit (d @ tail) (length d + b div 8) (b mod 8) |b. b < 8 * length tail})"

lemma durable_torn_image: "durable n \<in> torn_images n"
proof -
  have "durable n = durable n @ take 0 (drop (length (durable n)) (live n))" by simp
  then show ?thesis unfolding torn_images_def Let_def by blast
qed

lemma tear_torn_image:
  assumes "gen_ok G" and "length (durable n) < length (live n)" and "tear G r n = (m, kept, k, r')"
  shows "kept \<in> torn_images n"
proof -
  let ?tail = "drop (length (durable n)) (live n)"
  obtain m0 r1 where d1: "G r 3 = (m0, r1)" by force
  obtain k1 r2 where d2: "G r1 (length ?tail + 1) = (k1, r2)" by force
  obtain b1 r3 where d3: "G r1 (length ?tail * 8) = (b1, r3)" by force
  have k1: "k1 \<le> length ?tail"
    using assms(1) d2 unfolding gen_ok_def by (metis add_gr_0 fst_conv less_Suc_eq_le Suc_eq_plus1 zero_less_one)
  have "0 < length ?tail * 8" using assms(2) by simp
  then have b1: "b1 < 8 * length ?tail"
    using assms(1) d3 unfolding gen_ok_def by (metis fst_conv mult.commute)
  consider "m0 = 0" | "m0 = 1" | "m0 \<noteq> 0" "m0 \<noteq> 1" by blast
  then show ?thesis
  proof cases
    case 1
    then have "kept = durable n" using assms(3) d1 by (simp add: tear_def Let_def)
    then show ?thesis by (simp add: durable_torn_image)
  next
    case 2
    then have "kept = durable n @ take k1 ?tail" using assms(3) d1 d2 by (auto simp: tear_def Let_def)
    then show ?thesis using k1 unfolding torn_images_def Let_def by blast
  next
    case 3
    then have "kept = flip_bit (durable n @ ?tail) (length (durable n) + b1 div 8) (b1 mod 8)"
      using assms(3) d1 d3 by (auto simp: tear_def Let_def)
    then show ?thesis using b1 unfolding torn_images_def Let_def by blast
  qed
qed

lemma max_by_fst_mem: "max_by_fst xs = Some x \<Longrightarrow> x \<in> set xs"
  by (induction xs arbitrary: x) (auto split: option.splits if_splits)

lemma tear_target_Some:
  assumes inv: "sim_inv st" and t: "tear_target st = Some (p, i)"
  shows "dur_of st p = Some i" and "bt_get (inodes st) i = Some (inode_at st i)"
    and "length (durable (inode_at st i)) < length (live (inode_at st i))"
    and "last_append_seq (inode_at st i) \<noteq> None"
proof -
  note ok = sim_invD(1,2) [OF inv]
  from t obtain q e where mx: "max_by_fst (tear_candidates st) = Some (q, i)"
    and f: "List.find (\<lambda>(_, e). durable_inode e = Some i) (files st) = Some (p, e)"
    by (auto simp: tear_target_def split: option.splits)
  from f have "(p, e) \<in> set (files st)" and "durable_inode e = Some i"
    by (auto simp: find_Some_iff in_set_conv_nth)
  then show "dur_of st p = Some i" by (simp add: bt_get_mem [OF ok(1)] dur_of_def)
  from max_by_fst_mem [OF mx] obtain n where n: "(i, n) \<in> set (inodes st)"
    and "last_append_seq n \<noteq> None" and "length (durable n) < length (live n)"
    by (auto simp: tear_candidates_def List.map_filter_def split: option.splits if_splits)
  moreover have "bt_get (inodes st) i = Some n" using n by (simp add: bt_get_mem [OF ok(2)])
  ultimately show "bt_get (inodes st) i = Some (inode_at st i)"
    "length (durable (inode_at st i)) < length (live (inode_at st i))"
    "last_append_seq (inode_at st i) \<noteq> None" by (auto simp: inode_at_def)
qed

lemma apply_tear_effect:
  assumes inv: "sim_inv st" and G: "gen_ok G" and st': "st' = snd (apply_tear G st)"
  shows "files st' = files st" and "bt_ok (inodes st')" and "next_inode st' = next_inode st"
    and "bt_get (inodes st') i \<noteq> None \<longleftrightarrow> bt_get (inodes st) i \<noteq> None"
    and "durable (inode_at st' i) \<in> torn_images (inode_at st i)"
    and "last_append_seq (inode_at st i) = None \<or> length (live (inode_at st i)) = length (durable (inode_at st i))
         \<Longrightarrow> durable (inode_at st' i) = durable (inode_at st i)"
proof -
  have "files st' = files st \<and> bt_ok (inodes st') \<and> next_inode st' = next_inode st
    \<and> (bt_get (inodes st') i \<noteq> None \<longleftrightarrow> bt_get (inodes st) i \<noteq> None)
    \<and> durable (inode_at st' i) \<in> torn_images (inode_at st i)
    \<and> (last_append_seq (inode_at st i) = None \<or> length (live (inode_at st i)) = length (durable (inode_at st i))
         \<longrightarrow> durable (inode_at st' i) = durable (inode_at st i))"
  proof (cases "tear_target st")
    case None
    then show ?thesis using sim_invD(2) [OF inv] by (simp add: st' apply_tear_def Let_def durable_torn_image)
  next
    case (Some pj)
    obtain p j where pj: "tear_target st = Some (p, j)" using Some by (cases pj) auto
    note t = tear_target_Some [OF inv pj]
    obtain m kept k r where tr: "tear G (rng st) (inode_at st j) = (m, kept, k, r)" by (metis prod_cases4)
    have "st' = st\<lparr>inodes := bt_insert j ((inode_at st j)\<lparr>durable := kept\<rparr>) (inodes st), rng := r\<rparr>"
      by (simp add: st' apply_tear_def pj t(2) tr Let_def)
    moreover have "kept \<in> torn_images (inode_at st j)" by (rule tear_torn_image [OF G t(3) tr])
    ultimately show ?thesis using t sim_invD(2) [OF inv] by (auto simp: durable_torn_image)
  qed
  then show "files st' = files st" and "bt_ok (inodes st')" and "next_inode st' = next_inode st"
    and "bt_get (inodes st') i \<noteq> None \<longleftrightarrow> bt_get (inodes st) i \<noteq> None"
    and "durable (inode_at st' i) \<in> torn_images (inode_at st i)"
    and "last_append_seq (inode_at st i) = None \<or> length (live (inode_at st i)) = length (durable (inode_at st i))
         \<Longrightarrow> durable (inode_at st' i) = durable (inode_at st i)" by blast+
qed

lemma crash_files:
  assumes inv: "sim_inv st" and st': "st' = snd (crash G st)"
  shows "bt_ok (files st')" and "live_of st' p = dur_of st p" and "dur_of st' p = dur_of st p"
    and "crash_after st' = None" and "last_report st' = Some (fst (crash G st))"
proof -
  obtain report st1 where st1: "apply_tear G st = (report, st1)" by force
  have f1: "files st1 = files st"
    using st1 by (auto simp: apply_tear_def Let_def split: option.splits prod.splits)
  let ?fs = "bt_retain (\<lambda>_ e. durable_inode e \<noteq> None)
     (bt_update_all (\<lambda>_ e. e\<lparr>live_inode := durable_inode e\<rparr>) (files st))"
  have fs: "files st' = ?fs" "crash_after st' = None" "last_report st' = Some (fst (crash G st))"
    by (simp_all add: st' crash_def st1 f1 Let_def)
  show "bt_ok (files st')" using sim_invD(1) [OF inv] by (simp add: fs)
  show "live_of st' p = dur_of st p" "dur_of st' p = dur_of st p"
    using sim_invD(1) [OF inv] by (auto simp: fs live_of_def dur_of_def bt_get_retain split: option.splits)
  show "crash_after st' = None" "last_report st' = Some (fst (crash G st))" by (fact fs)+
qed

lemma crash_inodes:
  assumes inv: "sim_inv st" and G: "gen_ok G" and st': "st' = snd (crash G st)"
  shows "bt_ok (inodes st')" and "next_inode st' = next_inode st"
    and "bt_get (inodes st') i \<noteq> None \<longleftrightarrow> (\<exists>p. dur_of st p = Some i)"
    and "bt_get (inodes st') i = Some n \<Longrightarrow> live n = durable n \<and> last_append_seq n = None"
    and "dur_of st p = Some i \<Longrightarrow> live (inode_at st' i) \<in> torn_images (inode_at st i)"
    and "dur_of st p = Some i \<Longrightarrow>
      last_append_seq (inode_at st i) = None \<or> length (live (inode_at st i)) = length (durable (inode_at st i))
      \<Longrightarrow> live (inode_at st' i) = durable (inode_at st i)"
proof -
  obtain report st1 where st1: "apply_tear G st = (report, st1)" by force
  then have snd1: "st1 = snd (apply_tear G st)" by simp
  note e = apply_tear_effect [OF inv G snd1]
  let ?st2 = "st1\<lparr>inodes := bt_update_all (\<lambda>_ i. i\<lparr>live := durable i, last_append_seq := None\<rparr>) (inodes st1)\<rparr>"
  let ?st3 = "?st2\<lparr>files := bt_retain (\<lambda>_ e. durable_inode e \<noteq> None)
     (bt_update_all (\<lambda>_ e. e\<lparr>live_inode := durable_inode e\<rparr>) (files ?st2))\<rparr>"
  have s': "inodes st' = inodes (collect_unreferenced_inodes ?st3)" "next_inode st' = next_inode st1"
    by (simp_all add: st' crash_def st1 Let_def)
  have ok3: "bt_ok (files ?st3)" "bt_ok (inodes ?st3)"
    using sim_invD(1) [OF inv] e(1,2) by simp_all
  have of3: "live_of ?st3 p = dur_of st p" "dur_of ?st3 p = dur_of st p" for p
    using sim_invD(1) [OF inv] e(1) by (auto simp: live_of_def dur_of_def bt_get_retain split: option.splits)
  note c = collect_inodes [OF ok3, unfolded of3]
  show "bt_ok (inodes st')" using c(1) by (simp add: s')
  show "next_inode st' = next_inode st" using e(3) by (simp add: s')
  have get: "bt_get (inodes st') j = (if \<exists>p. dur_of st p = Some j
      then map_option (\<lambda>i. i\<lparr>live := durable i, last_append_seq := None\<rparr>) (bt_get (inodes st1) j) else None)" for j
    unfolding s' c(2) by simp
  show "bt_get (inodes st') i \<noteq> None \<longleftrightarrow> (\<exists>p. dur_of st p = Some i)"
    using e(4) [of i] sim_invD(4) [OF inv] unfolding get by (auto split: if_splits)
  show "live n = durable n \<and> last_append_seq n = None" if "bt_get (inodes st') i = Some n"
    using that unfolding get by (auto split: if_splits)
  have at: "live (inode_at st' i) = durable (inode_at st1 i)" if "dur_of st p = Some i" for p
    using that e(4) [of i] sim_invD(4) [OF inv that] get [of i] by (auto simp: inode_at_def)
  show "live (inode_at st' i) \<in> torn_images (inode_at st i)" if "dur_of st p = Some i"
    using at [OF that] e(5) by simp
  show "live (inode_at st' i) = durable (inode_at st i)" if "dur_of st p = Some i"
    and "last_append_seq (inode_at st i) = None \<or> length (live (inode_at st i)) = length (durable (inode_at st i))"
    using at [OF that(1)] e(6) [OF that(2)] by simp
qed

lemma crash_ok:
  assumes inv: "sim_inv st" and G: "gen_ok G"
  shows "sim_ok (snd (crash G st))"
proof -
  note f = crash_files [OF inv refl, of G] and n = crash_inodes [OF inv G refl]
  have "sim_inv (snd (crash G st))"
  proof (rule sim_invI)
    show "i < next_inode (snd (crash G st)) \<and> length (durable m) \<le> length (live m)"
      if "bt_get (inodes (snd (crash G st))) i = Some m" for i m
    proof -
      from that n(3) [of i] obtain p where "dur_of st p = Some i" by auto
      then show ?thesis using n(4) [OF that] n(2) sim_invD(4,5) [OF inv] by fastforce
    qed
    show "parent p = parent q" if "live_of (snd (crash G st)) p = Some i" "dur_of (snd (crash G st)) q = Some i" for p q i
      using that sim_invD(7) [OF inv, of p i q] f(2,3) by simp
  qed (use f n(1,3) sim_invD(7) [OF inv] in auto)
  then show ?thesis using f(4) by (simp add: sim_ok_def)
qed

text \<open>The contents a path may resolve to after a crash.\<close>

definition after_crash :: "'r sim_state \<Rightarrow> path \<Rightarrow> bytes option set" where
  "after_crash st p = (case dur_of st p of None \<Rightarrow> {None}
     | Some i \<Rightarrow> (let n = inode_at st i in
         if last_append_seq n = None \<or> length (live n) = length (durable n)
         then {Some (durable n)} else Some ` torn_images n))"

lemma crash_view:
  assumes "sim_inv st" and "gen_ok G"
  shows "sim_view (snd (crash G st)) p \<in> after_crash st p"
  using crash_files(2) [OF assms(1) refl, of G p] crash_inodes(5,6) [OF assms refl]
  by (auto simp: after_crash_def sim_view_def Let_def split: option.splits)

end
