(* ===== verification/Sim_Disk.thy ===== *)
theory Sim_Disk imports SimFs_Laws Crash begin

text \<open>
  The simulator refines the abstract disk of \<open>Crash\<close>: every operation of \<open>sim.rs\<close> acts on
  \<open>sim_disk\<close> as the specification says, whether or not a crash is armed, and a crash leaves each
  path with one of the contents the disk allows.
\<close>

fun images_of :: "(bytes \<times> bytes) option \<Rightarrow> bytes option set" where
  "images_of None = {None}"
| "images_of (Some (d, c)) = Some ` tears d c"

definition sim_disk :: "'r sim_state \<Rightarrow> disk" where
  "sim_disk st = \<lparr>d_view = sim_view st,
     d_sync = (\<lambda>p. map_option (\<lambda>i. durable (inode_at st i)) (live_of st p)),
     d_linked = (\<lambda>p q. live_of st p \<noteq> None \<and> live_of st p = dur_of st q),
     d_images = (\<lambda>p. images_of (map_option (\<lambda>i. (durable (inode_at st i), live (inode_at st i))) (dur_of st p)))\<rparr>"

lemma sim_disk_view [simp]: "d_view (sim_disk st) = sim_view st"
  by (simp add: sim_disk_def)

lemma sim_disk_tick [simp]: "sim_disk (tick st) = sim_disk st"
  by (simp add: sim_disk_def)

lemma sim_disk_fields:
  "d_sync (sim_disk st) p = map_option (\<lambda>i. durable (inode_at st i)) (live_of st p)"
  "d_linked (sim_disk st) p q \<longleftrightarrow> live_of st p \<noteq> None \<and> live_of st p = dur_of st q"
  "d_images (sim_disk st) p = images_of (map_option (\<lambda>i. (durable (inode_at st i), live (inode_at st i))) (dur_of st p))"
  by (simp_all add: sim_disk_def)

lemma sim_disk_eqI:
  assumes "\<And>p. sim_view st p = d_view D p"
    and "\<And>p. map_option (\<lambda>i. durable (inode_at st i)) (live_of st p) = d_sync D p"
    and "\<And>p q. (live_of st p \<noteq> None \<and> live_of st p = dur_of st q) \<longleftrightarrow> d_linked D p q"
    and "\<And>p. images_of (map_option (\<lambda>i. (durable (inode_at st i), live (inode_at st i))) (dur_of st p)) = d_images D p"
  shows "sim_disk st = D"
  using assms by (intro disk.equality ext) (auto simp: sim_disk_fields)

lemma sim_disk_collect:
  assumes inv: "sim_inv st"
  shows "sim_disk (collect_unreferenced_inodes st) = sim_disk st"
proof (rule sim_disk_eqI)
  fix p
  note at = collect_inode_at [OF sim_invD(1,2) [OF inv], of p]
  show "sim_view (collect_unreferenced_inodes st) p = d_view (sim_disk st) p"
    using collect_view [OF sim_invD(1,2) [OF inv]] by simp
  show "map_option (\<lambda>i. durable (inode_at (collect_unreferenced_inodes st) i))
      (live_of (collect_unreferenced_inodes st) p) = d_sync (sim_disk st) p"
    using at by (cases "live_of st p") (auto simp: sim_disk_fields)
  show "images_of (map_option (\<lambda>i. (durable (inode_at (collect_unreferenced_inodes st) i),
      live (inode_at (collect_unreferenced_inodes st) i))) (dur_of (collect_unreferenced_inodes st) p))
    = d_images (sim_disk st) p"
    using at by (cases "dur_of st p") (auto simp: sim_disk_fields)
qed (simp add: sim_disk_fields)

section \<open>The operations\<close>

lemma sim_disk_created:
  assumes inv: "sim_inv st" and "live_of st p = None"
  shows "sim_disk (created p st) = disk_create p (sim_disk st)"
proof -
  have "sim_view (created p st) = (sim_view st)(p \<mapsto> [])"
    using fresh_inode(2) [OF inv]
    by (auto simp: sim_view_def fun_eq_iff default_inode_def intro!: option.map_cong)
  moreover have "dur_of st q \<noteq> Some (next_inode st)" "live_of st q \<noteq> Some (next_inode st)" for q
    using fresh_inode [OF inv] by auto
  ultimately show ?thesis
  proof (intro sim_disk_eqI)
    fix q
    show "images_of (map_option (\<lambda>i. (durable (inode_at (created p st) i), live (inode_at (created p st) i)))
        (dur_of (created p st) q)) = d_images (disk_create p (sim_disk st)) q"
      using \<open>dur_of st q \<noteq> Some (next_inode st)\<close>
      by (cases "dur_of st q") (auto simp: sim_disk_fields disk_create_def)
    show "map_option (\<lambda>i. durable (inode_at (created p st) i)) (live_of (created p st) q)
        = d_sync (disk_create p (sim_disk st)) q"
      using \<open>live_of st q \<noteq> Some (next_inode st)\<close>
      by (cases "live_of st q") (auto simp: sim_disk_fields disk_create_def default_inode_def)
  qed (use \<open>\<And>q. dur_of st q \<noteq> Some (next_inode st)\<close> [symmetric] in
        \<open>auto simp: sim_disk_fields disk_create_def\<close>)
qed

lemma sim_disk_with_inode:
  assumes inv: "sim_inv st" and i: "live_of st p = Some i"
  shows "sim_disk (with_inode i n st) = (sim_disk st)\<lparr>d_view := (sim_view st)(p \<mapsto> live n),
      d_sync := (d_sync (sim_disk st))(p \<mapsto> durable n),
      d_images := (\<lambda>q. if d_linked (sim_disk st) p q then Some ` tears (durable n) (live n)
                        else d_images (sim_disk st) q)\<rparr>"
proof -
  have one: "live_of st q = Some i \<Longrightarrow> q = p" for q using sim_invD(6) [OF inv _ i] by blast
  show ?thesis
  proof (rule sim_disk_eqI)
    fix q
    let ?D = "(sim_disk st)\<lparr>d_view := (sim_view st)(p \<mapsto> live n),
      d_sync := (d_sync (sim_disk st))(p \<mapsto> durable n),
      d_images := (\<lambda>q. if d_linked (sim_disk st) p q then Some ` tears (durable n) (live n)
                        else d_images (sim_disk st) q)\<rparr>"
    show "map_option (\<lambda>j. durable (inode_at (with_inode i n st) j)) (live_of (with_inode i n st) q) = d_sync ?D q"
      using one [of q] i by (cases "live_of st q") (auto simp: sim_disk_fields)
    show "images_of (map_option (\<lambda>j. (durable (inode_at (with_inode i n st) j), live (inode_at (with_inode i n st) j)))
        (dur_of (with_inode i n st) q)) = d_images ?D q"
      using i by (cases "dur_of st q") (auto simp: sim_disk_fields)
  qed (simp_all add: with_inode_view [OF inv i] sim_disk_fields)
qed

lemma sim_disk_appended:
  assumes inv: "sim_inv st" and i: "live_of st p = Some i"
  shows "sim_disk (appended p x st) = disk_append p x (sim_disk st)"
proof -
  define st1 where "st1 = st\<lparr>next_append_seq := next_append_seq st + 1\<rparr>"
  define n where "n = (inode_at st i)\<lparr>live := live (inode_at st i) @ x, last_append_seq := Some (next_append_seq st)\<rparr>"
  have same: "sim_disk st1 = sim_disk st" and inv1: "sim_inv st1" and i1: "live_of st1 p = Some i"
    and v1: "sim_view st1 = sim_view st"
    using inv i by (simp_all add: st1_def sim_disk_def)
  have sy: "d_sync (sim_disk st) p = Some (durable (inode_at st i))" by (simp add: sim_disk_fields i)
  have e: "appended p x st = with_inode i n st1" by (simp add: appended_def i n_def st1_def Let_def)
  show ?thesis
    unfolding e sim_disk_with_inode [OF inv1 i1] same v1
    by (intro disk.equality ext)
       (auto simp: disk_append_def Let_def n_def live_Some_view [OF i] sy)
qed

definition written :: "nat \<Rightarrow> nat \<Rightarrow> bytes \<Rightarrow> 'r sim_state \<Rightarrow> 'r sim_state" where
  "written i off x st = with_inode i ((inode_at st i)\<lparr>live := overwrite off x (live (inode_at st i))\<rparr>) st"

lemma sim_disk_written:
  assumes inv: "sim_inv st" and i: "live_of st p = Some i"
  shows "sim_disk (written i off x st) = disk_write_at p off x (sim_disk st)"
proof -
  have "d_sync (sim_disk st) p = Some (durable (inode_at st i))" by (simp add: sim_disk_fields i)
  then show ?thesis
    unfolding written_def sim_disk_with_inode [OF inv i]
    by (intro disk.equality ext) (auto simp: disk_write_at_def Let_def live_Some_view [OF i])
qed

lemma sim_disk_synced:
  assumes inv: "sim_inv st" and i: "live_of st p = Some i"
  shows "sim_disk (synced p st) = disk_sync_file p (sim_disk st)"
proof -
  define n where "n = (inode_at st i)\<lparr>durable := live (inode_at st i), last_append_seq := None\<rparr>"
  have e: "synced p st = with_inode i n st" by (simp add: synced_def i n_def Let_def)
  show ?thesis
    unfolding e sim_disk_with_inode [OF inv i]
    by (intro disk.equality ext) (auto simp: disk_sync_file_def n_def live_Some_view [OF i])
qed

lemma sim_disk_dir_synced:
  assumes inv: "sim_inv st"
  shows "sim_disk (dir_synced dir st) = disk_sync_dir dir (sim_disk st)"
proof -
  note [simp] = dir_synced_of [OF sim_invD(1) [OF inv]]
  have same: "live_of st r = live_of st q \<longleftrightarrow> r = q" if "live_of st r = Some i" for r q i
    using that sim_invD(6) [OF inv, of r i q] by auto
  have "d_linked (sim_disk (dir_synced dir st)) = d_linked (disk_sync_dir dir (sim_disk st))"
    using same by (auto simp: sim_disk_def disk_sync_dir_def fun_eq_iff view_None_iff)
  moreover have "d_images (sim_disk (dir_synced dir st)) = d_images (disk_sync_dir dir (sim_disk st))"
    by (auto simp: sim_disk_def disk_sync_dir_def fun_eq_iff sim_view_def split: option.splits)
  moreover have "d_view (sim_disk (dir_synced dir st)) = d_view (disk_sync_dir dir (sim_disk st))"
    "d_sync (sim_disk (dir_synced dir st)) = d_sync (disk_sync_dir dir (sim_disk st))"
    using inv by (auto simp: sim_disk_def disk_sync_dir_def fun_eq_iff)
  ultimately show ?thesis by (intro disk.equality) auto
qed

lemma sim_disk_moved:
  assumes "live_of st p = Some i" and "p \<noteq> q"
  shows "sim_disk (moved p q st) = disk_rename p q (sim_disk st)"
  using assms by (auto simp: sim_disk_def disk_rename_def fun_eq_iff sim_view_def split: option.splits)

lemma sim_disk_unlinked: "sim_disk (unlinked p st) = disk_delete p (sim_disk st)"
  by (auto simp: sim_disk_def disk_delete_def fun_eq_iff split: option.splits)

section \<open>Every operation ends in the crash check\<close>

definition fires :: "'r sim_state \<Rightarrow> bool" where
  "fires st \<longleftrightarrow> (case crash_after st of None \<Rightarrow> False | Some n \<Rightarrow> n \<le> op_count st + 1)"

lemma bump_fires: "bump G st = (if fires st then snd (crash G (tick st)) else tick st)"
  by (auto simp: bump_def fires_def tick_def Let_def split: option.splits)

lemma sim_ops_bump:
  "live_of st p = None \<Longrightarrow> sim_create G p st = (Inr (), bump G (created p st))"
  "live_of st p = Some i \<Longrightarrow> sim_append G p x st = (Inr (length (live (inode_at st i))), bump G (appended p x st))"
  "live_of st p = Some i \<Longrightarrow> sim_sync_file G p st = (Inr (), bump G (synced p st))"
  "sim_sync_dir G dir st = (Inr (), bump G (collect_unreferenced_inodes (dir_synced dir st)))"
  "live_of st p = Some i \<Longrightarrow> p \<noteq> q \<Longrightarrow>
    sim_rename G p q st = (Inr (), bump G (collect_unreferenced_inodes (moved p q st)))"
  "live_of st p = Some i \<Longrightarrow> sim_delete G p st = (Inr (), bump G (collect_unreferenced_inodes (unlinked p st)))"
proof -
  show "sim_sync_dir G dir st = (Inr (), bump G (collect_unreferenced_inodes (dir_synced dir st)))"
    unfolding sim_sync_dir_def Let_def dir_synced_def [symmetric] by simp
  show "live_of st p = Some i \<Longrightarrow> sim_delete G p st = (Inr (), bump G (collect_unreferenced_inodes (unlinked p st)))"
    unfolding sim_delete_def Let_def unlinked_def [symmetric] by simp
qed (simp_all add: sim_create_def created_def sim_append_def appended_def with_inode_def
       sim_sync_file_def synced_def sim_rename_def moved_def Let_def)

text \<open>The state an operation leaves just before the crash check, when it succeeds.\<close>

lemma op_effects:
  assumes inv: "sim_inv st"
  shows "live_of st p = None \<Longrightarrow> sim_inv (created p st) \<and> sim_disk (created p st) = disk_create p (sim_disk st)"
    and "live_of st p = Some i \<Longrightarrow> sim_inv (appended p x st) \<and> sim_disk (appended p x st) = disk_append p x (sim_disk st)"
    and "live_of st p = Some i \<Longrightarrow> sim_inv (synced p st) \<and> sim_disk (synced p st) = disk_sync_file p (sim_disk st)"
    and "sim_inv (collect_unreferenced_inodes (dir_synced dir st)) \<and>
      sim_disk (collect_unreferenced_inodes (dir_synced dir st)) = disk_sync_dir dir (sim_disk st)"
    and "live_of st p = Some i \<Longrightarrow> p \<noteq> q \<Longrightarrow> parent p = parent q \<Longrightarrow>
      sim_inv (collect_unreferenced_inodes (moved p q st)) \<and>
      sim_disk (collect_unreferenced_inodes (moved p q st)) = disk_rename p q (sim_disk st)"
    and "sim_inv (collect_unreferenced_inodes (unlinked p st)) \<and>
      sim_disk (collect_unreferenced_inodes (unlinked p st)) = disk_delete p (sim_disk st)"
proof -
  show "sim_inv (created p st) \<and> sim_disk (created p st) = disk_create p (sim_disk st)" if "live_of st p = None"
    using created_inv [OF inv that] sim_disk_created [OF inv that] by simp
  show "sim_inv (appended p x st) \<and> sim_disk (appended p x st) = disk_append p x (sim_disk st)" if "live_of st p = Some i"
    using sim_disk_appended [OF inv that] durable_le_live [OF inv that] that
      with_inode_inv [of "st\<lparr>next_append_seq := next_append_seq st + 1\<rparr>" p i] inv
    by (simp add: appended_def Let_def)
  show "sim_inv (synced p st) \<and> sim_disk (synced p st) = disk_sync_file p (sim_disk st)" if "live_of st p = Some i"
    using sim_disk_synced [OF inv that] with_inode_inv [OF inv that] that by (simp add: synced_def Let_def)
  show "sim_inv (collect_unreferenced_inodes (dir_synced dir st)) \<and>
      sim_disk (collect_unreferenced_inodes (dir_synced dir st)) = disk_sync_dir dir (sim_disk st)"
    using dir_synced_inv [OF inv] by (simp add: collect_inv sim_disk_collect sim_disk_dir_synced [OF inv])
  show "sim_inv (collect_unreferenced_inodes (moved p q st)) \<and>
      sim_disk (collect_unreferenced_inodes (moved p q st)) = disk_rename p q (sim_disk st)"
    if "live_of st p = Some i" "p \<noteq> q" "parent p = parent q"
    using moved_inv [OF inv that(3)] by (simp add: collect_inv sim_disk_collect sim_disk_moved [OF that(1,2)])
  show "sim_inv (collect_unreferenced_inodes (unlinked p st)) \<and>
      sim_disk (collect_unreferenced_inodes (unlinked p st)) = disk_delete p (sim_disk st)"
    using unlinked_inv [OF inv] by (simp add: collect_inv sim_disk_collect sim_disk_unlinked)
qed

section \<open>The crash respects the disk\<close>

lemma torn_images_tears: "torn_images n \<subseteq> tears (durable n) (live n)"
proof
  fix x assume "x \<in> torn_images n"
  then consider k where "x = durable n @ take k (drop (length (durable n)) (live n))"
    | b where "b < 8 * length (drop (length (durable n)) (live n))"
      "x = flip_bit (durable n @ drop (length (durable n)) (live n)) (length (durable n) + b div 8) (b mod 8)"
    by (auto simp: torn_images_def Let_def)
  then show "x \<in> tears (durable n) (live n)"
  proof cases
    case 2
    then have "b div 8 < length (drop (length (durable n)) (live n))" by auto
    moreover have "x = durable n @ flip_bit (drop (length (durable n)) (live n)) (b div 8) (b mod 8)"
      unfolding 2(2) by (simp add: flip_bit_append)
    moreover have "b mod 8 < 8" by simp
    ultimately show ?thesis unfolding tears_def by blast
  qed (auto simp: tears_def)
qed

lemma after_crash_images:
  assumes "sim_inv st"
  shows "after_crash st p \<subseteq> d_images (sim_disk st) p"
proof (cases "dur_of st p")
  case (Some i)
  have "durable (inode_at st i) \<in> tears (durable (inode_at st i)) (live (inode_at st i))"
    using subsetD [OF torn_images_tears durable_torn_image] .
  then show ?thesis
    using Some torn_images_tears [of "inode_at st i"]
    by (simp add: after_crash_def sim_disk_fields Let_def image_mono)
qed (simp add: after_crash_def sim_disk_fields)

lemma crash_images:
  assumes "sim_inv st" and "gen_ok G"
  shows "sim_view (snd (crash G st)) p \<in> d_images (sim_disk st) p"
  using crash_view [OF assms, of p] after_crash_images [OF assms(1), of p] by blast

section \<open>Properties\<close>

lemma sim_write_bump:
  "live_of st p = Some i \<Longrightarrow> off + length y \<le> length (live (inode_at st i)) \<Longrightarrow>
    sim_write_at G p off y st = (Inr (), bump G (written i off y st))"
  by (simp add: sim_write_at_def written_def with_inode_def overwrite_def Let_def)

lemma write_effect:
  assumes inv: "sim_inv st" and i: "live_of st p = Some i" and b: "off + length y \<le> length (live (inode_at st i))"
  shows "sim_inv (written i off y st)" "sim_disk (written i off y st) = disk_write_at p off y (sim_disk st)"
  using with_inode_inv [OF inv i] durable_le_live [OF inv i] b sim_disk_written [OF inv i]
  by (simp_all add: written_def overwrite_def)

lemma sim_rename_self: "live_of st p = Some i \<Longrightarrow> sim_rename G p p st = (Inr (), bump G (collect_unreferenced_inodes st))"
  by (simp add: sim_rename_def)

text \<open>C25 (sim_refines_disk): every mutating call of the simulator that succeeds acts on the abstract disk
  as specified, keeps the invariant, and then counts the operation and checks the armed crash. On a
  file \<open>p\<close> these are an append, an overwrite inside its bounds, a sync, a delete, and a rename to any
  other path of its directory, whether that path is free or holds a file that is replaced, and to
  itself, which changes nothing; a create of a path \<open>q\<close> that is free; and a sync of any directory. A
  rename into another directory is not covered: no part of the program makes one.\<close>

theorem sim_refines_disk:
  assumes inv: "sim_inv st" and i: "live_of st p = Some i" and q: "live_of st q = None"
    and r: "p \<noteq> r" "parent p = parent r" and b: "off + length y \<le> length (live (inode_at st i))"
  shows "\<exists>s1 s2 s3 s4 s5 s6 s7 s8 n.
      sim_create G q st = (Inr (), bump G s1) \<and> sim_inv s1 \<and> sim_disk s1 = disk_create q (sim_disk st)
    \<and> sim_append G p x st = (Inr n, bump G s2) \<and> sim_inv s2 \<and> sim_disk s2 = disk_append p x (sim_disk st)
    \<and> sim_write_at G p off y st = (Inr (), bump G s3) \<and> sim_inv s3 \<and> sim_disk s3 = disk_write_at p off y (sim_disk st)
    \<and> sim_sync_file G p st = (Inr (), bump G s4) \<and> sim_inv s4 \<and> sim_disk s4 = disk_sync_file p (sim_disk st)
    \<and> sim_sync_dir G dir st = (Inr (), bump G s5) \<and> sim_inv s5 \<and> sim_disk s5 = disk_sync_dir dir (sim_disk st)
    \<and> sim_rename G p r st = (Inr (), bump G s6) \<and> sim_inv s6 \<and> sim_disk s6 = disk_rename p r (sim_disk st)
    \<and> sim_rename G p p st = (Inr (), bump G s7) \<and> sim_inv s7 \<and> sim_disk s7 = sim_disk st
    \<and> sim_delete G p st = (Inr (), bump G s8) \<and> sim_inv s8 \<and> sim_disk s8 = disk_delete p (sim_disk st)"
proof -
  note effects = op_effects(1) [OF inv q] op_effects(2,3) [OF inv i] op_effects(4,6) [OF inv] op_effects(5) [OF inv i r]
  show ?thesis
    by (intro exI conjI)
       (rule sim_ops_bump(1) [OF q] sim_ops_bump(2,3,6) [OF i] sim_ops_bump(4) sim_ops_bump(5) [OF i r(1)]
         sim_write_bump [OF i b] sim_rename_self [OF i] write_effect [OF inv i b] collect_inv [OF inv]
         sim_disk_collect [OF inv] effects [THEN conjunct1] effects [THEN conjunct2])+
qed

text \<open>A state with a synced file that has an unsynced append, and a second file that was never synced.\<close>

definition two_files :: "nat sim_state" where
  "two_files = \<lparr>files = [([''d'', ''f''], \<lparr>live_inode = Some 1, durable_inode = Some 1\<rparr>),
       ([''d'', ''g''], \<lparr>live_inode = Some 2, durable_inode = None\<rparr>)],
     inodes = [(1, \<lparr>live = [1, 2, 3], durable = [1], last_append_seq = Some 0\<rparr>),
       (2, \<lparr>live = [4], durable = [], last_append_seq = Some 1\<rparr>)],
     next_inode = 3, op_count = 5, next_append_seq = 2, crash_after = None, last_report = None, rng = 0\<rparr>"

lemma two_files_of:
  "live_of two_files p = (if p = [''d'', ''f''] then Some 1 else if p = [''d'', ''g''] then Some 2 else None)"
  "dur_of two_files p = (if p = [''d'', ''f''] then Some 1 else None)"
  by (simp_all add: two_files_def live_of_def dur_of_def bt_get_def)

lemma two_files_inode: "inode_at two_files (Suc 0) = \<lparr>live = [1, 2, 3], durable = [1], last_append_seq = Some 0\<rparr>"
  by (simp add: two_files_def inode_at_def bt_get_def)

lemma two_files_inv: "sim_inv two_files"
  unfolding sim_inv_def two_files_of by (auto simp: two_files_def bt_ok_def bt_get_def)

theorem sim_refines_disk_witness:
  "\<exists>s1 s2 s3 s4 s5 s6 s7 s8 n.
      sim_create (\<lambda>r n. (0, r)) [''d'', ''h''] two_files = (Inr (), bump (\<lambda>r n. (0, r)) s1) \<and> sim_inv s1 \<and> sim_disk s1 = disk_create [''d'', ''h''] (sim_disk two_files)
    \<and> sim_append (\<lambda>r n. (0, r)) [''d'', ''f''] [7] two_files = (Inr n, bump (\<lambda>r n. (0, r)) s2) \<and> sim_inv s2 \<and> sim_disk s2 = disk_append [''d'', ''f''] [7] (sim_disk two_files)
    \<and> sim_write_at (\<lambda>r n. (0, r)) [''d'', ''f''] 1 [8, 9] two_files = (Inr (), bump (\<lambda>r n. (0, r)) s3) \<and> sim_inv s3 \<and> sim_disk s3 = disk_write_at [''d'', ''f''] 1 [8, 9] (sim_disk two_files)
    \<and> sim_sync_file (\<lambda>r n. (0, r)) [''d'', ''f''] two_files = (Inr (), bump (\<lambda>r n. (0, r)) s4) \<and> sim_inv s4 \<and> sim_disk s4 = disk_sync_file [''d'', ''f''] (sim_disk two_files)
    \<and> sim_sync_dir (\<lambda>r n. (0, r)) [''d''] two_files = (Inr (), bump (\<lambda>r n. (0, r)) s5) \<and> sim_inv s5 \<and> sim_disk s5 = disk_sync_dir [''d''] (sim_disk two_files)
    \<and> sim_rename (\<lambda>r n. (0, r)) [''d'', ''f''] [''d'', ''g''] two_files = (Inr (), bump (\<lambda>r n. (0, r)) s6) \<and> sim_inv s6 \<and> sim_disk s6 = disk_rename [''d'', ''f''] [''d'', ''g''] (sim_disk two_files)
    \<and> sim_rename (\<lambda>r n. (0, r)) [''d'', ''f''] [''d'', ''f''] two_files = (Inr (), bump (\<lambda>r n. (0, r)) s7) \<and> sim_inv s7 \<and> sim_disk s7 = sim_disk two_files
    \<and> sim_delete (\<lambda>r n. (0, r)) [''d'', ''f''] two_files = (Inr (), bump (\<lambda>r n. (0, r)) s8) \<and> sim_inv s8 \<and> sim_disk s8 = disk_delete [''d'', ''f''] (sim_disk two_files)"
  by (rule sim_refines_disk [OF two_files_inv, where i = "Suc 0"]) (simp_all add: two_files_of two_files_inode parent_def)

text \<open>C24 (sim_crash_image): after a power loss a path whose directory entry is durable holds the
  synced bytes of its file followed by a torn or garbled piece of the unsynced tail, a path without a
  durable entry is gone, and the simulator is again in a consistent, running state.\<close>

theorem sim_crash_image:
  assumes "sim_inv st" and "gen_ok G"
  shows "sim_ok (snd (crash G st)) \<and>
    (case dur_of st p of None \<Rightarrow> sim_view (snd (crash G st)) p = None
     | Some i \<Rightarrow> \<exists>c \<in> tears (durable (inode_at st i)) (live (inode_at st i)). sim_view (snd (crash G st)) p = Some c)"
  using crash_ok [OF assms] crash_images [OF assms, of p]
  by (auto simp: sim_disk_fields split: option.splits)

theorem sim_crash_image_witness:
  "sim_ok (snd (crash (\<lambda>r n. (0, r)) two_files)) \<and>
    (case dur_of two_files [''d'', ''f''] of None \<Rightarrow> sim_view (snd (crash (\<lambda>r n. (0, r)) two_files)) [''d'', ''f''] = None
     | Some i \<Rightarrow> \<exists>c \<in> tears (durable (inode_at two_files i)) (live (inode_at two_files i)).
         sim_view (snd (crash (\<lambda>r n. (0, r)) two_files)) [''d'', ''f''] = Some c)"
  by (rule sim_crash_image [OF two_files_inv]) (simp add: gen_ok_def)

end
