(* ===== verification/Testkit.thy ===== *)
theory Testkit imports Sim_Disk begin

text \<open>
  The crash harness (\<open>src/src/testkit/mod.rs\<close>): the storage decorator that stops the process at
  the simulated power loss, and the sweep over all crash points. The decorator satisfies the
  power-loss contract \<open>crash_fs\<close>; this is what the crash-safety theorems are instantiated with.
\<close>

section \<open>The decorator\<close>

record 'r injector =
  inner :: "'r sim_state"
  halted :: bool

definition injector_new :: "'r sim_state \<Rightarrow> 'r injector" where
  "injector_new st = \<lparr>inner = st, halted = False\<rparr>"

definition guard :: "path \<Rightarrow> 'r injector \<Rightarrow> storage_error + unit" where
  "guard p h = (if halted h
     then Inl (Io p ''simulated power loss: process halted after crash'') else Inr ())"

definition observe :: "'r injector \<Rightarrow> 'r injector" where
  "observe h = (if last_report (inner h) \<noteq> None then h\<lparr>halted := True\<rparr> else h)"

text \<open>The body of every mutating call: guard, forward to the inner file system, observe.\<close>

definition forward ::
  "path \<Rightarrow> ('r sim_state \<Rightarrow> (storage_error + 'a) \<times> 'r sim_state) \<Rightarrow> 'r injector
    \<Rightarrow> (storage_error + 'a) \<times> 'r injector" where
  "forward p f h = (case guard p h of Inl e \<Rightarrow> (Inl e, h)
     | Inr _ \<Rightarrow> (let (r, st) = f (inner h) in (r, observe (h\<lparr>inner := st\<rparr>))))"

definition injector :: "'r gen \<Rightarrow> 'r injector storage" where
  "injector G = \<lparr>
     st_create = (\<lambda>p. forward p (sim_create G p)),
     st_open = (\<lambda>p h. sim_open p (inner h)),
     st_append = (\<lambda>p d. forward p (sim_append G p d)),
     st_write_at = (\<lambda>p off d. forward p (sim_write_at G p off d)),
     st_read_at = (\<lambda>p off n h. sim_read_at p off n (inner h)),
     st_sync_file = (\<lambda>p. forward p (sim_sync_file G p)),
     st_sync_dir = (\<lambda>dir. forward dir (sim_sync_dir G dir)),
     st_rename = (\<lambda>p q. forward p (sim_rename G p q)),
     st_delete = (\<lambda>p. forward p (sim_delete G p)),
     st_list = (\<lambda>dir h. sim_list dir (inner h)),
     st_len = (\<lambda>p h. sim_len p (inner h))\<rparr>"

section \<open>The sweep\<close>

text \<open>
  A workload maps the file system to its final state and reports whether it returned
  (\<open>True\<close>) or panicked; a verifier reports whether its assertions held. \<open>None\<close> is a panic that
  reaches the caller.
\<close>

definition count_ops :: "(u64 \<Rightarrow> 'r) \<Rightarrow> u64 \<Rightarrow> ('r sim_state \<Rightarrow> bool \<times> 'r sim_state) \<Rightarrow> nat option" where
  "count_ops seeded seed body =
     (let (returned, st) = body (sim_new seeded seed) in if returned then Some (op_count st) else None)"

definition run_crash ::
  "'r gen \<Rightarrow> (u64 \<Rightarrow> 'r) \<Rightarrow> u64 \<Rightarrow> nat \<Rightarrow> ('r injector \<Rightarrow> bool \<times> 'r injector)
    \<Rightarrow> ('r sim_state \<Rightarrow> crash_report \<Rightarrow> bool) \<Rightarrow> crash_report option" where
  "run_crash G seeded seed after_ops body verify =
     (let (returned, h) = body (injector_new (arm_crash_after after_ops (sim_new seeded seed)));
          sim = inner h
      in if \<not> returned \<and> last_report sim = None then None
         else (let (report, sim') = (case last_report sim of
                      Some r \<Rightarrow> (r, sim)
                    | None \<Rightarrow> (let (r, s) = crash G sim in (r, s)))
               in if verify sim' report then Some report else None))"

text \<open>\<open>for i in 1..=n\<close>; the workload is given once per backend it runs on.\<close>

definition crash_sweep ::
  "'r gen \<Rightarrow> (u64 \<Rightarrow> 'r) \<Rightarrow> u64 \<Rightarrow> ('r sim_state \<Rightarrow> bool \<times> 'r sim_state)
    \<Rightarrow> ('r injector \<Rightarrow> bool \<times> 'r injector) \<Rightarrow> ('r sim_state \<Rightarrow> crash_report \<Rightarrow> bool) \<Rightarrow> nat option" where
  "crash_sweep G seeded seed body_sim body verify =
     (case count_ops seeded seed body_sim of None \<Rightarrow> None
      | Some n \<Rightarrow> if list_all (\<lambda>i. run_crash G seeded seed i body verify \<noteq> None) [1..<n + 1]
                  then Some n else None)"

section \<open>The decorator meets the power-loss contract\<close>

definition inj_up :: "'r gen \<Rightarrow> 'r injector \<Rightarrow> bool" where
  "inj_up G h \<longleftrightarrow> gen_ok G \<and> \<not> halted h \<and> last_report (inner h) = None \<and> sim_inv (inner h)"

definition inj_disk :: "'r injector \<Rightarrow> disk" where
  "inj_disk h = sim_disk (inner h)"

definition inj_down :: "'r gen \<Rightarrow> 'r injector \<Rightarrow> disk \<Rightarrow> bool" where
  "inj_down G h D \<longleftrightarrow> gen_ok G \<and> halted h
     \<and> (\<exists>st. sim_inv st \<and> sim_disk st = D \<and> inner h = snd (crash G st))"

definition inj_survivor :: "'r injector \<Rightarrow> path \<Rightarrow> bytes option" where
  "inj_survivor h = sim_view (inner h)"

lemma inj_down_survivor:
  assumes "inj_down G h D"
  shows "sim_ok (inner h)" and "sim_view (inner h) p \<in> d_images D p"
  using assms crash_ok crash_images by (force simp: inj_down_def)+

text \<open>A successful operation, seen through the decorator: the process runs on, or the power
  failed after the operation.\<close>

lemma forward_bump:
  assumes h: "inj_up G h" and f: "f (inner h) = (Inr y, bump G st)"
    and st: "sim_inv st \<and> sim_disk st = D" and rep: "last_report st = last_report (inner h)"
  shows "\<exists>h'. forward p f h = (Inr y, h') \<and> (inj_up G h' \<and> inj_disk h' = D \<or> inj_down G h' D)"
proof -
  let ?h = "\<lparr>inner = bump G st, halted = fires st\<rparr>"
  have ct: "last_report (snd (crash G (tick st))) \<noteq> None"
    using crash_files(5) [of "tick st" _ G, OF _ refl] st by simp
  have "forward p f h = (Inr y, ?h)"
    using h f rep ct
    by (cases h) (auto simp: forward_def guard_def inj_up_def observe_def bump_fires)
  moreover have "inj_up G ?h \<and> inj_disk ?h = D \<or> inj_down G ?h D"
  proof (cases "fires st")
    case True
    have "inj_down G ?h D"
      using st True h unfolding inj_down_def inj_up_def
      by (intro conjI exI [of _ "tick st"]) (simp_all add: bump_fires)
    then show ?thesis by simp
  next
    case False
    then show ?thesis using h st rep by (simp add: inj_up_def inj_disk_def bump_fires)
  qed
  ultimately show ?thesis by blast
qed

lemma effect_report [simp]:
  "last_report (created p st) = last_report st" "last_report (appended p x st) = last_report st"
  "last_report (synced p st) = last_report st" "last_report (dir_synced dir st) = last_report st"
  "last_report (unlinked p st) = last_report st" "last_report (moved p q st) = last_report st"
  by (simp_all add: created_def appended_def synced_def dir_synced_def unlinked_def moved_def
       with_inode_def Let_def)

lemma forward_halted: "halted h \<Longrightarrow> \<exists>e. forward p f h = (Inl e, h)"
  by (simp add: forward_def guard_def)

lemma forward_error:
  assumes "inj_up G h" and "f (inner h) = (Inl e, inner h)"
  shows "forward p f h = (Inl e, h)"
  using assms by (cases h) (simp add: forward_def guard_def inj_up_def observe_def)

lemma sim_reads:
  assumes "\<And>h. up h \<Longrightarrow> sim_inv (inn h)"
    and "st_open S = (\<lambda>p h. sim_open p (inn h))" "st_read_at S = (\<lambda>p off n h. sim_read_at p off n (inn h))"
    and "st_list S = (\<lambda>dir h. sim_list dir (inn h))" "st_len S = (\<lambda>p h. sim_len p (inn h))"
  shows "read_fs S up (\<lambda>h. sim_view (inn h))"
proof unfold_locales
  fix h p dir c off n
  assume up: "up h"
  show "st_open S p h = (case sim_view (inn h) p of None \<Rightarrow> Inl (NotFound p) | Some x \<Rightarrow> Inr ())"
    by (auto simp: assms(2) sim_open_def sim_view_def)
  show "st_read_at S p off n h = Inr (take n (drop off c))" if "sim_view (inn h) p = Some c" "off \<le> length c"
    using that by (auto simp: assms(3) sim_read_at_def sim_view_def Let_def take_min_drop)
  show "\<exists>ps. st_list S dir h = Inr ps \<and> sorted_wrt (<) ps
      \<and> set ps = {p. sim_view (inn h) p \<noteq> None \<and> parent p = Some dir}"
    using sim_list_ok [OF assms(1) [OF up]] by (simp add: assms(4))
  show "st_len S p h = (case sim_view (inn h) p of None \<Rightarrow> Inl (NotFound p) | Some c \<Rightarrow> Inr (length c))"
    by (auto simp: assms(5) sim_len_def sim_view_def split: option.splits)
qed

lemma inj_down_reads: "read_fs (injector G) (\<lambda>h. \<exists>D. inj_down G h D) inj_survivor"
  using sim_reads [of "\<lambda>h. \<exists>D. inj_down G h D" inner "injector G"] inj_down_survivor(1)
  by (auto simp: injector_def inj_survivor_def [abs_def] sim_ok_def)

interpretation inj: crash_fs "injector G" "inj_up G" inj_disk "inj_down G" inj_survivor
proof (rule crash_fs.intro)
  fix h :: "'a injector" and p q c x dir D
  note defs = injector_def inj_disk_def
  show "read_fs (injector G) (inj_up G) (\<lambda>h. d_view (inj_disk h))"
    using sim_reads [of "inj_up G" inner "injector G"] by (simp add: defs inj_up_def)
  show "read_fs (injector G) (\<lambda>h. \<exists>D. inj_down G h D) inj_survivor" by (rule inj_down_reads)
  show "inj_survivor h p \<in> d_images D p" if "inj_down G h D"
    using inj_down_survivor(2) [OF that] by (simp add: inj_survivor_def)
  show "\<exists>e. st_create (injector G) p h = (Inl e, h)" "\<exists>e. st_append (injector G) p x h = (Inl e, h)"
    "\<exists>e. st_sync_file (injector G) p h = (Inl e, h)" "\<exists>e. st_sync_dir (injector G) p h = (Inl e, h)"
    "\<exists>e. st_rename (injector G) p q h = (Inl e, h)" "\<exists>e. st_delete (injector G) p h = (Inl e, h)"
    if "inj_down G h D"
    using that by (simp_all add: defs inj_down_def forward_halted)
  assume up: "inj_up G h"
  then have inv: "sim_inv (inner h)" by (simp add: inj_up_def)
  note op = op_effects [OF inv]
  show "\<exists>h'. st_create (injector G) p h = (Inr (), h') \<and> (inj_up G h' \<and> inj_disk h' = disk_create p (inj_disk h)
      \<or> inj_down G h' (disk_create p (inj_disk h)))" if "d_view (inj_disk h) p = None"
    using forward_bump [OF up, where f = "sim_create G p" and y = "()" and st = "created p (inner h)" and D = "disk_create p (inj_disk h)" and p = p] sim_ops_bump(1) [of "inner h" p G] op(1) [of p] that by (simp add: defs view_None_iff)
  show "\<exists>h'. st_sync_dir (injector G) dir h = (Inr (), h') \<and> (inj_up G h' \<and> inj_disk h' = disk_sync_dir dir (inj_disk h)
      \<or> inj_down G h' (disk_sync_dir dir (inj_disk h)))"
    using forward_bump [OF up, where f = "sim_sync_dir G dir" and y = "()" and st = "collect_unreferenced_inodes (dir_synced dir (inner h))" and D = "disk_sync_dir dir (inj_disk h)" and p = dir] sim_ops_bump(4) [of G dir "inner h"] op(4) by (simp add: defs)
  show "st_delete (injector G) p h = (Inl (NotFound p), h)" if "d_view (inj_disk h) p = None"
    using that forward_error [OF up, of "sim_delete G p" "NotFound p" p] by (simp add: defs sim_delete_def view_None_iff)
  show "st_append (injector G) p x h = (Inl (NotFound p), h)" "st_sync_file (injector G) p h = (Inl (NotFound p), h)"
    "st_rename (injector G) p q h = (Inl (NotFound p), h)" if "d_view (inj_disk h) p = None"
    using that forward_error [OF up, of "sim_append G p x" "NotFound p" p] forward_error [OF up, of "sim_sync_file G p" "NotFound p" p]
      forward_error [OF up, of "sim_rename G p q" "NotFound p" p]
    by (simp_all add: defs sim_append_def sim_sync_file_def sim_rename_def view_None_iff)
  show "\<not> inj_down G h D" using up by (simp add: inj_up_def inj_down_def)
  show "st_create (injector G) p h = (Inl (AlreadyExists p), h)" if "d_view (inj_disk h) p = Some c"
  proof -
    have "live_of (inner h) p \<noteq> None" using that by (auto simp: defs sim_view_def)
    then show ?thesis
      using forward_error [OF up, of "sim_create G p" "AlreadyExists p" p] by (simp add: defs sim_create_def)
  qed
  assume "d_view (inj_disk h) p = Some c"
  then obtain i where i: "live_of (inner h) p = Some i" and c: "c = live (inode_at (inner h) i)"
    by (auto simp: defs sim_view_def)
  show "\<exists>h'. st_append (injector G) p x h = (Inr (length c), h') \<and> (inj_up G h' \<and> inj_disk h' = disk_append p x (inj_disk h)
      \<or> inj_down G h' (disk_append p x (inj_disk h)))"
    using forward_bump [OF up, where f = "sim_append G p x" and y = "length c" and st = "appended p x (inner h)" and D = "disk_append p x (inj_disk h)" and p = p] sim_ops_bump(2) [OF i] op(2) [OF i] by (simp add: defs c)
  show "\<exists>h'. st_sync_file (injector G) p h = (Inr (), h') \<and> (inj_up G h' \<and> inj_disk h' = disk_sync_file p (inj_disk h)
      \<or> inj_down G h' (disk_sync_file p (inj_disk h)))"
    using forward_bump [OF up, where f = "sim_sync_file G p" and y = "()" and st = "synced p (inner h)" and D = "disk_sync_file p (inj_disk h)" and p = p] sim_ops_bump(3) [OF i] op(3) [OF i] by (simp add: defs)
  show "\<exists>h'. st_delete (injector G) p h = (Inr (), h') \<and> (inj_up G h' \<and> inj_disk h' = disk_delete p (inj_disk h)
      \<or> inj_down G h' (disk_delete p (inj_disk h)))"
    using forward_bump [OF up, where f = "sim_delete G p" and y = "()" and st = "collect_unreferenced_inodes (unlinked p (inner h))" and D = "disk_delete p (inj_disk h)" and p = p] sim_ops_bump(6) [OF i] op(6) by (simp add: defs)
  show "\<exists>h'. st_rename (injector G) p q h = (Inr (), h') \<and> (inj_up G h' \<and> inj_disk h' = disk_rename p q (inj_disk h)
      \<or> inj_down G h' (disk_rename p q (inj_disk h)))" if "p \<noteq> q" "parent p = parent q"
    using forward_bump [OF up, where f = "sim_rename G p q" and y = "()" and st = "collect_unreferenced_inodes (moved p q (inner h))" and D = "disk_rename p q (inj_disk h)" and p = p] sim_ops_bump(5) [OF i that(1)] op(5) [OF i that] by (simp add: defs)
qed

text \<open>The plain simulator with no crash armed never stops.\<close>

interpretation sim_run: crash_fs "sim_storage G" sim_ok sim_disk "\<lambda>_ _. False" sim_view
proof (rule crash_fs.intro)
  fix s :: "'a sim_state" and p q c x dir
  show "read_fs (sim_storage G) sim_ok (\<lambda>s. d_view (sim_disk s))"
    using sim.read_fs_axioms by simp
  assume ok: "sim_ok s"
  then have inv: "sim_inv s" and ca: "crash_after s = None" by (auto simp: sim_ok_def)
  note op = op_effects [OF inv]
  show "\<exists>s'. st_create (sim_storage G) p s = (Inr (), s') \<and> (sim_ok s' \<and> sim_disk s' = disk_create p (sim_disk s) \<or> False)"
    if "d_view (sim_disk s) p = None"
    using sim_create_ok(1,2) [OF ok, of p] op(1) [of p] that
    by (simp add: sim_storage_def view_None_iff flip: tick_def) (simp add: sim_ok_def tick_def sim_disk_def)
  show "\<exists>s'. st_sync_dir (sim_storage G) dir s = (Inr (), s') \<and> (sim_ok s' \<and> sim_disk s' = disk_sync_dir dir (sim_disk s) \<or> False)"
    using sim_sync_dir_ok(1,2) [OF ok] op(4) by (simp add: sim_storage_def)
  show "st_delete (sim_storage G) p s = (Inl (NotFound p), s)" if "d_view (sim_disk s) p = None"
    using sim.fs_delete_missing [OF ok] that by simp
  show "st_append (sim_storage G) p x s = (Inl (NotFound p), s)" "st_sync_file (sim_storage G) p s = (Inl (NotFound p), s)"
    "st_rename (sim_storage G) p q s = (Inl (NotFound p), s)" if "d_view (sim_disk s) p = None"
    using that by (simp_all add: sim_storage_def sim_append_def sim_sync_file_def sim_rename_def view_None_iff)
  assume v: "d_view (sim_disk s) p = Some c"
  then have v': "sim_view s p = Some c" by simp
  then obtain i where i: "live_of s p = Some i" by (auto simp: sim_view_def)
  show "st_create (sim_storage G) p s = (Inl (AlreadyExists p), s)"
    using sim.fs_create_exists [OF ok v'] .
  show "\<exists>s'. st_append (sim_storage G) p x s = (Inr (length c), s') \<and> (sim_ok s' \<and> sim_disk s' = disk_append p x (sim_disk s) \<or> False)"
    using sim_append_ok(1,2) [OF ok v'] op(2) [OF i] by (simp add: sim_storage_def)
  show "\<exists>s'. st_sync_file (sim_storage G) p s = (Inr (), s') \<and> (sim_ok s' \<and> sim_disk s' = disk_sync_file p (sim_disk s) \<or> False)"
    using sim_sync_file_ok(1,2) [OF ok v'] op(3) [OF i] by (simp add: sim_storage_def)
  show "\<exists>s'. st_delete (sim_storage G) p s = (Inr (), s') \<and> (sim_ok s' \<and> sim_disk s' = disk_delete p (sim_disk s) \<or> False)"
    using sim_delete_ok(1,2) [OF ok v'] op(6) by (simp add: sim_storage_def)
  show "\<exists>s'. st_rename (sim_storage G) p q s = (Inr (), s') \<and> (sim_ok s' \<and> sim_disk s' = disk_rename p q (sim_disk s) \<or> False)"
    if "p \<noteq> q" "parent p = parent q"
    using sim_rename_ok(1,2) [OF ok v' that] op(5) [OF i that] by (simp add: sim_storage_def)
qed (simp_all add: read_fs_def)

section \<open>Starting points\<close>

lemma injector_new_up:
  assumes "gen_ok G" and "sim_ok st" and "last_report st = None"
  shows "inj_up G (injector_new (arm_crash_after k st))"
    and "inj_disk (injector_new (arm_crash_after k st)) = sim_disk st"
  using assms by (simp_all add: inj_up_def injector_new_def arm_crash_after_def inj_disk_def sim_ok_def sim_disk_def)

lemma sim_new_ok: "sim_ok (sim_new seeded seed)" "sim_view (sim_new seeded seed) = (\<lambda>_. None)"
    "last_report (sim_new seeded seed) = None"
proof -
  have n: "live_of (sim_new seeded seed) = (\<lambda>_. None)" "dur_of (sim_new seeded seed) = (\<lambda>_. None)"
    by (simp_all add: live_of_def dur_of_def sim_new_def fun_eq_iff)
  show "sim_view (sim_new seeded seed) = (\<lambda>_. None)" by (simp add: sim_view_def n fun_eq_iff)
  show "sim_ok (sim_new seeded seed)"
    by (simp add: sim_ok_def sim_inv_def n) (simp add: sim_new_def)
qed (simp add: sim_new_def)

text \<open>A generator for concrete runs.\<close>

definition first_choice :: "nat gen" where
  "first_choice r n = (r mod n, Suc r)"

lemma first_choice_ok: "gen_ok first_choice"
  by (simp add: gen_ok_def first_choice_def)

end
