(* ===== verification/Wal_Durability.thy ===== *)
theory Wal_Durability imports Wal_Open Testkit begin

text \<open>
  A whole log session under the crash harness: open, append records one after the other, stop at
  the first error. Whatever the crash point and the tear, recovery on the surviving image returns
  the acknowledged records in order.
\<close>

definition wal_session ::
  "crc \<Rightarrow> 'fs storage \<Rightarrow> wal_cfg \<Rightarrow> bytes list \<Rightarrow> 'fs \<Rightarrow> nat \<times> 'fs" where
  "wal_session crc S cfg xs s =
     (case wal_open crc S (wal_dir cfg) s of
        (Inl _, s') \<Rightarrow> (0, s')
      | (Inr (W, _), _) \<Rightarrow> (let (n, W') = append_records crc S cfg xs W in (n, wfs W')))"

lemma wal_open_wfs: "wal_open crc S dir s = (Inr (W, rec), s') \<Longrightarrow> wfs W = s'"
  by (auto simp: wal_open_def ok_then_def split: sum.splits if_splits prod.splits)

context crash_fs
begin

lemma session_outcome:
  assumes s: "up s" and set: "settled dir (disk s)" and log: "log_has crc dir (d_view (disk s)) old"
    and cfg: "wal_dir cfg = dir" "is_durable (wal_durability cfg)"
    and xs: "records_ok xs" "addressable (frames crc (old @ xs))" "length xs < 2 ^ 63"
    and ids: "\<And>i. d_view (disk s) (segment_path dir i) \<noteq> None \<Longrightarrow> unat i < 2 ^ 63"
    and run: "wal_session crc S cfg xs s = (n, s')"
  shows "(up s' \<and> n = length xs \<and> durable_log crc dir (disk s') (old @ xs) [])
    \<or> (\<exists>D. down s' D \<and> n \<le> length xs \<and> (recoverable crc dir D old \<and> n = 0
          \<or> append_crash crc dir (old @ take n xs) (take 1 (drop n xs)) D))"
proof -
  let ?T = "{i. unat i < 2 ^ 63}"
  obtain r s1 where r: "wal_open crc S dir s = (r, s1)" by force
  have open1: "runs up disk down (wal_open crc S dir) (\<lambda>D. recoverable crc dir D old) (opened crc dir old ?T) s"
    using ids by (intro runs_wal_open [OF s set log]) auto
  show ?thesis
  proof (cases "up s1 \<and> opened crc dir old ?T r (disk s1)")
    case True
    then obtain W rec lead ps where W: "r = Inr (W, rec)" "coord W = default_coord" "unat (seg_id (active W)) < 2 ^ 63"
      "wal_inv crc dir (disk s1) (active W) lead ps []" "concat (map snd lead) @ ps = old"
      by (auto simp: opened_def)
    have wfs: "wfs W = s1" using wal_open_wfs r W(1) by metis
    obtain W' where a: "append_records crc S cfg xs W = (n, W')" "s' = wfs W'"
      using run by (auto simp: wal_session_def cfg(1) r W(1) split: prod.splits)
    have "addressable (frames crc (concat (map snd lead) @ ps @ xs))"
      using xs(2) W(5) by (metis append.assoc)
    then have "log_outcome crc dir up disk down (concat (map snd lead) @ ps) xs n W'"
      using True W xs wfs cfg a(1)
      by (intro append_records_durable [of W crc dir lead ps cfg xs n W'])
         (auto simp: w_up_def default_coord_def quiet_coord_def)
    then show ?thesis
      using W(5) wal_inv_durable unfolding log_outcome_def a(2) by fastforce
  next
    case False
    then obtain D where D: "down s1 D" "recoverable crc dir D old" "\<forall>y. r = Inr y \<longrightarrow> opened crc dir old ?T r D"
      using open1 by (auto simp: runs_def r)
    show ?thesis
    proof (cases r)
      case (Inl e)
      then have "n = 0" "s' = s1" using run by (simp_all add: wal_session_def cfg(1) r)
      then show ?thesis using D by blast
    next
      case (Inr Wr)
      then obtain W rec where W: "r = Inr (W, rec)" "coord W = default_coord"
        using D(3) by (auto simp: opened_def)
      have wfs: "wfs W = s1" using wal_open_wfs r W(1) by metis
      obtain W' where "append_records crc S cfg xs W = (0, W')" "wfs W' = wfs W"
        using append_records_down [of W D cfg xs crc] D(1) wfs cfg(2) W(2)
        by (auto simp: quiet_coord_def default_coord_def)
      then have "n = 0" "s' = s1" using run wfs by (auto simp: wal_session_def cfg(1) r W(1))
      then show ?thesis using D by blast
    qed
  qed
qed

end

section \<open>On the simulator\<close>

lemma sim_new_fresh:
  "sim_ok (sim_new seeded seed)" "settled dir (sim_disk (sim_new seeded seed))"
  "log_has crc dir (sim_view (sim_new seeded seed)) []" "sim_view (sim_new seeded seed) p = None"
proof -
  have n: "live_of (sim_new seeded seed) = (\<lambda>_. None)" "dur_of (sim_new seeded seed) = (\<lambda>_. None)"
    by (simp_all add: live_of_def dur_of_def sim_new_def fun_eq_iff)
  have v: "sim_view (sim_new seeded seed) = (\<lambda>_. None)" by (simp add: sim_view_def n fun_eq_iff)
  show "sim_ok (sim_new seeded seed)"
    by (simp add: sim_ok_def sim_inv_def n) (simp add: sim_new_def)
  show "settled dir (sim_disk (sim_new seeded seed))"
    by (simp add: settled_def sim_disk_fields n v)
  show "log_has crc dir (sim_view (sim_new seeded seed)) []" "sim_view (sim_new seeded seed) p = None"
    by (simp_all add: log_has_def v canonical_names_def)
qed

text \<open>After a crash the image is settled: everything that survived is durable.\<close>

lemma crash_settled:
  assumes inv: "sim_inv st" and G: "gen_ok G"
  shows "settled dir (sim_disk (snd (crash G st)))"
proof -
  let ?st = "snd (crash G st)"
  note f = crash_files [OF inv refl, of G] and n = crash_inodes [OF inv G refl]
  have "sim_inv ?st" using crash_ok [OF inv G] by (simp add: sim_ok_def)
  have eq: "live (inode_at ?st i) = durable (inode_at ?st i)" if "live_of ?st p = Some i" for p i
    using n(4) live_inode_at [OF \<open>sim_inv ?st\<close> that] by blast
  have same: "live_of ?st p = live_of ?st q \<longleftrightarrow> p = q" if "live_of ?st p = Some i" for p q i
    using that sim_invD(6) [OF \<open>sim_inv ?st\<close>, of p i q] by auto
  have ld: "live_of ?st = dur_of ?st" using f(2,3) by (simp add: fun_eq_iff)
  have im: "d_images (sim_disk ?st) p = {sim_view ?st p} \<and> d_sync (sim_disk ?st) p = sim_view ?st p" for p
    using eq [of p] by (cases "live_of ?st p") (auto simp: sim_disk_fields sim_view_def ld)
  have "d_linked (sim_disk ?st) p q \<longleftrightarrow> q = p \<and> sim_view ?st p \<noteq> None" for p q
    using same [of p _ q] by (cases "live_of ?st p") (auto simp: sim_disk_fields ld [symmetric] view_None_iff)
  moreover have "d_linked (sim_disk ?st) r p \<longrightarrow> r = p" for r p
    using same [of r _ p] by (cases "live_of ?st r") (auto simp: sim_disk_fields ld [symmetric])
  ultimately show ?thesis unfolding settled_def using im by simp
qed

text \<open>The image left after a session: the harness cuts the power at the end if the armed crash has
  not fired (\<open>run_crash\<close> does the same).\<close>

definition power_lost :: "'r gen \<Rightarrow> 'r injector \<Rightarrow> 'r sim_state" where
  "power_lost G h = (case last_report (inner h) of Some _ \<Rightarrow> inner h | None \<Rightarrow> snd (crash G (inner h)))"

lemma power_lost_up:
  assumes "inj_up G h"
  shows "sim_ok (power_lost G h)" and "sim_view (power_lost G h) p \<in> d_images (inj_disk h) p"
  using assms crash_ok crash_images by (auto simp: power_lost_def inj_up_def inj_disk_def)

lemma power_lost_down:
  assumes "inj_down G h D"
  shows "power_lost G h = inner h"
proof -
  obtain st where st: "sim_inv st" "inner h = snd (crash G st)" using assms by (auto simp: inj_down_def)
  then show ?thesis using crash_files(5) [OF st(1,2)] by (simp add: power_lost_def)
qed

text \<open>C23 (wal_crash_durability): acknowledged log appends survive a power loss at any operation,
  with any tear. A fresh log is opened on the simulator through the crash injector, armed at an
  arbitrary operation count, and records are appended in a durable mode (per-write or group
  commit) until the first error. Recovery of the image that survives returns the acknowledged
  records, in order, as its first records; and when no power loss stopped the session, every record
  was acknowledged and recovery returns exactly these.\<close>

theorem wal_crash_durability:
  assumes G: "gen_ok G" and cfg: "is_durable (wal_durability cfg)"
    and xs: "records_ok xs" "addressable (frames crc xs)" "length xs < 2 ^ 63"
    and run: "wal_session crc (injector G) cfg xs (injector_new (arm_crash_after k (sim_new seeded seed))) = (n, h)"
  shows "\<exists>rec. recover crc (sim_storage G) (wal_dir cfg) (power_lost G h) = Inr rec
      \<and> n \<le> length (records rec) \<and> take n (records rec) = take n xs
      \<and> (halted h \<or> n = length xs \<and> records rec = xs)"
proof -
  let ?h = "injector_new (arm_crash_after k (sim_new seeded seed))" and ?dir = "wal_dir cfg"
  note fresh = sim_new_fresh [where seeded = seeded and seed = seed]
  have up: "inj_up G ?h" and dsk: "inj_disk ?h = sim_disk (sim_new seeded seed)"
    using injector_new_up [OF G fresh(1)] by (simp_all add: sim_new_def)
  have out: "(inj_up G h \<and> n = length xs \<and> durable_log crc ?dir (inj_disk h) ([] @ xs) [])
    \<or> (\<exists>D. inj_down G h D \<and> n \<le> length xs \<and> (recoverable crc ?dir D [] \<and> n = 0
          \<or> append_crash crc ?dir ([] @ take n xs) (take 1 (drop n xs)) D))"
    by (rule inj.session_outcome [OF up _ _ refl cfg xs(1) _ xs(3) _ run])
       (use xs(2) fresh(2-4) in \<open>auto simp: dsk\<close>)
  then show ?thesis
  proof (elim disjE exE conjE)
    fix D assume D: "inj_down G h D"
    note sv = inj_down_survivor [OF D] and pl = power_lost_down [OF D]
    have "halted h" using D by (simp add: inj_down_def)
    moreover have "\<exists>rec extra. recover crc (sim_storage G) ?dir (inner h) = Inr rec \<and> records rec = acked @ extra"
      if "durable_log crc ?dir D acked pend" for acked pend
      using read_fs.recover_images [OF sim.read_fs_axioms sv(1) that] sv(2) by blast
    moreover assume "append_crash crc ?dir ([] @ take n xs) (take 1 (drop n xs)) D" "n \<le> length xs"
    ultimately show ?thesis unfolding append_crash_def pl by fastforce
  next
    fix D assume D: "inj_down G h D" and r: "recoverable crc ?dir D []" "n = 0"
    note sv = inj_down_survivor [OF D] and pl = power_lost_down [OF D]
    have "\<exists>rec. recover crc (sim_storage G) ?dir (inner h) = Inr rec \<and> records rec = []"
      using r sv(2) by (intro read_fs.recover_log_has [OF sim.read_fs_axioms sv(1)]) (simp add: recoverable_def)
    then show ?thesis using D r by (auto simp: inj_down_def pl)
  next
    assume h: "inj_up G h" "n = length xs" and d: "durable_log crc ?dir (inj_disk h) ([] @ xs) []"
    note sv = power_lost_up [OF h(1)]
    obtain rec where "recover crc (sim_storage G) ?dir (power_lost G h) = Inr rec" "records rec = xs"
      using read_fs.recover_images [OF sim.read_fs_axioms sv(1) d sv(2)] by auto
    then show ?thesis using h(2) by simp
  qed
qed

text \<open>A concrete run: three records, the power failing at every operation in turn.\<close>

definition demo_cfg :: wal_cfg where
  "demo_cfg = \<lparr>wal_dir = [''wal''], wal_durability = GroupCommit, segment_size = 15\<rparr>"

definition demo_run :: "nat \<times> nat injector" where
  "demo_run = wal_session (\<lambda>bs. of_nat (length bs)) (injector first_choice) demo_cfg [[1], [2, 3], [4]]
     (injector_new (arm_crash_after 5 (sim_new (\<lambda>_. 0) 0)))"

theorem wal_crash_durability_witness:
  "\<exists>rec. recover (\<lambda>bs. of_nat (length bs)) (sim_storage first_choice) [''wal''] (power_lost first_choice (snd demo_run)) = Inr rec
      \<and> fst demo_run \<le> length (records rec) \<and> take (fst demo_run) (records rec) = take (fst demo_run) [[1], [2, 3], [4]]
      \<and> (halted (snd demo_run) \<or> fst demo_run = length [[1 :: u8], [2, 3], [4]] \<and> records rec = [[1], [2, 3], [4]])"
  using wal_crash_durability [OF first_choice_ok, where cfg = demo_cfg and xs = "[[1], [2, 3], [4]]"
      and crc = "\<lambda>bs. of_nat (length bs)" and k = 5 and seeded = "\<lambda>_. 0" and seed = 0
      and n = "fst demo_run" and h = "snd demo_run"]
  by (simp add: demo_run_def) (simp add: demo_cfg_def is_durable_def addressable_def)

end
