(* ===== verification/Codec.thy ===== *)
theory Codec imports Prelude begin

text \<open>
  The contract of an encoder and a decoder that undo each other. A decoder reads from a cursor type
  of its own: \<open>at p r\<close> is the cursor that has consumed \<open>p\<close> and has \<open>r\<close> in front of it. The
  counted lists and the end-of-buffer loops of the file formats inherit the contract from their
  elements. It is interpreted for the Bloom filter, the table index, the data-block entries, the
  manifest's tables and the log's records.
\<close>

section \<open>Decoding loops\<close>

text \<open>\<open>for _ in 0..n { out.push(decode(cur)?) }\<close>.\<close>

fun repeat_dec :: "('c \<Rightarrow> ('e + 'a) \<times> 'c) \<Rightarrow> nat \<Rightarrow> 'a list \<Rightarrow> 'c \<Rightarrow> ('e + 'a list) \<times> 'c" where
  "repeat_dec d 0 out c = (Inr out, c)"
| "repeat_dec d (Suc n) out c = ok_then (d c) (\<lambda>x c. repeat_dec d n (out @ [x]) c)"

lemma repeat_dec_length: "repeat_dec d n out c = (Inr xs, c') \<Longrightarrow> length xs = length out + n"
  by (induction n arbitrary: out c) (auto elim!: ok_then_InrE)

section \<open>The contract\<close>

locale codec =
  fixes enc :: "'a \<Rightarrow> bytes"
    and dec :: "'c \<Rightarrow> ('e + 'a) \<times> 'c"
    and at :: "bytes \<Rightarrow> bytes \<Rightarrow> 'c"
    and fits :: "'a \<Rightarrow> bool"
  assumes dec_enc: "fits x \<Longrightarrow> dec (at p (enc x @ r)) = (Inr x, at (p @ enc x) r)"
    and at_inject: "at p r = at p' r' \<Longrightarrow> p = p' \<Longrightarrow> r = r'"
begin

lemma repeat_dec_enc:
  "list_all fits xs \<Longrightarrow> repeat_dec dec (length xs) out (at p (concat (map enc xs) @ r))
     = (Inr (out @ xs), at (p @ concat (map enc xs)) r)"
  by (induction xs arbitrary: out p) (simp_all add: dec_enc)

text \<open>An encoding determines the value, and no encoding is a proper prefix of another.\<close>

lemma enc_inject:
  assumes "fits x" "fits y" "enc x @ r = enc y @ r'"
  shows "x = y \<and> r = r'"
proof -
  have "x = y" and "at ([] @ enc x) r = at ([] @ enc y) r'"
    using dec_enc [OF assms(1), of "[]" r] dec_enc [OF assms(2), of "[]" r'] assms(3) by simp_all
  then show ?thesis using at_inject by blast
qed

lemma enc_list_inject:
  assumes "list_all fits xs" "list_all fits ys" "length xs = length ys"
    and "concat (map enc xs) = concat (map enc ys)"
  shows "xs = ys"
  using repeat_dec_enc [OF assms(1), of "[]" "[]" "[]"] repeat_dec_enc [OF assms(2), of "[]" "[]" "[]"] assms(3,4)
  by simp

end

end
