(* ===== verification/Sstable.thy ===== *)
theory Sstable imports Storage Codec begin

text \<open>
  What the builder and the reader of a table file share (\<open>src/src/sstable/mod.rs\<close>): entries,
  errors, the format constants and the bounds-checked cursor. A decoder takes a cursor and returns
  its result with the advanced cursor.
\<close>

section \<open>Entries and errors\<close>

definition BLOCK_SIZE :: nat where "BLOCK_SIZE = 4096"
definition FOOTER_MAGIC :: u64 where "FOOTER_MAGIC = 0x414343525F535354"
definition FORMAT_VERSION :: u32 where "FORMAT_VERSION = 1"

datatype sst_value = Put bytes | Delete

record sst_entry =
  e_key :: bytes
  e_seq :: u64
  e_value :: sst_value

text \<open>\<open>Panicked\<close> is no value of the code's error type: it marks the runs in which an index is out
  of range or an integer operation fails, and the thread unwinds.\<close>

datatype sst_error =
    Storage_failed storage_error
  | Corrupt string
  | Unsorted
  | Panicked

definition hex_digit :: "nat \<Rightarrow> char" where
  "hex_digit d = (if d < 10 then char_of (48 + d) else char_of (87 + d))"

fun hex_digits :: "nat \<Rightarrow> nat \<Rightarrow> string" where
  "hex_digits 0 n = []"
| "hex_digits (Suc k) n = hex_digits k (n div 16) @ [hex_digit (n mod 16)]"

text \<open>The format \<open>{:#010x}\<close> of a \<open>u32\<close>.\<close>

definition hex_u32 :: "u32 \<Rightarrow> string" where
  "hex_u32 w = ''0x'' @ hex_digits 8 (unat w)"

section \<open>What the language checks\<close>

text \<open>A \<open>usize\<close> subtraction that underflows, an index outside its slice, the conversion of a slice
  of the wrong length into \<open>[u8; 4]\<close> and a capacity of more than \<open>isize::MAX\<close> bytes panic. Each is
  an operation with an error result here, so that the proofs that the reader never
  panics rest on its guards.\<close>

definition sub_checked :: "nat \<Rightarrow> nat \<Rightarrow> sst_error + nat" where
  "sub_checked a b = (if a < b then Inl Panicked else Inr (a - b))"

definition nth_checked :: "'a list \<Rightarrow> nat \<Rightarrow> sst_error + 'a" where
  "nth_checked xs i = (if i < length xs then Inr (xs ! i) else Inl Panicked)"

definition with_capacity :: "nat \<Rightarrow> nat \<Rightarrow> sst_error + unit" where
  "with_capacity elem n = (if 2 ^ 63 \<le> elem * n then Inl Panicked else Inr ())"

text \<open>\<open>&buf[..buf.len() - 4]\<close>.\<close>

definition without_crc :: "bytes \<Rightarrow> sst_error + bytes" where
  "without_crc b = res_then (sub_checked (length b) 4) (\<lambda>n. Inr (take n b))"

definition slice_checked :: "'a list \<Rightarrow> nat \<Rightarrow> nat \<Rightarrow> sst_error + 'a list" where
  "slice_checked xs i j = (if i \<le> j \<and> j \<le> length xs then Inr (take (j - i) (drop i xs)) else Inl Panicked)"

text \<open>\<open>u32::from_le_bytes(b.try_into().expect("4 bytes"))\<close>, and the same for \<open>u64\<close>.\<close>

definition le_u32_exact :: "bytes \<Rightarrow> sst_error + u32" where
  "le_u32_exact b = (if length b = 4 then Inr (le_u32 b) else Inl Panicked)"

definition le_u64_exact :: "bytes \<Rightarrow> sst_error + u64" where
  "le_u64_exact b = (if length b = 8 then Inr (le_u64 b) else Inl Panicked)"

lemma sub_checked_simps [simp]:
  "b \<le> a \<Longrightarrow> sub_checked a b = Inr (a - b)" "a < b \<Longrightarrow> sub_checked a b = Inl Panicked"
  by (simp_all add: sub_checked_def)

lemma nth_checked_simps [simp]:
  "i < length xs \<Longrightarrow> nth_checked xs i = Inr (xs ! i)" "\<not> i < length xs \<Longrightarrow> nth_checked xs i = Inl Panicked"
  by (simp_all add: nth_checked_def)

lemma with_capacity_simp [simp]: "n < 2 ^ 32 \<Longrightarrow> with_capacity 40 n = Inr ()"
  by (simp add: with_capacity_def)

text \<open>A count read as a \<open>u32\<close> stays below the limit.\<close>

lemma with_capacity_u32 [simp]: "with_capacity 40 (unat (n :: u32)) = Inr ()"
proof -
  have "unat n < 2 ^ 32" using unsigned_less [of n, where 'a = nat] by simp
  then show ?thesis by simp
qed

lemma without_crc_simp [simp]: "4 \<le> length b \<Longrightarrow> without_crc b = Inr (take (length b - 4) b)"
  by (simp add: without_crc_def)

lemma le_u32_exact_simp [simp]: "length b = 4 \<Longrightarrow> le_u32_exact b = Inr (le_u32 b)"
  by (simp add: le_u32_exact_def)

lemma le_u64_exact_simp [simp]: "length b = 8 \<Longrightarrow> le_u64_exact b = Inr (le_u64 b)"
  by (simp add: le_u64_exact_def)

section \<open>The cursor\<close>

record cursor =
  cur_buf :: bytes
  cur_pos :: nat

definition cur_new :: "bytes \<Rightarrow> cursor" where
  "cur_new b = \<lparr>cur_buf = b, cur_pos = 0\<rparr>"

text \<open>\<open>remaining()\<close>, and the same number as a measure.\<close>

definition cur_left :: "cursor \<Rightarrow> sst_error + nat" where
  "cur_left c = sub_checked (length (cur_buf c)) (cur_pos c)"

definition cur_remaining :: "cursor \<Rightarrow> nat" where
  "cur_remaining c = length (cur_buf c) - cur_pos c"

definition cur_take :: "nat \<Rightarrow> cursor \<Rightarrow> (sst_error + bytes) \<times> cursor" where
  "cur_take n c =
     ok_then (cur_left c, c) (\<lambda>left c.
     if left < n
     then (Inl (Corrupt (''unexpected end of buffer: need '' @ dec n @ '' bytes, have '' @ dec left)), c)
     else ok_then (slice_checked (cur_buf c) (cur_pos c) (cur_pos c + n), c) (\<lambda>out c.
       (Inr out, c\<lparr>cur_pos := cur_pos c + n\<rparr>)))"

definition cur_u32 :: "cursor \<Rightarrow> (sst_error + u32) \<times> cursor" where
  "cur_u32 c = ok_then (cur_take 4 c) (\<lambda>b c. (le_u32_exact b, c))"

definition cur_u64 :: "cursor \<Rightarrow> (sst_error + u64) \<times> cursor" where
  "cur_u64 c = ok_then (cur_take 8 c) (\<lambda>b c. (le_u64_exact b, c))"

definition cur_u8 :: "cursor \<Rightarrow> (sst_error + u8) \<times> cursor" where
  "cur_u8 c = ok_then (cur_take 1 c) (\<lambda>b c. (nth_checked b 0, c))"

text \<open>A cursor that has consumed \<open>p\<close> and has \<open>r\<close> in front of it.\<close>

definition cur_at :: "bytes \<Rightarrow> bytes \<Rightarrow> cursor" where
  "cur_at p r = \<lparr>cur_buf = p @ r, cur_pos = length p\<rparr>"

lemma cur_new_at: "cur_new b = cur_at [] b"
  by (simp add: cur_new_def cur_at_def)

lemma cur_remaining_at [simp]: "cur_remaining (cur_at p r) = length r"
  by (simp add: cur_remaining_def cur_at_def)

lemma cur_left_at [simp]: "cur_left (cur_at p r) = Inr (length r)"
  by (simp add: cur_left_def cur_at_def)

lemma cur_left_Inr: "cur_left c = Inr n \<Longrightarrow> n = cur_remaining c"
  by (auto simp: cur_left_def cur_remaining_def sub_checked_def split: if_splits)

lemma cur_take_at: "n = length x \<Longrightarrow> cur_take n (cur_at p (x @ r)) = (Inr x, cur_at (p @ x) r)"
  by (simp add: cur_take_def) (simp add: slice_checked_def cur_at_def)

lemma cur_u32_at [simp]: "cur_u32 (cur_at p (u32_le w @ r)) = (Inr w, cur_at (p @ u32_le w) r)"
  by (simp add: cur_u32_def cur_take_at)

lemma cur_u64_at [simp]: "cur_u64 (cur_at p (u64_le w @ r)) = (Inr w, cur_at (p @ u64_le w) r)"
  by (simp add: cur_u64_def cur_take_at)

lemma cur_u8_at [simp]: "cur_u8 (cur_at p (b # r)) = (Inr b, cur_at (p @ [b]) r)"
  using cur_take_at [of 1 "[b]" p r] by (simp add: cur_u8_def)

text \<open>A decoder never moves the cursor past the end of its buffer.\<close>

definition cur_ok :: "cursor \<Rightarrow> bool" where
  "cur_ok c \<longleftrightarrow> cur_pos c \<le> length (cur_buf c)"

definition advances :: "cursor \<Rightarrow> cursor \<Rightarrow> bool" where
  "advances c c' \<longleftrightarrow> cur_buf c' = cur_buf c \<and> cur_pos c \<le> cur_pos c' \<and> (cur_ok c \<longrightarrow> cur_ok c')"

lemma advances_refl [simp]: "advances c c"
  by (simp add: advances_def)

lemma advances_trans: "advances a b \<Longrightarrow> advances b c \<Longrightarrow> advances a c"
  by (auto simp: advances_def)

lemma cur_take_advances: "cur_take n c = (r, c') \<Longrightarrow> advances c c'"
  by (auto simp: cur_take_def advances_def cur_ok_def slice_checked_def ok_then_def split: if_splits sum.splits)

lemma cur_take_Inr: "cur_take n c = (Inr x, c') \<Longrightarrow> cur_remaining c' + n = cur_remaining c \<and> length x = n"
  by (auto simp: cur_take_def cur_remaining_def slice_checked_def ok_then_def split: if_splits sum.splits
        dest!: cur_left_Inr)

lemma cur_u32_Inr: "cur_u32 c = (Inr w, c') \<Longrightarrow> cur_remaining c' + 4 = cur_remaining c"
  unfolding cur_u32_def by (auto elim!: ok_then_InrE dest: cur_take_Inr)

lemma cur_u64_Inr: "cur_u64 c = (Inr w, c') \<Longrightarrow> cur_remaining c' + 8 = cur_remaining c"
  unfolding cur_u64_def by (auto elim!: ok_then_InrE dest: cur_take_Inr)

lemma cur_u8_Inr: "cur_u8 c = (Inr w, c') \<Longrightarrow> cur_remaining c' + 1 = cur_remaining c"
  unfolding cur_u8_def by (auto elim!: ok_then_InrE dest: cur_take_Inr)

lemma cur_at_inject: "cur_at p r = cur_at p' r' \<Longrightarrow> p = p' \<Longrightarrow> r = r'"
  by (simp add: cur_at_def)

end
