(* ===== verification/Bloom.thy ===== *)
theory Bloom imports Sstable begin

text \<open>
  The per-table Bloom filter (\<open>src/src/sstable/bloom.rs\<close>). The 128-bit hash is the parameter
  \<open>xxh\<close>. The number of probes is computed in double precision; \<open>f64_round\<close> is the rounding of
  IEEE binary64 to nearest, ties to even, on non-negative fractions (the subnormal and overflow
  ranges are out of reach of the quotients that occur). An operation that panics is \<open>None\<close>.
\<close>

type_synonym hash128 = "bytes \<Rightarrow> u128"

section \<open>Double precision\<close>

text \<open>A non-negative number as numerator and denominator.\<close>

type_synonym frac = "nat \<times> nat"

fun bit_length :: "nat \<Rightarrow> nat" where
  "bit_length n = (if n = 0 then 0 else Suc (bit_length (n div 2)))"

declare bit_length.simps [simp del]

definition div_even :: "nat \<Rightarrow> nat \<Rightarrow> nat" where
  "div_even a b =
     (let q = a div b; r = a mod b
      in if 2 * r < b then q else if b < 2 * r then q + 1 else if even q then q else q + 1)"

text \<open>\<open>scaled (a, b) s\<close> is \<open>a/b * 2 ^ s\<close>; the shift is chosen so that the integer part has 53 bits.\<close>

definition scaled :: "frac \<Rightarrow> int \<Rightarrow> frac" where
  "scaled x s = (if 0 \<le> s then (fst x * 2 ^ nat s, snd x) else (fst x, snd x * 2 ^ nat (- s)))"

definition f64_shift :: "frac \<Rightarrow> int" where
  "f64_shift x =
     (let s = 53 + int (bit_length (snd x)) - int (bit_length (fst x)); y = scaled x s
      in if 2 ^ 53 \<le> fst y div snd y then s - 1 else s)"

definition f64_round :: "frac \<Rightarrow> frac" where
  "f64_round x =
     (if fst x = 0 then (0, 1)
      else let s = f64_shift x; y = scaled x s in scaled (div_even (fst y) (snd y), 1) (- s))"

definition f64_of_nat :: "nat \<Rightarrow> frac" where "f64_of_nat n = f64_round (n, 1)"

definition f64_div :: "frac \<Rightarrow> frac \<Rightarrow> frac" where
  "f64_div x y = f64_round (fst x * snd y, snd x * fst y)"

definition f64_mul :: "frac \<Rightarrow> frac \<Rightarrow> frac" where
  "f64_mul x y = f64_round (fst x * fst y, snd x * snd y)"

text \<open>\<open>f64::round\<close> (half away from zero) followed by \<open>as i64\<close>, and the constant \<open>LN_2\<close>.\<close>

definition f64_to_i64 :: "frac \<Rightarrow> nat" where
  "f64_to_i64 x = min ((2 * fst x + snd x) div (2 * snd x)) (2 ^ 63 - 1)"

definition LN_2 :: frac where "LN_2 = (6243314768165359, 2 ^ 53)"

section \<open>The filter\<close>

record bloom_filter =
  bits :: bytes
  num_bits :: u32
  num_hashes :: u32

definition div_ceil :: "nat \<Rightarrow> nat \<Rightarrow> nat" where
  "div_ceil a b = (if a mod b = 0 then a div b else a div b + 1)"

definition saturating_mul :: "nat \<Rightarrow> nat \<Rightarrow> nat" where
  "saturating_mul a b = min (a * b) (2 ^ 64 - 1)"

definition bloom_new :: "nat \<Rightarrow> nat \<Rightarrow> bloom_filter" where
  "bloom_new expected_keys bits_per_key =
     (let n = max expected_keys 1;
          target_bits = max (saturating_mul n bits_per_key) 64;
          num_bytes = div_ceil target_bits 8;
          m = (of_nat (num_bytes * 8) :: u32);
          k = f64_to_i64 (f64_mul (f64_div (f64_of_nat (unat m)) (f64_of_nat n)) LN_2)
      in \<lparr>bits = replicate num_bytes 0, num_bits = m, num_hashes = of_nat (min 30 (max 1 k))\<rparr>)"

text \<open>The step is reduced modulo \<open>m - 1\<close>; with \<open>m < 2\<close> the code panics on the subtraction or on
  the remainder by zero.\<close>

definition hashes :: "hash128 \<Rightarrow> bloom_filter \<Rightarrow> bytes \<Rightarrow> (u64 \<times> u64) option" where
  "hashes xxh b key =
     (let h = xxh key; h1 = (ucast h :: u64); m = (ucast (num_bits b) :: u64)
      in if m < 2 then None else Some (h1, (ucast (drop_bit 64 h) :: u64) mod (m - 1) + 1))"

definition probes :: "hash128 \<Rightarrow> bloom_filter \<Rightarrow> bytes \<Rightarrow> u32 list option" where
  "probes xxh b key =
     (case hashes xxh b key of None \<Rightarrow> None
      | Some (h1, h2) \<Rightarrow>
          Some (map (\<lambda>i. ucast ((h1 + of_nat i * h2) mod (ucast (num_bits b) :: u64)))
                  [0..<unat (num_hashes b)]))"

definition bit_mask :: "u32 \<Rightarrow> u8" where
  "bit_mask idx = push_bit (unat (idx mod 8)) 1"

fun set_bits :: "u32 list \<Rightarrow> bytes \<Rightarrow> bytes option" where
  "set_bits [] bs = Some bs"
| "set_bits (idx # is) bs =
     (let i = unat (idx div 8)
      in if i < length bs then set_bits is (bs[i := bs ! i OR bit_mask idx]) else None)"

fun all_set :: "u32 list \<Rightarrow> bytes \<Rightarrow> bool option" where
  "all_set [] bs = Some True"
| "all_set (idx # is) bs =
     (let i = unat (idx div 8)
      in if i < length bs then if bs ! i AND bit_mask idx \<noteq> 0 then all_set is bs else Some False
         else None)"

definition bloom_insert :: "hash128 \<Rightarrow> bytes \<Rightarrow> bloom_filter \<Rightarrow> bloom_filter option" where
  "bloom_insert xxh key b =
     (case probes xxh b key of None \<Rightarrow> None
      | Some is \<Rightarrow> (case set_bits is (bits b) of None \<Rightarrow> None | Some bs \<Rightarrow> Some (b\<lparr>bits := bs\<rparr>)))"

definition bloom_contains :: "hash128 \<Rightarrow> bloom_filter \<Rightarrow> bytes \<Rightarrow> bool option" where
  "bloom_contains xxh b key =
     (case probes xxh b key of None \<Rightarrow> None | Some is \<Rightarrow> all_set is (bits b))"

definition bloom_encode :: "bloom_filter \<Rightarrow> bytes" where
  "bloom_encode b = u32_le (num_bits b) @ u32_le (num_hashes b) @ u64_le (of_nat (length (bits b))) @ bits b"

definition bloom_decode :: "cursor \<Rightarrow> (sst_error + bloom_filter) \<times> cursor" where
  "bloom_decode cur =
     ok_then (cur_u32 cur) (\<lambda>nb cur.
     ok_then (cur_u32 cur) (\<lambda>nh cur.
     ok_then (cur_u64 cur) (\<lambda>byte_len cur.
     ok_then (cur_take (unat byte_len) cur) (\<lambda>bs cur.
       if nb = 0 \<or> nb mod 8 \<noteq> 0
       then (Inl (Corrupt (''bloom num_bits '' @ dec (unat nb) @ '' is not a positive multiple of 8'')), cur)
       else if nh = 0 then (Inl (Corrupt ''bloom num_hashes is zero''), cur)
       else if unat (nb div 8) \<noteq> length bs
       then (Inl (Corrupt (''bloom bit-array length '' @ dec (length bs) @ '' disagrees with num_bits ''
               @ dec (unat nb))), cur)
       else (Inr \<lparr>bits = bs, num_bits = nb, num_hashes = nh\<rparr>, cur)))))"

section \<open>The filter as a set of bit indices\<close>

definition bloom_ok :: "bloom_filter \<Rightarrow> bool" where
  "bloom_ok b \<longleftrightarrow> 2 \<le> num_bits b \<and> unat (num_bits b) \<le> 8 * length (bits b)"

definition bit_at :: "bytes \<Rightarrow> u32 \<Rightarrow> bool" where
  "bit_at bs idx \<longleftrightarrow> bit (bs ! unat (idx div 8)) (unat (idx mod 8))"

definition bit_set :: "bloom_filter \<Rightarrow> u32 set" where
  "bit_set b = {idx. idx < num_bits b \<and> bit_at (bits b) idx}"

lemma unat_div8: "unat (idx div 8 :: u32) = unat idx div 8" "unat (idx mod 8 :: u32) = unat idx mod 8"
  by (simp_all add: unat_div unat_mod)

lemma bit_mask_iff: "bit (bit_mask idx) j \<longleftrightarrow> j = unat (idx mod 8)"
proof -
  have "unat (idx mod 8) < 8" by (simp add: unat_div8)
  then show ?thesis by (auto simp: bit_mask_def bit_exp_iff)
qed

lemma and_mask: "w AND bit_mask idx \<noteq> 0 \<longleftrightarrow> bit w (unat (idx mod 8))"
proof -
  have l: "n < 8" if "bit w n" for n using bit_imp_le_length [OF that] by simp
  have "w AND bit_mask idx = 0 \<longleftrightarrow> (\<forall>n. \<not> (bit w n \<and> bit (bit_mask idx) n))"
    using l by (auto simp: bit_eq_iff bit_and_iff)
  then show ?thesis by (auto simp: bit_mask_iff)
qed

lemma byte_index: "unat idx < 8 * n \<Longrightarrow> unat (idx div 8 :: u32) < n"
  by (simp add: unat_div8 less_mult_imp_div_less mult.commute)

lemma all_set_iff:
  "list_all (\<lambda>idx. unat idx < 8 * length bs) is \<Longrightarrow> all_set is bs = Some (list_all (bit_at bs) is)"
  by (induction "is") (auto simp: Let_def byte_index and_mask bit_at_def)

lemma bit_at_update:
  assumes "unat idx < 8 * length bs"
  shows "bit_at (bs[unat (idx div 8) := bs ! unat (idx div 8) OR bit_mask idx]) j \<longleftrightarrow> bit_at bs j \<or> j = idx"
proof (cases "unat (j div 8) = unat (idx div 8)")
  case True
  then have "unat (j mod 8) = unat (idx mod 8) \<longleftrightarrow> j = idx"
    unfolding unat_div8 by (metis mult_div_mod_eq word_unat_eq_iff)
  then show ?thesis
    using True byte_index [OF assms] by (auto simp: bit_at_def bit_or_iff bit_mask_iff)
qed (auto simp: bit_at_def)

lemma set_bits_ok:
  "list_all (\<lambda>idx. unat idx < 8 * length bs) is \<Longrightarrow>
    \<exists>bs'. set_bits is bs = Some bs' \<and> length bs' = length bs
      \<and> (\<forall>j. bit_at bs' j \<longleftrightarrow> bit_at bs j \<or> j \<in> set is)"
proof (induction "is" arbitrary: bs)
  case (Cons idx "is")
  let ?bs = "bs[unat (idx div 8) := bs ! unat (idx div 8) OR bit_mask idx]"
  have idx: "unat idx < 8 * length bs" using Cons.prems by simp
  obtain bs' where "set_bits is ?bs = Some bs'" "length bs' = length ?bs"
    "\<forall>j. bit_at bs' j \<longleftrightarrow> bit_at ?bs j \<or> j \<in> set is"
    using Cons.IH [of ?bs] Cons.prems by auto
  then show ?case
    using byte_index [OF idx] bit_at_update [OF idx] by (auto simp: Let_def)
qed simp

lemma unat_ucast_64: "unat (ucast (w :: u32) :: u64) = unat w"
  using unsigned_less [of w, where ?'a = nat] by (simp add: unsigned_ucast_eq take_bit_nat_eq_self)

lemma ucast_mod_less:
  assumes "0 < (m :: u32)"
  shows "(ucast ((w :: u64) mod ucast m) :: u32) < m"
proof -
  have u: "unat (ucast m :: u64) = unat m"
    by (rule unat_ucast_64)
  have "unat (w mod ucast m) < unat m"
    using assms by (simp add: unat_mod u word_less_nat_alt)
  moreover from this have "unat (ucast (w mod ucast m) :: u32) = unat (w mod ucast m)"
    using unsigned_less [of m, where ?'a = nat] by (simp add: unsigned_ucast_eq take_bit_nat_eq_self)
  ultimately show ?thesis by (simp add: word_less_nat_alt)
qed

lemma probes_ok:
  assumes "bloom_ok b"
  obtains "is" where "probes xxh b key = Some is"
    and "list_all (\<lambda>idx. idx < num_bits b) is" and "list_all (\<lambda>idx. unat idx < 8 * length (bits b)) is"
proof -
  have m: "\<not> (ucast (num_bits b) :: u64) < 2" "0 < num_bits b"
    using assms by (auto simp: bloom_ok_def word_less_nat_alt word_le_nat_alt unat_ucast_64)
  obtain h1 h2 where h: "hashes xxh b key = Some (h1, h2)"
    using m(1) by (simp add: hashes_def Let_def)
  let ?is = "map (\<lambda>i. ucast ((h1 + of_nat i * h2) mod (ucast (num_bits b) :: u64)) :: u32)
    [0..<unat (num_hashes b)]"
  have l: "list_all (\<lambda>idx. idx < num_bits b) ?is"
    using ucast_mod_less [OF m(2)] by (simp add: list_all_iff)
  then have "list_all (\<lambda>idx. unat idx < 8 * length (bits b)) ?is"
    using assms by (fastforce simp: list_all_iff bloom_ok_def word_less_nat_alt)
  with l h that show ?thesis by (simp add: probes_def)
qed

text \<open>The probes depend on the size of the filter only.\<close>

lemma probes_bits [simp]: "probes xxh (b\<lparr>bits := bs\<rparr>) key = probes xxh b key"
  by (simp add: probes_def hashes_def Let_def)

definition probe_set :: "hash128 \<Rightarrow> bloom_filter \<Rightarrow> bytes \<Rightarrow> u32 set" where
  "probe_set xxh b key = (case probes xxh b key of None \<Rightarrow> {} | Some is \<Rightarrow> set is)"

lemma bloom_insert_set:
  assumes "bloom_ok b"
  obtains b' where "bloom_insert xxh key b = Some b'" and "bloom_ok b'"
    and "bit_set b' = bit_set b \<union> probe_set xxh b key"
    and "num_bits b' = num_bits b" and "num_hashes b' = num_hashes b" and "length (bits b') = length (bits b)"
proof -
  obtain "is" where p: "probes xxh b key = Some is" "list_all (\<lambda>idx. idx < num_bits b) is"
    and r: "list_all (\<lambda>idx. unat idx < 8 * length (bits b)) is"
    using probes_ok [OF assms] .
  obtain bs where bs: "set_bits is (bits b) = Some bs" "length bs = length (bits b)"
    "\<forall>j. bit_at bs j \<longleftrightarrow> bit_at (bits b) j \<or> j \<in> set is"
    using set_bits_ok [OF r] by blast
  show ?thesis
  proof (rule that [of "b\<lparr>bits := bs\<rparr>"])
    show "bit_set (b\<lparr>bits := bs\<rparr>) = bit_set b \<union> probe_set xxh b key"
      using bs(3) p by (auto simp: bit_set_def probe_set_def list_all_iff)
  qed (use assms p(1) bs in \<open>simp_all add: bloom_insert_def bloom_ok_def\<close>)
qed

lemma bloom_contains_set:
  assumes "bloom_ok b"
  shows "bloom_contains xxh b key = Some (probe_set xxh b key \<subseteq> bit_set b)"
proof -
  obtain "is" where p: "probes xxh b key = Some is" "list_all (\<lambda>idx. idx < num_bits b) is"
    and r: "list_all (\<lambda>idx. unat idx < 8 * length (bits b)) is"
    using probes_ok [OF assms] .
  then show ?thesis
    by (auto simp: bloom_contains_def all_set_iff probe_set_def bit_set_def list_all_iff)
qed

section \<open>Building a filter\<close>

fun insert_all :: "hash128 \<Rightarrow> bytes list \<Rightarrow> bloom_filter \<Rightarrow> bloom_filter option" where
  "insert_all xxh [] b = Some b"
| "insert_all xxh (k # ks) b =
     (case bloom_insert xxh k b of None \<Rightarrow> None | Some b \<Rightarrow> insert_all xxh ks b)"

lemma probe_set_cong:
  "num_bits b' = num_bits b \<Longrightarrow> num_hashes b' = num_hashes b \<Longrightarrow> probe_set xxh b' k = probe_set xxh b k"
  by (simp add: probe_set_def probes_def hashes_def Let_def)

lemma insert_all_set:
  "bloom_ok b \<Longrightarrow> \<exists>b'. insert_all xxh ks b = Some b' \<and> bloom_ok b'
    \<and> bit_set b' = bit_set b \<union> (\<Union>k\<in>set ks. probe_set xxh b k)
    \<and> num_bits b' = num_bits b \<and> num_hashes b' = num_hashes b \<and> length (bits b') = length (bits b)"
proof (induction ks arbitrary: b)
  case (Cons k ks)
  obtain b1 where b1: "bloom_insert xxh k b = Some b1" "bloom_ok b1"
    "bit_set b1 = bit_set b \<union> probe_set xxh b k"
    "num_bits b1 = num_bits b" "num_hashes b1 = num_hashes b" "length (bits b1) = length (bits b)"
    using bloom_insert_set [OF Cons.prems] .
  then show ?case
    using Cons.IH [OF b1(2)] probe_set_cong [OF b1(4,5)] by auto
qed simp

lemma insert_all_append:
  "insert_all xxh (ks @ ls) b = (case insert_all xxh ks b of None \<Rightarrow> None | Some b \<Rightarrow> insert_all xxh ls b)"
  by (induction ks arbitrary: b) (auto split: option.splits)

lemma insert_all_contains:
  assumes "bloom_ok b" and "insert_all xxh ks b = Some b'"
  shows "bloom_contains xxh b' k = Some (probe_set xxh b k \<subseteq> bit_set b \<union> (\<Union>x\<in>set ks. probe_set xxh b x))"
  using insert_all_set [OF assms(1), of xxh ks] assms(2) probe_set_cong [of b' b xxh]
  by (auto simp: bloom_contains_set)

section \<open>A new filter\<close>

text \<open>The size of the filter, below which its bit count does not overflow \<open>u32\<close>.\<close>

definition bloom_bits :: "nat \<Rightarrow> nat \<Rightarrow> nat" where
  "bloom_bits n bpk = 8 * div_ceil (max (saturating_mul (max n 1) bpk) 64) 8"

lemma div_ceil_8: "0 < n \<Longrightarrow> n \<le> 8 * div_ceil n 8"
  by (simp add: div_ceil_def) presburger

lemma bloom_new_sel:
  "bits (bloom_new n bpk) = replicate (bloom_bits n bpk div 8) 0"
  "num_bits (bloom_new n bpk) = of_nat (bloom_bits n bpk)"
  by (simp_all add: bloom_new_def bloom_bits_def Let_def mult.commute)

lemma bloom_new_hashes: "1 \<le> num_hashes (bloom_new n bpk)" "num_hashes (bloom_new n bpk) \<le> 30"
proof -
  obtain k where k: "num_hashes (bloom_new n bpk) = of_nat (min 30 (max 1 k))"
    by (simp add: bloom_new_def Let_def)
  have "unat (of_nat (min 30 (max 1 k)) :: u32) = min 30 (max 1 k)"
    by (rule unat_of_nat_32) (auto simp: min_def)
  then show "1 \<le> num_hashes (bloom_new n bpk)" "num_hashes (bloom_new n bpk) \<le> 30"
    by (auto simp: k word_le_nat_alt)
qed

lemma bloom_bits_ge: "64 \<le> bloom_bits n bpk"
  using div_ceil_8 [of "max (saturating_mul (max n 1) bpk) 64"] unfolding bloom_bits_def by linarith

lemma bloom_new_ok: "bloom_bits n bpk < 2 ^ 32 \<Longrightarrow> bloom_ok (bloom_new n bpk)"
  using bloom_bits_ge [of n bpk]
  by (simp add: bloom_ok_def bloom_new_sel word_le_nat_alt unat_of_nat)
     (simp add: bloom_bits_def)

lemma bloom_new_empty: "bit_set (bloom_new n bpk) \<subseteq> {idx. 8 * length (bits (bloom_new n bpk)) \<le> unat idx}"
proof
  fix idx assume "idx \<in> bit_set (bloom_new n bpk)"
  then have *: "bit (replicate (bloom_bits n bpk div 8) (0 :: u8) ! unat (idx div 8)) (unat (idx mod 8))"
    by (simp add: bit_set_def bit_at_def bloom_new_sel)
  then have "\<not> unat (idx div 8) < bloom_bits n bpk div 8" by auto
  then show "idx \<in> {idx. 8 * length (bits (bloom_new n bpk)) \<le> unat idx}"
    using byte_index [of idx "bloom_bits n bpk div 8"] by (auto simp: bloom_new_sel intro: leI)
qed

lemma bloom_new_no_bits:
  assumes "bloom_bits n bpk < 2 ^ 32"
  shows "bit_set (bloom_new n bpk) = {}"
proof -
  have "unat (num_bits (bloom_new n bpk)) \<le> 8 * length (bits (bloom_new n bpk))"
    using bloom_new_ok [OF assms] by (simp add: bloom_ok_def)
  then have "\<not> 8 * length (bits (bloom_new n bpk)) \<le> unat idx" if "idx < num_bits (bloom_new n bpk)" for idx
    using that by (simp add: word_less_nat_alt)
  then show ?thesis using bloom_new_empty [of n bpk] by (fastforce simp: bit_set_def)
qed

section \<open>The codec\<close>

definition bloom_fits :: "bloom_filter \<Rightarrow> bool" where
  "bloom_fits b \<longleftrightarrow> num_bits b \<noteq> 0 \<and> num_hashes b \<noteq> 0 \<and> unat (num_bits b) = 8 * length (bits b)"

lemma bloom_fits_lengths:
  assumes "bloom_fits b"
  shows "length (bits b) < 2 ^ 29" and "num_bits b mod 8 = 0" and "unat (num_bits b div 8) = length (bits b)"
proof -
  show "length (bits b) < 2 ^ 29"
    using assms unsigned_less [of "num_bits b", where ?'a = nat] by (simp add: bloom_fits_def)
  have "unat (num_bits b mod 8) = 0" using assms by (simp add: unat_div8 bloom_fits_def)
  then show "num_bits b mod 8 = 0" by (simp only: unat_eq_zero)
  show "unat (num_bits b div 8) = length (bits b)" using assms by (simp add: unat_div8 bloom_fits_def)
qed

interpretation bloom_codec: codec bloom_encode bloom_decode cur_at bloom_fits
proof unfold_locales
  fix b p r assume b: "bloom_fits b"
  note l = bloom_fits_lengths [OF b]
  show "bloom_decode (cur_at p (bloom_encode b @ r)) = (Inr b, cur_at (p @ bloom_encode b) r)"
    using b l(1) by (simp add: bloom_decode_def bloom_encode_def cur_take_at l(2,3))
      (simp add: bloom_fits_def)
qed (rule cur_at_inject)

lemma bloom_decode_fits:
  assumes "bloom_decode c = (Inr b, c')"
  shows "bloom_fits b"
proof -
  obtain nb nh bs where nb: "nb \<noteq> 0" "nb mod 8 = 0" and nh: "nh \<noteq> 0"
    and bs: "unat (nb div 8) = length bs" and b: "b = \<lparr>bits = bs, num_bits = nb, num_hashes = nh\<rparr>"
    using assms unfolding bloom_decode_def by (auto elim!: ok_then_InrE split: if_splits)
  have "unat nb mod 8 = 0" using nb(2) by (simp flip: unat_div8)
  then have "unat nb = 8 * (unat nb div 8)" by presburger
  then show ?thesis using nb nh bs by (simp add: b bloom_fits_def unat_div8)
qed

lemma bloom_fits_ok:
  assumes "bloom_fits b"
  shows "bloom_ok b"
proof -
  have "num_bits b \<noteq> 0" and "unat (num_bits b) = 8 * length (bits b)"
    using assms by (simp_all add: bloom_fits_def)
  moreover from this(1) have "0 < unat (num_bits b)" by (rule unat_gt_0 [THEN iffD2])
  ultimately have "2 \<le> unat (num_bits b)" and "unat (num_bits b) \<le> 8 * length (bits b)" by presburger+
  then show ?thesis by (simp only: bloom_ok_def word_le_nat_alt) simp
qed

lemma bloom_new_fits:
  assumes "bloom_bits n bpk < 2 ^ 32"
  shows "bloom_fits (bloom_new n bpk)"
proof -
  have u: "unat (num_bits (bloom_new n bpk)) = bloom_bits n bpk"
    using assms by (simp add: bloom_new_sel unat_of_nat)
  then have "num_bits (bloom_new n bpk) \<noteq> 0" using bloom_bits_ge [of n bpk] by auto
  moreover have "bloom_bits n bpk = 8 * length (bits (bloom_new n bpk))"
    by (simp add: bloom_new_sel) (simp add: bloom_bits_def)
  ultimately show ?thesis using u bloom_new_hashes(1) [of n bpk] by (auto simp: bloom_fits_def)
qed

text \<open>The filter of a table: built for its keys, it fits its encoding and reports them all.\<close>

lemma insert_all_new:
  assumes "bloom_bits n bpk < 2 ^ 32"
  obtains b where "insert_all xxh ks (bloom_new n bpk) = Some b" and "bloom_fits b"
    and "\<And>k. k \<in> set ks \<Longrightarrow> bloom_contains xxh b k = Some True"
    and "length (bits b) < 2 ^ 29"
proof -
  note ok = bloom_new_ok [OF assms] and fits = bloom_new_fits [OF assms]
  obtain b where b: "insert_all xxh ks (bloom_new n bpk) = Some b" "num_bits b = num_bits (bloom_new n bpk)"
    "num_hashes b = num_hashes (bloom_new n bpk)" "length (bits b) = length (bits (bloom_new n bpk))"
    using insert_all_set [OF ok, of xxh ks] by blast
  show ?thesis
  proof (rule that [OF b(1)])
    show "bloom_fits b" using fits b(2-4) by (simp add: bloom_fits_def)
    show "bloom_contains xxh b k = Some True" if "k \<in> set ks" for k
      using insert_all_contains [OF ok b(1), of k] that by auto
    show "length (bits b) < 2 ^ 29" using bloom_fits_lengths(1) [OF fits] b(4) by simp
  qed
qed

section \<open>Properties\<close>

text \<open>C33 (bloom_no_false_negatives): a filter sized for a table and filled with its keys reports
  every one of them as present, whatever the hash function, after it has been written to the file
  and read back; and it never probes a bit outside its array, so no operation panics. The
  hypothesis bounds the size, beyond which the bit count is truncated to 32 bits.\<close>

theorem bloom_no_false_negatives:
  assumes "bloom_bits n bits_per_key < 2 ^ 32"
  shows "\<exists>b. insert_all xxh keys (bloom_new n bits_per_key) = Some b
    \<and> fst (bloom_decode (cur_new (bloom_encode b))) = Inr b
    \<and> (\<forall>k\<in>set keys. bloom_contains xxh b k = Some True) \<and> (\<forall>k. bloom_contains xxh b k \<noteq> None)"
proof -
  obtain b where b: "insert_all xxh keys (bloom_new n bits_per_key) = Some b" "bloom_fits b"
    "\<And>k. k \<in> set keys \<Longrightarrow> bloom_contains xxh b k = Some True"
    using insert_all_new [OF assms] by metis
  have "fst (bloom_decode (cur_new (bloom_encode b))) = Inr b"
    using bloom_codec.dec_enc [OF b(2), of "[]" "[]"] by (simp add: cur_new_at)
  moreover have "bloom_contains xxh b k \<noteq> None" for k
    using bloom_contains_set [OF bloom_fits_ok [OF b(2)], of xxh k] by simp
  ultimately show ?thesis using b by blast
qed

theorem bloom_no_false_negatives_witness:
  "\<exists>b. insert_all (\<lambda>k. of_nat (length k)) [[1], [2, 3]] (bloom_new 2 10) = Some b
    \<and> bloom_contains (\<lambda>k. of_nat (length k)) b [2, 3] = Some True"
  using bloom_no_false_negatives [of 2 10 "\<lambda>k. of_nat (length k)" "[[1], [2, 3]]"]
  by (auto simp: bloom_bits_def saturating_mul_def div_ceil_def)

text \<open>C34 (bloom_refines_bit_set): on a consistent filter, inserting a key adds the bit indices it
  hashes to and nothing else, and a key is reported present exactly when all of its indices are in
  the set; false positives are exactly the keys whose indices are covered by others.\<close>

theorem bloom_refines_bit_set:
  assumes "bloom_ok b"
  shows "\<exists>b'. bloom_insert xxh k b = Some b' \<and> bloom_ok b'
    \<and> bit_set b' = bit_set b \<union> probe_set xxh b k
    \<and> bloom_contains xxh b' k' = Some (probe_set xxh b k' \<subseteq> bit_set b \<union> probe_set xxh b k)"
proof -
  obtain b' where b': "bloom_insert xxh k b = Some b'" "bloom_ok b'"
    "bit_set b' = bit_set b \<union> probe_set xxh b k" "num_bits b' = num_bits b" "num_hashes b' = num_hashes b"
    using bloom_insert_set [OF assms] by metis
  then show ?thesis
    using bloom_contains_set [OF b'(2), of xxh k'] probe_set_cong [OF b'(4,5), of xxh k'] by simp
qed

theorem bloom_refines_bit_set_witness:
  "\<exists>b'. bloom_insert (\<lambda>k. of_nat (length k)) [7] (bloom_new 1 10) = Some b' \<and> bloom_ok b'
    \<and> bloom_contains (\<lambda>k. of_nat (length k)) b' [9] = Some True"
proof -
  let ?h = "\<lambda>k :: bytes. of_nat (length k) :: u128"
  have ok: "bloom_ok (bloom_new 1 10)"
    by (rule bloom_new_ok) (simp add: bloom_bits_def saturating_mul_def div_ceil_def)
  have "probe_set ?h (bloom_new 1 10) [9] = probe_set ?h (bloom_new 1 10) [7]"
    by (simp add: probe_set_def probes_def hashes_def Let_def)
  then show ?thesis using bloom_refines_bit_set [OF ok, of ?h "[7]" "[9]"] by auto
qed

end
