(* ===== verification/Sst_Builder.thy ===== *)
theory Sst_Builder imports Bloom Frame begin

text \<open>
  Writing a table file (\<open>src/src/sstable/builder.rs\<close>): entries are packed into checksummed data
  blocks of at most \<open>BLOCK_SIZE\<close> bytes (a larger entry gets a block of its own), followed by the
  sparse index, the Bloom filter and a fixed footer. The second half states what the file holds:
  \<open>built\<close> relates the builder's state to the entries added so far, and \<open>table_image\<close> is the file
  that \<open>finish\<close> leaves.
\<close>

definition DEFAULT_BITS_PER_KEY :: nat where "DEFAULT_BITS_PER_KEY = 10"
definition TAG_DELETE :: u8 where "TAG_DELETE = 0"
definition TAG_PUT :: u8 where "TAG_PUT = 1"
definition FOOTER_SIZE :: nat where "FOOTER_SIZE = 48"

record sst_summary =
  su_entries :: u64
  su_first :: "bytes option"
  su_last :: "bytes option"
  su_len :: u64

text \<open>\<open>IndexEntry\<close> of the builder and \<open>BlockHandle\<close> of the reader have the same fields.\<close>

record block_handle =
  h_first :: bytes
  h_off :: u64
  h_len :: u32

type_synonym index_entry = block_handle

record sst_builder =
  b_path :: path
  b_block :: bytes
  b_block_first :: "bytes option"
  b_index :: "index_entry list"
  b_bloom :: bloom_filter
  b_offset :: u64
  b_entries :: u64
  b_last :: "bytes option"
  b_first :: "bytes option"

section \<open>Encoding\<close>

definition encoded_entry_len :: "bytes \<Rightarrow> sst_value \<Rightarrow> nat" where
  "encoded_entry_len key v = 4 + length key + 8 + 1 + (case v of Put b \<Rightarrow> 4 + length b | Delete \<Rightarrow> 0)"

definition encode_entry :: "bytes \<Rightarrow> u64 \<Rightarrow> sst_value \<Rightarrow> bytes" where
  "encode_entry key sq v = u32_le (of_nat (length key)) @ key @ u64_le sq @
     (case v of
        Put b \<Rightarrow> [TAG_PUT] @ u32_le (of_nat (length b)) @ b
      | Delete \<Rightarrow> [TAG_DELETE])"

definition encode_index_entry :: "index_entry \<Rightarrow> bytes" where
  "encode_index_entry e = u32_le (of_nat (length (h_first e))) @ h_first e @ u64_le (h_off e) @ u32_le (h_len e)"

text \<open>A structure followed by the checksum of its bytes.\<close>

definition with_crc :: "crc \<Rightarrow> bytes \<Rightarrow> bytes" where
  "with_crc crc b = b @ u32_le (crc b)"

definition index_block :: "crc \<Rightarrow> index_entry list \<Rightarrow> bytes" where
  "index_block crc ix = with_crc crc (u32_le (of_nat (length ix)) @ concat (map encode_index_entry ix))"

definition bloom_block :: "crc \<Rightarrow> bloom_filter \<Rightarrow> bytes" where
  "bloom_block crc b = with_crc crc (bloom_encode b)"

definition footer :: "crc \<Rightarrow> u64 \<Rightarrow> u32 \<Rightarrow> u64 \<Rightarrow> u32 \<Rightarrow> u64 \<Rightarrow> bytes" where
  "footer crc index_off index_len bloom_off bloom_len n = with_crc crc
     (u64_le FOOTER_MAGIC @ u32_le FORMAT_VERSION @ u64_le index_off @ u32_le index_len
      @ u64_le bloom_off @ u32_le bloom_len @ u64_le n)"

section \<open>The operations\<close>

type_synonym 'fs build = "sst_builder \<times> 'fs"

definition builder_new ::
  "'fs storage \<Rightarrow> path \<Rightarrow> nat \<Rightarrow> nat \<Rightarrow> 'fs \<Rightarrow> (sst_error + sst_builder) \<times> 'fs" where
  "builder_new S p expected_keys bits_per_key fs =
     ok_then (err_map Storage_failed (st_create S p fs)) (\<lambda>_ fs.
       (Inr \<lparr>b_path = p, b_block = [], b_block_first = None, b_index = [],
             b_bloom = bloom_new expected_keys bits_per_key, b_offset = 0, b_entries = 0,
             b_last = None, b_first = None\<rparr>, fs))"

text \<open>The checksum is appended to the block before the write, so a failed write leaves it there.
  \<open>expect\<close> on the first key is \<open>Panicked\<close>.\<close>

definition seal_block :: "crc \<Rightarrow> 'fs storage \<Rightarrow> 'fs build \<Rightarrow> (sst_error + unit) \<times> 'fs build" where
  "seal_block crc S = (\<lambda>(b, fs).
     if b_block b = [] then (Inr (), (b, fs))
     else let b1 = b\<lparr>b_block := with_crc crc (b_block b)\<rparr>;
              block_len = (of_nat (length (b_block b1)) :: u32);
              (r, fs1) = st_append S (b_path b) (b_block b1) fs
          in case r of
               Inl e \<Rightarrow> (Inl (Storage_failed e), (b1, fs1))
             | Inr _ \<Rightarrow>
                 let b2 = b1\<lparr>b_offset := b_offset b + ucast block_len\<rparr>
                 in case b_block_first b of
                      None \<Rightarrow> (Inl Panicked, (b2, fs1))
                    | Some k \<Rightarrow>
                        (Inr (), (b2\<lparr>b_block_first := None,
                            b_index := b_index b @ [\<lparr>h_first = k, h_off = b_offset b, h_len = block_len\<rparr>],
                            b_block := []\<rparr>, fs1)))"

text \<open>The part of \<open>add\<close> that follows the checks: the entry lands in the current block.\<close>

definition place_entry ::
  "hash128 \<Rightarrow> bytes \<Rightarrow> u64 \<Rightarrow> sst_value \<Rightarrow> 'fs build \<Rightarrow> (sst_error + unit) \<times> 'fs build" where
  "place_entry xxh key sq v = (\<lambda>(b, fs).
     let b1 = b\<lparr>b_block_first := (case b_block_first b of None \<Rightarrow> Some key | Some k \<Rightarrow> Some k),
                b_block := b_block b @ encode_entry key sq v\<rparr>
     in case bloom_insert xxh key (b_bloom b) of
          None \<Rightarrow> (Inl Panicked, (b1, fs))
        | Some bl \<Rightarrow>
            (Inr (), (b1\<lparr>b_bloom := bl,
                b_first := (case b_first b of None \<Rightarrow> Some key | Some k \<Rightarrow> Some k),
                b_last := Some key, b_entries := b_entries b + 1\<rparr>, fs)))"

definition builder_add ::
  "hash128 \<Rightarrow> crc \<Rightarrow> 'fs storage \<Rightarrow> bytes \<Rightarrow> u64 \<Rightarrow> sst_value \<Rightarrow> 'fs build
    \<Rightarrow> (sst_error + unit) \<times> 'fs build" where
  "builder_add xxh crc S key sq v = (\<lambda>(b, fs).
     if (case b_last b of Some prev \<Rightarrow> key \<le> prev | None \<Rightarrow> False) then (Inl Unsorted, (b, fs))
     else ok_then
       (if b_block b \<noteq> [] \<and> BLOCK_SIZE < length (b_block b) + encoded_entry_len key v
        then seal_block crc S (b, fs) else (Inr (), (b, fs)))
       (\<lambda>_. place_entry xxh key sq v))"

text \<open>\<open>self.storage.append(&self.path, &buf)?; self.offset += len as u64\<close>.\<close>

definition append_part :: "'fs storage \<Rightarrow> bytes \<Rightarrow> u64 \<Rightarrow> 'fs build \<Rightarrow> (sst_error + unit) \<times> 'fs build" where
  "append_part S buf len = (\<lambda>(b, fs).
     let (r, fs1) = st_append S (b_path b) buf fs
     in case r of Inl e \<Rightarrow> (Inl (Storage_failed e), (b, fs1))
        | Inr _ \<Rightarrow> (Inr (), (b\<lparr>b_offset := b_offset b + len\<rparr>, fs1)))"

definition write_index :: "crc \<Rightarrow> 'fs storage \<Rightarrow> 'fs build \<Rightarrow> (sst_error + u64 \<times> u32) \<times> 'fs build" where
  "write_index crc S = (\<lambda>(b, fs).
     let buf = index_block crc (b_index b); index_len = (of_nat (length buf) :: u32)
     in ok_then (append_part S buf (ucast index_len) (b, fs)) (\<lambda>_ bf. (Inr (b_offset b, index_len), bf)))"

definition write_bloom :: "crc \<Rightarrow> 'fs storage \<Rightarrow> 'fs build \<Rightarrow> (sst_error + u64 \<times> u32) \<times> 'fs build" where
  "write_bloom crc S = (\<lambda>(b, fs).
     let buf = bloom_block crc (b_bloom b); bloom_len = (of_nat (length buf) :: u32)
     in ok_then (append_part S buf (ucast bloom_len) (b, fs)) (\<lambda>_ bf. (Inr (b_offset b, bloom_len), bf)))"

definition write_footer ::
  "crc \<Rightarrow> 'fs storage \<Rightarrow> u64 \<times> u32 \<Rightarrow> u64 \<times> u32 \<Rightarrow> 'fs build \<Rightarrow> (sst_error + unit) \<times> 'fs build" where
  "write_footer crc S ix bl = (\<lambda>(b, fs).
     let buf = footer crc (fst ix) (snd ix) (fst bl) (snd bl) (b_entries b)
     in append_part S buf (of_nat (length buf)) (b, fs))"

text \<open>\<open>finish\<close> consumes the builder.\<close>

definition builder_finish :: "crc \<Rightarrow> 'fs storage \<Rightarrow> 'fs build \<Rightarrow> (sst_error + sst_summary) \<times> 'fs" where
  "builder_finish crc S bf =
     (let (r, (b, fs)) =
        ok_then (seal_block crc S bf) (\<lambda>_ bf.
        ok_then (write_index crc S bf) (\<lambda>ix bf.
        ok_then (write_bloom crc S bf) (\<lambda>bl bf. write_footer crc S ix bl bf)))
      in ok_then (r, fs) (\<lambda>_ fs.
         ok_then (err_map Storage_failed (st_sync_file S (b_path b) fs)) (\<lambda>_ fs.
           (Inr \<lparr>su_entries = b_entries b, su_first = b_first b, su_last = b_last b, su_len = b_offset b\<rparr>, fs))))"

end
