(* ===== verification/Sst_Image.thy ===== *)
theory Sst_Image imports Sst_Builder Crash begin

text \<open>
  What a table file holds. \<open>table_image\<close> is the file written for a list of entries divided into
  blocks; \<open>built\<close> relates the builder's state to the entries added so far. On a backend whose power
  may fail at any operation the builder either leaves exactly that file, synced, or stops without
  any path being affected: the file is not yet linked by a durable directory entry.
\<close>

section \<open>The bytes of a table\<close>

definition row :: "sst_entry \<Rightarrow> bytes" where
  "row e = encode_entry (e_key e) (e_seq e) (e_value e)"

definition rows :: "sst_entry list \<Rightarrow> bytes" where
  "rows es = concat (map row es)"

definition data_block :: "crc \<Rightarrow> sst_entry list \<Rightarrow> bytes" where
  "data_block crc es = with_crc crc (rows es)"

definition data_part :: "crc \<Rightarrow> sst_entry list list \<Rightarrow> bytes" where
  "data_part crc bss = concat (map (data_block crc) bss)"

fun handles :: "crc \<Rightarrow> nat \<Rightarrow> sst_entry list list \<Rightarrow> block_handle list" where
  "handles crc off [] = []"
| "handles crc off (bs # bss) =
     \<lparr>h_first = e_key (hd bs), h_off = of_nat off, h_len = of_nat (length (data_block crc bs))\<rparr>
     # handles crc (off + length (data_block crc bs)) bss"

definition table_image :: "crc \<Rightarrow> bloom_filter \<Rightarrow> sst_entry list list \<Rightarrow> bytes" where
  "table_image crc bl bss =
     (let data = data_part crc bss; ix = index_block crc (handles crc 0 bss); blo = bloom_block crc bl
      in data @ ix @ blo @ footer crc (of_nat (length data)) (of_nat (length ix))
           (of_nat (length data + length ix)) (of_nat (length blo)) (of_nat (length (concat bss))))"

lemma length_with_crc [simp]: "length (with_crc crc b) = length b + 4"
  by (simp add: with_crc_def)

lemma length_footer [simp]: "length (footer crc a b c d e) = FOOTER_SIZE"
  by (simp add: footer_def FOOTER_SIZE_def)

lemma length_row: "length (row e) = encoded_entry_len (e_key e) (e_value e)"
  by (simp add: row_def encode_entry_def encoded_entry_len_def split: sst_value.split)

lemma row_not_Nil [simp]: "row e \<noteq> []"
  by (simp add: row_def encode_entry_def)

lemma rows_simps [simp]:
  "rows [] = []" "rows (e # es) = row e @ rows es" "rows (es @ fs) = rows es @ rows fs"
  by (simp_all add: rows_def)

lemma rows_Nil_iff [simp]: "rows es = [] \<longleftrightarrow> es = []"
  by (cases es) simp_all

lemma data_part_simps [simp]:
  "data_part crc [] = []" "data_part crc (bs # bss) = data_block crc bs @ data_part crc bss"
  "data_part crc (bss @ css) = data_part crc bss @ data_part crc css"
  by (simp_all add: data_part_def)

lemma handles_append:
  "handles crc off (bss @ css) = handles crc off bss @ handles crc (off + length (data_part crc bss)) css"
  by (induction bss arbitrary: off) (simp_all add: add.assoc)

lemma length_handles [simp]: "length (handles crc off bss) = length bss"
  by (induction bss arbitrary: off) simp_all

section \<open>Sizes\<close>

text \<open>The lengths in the file are 32-bit: a table is limited to entries of less than 4 GiB in all,
  counting eight bytes of overhead for each.\<close>

definition table_size :: "sst_entry list \<Rightarrow> nat" where
  "table_size es = 8 + (\<Sum>e\<leftarrow>es. length (row e) + 8)"

definition table_fits :: "sst_entry list \<Rightarrow> bool" where
  "table_fits es \<longleftrightarrow> table_size es < 2 ^ 32"

lemma table_size_append: "table_size (es @ fs) + 8 = table_size es + table_size fs"
  by (simp add: table_size_def)

lemma table_fits_append: "table_fits (es @ fs) \<Longrightarrow> table_fits es" "table_fits (es @ fs) \<Longrightarrow> table_fits fs"
  using table_size_append [of es fs] by (auto simp: table_fits_def table_size_def)

lemma length_le_table_size: "8 * length es + 8 \<le> table_size es"
  by (induction es) (simp_all add: table_size_def)

lemma rows_size: "length (rows es) + 8 * length es + 8 = table_size es"
  by (induction es) (simp_all add: table_size_def)

lemma data_block_size: "length (data_block crc bs) + 4 \<le> table_size bs"
  using rows_size [of bs] by (simp add: data_block_def)

lemma data_block_size': "bs \<noteq> [] \<Longrightarrow> length (data_block crc bs) + 8 + 4 \<le> table_size bs"
  using rows_size [of bs] by (cases bs) (simp_all add: data_block_def)

lemma data_part_size: "[] \<notin> set bss \<Longrightarrow> length (data_part crc bss) + 8 \<le> table_size (concat bss)"
proof (induction bss)
  case (Cons bs bss)
  then have "length (data_part crc bss) + 8 \<le> table_size (concat bss)" "bs \<noteq> []" by auto
  then show ?case
    using data_block_size' [of bs crc] table_size_append [of bs "concat bss"] by simp
qed (simp add: table_size_def)

lemma block_fits:
  assumes "bs \<in> set bss" and "table_fits (concat bss)"
  shows "table_fits bs"
proof -
  obtain xs ys where "bss = xs @ bs # ys" using assms(1) by (meson split_list)
  with assms(2) have "table_fits (concat xs @ bs @ concat ys)" by simp
  then have "table_fits (bs @ concat ys)" by (rule table_fits_append(2))
  then show ?thesis by (rule table_fits_append(1))
qed

lemma row_fits: "e \<in> set es \<Longrightarrow> table_fits es \<Longrightarrow> length (row e) < 2 ^ 32"
proof -
  assume e: "e \<in> set es" and fits: "table_fits es"
  obtain xs ys where "es = xs @ [e] @ ys" using e by (metis append_Cons append_Nil split_list)
  with fits have "table_fits ([e] @ ys)" by (metis table_fits_append(2))
  then have "table_fits [e]" by (rule table_fits_append(1))
  then show ?thesis by (simp add: table_fits_def table_size_def)
qed

lemma length_index_entry: "length (encode_index_entry e) = 16 + length (h_first e)"
  by (simp add: encode_index_entry_def)

lemma index_size:
  assumes "[] \<notin> set bss"
  shows "length (concat (map encode_index_entry (handles crc off bss))) + 8 \<le> table_size (concat bss)"
  using assms
proof (induction bss arbitrary: off)
  case (Cons bs bss)
  obtain e es where bs: "bs = e # es" using Cons.prems by (cases bs) auto
  have "length (e_key e) + 13 \<le> length (row e)"
    by (simp add: length_row encoded_entry_len_def)
  moreover have "length (row e) + 16 \<le> table_size bs" by (simp add: bs table_size_def)
  moreover have "length (concat (map encode_index_entry (handles crc (off + length (data_block crc bs)) bss))) + 8
      \<le> table_size (concat bss)"
    using Cons by simp
  ultimately show ?case
    using table_size_append [of bs "concat bss"] by (simp add: bs length_index_entry)
qed (simp add: table_size_def)

lemma index_block_size:
  "[] \<notin> set bss \<Longrightarrow> length (index_block crc (handles crc off bss)) \<le> table_size (concat bss)"
  using index_size [of bss crc off] by (simp add: index_block_def)

lemma bloom_block_size: "length (bloom_block crc b) = 20 + length (bits b)"
  by (simp add: bloom_block_def bloom_encode_def)

section \<open>The builder's state\<close>

text \<open>No block exceeds \<open>BLOCK_SIZE\<close> unless a single entry does.\<close>

definition block_sized :: "sst_entry list \<Rightarrow> bool" where
  "block_sized bs \<longleftrightarrow> length (rows bs) \<le> BLOCK_SIZE \<or> length bs \<le> 1"

definition built ::
  "hash128 \<Rightarrow> crc \<Rightarrow> path \<Rightarrow> bloom_filter \<Rightarrow> sst_entry list \<Rightarrow> sst_entry list list \<Rightarrow> sst_entry list
    \<Rightarrow> sst_builder \<Rightarrow> bool" where
  "built xxh crc p bl0 es bss cur b \<longleftrightarrow>
     concat bss @ cur = es \<and> [] \<notin> set bss \<and> list_all block_sized (bss @ [cur])
     \<and> sorted_wrt (<) (map e_key es)
     \<and> b_path b = p \<and> b_block b = rows cur
     \<and> b_block_first b = (if cur = [] then None else Some (e_key (hd cur)))
     \<and> b_index b = handles crc 0 bss \<and> b_offset b = of_nat (length (data_part crc bss))
     \<and> b_entries b = of_nat (length es)
     \<and> b_first b = (if es = [] then None else Some (e_key (hd es)))
     \<and> b_last b = (if es = [] then None else Some (e_key (last es)))
     \<and> insert_all xxh (map e_key es) bl0 = Some (b_bloom b)"

lemma built_seal:
  assumes b: "built xxh crc p bl0 es bss cur b" and fits: "table_fits es" and ne: "cur \<noteq> []"
  shows "built xxh crc p bl0 es (bss @ [cur]) []
    (b\<lparr>b_block := [], b_offset := b_offset b + ucast (of_nat (length (data_block crc cur)) :: u32),
       b_block_first := None,
       b_index := b_index b @ [\<lparr>h_first = e_key (hd cur), h_off = b_offset b,
          h_len = of_nat (length (data_block crc cur))\<rparr>]\<rparr>)"
proof -
  have "table_fits cur" using b fits table_fits_append(2) unfolding built_def by blast
  then have "length (data_block crc cur) < 2 ^ 32"
    using data_block_size [of crc cur] by (simp add: table_fits_def)
  then have "(ucast (of_nat (length (data_block crc cur)) :: u32) :: u64) = of_nat (length (data_block crc cur))"
    by (simp add: word_unat_eq_iff unat_ucast_64)
  then show ?thesis
    using b ne unfolding built_def
    by (auto simp: handles_append block_sized_def rows_def)
qed

lemma sorted_last_max:
  fixes xs :: "'a::linorder list"
  shows "sorted_wrt (<) xs \<Longrightarrow> x \<in> set xs \<Longrightarrow> x \<le> last xs"
  by (induction xs) (auto intro: less_imp_le dest: last_in_set)

lemma built_place:
  assumes b: "built xxh crc p bl0 es bss cur b" and bl0: "bloom_ok bl0"
    and key: "es \<noteq> [] \<Longrightarrow> e_key (last es) < e_key e"
    and room: "cur = [] \<or> length (rows cur) + length (row e) \<le> BLOCK_SIZE"
  shows "\<exists>b'. place_entry xxh (e_key e) (e_seq e) (e_value e) (b, fs) = (Inr (), (b', fs))
    \<and> built xxh crc p bl0 (es @ [e]) bss (cur @ [e]) b'"
proof -
  have i: "insert_all xxh (map e_key es) bl0 = Some (b_bloom b)" using b by (simp add: built_def)
  then have "bloom_ok (b_bloom b)" using insert_all_set [OF bl0, of xxh "map e_key es"] by auto
  then obtain bl where bl: "bloom_insert xxh (e_key e) (b_bloom b) = Some bl"
    using bloom_insert_set by metis
  have "insert_all xxh (map e_key (es @ [e])) bl0 = Some bl"
    by (simp add: insert_all_append i bl)
  moreover have "sorted_wrt (<) (map e_key (es @ [e]))"
  proof (cases "es = []")
    case False
    have s: "sorted_wrt (<) (map e_key es)" using b by (simp add: built_def)
    have "e_key x < e_key e" if "x \<in> set es" for x
      using sorted_last_max [OF s] that key [OF False] False by (fastforce simp: last_map)
    then show ?thesis using s by (simp add: sorted_wrt_append)
  qed simp
  ultimately show ?thesis
    using b room by (auto simp: place_entry_def bl built_def block_sized_def row_def split: option.split)
qed

end
