(* ===== verification/Sst_Write.thy ===== *)
theory Sst_Write imports Sst_Image begin

text \<open>
  The builder on a backend whose power may fail at any operation: adding entries and finishing
  leaves exactly \<open>table_image\<close>, synced, in a file no durable directory entry names yet; on a power
  loss no path has changed.
\<close>

text \<open>The client's loop: the entries of a sorted source are added one after the other.\<close>

fun add_all ::
  "hash128 \<Rightarrow> crc \<Rightarrow> 'fs storage \<Rightarrow> sst_entry list \<Rightarrow> 'fs build \<Rightarrow> (sst_error + unit) \<times> 'fs build" where
  "add_all xxh crc S [] bf = (Inr (), bf)"
| "add_all xxh crc S (e # es) bf =
     ok_then (builder_add xxh crc S (e_key e) (e_seq e) (e_value e) bf) (\<lambda>_. add_all xxh crc S es)"

text \<open>The state of a table under construction: the builder's memory and the disk it writes to.\<close>

definition building ::
  "hash128 \<Rightarrow> crc \<Rightarrow> path \<Rightarrow> bloom_filter \<Rightarrow> disk \<Rightarrow> sst_entry list \<Rightarrow> sst_entry list list \<Rightarrow> sst_entry list
    \<Rightarrow> sst_builder \<Rightarrow> disk \<Rightarrow> bool" where
  "building xxh crc p bl0 D0 es bss cur b D \<longleftrightarrow>
     built xxh crc p bl0 es bss cur b \<and> D = disk_file p (data_part crc bss) [] D0"

lemma built_path: "built xxh crc p bl0 es bss cur b \<Longrightarrow> b_path b = p"
  by (simp add: built_def)

definition new_builder :: "path \<Rightarrow> nat \<Rightarrow> nat \<Rightarrow> sst_builder" where
  "new_builder p n bpk = \<lparr>b_path = p, b_block = [], b_block_first = None, b_index = [],
     b_bloom = bloom_new n bpk, b_offset = 0, b_entries = 0, b_last = None, b_first = None\<rparr>"

text \<open>A finished table: the file is readable and holds the entries, in blocks of bounded size.\<close>

definition holds_table :: "hash128 \<Rightarrow> crc \<Rightarrow> sst_entry list \<Rightarrow> bytes \<Rightarrow> bool" where
  "holds_table xxh crc es img \<longleftrightarrow> (\<exists>bl bss. img = table_image crc bl bss \<and> concat bss = es
     \<and> [] \<notin> set bss \<and> list_all block_sized bss \<and> sorted_wrt (<) (map e_key es) \<and> table_fits es
     \<and> bloom_fits bl \<and> (\<forall>e\<in>set es. bloom_contains xxh bl (e_key e) = Some True))"

definition summary_of :: "sst_entry list \<Rightarrow> bytes \<Rightarrow> sst_summary" where
  "summary_of es img = \<lparr>su_entries = of_nat (length es), su_first = (if es = [] then None else Some (e_key (hd es))),
     su_last = (if es = [] then None else Some (e_key (last es))), su_len = of_nat (length img)\<rparr>"

section \<open>A stopped backend\<close>

context crash_fs
begin

lemma append_part_down:
  assumes "down s D"
  shows "snd (ok_then (append_part S buf n (b, s)) f) = (b, s)" "snd (append_part S buf n (b, s)) = (b, s)"
  using cf_down(2) [OF assms, of "b_path b" buf] by (auto simp: append_part_def)

lemma seal_down: "down s D \<Longrightarrow> snd (snd (seal_block crc S (b, s))) = s"
  using cf_down(2) [of s D "b_path b" "with_crc crc (b_block b)"] by (auto simp: seal_block_def Let_def)

lemma stays_seal: "stays down (seal_block crc S)"
  by (auto simp: stays_def seal_down)

lemma stays_place: "stays down (place_entry xxh key sq v)"
  by (simp add: stays_def place_entry_def Let_def split: option.split)

lemma stays_add: "stays down (builder_add xxh crc S key sq v)"
  unfolding stays_def
proof (intro allI impI)
  fix b :: sst_builder and s D assume d: "down s D"
  have "stays down (\<lambda>bf. ok_then (seal_block crc S bf) (\<lambda>_. place_entry xxh key sq v))"
    by (intro stays_then stays_seal stays_place)
  then have "snd (snd (ok_then (seal_block crc S (b, s)) (\<lambda>_. place_entry xxh key sq v))) = s"
    and "snd (snd (place_entry xxh key sq v (b, s))) = s"
    using d stays_place [of xxh key sq v] unfolding stays_def by blast+
  then show "snd (snd (builder_add xxh crc S key sq v (b, s))) = s" by (simp add: builder_add_def)
qed

lemma stays_add_all: "stays down (add_all xxh crc S es)"
proof (induction es)
  case (Cons e es)
  have "stays down (\<lambda>bf. ok_then (builder_add xxh crc S (e_key e) (e_seq e) (e_value e) bf) (\<lambda>_. add_all xxh crc S es))"
    by (intro stays_then stays_add Cons.IH)
  then show ?case by (simp add: stays_def)
qed (simp add: stays_def)

lemma stays_parts: "stays down (write_index crc S)" "stays down (write_bloom crc S)"
    "stays down (write_footer crc S ix bl)"
  by (auto simp: stays_def write_index_def write_bloom_def write_footer_def Let_def append_part_down)

section \<open>Adding entries\<close>

lemma reaches_seal:
  assumes s: "up s" and b: "building xxh crc p bl0 D0 es bss cur b (disk s)" and fits: "table_fits es"
  shows "reaches up disk down (seal_block crc S) (\<lambda>D. d_images D = d_images D0)
    (\<lambda>r b' D. r = Inr () \<and> building xxh crc p bl0 D0 es (if cur = [] then bss else bss @ [cur]) [] b' D) (b, s)"
proof (cases "cur = []")
  case True
  then show ?thesis
    using s b by (intro reaches_pure) (auto simp: seal_block_def building_def built_def)
next
  case False
  let ?D = "disk_file p (data_part crc bss) [] D0"
  let ?n = "of_nat (length (data_block crc cur)) :: u32"
  note bd = b [unfolded building_def]
  have blk: "b_block b = rows cur" "b_path b = p" "b_block_first b = Some (e_key (hd cur))"
    using bd False by (auto simp: built_def)
  have v: "d_view (disk s) p = Some (data_part crc bss)" using bd by simp
  let ?b1 = "b\<lparr>b_block := data_block crc cur\<rparr>"
  let ?b2 = "b\<lparr>b_block := [], b_offset := b_offset b + ucast ?n, b_block_first := None,
     b_index := b_index b @ [\<lparr>h_first = e_key (hd cur), h_off = b_offset b, h_len = ?n\<rparr>]\<rparr>"
  have "building xxh crc p bl0 D0 es (bss @ [cur]) [] ?b2 (disk_append p (data_block crc cur) (disk s))"
    using built_seal [OF _ fits False] bd by (simp add: building_def disk_file_append)
  moreover have "seal_block crc S (b, s) = mem_call (st_append S p (data_block crc cur)) Storage_failed ?b1
      (\<lambda>_. Inr ()) (\<lambda>_. ?b2) s"
    using blk False by (simp add: seal_block_def mem_call_def Let_def data_block_def split: sum.split prod.split)
  ultimately show ?thesis
    using bd False by (intro reaches_mem_call [OF runs_append [OF s v]]) (auto simp: disk_file_append)
qed

lemma reaches_place:
  assumes s: "up s" and b: "building xxh crc p bl0 D0 es bss cur b (disk s)" and bl0: "bloom_ok bl0"
    and key: "es \<noteq> [] \<Longrightarrow> e_key (last es) < e_key e"
    and room: "cur = [] \<or> length (rows cur) + length (row e) \<le> BLOCK_SIZE"
  shows "reaches up disk down (place_entry xxh (e_key e) (e_seq e) (e_value e)) C
    (\<lambda>r b' D. r = Inr () \<and> building xxh crc p bl0 D0 (es @ [e]) bss (cur @ [e]) b' D) (b, s)"
proof -
  have "built xxh crc p bl0 es bss cur b" using b by (simp add: building_def)
  from built_place [OF this bl0 key room, of s] obtain b'
    where "place_entry xxh (e_key e) (e_seq e) (e_value e) (b, s) = (Inr (), (b', s))"
      "built xxh crc p bl0 (es @ [e]) bss (cur @ [e]) b'" by blast
  then show ?thesis using s b by (intro reaches_pure) (auto simp: building_def)
qed

lemma reaches_add:
  assumes s: "up s" and b: "building xxh crc p bl0 D0 es bss cur b (disk s)" and bl0: "bloom_ok bl0"
    and key: "es \<noteq> [] \<Longrightarrow> e_key (last es) < e_key e" and fits: "table_fits es"
  shows "reaches up disk down (builder_add xxh crc S (e_key e) (e_seq e) (e_value e))
    (\<lambda>D. d_images D = d_images D0)
    (\<lambda>r b' D. r = Inr () \<and> (\<exists>bss' cur'. building xxh crc p bl0 D0 (es @ [e]) bss' cur' b' D)) (b, s)"
proof -
  let ?place = "place_entry xxh (e_key e) (e_seq e) (e_value e)"
  let ?C = "\<lambda>D. d_images D = d_images D0"
  let ?Q = "\<lambda>r b' D. r = Inr () \<and> (\<exists>bss' cur'. building xxh crc p bl0 D0 (es @ [e]) bss' cur' b' D)"
  note bt = b [unfolded building_def, THEN conjunct1]
  have ord: "\<not> (case b_last b of Some prev \<Rightarrow> e_key e \<le> prev | None \<Rightarrow> False)"
  proof -
    have "b_last b = (if es = [] then None else Some (e_key (last es)))" using bt by (simp add: built_def)
    then show ?thesis using key by (auto simp: not_le)
  qed
  have blk: "b_block b = rows cur" using bt by (simp add: built_def)
  show ?thesis
  proof (cases "cur \<noteq> [] \<and> BLOCK_SIZE < length (rows cur) + encoded_entry_len (e_key e) (e_value e)")
    case True
    have "reaches up disk down (\<lambda>bf. ok_then (seal_block crc S bf) (\<lambda>_. ?place)) ?C ?Q (b, s)"
    proof (rule reaches_then [where P = "\<lambda>(_::unit). building xxh crc p bl0 D0 es (bss @ [cur]) []"])
      show "reaches up disk down (seal_block crc S) ?C
          (\<lambda>r m D. \<exists>x. r = Inr x \<and> building xxh crc p bl0 D0 es (bss @ [cur]) [] m D) (b, s)"
        using True by (auto intro: reaches_weaken [OF reaches_seal [OF s b fits]])
      show "reaches up disk down ?place ?C ?Q (m, s')"
        if "up s'" "building xxh crc p bl0 D0 es (bss @ [cur]) [] m (disk s')" for m s'
        by (rule reaches_weaken [OF reaches_place [OF that bl0 key]]) auto
    qed (rule stays_place)
    moreover have "builder_add xxh crc S (e_key e) (e_seq e) (e_value e) (b, s)
        = ok_then (seal_block crc S (b, s)) (\<lambda>_. ?place)"
      using True ord blk by (simp add: builder_add_def)
    ultimately show ?thesis by (simp only: reaches_def)
  next
    case False
    then have "reaches up disk down ?place ?C ?Q (b, s)"
      using length_row [of e] by (intro reaches_weaken [OF reaches_place [OF s b bl0 key]]) auto
    moreover have "builder_add xxh crc S (e_key e) (e_seq e) (e_value e) (b, s) = ?place (b, s)"
      using False ord blk by (auto simp: builder_add_def)
    ultimately show ?thesis by (simp only: reaches_def)
  qed
qed

lemma reaches_add_all:
  assumes "up s" and "building xxh crc p bl0 D0 es0 bss cur b (disk s)" and bl0: "bloom_ok bl0"
    and "sorted_wrt (<) (map e_key (es0 @ es))" and "table_fits (es0 @ es)"
  shows "reaches up disk down (add_all xxh crc S es) (\<lambda>D. d_images D = d_images D0)
    (\<lambda>r b' D. r = Inr () \<and> (\<exists>bss' cur'. building xxh crc p bl0 D0 (es0 @ es) bss' cur' b' D)) (b, s)"
  using assms(1,2,4,5)
proof (induction es arbitrary: s b es0 bss cur)
  case Nil
  then show ?case by (intro reaches_pure) auto
next
  case (Cons e es)
  let ?Q = "\<lambda>r b' D. r = Inr () \<and> (\<exists>bss' cur'. building xxh crc p bl0 D0 (es0 @ e # es) bss' cur' b' D)"
  have key: "e_key (last es0) < e_key e" if "es0 \<noteq> []"
    using Cons.prems(3) that last_in_set by (fastforce simp: sorted_wrt_append)
  have "reaches up disk down (\<lambda>bf. ok_then (builder_add xxh crc S (e_key e) (e_seq e) (e_value e) bf)
      (\<lambda>_. add_all xxh crc S es)) (\<lambda>D. d_images D = d_images D0) ?Q (b, s)"
  proof (rule reaches_then [where P = "\<lambda>(_::unit) m D. \<exists>bss' cur'. building xxh crc p bl0 D0 (es0 @ [e]) bss' cur' m D"])
    show "reaches up disk down (builder_add xxh crc S (e_key e) (e_seq e) (e_value e)) (\<lambda>D. d_images D = d_images D0)
        (\<lambda>r m D. \<exists>x. r = Inr x \<and> (\<exists>bss' cur'. building xxh crc p bl0 D0 (es0 @ [e]) bss' cur' m D)) (b, s)"
      by (rule reaches_weaken [OF reaches_add [OF Cons.prems(1,2) bl0 key table_fits_append(1) [OF Cons.prems(4)]]]) auto
    show "reaches up disk down (add_all xxh crc S es) (\<lambda>D. d_images D = d_images D0) ?Q (m, s')"
      if "up s'" "\<exists>bss' cur'. building xxh crc p bl0 D0 (es0 @ [e]) bss' cur' m (disk s')" for m s'
      using that Cons.prems(3,4) Cons.IH [of s' "es0 @ [e]"] by auto
  qed (rule stays_add_all)
  then show ?case by simp
qed

section \<open>Finishing\<close>

lemma reaches_append_part:
  assumes s: "up s" and p: "b_path b = p" and o: "b_offset b = of_nat (length c)" and D: "disk s = disk_file p c [] D0"
    and n: "n = of_nat (length buf)"
  shows "reaches up disk down (append_part S buf n) (\<lambda>D. d_images D = d_images D0)
    (\<lambda>r b' D. r = Inr () \<and> b' = b\<lparr>b_offset := of_nat (length (c @ buf))\<rparr> \<and> D = disk_file p (c @ buf) [] D0) (b, s)"
proof (rule reaches_mem_call)
  show "append_part S buf n (b, s) = mem_call (st_append S p buf) Storage_failed b (\<lambda>_. Inr ())
      (\<lambda>_. b\<lparr>b_offset := b_offset b + n\<rparr>) s"
    by (simp add: append_part_def mem_call_def p split: prod.split sum.split)
  have v: "d_view (disk s) p = Some c" by (simp add: D)
  show "runs up disk down (st_append S p buf) (\<lambda>D. d_images D = d_images D0)
      (\<lambda>r D. \<exists>x. r = Inr x \<and> Inr () = Inr () \<and> b\<lparr>b_offset := b_offset b + n\<rparr> = b\<lparr>b_offset := of_nat (length (c @ buf))\<rparr>
         \<and> D = disk_file p (c @ buf) [] D0) s"
    by (rule runs_append [OF s v]) (simp_all add: D disk_file_append o n)
qed

lemma reaches_write_part:
  assumes "up s" "b_path b = p" "b_offset b = of_nat (length c)" "disk s = disk_file p c [] D0" and fits: "length buf < 2 ^ 32"
    and f: "f (b, s) = ok_then (append_part S buf (ucast (of_nat (length buf) :: u32)) (b, s))
      (\<lambda>_ bf. (Inr (b_offset b, of_nat (length buf) :: u32), bf))"
  shows "reaches up disk down f (\<lambda>D. d_images D = d_images D0)
    (\<lambda>r b' D. r = Inr (of_nat (length c), of_nat (length buf)) \<and> b' = b\<lparr>b_offset := of_nat (length (c @ buf))\<rparr>
       \<and> D = disk_file p (c @ buf) [] D0) (b, s)"
proof -
  have n: "ucast (of_nat (length buf) :: u32) = (of_nat (length buf) :: u64)"
    using fits by (simp add: word_unat_eq_iff unat_ucast_64)
  obtain r b' s' where r: "append_part S buf (of_nat (length buf)) (b, s) = (r, (b', s'))" by (metis prod.exhaust)
  show ?thesis
    using reaches_append_part [OF assms(1-4) refl, of buf] assms(3) unfolding reaches_def f n r
    by (cases r) (auto split: prod.splits)
qed

lemma runs_finish_sealed:
  assumes s: "up s" and b: "building xxh crc p bl0 D0 es bss [] b (disk s)" and fits: "table_fits es"
    and bl: "length (bits (b_bloom b)) + 20 < 2 ^ 32"
  shows "reaches up disk down (\<lambda>bf. ok_then (write_index crc S bf) (\<lambda>ix bf.
      ok_then (write_bloom crc S bf) (\<lambda>bl bf. write_footer crc S ix bl bf))) (\<lambda>D. d_images D = d_images D0)
    (\<lambda>r b' D. r = Inr () \<and> b' = b\<lparr>b_offset := of_nat (length (table_image crc (b_bloom b) bss))\<rparr>
       \<and> D = disk_file p (table_image crc (b_bloom b) bss) [] D0) (b, s)"
proof -
  let ?C = "\<lambda>D. d_images D = d_images D0"
  let ?data = "data_part crc bss" let ?ix = "index_block crc (handles crc 0 bss)"
  let ?bl = "bloom_block crc (b_bloom b)"
  let ?st = "\<lambda>c b' D. b' = b\<lparr>b_offset := of_nat (length c)\<rparr> \<and> D = disk_file p c [] D0"
  let ?rix = "(of_nat (length ?data), of_nat (length ?ix)) :: u64 \<times> u32"
  let ?rbl = "(of_nat (length (?data @ ?ix)), of_nat (length ?bl)) :: u64 \<times> u32"
  let ?img = "table_image crc (b_bloom b) bss"
  have bt: "b_path b = p" "b_index b = handles crc 0 bss" "b_offset b = of_nat (length ?data)" "[] \<notin> set bss"
    "concat bss = es" "b_entries b = of_nat (length es)"
    and D: "disk s = disk_file p ?data [] D0"
    using b by (auto simp: building_def built_def)
  have lix: "length ?ix < 2 ^ 32"
    using index_block_size [OF bt(4), of crc 0] fits by (simp add: bt(5) table_fits_def)
  have lbl: "length ?bl < 2 ^ 32" using bl by (simp add: bloom_block_size)
  show ?thesis
  proof (rule reaches_then [where P = "\<lambda>ix b' D. ix = ?rix \<and> ?st (?data @ ?ix) b' D"])
    show "reaches up disk down (write_index crc S) ?C (\<lambda>r m D. \<exists>x. r = Inr x \<and> x = ?rix \<and> ?st (?data @ ?ix) m D) (b, s)"
      by (rule reaches_weaken [OF reaches_write_part [OF s bt(1,3) D lix]])
         (auto simp: write_index_def Let_def bt(2))
    show "stays down (\<lambda>bf. ok_then (write_bloom crc S bf) (\<lambda>bl bf. write_footer crc S ix bl bf))" for ix
      by (intro stays_then stays_parts)
    fix ix m1 s1 assume s1: "up s1" and "ix = ?rix \<and> ?st (?data @ ?ix) m1 (disk s1)"
    then have ix: "ix = ?rix" and m1: "m1 = b\<lparr>b_offset := of_nat (length (?data @ ?ix))\<rparr>"
      and D1: "disk s1 = disk_file p (?data @ ?ix) [] D0" by simp_all
    show "reaches up disk down (\<lambda>bf. ok_then (write_bloom crc S bf) (\<lambda>bl bf. write_footer crc S ix bl bf)) ?C
        (\<lambda>r b' D. r = Inr () \<and> ?st ?img b' D) (m1, s1)"
    proof (rule reaches_then [where P = "\<lambda>bl b' D. bl = ?rbl \<and> ?st (?data @ ?ix @ ?bl) b' D"])
      show "reaches up disk down (write_bloom crc S) ?C
          (\<lambda>r m D. \<exists>x. r = Inr x \<and> x = ?rbl \<and> ?st (?data @ ?ix @ ?bl) m D) (m1, s1)"
        by (rule reaches_weaken [OF reaches_write_part [OF s1 _ _ D1 lbl]])
           (auto simp: write_bloom_def Let_def m1 bt(1))
      show "stays down (\<lambda>bf. write_footer crc S ix bl bf)" for bl by (rule stays_parts)
      fix bl m2 s2 assume s2: "up s2" and "bl = ?rbl \<and> ?st (?data @ ?ix @ ?bl) m2 (disk s2)"
      then have bl: "bl = ?rbl" and m2: "m2 = b\<lparr>b_offset := of_nat (length (?data @ ?ix @ ?bl))\<rparr>"
        and D2: "disk s2 = disk_file p (?data @ ?ix @ ?bl) [] D0" by simp_all
      let ?ft = "footer crc (fst ix) (snd ix) (fst bl) (snd bl) (b_entries m2)"
      have img: "(?data @ ?ix @ ?bl) @ ?ft = ?img"
        by (simp add: table_image_def Let_def ix bl m2 bt(5,6))
      have "reaches up disk down (append_part S ?ft (of_nat (length ?ft))) ?C
          (\<lambda>r b' D. r = Inr () \<and> b' = m2\<lparr>b_offset := of_nat (length ((?data @ ?ix @ ?bl) @ ?ft))\<rparr>
             \<and> D = disk_file p ((?data @ ?ix @ ?bl) @ ?ft) [] D0) (m2, s2)"
        by (rule reaches_append_part [OF s2 _ _ D2 refl]) (simp_all add: m2 bt(1))
      moreover have "write_footer crc S ix bl (m2, s2) = append_part S ?ft (of_nat (length ?ft)) (m2, s2)"
        by (simp add: write_footer_def Let_def)
      moreover have "m2\<lparr>b_offset := x\<rparr> = b\<lparr>b_offset := x\<rparr>" for x by (simp add: m2)
      ultimately show "reaches up disk down (write_footer crc S ix bl) ?C (\<lambda>r b' D. r = Inr () \<and> ?st ?img b' D) (m2, s2)"
        unfolding img by (simp only: reaches_def)
    qed
  qed
qed

lemma runs_finish:
  assumes s: "up s" and b: "building xxh crc p bl0 D0 es bss0 cur b (disk s)" and fits: "table_fits es"
    and bl: "length (bits (b_bloom b)) + 20 < 2 ^ 32"
    and bss: "bss = (if cur = [] then bss0 else bss0 @ [cur])"
    and img: "img = table_image crc (b_bloom b) bss"
    and C: "\<And>D. d_images D = d_images D0 \<Longrightarrow> C D"
    and Q: "Q (Inr \<lparr>su_entries = of_nat (length es), su_first = (if es = [] then None else Some (e_key (hd es))),
         su_last = (if es = [] then None else Some (e_key (last es))), su_len = of_nat (length img)\<rparr>)
      (disk_file p img img D0)"
  shows "runs up disk down (\<lambda>s. builder_finish crc S (b, s)) C Q s"
proof -
  let ?C = "\<lambda>D. d_images D = d_images D0"
  let ?tail = "\<lambda>bf. ok_then (write_index crc S bf) (\<lambda>ix bf.
        ok_then (write_bloom crc S bf) (\<lambda>bl bf. write_footer crc S ix bl bf))"
  let ?P = "\<lambda>(_::unit) b' D. b_path b' = p \<and> b_entries b' = b_entries b \<and> b_first b' = b_first b
    \<and> b_last b' = b_last b \<and> b_offset b' = of_nat (length img) \<and> D = disk_file p img [] D0"
  have bt: "built xxh crc p bl0 es bss0 cur b" using b by (simp add: building_def)
  have r: "reaches up disk down (\<lambda>bf. ok_then (seal_block crc S bf) (\<lambda>_. ?tail)) ?C
      (\<lambda>r b' D. \<exists>x. r = Inr x \<and> ?P x b' D) (b, s)"
  proof (rule reaches_then [where P = "\<lambda>(_::unit) m D. building xxh crc p bl0 D0 es bss [] m D"])
    show "reaches up disk down (seal_block crc S) ?C (\<lambda>r m D. \<exists>x. r = Inr x \<and> building xxh crc p bl0 D0 es bss [] m D) (b, s)"
      unfolding bss by (rule reaches_weaken [OF reaches_seal [OF s b fits]]) auto
    show "stays down ?tail" by (intro stays_then stays_parts)
    fix m s1 assume s1: "up s1" and m: "building xxh crc p bl0 D0 es bss [] m (disk s1)"
    have e: "b_path m = p" "b_bloom m = b_bloom b" "b_entries m = b_entries b" "b_first m = b_first b" "b_last m = b_last b"
      using m bt by (auto simp: building_def built_def split del: if_split)
    show "reaches up disk down ?tail ?C (\<lambda>r b' D. \<exists>x. r = Inr x \<and> ?P x b' D) (m, s1)"
      using bl by (intro reaches_weaken [OF runs_finish_sealed [OF s1 m fits]]) (auto simp: e img)
  qed
  have "runs up disk down (\<lambda>s. let (r, (b', s')) = ok_then (seal_block crc S (b, s)) (\<lambda>_. ?tail) in
      ok_then (r, s') (\<lambda>_ s'. ok_then (err_map Storage_failed (st_sync_file S (b_path b') s')) (\<lambda>_ s'.
        (Inr \<lparr>su_entries = b_entries b', su_first = b_first b', su_last = b_last b', su_len = b_offset b'\<rparr>, s')))) C Q s"
  proof (rule runs_after_reaches [where P = ?P])
    show "reaches up disk down (\<lambda>bf. ok_then (seal_block crc S bf) (\<lambda>_. ?tail)) C (\<lambda>r m D. \<exists>x. r = Inr x \<and> ?P x m D) (b, s)"
      by (rule reaches_weaken [OF r C])
    show "inert down (\<lambda>s'. ok_then (err_map Storage_failed (st_sync_file S (b_path m) s')) (\<lambda>_ s'.
        (Inr \<lparr>su_entries = b_entries m, su_first = b_first m, su_last = b_last m, su_len = b_offset m\<rparr>, s')))" for m
      by (intro inert_then inert_err_map inert_ops)
    fix m s1 assume s1: "up s1" and P: "?P () m (disk s1)"
    have q: "Inr \<lparr>su_entries = b_entries m, su_first = b_first m, su_last = b_last m, su_len = b_offset m\<rparr>
        = Inr \<lparr>su_entries = of_nat (length es), su_first = (if es = [] then None else Some (e_key (hd es))),
         su_last = (if es = [] then None else Some (e_key (last es))), su_len = of_nat (length img)\<rparr>"
      using P bt by (simp add: built_def split del: if_split)
    show "runs up disk down (\<lambda>s'. ok_then (err_map Storage_failed (st_sync_file S (b_path m) s')) (\<lambda>_ s'.
        (Inr \<lparr>su_entries = b_entries m, su_first = b_first m, su_last = b_last m, su_len = b_offset m\<rparr>, s'))) C Q s1"
    proof (rule runs_then_pure, rule runs_err_map, rule runs_sync_file [OF s1])
      show "d_view (disk s1) (b_path m) = Some img" using P by simp
      show "C (disk_sync_file (b_path m) (disk s1))" using P C by (simp add: disk_file_sync)
    qed (use P Q q in \<open>simp add: disk_file_sync\<close>)
  qed
  then show ?thesis by (simp add: builder_finish_def [abs_def] Let_def case_prod_unfold)
qed

section \<open>A whole table\<close>

lemma inert_finish: "inert down (\<lambda>s. builder_finish crc S (b, s))"
  unfolding inert_def
proof (intro allI impI)
  fix s D assume d: "down s D"
  obtain r b' where r: "seal_block crc S (b, s) = (r, (b', s))"
    using seal_down [OF d, of crc b] by (metis prod.collapse)
  obtain e where "st_append S (b_path b') (index_block crc (b_index b')) s = (Inl e, s)"
    using cf_down(2) [OF d] by blast
  then show "\<exists>e. builder_finish crc S (b, s) = (Inl e, s)"
    by (cases r) (simp_all add: builder_finish_def r write_index_def append_part_def Let_def)
qed

lemma builder_new_eq: "builder_new S p n bpk = (\<lambda>s. ok_then (err_map Storage_failed (st_create S p s))
    (\<lambda>_ s. (Inr (new_builder p n bpk), s)))"
  by (simp add: builder_new_def new_builder_def fun_eq_iff)

lemma building_new:
  assumes "D = disk_file p [] [] D0"
  shows "building xxh crc p (bloom_new n bpk) D0 [] [] [] (new_builder p n bpk) D"
  using assms by (simp add: building_def built_def new_builder_def block_sized_def)

lemma runs_builder_new:
  assumes s: "up s" and p: "d_view (disk s) p = None"
    and C: "\<And>D. d_images D = d_images (disk s) \<Longrightarrow> C D"
  shows "runs up disk down (builder_new S p n bpk) C
    (\<lambda>r D. r = Inr (new_builder p n bpk) \<and> D = disk_file p [] [] (disk s)) s"
  unfolding builder_new_eq
  by (rule runs_then_pure, rule runs_err_map, rule runs_create [OF s p]) (simp_all add: C disk_file_create)

text \<open>The state after all entries have been added, and what finishing it leaves.\<close>

lemma building_bloom:
  assumes "building xxh crc p (bloom_new n bpk) D0 es bss cur b D" and "bloom_bits n bpk < 2 ^ 32"
  shows "insert_all xxh (map e_key es) (bloom_new n bpk) = Some (b_bloom b)"
    and "length (bits (b_bloom b)) + 20 < 2 ^ 32"
proof -
  show i: "insert_all xxh (map e_key es) (bloom_new n bpk) = Some (b_bloom b)"
    using assms(1) by (simp add: building_def built_def)
  obtain b0 where "insert_all xxh (map e_key es) (bloom_new n bpk) = Some b0" "length (bits b0) < 2 ^ 29"
    using insert_all_new [OF assms(2)] by metis
  then show "length (bits (b_bloom b)) + 20 < 2 ^ 32" using i by simp
qed

lemma runs_finish_table:
  assumes s: "up s" and b: "building xxh crc p (bloom_new n bpk) D0 es bss cur b (disk s)"
    and fits: "table_fits es" and n: "bloom_bits n bpk < 2 ^ 32"
    and C: "\<And>D. d_images D = d_images D0 \<Longrightarrow> C D"
    and Q: "\<And>img. holds_table xxh crc es img \<Longrightarrow> Q (Inr (summary_of es img)) (disk_file p img img D0)"
  shows "runs up disk down (\<lambda>s. builder_finish crc S (b, s)) C Q s"
proof -
  let ?bss = "if cur = [] then bss else bss @ [cur]"
  let ?img = "table_image crc (b_bloom b) ?bss"
  note bl = building_bloom [OF b n]
  obtain b0 where b0: "insert_all xxh (map e_key es) (bloom_new n bpk) = Some b0" "bloom_fits b0"
    "\<And>k. k \<in> set (map e_key es) \<Longrightarrow> bloom_contains xxh b0 k = Some True"
    using insert_all_new [OF n, of xxh "map e_key es"] by metis
  have "holds_table xxh crc es ?img"
    unfolding holds_table_def
  proof (intro exI conjI)
    show "bloom_fits (b_bloom b)" "\<forall>e\<in>set es. bloom_contains xxh (b_bloom b) (e_key e) = Some True"
      using b0 bl(1) by auto
  qed (use b fits in \<open>auto simp: building_def built_def split: if_splits\<close>)
  then show ?thesis
    using Q [of ?img] by (intro runs_finish [OF s b fits bl(2) refl refl C]) (simp_all add: summary_of_def)
qed

end

section \<open>Building a table from a list\<close>

definition build_table ::
  "hash128 \<Rightarrow> crc \<Rightarrow> 'fs storage \<Rightarrow> path \<Rightarrow> nat \<Rightarrow> nat \<Rightarrow> sst_entry list \<Rightarrow> 'fs \<Rightarrow> (sst_error + sst_summary) \<times> 'fs" where
  "build_table xxh crc S p n bpk es s =
     ok_then (builder_new S p n bpk s) (\<lambda>b s.
       let (r, (b, s)) = add_all xxh crc S es (b, s) in ok_then (r, s) (\<lambda>_ s. builder_finish crc S (b, s)))"

context crash_fs
begin

lemma runs_build_table:
  assumes s: "up s" and p: "d_view (disk s) p = None"
    and es: "sorted_wrt (<) (map e_key es)" "table_fits es" and n: "bloom_bits n bpk < 2 ^ 32"
    and C: "\<And>D. d_images D = d_images (disk s) \<Longrightarrow> C D"
    and Q: "\<And>img. holds_table xxh crc es img \<Longrightarrow> Q (Inr (summary_of es img)) (disk_file p img img (disk s))"
  shows "runs up disk down (build_table xxh crc S p n bpk es) C Q s"
proof -
  let ?b0 = "new_builder p n bpk" and ?D0 = "disk s"
  let ?rest = "\<lambda>b s. let (r, (b, s)) = add_all xxh crc S es (b, s) in ok_then (r, s) (\<lambda>_ s. builder_finish crc S (b, s))"
  have inert: "inert down (?rest b)" for b
    unfolding inert_def
  proof (intro allI impI)
    fix s D assume d: "down s D"
    obtain r b' where r: "add_all xxh crc S es (b, s) = (r, (b', s))"
      using stays_add_all [where xxh = xxh and crc = crc and es = es, unfolded stays_def] d by (metis prod.collapse)
    obtain e where "builder_finish crc S (b', s) = (Inl e, s)" using inert_finish [of crc b'] d unfolding inert_def by blast
    then show "\<exists>e. ?rest b s = (Inl e, s)" by (cases r) (simp_all add: r)
  qed
  have "runs up disk down (\<lambda>s. ok_then (builder_new S p n bpk s) ?rest) C Q s"
  proof (rule runs_then [where P = "\<lambda>b D. b = ?b0 \<and> D = disk_file p [] [] ?D0"])
    show "runs up disk down (builder_new S p n bpk) C (\<lambda>r D. \<exists>x. r = Inr x \<and> x = ?b0 \<and> D = disk_file p [] [] ?D0) s"
      by (rule runs_weaken [OF runs_builder_new [OF s p C]]) auto
    show "inert down (?rest b)" for b by (rule inert)
    fix b s' assume s': "up s'" and "b = ?b0 \<and> disk s' = disk_file p [] [] ?D0"
    then have b: "b = ?b0" and D: "disk s' = disk_file p [] [] ?D0" by simp_all
    show "runs up disk down (?rest b) C Q s'"
    proof (rule runs_after_reaches [where P = "\<lambda>_ b D. \<exists>bss cur. building xxh crc p (bloom_new n bpk) ?D0 es bss cur b D"])
      have "reaches up disk down (add_all xxh crc S es) (\<lambda>D. d_images D = d_images ?D0)
          (\<lambda>r b' D. r = Inr () \<and> (\<exists>bss' cur'. building xxh crc p (bloom_new n bpk) ?D0 ([] @ es) bss' cur' b' D)) (b, s')"
        using es unfolding b
        by (intro reaches_add_all [OF s' building_new [OF D] bloom_new_ok [OF n]]) simp_all
      then show "reaches up disk down (add_all xxh crc S es) C
          (\<lambda>r m D. \<exists>x. r = Inr x \<and> (\<exists>bss cur. building xxh crc p (bloom_new n bpk) ?D0 es bss cur m D)) (b, s')"
        by (rule reaches_weaken) (auto intro: C)
      show "runs up disk down (\<lambda>s. builder_finish crc S (m, s)) C Q s''"
        if "up s''" "\<exists>bss cur. building xxh crc p (bloom_new n bpk) ?D0 es bss cur m (disk s'')" for m s''
      proof -
        obtain bss cur where b': "building xxh crc p (bloom_new n bpk) ?D0 es bss cur m (disk s'')"
          using \<open>\<exists>bss cur. _ bss cur\<close> by blast
        show ?thesis by (rule runs_finish_table [OF \<open>up s''\<close> b' es(2) n]) (erule C, erule Q)
      qed
    qed (rule inert_finish)
  qed
  then show ?thesis by (simp add: build_table_def [abs_def])
qed

end

end
