(* ===== verification/Slices.thy ===== *)
theory Slices imports Prelude begin

text \<open>
  The slice searches of the standard library that the table reader uses:
  \<open>binary_search_by\<close> and \<open>partition_point\<close>, as the halving loop they run, and what they return on
  a slice the comparison is monotone on.
\<close>

datatype ordering = Less | Equal | Greater

definition cmp :: "'a::linorder \<Rightarrow> 'a \<Rightarrow> ordering" where
  "cmp a b = (if a < b then Less else if a = b then Equal else Greater)"

lemma cmp_simps [simp]:
  "cmp a b = Less \<longleftrightarrow> a < b" "cmp a b = Equal \<longleftrightarrow> a = b" "cmp a b = Greater \<longleftrightarrow> b < (a :: 'a::linorder)"
  by (auto simp: cmp_def)

text \<open>The loop keeps a window \<open>[base, base + n)\<close> and halves it until one element is left.\<close>

function search_loop :: "('a \<Rightarrow> ordering) \<Rightarrow> 'a list \<Rightarrow> nat \<Rightarrow> nat \<Rightarrow> nat" where
  "search_loop f xs base n =
     (if 1 < n
      then let half = n div 2; mid = base + half
           in search_loop f xs (if f (xs ! mid) = Greater then base else mid) (n - half)
      else base)"
  by auto
termination by (relation "measure (\<lambda>(_, _, _, n). n)") auto

declare search_loop.simps [simp del]

text \<open>\<open>Ok(i)\<close> is \<open>Inr i\<close>: an element that compares equal; \<open>Err(i)\<close> is \<open>Inl i\<close>: where it would be
  inserted.\<close>

definition binary_search_by :: "('a \<Rightarrow> ordering) \<Rightarrow> 'a list \<Rightarrow> nat + nat" where
  "binary_search_by f xs =
     (if xs = [] then Inl 0
      else let base = search_loop f xs 0 (length xs); c = f (xs ! base)
           in if c = Equal then Inr base else Inl (base + (if c = Less then 1 else 0)))"

definition partition_point :: "('a \<Rightarrow> bool) \<Rightarrow> 'a list \<Rightarrow> nat" where
  "partition_point p xs =
     (case binary_search_by (\<lambda>x. if p x then Less else Greater) xs of Inl i \<Rightarrow> i | Inr i \<Rightarrow> i)"

lemma search_loop_step:
  "1 < n \<Longrightarrow> search_loop f xs base n
     = search_loop f xs (if f (xs ! (base + n div 2)) = Greater then base else base + n div 2) (n - n div 2)"
  by (subst search_loop.simps) (simp add: Let_def)

lemma search_loop_end: "\<not> 1 < n \<Longrightarrow> search_loop f xs base n = base"
  by (subst search_loop.simps) simp

text \<open>A comparison is monotone on a slice when it goes from \<open>Less\<close> over \<open>Equal\<close> to
  \<open>Greater\<close>.\<close>

definition monotone :: "('a \<Rightarrow> ordering) \<Rightarrow> 'a list \<Rightarrow> bool" where
  "monotone f xs \<longleftrightarrow> (\<forall>i j. i < j \<longrightarrow> j < length xs \<longrightarrow>
     (f (xs ! j) = Less \<longrightarrow> f (xs ! i) = Less) \<and> (f (xs ! i) = Greater \<longrightarrow> f (xs ! j) = Greater))"

definition last_not_greater :: "('a \<Rightarrow> ordering) \<Rightarrow> 'a list \<Rightarrow> nat \<Rightarrow> bool" where
  "last_not_greater f xs b \<longleftrightarrow> b < length xs \<and> (b = 0 \<or> f (xs ! b) \<noteq> Greater)
     \<and> (\<forall>i. b < i \<longrightarrow> i < length xs \<longrightarrow> f (xs ! i) = Greater)"

lemma search_loop_window:
  assumes "monotone f xs" and "0 < n" and "base + n \<le> length xs"
    and "\<forall>i. base + n \<le> i \<longrightarrow> i < length xs \<longrightarrow> f (xs ! i) = Greater"
    and "base = 0 \<or> f (xs ! base) \<noteq> Greater"
  shows "last_not_greater f xs (search_loop f xs base n)"
  using assms
proof (induction n arbitrary: base rule: less_induct)
  case (less n)
  show ?case
  proof (cases "1 < n")
    case False
    then have "n = 1" using less.prems(2) by simp
    then show ?thesis using less.prems by (simp add: search_loop_end last_not_greater_def)
  next
    case True
    let ?mid = "base + n div 2"
    let ?base = "if f (xs ! ?mid) = Greater then base else ?mid"
    have "last_not_greater f xs (search_loop f xs ?base (n - n div 2))"
    proof (rule less.IH [OF _ less.prems(1)])
      show "\<forall>i. ?base + (n - n div 2) \<le> i \<longrightarrow> i < length xs \<longrightarrow> f (xs ! i) = Greater"
      proof (intro allI impI)
        fix i assume i: "?base + (n - n div 2) \<le> i" "i < length xs"
        show "f (xs ! i) = Greater"
        proof (cases "f (xs ! ?mid) = Greater")
          case g: True
          have "?mid \<le> i" using i(1) g by auto
          then consider "?mid < i" | "?mid = i" by linarith
          then show ?thesis using g less.prems(1) i(2) unfolding monotone_def by cases blast+
        next
          case False
          then show ?thesis using less.prems(4) i by auto
        qed
      qed
    qed (use True less.prems(3,5) in auto)
    then show ?thesis using search_loop_step [OF True, of f xs base] by simp
  qed
qed

text \<open>The loop ends on the last element that is not greater, or on the first element.\<close>

lemma search_loop_last:
  assumes "monotone f xs" and "xs \<noteq> []"
  shows "last_not_greater f xs (search_loop f xs 0 (length xs))"
  using assms by (intro search_loop_window) auto

lemma partition_point_split:
  assumes "\<And>i j. i < j \<Longrightarrow> j < length xs \<Longrightarrow> p (xs ! j) \<Longrightarrow> p (xs ! i)"
  shows "partition_point p xs \<le> length xs \<and> (\<forall>i < length xs. p (xs ! i) \<longleftrightarrow> i < partition_point p xs)"
proof (cases "xs = []")
  case False
  let ?f = "\<lambda>x. if p x then Less else Greater"
  let ?b = "search_loop ?f xs 0 (length xs)"
  have m: "monotone ?f xs" using assms by (auto simp: monotone_def)
  have b: "?b < length xs" "?b = 0 \<or> p (xs ! ?b)" "\<And>i. ?b < i \<Longrightarrow> i < length xs \<Longrightarrow> \<not> p (xs ! i)"
    using search_loop_last [OF m False] by (auto simp: last_not_greater_def split: if_splits)
  have e: "partition_point p xs = (if p (xs ! ?b) then Suc ?b else ?b)"
    using False by (simp add: partition_point_def binary_search_by_def Let_def)
  have before: "p (xs ! i)" if "i < ?b" for i
    using that b(1,2) assms [of i ?b] by auto
  show ?thesis
  proof (intro conjI allI impI)
    fix i assume "i < length xs"
    then show "p (xs ! i) \<longleftrightarrow> i < partition_point p xs"
      using b(2,3) before [of i] by (cases i ?b rule: linorder_cases) (auto simp: e)
  qed (use b(1) in \<open>simp add: e\<close>)
qed (simp add: partition_point_def binary_search_by_def)

text \<open>On a slice with strictly ascending keys the search finds the key if it is there.\<close>

lemma monotone_key:
  fixes key :: "'b::linorder"
  assumes "sorted_wrt (<) (map k xs)"
  shows "monotone (\<lambda>x. cmp (k x) key) xs"
  unfolding monotone_def
proof (intro allI impI)
  fix i j assume "i < j" "j < length xs"
  then have "k (xs ! i) < k (xs ! j)" using assms by (simp add: sorted_wrt_iff_nth_less)
  then show "(cmp (k (xs ! j)) key = Less \<longrightarrow> cmp (k (xs ! i)) key = Less) \<and>
    (cmp (k (xs ! i)) key = Greater \<longrightarrow> cmp (k (xs ! j)) key = Greater)" by auto
qed

lemma binary_search_key:
  fixes key :: "'b::linorder"
  assumes sorted: "sorted_wrt (<) (map k xs)"
  shows "case binary_search_by (\<lambda>x. cmp (k x) key) xs of
      Inr i \<Rightarrow> i < length xs \<and> k (xs ! i) = key
    | Inl i \<Rightarrow> \<forall>x\<in>set xs. k x \<noteq> key"
proof (cases "xs = []")
  case False
  let ?b = "search_loop (\<lambda>x. cmp (k x) key) xs 0 (length xs)"
  have b: "?b < length xs" "?b = 0 \<or> k (xs ! ?b) \<le> key" "\<And>i. ?b < i \<Longrightarrow> i < length xs \<Longrightarrow> key < k (xs ! i)"
    using search_loop_last [OF monotone_key [OF sorted] False, of key]
    by (auto simp: last_not_greater_def)
  have ne: "k (xs ! i) \<noteq> key" if "i < length xs" "k (xs ! ?b) \<noteq> key" for i
  proof (cases i ?b rule: linorder_cases)
    case less
    then have "k (xs ! i) < k (xs ! ?b)" using sorted b(1) by (simp add: sorted_wrt_iff_nth_less)
    then show ?thesis using b(2) less by auto
  qed (use that b(3) [of i] in auto)
  show ?thesis
  proof (cases "k (xs ! ?b) = key")
    case True
    then show ?thesis using b(1) False by (simp add: binary_search_by_def Let_def)
  next
    case no: False
    then have "\<forall>x\<in>set xs. k x \<noteq> key" using ne by (metis in_set_conv_nth)
    with no show ?thesis using False by (simp add: binary_search_by_def Let_def)
  qed
qed (simp add: binary_search_by_def)

end
