(* ===== verification/Sst_Reader.thy ===== *)
theory Sst_Reader imports Sst_Builder Slices begin

text \<open>
  Reading a table file (\<open>src/src/sstable/reader.rs\<close>): opening it with every bounds and checksum
  check, point lookup through the Bloom filter and the sparse index, and the forward iterator.
\<close>

section \<open>Checked reads\<close>

record sst_reader =
  r_path :: path
  r_index :: "block_handle list"
  r_bloom :: bloom_filter
  r_entries :: u64

definition read_exact :: "'fs storage \<Rightarrow> path \<Rightarrow> nat \<Rightarrow> nat \<Rightarrow> 'fs \<Rightarrow> sst_error + bytes" where
  "read_exact S p off n fs =
     res_then (res_err Storage_failed (st_read_at S p off n fs)) (\<lambda>b.
       if length b \<noteq> n
       then Inl (Corrupt (''short read at offset '' @ dec off @ '': wanted '' @ dec n @ '' bytes, got ''
              @ dec (length b)))
       else Inr b)"

definition verify_crc :: "crc \<Rightarrow> bytes \<Rightarrow> string \<Rightarrow> sst_error + unit" where
  "verify_crc crc b what =
     (if length b < 4 then Inl (Corrupt (what @ '' too short for a crc''))
      else res_then (sub_checked (length b) 4) (\<lambda>n.
           res_then (le_u32_exact (drop n b)) (\<lambda>stored.
           let actual = crc (take n b)
           in if stored \<noteq> actual
              then Inl (Corrupt (what @ '' crc mismatch: stored '' @ hex_u32 stored @ '', computed '' @ hex_u32 actual))
              else Inr ())))"

definition check_region :: "u64 \<Rightarrow> u32 \<Rightarrow> nat \<Rightarrow> string \<Rightarrow> sst_error + unit" where
  "check_region off len limit what =
     (if limit < min (unat off + unat len) (2 ^ 64 - 1)
      then Inl (Corrupt (what @ '' region ['' @ dec (unat off) @ '', +'' @ dec (unat len)
             @ '') runs past data limit '' @ dec limit))
      else Inr ())"

section \<open>Decoding\<close>

definition decode_handle :: "cursor \<Rightarrow> (sst_error + block_handle) \<times> cursor" where
  "decode_handle cur =
     ok_then (cur_u32 cur) (\<lambda>key_len cur.
     ok_then (cur_take (unat key_len) cur) (\<lambda>k cur.
     ok_then (cur_u64 cur) (\<lambda>off cur.
     ok_then (cur_u32 cur) (\<lambda>len cur. (Inr \<lparr>h_first = k, h_off = off, h_len = len\<rparr>, cur)))))"

text \<open>A \<open>BlockHandle\<close> takes 40 bytes; the count comes from the file, and the room for it is reserved
  before the first handle is read.\<close>

definition decode_index :: "bytes \<Rightarrow> sst_error + block_handle list" where
  "decode_index b =
     res_then (without_crc b) (\<lambda>body.
       fst (ok_then (cur_u32 (cur_new body)) (\<lambda>count cur.
            ok_then (with_capacity 40 (unat count), cur) (\<lambda>_ cur.
              repeat_dec decode_handle (unat count) [] cur))))"

definition decode_entry :: "cursor \<Rightarrow> (sst_error + sst_entry) \<times> cursor" where
  "decode_entry cur =
     ok_then (cur_u32 cur) (\<lambda>key_len cur.
     ok_then (cur_take (unat key_len) cur) (\<lambda>key cur.
     ok_then (cur_u64 cur) (\<lambda>sq cur.
     ok_then (cur_u8 cur) (\<lambda>tag cur.
     ok_then
       (if tag = TAG_PUT
        then ok_then (cur_u32 cur) (\<lambda>vlen cur.
             ok_then (cur_take (unat vlen) cur) (\<lambda>v cur. (Inr (Put v), cur)))
        else if tag = TAG_DELETE then (Inr Delete, cur)
        else (Inl (Corrupt (''unknown value tag '' @ dec (unat tag) @ '' in data block'')), cur))
       (\<lambda>v cur. (Inr \<lparr>e_key = key, e_seq = sq, e_value = v\<rparr>, cur))))))"

lemma decode_entry_Inr: "decode_entry c = (Inr e, c') \<Longrightarrow> cur_remaining c' < cur_remaining c"
  unfolding decode_entry_def
  by (auto elim!: ok_then_InrE split: if_splits dest!: cur_take_Inr cur_u32_Inr cur_u64_Inr cur_u8_Inr)

text \<open>\<open>while cur.remaining() > 0\<close>.\<close>

function decode_entries :: "sst_entry list \<Rightarrow> cursor \<Rightarrow> (sst_error + sst_entry list) \<times> cursor" where
  "decode_entries out c =
     ok_then (cur_left c, c) (\<lambda>n c.
       if 0 < n
       then ok_then (decode_entry c) (\<lambda>e c. decode_entries (out @ [e]) c)
       else (Inr out, c))"
  by auto
termination by (relation "measure (\<lambda>(_, c). cur_remaining c)") (auto dest: decode_entry_Inr)

declare decode_entries.simps [simp del]

definition decode_block :: "bytes \<Rightarrow> sst_error + sst_entry list" where
  "decode_block b = fst (decode_entries [] (cur_new b))"

section \<open>Opening\<close>

text \<open>The seven fields of the footer, after its checksum.\<close>

definition decode_footer :: "bytes \<Rightarrow> (sst_error + u64 \<times> u32 \<times> u64 \<times> u32 \<times> u64) \<times> cursor" where
  "decode_footer ft =
     ok_then (cur_u64 (cur_new ft)) (\<lambda>magic cur.
     if magic \<noteq> FOOTER_MAGIC then (Inl (Corrupt ''footer magic mismatch''), cur)
     else ok_then (cur_u32 cur) (\<lambda>version cur.
     if version \<noteq> FORMAT_VERSION
     then (Inl (Corrupt (''unsupported format version '' @ dec (unat version))), cur)
     else ok_then (cur_u64 cur) (\<lambda>index_off cur.
     ok_then (cur_u32 cur) (\<lambda>index_len cur.
     ok_then (cur_u64 cur) (\<lambda>bloom_off cur.
     ok_then (cur_u32 cur) (\<lambda>bloom_len cur.
     ok_then (cur_u64 cur) (\<lambda>num_entries cur.
       (Inr (index_off, index_len, bloom_off, bloom_len, num_entries), cur))))))))"

definition reader_open :: "crc \<Rightarrow> 'fs storage \<Rightarrow> path \<Rightarrow> 'fs \<Rightarrow> sst_error + sst_reader" where
  "reader_open crc S p fs =
     res_then (res_err Storage_failed (st_len S p fs)) (\<lambda>file_len.
     if file_len < FOOTER_SIZE
     then Inl (Corrupt (''file length '' @ dec file_len @ '' is smaller than a footer ('' @ dec FOOTER_SIZE @ '' bytes)''))
     else res_then (sub_checked file_len FOOTER_SIZE) (\<lambda>footer_off.
     res_then (read_exact S p footer_off FOOTER_SIZE fs) (\<lambda>ft.
     res_then (verify_crc crc ft ''footer'') (\<lambda>_.
     res_then (fst (decode_footer ft)) (\<lambda>(index_off, index_len, bloom_off, bloom_len, num_entries).
     res_then (sub_checked file_len FOOTER_SIZE) (\<lambda>footer_start.
     res_then (check_region index_off index_len footer_start ''index'') (\<lambda>_.
     res_then (check_region bloom_off bloom_len footer_start ''bloom'') (\<lambda>_.
     res_then (read_exact S p (unat index_off) (unat index_len) fs) (\<lambda>index_buf.
     res_then (verify_crc crc index_buf ''index'') (\<lambda>_.
     res_then (decode_index index_buf) (\<lambda>index.
     res_then (read_exact S p (unat bloom_off) (unat bloom_len) fs) (\<lambda>bloom_buf.
     res_then (verify_crc crc bloom_buf ''bloom'') (\<lambda>_.
     res_then (without_crc bloom_buf) (\<lambda>bloom_body.
     res_then (fst (bloom_decode (cur_new bloom_body))) (\<lambda>bloom.
       Inr \<lparr>r_path = p, r_index = index, r_bloom = bloom, r_entries = num_entries\<rparr>)))))))))))))))"

section \<open>Point lookup\<close>

definition may_contain :: "hash128 \<Rightarrow> sst_reader \<Rightarrow> bytes \<Rightarrow> bool option" where
  "may_contain xxh r key = bloom_contains xxh (r_bloom r) key"

text \<open>The disjunction is read from the left: \<open>self.index[0]\<close> is reached when the index is not empty,
  and \<open>p - 1\<close> when the first key is not above \<open>key\<close>.\<close>

definition find_block :: "sst_reader \<Rightarrow> bytes \<Rightarrow> sst_error + nat option" where
  "find_block r key =
     (if r_index r = [] then Inr None
      else res_then (nth_checked (r_index r) 0) (\<lambda>h.
        if key < h_first h then Inr None
        else let p = partition_point (\<lambda>h. h_first h \<le> key) (r_index r)
             in res_then (sub_checked p 1) (\<lambda>i. Inr (Some i))))"

definition load_block :: "crc \<Rightarrow> 'fs storage \<Rightarrow> 'fs \<Rightarrow> sst_reader \<Rightarrow> nat \<Rightarrow> sst_error + sst_entry list" where
  "load_block crc S fs r i =
     res_then (nth_checked (r_index r) i) (\<lambda>h.
     res_then (read_exact S (r_path r) (unat (h_off h)) (unat (h_len h)) fs) (\<lambda>raw.
     res_then (verify_crc crc raw ''data block'') (\<lambda>_.
     res_then (without_crc raw) decode_block)))"

definition reader_get ::
  "hash128 \<Rightarrow> crc \<Rightarrow> 'fs storage \<Rightarrow> 'fs \<Rightarrow> sst_reader \<Rightarrow> bytes \<Rightarrow> sst_error + sst_entry option" where
  "reader_get xxh crc S fs r key =
     (case bloom_contains xxh (r_bloom r) key of
        None \<Rightarrow> Inl Panicked
      | Some False \<Rightarrow> Inr None
      | Some True \<Rightarrow>
          res_then (find_block r key) (\<lambda>found. case found of
             None \<Rightarrow> Inr None
           | Some block_idx \<Rightarrow>
               res_then (load_block crc S fs r block_idx) (\<lambda>entries.
                 case binary_search_by (\<lambda>e. cmp (e_key e) key) entries of
                   Inr i \<Rightarrow> res_then (nth_checked entries i) (\<lambda>e. Inr (Some e))
                 | Inl _ \<Rightarrow> Inr None)))"

section \<open>The iterator\<close>

record sst_iter =
  it_reader :: sst_reader
  it_block_idx :: nat
  it_block :: "sst_entry list"
  it_within :: nat
  it_loaded :: bool

definition reader_iter :: "sst_reader \<Rightarrow> sst_iter" where
  "reader_iter r = \<lparr>it_reader = r, it_block_idx = 0, it_block = [], it_within = 0, it_loaded = False\<rparr>"

function iter_next ::
  "crc \<Rightarrow> 'fs storage \<Rightarrow> 'fs \<Rightarrow> sst_iter \<Rightarrow> (sst_error + sst_entry) option \<times> sst_iter" where
  "iter_next crc S fs it =
     (if it_loaded it \<and> it_within it < length (it_block it)
      then (Some (nth_checked (it_block it) (it_within it)), it\<lparr>it_within := it_within it + 1\<rparr>)
      else if length (r_index (it_reader it)) \<le> it_block_idx it then (None, it)
      else case load_block crc S fs (it_reader it) (it_block_idx it) of
             Inr entries \<Rightarrow>
               iter_next crc S fs (it\<lparr>it_block := entries, it_within := 0, it_loaded := True,
                                      it_block_idx := it_block_idx it + 1\<rparr>)
           | Inl e \<Rightarrow>
               (Some (Inl e), it\<lparr>it_block_idx := length (r_index (it_reader it)), it_loaded := False,
                                it_block := []\<rparr>))"
  by auto
termination
  by (relation "measure (\<lambda>(_, _, _, it). length (r_index (it_reader it)) - it_block_idx it)") auto

declare iter_next.simps [simp del]

text \<open>\<open>for entry in reader.iter() { let e = entry?; ... }\<close>: the body updates \<open>acc\<close>. Every call
  of \<open>next\<close> that yields an entry moves the iterator forward.\<close>

definition iter_measure :: "sst_iter \<Rightarrow> nat \<times> nat" where
  "iter_measure it = (length (r_index (it_reader it)) - it_block_idx it,
     if it_loaded it then length (it_block it) - it_within it else 0)"

lemma iter_next_less:
  "iter_next crc S fs it = (Some (Inr e), it') \<Longrightarrow> (iter_measure it', iter_measure it) \<in> less_than <*lex*> less_than"
proof (induction crc S fs it rule: iter_next.induct)
  case (1 crc S fs it)
  show ?case
  proof (cases "it_loaded it \<and> it_within it < length (it_block it)")
    case True
    then show ?thesis using 1(2) by (subst (asm) iter_next.simps) (auto simp: iter_measure_def)
  next
    case False
    then have idx: "\<not> length (r_index (it_reader it)) \<le> it_block_idx it"
      using 1(2) by (subst (asm) iter_next.simps) (auto split: if_splits)
    show ?thesis
    proof (cases "load_block crc S fs (it_reader it) (it_block_idx it)")
      case (Inl err)
      then show ?thesis using 1(2) False idx by (subst (asm) iter_next.simps) auto
    next
      case (Inr es)
      let ?it = "it\<lparr>it_block := es, it_within := 0, it_loaded := True, it_block_idx := it_block_idx it + 1\<rparr>"
      have "iter_next crc S fs ?it = (Some (Inr e), it')"
        using 1(2) False idx Inr by (subst (asm) iter_next.simps) auto
      from 1(1) [OF False idx Inr this]
      have "(iter_measure it', iter_measure ?it) \<in> less_than <*lex*> less_than" .
      moreover have "(iter_measure ?it, iter_measure it) \<in> less_than <*lex*> less_than"
        using idx by (simp add: iter_measure_def less_than_iff not_le diff_less_mono2)
      ultimately show ?thesis using transD [OF trans_lex_prod [OF trans_less_than trans_less_than]] by blast
    qed
  qed
qed

function for_entries ::
  "crc \<Rightarrow> 'fs storage \<Rightarrow> 'fs \<Rightarrow> (sst_entry \<Rightarrow> 'a \<Rightarrow> 'a) \<Rightarrow> 'a \<Rightarrow> sst_iter \<Rightarrow> sst_error + 'a" where
  "for_entries crc S fs body acc it =
     (case iter_next crc S fs it of
        (None, it') \<Rightarrow> Inr acc
      | (Some (Inl e), it') \<Rightarrow> Inl e
      | (Some (Inr e), it') \<Rightarrow> for_entries crc S fs body (body e acc) it')"
  by auto
termination
  by (relation "inv_image (less_than <*lex*> less_than) (\<lambda>(_, _, _, _, _, it). iter_measure it)")
     (auto intro!: wf_inv_image wf_lex_prod dest!: iter_next_less [OF sym])

declare for_entries.simps [simp del]

end
