(* ===== verification/Sst_Read.thy ===== *)
theory Sst_Read imports Sst_Reader Sst_Image begin

text \<open>
  The reader on a file that holds a table: every check passes, the index and the filter come back
  as they were written, a lookup returns the entry of the key if there is one, and the iterator
  returns all entries in order.
\<close>

section \<open>Codecs\<close>

interpretation handle_codec: codec encode_index_entry decode_handle cur_at "\<lambda>h. length (h_first h) < 2 ^ 32"
proof unfold_locales
  fix h :: block_handle and p r assume "length (h_first h) < (2 :: nat) ^ 32"
  then show "decode_handle (cur_at p (encode_index_entry h @ r)) = (Inr h, cur_at (p @ encode_index_entry h) r)"
    by (simp add: decode_handle_def encode_index_entry_def cur_take_at)
qed (rule cur_at_inject)

definition entry_fits :: "sst_entry \<Rightarrow> bool" where
  "entry_fits e \<longleftrightarrow> length (e_key e) < 2 ^ 32 \<and> (case e_value e of Put v \<Rightarrow> length v < 2 ^ 32 | Delete \<Rightarrow> True)"

lemma row_entry_fits: "length (row e) < 2 ^ 32 \<Longrightarrow> entry_fits e"
  by (auto simp: length_row encoded_entry_len_def entry_fits_def split: sst_value.splits)

lemma tags_distinct [simp]: "TAG_DELETE \<noteq> TAG_PUT" "TAG_PUT \<noteq> TAG_DELETE"
  by (simp_all add: TAG_DELETE_def TAG_PUT_def)

interpretation entry_codec: codec row decode_entry cur_at entry_fits
proof unfold_locales
  fix e p r assume "entry_fits e"
  then show "decode_entry (cur_at p (row e @ r)) = (Inr e, cur_at (p @ row e) r)"
    by (cases "e_value e") (simp_all add: decode_entry_def row_def encode_entry_def cur_take_at entry_fits_def)
qed (rule cur_at_inject)

lemma decode_entries_rows:
  "list_all entry_fits es \<Longrightarrow> decode_entries out (cur_at p (rows es)) = (Inr (out @ es), cur_at (p @ rows es) [])"
proof (induction es arbitrary: out p)
  case Nil
  then show ?case by (subst decode_entries.simps) simp
next
  case (Cons e es)
  have "0 < cur_remaining (cur_at p (row e @ rows es))" by simp
  then show ?case
    using Cons entry_codec.dec_enc [of e p "rows es"] by (subst decode_entries.simps) simp
qed

lemma decode_block_rows: "list_all entry_fits es \<Longrightarrow> decode_block (rows es) = Inr es"
  using decode_entries_rows [of es "[]" "[]"] by (simp add: decode_block_def cur_new_at)

lemma verify_with_crc [simp]: "verify_crc crc (with_crc crc b) what = Inr ()"
  by (simp add: verify_crc_def with_crc_def)

lemma take_with_crc [simp]: "n = length b \<Longrightarrow> take n (with_crc crc b) = b"
  by (simp add: with_crc_def)

lemma data_block_simps [simp]:
  "verify_crc crc (data_block crc bs) what = Inr ()" "take (length (data_block crc bs) - 4) (data_block crc bs) = rows bs"
  by (simp_all add: data_block_def)

lemma without_crc_with_crc [simp]: "without_crc (with_crc crc b) = Inr b" "without_crc (data_block crc bs) = Inr (rows bs)"
  by (simp_all add: without_crc_def sub_checked_def data_block_def with_crc_def)

lemma decode_index_block:
  assumes "length ix < 2 ^ 32" and "list_all (\<lambda>h. length (h_first h) < 2 ^ 32) ix"
  shows "decode_index (index_block crc ix) = Inr ix"
proof -
  let ?body = "concat (map encode_index_entry ix)"
  have "repeat_dec decode_handle (length ix) [] (cur_at (u32_le (of_nat (length ix))) ?body)
      = (Inr ix, cur_at (u32_le (of_nat (length ix)) @ ?body) [])"
    using handle_codec.repeat_dec_enc [OF assms(2), of "[]" "u32_le (of_nat (length ix))" "[]"] by simp
  moreover have "cur_u32 (cur_new (u32_le (of_nat (length ix)) @ ?body))
      = (Inr (of_nat (length ix)), cur_at (u32_le (of_nat (length ix))) ?body)"
    using cur_u32_at [of "[]" "of_nat (length ix)" ?body] by (simp add: cur_new_at)
  ultimately show ?thesis
    using assms(1) by (simp add: decode_index_def index_block_def)
qed

lemma decode_footer_footer:
  "fst (decode_footer (footer crc index_off index_len bloom_off bloom_len n))
     = Inr (index_off, index_len, bloom_off, bloom_len, n)"
  by (simp add: decode_footer_def footer_def with_crc_def cur_new_at)

lemma bloom_decode_block:
  assumes "bloom_fits bl"
  shows "fst (bloom_decode (cur_new (take (length (bloom_block crc bl) - 4) (bloom_block crc bl)))) = Inr bl"
  using bloom_codec.dec_enc [OF assms, of "[]" "[]"] by (simp add: bloom_block_def cur_new_at)

section \<open>Tables\<close>

text \<open>The hypotheses under which a divided list of entries is a readable table.\<close>

definition table_ok :: "bloom_filter \<Rightarrow> sst_entry list list \<Rightarrow> bool" where
  "table_ok bl bss \<longleftrightarrow> [] \<notin> set bss \<and> sorted_wrt (<) (map e_key (concat bss)) \<and> table_fits (concat bss)
     \<and> bloom_fits bl"

lemma table_ok_entry:
  assumes "table_ok bl bss" and "bs \<in> set bss"
  shows "list_all entry_fits bs"
proof -
  have "table_fits bs" using block_fits assms by (auto simp: table_ok_def)
  then show ?thesis using row_fits row_entry_fits by (fastforce simp: list_all_iff)
qed

lemma table_ok_handles:
  assumes "table_ok bl bss"
  shows "list_all (\<lambda>h. length (h_first h) < 2 ^ 32) (handles crc off bss)" and "length bss < 2 ^ 32"
proof -
  have k: "length (e_key (hd bs)) < 2 ^ 32" if "bs \<in> set bss" for bs
  proof -
    have "bs \<noteq> []" using assms that by (auto simp: table_ok_def)
    then have "entry_fits (hd bs)" using table_ok_entry [OF assms that] by (simp add: list_all_iff)
    then show ?thesis by (simp add: entry_fits_def)
  qed
  have "list_all (\<lambda>h. length (h_first h) < 2 ^ 32) (handles crc off css)" if "set css \<subseteq> set bss" for css
    using that k by (induction css arbitrary: off) auto
  then show "list_all (\<lambda>h. length (h_first h) < 2 ^ 32) (handles crc off bss)" by blast
  have "length bss \<le> length (concat bss)" if "[] \<notin> set bss"
    using that
  proof (induction bss)
    case (Cons b bss)
    then show ?case by (cases b) auto
  qed simp
  then show "length bss < 2 ^ 32"
    using assms length_le_table_size [of "concat bss"] by (simp add: table_ok_def table_fits_def)
qed

lemma table_sizes:
  assumes "table_ok bl bss"
  shows "length (data_part crc bss) < 2 ^ 32" and "length (index_block crc (handles crc off bss)) < 2 ^ 32"
    and "length (bloom_block crc bl) < 2 ^ 32" and "length (concat bss) < 2 ^ 32"
    and "bs \<in> set bss \<Longrightarrow> length (data_block crc bs) < 2 ^ 32"
proof -
  have t: "table_size (concat bss) < 2 ^ 32" "[] \<notin> set bss" using assms by (auto simp: table_ok_def table_fits_def)
  show "length (data_part crc bss) < 2 ^ 32" using data_part_size [OF t(2), of crc] t(1) by simp
  show "length (index_block crc (handles crc off bss)) < 2 ^ 32" using index_block_size [OF t(2), of crc off] t(1) by simp
  show "length (bloom_block crc bl) < 2 ^ 32"
    using bloom_fits_lengths(1) [of bl] assms by (simp add: bloom_block_size table_ok_def)
  show "length (concat bss) < 2 ^ 32" using length_le_table_size [of "concat bss"] t(1) by simp
  assume "bs \<in> set bss"
  then have "table_fits bs" using block_fits assms by (auto simp: table_ok_def)
  then show "length (data_block crc bs) < 2 ^ 32" using data_block_size [of crc bs] by (simp add: table_fits_def)
qed

text \<open>The fields of the index.\<close>

lemma handles_nth:
  "i < length bss \<Longrightarrow> handles crc off bss ! i =
     \<lparr>h_first = e_key (hd (bss ! i)), h_off = of_nat (off + length (data_part crc (take i bss))),
       h_len = of_nat (length (data_block crc (bss ! i)))\<rparr>"
proof (induction bss arbitrary: off i)
  case (Cons b bss)
  then show ?case by (cases i) (auto simp: add.assoc)
qed simp

lemma data_part_split:
  assumes "i < length bss"
  shows "data_part crc bss = data_part crc (take i bss) @ data_block crc (bss ! i) @ data_part crc (drop (Suc i) bss)"
  using arg_cong [where f = "data_part crc", OF id_take_nth_drop [OF assms]] by simp

section \<open>Lookup in the index\<close>

lemma concat_sorted_nth:
  assumes "sorted_wrt (<) (map e_key (concat bss))" and "i < j" "j < length bss"
    and "x \<in> set (bss ! i)" "y \<in> set (bss ! j)"
  shows "e_key x < e_key y"
proof -
  have eq: "concat bss = concat (take j bss) @ concat (drop j bss)"
    by (simp flip: concat_append)
  have "bss ! i \<in> set (take j bss)"
    using assms(2,3) by (auto simp: in_set_conv_nth intro: exI [of _ i])
  then have x: "x \<in> set (concat (take j bss))" using assms(4) by auto
  have "bss ! j \<in> set (drop j bss)"
    using assms(3) by (auto simp: in_set_conv_nth intro!: exI [of _ 0])
  then have y: "y \<in> set (concat (drop j bss))" using assms(5) by auto
  have "\<forall>a\<in>e_key ` set (concat (take j bss)). \<forall>b\<in>e_key ` set (concat (drop j bss)). a < b"
    using assms(1) unfolding eq map_append sorted_wrt_append set_map by blast
  then show ?thesis using x y by blast
qed

lemma block_sorted:
  assumes "sorted_wrt (<) (map e_key (concat bss))" and "bs \<in> set bss"
  shows "sorted_wrt (<) (map e_key bs)"
proof -
  obtain xs ys where "bss = xs @ bs # ys" using assms(2) by (meson split_list)
  then show ?thesis using assms(1) by (simp add: sorted_wrt_append)
qed

lemma hd_block_le:
  assumes "sorted_wrt (<) (map e_key bs)" and "x \<in> set bs"
  shows "e_key (hd bs) \<le> e_key x"
  using assms by (cases bs) auto

lemma find_block_spec:
  assumes ok: "table_ok bl bss" and r: "r_index r = handles crc off bss"
  shows "case find_block r key of
      Inl e \<Rightarrow> False
    | Inr None \<Rightarrow> \<forall>e\<in>set (concat bss). e_key e \<noteq> key
    | Inr (Some i) \<Rightarrow> i < length bss \<and> (\<forall>j < length bss. \<forall>e\<in>set (bss ! j). e_key e = key \<longrightarrow> j = i)"
proof -
  have s: "sorted_wrt (<) (map e_key (concat bss))" and ne: "[] \<notin> set bss" using ok by (auto simp: table_ok_def)
  have hd: "hd (bss ! j) \<in> set (bss ! j)" if "j < length bss" for j
    using ne that by (metis hd_in_set nth_mem)
  have first: "h_first (r_index r ! j) = e_key (hd (bss ! j))" if "j < length bss" for j
    using that by (simp add: r handles_nth)
  have len: "length (r_index r) = length bss" by (simp add: r)
  show ?thesis
  proof (cases "r_index r = [] \<or> key < h_first (r_index r ! 0)")
    case True
    have "e_key e \<noteq> key" if e: "e \<in> set (concat bss)" for e
    proof -
      obtain bs where "bs \<in> set bss" "e \<in> set bs" using e by auto
      then obtain j where j: "j < length bss" "e \<in> set (bss ! j)" by (metis in_set_conv_nth)
      then have "bss \<noteq> []" by auto
      then have k: "key < e_key (hd (bss ! 0))" using True len first [of 0] by auto
      have "e_key (hd (bss ! 0)) \<le> e_key e"
      proof (cases "j = 0")
        case True
        then show ?thesis using hd_block_le [OF block_sorted [OF s]] j by simp
      next
        case False
        then have "e_key (hd (bss ! 0)) < e_key e"
          using j hd [of 0] \<open>bss \<noteq> []\<close> by (intro concat_sorted_nth [OF s, of 0 j]) auto
        then show ?thesis by simp
      qed
      then show ?thesis using k by auto
    qed
    then show ?thesis using True by (auto simp: find_block_def)
  next
    case False
    let ?P = "\<lambda>h. h_first h \<le> key"
    let ?p = "partition_point ?P (r_index r)"
    have mono: "?P (r_index r ! a)" if "a < b" "b < length (r_index r)" "?P (r_index r ! b)" for a b
    proof -
      have "e_key (hd (bss ! a)) < e_key (hd (bss ! b))"
        using that hd [of a] hd [of b] by (intro concat_sorted_nth [OF s \<open>a < b\<close>]) (auto simp: len)
      then show ?thesis using that first [of a] first [of b] by (simp add: len)
    qed
    have p: "?p \<le> length bss" "\<And>i. i < length bss \<Longrightarrow> ?P (r_index r ! i) \<longleftrightarrow> i < ?p"
      using partition_point_split [of "r_index r" ?P, OF mono] by (simp_all add: len)
    have b0: "0 < length bss" using False len by auto
    then have p0: "0 < ?p" using p(2) [of 0] False by (auto simp: not_less)
    have "j = ?p - 1" if j: "j < length bss" "e \<in> set (bss ! j)" "e_key e = key" for j e
    proof -
      have "?P (r_index r ! j)"
        using hd_block_le [OF block_sorted [OF s] j(2)] j first [of j] by simp
      then have "j < ?p" using p(2) j(1) by simp
      moreover have "\<not> j < ?p - 1"
      proof
        assume lt: "j < ?p - 1"
        then have "?P (r_index r ! (?p - 1))" using p(1) p(2) [of "?p - 1"] p0 by simp
        then have "e_key (hd (bss ! (?p - 1))) \<le> key" using first [of "?p - 1"] p(1) p0 by simp
        moreover have "e_key e < e_key (hd (bss ! (?p - 1)))"
          using p(1) p0 hd [of "?p - 1"] j(2) by (intro concat_sorted_nth [OF s lt]) auto
        ultimately show False using j(3) by simp
      qed
      ultimately show ?thesis by simp
    qed
    moreover have "?p - 1 < length bss" using p(1) p0 by simp
    ultimately show ?thesis using False p0 by (auto simp: find_block_def Suc_le_eq)
  qed
qed

section \<open>The reader of a table\<close>

definition table_reader :: "crc \<Rightarrow> path \<Rightarrow> bloom_filter \<Rightarrow> sst_entry list list \<Rightarrow> sst_reader" where
  "table_reader crc p bl bss =
     \<lparr>r_path = p, r_index = handles crc 0 bss, r_bloom = bl, r_entries = of_nat (length (concat bss))\<rparr>"

lemma check_region_ok: "unat off + unat len \<le> limit \<Longrightarrow> check_region off len limit what = Inr ()"
  by (simp add: check_region_def)

text \<open>The iterator, positioned after \<open>m\<close> blocks and \<open>w\<close> entries of the block loaded last.\<close>

lemma for_entries_block:
  "it_loaded it \<Longrightarrow> it_within it \<le> length (it_block it) \<Longrightarrow>
    for_entries crc S fs body acc it
      = for_entries crc S fs body (fold body (drop (it_within it) (it_block it)) acc)
          (it\<lparr>it_within := length (it_block it)\<rparr>)"
proof (induction "length (it_block it) - it_within it" arbitrary: it acc)
  case 0
  then show ?case by simp
next
  case (Suc n)
  then have lt: "it_within it < length (it_block it)" by simp
  let ?e = "it_block it ! it_within it"
  let ?it = "it\<lparr>it_within := it_within it + 1\<rparr>"
  have "iter_next crc S fs it = (Some (Inr ?e), ?it)"
    using Suc.prems(1) lt by (subst iter_next.simps) simp
  then have "for_entries crc S fs body acc it = for_entries crc S fs body (body ?e acc) ?it"
    by (subst for_entries.simps) simp
  also have "\<dots> = for_entries crc S fs body (fold body (drop (it_within ?it) (it_block ?it)) (body ?e acc))
      (?it\<lparr>it_within := length (it_block ?it)\<rparr>)"
    using Suc.hyps(2) Suc.prems(1) lt by (intro Suc.hyps(1)) simp_all
  also have "fold body (drop (it_within ?it) (it_block ?it)) (body ?e acc) = fold body (drop (it_within it) (it_block it)) acc"
    using lt by (simp flip: Cons_nth_drop_Suc)
  finally show ?case by simp
qed

lemma find_key: "distinct (map f xs) \<Longrightarrow> x \<in> set xs \<Longrightarrow> find (\<lambda>y. f y = f x) xs = Some x"
  by (induction xs) auto

context read_fs
begin

lemma read_exact_at:
  assumes "ok s" and "view s p = Some (pre @ x @ post)" and "off = length pre" and "n = length x"
  shows "read_exact S p off n s = Inr x"
  using fs_read_at [OF assms(1,2), of off n] assms(3,4) by (simp add: read_exact_def)

lemma reader_open_table:
  assumes s: "ok s" and v: "view s p = Some (table_image crc bl bss)" and t: "table_ok bl bss"
  shows "reader_open crc S p s = Inr (table_reader crc p bl bss)"
proof -
  let ?data = "data_part crc bss" let ?ix = "index_block crc (handles crc 0 bss)"
  let ?bl = "bloom_block crc bl"
  let ?ft = "footer crc (of_nat (length ?data)) (of_nat (length ?ix)) (of_nat (length ?data + length ?ix))
    (of_nat (length ?bl)) (of_nat (length (concat bss)))"
  note sz = table_sizes(1-3) [OF t, of crc]
  have u: "unat (of_nat (length ?data) :: u64) = length ?data" "unat (of_nat (length ?ix) :: u32) = length ?ix"
    "unat (of_nat (length ?data + length ?ix) :: u64) = length ?data + length ?ix"
    "unat (of_nat (length ?bl) :: u32) = length ?bl"
    using sz(1,3) sz(2) [of 0] by (intro unat_of_nat_64 unat_of_nat_32, simp)+
  have img: "table_image crc bl bss = ?data @ ?ix @ ?bl @ ?ft" by (simp add: table_image_def Let_def)
  have len: "length (table_image crc bl bss) = length ?data + length ?ix + length ?bl + FOOTER_SIZE"
    by (simp add: img)
  have ft: "read_exact S p (length ?data + length ?ix + length ?bl) FOOTER_SIZE s = Inr ?ft"
    by (rule read_exact_at [OF s, where pre = "?data @ ?ix @ ?bl" and post = "[]"]) (simp_all add: v img)
  have ix: "read_exact S p (length ?data) (length ?ix) s = Inr ?ix"
    by (rule read_exact_at [OF s, where pre = "?data" and post = "?bl @ ?ft"]) (simp_all add: v img)
  have bl: "read_exact S p (length ?data + length ?ix) (length ?bl) s = Inr ?bl"
    by (rule read_exact_at [OF s, where pre = "?data @ ?ix" and post = "?ft"]) (simp_all add: v img)
  have reg: "check_region (of_nat (length ?data)) (of_nat (length ?ix)) (length ?data + length ?ix + length ?bl) ''index'' = Inr ()"
    "check_region (of_nat (length ?data + length ?ix)) (of_nat (length ?bl)) (length ?data + length ?ix + length ?bl) ''bloom'' = Inr ()"
    by (rule check_region_ok; simp only: u; simp)+
  have crc: "verify_crc crc ?ft what = Inr ()" "verify_crc crc ?ix what = Inr ()" "verify_crc crc ?bl what = Inr ()" for what
    by (simp_all add: footer_def index_block_def bloom_block_def)
  have dix: "decode_index ?ix = Inr (handles crc 0 bss)"
    using table_ok_handles [OF t] by (intro decode_index_block) simp_all
  have wb: "without_crc ?bl = Inr (take (length ?bl - 4) ?bl)" by (simp add: bloom_block_def)
  have dbl: "fst (bloom_decode (cur_new (take (length ?bl - 4) ?bl))) = Inr bl"
    using t by (intro bloom_decode_block) (simp add: table_ok_def)
  show ?thesis
    unfolding reader_open_def fs_len [OF s] v option.case len res_err_simps res_then_simps
    by (simp add: ft crc decode_footer_footer reg u ix dix bl wb dbl Let_def table_reader_def del: of_nat_add)
qed

lemma load_block_table:
  assumes s: "ok s" and v: "view s p = Some (table_image crc bl bss)" and t: "table_ok bl bss" and i: "i < length bss"
  shows "load_block crc S s (table_reader crc p bl bss) i = Inr (bss ! i)"
proof -
  let ?pre = "data_part crc (take i bss)" let ?b = "data_block crc (bss ! i)"
  obtain post where img: "table_image crc bl bss = ?pre @ ?b @ post"
    using data_part_split [OF i, of crc] by (simp add: table_image_def Let_def)
  have m: "bss ! i \<in> set bss" using i by simp
  have "length ?pre \<le> length (data_part crc bss)"
    using data_part_split [OF i, of crc] by simp
  then have u: "unat (of_nat (length ?pre) :: u64) = length ?pre" "unat (of_nat (length ?b) :: u32) = length ?b"
    using table_sizes(1) [OF t, of crc] table_sizes(5) [OF t m, of crc] by (simp_all add: unat_of_nat)
  have "read_exact S p (length ?pre) (length ?b) s = Inr ?b"
    by (rule read_exact_at [OF s, where pre = ?pre and post = post]) (simp_all add: v img)
  then show ?thesis
    using i table_ok_entry [OF t m]
    by (simp add: load_block_def table_reader_def handles_nth u decode_block_rows Let_def)
qed

text \<open>A lookup is exact when the filter reports the keys of the table as present.\<close>

lemma reader_get_table:
  assumes s: "ok s" and v: "view s p = Some (table_image crc bl bss)" and t: "table_ok bl bss"
    and member: "\<And>e. e \<in> set (concat bss) \<Longrightarrow> bloom_contains xxh bl (e_key e) = Some True"
  shows "reader_get xxh crc S s (table_reader crc p bl bss) key = Inr (find (\<lambda>e. e_key e = key) (concat bss))"
proof -
  let ?r = "table_reader crc p bl bss"
  have sorted: "sorted_wrt (<) (map e_key (concat bss))" and fits: "bloom_fits bl" using t by (auto simp: table_ok_def)
  have uniq: "find (\<lambda>e. e_key e = key) (concat bss) = Some e" if "e \<in> set (concat bss)" "e_key e = key" for e
    using find_key [of e_key "concat bss" e] sorted that by (simp only: strict_sorted_iff)
  have none: "find (\<lambda>e. e_key e = key) (concat bss) = None" if "\<forall>e\<in>set (concat bss). e_key e \<noteq> key"
    using that by (simp only: find_None_iff not_False_eq_True bex_simps) blast
  obtain c where c: "bloom_contains xxh bl key = Some c"
    using bloom_contains_set [OF bloom_fits_ok [OF fits]] by blast
  have rb: "r_bloom ?r = bl" "r_index ?r = handles crc 0 bss" by (simp_all add: table_reader_def)
  show ?thesis
  proof (cases c)
    case False
    then have "\<forall>e\<in>set (concat bss). e_key e \<noteq> key" using member c by fastforce
    then show ?thesis using False c none by (simp add: reader_get_def rb)
  next
    case True
    note fb = find_block_spec [OF t rb(2), of key]
    then consider (None) "find_block ?r key = Inr None" | (Some) i where "find_block ?r key = Inr (Some i)"
      by (auto split: sum.splits option.splits)
    then show ?thesis
    proof cases
      case None
      then show ?thesis using fb True c none by (simp add: reader_get_def rb)
    next
      case (Some i)
      then have i: "i < length bss" and only: "\<And>j e. j < length bss \<Longrightarrow> e \<in> set (bss ! j) \<Longrightarrow> e_key e = key \<Longrightarrow> j = i"
        using fb by auto
      have l: "load_block crc S s ?r i = Inr (bss ! i)" by (rule load_block_table [OF s v t i])
      have m: "bss ! i \<in> set bss" using i by simp
      note bs = binary_search_key [OF block_sorted [OF sorted m], of key]
      show ?thesis
      proof (cases "binary_search_by (\<lambda>e. cmp (e_key e) key) (bss ! i)")
        case (Inr k)
        then have k: "k < length (bss ! i)" "e_key (bss ! i ! k) = key" using bs by simp_all
        then have "bss ! i ! k \<in> set (bss ! i)" by simp
        then have "bss ! i ! k \<in> set (concat bss)" using m by auto
        then have "find (\<lambda>e. e_key e = key) (concat bss) = Some (bss ! i ! k)" using uniq k(2) by blast
        then show ?thesis using True c Some l Inr k(1) by (simp add: reader_get_def rb)
      next
        case (Inl k)
        then have no: "\<forall>e\<in>set (bss ! i). e_key e \<noteq> key" using bs by simp
        have "\<forall>e\<in>set (concat bss). e_key e \<noteq> key"
        proof
          fix e assume "e \<in> set (concat bss)"
          then obtain j where "j < length bss" "e \<in> set (bss ! j)" by (metis UN_E in_set_conv_nth set_concat)
          then show "e_key e \<noteq> key" using only no by blast
        qed
        then show ?thesis using True c Some l Inl none by (simp add: reader_get_def rb)
      qed
    qed
  qed
qed

text \<open>The loop over the iterator visits every entry, block by block.\<close>

lemma for_entries_blocks:
  assumes s: "ok s" and v: "view s p = Some (table_image crc bl bss)" and t: "table_ok bl bss"
    and it: "it_reader it = table_reader crc p bl bss" "it_block_idx it = i" "i \<le> length bss"
      "it_loaded it \<Longrightarrow> length (it_block it) \<le> it_within it"
  shows "for_entries crc S s body acc it = Inr (fold body (concat (drop i bss)) acc)"
  using it
proof (induction "length bss - i" arbitrary: it acc i)
  case 0
  then have "iter_next crc S s it = (None, it)"
    by (subst iter_next.simps) (auto simp: table_reader_def)
  then show ?case using 0 by (subst for_entries.simps) simp
next
  case (Suc n)
  then have i: "i < length bss" by simp
  let ?it = "it\<lparr>it_block := bss ! i, it_within := 0, it_loaded := True, it_block_idx := i + 1\<rparr>"
  have l: "load_block crc S s (it_reader it) i = Inr (bss ! i)"
    using load_block_table [OF s v t i] Suc.prems(1) by simp
  have "iter_next crc S s it = iter_next crc S s ?it"
    using Suc.prems i l by (subst iter_next.simps) (auto simp: table_reader_def)
  then have "for_entries crc S s body acc it = for_entries crc S s body acc ?it"
    by (subst (1 2) for_entries.simps) simp
  also have "\<dots> = for_entries crc S s body (fold body (bss ! i) acc) (?it\<lparr>it_within := length (bss ! i)\<rparr>)"
    using for_entries_block [of ?it crc S s body acc] by simp
  also have "\<dots> = Inr (fold body (concat (drop (Suc i) bss)) (fold body (bss ! i) acc))"
    using Suc.hyps(2) Suc.prems i by (intro Suc.hyps(1)) auto
  finally show ?case using i by (simp flip: Cons_nth_drop_Suc)
qed

lemma for_entries_table:
  assumes "ok s" and "view s p = Some (table_image crc bl bss)" and "table_ok bl bss"
  shows "for_entries crc S s body acc (reader_iter (table_reader crc p bl bss)) = Inr (fold body (concat bss) acc)"
  using for_entries_blocks [OF assms, of "reader_iter (table_reader crc p bl bss)" 0] by (simp add: reader_iter_def)

end

end
