(* ===== verification/Sst_Table.thy ===== *)
theory Sst_Table imports Sst_Write Sst_Read Testkit begin

text \<open>
  Tables from end to end: what the builder leaves is what the reader serves. \<open>reader_of\<close> is a
  reader of a finished table; it stays valid for as long as the file does, whatever else happens on
  the backend.
\<close>

definition reader_of :: "hash128 \<Rightarrow> crc \<Rightarrow> path \<Rightarrow> sst_entry list \<Rightarrow> bytes \<Rightarrow> sst_reader \<Rightarrow> bool" where
  "reader_of xxh crc p es img r \<longleftrightarrow> (\<exists>bl bss. r = table_reader crc p bl bss \<and> img = table_image crc bl bss
     \<and> concat bss = es \<and> table_ok bl bss \<and> (\<forall>e\<in>set es. bloom_contains xxh bl (e_key e) = Some True))"

context read_fs
begin

lemma reader_open_holds:
  assumes "ok s" and "view s p = Some img" and "holds_table xxh crc es img"
  obtains r where "reader_open crc S p s = Inr r" and "reader_of xxh crc p es img r"
proof -
  obtain bl bss where t: "img = table_image crc bl bss" "concat bss = es" "[] \<notin> set bss"
    "sorted_wrt (<) (map e_key es)" "table_fits es" "bloom_fits bl"
    "\<forall>e\<in>set es. bloom_contains xxh bl (e_key e) = Some True"
    using assms(3) unfolding holds_table_def by blast
  then have ok: "table_ok bl bss" by (simp add: table_ok_def)
  have "reader_open crc S p s = Inr (table_reader crc p bl bss)"
    using assms(1,2) t(1) ok by (intro reader_open_table) simp_all
  moreover have "reader_of xxh crc p es img (table_reader crc p bl bss)"
    unfolding reader_of_def using t ok by blast
  ultimately show ?thesis by (rule that)
qed

lemma reader_of_get:
  assumes "ok s" and "view s p = Some img" and "reader_of xxh crc p es img r"
  shows "reader_get xxh crc S s r key = Inr (find (\<lambda>e. e_key e = key) es)"
  using assms by (auto simp: reader_of_def intro: reader_get_table)

lemma reader_of_iter:
  assumes "ok s" and "view s p = Some img" and "reader_of xxh crc p es img r"
  shows "for_entries crc S s body acc (reader_iter r) = Inr (fold body es acc)"
  using assms by (auto simp: reader_of_def for_entries_table)

end

lemma reader_of_entries: "reader_of xxh crc p es img r \<Longrightarrow> unat (r_entries r) = length es"
  using table_sizes(4) by (fastforce simp: reader_of_def table_reader_def)

section \<open>Properties\<close>

text \<open>C35 (table_roundtrip): a table built from strictly ascending entries on a running backend
  opens, reports the number of its entries, returns for every key exactly the entry stored under it
  (or none), and iterates over all entries in order. The hypotheses bound the table by the 32-bit
  lengths of its format.\<close>

theorem table_roundtrip:
  assumes "sim_ok st" and "sim_view st p = None"
    and "sorted_wrt (<) (map e_key es)" and "table_fits es" and "bloom_bits n bpk < 2 ^ 32"
  shows "\<exists>img st' r. build_table xxh crc (sim_storage G) p n bpk es st = (Inr (summary_of es img), st')
    \<and> sim_view st' = (sim_view st)(p \<mapsto> img)
    \<and> reader_open crc (sim_storage G) p st' = Inr r \<and> r_entries r = of_nat (length es)
    \<and> (\<forall>k. reader_get xxh crc (sim_storage G) st' r k = Inr (find (\<lambda>e. e_key e = k) es))
    \<and> for_entries crc (sim_storage G) st' (\<lambda>e out. out @ [e]) [] (reader_iter r) = Inr es"
proof -
  obtain res st' where b: "build_table xxh crc (sim_storage G) p n bpk es st = (res, st')" by force
  have "runs sim_ok sim_disk (\<lambda>_ _. False) (build_table xxh crc (sim_storage G) p n bpk es) (\<lambda>_. True)
      (\<lambda>r D. \<exists>img. r = Inr (summary_of es img) \<and> holds_table xxh crc es img \<and> D = disk_file p img img (sim_disk st)) st"
    by (rule crash_fs.runs_build_table [OF sim_run.crash_fs_axioms assms(1) _ assms(3-5)]) (use assms(2) in auto)
  then obtain img where img: "res = Inr (summary_of es img)" "holds_table xxh crc es img"
    and ok: "sim_ok st'" and D: "sim_disk st' = disk_file p img img (sim_disk st)"
    by (auto simp: runs_def b)
  have v: "sim_view st' = (sim_view st)(p \<mapsto> img)"
    using arg_cong [OF D, of d_view] by simp
  then have vp: "sim_view st' p = Some img" by simp
  obtain r where r: "reader_open crc (sim_storage G) p st' = Inr r" "reader_of xxh crc p es img r"
    using read_fs.reader_open_holds [OF sim.read_fs_axioms ok vp img(2)] by blast
  have "fold (\<lambda>e out. out @ [e]) es acc = acc @ es" for acc :: "sst_entry list"
    by (induction es arbitrary: acc) auto
  then have "for_entries crc (sim_storage G) st' (\<lambda>e out. out @ [e]) [] (reader_iter r) = Inr es"
    by (simp add: read_fs.reader_of_iter [OF sim.read_fs_axioms ok vp r(2)])
  moreover have "reader_get xxh crc (sim_storage G) st' r k = Inr (find (\<lambda>e. e_key e = k) es)" for k
    using read_fs.reader_of_get [OF sim.read_fs_axioms ok vp r(2)] .
  moreover have "r_entries r = of_nat (length es)" using r(2) by (auto simp: reader_of_def table_reader_def)
  ultimately show ?thesis using b img(1) v r(1) by blast
qed

definition demo_entries :: "sst_entry list" where
  "demo_entries = [\<lparr>e_key = [1], e_seq = 4, e_value = Put [9, 9]\<rparr>, \<lparr>e_key = [1, 0], e_seq = 2, e_value = Delete\<rparr>]"

lemma demo_entries_fit: "sorted_wrt (<) (map e_key demo_entries)" "table_fits demo_entries" "bloom_bits 2 10 < 2 ^ 32"
  by (simp_all add: demo_entries_def table_fits_def table_size_def length_row encoded_entry_len_def bloom_bits_def
      saturating_mul_def div_ceil_def)

theorem table_roundtrip_witness:
  "\<exists>img st' r. build_table (\<lambda>k. of_nat (length k)) (\<lambda>b. of_nat (length b)) (sim_storage (\<lambda>r n. (r, r))) [''t''] 2 10
      demo_entries (sim_new (\<lambda>_. 0) 0) = (Inr (summary_of demo_entries img), st' :: nat sim_state)
    \<and> reader_get (\<lambda>k. of_nat (length k)) (\<lambda>b. of_nat (length b)) (sim_storage (\<lambda>r n. (r, r))) st' r [1]
        = Inr (Some \<lparr>e_key = [1], e_seq = 4, e_value = Put [9, 9]\<rparr>)"
proof -
  have "sim_ok (sim_new (\<lambda>_. 0) 0 :: nat sim_state)" "sim_view (sim_new (\<lambda>_. 0) 0 :: nat sim_state) [''t''] = None"
    by (simp_all add: sim_new_ok)
  from table_roundtrip [OF this demo_entries_fit, of "\<lambda>k. of_nat (length k)" "\<lambda>b. of_nat (length b)" "\<lambda>r n. (r, r)"]
  obtain img st' r where "build_table (\<lambda>k. of_nat (length k)) (\<lambda>b. of_nat (length b)) (sim_storage (\<lambda>r n. (r, r)))
      [''t''] 2 10 demo_entries (sim_new (\<lambda>_. 0) 0) = (Inr (summary_of demo_entries img), st' :: nat sim_state)"
    and "\<forall>k. reader_get (\<lambda>k. of_nat (length k)) (\<lambda>b. of_nat (length b)) (sim_storage (\<lambda>r n. (r, r))) st' r k
      = Inr (find (\<lambda>e. e_key e = k) demo_entries)" by blast
  then show ?thesis by (auto simp: demo_entries_def intro!: exI [of _ img] exI [of _ r])
qed

text \<open>C36 (table_build_invisible): while a table is being built, a power loss at any operation shows
  none of it: either the table is complete and synced, or every path survives as it would have
  before the build started.\<close>

theorem table_build_invisible:
  assumes "inj_up G h" and "d_view (inj_disk h) p = None"
    and "sorted_wrt (<) (map e_key es)" and "table_fits es" and "bloom_bits n bpk < 2 ^ 32"
    and run: "build_table xxh crc (injector G) p n bpk es h = (r, h')"
  shows "inj_up G h' \<and> (\<exists>img. r = Inr (summary_of es img) \<and> holds_table xxh crc es img
      \<and> inj_disk h' = disk_file p img img (inj_disk h))
    \<or> halted h' \<and> (\<forall>q. inj_survivor h' q \<in> d_images (inj_disk h) q)"
proof -
  have "runs (inj_up G) inj_disk (inj_down G) (build_table xxh crc (injector G) p n bpk es)
      (\<lambda>D. d_images D = d_images (inj_disk h))
      (\<lambda>r D. \<exists>img. r = Inr (summary_of es img) \<and> holds_table xxh crc es img \<and> D = disk_file p img img (inj_disk h)) h"
    by (rule crash_fs.runs_build_table [OF inj.crash_fs_axioms assms(1-5)]) auto
  then show ?thesis
    using inj.cf_survivor unfolding runs_def run by (fastforce simp: inj_down_def)
qed

theorem table_build_invisible_witness:
  "\<exists>r h'. build_table (\<lambda>k. of_nat (length k)) (\<lambda>b. of_nat (length b)) (injector first_choice) [''t''] 2 10 demo_entries
      (injector_new (arm_crash_after 2 (sim_new (\<lambda>_. 0) 0))) = (r, h')
    \<and> (inj_up first_choice h' \<or> halted h')"
proof -
  let ?h = "injector_new (arm_crash_after 2 (sim_new (\<lambda>_. 0) 0)) :: nat injector"
  have up: "inj_up first_choice ?h" and v: "d_view (inj_disk ?h) [''t''] = None"
    using injector_new_up [OF first_choice_ok sim_new_ok(1,3)] by (simp_all add: sim_new_ok)
  obtain r h' where b: "build_table (\<lambda>k. of_nat (length k)) (\<lambda>b. of_nat (length b)) (injector first_choice) [''t''] 2 10
      demo_entries ?h = (r, h')" by force
  from table_build_invisible [OF up v demo_entries_fit b] b show ?thesis by blast
qed

text \<open>A key that is not greater than the last one is refused with
  \<open>Unsorted\<close>, and neither the builder nor the backend changes.\<close>

theorem builder_rejects_unsorted:
  assumes "b_last b = Some prev" and "k \<le> prev"
  shows "builder_add xxh crc S k sq v (b, s) = (Inl Unsorted, (b, s))"
  using assms by (simp add: builder_add_def)

theorem builder_rejects_unsorted_witness:
  "builder_add (\<lambda>_. 0) (\<lambda>_. 0) (sim_storage first_choice) [3] 1 Delete
     ((new_builder [''t''] 1 10)\<lparr>b_last := Some [3]\<rparr>, sim_new (\<lambda>_. 0) 0)
   = (Inl Unsorted, ((new_builder [''t''] 1 10)\<lparr>b_last := Some [3]\<rparr>, sim_new (\<lambda>_. 0) 0))"
  by (rule builder_rejects_unsorted [where prev = "[3]"]) simp_all

end
