(* ===== verification/Memtable.thy ===== *)
theory Memtable imports Ordered_Map begin

text \<open>
  The in-memory write buffer (\<open>src/src/memtable/mod.rs\<close>): versioned values, one sorted table with
  its byte accounting, and the set of one active and several frozen tables. A frozen table is shared
  as an \<open>Arc\<close>; its identity is a number, so that \<open>Arc::ptr_eq\<close> compares numbers.
\<close>

section \<open>Versioned values\<close>

datatype value_kind = Value bytes | Tombstone

record internal_value =
  seq :: u64
  kind :: value_kind

type_synonym entry = "bytes \<times> internal_value"

definition iv_value :: "u64 \<Rightarrow> bytes \<Rightarrow> internal_value" where
  "iv_value s v = \<lparr>seq = s, kind = Value v\<rparr>"

definition iv_tombstone :: "u64 \<Rightarrow> internal_value" where
  "iv_tombstone s = \<lparr>seq = s, kind = Tombstone\<rparr>"

definition is_tombstone :: "internal_value \<Rightarrow> bool" where
  "is_tombstone v = (case kind v of Tombstone \<Rightarrow> True | Value _ \<Rightarrow> False)"

definition as_value :: "internal_value \<Rightarrow> bytes option" where
  "as_value v = (case kind v of Value b \<Rightarrow> Some b | Tombstone \<Rightarrow> None)"

definition payload_bytes :: "internal_value \<Rightarrow> nat" where
  "payload_bytes v = (case kind v of Value b \<Rightarrow> length b | Tombstone \<Rightarrow> 0)"

section \<open>One table\<close>

record memtable =
  mmap :: "(bytes, internal_value) btree"
  approx_bytes :: nat

definition ENTRY_OVERHEAD :: nat where "ENTRY_OVERHEAD = 32"

definition memtable_new :: memtable where
  "memtable_new = \<lparr>mmap = [], approx_bytes = 0\<rparr>"

definition entry_bytes :: "bytes \<Rightarrow> internal_value \<Rightarrow> nat" where
  "entry_bytes key v = length key + payload_bytes v + ENTRY_OVERHEAD"

definition mt_insert :: "bytes \<Rightarrow> internal_value \<Rightarrow> memtable \<Rightarrow> memtable" where
  "mt_insert key v t =
     (let incoming = entry_bytes key v;
          bytes = (case bt_get (mmap t) key of
             Some prev \<Rightarrow> approx_bytes t - entry_bytes key prev + incoming
           | None \<Rightarrow> approx_bytes t + incoming)
      in \<lparr>mmap = bt_insert key v (mmap t), approx_bytes = bytes\<rparr>)"

definition mt_insert_if_newer :: "bytes \<Rightarrow> internal_value \<Rightarrow> memtable \<Rightarrow> memtable" where
  "mt_insert_if_newer key v t =
     (let incoming = entry_bytes key v
      in case bt_get (mmap t) key of
           Some prev \<Rightarrow>
             if seq v \<le> seq prev then t
             else \<lparr>mmap = bt_insert key v (mmap t),
                   approx_bytes = approx_bytes t - entry_bytes key prev + incoming\<rparr>
         | None \<Rightarrow> \<lparr>mmap = bt_insert key v (mmap t), approx_bytes = approx_bytes t + incoming\<rparr>)"

definition mt_get :: "memtable \<Rightarrow> bytes \<Rightarrow> internal_value option" where
  "mt_get t key = bt_get (mmap t) key"

definition mt_len :: "memtable \<Rightarrow> nat" where
  "mt_len t = length (mmap t)"

definition mt_is_empty :: "memtable \<Rightarrow> bool" where
  "mt_is_empty t \<longleftrightarrow> mmap t = []"

definition snapshot :: "memtable \<Rightarrow> entry list" where
  "snapshot t = mmap t"

text \<open>\<open>RangeBounds\<close>. The standard library's \<open>BTreeMap::range\<close> panics (\<open>None\<close>) on a range that is
  inverted or empty with both ends excluded; on a map that never held an entry it returns the empty
  range without looking at the bounds.\<close>

datatype bound = Unbounded | Included bytes | Excluded bytes

type_synonym key_range = "bound \<times> bound"

definition bad_range :: "key_range \<Rightarrow> bool" where
  "bad_range r = (case r of
       (Excluded s, Excluded e) \<Rightarrow> e \<le> s
     | (Included s, Included e) \<Rightarrow> e < s
     | (Included s, Excluded e) \<Rightarrow> e < s
     | (Excluded s, Included e) \<Rightarrow> e < s
     | _ \<Rightarrow> False)"

definition in_range :: "key_range \<Rightarrow> bytes \<Rightarrow> bool" where
  "in_range r key \<longleftrightarrow>
     (case fst r of Unbounded \<Rightarrow> True | Included s \<Rightarrow> s \<le> key | Excluded s \<Rightarrow> s < key)
     \<and> (case snd r of Unbounded \<Rightarrow> True | Included e \<Rightarrow> key \<le> e | Excluded e \<Rightarrow> key < e)"

definition range_snapshot :: "key_range \<Rightarrow> memtable \<Rightarrow> entry list option" where
  "range_snapshot r t =
     (if mmap t \<noteq> [] \<and> bad_range r then None
      else Some (filter (\<lambda>(k, _). in_range r k) (mmap t)))"

section \<open>The set of tables\<close>

record memtable_set =
  active_table :: memtable
  frozen_tables :: "(nat \<times> memtable) list"
  next_arc :: nat
  max_bytes :: nat

definition set_new :: "nat \<Rightarrow> memtable_set" where
  "set_new m = \<lparr>active_table = memtable_new, frozen_tables = [], next_arc = 0, max_bytes = m\<rparr>"

definition set_insert :: "bytes \<Rightarrow> internal_value \<Rightarrow> memtable_set \<Rightarrow> memtable_set" where
  "set_insert key v m = m\<lparr>active_table := mt_insert key v (active_table m)\<rparr>"

definition set_insert_if_newer :: "bytes \<Rightarrow> internal_value \<Rightarrow> memtable_set \<Rightarrow> memtable_set" where
  "set_insert_if_newer key v m = m\<lparr>active_table := mt_insert_if_newer key v (active_table m)\<rparr>"

fun get_in :: "(nat \<times> memtable) list \<Rightarrow> bytes \<Rightarrow> internal_value option" where
  "get_in [] key = None"
| "get_in ((_, t) # ts) key = (case mt_get t key of Some v \<Rightarrow> Some v | None \<Rightarrow> get_in ts key)"

definition set_get :: "memtable_set \<Rightarrow> bytes \<Rightarrow> internal_value option" where
  "set_get m key = (case mt_get (active_table m) key of
       Some v \<Rightarrow> Some v
     | None \<Rightarrow> get_in (rev (frozen_tables m)) key)"

definition active_bytes :: "memtable_set \<Rightarrow> nat" where
  "active_bytes m = approx_bytes (active_table m)"

definition is_full :: "memtable_set \<Rightarrow> bool" where
  "is_full m \<longleftrightarrow> max_bytes m \<le> active_bytes m"

definition frozen_count :: "memtable_set \<Rightarrow> nat" where
  "frozen_count m = length (frozen_tables m)"

definition freeze :: "memtable_set \<Rightarrow> (nat \<times> memtable) \<times> memtable_set" where
  "freeze m =
     (let frozen = (next_arc m, active_table m)
      in (frozen, m\<lparr>active_table := memtable_new, frozen_tables := frozen_tables m @ [frozen],
                    next_arc := next_arc m + 1\<rparr>))"

definition freeze_if_full :: "memtable_set \<Rightarrow> (nat \<times> memtable) option \<times> memtable_set" where
  "freeze_if_full m =
     (if mt_is_empty (active_table m) \<or> approx_bytes (active_table m) < max_bytes m then (None, m)
      else (let (frozen, m') = freeze m in (Some frozen, m')))"

definition discard_frozen :: "nat \<times> memtable \<Rightarrow> memtable_set \<Rightarrow> memtable_set" where
  "discard_frozen table m = m\<lparr>frozen_tables := filter (\<lambda>t. fst t \<noteq> fst table) (frozen_tables m)\<rparr>"

text \<open>The sources of a scan: the active table, then the frozen ones, oldest first. A panic in any
  of them is a panic of the call.\<close>

fun range_all :: "key_range \<Rightarrow> memtable list \<Rightarrow> entry list list option" where
  "range_all r [] = Some []"
| "range_all r (t # ts) = (case range_snapshot r t of None \<Rightarrow> None
     | Some es \<Rightarrow> map_option (\<lambda>rest. es # rest) (range_all r ts))"

definition scan_iters :: "key_range \<Rightarrow> memtable_set \<Rightarrow> entry list list option" where
  "scan_iters r m = range_all r (active_table m # map snd (frozen_tables m))"

definition full_iters :: "memtable_set \<Rightarrow> entry list list option" where
  "full_iters m = scan_iters (Unbounded, Unbounded) m"

section \<open>Accounting\<close>

definition table_bytes :: "(bytes, internal_value) btree \<Rightarrow> nat" where
  "table_bytes m = sum_list (map (\<lambda>(k, v). entry_bytes k v) m)"

definition mt_inv :: "memtable \<Rightarrow> bool" where
  "mt_inv t \<longleftrightarrow> bt_ok (mmap t) \<and> approx_bytes t = table_bytes (mmap t)"

lemma mt_inv_new [simp]: "mt_inv memtable_new"
  by (simp add: mt_inv_def memtable_new_def table_bytes_def)

lemma table_bytes_insert:
  assumes "bt_ok m"
  shows "table_bytes (bt_insert k v m) + (case bt_get m k of None \<Rightarrow> 0 | Some prev \<Rightarrow> entry_bytes k prev)
    = table_bytes m + entry_bytes k v"
  using assms
proof (induction k v m rule: bt_insert.induct)
  case (2 k v a b m)
  have ok: "bt_ok m" "\<And>x. x \<in> fst ` set m \<Longrightarrow> a < x" using "2.prems" by (auto simp: bt_ok_def)
  consider "k < a" | "k = a" | "a < k" by (metis linorder_neqE)
  then show ?case
  proof cases
    case 1
    then have "map_of m k = None" "k \<noteq> a" using ok(2) by (force simp: map_of_eq_None_iff)+
    with 1 show ?thesis by (simp add: table_bytes_def bt_get_def)
  next
    case 3
    then have "bt_get ((a, b) # m) k = bt_get m k" by (auto simp: bt_get_def)
    with 3 "2.IH" [OF _ _ ok(1)] show ?thesis by (auto simp: table_bytes_def)
  qed (simp add: table_bytes_def bt_get_def)
qed (simp add: table_bytes_def)

lemma table_bytes_mem: "bt_ok m \<Longrightarrow> bt_get m k = Some p \<Longrightarrow> entry_bytes k p \<le> table_bytes m"
  unfolding table_bytes_def by (rule member_le_sum_list) (force simp: bt_get_mem [symmetric], simp)

lemma mt_inv_insert [simp]:
  assumes "mt_inv t"
  shows "mt_inv (mt_insert k v t)"
  using assms table_bytes_insert [of "mmap t" k v] table_bytes_mem [of "mmap t" k]
  by (fastforce simp: mt_inv_def mt_insert_def Let_def split: option.splits)

lemma mt_inv_insert_if_newer [simp]:
  assumes "mt_inv t"
  shows "mt_inv (mt_insert_if_newer k v t)"
  using assms table_bytes_insert [of "mmap t" k v] table_bytes_mem [of "mmap t" k]
  by (fastforce simp: mt_inv_def mt_insert_if_newer_def Let_def split: option.splits)

lemma mt_bytes_zero:
  assumes "mt_inv t"
  shows "approx_bytes t = 0 \<longleftrightarrow> mmap t = []"
  using assms by (cases "mmap t") (auto simp: mt_inv_def table_bytes_def entry_bytes_def ENTRY_OVERHEAD_def)

section \<open>Lookups\<close>

lemma mt_get_new [simp]: "mt_get memtable_new k = None"
  by (simp add: mt_get_def memtable_new_def)

lemma mt_get_insert [simp]: "mt_get (mt_insert k v t) k' = (if k' = k then Some v else mt_get t k')"
  by (simp add: mt_get_def mt_insert_def Let_def)

lemma mt_get_insert_if_newer [simp]:
  "mt_get (mt_insert_if_newer k v t) k' = (if k' = k then
      (case mt_get t k of Some prev \<Rightarrow> if seq v \<le> seq prev then Some prev else Some v | None \<Rightarrow> Some v)
     else mt_get t k')"
  by (auto simp: mt_get_def mt_insert_if_newer_def Let_def split: option.splits)

text \<open>The table is determined by its lookups.\<close>

lemma memtable_eqI:
  assumes "mt_inv t" and "mt_inv t'" and "\<And>k. mt_get t k = mt_get t' k"
  shows "t = t'"
proof -
  have "mmap t = mmap t'"
    using assms bt.entries_eqI [of "mmap t" "mmap t'"] by (simp add: mt_inv_def mt_get_def fun_eq_iff)
  then show ?thesis using assms by (simp add: mt_inv_def)
qed

section \<open>Newest wins\<close>

definition apply_writes :: "entry list \<Rightarrow> memtable \<Rightarrow> memtable" where
  "apply_writes ws t = fold (\<lambda>(k, v). mt_insert_if_newer k v) ws t"

lemma apply_writes_simps [simp]:
  "apply_writes [] t = t" "apply_writes ((k, v) # ws) t = apply_writes ws (mt_insert_if_newer k v t)"
  by (simp_all add: apply_writes_def)

lemma mt_inv_apply_writes [simp]: "mt_inv t \<Longrightarrow> mt_inv (apply_writes ws t)"
  by (induction ws arbitrary: t) auto

text \<open>Two writes of a key with the same sequence number are the same write.\<close>

definition seqs_unique :: "entry set \<Rightarrow> bool" where
  "seqs_unique E \<longleftrightarrow> (\<forall>k v w. (k, v) \<in> E \<longrightarrow> (k, w) \<in> E \<longrightarrow> seq v = seq w \<longrightarrow> v = w)"

lemma seqs_unique_mono: "seqs_unique E \<Longrightarrow> F \<subseteq> E \<Longrightarrow> seqs_unique F"
  unfolding seqs_unique_def by blast

text \<open>\<open>newest E k v\<close>: among the writes \<open>E\<close>, \<open>v\<close> is the one to \<open>k\<close> with the largest sequence
  number.\<close>

definition newest :: "entry set \<Rightarrow> bytes \<Rightarrow> internal_value \<Rightarrow> bool" where
  "newest E k v \<longleftrightarrow> (k, v) \<in> E \<and> (\<forall>w. (k, w) \<in> E \<longrightarrow> seq w \<le> seq v)"

lemma newest_unique: "seqs_unique E \<Longrightarrow> newest E k v \<Longrightarrow> newest E k w \<Longrightarrow> v = w"
  unfolding seqs_unique_def newest_def by (meson order_antisym)

lemma newest_drop:
  assumes "(k0, w) \<in> E" and "seq p < seq w"
  shows "newest (E - {(k0, p)}) k v \<longleftrightarrow> newest E k v"
proof
  assume n: "newest (E - {(k0, p)}) k v"
  have "seq x \<le> seq v" if "(k, x) \<in> E" for x
  proof (cases "(k, x) = (k0, p)")
    case True
    then have "(k, w) \<in> E - {(k0, p)}" using assms by auto
    then have "seq w \<le> seq v" using n by (simp add: newest_def)
    then show ?thesis using True assms(2) by simp
  qed (use n that in \<open>simp add: newest_def\<close>)
  then show "newest E k v" using n by (simp add: newest_def)
next
  assume n: "newest E k v"
  then have "(k, v) \<noteq> (k0, p)" using assms by (auto simp: newest_def)
  then show "newest (E - {(k0, p)}) k v" using n by (simp add: newest_def)
qed

lemma apply_writes_newest:
  assumes "seqs_unique (set (mmap t) \<union> set ws)" and "mt_inv t"
  shows "mt_get (apply_writes ws t) k = Some v \<longleftrightarrow> newest (set (mmap t) \<union> set ws) k v"
  using assms
proof (induction ws arbitrary: t)
  case Nil
  then have ok: "bt_ok (mmap t)" by (simp add: mt_inv_def)
  show ?case using bt_get_mem [OF ok] by (auto simp: newest_def mt_get_def)
next
  case (Cons w ws)
  obtain k0 v0 where w: "w = (k0, v0)" by force
  have ok: "bt_ok (mmap t)" using Cons.prems(2) by (simp add: mt_inv_def)
  let ?t = "mt_insert_if_newer k0 v0 t"
  have mem: "(a, b) \<in> set (mmap ?t) \<longleftrightarrow> mt_get ?t a = Some b" for a b
    using bt_get_mem [of "mmap ?t"] mt_inv_insert_if_newer [OF Cons.prems(2), of k0 v0]
    by (simp add: mt_inv_def mt_get_def)
  have mem0: "(a, b) \<in> set (mmap t) \<longleftrightarrow> mt_get t a = Some b" for a b
    using bt_get_mem [OF ok] by (simp add: mt_get_def)
  have sub: "set (mmap ?t) \<subseteq> set (mmap t) \<union> {(k0, v0)}"
    by (auto simp: mem mem0 split: if_splits option.splits)
  have "newest (set (mmap ?t) \<union> set ws) k v \<longleftrightarrow> newest (set (mmap t) \<union> set (w # ws)) k v"
  proof (cases "mt_get t k0")
    case None
    then have "set (mmap ?t) = insert (k0, v0) (set (mmap t))"
      by (auto simp: mem mem0 split: if_splits)
    then show ?thesis by (simp add: w)
  next
    case (Some p)
    show ?thesis
    proof (cases "seq v0 \<le> seq p")
      case True
      then have t: "?t = t" using Some by (simp add: mt_insert_if_newer_def mt_get_def)
      have p: "(k0, p) \<in> set (mmap t)" using Some mem0 by simp
      show ?thesis unfolding t
      proof (cases "v0 = p")
        case False
        then have "seq v0 < seq p"
          using Cons.prems(1) p True unfolding seqs_unique_def w
          by (metis UnI1 UnI2 list.set_intros(1) order_le_imp_less_or_eq)
        from newest_drop [OF _ this, of k0 "set (mmap t) \<union> set (w # ws)"] p
        have "newest (set (mmap t) \<union> set (w # ws) - {(k0, v0)}) k v = newest (set (mmap t) \<union> set (w # ws)) k v"
          by simp
        moreover have "set (mmap t) \<union> set ws = set (mmap t) \<union> set (w # ws) - {(k0, v0)}
            \<or> set (mmap t) \<union> set ws = set (mmap t) \<union> set (w # ws)"
          by (auto simp: w)
        ultimately show "newest (set (mmap t) \<union> set ws) k v = newest (set (mmap t) \<union> set (w # ws)) k v" by metis
      qed (use p in \<open>simp add: w insert_absorb\<close>)
    next
      case False
      let ?E = "set (mmap t) \<union> set (w # ws)"
      have lt: "seq p < seq v0" using False by simp
      have "newest (?E - {(k0, p)}) k v = newest ?E k v"
        using lt by (intro newest_drop [of k0 v0]) (simp_all add: w)
      moreover have "set (mmap ?t) = insert (k0, v0) (set (mmap t) - {(k0, p)})"
        using Some False by (auto simp: mem mem0 split: if_splits)
      then have "set (mmap ?t) \<union> set ws = ?E - {(k0, p)} \<or> set (mmap ?t) \<union> set ws = ?E"
        using lt by (auto simp: w)
      ultimately show ?thesis by metis
    qed
  qed
  moreover have "seqs_unique (set (mmap ?t) \<union> set ws)"
    using sub by (intro seqs_unique_mono [OF Cons.prems(1)]) (auto simp: w)
  ultimately show ?case
    using Cons.IH [of ?t] mt_inv_insert_if_newer [OF Cons.prems(2)] by (simp add: w)
qed

section \<open>The set of tables\<close>

lemma set_get_insert_if_newer:
  "set_get (set_insert_if_newer k v m) k' = (if k' = k then
      (case mt_get (active_table m) k of Some p \<Rightarrow> if seq v \<le> seq p then Some p else Some v | None \<Rightarrow> Some v)
     else set_get m k')"
  by (auto simp: set_get_def set_insert_if_newer_def split: option.splits)

lemma set_get_freeze [simp]: "set_get (snd (freeze m)) k = set_get m k"
  by (simp add: set_get_def freeze_def Let_def split: option.splits)

lemma in_range_all: "in_range (Unbounded, Unbounded) k" "\<not> bad_range (Unbounded, Unbounded)"
  by (simp_all add: in_range_def bad_range_def)

lemma range_all_full: "range_all (Unbounded, Unbounded) ts = Some (map snapshot ts)"
  by (induction ts) (simp_all add: range_snapshot_def in_range_all snapshot_def)

section \<open>Properties\<close>

text \<open>C30 (memtable_newest_wins): after any sequence of \<open>insert_if_newer\<close> calls a lookup returns
  exactly the write to the key with the largest sequence number, and the byte count that triggers
  the freeze is the sum of the charges of the entries held (so its subtraction never underflows).\<close>

theorem memtable_newest_wins:
  assumes "seqs_unique (set ws)"
  shows "(mt_get (apply_writes ws memtable_new) k = Some v \<longleftrightarrow> newest (set ws) k v)
    \<and> approx_bytes (apply_writes ws memtable_new) = table_bytes (mmap (apply_writes ws memtable_new))"
  using apply_writes_newest [of memtable_new ws k v] mt_inv_apply_writes [OF mt_inv_new, of ws] assms
  by (simp add: mt_inv_def) (simp add: memtable_new_def table_bytes_def)

theorem memtable_newest_wins_witness:
  "(mt_get (apply_writes [([1], iv_value 7 [9]), ([1], iv_tombstone 4)] memtable_new) [1] = Some (iv_value 7 [9])
      \<longleftrightarrow> newest (set [([1], iv_value 7 [9]), ([1], iv_tombstone 4)]) [1] (iv_value 7 [9]))
    \<and> approx_bytes (apply_writes [([1], iv_value 7 [9]), ([1], iv_tombstone 4)] memtable_new)
      = table_bytes (mmap (apply_writes [([1], iv_value 7 [9]), ([1], iv_tombstone 4)] memtable_new))"
  by (rule memtable_newest_wins) (simp add: seqs_unique_def iv_value_def iv_tombstone_def)

text \<open>C31 (memtable_order_independent): concurrent writers may apply their records in any order, and
  more than once; the resulting table (entries and byte count) is the same.\<close>

theorem memtable_order_independent:
  assumes "seqs_unique (set xs)" and "set ys = set xs"
  shows "apply_writes xs memtable_new = apply_writes ys memtable_new"
proof (rule memtable_eqI)
  fix k
  have "mt_get (apply_writes zs memtable_new) k = Some v \<longleftrightarrow> newest (set xs) k v" if "set zs = set xs" for zs v
    using apply_writes_newest [of memtable_new zs k v] assms(1) that by (simp add: memtable_new_def mt_inv_def table_bytes_def)
  then show "mt_get (apply_writes xs memtable_new) k = mt_get (apply_writes ys memtable_new) k"
    using assms(2) by (metis option.exhaust)
qed simp_all

theorem memtable_order_independent_witness:
  "apply_writes [([1], iv_value 7 [9]), ([1], iv_tombstone 4), ([2], iv_value 5 [])] memtable_new
    = apply_writes [([2], iv_value 5 []), ([1], iv_tombstone 4), ([1], iv_value 7 [9]), ([2], iv_value 5 [])] memtable_new"
  by (rule memtable_order_independent) (auto simp: seqs_unique_def iv_value_def iv_tombstone_def)

text \<open>Freezing moves the active table behind an empty one without changing
  what any lookup or full scan returns, and discarding a frozen table removes exactly that table.\<close>

theorem freeze_keeps_reads:
  "set_get (snd (freeze m)) k = set_get m k
    \<and> full_iters (snd (freeze m)) = Some ([] # map (\<lambda>t. snapshot (snd t)) (frozen_tables m) @ [snapshot (active_table m)])
    \<and> frozen_tables (discard_frozen (fst (freeze m)) (snd (freeze m)))
      = filter (\<lambda>t. fst t \<noteq> next_arc m) (frozen_tables m)"
  by (simp add: full_iters_def scan_iters_def freeze_def Let_def discard_frozen_def range_all_full set_get_freeze
      snapshot_def memtable_new_def comp_def del: range_all.simps)
     (simp add: set_get_def memtable_new_def mt_get_def split: option.splits)

end
