(* ===== verification/MergeIter.thy ===== *)
theory MergeIter imports Memtable "HOL-Library.Multiset" begin

text \<open>
  The k-way merge of the read path (\<open>src/src/iter/mod.rs\<close>). An iterator source is the list of its
  remaining entries; the standard library's \<open>BinaryHeap\<close> is the list of its elements, and popping
  takes a greatest one in the order of \<open>HeapHead::cmp\<close>.
\<close>

section \<open>The iterator\<close>

record heap_head =
  head_key :: bytes
  head_val :: internal_value
  source :: nat

text \<open>\<open>a.cmp(b) != Greater\<close>.\<close>

definition head_le :: "heap_head \<Rightarrow> heap_head \<Rightarrow> bool" where
  "head_le a b \<longleftrightarrow> head_key b < head_key a \<or> head_key a = head_key b \<and>
     (seq (head_val a) < seq (head_val b) \<or> seq (head_val a) = seq (head_val b) \<and> source b \<le> source a)"

fun heap_peek :: "heap_head list \<Rightarrow> heap_head option" where
  "heap_peek [] = None"
| "heap_peek (x # h) = (case heap_peek h of None \<Rightarrow> Some x
     | Some y \<Rightarrow> if head_le x y then Some y else Some x)"

definition heap_pop :: "heap_head list \<Rightarrow> (heap_head \<times> heap_head list) option" where
  "heap_pop h = map_option (\<lambda>x. (x, remove1 x h)) (heap_peek h)"

record merge_iter =
  sources :: "entry list list"
  heap :: "heap_head list"

definition push_head :: "entry \<Rightarrow> nat \<Rightarrow> heap_head list \<Rightarrow> heap_head list" where
  "push_head e i h = \<lparr>head_key = fst e, head_val = snd e, source = i\<rparr> # h"

fun init_heads :: "nat \<Rightarrow> entry list list \<Rightarrow> heap_head list \<Rightarrow> entry list list \<times> heap_head list" where
  "init_heads i [] h = ([], h)"
| "init_heads i (s # ss) h =
     (let (s', h') = (case s of [] \<Rightarrow> ([], h) | e # es \<Rightarrow> (es, push_head e i h));
          (ss', h'') = init_heads (Suc i) ss h'
      in (s' # ss', h''))"

definition merge_new :: "entry list list \<Rightarrow> merge_iter" where
  "merge_new ss = (let (ss', h) = init_heads 0 ss [] in \<lparr>sources = ss', heap = h\<rparr>)"

text \<open>\<open>self.sources[idx]\<close>: the index of a head is always in range (invariant below).\<close>

definition refill :: "nat \<Rightarrow> merge_iter \<Rightarrow> merge_iter" where
  "refill i it = (if i < length (sources it) then
      (case sources it ! i of [] \<Rightarrow> it
       | e # es \<Rightarrow> \<lparr>sources = (sources it)[i := es], heap = push_head e i (heap it)\<rparr>)
     else it)"

definition remaining :: "merge_iter \<Rightarrow> nat" where
  "remaining it = sum_list (map length (sources it)) + length (heap it)"

lemma heap_peek_mem: "heap_peek h = Some x \<Longrightarrow> x \<in> set h"
  by (induction h arbitrary: x) (auto split: option.splits if_splits)

lemma sum_list_tl:
  assumes "i < length xss" and "xss ! i = e # es"
  shows "sum_list (map length xss) = Suc (sum_list (map length (xss[i := es])))"
proof -
  have "xss = take i xss @ (e # es) # drop (Suc i) xss" using id_take_nth_drop [OF assms(1)] assms(2) by simp
  moreover have "xss[i := es] = take i xss @ es # drop (Suc i) xss" using assms(1) by (simp add: upd_conv_take_nth_drop)
  moreover have "sum_list (map length (take i xss @ (e # es) # drop (Suc i) xss))
      = Suc (sum_list (map length (take i xss @ es # drop (Suc i) xss)))" by simp
  ultimately show ?thesis by metis
qed

lemma remaining_refill: "remaining (refill i it) = remaining it"
proof (cases "i < length (sources it) \<and> sources it ! i \<noteq> []")
  case True
  then obtain e es where "sources it ! i = e # es" by (cases "sources it ! i") auto
  then show ?thesis
    using True sum_list_tl [of i "sources it" e es] by (simp add: refill_def remaining_def push_head_def)
qed (auto simp: refill_def split: list.splits)

lemma heap_pop_Some:
  assumes "heap_pop h = Some (x, rest)"
  shows "x \<in> set h" and "rest = remove1 x h" and "length rest < length h"
proof -
  show x: "x \<in> set h" and r: "rest = remove1 x h"
    using assms heap_peek_mem by (auto simp: heap_pop_def)
  then have "0 < length h" by (cases h) auto
  with x r show "length rest < length h" by (simp add: length_remove1)
qed

lemma remaining_pop:
  "heap_pop (heap it) = Some (x, rest) \<Longrightarrow> remaining (refill i (it\<lparr>heap := rest\<rparr>)) < remaining it"
  using heap_pop_Some(3) by (simp add: remaining_refill) (fastforce simp: remaining_def)

text \<open>The inner loop of \<open>next\<close>: heads equal to the winner's key are older versions.\<close>

function drop_dups :: "bytes \<Rightarrow> merge_iter \<Rightarrow> merge_iter" where
  "drop_dups k it =
     (case heap_pop (heap it) of None \<Rightarrow> it
      | Some (peek, rest) \<Rightarrow>
          if head_key peek = k then drop_dups k (refill (source peek) (it\<lparr>heap := rest\<rparr>)) else it)"
  by pat_completeness auto
termination
  by (relation "measure (\<lambda>(k, it). remaining it)") (auto simp: remaining_pop)

declare drop_dups.simps [simp del]

lemma remaining_drop_dups: "remaining (drop_dups k it) \<le> remaining it"
proof (induction k it rule: drop_dups.induct)
  case (1 k it)
  show ?case
  proof (cases "heap_pop (heap it)")
    case (Some p)
    obtain x rest where p: "p = (x, rest)" by force
    show ?thesis
      using 1 [OF Some p [symmetric]] remaining_pop [OF Some [unfolded p], of "source x"]
      by (subst drop_dups.simps) (auto simp: Some p)
  qed (simp add: drop_dups.simps [of k it])
qed

definition merge_next :: "merge_iter \<Rightarrow> entry option \<times> merge_iter" where
  "merge_next it =
     (case heap_pop (heap it) of None \<Rightarrow> (None, it)
      | Some (winner, rest) \<Rightarrow>
          (Some (head_key winner, head_val winner),
           drop_dups (head_key winner) (refill (source winner) (it\<lparr>heap := rest\<rparr>))))"

lemma remaining_next: "merge_next it = (Some e, it') \<Longrightarrow> remaining it' < remaining it"
  using remaining_drop_dups remaining_pop
  by (fastforce simp: merge_next_def split: option.splits prod.splits intro: le_less_trans)

text \<open>Iterating to the end, and the iterator without tombstones.\<close>

function merge_all :: "merge_iter \<Rightarrow> entry list" where
  "merge_all it = (case merge_next it of (None, _) \<Rightarrow> [] | (Some e, it') \<Rightarrow> e # merge_all it')"
  by pat_completeness auto
termination
  by (relation "measure remaining") (auto simp: remaining_next [OF sym])

declare merge_all.simps [simp del]

function live_next :: "merge_iter \<Rightarrow> (bytes \<times> bytes) option \<times> merge_iter" where
  "live_next it =
     (case merge_next it of (None, it') \<Rightarrow> (None, it')
      | (Some (k, v), it') \<Rightarrow> (case kind v of Value b \<Rightarrow> (Some (k, b), it') | Tombstone \<Rightarrow> live_next it'))"
  by pat_completeness auto
termination
  by (relation "measure remaining") (auto simp: remaining_next [OF sym])

declare live_next.simps [simp del]

lemma remaining_live_next: "live_next it = (Some x, it') \<Longrightarrow> remaining it' < remaining it"
proof (induction it rule: live_next.induct)
  case (1 it)
  obtain o1 it1 where n: "merge_next it = (o1, it1)" by force
  show ?case
  proof (cases o1)
    case (Some e)
    obtain k v where e: "e = (k, v)" by force
    have lt: "remaining it1 < remaining it" using remaining_next n Some by blast
    show ?thesis
    proof (cases "kind v")
      case Tombstone
      then have "live_next it1 = (Some x, it')"
        using "1.prems" by (subst (asm) live_next.simps) (simp add: n Some e)
      from "1.IH" [OF n [symmetric] Some e [symmetric] Tombstone this] lt show ?thesis by simp
    qed (use "1.prems" lt in \<open>subst (asm) live_next.simps, simp add: n Some e\<close>)
  qed (use "1.prems" in \<open>subst (asm) live_next.simps, simp add: n\<close>)
qed

function live_all :: "merge_iter \<Rightarrow> (bytes \<times> bytes) list" where
  "live_all it = (case live_next it of (None, _) \<Rightarrow> [] | (Some e, it') \<Rightarrow> e # live_all it')"
  by pat_completeness auto
termination
  by (relation "measure remaining") (auto simp: remaining_live_next [OF sym])

declare live_all.simps [simp del]

lemma live_all_merge_all:
  "live_all it = List.map_filter (\<lambda>(k, v). map_option (Pair k) (as_value v)) (merge_all it)"
proof (induction "remaining it" arbitrary: it rule: less_induct)
  case less
  obtain o1 it1 where n: "merge_next it = (o1, it1)" by force
  show ?case
  proof (cases o1)
    case None
    then show ?thesis
      by (simp add: live_all.simps [of it] live_next.simps [of it] merge_all.simps [of it] n List.map_filter_def)
  next
    case (Some e)
    obtain k v where e: "e = (k, v)" by force
    have IH: "live_all it1 = List.map_filter (\<lambda>(k, v). map_option (Pair k) (as_value v)) (merge_all it1)"
      using less remaining_next n Some by blast
    have m: "merge_all it = (k, v) # merge_all it1" by (simp add: merge_all.simps [of it] n Some e)
    show ?thesis
    proof (cases "kind v")
      case (Value b)
      then show ?thesis
        by (simp add: live_all.simps [of it] live_next.simps [of it] n Some e IH m as_value_def List.map_filter_def)
    next
      case Tombstone
      have "live_all it = live_all it1"
        by (simp add: live_all.simps live_next.simps [of it] n Some e Tombstone)
      then show ?thesis by (simp add: IH m as_value_def Tombstone List.map_filter_def)
    qed
  qed
qed

section \<open>The heap holds the first entry of every source\<close>

definition head_m :: "nat \<Rightarrow> entry list \<Rightarrow> heap_head multiset" where
  "head_m i p = (case p of [] \<Rightarrow> {#} | e # _ \<Rightarrow> {#\<lparr>head_key = fst e, head_val = snd e, source = i\<rparr>#})"

definition heads :: "entry list list \<Rightarrow> heap_head multiset" where
  "heads ps = (\<Sum>i<length ps. head_m i (ps ! i))"

text \<open>\<open>ps\<close> are the entries not yet consumed, per source.\<close>

definition it_ok :: "merge_iter \<Rightarrow> entry list list \<Rightarrow> bool" where
  "it_ok it ps \<longleftrightarrow> sources it = map tl ps \<and> mset (heap it) = heads ps"

definition sorted_sources :: "entry list list \<Rightarrow> bool" where
  "sorted_sources ps \<longleftrightarrow> (\<forall>p\<in>set ps. sorted_wrt (<) (map fst p))"

lemma head_m_simps [simp]:
  "head_m i [] = {#}" "head_m i (e # es) = {#\<lparr>head_key = fst e, head_val = snd e, source = i\<rparr>#}"
  by (simp_all add: head_m_def)

lemma init_heads_ok:
  "fst (init_heads i ss h) = map tl ss"
  "mset (snd (init_heads i ss h)) = mset h + (\<Sum>j<length ss. head_m (i + j) (ss ! j))"
proof (induction ss arbitrary: i h)
  case (Cons s ss)
  { case 1 show ?case using Cons.IH(1) by (cases s) (auto simp: case_prod_beta Let_def) }
  { case 2
    have "(\<Sum>j<length (s # ss). head_m (i + j) ((s # ss) ! j))
        = head_m i s + (\<Sum>j<length ss. head_m (Suc i + j) (ss ! j))"
      by (simp add: sum.lessThan_Suc_shift del: sum.lessThan_Suc)
    then show ?case using Cons.IH(2) [of "Suc i"]
      by (cases s) (auto simp: case_prod_beta Let_def push_head_def) }
qed simp_all

lemma merge_new_ok: "it_ok (merge_new ss) ss"
  using init_heads_ok [of 0 ss "[]"]
  by (simp add: it_ok_def merge_new_def heads_def case_prod_beta)

lemma heads_mem:
  "x \<in># heads ps \<longleftrightarrow> (\<exists>i<length ps. \<exists>e es. ps ! i = e # es \<and> x = \<lparr>head_key = fst e, head_val = snd e, source = i\<rparr>)"
proof -
  have "x \<in># heads ps \<longleftrightarrow> (\<exists>i<length ps. x \<in># head_m i (ps ! i))"
    unfolding heads_def by (auto simp: set_mset_sum)
  also have "\<dots> \<longleftrightarrow> (\<exists>i<length ps. \<exists>e es. ps ! i = e # es \<and> x = \<lparr>head_key = fst e, head_val = snd e, source = i\<rparr>)"
  proof -
    have "x \<in># head_m i p \<longleftrightarrow> (\<exists>e es. p = e # es \<and> x = \<lparr>head_key = fst e, head_val = snd e, source = i\<rparr>)" for i p
      by (cases p) auto
    then show ?thesis by simp
  qed
  finally show ?thesis .
qed

lemma heads_update:
  assumes "i < length ps"
  shows "heads (ps[i := q]) + head_m i (ps ! i) = heads ps + head_m i q"
proof -
  have split: "(\<Sum>j<length ps. f j) = f i + (\<Sum>j\<in>{..<length ps} - {i}. f j)" for f :: "nat \<Rightarrow> heap_head multiset"
    using assms by (intro sum.remove) auto
  have "(\<Sum>j\<in>{..<length ps} - {i}. head_m j (ps[i := q] ! j)) = (\<Sum>j\<in>{..<length ps} - {i}. head_m j (ps ! j))"
    by (rule sum.cong) auto
  then show ?thesis using assms unfolding heads_def by (simp add: split ac_simps)
qed

lemma pop_refill_ok:
  assumes ok: "it_ok it ps" and pop: "heap_pop (heap it) = Some (x, rest)"
  shows "source x < length ps" and "\<exists>es. ps ! source x = (head_key x, head_val x) # es"
    and "it_ok (refill (source x) (it\<lparr>heap := rest\<rparr>)) (ps[source x := tl (ps ! source x)])"
proof -
  note h = heap_pop_Some [OF pop]
  have "x \<in># heads ps" using h(1) ok by (simp add: it_ok_def flip: set_mset_mset)
  then obtain i e es where i: "i < length ps" "ps ! i = e # es" and x: "x = \<lparr>head_key = fst e, head_val = snd e, source = i\<rparr>"
    by (auto simp: heads_mem)
  then show "source x < length ps" "\<exists>es. ps ! source x = (head_key x, head_val x) # es" by simp_all
  have rest: "mset rest + {#x#} = heads ps" using h(1,2) ok by (simp add: it_ok_def flip: set_mset_mset)
  have up: "heads (ps[i := es]) + {#x#} = heads ps + head_m i es"
    using heads_update [OF i(1), of es] i(2) x by simp
  show "it_ok (refill (source x) (it\<lparr>heap := rest\<rparr>)) (ps[source x := tl (ps ! source x)])"
  proof (cases es)
    case Nil
    then have "mset rest = heads (ps[i := []])" using rest up Nil by (metis add_right_cancel empty_neutral(2) head_m_simps(1))
    moreover have "(map tl ps)[i := []] = map tl ps"
      using i Nil by (metis list.sel(3) list_update_id nth_map)
    ultimately show ?thesis using ok i Nil x by (simp add: it_ok_def refill_def map_update)
  next
    case (Cons e' es')
    have "mset rest + head_m i es = heads (ps[i := es])"
    proof -
      have "mset rest + head_m i es + {#x#} = heads (ps[i := es]) + {#x#}"
        unfolding up using rest by (simp add: ac_simps)
      then show ?thesis by (simp only: add_right_cancel)
    qed
    then show ?thesis using ok i Cons x
      by (simp add: it_ok_def refill_def map_update push_head_def ac_simps)
  qed
qed

section \<open>The winner\<close>

lemma head_le_trans: "head_le a b \<Longrightarrow> head_le b c \<Longrightarrow> head_le a c"
  unfolding head_le_def by (elim disjE conjE) (auto intro: less_trans order_trans)

lemma head_le_total: "head_le a b \<or> head_le b a"
proof -
  consider "head_key a < head_key b" | "head_key b < head_key a" | "head_key a = head_key b" by (metis linorder_neqE)
  then show ?thesis
  proof cases
    case 3
    consider "seq (head_val a) < seq (head_val b)" | "seq (head_val b) < seq (head_val a)" | "seq (head_val a) = seq (head_val b)"
      by (metis linorder_neqE)
    then show ?thesis using 3 by cases (auto simp: head_le_def)
  qed (auto simp: head_le_def)
qed

lemma heap_peek_None [simp]: "heap_peek h = None \<longleftrightarrow> h = []"
  by (cases h) (auto split: option.splits)

lemma heap_peek_max: "heap_peek h = Some x \<Longrightarrow> y \<in> set h \<Longrightarrow> head_le y x"
proof (induction h arbitrary: x)
  case (Cons z h)
  show ?case
  proof (cases "heap_peek h")
    case None
    then show ?thesis using Cons.prems head_le_total by auto
  next
    case (Some m)
    then show ?thesis using Cons head_le_trans head_le_total by (auto split: if_splits) blast+
  qed
qed simp

text \<open>\<open>wins ps k v\<close>: \<open>v\<close> has the largest sequence number among the versions of \<open>k\<close> in the sources,
  and comes from the first such source.\<close>

definition wins :: "entry list list \<Rightarrow> bytes \<Rightarrow> internal_value \<Rightarrow> bool" where
  "wins ps k v \<longleftrightarrow> (\<exists>i<length ps. map_of (ps ! i) k = Some v \<and>
     (\<forall>j<length ps. \<forall>w. map_of (ps ! j) k = Some w \<longrightarrow> seq w < seq v \<or> seq w = seq v \<and> i \<le> j))"

lemma wins_unique: "wins ps k v \<Longrightarrow> wins ps k w \<Longrightarrow> v = w"
  unfolding wins_def by (metis (no_types) antisym less_asym option.inject order_less_irrefl)

lemma map_of_filter_ne: "map_of (filter (\<lambda>e. fst e \<noteq> k) p) k' = (if k' = k then None else map_of p k')"
  by (induction p) auto

lemma wins_filter:
  "wins (map (filter (\<lambda>e. fst e \<noteq> k)) ps) k' v \<longleftrightarrow> k' \<noteq> k \<and> wins ps k' v"
  by (cases "k' = k") (auto simp: wins_def map_of_filter_ne)

lemma sorted_head_min:
  fixes e :: entry
  assumes "sorted_wrt (<) (map fst (e # es))" and "f \<in> set (e # es)"
  shows "fst e \<le> fst f"
  using assms by auto

lemma popped_min:
  assumes ok: "it_ok it ps" and srt: "sorted_sources ps" and pop: "heap_pop (heap it) = Some (x, rest)"
    and p: "p \<in> set ps" "e \<in> set p"
  shows "head_key x \<le> fst e"
proof -
  obtain i where i: "i < length ps" "p = ps ! i" using p(1) by (metis in_set_conv_nth)
  obtain f es where f: "ps ! i = f # es" using p(2) i by (cases "ps ! i") auto
  let ?h = "\<lparr>head_key = fst f, head_val = snd f, source = i\<rparr>"
  have "?h \<in># heads ps" using i f by (auto simp: heads_mem)
  then have "?h \<in> set (heap it)" using ok by (simp add: it_ok_def flip: set_mset_mset)
  moreover have "heap_peek (heap it) = Some x" using pop by (auto simp: heap_pop_def)
  ultimately have "head_le ?h x" by (simp add: heap_peek_max)
  then have "head_key x \<le> fst f" by (auto simp: head_le_def)
  also have "fst f \<le> fst e"
    using srt p i f sorted_head_min [of f es e] by (auto simp: sorted_sources_def)
  finally show ?thesis .
qed

lemma popped_wins:
  assumes ok: "it_ok it ps" and srt: "sorted_sources ps" and pop: "heap_pop (heap it) = Some (x, rest)"
  shows "wins ps (head_key x) (head_val x)"
proof -
  note r = pop_refill_ok(1,2) [OF ok pop]
  show ?thesis
    unfolding wins_def
  proof (intro exI [of _ "source x"] conjI allI impI)
    show "source x < length ps" by (fact r(1))
    show "map_of (ps ! source x) (head_key x) = Some (head_val x)" using r(2) by auto
    fix j w assume j: "j < length ps" and w: "map_of (ps ! j) (head_key x) = Some w"
    obtain f es where f: "ps ! j = f # es" using w by (cases "ps ! j") auto
    have srtj: "sorted_wrt (<) (map fst (f # es))" using srt j f by (metis nth_mem sorted_sources_def)
    have "(head_key x, w) \<in> set (f # es)" using map_of_SomeD [OF w] f by simp
    then have "fst f \<le> head_key x" using sorted_head_min [OF srtj] by fastforce
    moreover have "head_key x \<le> fst f"
      using popped_min [OF ok srt pop, of "ps ! j" f] nth_mem [OF j] f by simp
    ultimately have "fst f = head_key x" by simp
    then have w': "w = snd f" using w f by simp
    let ?h = "\<lparr>head_key = fst f, head_val = snd f, source = j\<rparr>"
    have "?h \<in># heads ps" using j f by (auto simp: heads_mem)
    then have "?h \<in> set (heap it)" using ok by (simp add: it_ok_def flip: set_mset_mset)
    moreover have "heap_peek (heap it) = Some x" using pop by (auto simp: heap_pop_def)
    ultimately have "head_le ?h x" by (simp add: heap_peek_max)
    then show "seq w < seq (head_val x) \<or> seq w = seq (head_val x) \<and> source x \<le> j"
      using \<open>fst f = head_key x\<close> w' by (auto simp: head_le_def)
  qed
qed

section \<open>Discarding the older versions\<close>

lemma sorted_sources_update:
  assumes "sorted_sources ps" and "i < length ps"
  shows "sorted_sources (ps[i := tl (ps ! i)])"
proof -
  have "sorted_wrt (<) (map fst (tl (ps ! i)))"
    using assms nth_mem [OF assms(2)] by (cases "ps ! i") (auto simp: sorted_sources_def)
  then show ?thesis using assms(1) set_update_subset_insert [of ps i "tl (ps ! i)"] by (auto simp: sorted_sources_def)
qed

lemma filter_pop:
  assumes "i < length ps" and "ps ! i = (k, v) # es"
  shows "map (filter (\<lambda>e. fst e \<noteq> k)) (ps[i := tl (ps ! i)]) = map (filter (\<lambda>e. fst e \<noteq> k)) ps"
proof -
  have "filter (\<lambda>e. fst e \<noteq> k) (tl (ps ! i)) = map (filter (\<lambda>e. fst e \<noteq> k)) ps ! i"
    using assms by simp
  then show ?thesis unfolding map_update by (metis list_update_id)
qed

lemma drop_dups_ok:
  assumes "it_ok it ps" and "sorted_sources ps" and "\<And>p e. p \<in> set ps \<Longrightarrow> e \<in> set p \<Longrightarrow> k \<le> fst e"
  shows "it_ok (drop_dups k it) (map (filter (\<lambda>e. fst e \<noteq> k)) ps)"
  using assms
proof (induction k it arbitrary: ps rule: drop_dups.induct)
  case (1 k it)
  show ?case
  proof (cases "heap_pop (heap it)")
    case None
    then have "heap it = []" by (simp add: heap_pop_def)
    then have none: "heads ps = {#}" using "1.prems"(1) by (simp add: it_ok_def)
    have "filter (\<lambda>e. fst e \<noteq> k) p = p" if pm: "p \<in> set ps" for p
    proof -
      obtain i where "i < length ps" "p = ps ! i" using pm by (metis in_set_conv_nth)
      then have "p = []"
      proof (cases p)
        case (Cons e es)
        then have "\<lparr>head_key = fst e, head_val = snd e, source = i\<rparr> \<in># heads ps"
          unfolding heads_mem using \<open>i < length ps\<close> \<open>p = ps ! i\<close> by metis
        then show ?thesis by (simp add: none)
      qed
      then show ?thesis by simp
    qed
    then have "map (filter (\<lambda>e. fst e \<noteq> k)) ps = ps" by (simp add: map_idI)
    then show ?thesis using "1.prems"(1) None by (simp add: drop_dups.simps [of k it])
  next
    case (Some q)
    obtain x rest where q: "q = (x, rest)" by force
    note pop = Some [unfolded q]
    note r = pop_refill_ok [OF "1.prems"(1) pop]
    show ?thesis
    proof (cases "head_key x = k")
      case True
      obtain es where es: "ps ! source x = (k, head_val x) # es" using r(2) True by blast
      let ?ps = "ps[source x := tl (ps ! source x)]"
      have "k \<le> fst e" if p: "p \<in> set ?ps" "e \<in> set p" for p e
      proof -
        have "p \<in> set ps \<or> p = tl (ps ! source x)" using set_update_subset_insert p(1) by fastforce
        then show ?thesis
          using "1.prems"(3) p(2) r(1) by (metis list.sel(2) list.set_sel(2) nth_mem)
      qed
      then have "it_ok (drop_dups k (refill (source x) (it\<lparr>heap := rest\<rparr>))) (map (filter (\<lambda>e. fst e \<noteq> k)) ?ps)"
        using "1.IH" [OF pop refl True r(3) sorted_sources_update [OF "1.prems"(2) r(1)]] by blast
      then show ?thesis
        using True filter_pop [OF r(1) es] by (simp add: drop_dups.simps [of k it] pop)
    next
      case False
      have gt: "k < fst e" if "p \<in> set ps" "e \<in> set p" for p e
      proof -
        have "k \<le> head_key x" using "1.prems"(3) r(1,2) by (metis fst_conv list.set_intros(1) nth_mem)
        then have "k < head_key x" using False by simp
        also have "head_key x \<le> fst e" using popped_min [OF "1.prems"(1,2) pop that] .
        finally show ?thesis .
      qed
      then have "filter (\<lambda>e. fst e \<noteq> k) p = p" if "p \<in> set ps" for p
        using that by (auto simp: filter_id_conv)
      then have "map (filter (\<lambda>e. fst e \<noteq> k)) ps = ps" by (simp add: map_idI)
      then show ?thesis using "1.prems"(1) False by (simp add: drop_dups.simps [of k it] pop)
    qed
  qed
qed

section \<open>The merged stream\<close>

lemma merge_next_None:
  assumes ok: "it_ok it ps" and n: "merge_next it = (None, it')"
  shows "\<not> wins ps k v"
proof -
  have "heap it = []" using n by (auto simp: merge_next_def heap_pop_def split: option.splits)
  then have none: "heads ps = {#}" using ok by (simp add: it_ok_def)
  have "ps ! i = []" if "i < length ps" for i
  proof (cases "ps ! i")
    case (Cons e es)
    then have "\<lparr>head_key = fst e, head_val = snd e, source = i\<rparr> \<in># heads ps"
      unfolding heads_mem using that by metis
    then show ?thesis by (simp add: none)
  qed
  then show ?thesis by (auto simp: wins_def)
qed

lemma merge_next_Some:
  assumes ok: "it_ok it ps" and srt: "sorted_sources ps" and n: "merge_next it = (Some (k, v), it')"
  shows "wins ps k v" and "it_ok it' (map (filter (\<lambda>e. fst e \<noteq> k)) ps)"
    and "p \<in> set ps \<Longrightarrow> e \<in> set p \<Longrightarrow> k \<le> fst e"
proof -
  obtain x rest where pop: "heap_pop (heap it) = Some (x, rest)" and x: "k = head_key x" "v = head_val x"
    and it': "it' = drop_dups k (refill (source x) (it\<lparr>heap := rest\<rparr>))"
    using n by (auto simp: merge_next_def split: option.splits prod.splits)
  show "wins ps k v" using popped_wins [OF ok srt pop] x by simp
  show le: "k \<le> fst e" if "p \<in> set ps" "e \<in> set p" for p e
    using popped_min [OF ok srt pop that] x by simp
  note r = pop_refill_ok [OF ok pop]
  let ?ps = "ps[source x := tl (ps ! source x)]"
  have "k \<le> fst e" if p: "p \<in> set ?ps" "e \<in> set p" for p e
  proof -
    have "p \<in> set ps \<or> p = tl (ps ! source x)" using set_update_subset_insert p(1) by fastforce
    then show ?thesis using le p(2) r(1) by (metis list.sel(2) list.set_sel(2) nth_mem)
  qed
  then have "it_ok it' (map (filter (\<lambda>e. fst e \<noteq> k)) ?ps)"
    unfolding it' by (rule drop_dups_ok [OF r(3) sorted_sources_update [OF srt r(1)]])
  then show "it_ok it' (map (filter (\<lambda>e. fst e \<noteq> k)) ps)"
    using filter_pop [OF r(1)] r(2) x(1) by metis
qed

lemma sorted_sources_filter: "sorted_sources ps \<Longrightarrow> sorted_sources (map (filter P) ps)"
  unfolding sorted_sources_def by (auto simp: sorted_wrt_map intro: sorted_wrt_filter)

lemma wins_mem: "wins ps k v \<Longrightarrow> \<exists>p\<in>set ps. (k, v) \<in> set p"
  unfolding wins_def by (meson map_of_SomeD nth_mem)

lemma merge_all_wins:
  assumes "it_ok it ps" and "sorted_sources ps"
  shows "sorted_wrt (<) (map fst (merge_all it)) \<and> ((k, v) \<in> set (merge_all it) \<longleftrightarrow> wins ps k v)"
  using assms
proof (induction "remaining it" arbitrary: it ps k v rule: less_induct)
  case less
  obtain r it' where n: "merge_next it = (r, it')" by force
  show ?case
  proof (cases r)
    case None
    then show ?thesis using merge_next_None [OF less.prems(1)] n by (simp add: merge_all.simps [of it])
  next
    case (Some e)
    obtain k0 v0 where e: "e = (k0, v0)" by force
    note s = merge_next_Some [OF less.prems, of k0 v0 it']
    let ?ps = "map (filter (\<lambda>e. fst e \<noteq> k0)) ps"
    have n': "merge_next it = (Some (k0, v0), it')" using n Some e by simp
    have ih: "sorted_wrt (<) (map fst (merge_all it'))" "(a, b) \<in> set (merge_all it') \<longleftrightarrow> wins ?ps a b" for a b
      using less.hyps [OF remaining_next [OF n'] s(2) [OF n'] sorted_sources_filter [OF less.prems(2)]] by blast+
    have all: "merge_all it = (k0, v0) # merge_all it'" by (simp add: merge_all.simps [of it] n')
    have "k0 < a" if "(a, b) \<in> set (merge_all it')" for a b
    proof -
      have w: "a \<noteq> k0" "wins ps a b" using that ih(2) wins_filter by blast+
      then obtain p where "p \<in> set ps" "(a, b) \<in> set p" using wins_mem by blast
      then have "k0 \<le> a" using s(3) [OF n'] by force
      with w(1) show ?thesis by simp
    qed
    then have "sorted_wrt (<) (map fst (merge_all it))" using ih(1) by (auto simp: all)
    moreover have "(k, v) \<in> set (merge_all it) \<longleftrightarrow> wins ps k v"
      using ih(2) [of k v] wins_filter [of k0 ps k v] s(1) [OF n'] wins_unique [of ps k0 v v0] by (auto simp: all)
    ultimately show ?thesis by blast
  qed
qed

section \<open>Properties\<close>

text \<open>C32 (merge_newest_wins): merging key-sorted sources yields every key that occurs in some source
  exactly once, in ascending order, with the version of the largest sequence number (the first
  source wins a tie).\<close>

theorem merge_newest_wins:
  assumes "sorted_sources ss"
  shows "sorted_wrt (<) (map fst (merge_all (merge_new ss)))
    \<and> ((k, v) \<in> set (merge_all (merge_new ss)) \<longleftrightarrow> wins ss k v)"
  using merge_all_wins [OF merge_new_ok assms] .

theorem merge_newest_wins_witness:
  "sorted_wrt (<) (map fst (merge_all (merge_new [[([1], iv_value 3 [7]), ([2], iv_value 1 [8])], [([2], iv_tombstone 5)]])))
    \<and> (([2], iv_tombstone 5) \<in> set (merge_all (merge_new [[([1], iv_value 3 [7]), ([2], iv_value 1 [8])], [([2], iv_tombstone 5)]]))
      \<longleftrightarrow> wins [[([1], iv_value 3 [7]), ([2], iv_value 1 [8])], [([2], iv_tombstone 5)]] [2] (iv_tombstone 5))"
  by (rule merge_newest_wins) (simp add: sorted_sources_def)

lemma live_all_visible:
  assumes "sorted_sources ss"
  shows "sorted_wrt (<) (map fst (live_all (merge_new ss)))
    \<and> ((k, b) \<in> set (live_all (merge_new ss)) \<longleftrightarrow> (\<exists>v. wins ss k v \<and> as_value v = Some b))"
proof
  let ?f = "\<lambda>(k, v). map_option (Pair k) (as_value v)" and ?rs = "merge_all (merge_new ss)"
  have m: "sorted_wrt (<) (map fst ?rs)" "(a, v) \<in> set ?rs \<longleftrightarrow> wins ss a v" for a v
    using merge_all_wins [OF merge_new_ok assms] by blast+
  have "sorted_wrt (<) (map fst (List.map_filter ?f xs))" if "sorted_wrt (<) (map fst xs)" for xs :: "entry list"
    using that by (induction xs) (auto simp: List.map_filter_def split: option.splits)
  then show "sorted_wrt (<) (map fst (live_all (merge_new ss)))" using m(1) by (simp add: live_all_merge_all)
  show "(k, b) \<in> set (live_all (merge_new ss)) \<longleftrightarrow> (\<exists>v. wins ss k v \<and> as_value v = Some b)"
    unfolding live_all_merge_all m(2) [symmetric] by (force simp: List.map_filter_def)
qed

text \<open>The tombstone-free iterator yields exactly the keys whose newest version
  is a value, with that value, in ascending key order.\<close>

theorem live_scan_sound:
  assumes "sorted_sources ss"
  shows "sorted_wrt (<) (map fst (live_all (merge_new ss)))
    \<and> ((k, b) \<in> set (live_all (merge_new ss)) \<longleftrightarrow> (\<exists>v. wins ss k v \<and> as_value v = Some b))"
  by (rule live_all_visible [OF assms])

theorem live_scan_sound_witness:
  "sorted_wrt (<) (map fst (live_all (merge_new [[([1], iv_value 3 [7]), ([2], iv_value 1 [8])], [([2], iv_tombstone 5)]])))
    \<and> (([1], [7]) \<in> set (live_all (merge_new [[([1], iv_value 3 [7]), ([2], iv_value 1 [8])], [([2], iv_tombstone 5)]]))
      \<longleftrightarrow> (\<exists>v. wins [[([1], iv_value 3 [7]), ([2], iv_value 1 [8])], [([2], iv_tombstone 5)]] [1] v \<and> as_value v = Some [7]))"
  by (rule live_scan_sound) (simp add: sorted_sources_def)

end
