(* ===== verification/Levels.thy ===== *)
theory Levels imports MergeIter begin

text \<open>
  The logical content of the engine: a list of sorted sources, newest first, in which the newest
  version of a key is the first one found. A point read returns the first hit; a merge of the same
  sources in any order returns the same versions; merging some adjacent levels into one, and
  dropping tombstones when nothing older lies below, changes nothing a reader can see.
\<close>

fun first_hit :: "entry list list \<Rightarrow> bytes \<Rightarrow> internal_value option" where
  "first_hit [] k = None"
| "first_hit (l # ls) k = (case map_of l k of Some v \<Rightarrow> Some v | None \<Rightarrow> first_hit ls k)"

definition visible :: "entry list list \<Rightarrow> bytes \<Rightarrow> bytes option" where
  "visible ls k = Option.bind (first_hit ls k) as_value"

definition holds_version :: "entry list list \<Rightarrow> bytes \<Rightarrow> internal_value \<Rightarrow> bool" where
  "holds_version ls k v \<longleftrightarrow> (\<exists>l\<in>set ls. map_of l k = Some v)"

text \<open>A version in a newer level is newer, or the same version.\<close>

fun newest_first :: "entry list list \<Rightarrow> bool" where
  "newest_first [] = True"
| "newest_first (l # ls) \<longleftrightarrow> newest_first ls \<and>
     (\<forall>k v w. map_of l k = Some v \<longrightarrow> holds_version ls k w \<longrightarrow> seq w < seq v \<or> w = v)"

lemma first_hit_append:
  "first_hit (xs @ ys) k = (case first_hit xs k of Some v \<Rightarrow> Some v | None \<Rightarrow> first_hit ys k)"
  by (induction xs) (auto split: option.splits)

lemma holds_version_simps [simp]:
  "holds_version [] k v \<longleftrightarrow> False"
  "holds_version (l # ls) k v \<longleftrightarrow> map_of l k = Some v \<or> holds_version ls k v"
  "holds_version (xs @ ys) k v \<longleftrightarrow> holds_version xs k v \<or> holds_version ys k v"
  "holds_version (rev xs) k v \<longleftrightarrow> holds_version xs k v"
  by (auto simp: holds_version_def)

lemma first_hit_None: "first_hit ls k = None \<longleftrightarrow> (\<forall>v. \<not> holds_version ls k v)"
  by (induction ls) (auto split: option.splits)

lemma first_hit_holds: "first_hit ls k = Some v \<Longrightarrow> holds_version ls k v"
  by (induction ls) (auto split: option.splits)

lemma newest_first_append:
  "newest_first (xs @ ys) \<longleftrightarrow> newest_first xs \<and> newest_first ys \<and>
     (\<forall>k v w. holds_version xs k v \<longrightarrow> holds_version ys k w \<longrightarrow> seq w < seq v \<or> w = v)"
  by (induction xs) (auto; blast)+

lemma first_hit_newest:
  assumes "newest_first ls"
  shows "first_hit ls k = Some v \<longleftrightarrow>
    holds_version ls k v \<and> (\<forall>w. holds_version ls k w \<longrightarrow> seq w < seq v \<or> w = v)"
  using assms
proof (induction ls)
  case (Cons l ls)
  show ?case
  proof (cases "map_of l k")
    case None
    then show ?thesis using Cons by auto
  next
    case (Some u)
    then have u: "\<And>w. holds_version ls k w \<Longrightarrow> seq w < seq u \<or> w = u" using Cons.prems by auto
    show ?thesis
    proof
      assume "first_hit (l # ls) k = Some v"
      then show "holds_version (l # ls) k v \<and> (\<forall>w. holds_version (l # ls) k w \<longrightarrow> seq w < seq v \<or> w = v)"
        using Some u by auto
    next
      assume v: "holds_version (l # ls) k v \<and> (\<forall>w. holds_version (l # ls) k w \<longrightarrow> seq w < seq v \<or> w = v)"
      then have "seq u < seq v \<or> u = v" using Some by auto
      moreover have "seq v < seq u \<or> v = u" using v u Some by auto
      ultimately show "first_hit (l # ls) k = Some v" using Some by auto
    qed
  qed
qed simp

text \<open>Any arrangement of the same sources merges to the versions the point read finds.\<close>

lemma wins_first_hit:
  assumes "newest_first ls" and "set ps = set ls"
  shows "wins ps k v \<longleftrightarrow> first_hit ls k = Some v"
proof -
  have h: "holds_version ls k w \<longleftrightarrow> (\<exists>j<length ps. map_of (ps ! j) k = Some w)" for w
    unfolding holds_version_def assms(2) [symmetric] by (metis in_set_conv_nth)
  show ?thesis
  proof
    assume w: "wins ps k v"
    then have v: "holds_version ls k v" unfolding h wins_def by blast
    then obtain u where u: "first_hit ls k = Some u" using first_hit_None [of ls k] by auto
    then have m: "holds_version ls k u" "seq v < seq u \<or> v = u"
      using first_hit_newest [OF assms(1)] v by blast+
    then have "seq u < seq v \<or> seq u = seq v" using w unfolding h wins_def by blast
    then show "first_hit ls k = Some v" using m(2) u by auto
  next
    assume f: "first_hit ls k = Some v"
    then have v: "holds_version ls k v" and max: "\<And>w. holds_version ls k w \<Longrightarrow> seq w < seq v \<or> w = v"
      using first_hit_newest [OF assms(1)] by blast+
    let ?P = "\<lambda>i. i < length ps \<and> map_of (ps ! i) k = Some v"
    have ex: "\<exists>i. ?P i" using v unfolding h by blast
    have "?P (LEAST i. ?P i)" by (rule LeastI_ex [OF ex])
    moreover have "(LEAST i. ?P i) \<le> j" if "?P j" for j using that by (rule Least_le)
    ultimately show "wins ps k v" unfolding wins_def using max h
      by (intro exI [of _ "LEAST i. ?P i"]) blast
  qed
qed

lemma merge_first_hit:
  assumes "newest_first ls" and "set ps = set ls" and "sorted_sources ps"
  shows "map_of (merge_all (merge_new ps)) = first_hit ls"
proof
  fix k
  have m: "sorted_wrt (<) (map fst (merge_all (merge_new ps)))"
    "\<And>v. (k, v) \<in> set (merge_all (merge_new ps)) \<longleftrightarrow> first_hit ls k = Some v"
    using merge_all_wins [OF merge_new_ok assms(3)] wins_first_hit [OF assms(1,2)] by blast+
  then show "map_of (merge_all (merge_new ps)) k = first_hit ls k"
    using strict_sorted_map_of [OF m(1), of k]
    by (cases "map_of (merge_all (merge_new ps)) k"; cases "first_hit ls k") auto
qed

section \<open>Replacing adjacent levels by their merge\<close>

lemma first_hit_merged:
  assumes "map_of m = first_hit mid"
  shows "first_hit (pre @ m # post) k = first_hit (pre @ mid @ post) k"
  by (simp add: first_hit_append assms split: option.split)

lemma newest_first_merged:
  assumes "newest_first (pre @ mid @ post)" and "\<And>k v. map_of m k = Some v \<Longrightarrow> first_hit mid k = Some v"
  shows "newest_first (pre @ m # post)"
proof -
  have "holds_version mid k v" if "map_of m k = Some v" for k v
    using assms(2) [OF that] by (rule first_hit_holds)
  then show ?thesis
    using assms(1) unfolding newest_first_append newest_first.simps holds_version_simps by blast
qed

text \<open>At the bottom, tombstones may be dropped: what remains visible is the same.\<close>

lemma visible_dropped:
  assumes "\<And>k. map_of m k = (case first_hit mid k of Some v \<Rightarrow> if is_tombstone v then None else Some v | None \<Rightarrow> None)"
  shows "visible (pre @ [m]) k = visible (pre @ mid) k"
  by (auto simp: visible_def first_hit_append assms is_tombstone_def as_value_def
      split: option.splits value_kind.splits)

lemma visible_merged:
  assumes "map_of m = first_hit mid"
  shows "visible (pre @ m # post) k = visible (pre @ mid @ post) k"
  using first_hit_merged [OF assms] by (simp add: visible_def)

text \<open>Empty levels are irrelevant.\<close>

lemma first_hit_empty [simp]: "first_hit (xs @ [] # ys) k = first_hit (xs @ ys) k"
  by (simp add: first_hit_append split: option.split)

lemma map_of_filter_sorted:
  assumes "sorted_wrt (<) (map fst m)"
  shows "map_of (filter (\<lambda>(_, v). P v) m) (k :: 'a :: linorder)
    = (case map_of m k of Some v \<Rightarrow> if P v then Some v else None | None \<Rightarrow> None)"
proof -
  have s: "sorted_wrt (<) (map fst (filter (\<lambda>(_, v). P v) m))"
    using assms by (simp add: sorted_wrt_map sorted_wrt_filter)
  have "map_of (filter (\<lambda>(_, v). P v) m) k = Some v \<longleftrightarrow> map_of m k = Some v \<and> P v" for v
    unfolding strict_sorted_map_of [OF s, symmetric] strict_sorted_map_of [OF assms, symmetric] by auto
  then have "map_of (filter (\<lambda>(_, v). P v) m) k = Some v \<longleftrightarrow>
      (case map_of m k of Some v \<Rightarrow> if P v then Some v else None | None \<Rightarrow> None) = Some v" for v
    by (auto split: option.split)
  then show ?thesis by (metis not_Some_eq)
qed

end
