(* ===== verification/Log_Frame.thy ===== *)
theory Log_Frame imports Wal_Open begin

text \<open>
  What the log leaves alone. Every operation of the log touches only segment files and the scratch
  file of a truncation, and syncs the directory; a predicate of the disk that is closed under these
  is kept by all of them, whether the power fails or not.
\<close>

definition log_path :: "path \<Rightarrow> path \<Rightarrow> bool" where
  "log_path dir p \<longleftrightarrow> parent p = Some dir \<and> (parse_segment_id p \<noteq> None \<or> (\<exists>i. p = tmp_path dir i))"

definition log_closed :: "path \<Rightarrow> (disk \<Rightarrow> bool) \<Rightarrow> bool" where
  "log_closed dir F \<longleftrightarrow> (\<forall>D. F D \<longrightarrow> F (disk_sync_dir dir D) \<and> (\<forall>p. log_path dir p \<longrightarrow>
     F (disk_create p D) \<and> (\<forall>x. F (disk_append p x D)) \<and> F (disk_sync_file p D) \<and> F (disk_delete p D)
     \<and> (\<forall>q. log_path dir q \<longrightarrow> F (disk_rename p q D))))"

lemma log_closedD:
  assumes "log_closed dir F" and "F D"
  shows "F (disk_sync_dir dir D)" and "log_path dir p \<Longrightarrow> F (disk_create p D)" and "log_path dir p \<Longrightarrow> F (disk_append p x D)"
    and "log_path dir p \<Longrightarrow> F (disk_sync_file p D)" and "log_path dir p \<Longrightarrow> F (disk_delete p D)"
    and "log_path dir p \<Longrightarrow> log_path dir q \<Longrightarrow> F (disk_rename p q D)"
  using assms by (auto simp: log_closed_def)

lemma log_path_segment [simp]: "log_path dir (segment_path dir i)"
  and log_path_tmp [simp]: "log_path dir (tmp_path dir i)"
  by (auto simp: log_path_def tmp_path_def)

text \<open>One or several operations, from one state of the backend to another.\<close>

definition fs_step ::
  "('s \<Rightarrow> bool) \<Rightarrow> ('s \<Rightarrow> disk) \<Rightarrow> ('s \<Rightarrow> disk \<Rightarrow> bool) \<Rightarrow> (disk \<Rightarrow> bool) \<Rightarrow> 's \<Rightarrow> 's \<Rightarrow> bool" where
  "fs_step up dsk down F a b \<longleftrightarrow>
     (up a \<and> F (dsk a) \<longrightarrow> up b \<and> F (dsk b) \<or> (\<exists>D. down b D \<and> F D)) \<and> (\<forall>D. down a D \<longrightarrow> b = a)"

definition alive :: "('s \<Rightarrow> bool) \<Rightarrow> ('s \<Rightarrow> disk) \<Rightarrow> ('s \<Rightarrow> disk \<Rightarrow> bool) \<Rightarrow> (disk \<Rightarrow> bool) \<Rightarrow> 's \<Rightarrow> bool" where
  "alive up dsk down F a \<longleftrightarrow> up a \<and> F (dsk a) \<or> (\<exists>D. down a D)"

lemma fs_step_alive: "fs_step up dsk down F a b \<Longrightarrow> alive up dsk down F a \<Longrightarrow> alive up dsk down F b"
  by (auto simp: fs_step_def alive_def)

lemma fs_step_refl [simp]: "fs_step up dsk down F a a"
  by (simp add: fs_step_def)

lemma fs_step_trans: "fs_step up dsk down F a b \<Longrightarrow> fs_step up dsk down F b c \<Longrightarrow> fs_step up dsk down F a c"
  unfolding fs_step_def by metis

text \<open>A fallible step of an object that works on the backend \<open>p s\<close>, with an invariant \<open>I\<close> of the
  object's memory and a predicate \<open>R\<close> of its result.\<close>

definition keeps ::
  "('f \<Rightarrow> bool) \<Rightarrow> ('f \<Rightarrow> disk) \<Rightarrow> ('f \<Rightarrow> disk \<Rightarrow> bool) \<Rightarrow> (disk \<Rightarrow> bool) \<Rightarrow> ('s \<Rightarrow> 'f) \<Rightarrow> ('s \<Rightarrow> bool) \<Rightarrow> ('a \<Rightarrow> bool)
    \<Rightarrow> ('s \<Rightarrow> ('e + 'a) \<times> 's) \<Rightarrow> bool" where
  "keeps up dsk down F p I R f \<longleftrightarrow> (\<forall>s. I s \<and> alive up dsk down F (p s) \<longrightarrow> I (snd (f s)) \<and> fs_step up dsk down F (p s) (p (snd (f s)))
     \<and> (\<forall>x. fst (f s) = Inr x \<longrightarrow> R x))"

named_theorems keeps_intro \<open>rules for programs that keep a predicate of the disk\<close>

lemma keeps_then [keeps_intro]:
  assumes f: "keeps up dsk down F p I R f" and g: "\<And>x. R x \<Longrightarrow> keeps up dsk down F p I R' (g x)"
  shows "keeps up dsk down F p I R' (\<lambda>s. ok_then (f s) g)"
  unfolding keeps_def
proof (intro allI impI)
  fix s assume I: "I s \<and> alive up dsk down F (p s)"
  obtain r s' where r: "f s = (r, s')" by force
  have 0: "I s' \<and> alive up dsk down F (p s')"
    using f [unfolded keeps_def, rule_format, OF I] I by (auto simp: r intro: fs_step_alive)
  have 1: "I s'" "fs_step up dsk down F (p s) (p s')" "\<And>x. r = Inr x \<Longrightarrow> R x"
    using f [unfolded keeps_def, rule_format, OF I] by (simp_all add: r)
  show "I (snd (ok_then (f s) g)) \<and> fs_step up dsk down F (p s) (p (snd (ok_then (f s) g)))
      \<and> (\<forall>x. fst (ok_then (f s) g) = Inr x \<longrightarrow> R' x)"
  proof (cases r)
    case (Inr x)
    have "I (snd (g x s')) \<and> fs_step up dsk down F (p s') (p (snd (g x s'))) \<and> (\<forall>y. fst (g x s') = Inr y \<longrightarrow> R' y)"
      using g [OF 1(3) [OF Inr], unfolded keeps_def, rule_format, OF 0] by blast
    then show ?thesis using fs_step_trans [OF 1(2)] by (simp add: r Inr)
  qed (use 1 in \<open>simp add: r\<close>)
qed

lemma keeps_pure [keeps_intro]: "(\<And>x. r = Inr x \<Longrightarrow> R x) \<Longrightarrow> keeps up dsk down F p I R (\<lambda>s. (r, s))"
  by (simp add: keeps_def)

lemma keeps_weaken: "keeps up dsk down F p I R f \<Longrightarrow> (\<And>x. R x \<Longrightarrow> R' x) \<Longrightarrow> keeps up dsk down F p I R' f"
  unfolding keeps_def by blast

lemma keeps_if [keeps_intro]:
  "keeps up dsk down F p I R f \<Longrightarrow> keeps up dsk down F p I R g \<Longrightarrow> keeps up dsk down F p I R (\<lambda>s. if P s then f s else g s)"
  by (simp add: keeps_def)

context crash_fs
begin

abbreviation "fkeeps F R f \<equiv> keeps up disk down F (\<lambda>s. s) (\<lambda>_. True) R f"

lemma keeps_op:
  fixes op :: "'fs \<Rightarrow> (storage_error + 'c) \<times> 'fs"
  assumes up: "\<And>s. up s \<Longrightarrow> F (disk s) \<Longrightarrow> (\<exists>e. op s = (Inl e, s)) \<or>
      (\<exists>y s' D. op s = (y, s') \<and> F D \<and> (up s' \<and> disk s' = D \<or> down s' D))"
    and dn: "\<And>s D. down s D \<Longrightarrow> \<exists>e. op s = (Inl e, s)"
  shows "fkeeps F (\<lambda>_. True) op"
  unfolding keeps_def fs_step_def
proof (intro allI impI conjI TrueI)
  fix s
  show "up (snd (op s)) \<and> F (disk (snd (op s))) \<or> (\<exists>D. down (snd (op s)) D \<and> F D)" if "up s \<and> F (disk s)"
    using up [of s] that by auto
  show "snd (op s) = s" if "down s D" for D using dn [OF that] by auto
qed

lemma keeps_create:
  assumes F: "log_closed dir F" and "log_path dir p"
  shows "fkeeps F (\<lambda>_. True) (st_create S p)"
proof (rule keeps_op)
  fix s assume u: "up s" "F (disk s)"
  show "(\<exists>e. st_create S p s = (Inl e, s)) \<or> (\<exists>y s' D. st_create S p s = (y, s') \<and> F D \<and> (up s' \<and> disk s' = D \<or> down s' D))"
    using cf_create [OF u(1), of p] cf_create_exists [OF u(1), of p] log_closedD [OF F u(2)] assms(2-) by (cases "d_view (disk s) p") blast+
qed (rule cf_down)

lemma keeps_append:
  assumes F: "log_closed dir F" and "log_path dir p"
  shows "fkeeps F (\<lambda>_. True) (st_append S p x)"
proof (rule keeps_op)
  fix s assume u: "up s" "F (disk s)"
  show "(\<exists>e. st_append S p x s = (Inl e, s)) \<or> (\<exists>y s' D. st_append S p x s = (y, s') \<and> F D \<and> (up s' \<and> disk s' = D \<or> down s' D))"
    using cf_append [OF u(1), of p _ x] cf_missing(1) [OF u(1), of p x] log_closedD [OF F u(2)] assms(2-) by (cases "d_view (disk s) p") blast+
qed (rule cf_down)

lemma keeps_sync_file:
  assumes F: "log_closed dir F" and "log_path dir p"
  shows "fkeeps F (\<lambda>_. True) (st_sync_file S p)"
proof (rule keeps_op)
  fix s assume u: "up s" "F (disk s)"
  show "(\<exists>e. st_sync_file S p s = (Inl e, s)) \<or> (\<exists>y s' D. st_sync_file S p s = (y, s') \<and> F D \<and> (up s' \<and> disk s' = D \<or> down s' D))"
    using cf_sync_file [OF u(1), of p] cf_missing(2) [OF u(1), of p] log_closedD [OF F u(2)] assms(2-) by (cases "d_view (disk s) p") blast+
qed (rule cf_down)

lemma keeps_delete:
  assumes F: "log_closed dir F" and "log_path dir p"
  shows "fkeeps F (\<lambda>_. True) (st_delete S p)"
proof (rule keeps_op)
  fix s assume u: "up s" "F (disk s)"
  show "(\<exists>e. st_delete S p s = (Inl e, s)) \<or> (\<exists>y s' D. st_delete S p s = (y, s') \<and> F D \<and> (up s' \<and> disk s' = D \<or> down s' D))"
    using cf_delete [OF u(1), of p] cf_delete_missing [OF u(1), of p] log_closedD [OF F u(2)] assms(2-) by (cases "d_view (disk s) p") blast+
qed (rule cf_down)

lemma keeps_sync_dir:
  assumes F: "log_closed dir F"
  shows "fkeeps F (\<lambda>_. True) (st_sync_dir S dir)"
proof (rule keeps_op)
  fix s assume u: "up s" "F (disk s)"
  show "(\<exists>e. st_sync_dir S dir s = (Inl e, s)) \<or> (\<exists>y s' D. st_sync_dir S dir s = (y, s') \<and> F D \<and> (up s' \<and> disk s' = D \<or> down s' D))"
    using cf_sync_dir [OF u(1), of dir] log_closedD [OF F u(2)] by blast
qed (rule cf_down)

lemma keeps_rename:
  assumes F: "log_closed dir F" and "log_path dir p" and "log_path dir q" and ne: "p \<noteq> q"
  shows "fkeeps F (\<lambda>_. True) (st_rename S p q)"
proof (rule keeps_op)
  fix s assume u: "up s" "F (disk s)"
  have par: "parent p = parent q" using assms(2,3) by (simp add: log_path_def)
  show "(\<exists>e. st_rename S p q s = (Inl e, s)) \<or> (\<exists>y s' D. st_rename S p q s = (y, s') \<and> F D \<and> (up s' \<and> disk s' = D \<or> down s' D))"
    using cf_rename [OF u(1) _ ne par] cf_missing(3) [OF u(1), of p q] log_closedD [OF F u(2)] assms(2-) by (cases "d_view (disk s) p") blast+
qed (rule cf_down)

text \<open>Truncating the tail, and opening.\<close>

lemma keeps_quiet:
  assumes "fkeeps F R (f :: 'fs \<Rightarrow> ('e + 'a) \<times> 'fs)" and "fkeeps F R' (g :: 'fs \<Rightarrow> ('e2 + 'b) \<times> 'fs)"
  shows "fkeeps F R' (\<lambda>s. g (snd (f s)))"
  unfolding keeps_def
proof (intro allI impI)
  fix s assume s: "True \<and> alive up disk down F s"
  have 1: "fs_step up disk down F s (snd (f s))" using assms(1) [unfolded keeps_def, rule_format, OF s] by blast
  then have "True \<and> alive up disk down F (snd (f s))" using fs_step_alive [OF 1] s by blast
  from assms(2) [unfolded keeps_def, rule_format, OF this] fs_step_trans [OF 1]
  show "True \<and> fs_step up disk down F s (snd (g (snd (f s)))) \<and> (\<forall>x. fst (g (snd (f s))) = Inr x \<longrightarrow> R' x)"
    by blast
qed

lemma keeps_truncate:
  assumes F: "log_closed dir F"
  shows "fkeeps F (\<lambda>_. True) (truncate_tail S dir t n)"
proof -
  let ?tmp = "tmp_path dir t" and ?p = "segment_path dir t"
  have ne: "?tmp \<noteq> ?p" by simp
  have "fkeeps F (\<lambda>_. True) (\<lambda>s. ok_then (st_create S ?tmp (snd (st_delete S ?tmp s))) (\<lambda>_ s.
         ok_then (st_append S ?tmp b s) (\<lambda>_ s. ok_then (st_sync_file S ?tmp s) (\<lambda>_ s.
         ok_then (st_rename S ?tmp ?p s) (\<lambda>_ s. st_sync_dir S dir s)))))" for b
    by (rule keeps_then [OF keeps_quiet [OF keeps_delete [OF F] keeps_create [OF F]]]
          keeps_then [OF keeps_append [OF F]] keeps_then [OF keeps_sync_file [OF F]]
          keeps_then [OF keeps_rename [OF F _ _ ne]] keeps_sync_dir [OF F] log_path_tmp log_path_segment)+
  then show ?thesis
    unfolding keeps_def truncate_tail_def Let_def by (auto split: sum.split)
qed

lemma keeps_segment:
  assumes F: "log_closed dir F"
  shows "fkeeps F (\<lambda>g. log_path dir (seg_path g)) (segment_create S dir i)"
    and "log_path dir (seg_path g) \<Longrightarrow> fkeeps F (\<lambda>g. log_path dir (seg_path g)) (segment_append S g bs)"
    and "log_path dir (seg_path g) \<Longrightarrow> fkeeps F (\<lambda>_. True) (segment_sync S g)"
  unfolding segment_create_def segment_append_def segment_sync_def Let_def
  by (rule keeps_then [OF keeps_create [OF F]] keeps_then [OF keeps_append [OF F]] keeps_sync_file [OF F] keeps_pure
      log_path_segment | assumption | force)+

end

section \<open>The log\<close>

definition active_ok :: "path \<Rightarrow> 'fs wal \<Rightarrow> bool" where
  "active_ok dir W \<longleftrightarrow> log_path dir (seg_path (active W))"

context crash_fs
begin

abbreviation "wkeeps dir F R f \<equiv> keeps up disk down F wfs (active_ok dir) R f"

lemma keeps_on_fs: "fkeeps F R m \<Longrightarrow> wkeeps dir F R (on_fs m)"
  unfolding keeps_def by (auto simp: on_fs_def active_ok_def case_prod_unfold Let_def)

text \<open>A step that looks at the state first.\<close>

lemma keeps_look: "(\<And>W0. active_ok dir W0 \<Longrightarrow> wkeeps dir F R (f W0)) \<Longrightarrow> wkeeps dir F R (\<lambda>W. f W W)"
  unfolding keeps_def by blast

lemma keeps_assign: "log_path dir (seg_path g) \<Longrightarrow> wkeeps dir F (\<lambda>_. True) (\<lambda>W. (Inr (), W\<lparr>active := g\<rparr>))"
  by (simp add: keeps_def active_ok_def)

lemma keeps_active:
  assumes F: "log_closed dir F"
  shows "wkeeps dir F (\<lambda>_. True) (active_append S bs)" and "wkeeps dir F (\<lambda>_. True) (active_sync S)"
proof -
  show "wkeeps dir F (\<lambda>_. True) (active_sync S)"
    unfolding active_sync_def [abs_def]
    by (rule keeps_look [where f = "\<lambda>W. on_fs (segment_sync S (active W))"])
       (simp add: active_ok_def keeps_on_fs keeps_segment(3) [OF F])
  have "wkeeps dir F (\<lambda>g. log_path dir (seg_path g)) (\<lambda>W. on_fs (segment_append S (active W) bs) W)"
    by (rule keeps_look [where f = "\<lambda>W. on_fs (segment_append S (active W) bs)"])
       (simp add: active_ok_def keeps_on_fs keeps_segment(2) [OF F])
  then show "wkeeps dir F (\<lambda>_. True) (active_append S bs)"
    unfolding active_append_def [abs_def] by (rule keeps_then) (rule keeps_assign)
qed

lemma keeps_maybe_rotate:
  assumes F: "log_closed dir F" and dir: "wal_dir cfg = dir"
  shows "wkeeps dir F (\<lambda>_. True) (maybe_rotate S cfg)"
proof -
  have "wkeeps dir F (\<lambda>_. True) (\<lambda>W. ok_then (active_sync S W) (\<lambda>_ W.
       ok_then (on_fs (segment_create S dir i) W) (\<lambda>seg W.
       ok_then (on_fs (st_sync_dir S dir) W) (\<lambda>_ W. (Inr (), W\<lparr>active := seg\<rparr>)))))" for i
    by (rule keeps_then [OF keeps_active(2) [OF F]] keeps_then [OF keeps_on_fs [OF keeps_segment(1) [OF F]]]
        keeps_then [OF keeps_on_fs [OF keeps_sync_dir [OF F]]] keeps_assign | assumption)+
  then show ?thesis
    unfolding keeps_def maybe_rotate_def dir by (auto simp: Let_def)
qed

lemma keeps_append_batch: "log_closed dir F \<Longrightarrow> wkeeps dir F (\<lambda>_. True) (append_batch S batch)"
proof (induction batch)
  case (Cons b rest)
  have "wkeeps dir F (\<lambda>_. True) (\<lambda>W. ok_then (active_append S (snd b) W) (\<lambda>_. append_batch S rest))"
    by (rule keeps_then [OF keeps_active(1)] Cons | rule Cons)+
  then show ?case by (cases b) simp
qed (simp add: keeps_def)

lemma keeps_write_batch:
  assumes F: "log_closed dir F" and dir: "wal_dir cfg = dir"
  shows "wkeeps dir F (\<lambda>_. True) (write_batch S cfg batch)"
  unfolding write_batch_def [abs_def]
  by (rule keeps_then [OF keeps_append_batch [OF F]] keeps_then [OF keeps_active(2) [OF F]] keeps_maybe_rotate [OF F dir])+

lemma keeps_delete_all:
  "log_closed dir F \<Longrightarrow> \<forall>p\<in>set ps. log_path dir p \<Longrightarrow> fkeeps F (\<lambda>_. True) (delete_all S ps)"
proof (induction ps)
  case (Cons p ps)
  have "fkeeps F (\<lambda>_. True) (\<lambda>s. ok_then (st_delete S p s) (\<lambda>_. delete_all S ps))"
    using Cons by (intro keeps_then [OF keeps_delete]) auto
  then show ?case by simp
qed (simp add: keeps_def)

text \<open>Appending in any mode: \<open>None\<close> is a caller that parks.\<close>

lemma append_keeps:
  assumes F: "log_closed dir F" and dir: "wal_dir cfg = dir" and W: "active_ok dir W" "alive up disk down F (wfs W)"
    and app: "wal_append crc S cfg x W = Some (r, W')"
  shows "active_ok dir W' \<and> fs_step up disk down F (wfs W) (wfs W')"
proof -
  have use: "active_ok dir W1 \<and> fs_step up disk down F (wfs W) (wfs W1)"
    if "wkeeps dir F (\<lambda>_. True) f" "f W0 = (r, W1)" "wfs W0 = wfs W" "active W0 = active W" for f :: "'fs wal \<Rightarrow> (storage_error + unit) \<times> 'fs wal" and W0 W1
  proof -
    have "active_ok dir W0 \<and> alive up disk down F (wfs W0)" using W that(3,4) by (simp add: active_ok_def)
    from that(1) [unfolded keeps_def, rule_format, OF this] show ?thesis using that(2,3) by simp
  qed
  show ?thesis
  proof (cases "wal_durability cfg")
    case Always
    then have "write_batch S cfg [(0, encode crc x)] W = (r, W')"
      using app by (simp add: wal_append_def commit_sync_now_batch)
    then show ?thesis using use [OF keeps_write_batch [OF F dir]] by blast
  next
    case OsBuffered
    have "wkeeps dir F (\<lambda>_. True) (\<lambda>W. commit_buffered S cfg (encode crc x) W)"
      unfolding commit_buffered_def by (rule keeps_then [OF keeps_active(1) [OF F]]) (rule keeps_maybe_rotate [OF F dir])
    then show ?thesis using app OsBuffered use [of "\<lambda>W. commit_buffered S cfg (encode crc x) W"] by (simp add: wal_append_def)
  next
    case GroupCommit
    obtain my_seq c1 where e: "group_enqueue (encode crc x) (coord W) = (my_seq, c1)" by force
    obtain role c2 where d: "group_decide my_seq c1 = (role, c2)" by force
    note u = wal_append_def GroupCommit commit_group_def e d
    show ?thesis
    proof (cases role)
      case (Lead batch)
      obtain io W1 where b: "write_batch S cfg batch (W\<lparr>coord := c2\<rparr>) = (io, W1)" by force
      then have "W' = W1\<lparr>coord := group_publish my_seq batch io (coord W1)\<rparr>" "r = io"
        using app by (auto simp: u Lead)
      moreover from this b have "write_batch S cfg batch (W\<lparr>coord := c2\<rparr>) = (r, W1)" by simp
      then have "active_ok dir W1 \<and> fs_step up disk down F (wfs W) (wfs W1)"
        using use [OF keeps_write_batch [OF F dir], of batch "W\<lparr>coord := c2\<rparr>" W1] by simp
      ultimately show ?thesis by (simp add: active_ok_def)
    qed (use app W in \<open>auto simp: u active_ok_def\<close>)
  qed
qed

text \<open>The listing names files of the directory only.\<close>

lemma list_segments_paths:
  assumes "alive up disk down F s" and "list_segments S dir s = Inr segs" and "(i, p) \<in> set segs"
  shows "log_path dir p"
proof -
  obtain ps where ps: "st_list S dir s = Inr ps" and set: "set segs = set (List.map_filter (\<lambda>p. map_option (\<lambda>i. (i, p)) (parse_segment_id p)) ps)"
    using assms(2) by (auto simp: list_segments_def)
  have "\<forall>p\<in>set ps. parent p = Some dir"
  proof (cases "up s")
    case True
    then show ?thesis using fs_list [OF True, of dir] ps by auto
  next
    case False
    then have "\<exists>D. down s D" using assms(1) by (simp add: alive_def)
    then show ?thesis using down_reads.fs_list [of s dir] ps by auto
  qed
  then show ?thesis using assms(3) unfolding set by (auto simp: map_filter_def log_path_def)
qed

lemma keeps_reset:
  assumes F: "log_closed dir F" and dir: "wal_dir cfg = dir"
  shows "wkeeps dir F (\<lambda>_. True) (wal_reset S cfg)"
  unfolding keeps_def
proof (intro allI impI)
  fix W :: "'fs wal" assume W: "active_ok dir W \<and> alive up disk down F (wfs W)"
  show "active_ok dir (snd (wal_reset S cfg W)) \<and> fs_step up disk down F (wfs W) (wfs (snd (wal_reset S cfg W)))
    \<and> (\<forall>x. fst (wal_reset S cfg W) = Inr x \<longrightarrow> True)"
  proof (cases "list_segments S dir (wfs W)")
    case (Inl e)
    then show ?thesis using W by (simp add: wal_reset_def dir)
  next
    case (Inr segs)
    have lp: "\<forall>p\<in>set (map snd segs). log_path dir p"
      using list_segments_paths [OF _ Inr] W by (auto simp: active_ok_def)
    have "wkeeps dir F (\<lambda>_. True) (\<lambda>W. ok_then (on_fs (segment_create S dir i) W) (\<lambda>fresh W.
              ok_then (on_fs (st_sync_dir S dir) W) (\<lambda>_ W.
              ok_then (on_fs (delete_all S (map snd segs)) W) (\<lambda>_ W.
              ok_then (on_fs (st_sync_dir S dir) W) (\<lambda>_ W. (Inr (), W\<lparr>active := fresh\<rparr>))))))" for i
      by (rule keeps_then [OF keeps_on_fs [OF keeps_segment(1) [OF F]]]
          keeps_then [OF keeps_on_fs [OF keeps_sync_dir [OF F]]] keeps_then [OF keeps_on_fs [OF keeps_delete_all [OF F lp]]]
          keeps_assign | assumption)+
    from this [unfolded keeps_def, rule_format, OF W] show ?thesis by (simp add: wal_reset_def dir Inr Let_def)
  qed
qed

lemma keeps_open:
  assumes F: "log_closed dir F"
  shows "fkeeps F (\<lambda>x. active_ok dir (fst x)) (wal_open crc S dir)"
  unfolding keeps_def
proof (intro allI impI)
  fix s :: 'fs assume s: "True \<and> alive up disk down F s"
  let ?R = "\<lambda>x :: 'fs wal \<times> recovered. active_ok dir (fst x)"
  have seg: "fkeeps F (\<lambda>g. log_path dir (seg_path g)) (\<lambda>s. if segs \<noteq> [] then (segment_open S dir (fst (last segs)) s, s)
      else ok_then (segment_create S dir 1 s) (\<lambda>seg s. ok_then (st_sync_dir S dir s) (\<lambda>_ s. (Inr seg, s))))" for segs :: "(u64 \<times> path) list"
  proof (rule keeps_if)
    show "fkeeps F (\<lambda>g. log_path dir (seg_path g)) (\<lambda>s. (segment_open S dir (fst (last segs)) s, s))"
      by (auto simp: keeps_def segment_open_def Let_def)
    show "fkeeps F (\<lambda>g. log_path dir (seg_path g)) (\<lambda>s. ok_then (segment_create S dir 1 s) (\<lambda>seg s.
        ok_then (st_sync_dir S dir s) (\<lambda>_ s. (Inr seg, s))))"
      by (rule keeps_then [OF keeps_segment(1) [OF F]] keeps_then [OF keeps_sync_dir [OF F]] keeps_pure | simp)+
  qed
  have tail: "fkeeps F ?R (open_active S dir rec)" for rec
    unfolding keeps_def
  proof (intro allI impI)
    fix s :: 'fs assume s: "True \<and> alive up disk down F s"
    show "True \<and> fs_step up disk down F s (snd (open_active S dir rec s)) \<and> (\<forall>x. fst (open_active S dir rec s) = Inr x \<longrightarrow> ?R x)"
    proof (cases "list_segments S dir s")
      case (Inr segs)
      have "fkeeps F ?R (\<lambda>s. ok_then (if segs \<noteq> [] then (segment_open S dir (fst (last segs)) s, s)
          else ok_then (segment_create S dir 1 s) (\<lambda>seg s. ok_then (st_sync_dir S dir s) (\<lambda>_ s. (Inr seg, s)))) (\<lambda>seg s.
          (Inr (\<lparr>wfs = s, active = seg, coord = default_coord\<rparr>, rec), s)))"
        by (rule keeps_then [OF seg]) (simp add: keeps_def active_ok_def)
      from this [unfolded keeps_def, rule_format, OF s] show ?thesis by (simp add: open_active_def Inr)
    qed (simp add: open_active_def)
  qed
  show "True \<and> fs_step up disk down F s (snd (wal_open crc S dir s)) \<and> (\<forall>x. fst (wal_open crc S dir s) = Inr x \<longrightarrow> ?R x)"
  proof (cases "recover crc S dir s")
    case (Inr rec)
    have "fkeeps F (\<lambda>_. True) (\<lambda>s. if stop_reason rec \<noteq> Clean
        then (case tail_segment rec of Some tail \<Rightarrow> truncate_tail S dir tail (tail_valid_len rec) s | None \<Rightarrow> (Inr (), s))
        else (Inr (), s))"
      by (rule keeps_if; cases "tail_segment rec") (simp_all add: keeps_truncate [OF F] keeps_pure)
    from keeps_then [OF this tail [of rec], unfolded keeps_def, rule_format, OF s] show ?thesis
      by (simp add: wal_open_split [OF Inr])
  qed (simp add: wal_open_def)
qed

end

end
