(* ===== verification/Manifest.thy ===== *)
theory Manifest imports Sstable Storage Frame "HOL-Library.Multiset" begin

text \<open>
  The manifest (\<open>src/src/manifest.rs\<close>): table metadata, immutable versions of the tier layout, the
  file format, the atomic switch to a new version and the collection of unreferenced table files.
  A version is shared as an \<open>Arc\<close>: its identity is a number, and \<open>m_pins\<close> counts the references
  held outside the manifest, which is what \<open>Arc::strong_count(v) > 1\<close> sees.
\<close>

section \<open>Errors and metadata\<close>

datatype manifest_error = Mf_storage storage_error | Mf_corrupt string

definition MANIFEST_NAME :: string where "MANIFEST_NAME = ''MANIFEST''"
definition MANIFEST_TMP :: string where "MANIFEST_TMP = ''MANIFEST.tmp''"
definition MANIFEST_MAGIC :: u64 where "MANIFEST_MAGIC = 0x414343525F4D4652"
definition MANIFEST_FORMAT :: u32 where "MANIFEST_FORMAT = 1"

record table_meta =
  tm_id :: u64
  tm_entries :: u64
  tm_first :: bytes
  tm_last :: bytes

definition key_in_range :: "table_meta \<Rightarrow> bytes \<Rightarrow> bool" where
  "key_in_range t key \<longleftrightarrow> tm_first t \<le> key \<and> key \<le> tm_last t"

section \<open>Versions\<close>

record version =
  tiers :: "table_meta list list"
  v_next_seq :: u64
  v_next_id :: u64

definition version_empty :: version where
  "version_empty = \<lparr>tiers = [], v_next_seq = 1, v_next_id = 1\<rparr>"

definition all_tables :: "version \<Rightarrow> table_meta list" where
  "all_tables v = concat (tiers v)"

definition referenced_ids :: "version \<Rightarrow> u64 set" where
  "referenced_ids v = tm_id ` set (all_tables v)"

definition tier_len :: "version \<Rightarrow> nat \<Rightarrow> nat" where
  "tier_len v t = (if t < length (tiers v) then length (tiers v ! t) else 0)"

definition num_tiers :: "version \<Rightarrow> nat" where
  "num_tiers v = length (tiers v)"

definition tables_newest_first :: "version \<Rightarrow> table_meta list" where
  "tables_newest_first v = concat (map rev (tiers v))"

text \<open>\<open>id + 1\<close> wraps at the width; see the bounds on identifiers in the theorems.\<close>

definition flushed :: "version \<Rightarrow> table_meta \<Rightarrow> u64 \<Rightarrow> version" where
  "flushed v table sq =
     (let ts = (if tiers v = [] then [[]] else tiers v)
      in v\<lparr>tiers := ts[0 := ts ! 0 @ [table]], v_next_seq := max sq (v_next_seq v),
           v_next_id := max (v_next_id v) (tm_id table + 1)\<rparr>)"

definition trim_empty :: "'a list list \<Rightarrow> 'a list list" where
  "trim_empty ts = rev (dropWhile (\<lambda>t. t = []) (rev ts))"

definition compacted :: "version \<Rightarrow> nat \<Rightarrow> table_meta \<Rightarrow> version" where
  "compacted v t out =
     (let ts = tiers v @ replicate (t + 2 - length (tiers v)) [];
          ts = ts[t := []];
          ts = ts[t + 1 := ts ! (t + 1) @ [out]]
      in v\<lparr>tiers := trim_empty ts, v_next_id := max (v_next_id v) (tm_id out + 1)\<rparr>)"

section \<open>The file format\<close>

definition put_bytes :: "bytes \<Rightarrow> bytes" where
  "put_bytes b = u32_le (of_nat (length b)) @ b"

definition encode_meta :: "table_meta \<Rightarrow> bytes" where
  "encode_meta t = u64_le (tm_id t) @ u64_le (tm_entries t) @ put_bytes (tm_first t) @ put_bytes (tm_last t)"

definition encode_tier :: "table_meta list \<Rightarrow> bytes" where
  "encode_tier tier = u32_le (of_nat (length tier)) @ concat (map encode_meta tier)"

definition encode_version :: "crc \<Rightarrow> version \<Rightarrow> bytes" where
  "encode_version crc v =
     (let body = u64_le MANIFEST_MAGIC @ u32_le MANIFEST_FORMAT @ u64_le (v_next_seq v) @ u64_le (v_next_id v)
            @ u32_le (of_nat (length (tiers v))) @ concat (map encode_tier (tiers v))
      in body @ u32_le (crc body))"

text \<open>The manifest's own \<open>Reader\<close> has the fields of the table cursor and errors of its own.\<close>

definition rd_take :: "nat \<Rightarrow> cursor \<Rightarrow> (manifest_error + bytes) \<times> cursor" where
  "rd_take n r =
     (if length (cur_buf r) - cur_pos r < n
      then (Inl (Mf_corrupt (''unexpected end: need '' @ dec n @ '', have ''
              @ dec (length (cur_buf r) - cur_pos r))), r)
      else (Inr (take n (drop (cur_pos r) (cur_buf r))), r\<lparr>cur_pos := cur_pos r + n\<rparr>))"

definition rd_u32 :: "cursor \<Rightarrow> (manifest_error + u32) \<times> cursor" where
  "rd_u32 r = ok_then (rd_take 4 r) (\<lambda>b r. (Inr (le_u32 b), r))"

definition rd_u64 :: "cursor \<Rightarrow> (manifest_error + u64) \<times> cursor" where
  "rd_u64 r = ok_then (rd_take 8 r) (\<lambda>b r. (Inr (le_u64 b), r))"

definition rd_bytes :: "cursor \<Rightarrow> (manifest_error + bytes) \<times> cursor" where
  "rd_bytes r = ok_then (rd_u32 r) (\<lambda>n r. rd_take (unat n) r)"

definition decode_meta :: "cursor \<Rightarrow> (manifest_error + table_meta) \<times> cursor" where
  "decode_meta r =
     ok_then (rd_u64 r) (\<lambda>tid r.
     ok_then (rd_u64 r) (\<lambda>n r.
     ok_then (rd_bytes r) (\<lambda>first r.
     ok_then (rd_bytes r) (\<lambda>last r.
       (Inr \<lparr>tm_id = tid, tm_entries = n, tm_first = first, tm_last = last\<rparr>, r)))))"

definition decode_tier :: "cursor \<Rightarrow> (manifest_error + table_meta list) \<times> cursor" where
  "decode_tier r = ok_then (rd_u32 r) (\<lambda>num_tables r. repeat_dec decode_meta (unat num_tables) [] r)"

definition decode_body :: "bytes \<Rightarrow> (manifest_error + version) \<times> cursor" where
  "decode_body body =
     ok_then (rd_u64 (cur_new body)) (\<lambda>magic r.
     if magic \<noteq> MANIFEST_MAGIC then (Inl (Mf_corrupt ''magic mismatch''), r)
     else ok_then (rd_u32 r) (\<lambda>format r.
     if format \<noteq> MANIFEST_FORMAT then (Inl (Mf_corrupt (''unsupported format '' @ dec (unat format))), r)
     else ok_then (rd_u64 r) (\<lambda>next_seq r.
     ok_then (rd_u64 r) (\<lambda>next_id r.
     ok_then (rd_u32 r) (\<lambda>num_tiers r.
     ok_then (repeat_dec decode_tier (unat num_tiers) [] r) (\<lambda>ts r.
       (Inr \<lparr>tiers = ts, v_next_seq = next_seq, v_next_id = next_id\<rparr>, r)))))))"

definition decode_version :: "crc \<Rightarrow> bytes \<Rightarrow> manifest_error + version" where
  "decode_version crc b =
     (if length b < 4 then Inl (Mf_corrupt ''shorter than a crc'')
      else let body = take (length b - 4) b; stored = le_u32 (drop (length b - 4) b); actual = crc body
           in if stored \<noteq> actual
              then Inl (Mf_corrupt (''crc mismatch: stored '' @ hex_u32 stored @ '', computed '' @ hex_u32 actual))
              else fst (decode_body body))"

section \<open>Files\<close>

definition table_path :: "path \<Rightarrow> u64 \<Rightarrow> path" where
  "table_path dir tid = join dir (zero_pad 20 (dec (unat tid)) @ ''.sst'')"

definition parse_table_id :: "path \<Rightarrow> u64 option" where
  "parse_table_id p =
     (case file_name p of None \<Rightarrow> None
      | Some name \<Rightarrow> (case strip_suffix ''.sst'' name of None \<Rightarrow> None | Some stem \<Rightarrow> parse_u64 stem))"

definition write_manifest :: "crc \<Rightarrow> 'fs storage \<Rightarrow> path \<Rightarrow> version \<Rightarrow> 'fs \<Rightarrow> (manifest_error + unit) \<times> 'fs" where
  "write_manifest crc S dir v s =
     (let tmp = join dir MANIFEST_TMP; dst = join dir MANIFEST_NAME; bytes = encode_version crc v
      in err_map Mf_storage
           (ok_then (st_create S tmp (snd (st_delete S tmp s)))
           (\<lambda>_ s. ok_then (st_append S tmp bytes s)
           (\<lambda>_ s. ok_then (st_sync_file S tmp s)
           (\<lambda>_ s. ok_then (st_rename S tmp dst s)
           (\<lambda>_ s. st_sync_dir S dir s))))))"

section \<open>The handle\<close>

type_synonym arc_version = "nat \<times> version"

record manifest =
  m_dir :: path
  m_current :: arc_version
  m_obsolete :: "arc_version list"
  m_next_arc :: nat
  m_pins :: "nat multiset"

definition manifest_open :: "crc \<Rightarrow> 'fs storage \<Rightarrow> path \<Rightarrow> 'fs \<Rightarrow> (manifest_error + manifest) \<times> 'fs" where
  "manifest_open crc S dir s =
     (let p = join dir MANIFEST_NAME;
          load = (\<lambda>s. (res_then (res_err Mf_storage (st_len S p s)) (\<lambda>len.
                       res_then (res_err Mf_storage (st_read_at S p 0 len s)) (decode_version crc)), s));
          fresh = (\<lambda>s. ok_then (write_manifest crc S dir version_empty s) (\<lambda>_ s. (Inr version_empty, s)))
      in ok_then (case st_open S p s of Inr _ \<Rightarrow> load s | Inl _ \<Rightarrow> fresh s) (\<lambda>v s.
           (Inr \<lparr>m_dir = dir, m_current = (0, v), m_obsolete = [], m_next_arc = 1, m_pins = {#}\<rparr>, s)))"

text \<open>\<open>current\<close> clones the \<open>Arc\<close>; \<open>drop_version\<close> is the end of the clone's scope.\<close>

definition manifest_current :: "manifest \<Rightarrow> arc_version \<times> manifest" where
  "manifest_current m = (m_current m, m\<lparr>m_pins := add_mset (fst (m_current m)) (m_pins m)\<rparr>)"

definition drop_version :: "nat \<Rightarrow> manifest \<Rightarrow> manifest" where
  "drop_version a m = m\<lparr>m_pins := m_pins m - {#a#}\<rparr>"

definition live_ids :: "manifest \<Rightarrow> u64 set" where
  "live_ids m = referenced_ids (snd (m_current m)) \<union> (\<Union>v\<in>snd ` set (m_obsolete m). referenced_ids v)"

fun gc_delete :: "'fs storage \<Rightarrow> u64 set \<Rightarrow> path list \<Rightarrow> bool \<Rightarrow> 'fs \<Rightarrow> (manifest_error + bool) \<times> 'fs" where
  "gc_delete S live [] deleted_any s = (Inr deleted_any, s)"
| "gc_delete S live (p # ps) deleted_any s =
     (case parse_table_id p of
        Some tid \<Rightarrow>
          if tid \<notin> live
          then ok_then (err_map Mf_storage (st_delete S p s)) (\<lambda>_ s. gc_delete S live ps True s)
          else gc_delete S live ps deleted_any s
      | None \<Rightarrow> gc_delete S live ps deleted_any s)"

definition retain_pinned :: "manifest \<Rightarrow> manifest" where
  "retain_pinned m = m\<lparr>m_obsolete := filter (\<lambda>(a, _). a \<in># m_pins m) (m_obsolete m)\<rparr>"

definition manifest_gc :: "'fs storage \<Rightarrow> manifest \<times> 'fs \<Rightarrow> (manifest_error + unit) \<times> manifest \<times> 'fs" where
  "manifest_gc S = (\<lambda>(m, s).
     let m = retain_pinned m
     in case st_list S (m_dir m) s of
          Inl e \<Rightarrow> (Inl (Mf_storage e), (m, s))
        | Inr ps \<Rightarrow>
            let (r, s) = ok_then (gc_delete S (live_ids m) ps False s) (\<lambda>deleted_any s.
                  if deleted_any then err_map Mf_storage (st_sync_dir S (m_dir m) s) else (Inr (), s))
            in (r, (m, s)))"

definition manifest_install ::
  "crc \<Rightarrow> 'fs storage \<Rightarrow> version \<Rightarrow> manifest \<times> 'fs \<Rightarrow> (manifest_error + unit) \<times> manifest \<times> 'fs" where
  "manifest_install crc S new = (\<lambda>(m, s).
     let (r, s) = write_manifest crc S (m_dir m) new s
     in case r of
          Inl e \<Rightarrow> (Inl e, (m, s))
        | Inr _ \<Rightarrow>
            manifest_gc S (m\<lparr>m_current := (m_next_arc m, new), m_obsolete := m_obsolete m @ [m_current m],
                             m_next_arc := m_next_arc m + 1\<rparr>, s))"

section \<open>Round trips\<close>

lemma rd_take_at: "n = length x \<Longrightarrow> rd_take n (cur_at p (x @ r)) = (Inr x, cur_at (p @ x) r)"
  by (simp add: rd_take_def cur_at_def)

lemma rd_u32_at [simp]: "rd_u32 (cur_at p (u32_le w @ r)) = (Inr w, cur_at (p @ u32_le w) r)"
  by (simp add: rd_u32_def rd_take_at)

lemma rd_u64_at [simp]: "rd_u64 (cur_at p (u64_le w @ r)) = (Inr w, cur_at (p @ u64_le w) r)"
  by (simp add: rd_u64_def rd_take_at)

interpretation bytes_codec: codec put_bytes rd_bytes cur_at "\<lambda>b. length b < 2 ^ 32"
  by unfold_locales (simp_all add: rd_bytes_def put_bytes_def rd_take_at cur_at_inject)

definition meta_fits :: "table_meta \<Rightarrow> bool" where
  "meta_fits t \<longleftrightarrow> length (tm_first t) < 2 ^ 32 \<and> length (tm_last t) < 2 ^ 32"

interpretation meta_codec: codec encode_meta decode_meta cur_at meta_fits
proof unfold_locales
  fix t :: table_meta and p r assume "meta_fits t"
  then show "decode_meta (cur_at p (encode_meta t @ r)) = (Inr t, cur_at (p @ encode_meta t) r)"
    by (simp add: decode_meta_def encode_meta_def meta_fits_def bytes_codec.dec_enc)
qed (rule cur_at_inject)

definition tier_fits :: "table_meta list \<Rightarrow> bool" where
  "tier_fits ts \<longleftrightarrow> length ts < 2 ^ 32 \<and> list_all meta_fits ts"

interpretation tier_codec: codec encode_tier decode_tier cur_at tier_fits
proof unfold_locales
  fix ts :: "table_meta list" and p r assume "tier_fits ts"
  then show "decode_tier (cur_at p (encode_tier ts @ r)) = (Inr ts, cur_at (p @ encode_tier ts) r)"
    using meta_codec.repeat_dec_enc [of ts "[]" "p @ u32_le (of_nat (length ts))" r]
    by (simp add: decode_tier_def encode_tier_def tier_fits_def)
qed (rule cur_at_inject)

definition version_fits :: "version \<Rightarrow> bool" where
  "version_fits v \<longleftrightarrow> length (tiers v) < 2 ^ 32 \<and> list_all tier_fits (tiers v)"

lemma decode_encode_version:
  assumes "version_fits v"
  shows "decode_version crc (encode_version crc v) = Inr v"
proof -
  let ?hd = "u64_le MANIFEST_MAGIC @ u32_le MANIFEST_FORMAT @ u64_le (v_next_seq v) @ u64_le (v_next_id v)
    @ u32_le (of_nat (length (tiers v)))"
  let ?body = "?hd @ concat (map encode_tier (tiers v))"
  have "repeat_dec decode_tier (length (tiers v)) [] (cur_at ?hd (concat (map encode_tier (tiers v))))
      = (Inr (tiers v), cur_at ?body [])"
    using tier_codec.repeat_dec_enc [of "tiers v" "[]" ?hd "[]"] assms by (simp add: version_fits_def)
  then have "fst (decode_body ?body) = Inr v"
    using assms by (simp add: decode_body_def cur_new_at version_fits_def)
  then show ?thesis by (simp add: decode_version_def encode_version_def Let_def)
qed

lemma parse_table_path [simp]: "parse_table_id (table_path dir tid) = Some tid"
  by (simp add: parse_table_id_def table_path_def)

lemma table_path_inject [simp]: "table_path dir a = table_path dir b \<longleftrightarrow> a = b"
  by (metis option.inject parse_table_path)

lemma parent_table_path [simp]: "parent (table_path dir tid) = Some dir"
  by (simp add: table_path_def)

text \<open>The names of the manifest are not table names.\<close>

lemma strip_sst_manifest: "strip_suffix ''.sst'' MANIFEST_NAME = None" "strip_suffix ''.sst'' MANIFEST_TMP = None"
  by (simp_all add: strip_suffix_def MANIFEST_NAME_def MANIFEST_TMP_def)

lemma parse_manifest_names [simp]:
  "parse_table_id (join dir MANIFEST_NAME) = None" "parse_table_id (join dir MANIFEST_TMP) = None"
  by (simp_all add: parse_table_id_def strip_sst_manifest)

lemma manifest_names_ne [simp]:
  "join dir MANIFEST_TMP \<noteq> join dir' MANIFEST_NAME" "join dir' MANIFEST_NAME \<noteq> join dir MANIFEST_TMP"
  "table_path d tid \<noteq> join dir MANIFEST_NAME" "table_path d tid \<noteq> join dir MANIFEST_TMP"
  "join dir MANIFEST_NAME \<noteq> table_path d tid" "join dir MANIFEST_TMP \<noteq> table_path d tid"
  by (auto simp: MANIFEST_NAME_def MANIFEST_TMP_def dest: arg_cong [where f = parse_table_id])
    (metis option.simps(3) parse_manifest_names parse_table_path MANIFEST_NAME_def MANIFEST_TMP_def)+

end
