(* ===== verification/Manifest_Crash.thy ===== *)
theory Manifest_Crash imports Manifest Crash begin

text \<open>
  The manifest on a backend whose power may fail at any operation: the switch to a new version is
  atomic, and the collection that follows removes exactly the table files no live version
  references.
\<close>

section \<open>Deleting a set of files\<close>

definition disk_deletes :: "path set \<Rightarrow> disk \<Rightarrow> disk" where
  "disk_deletes X D = D\<lparr>d_view := (\<lambda>p. if p \<in> X then None else d_view D p),
     d_sync := (\<lambda>p. if p \<in> X then None else d_sync D p),
     d_linked := (\<lambda>r q. r \<notin> X \<and> d_linked D r q)\<rparr>"

lemma disk_deletes_empty [simp]: "disk_deletes {} D = D"
  by (simp add: disk_deletes_def)

lemma disk_deletes_sel [simp]:
  "d_view (disk_deletes X D) p = (if p \<in> X then None else d_view D p)"
  "d_sync (disk_deletes X D) p = (if p \<in> X then None else d_sync D p)"
  "d_images (disk_deletes X D) = d_images D"
  by (simp_all add: disk_deletes_def)

lemma disk_delete_deletes: "disk_delete p (disk_deletes X D) = disk_deletes (insert p X) D"
  by (intro disk.equality) (auto simp: disk_delete_def disk_deletes_def fun_eq_iff)

definition garbage :: "u64 set \<Rightarrow> path set \<Rightarrow> path set" where
  "garbage live ps = {p \<in> ps. \<exists>tid. parse_table_id p = Some tid \<and> tid \<notin> live}"

lemma garbage_insert:
  "garbage live (insert p ps) = (if \<exists>tid. parse_table_id p = Some tid \<and> tid \<notin> live
     then insert p (garbage live ps) else garbage live ps)"
  by (auto simp: garbage_def)

text \<open>The disk after a collection.\<close>

definition collected :: "u64 set \<Rightarrow> path \<Rightarrow> disk \<Rightarrow> disk" where
  "collected live dir D =
     (let X = garbage live {p. d_view D p \<noteq> None \<and> parent p = Some dir}
      in if X = {} then D else disk_sync_dir dir (disk_deletes X D))"

definition gc_run :: "'fs storage \<Rightarrow> u64 set \<Rightarrow> path \<Rightarrow> path list \<Rightarrow> 'fs \<Rightarrow> (manifest_error + unit) \<times> 'fs" where
  "gc_run S live dir ps s = ok_then (gc_delete S live ps False s) (\<lambda>deleted_any s.
     if deleted_any then err_map Mf_storage (st_sync_dir S dir s) else (Inr (), s))"

lemma manifest_tmp_name: "MANIFEST_TMP \<noteq> MANIFEST_NAME"
  by (simp add: MANIFEST_TMP_def MANIFEST_NAME_def)

context crash_fs
begin

section \<open>The atomic switch\<close>

lemma runs_write_manifest:
  assumes s: "up s"
    and C: "\<And>D. d_images D = d_images (disk s) \<Longrightarrow> C D"
      "C (disk_replace dir (join dir MANIFEST_TMP) (join dir MANIFEST_NAME) (encode_version crc v) (disk s))"
    and Q: "Q (Inr ()) (disk_replace dir (join dir MANIFEST_TMP) (join dir MANIFEST_NAME) (encode_version crc v) (disk s))"
  shows "runs up disk down (write_manifest crc S dir v) C Q s"
proof -
  have "runs up disk down (\<lambda>s. err_map Mf_storage
      (ok_then (st_create S (join dir MANIFEST_TMP) (snd (st_delete S (join dir MANIFEST_TMP) s)))
      (\<lambda>_ s. ok_then (st_append S (join dir MANIFEST_TMP) (encode_version crc v) s)
      (\<lambda>_ s. ok_then (st_sync_file S (join dir MANIFEST_TMP) s)
      (\<lambda>_ s. ok_then (st_rename S (join dir MANIFEST_TMP) (join dir MANIFEST_NAME) s)
      (\<lambda>_ s. st_sync_dir S dir s)))))) C Q s"
    by (rule runs_err_map, rule runs_replace [OF s]) (simp_all add: C Q manifest_tmp_name)
  then show ?thesis by (simp add: write_manifest_def [abs_def] Let_def)
qed

lemma write_manifest_down: "down s D \<Longrightarrow> \<exists>e. write_manifest crc S dir v s = (Inl e, s)"
proof -
  assume d: "down s D"
  obtain e where e: "st_delete S (join dir MANIFEST_TMP) s = (Inl e, s)" using cf_down(6) [OF d] by blast
  obtain e' where "st_create S (join dir MANIFEST_TMP) s = (Inl e', s)" using cf_down(1) [OF d] by blast
  then show ?thesis by (simp add: write_manifest_def Let_def e)
qed

section \<open>Collection\<close>

lemma gc_delete_down:
  assumes "down s D"
  shows "\<exists>r. gc_delete S live ps d s = (r, s) \<and> (\<forall>y. r = Inr y \<longrightarrow> y = d \<and> garbage live (set ps) = {})"
proof (induction ps)
  case (Cons p ps)
  show ?case
  proof (cases "\<exists>tid. parse_table_id p = Some tid \<and> tid \<notin> live")
    case True
    then obtain tid where "parse_table_id p = Some tid" "tid \<notin> live" by blast
    moreover obtain e where "st_delete S p s = (Inl e, s)" using cf_down(6) [OF assms] by blast
    ultimately show ?thesis by simp
  next
    case False
    then show ?thesis using Cons by (auto simp: garbage_insert split: option.split)
  qed
qed (simp add: garbage_def)

lemma runs_gc_delete:
  assumes "up s" and "distinct ps" and "\<forall>p\<in>set ps. d_view (disk s) p \<noteq> None"
    and "disk s = disk_deletes X D0"
    and C: "\<And>Y. Y \<subseteq> X \<union> garbage live (set ps) \<Longrightarrow> C (disk_deletes Y D0)"
  shows "runs up disk down (gc_delete S live ps d) C
    (\<lambda>r D. r = Inr (d \<or> garbage live (set ps) \<noteq> {}) \<and> D = disk_deletes (X \<union> garbage live (set ps)) D0) s"
  using assms
proof (induction ps arbitrary: s d X)
  case Nil
  then show ?case by (simp add: runs_def garbage_def)
next
  case (Cons p ps)
  show ?case
  proof (cases "\<exists>tid. parse_table_id p = Some tid \<and> tid \<notin> live")
    case False
    then have "gc_delete S live (p # ps) d = gc_delete S live ps d"
      by (auto simp: fun_eq_iff split: option.split)
    moreover have g: "garbage live (set (p # ps)) = garbage live (set ps)" using False by (auto simp: garbage_def)
    ultimately show ?thesis
      using Cons.IH [OF Cons.prems(1) _ _ Cons.prems(4)] Cons.prems(2,3,5) unfolding g by simp
  next
    case True
    then obtain tid where tid: "parse_table_id p = Some tid" "tid \<notin> live" by blast
    then have g: "garbage live (set (p # ps)) = insert p (garbage live (set ps))" by (auto simp: garbage_def)
    obtain c where v: "d_view (disk s) p = Some c" using Cons.prems(3) by auto
    let ?Q = "\<lambda>r D. r = Inr (d \<or> garbage live (set (p # ps)) \<noteq> {}) \<and>
      D = disk_deletes (X \<union> garbage live (set (p # ps))) D0"
    have D1: "disk_delete p (disk s) = disk_deletes (insert p X) D0"
      by (simp add: Cons.prems(4) disk_delete_deletes)
    have "runs up disk down (\<lambda>s. ok_then (err_map Mf_storage (st_delete S p s)) (\<lambda>_ s. gc_delete S live ps True s)) C ?Q s"
    proof (rule runs_then_quiet [where P = "\<lambda>_ D. D = disk_deletes (insert p X) D0"])
      have "insert p X \<subseteq> X \<union> garbage live (set (p # ps))" unfolding g by blast
      then have C1: "C (disk_deletes (insert p X) D0)" by (rule Cons.prems(5))
      show "runs up disk down (\<lambda>s. err_map Mf_storage (st_delete S p s)) C
          (\<lambda>r D. \<exists>x. r = Inr x \<and> D = disk_deletes (insert p X) D0) s"
        by (rule runs_err_map, rule runs_delete [OF Cons.prems(1) v]) (simp_all add: D1 C1)
      have C2: "C (disk_deletes Y D0)" if "Y \<subseteq> insert p X \<union> garbage live (set ps)" for Y
        using that by (intro Cons.prems(5)) (unfold g, blast)
      fix s' assume s': "up s'" "disk s' = disk_deletes (insert p X) D0"
      have "d_view (disk s') q \<noteq> None" if "q \<in> set ps" for q
        using that Cons.prems(2,3) Cons.prems(4) s'(2) by auto
      then have "runs up disk down (gc_delete S live ps True) C (\<lambda>r D. r = Inr (True \<or> garbage live (set ps) \<noteq> {}) \<and>
          D = disk_deletes (insert p X \<union> garbage live (set ps)) D0) s'"
        using Cons.prems(2) by (intro Cons.IH [OF s'(1) _ _ s'(2)] C2) auto
      then show "runs up disk down (\<lambda>s. gc_delete S live ps True s) C ?Q s'"
        by (rule runs_weaken) (unfold g, auto)
    next
      fix s' D assume d': "down s' D" "D = disk_deletes (insert p X) D0"
      obtain r where "gc_delete S live ps True s' = (r, s')" "\<forall>y. r = Inr y \<longrightarrow> y = True \<and> garbage live (set ps) = {}"
        using gc_delete_down [OF d'(1)] by blast
      then show "\<exists>r. gc_delete S live ps True s' = (r, s') \<and> (\<forall>y. r = Inr y \<longrightarrow> ?Q (Inr y) D)"
        using d'(2) unfolding g by auto
    qed
    then show ?thesis using tid by simp
  qed
qed

lemma runs_gc:
  assumes s: "up s" and ps: "distinct ps" "set ps = {p. d_view (disk s) p \<noteq> None \<and> parent p = Some dir}"
    and C: "\<And>Y. Y \<subseteq> garbage live (set ps) \<Longrightarrow> C (disk_deletes Y (disk s))" "C (collected live dir (disk s))"
  shows "runs up disk down (gc_run S live dir ps) C (\<lambda>r D. r = Inr () \<and> D = collected live dir (disk s)) s"
proof -
  let ?G = "garbage live (set ps)"
  have col: "collected live dir (disk s) = (if ?G = {} then disk s else disk_sync_dir dir (disk_deletes ?G (disk s)))"
    by (simp add: collected_def ps(2) Let_def)
  have "runs up disk down (\<lambda>s. ok_then (gc_delete S live ps False s) (\<lambda>deleted_any s.
     if deleted_any then err_map Mf_storage (st_sync_dir S dir s) else (Inr (), s))) C
     (\<lambda>r D. r = Inr () \<and> D = collected live dir (disk s)) s"
  proof (rule runs_then_quiet [where P = "\<lambda>x D. x = (?G \<noteq> {}) \<and> D = disk_deletes ?G (disk s)"])
    have "runs up disk down (gc_delete S live ps False) C
        (\<lambda>r D. r = Inr (False \<or> ?G \<noteq> {}) \<and> D = disk_deletes ({} \<union> ?G) (disk s)) s"
      using s ps C(1) by (intro runs_gc_delete) auto
    then show "runs up disk down (gc_delete S live ps False) C
        (\<lambda>r D. \<exists>x. r = Inr x \<and> x = (?G \<noteq> {}) \<and> D = disk_deletes ?G (disk s)) s"
      by (rule runs_weaken) auto
    fix x s' assume s': "up s'" and P: "x = (?G \<noteq> {}) \<and> disk s' = disk_deletes ?G (disk s)"
    show "runs up disk down (\<lambda>s. if x then err_map Mf_storage (st_sync_dir S dir s) else (Inr (), s)) C
        (\<lambda>r D. r = Inr () \<and> D = collected live dir (disk s)) s'"
    proof (cases x)
      case True
      have "runs up disk down (\<lambda>s. err_map Mf_storage (st_sync_dir S dir s)) C
          (\<lambda>r D. r = Inr () \<and> D = collected live dir (disk s)) s'"
        using s' P True C(2) by (intro runs_err_map runs_sync_dir) (simp_all add: col)
      then show ?thesis by (simp add: True)
    next
      case False
      then show ?thesis using s' P by (simp add: runs_def col)
    qed
  next
    fix x s' D assume d: "down s' D" and P: "x = (?G \<noteq> {}) \<and> D = disk_deletes ?G (disk s)"
    show "\<exists>r. (if x then err_map Mf_storage (st_sync_dir S dir s') else (Inr (), s')) = (r, s')
        \<and> (\<forall>y. r = Inr y \<longrightarrow> Inr y = Inr () \<and> D = collected live dir (disk s))"
    proof (cases x)
      case True
      obtain e where "st_sync_dir S dir s' = (Inl e, s')" using cf_down(4) [OF d] by blast
      then show ?thesis using True by simp
    next
      case False
      then show ?thesis using P by (simp add: col)
    qed
  qed
  then show ?thesis by (simp add: gc_run_def [abs_def])
qed

lemma reaches_gc:
  assumes s: "up s" and dir: "m_dir m = dir" and live: "live = live_ids (retain_pinned m)"
    and C: "\<And>Y. Y \<subseteq> garbage live UNIV \<Longrightarrow> C (disk_deletes Y (disk s))" "C (collected live dir (disk s))"
  shows "reaches up disk down (manifest_gc S) C
    (\<lambda>r m' D. r = Inr () \<and> m' = retain_pinned m \<and> D = collected live dir (disk s)) (m, s)"
proof -
  obtain ps where ps: "st_list S dir s = Inr ps" "sorted_wrt (<) ps"
    "set ps = {p. d_view (disk s) p \<noteq> None \<and> parent p = Some dir}"
    using fs_list [OF s, of dir] by blast
  have d: "distinct ps" using ps(2) by (simp add: strict_sorted_iff)
  have C1: "C (disk_deletes Y (disk s))" if "Y \<subseteq> garbage live (set ps)" for Y
    using that by (intro C(1)) (auto simp: garbage_def)
  show ?thesis
  proof (rule reaches_mem_call [where op = "gc_run S live dir ps" and g = "\<lambda>e. e" and ?m1.0 = "retain_pinned m"
        and h = Inr and ?m2.0 = "\<lambda>_. retain_pinned m"])
    show "runs up disk down (gc_run S live dir ps) C (\<lambda>r D. \<exists>x. r = Inr x \<and> Inr x = Inr () \<and>
        retain_pinned m = retain_pinned m \<and> D = collected live dir (disk s)) s"
      by (rule runs_weaken [OF runs_gc [OF s d ps(3) C1 C(2)]]) auto
    have "m_dir (retain_pinned m) = dir" by (simp add: retain_pinned_def dir)
    then have "manifest_gc S (m, s) = (let (r, s) = gc_run S live dir ps s in (r, (retain_pinned m, s)))"
      by (simp add: manifest_gc_def gc_run_def ps(1) live Let_def cong: if_cong)
    then show "manifest_gc S (m, s) = mem_call (gc_run S live dir ps) (\<lambda>e. e) (retain_pinned m) Inr (\<lambda>_. retain_pinned m) s"
      by (simp add: mem_call_def split: prod.split sum.split)
  qed
qed

lemma stays_gc: "stays down (manifest_gc S)"
  unfolding stays_def
proof (intro allI impI)
  fix m :: manifest and s D assume d: "down s D"
  show "snd (snd (manifest_gc S (m, s))) = s"
  proof (cases "st_list S (m_dir (retain_pinned m)) s")
    case (Inr ps)
    obtain r where r: "gc_delete S (live_ids (retain_pinned m)) ps False s = (r, s)"
      using gc_delete_down [OF d] by blast
    obtain e where "st_sync_dir S (m_dir (retain_pinned m)) s = (Inl e, s)" using cf_down(4) [OF d] by blast
    then show ?thesis by (cases r) (auto simp: manifest_gc_def Inr r Let_def)
  qed (simp add: manifest_gc_def)
qed

end

end
