(* ===== verification/Wal_Reset.thy ===== *)
theory Wal_Reset imports Wal_Open Manifest_Crash begin

text \<open>
  Resetting the log: a fresh segment is created and made durable, the old segments are deleted. A
  power loss on the way leaves either all records or none.
\<close>

lemma durable_log_images: "d_images D' = d_images D \<Longrightarrow> durable_log crc dir D' recs pend = durable_log crc dir D recs pend"
  by (simp add: durable_log_def img_log_def no_log_def canonical_images_def)

lemma fold_max_le: "a \<le> t \<Longrightarrow> \<forall>x\<in>set xs. x \<le> t \<Longrightarrow> fold max xs a \<le> (t :: 'a :: linorder)"
  by (induction xs arbitrary: a) auto

lemma fold_max_sorted: "sorted_wrt (<) (xs @ [t]) \<Longrightarrow> fold max (xs @ [t]) 0 = (t :: u64)"
proof -
  assume "sorted_wrt (<) (xs @ [t])"
  then have "fold max xs 0 \<le> t" by (intro fold_max_le) (auto simp: sorted_wrt_append intro: less_imp_le)
  then show ?thesis by (simp add: max_def)
qed

context crash_fs
begin

lemma runs_delete_all:
  assumes "up s" and "distinct ps" and "\<forall>p\<in>set ps. d_view (disk s) p \<noteq> None" and "disk s = disk_deletes X D0"
    and C: "\<And>D. d_images D = d_images D0 \<Longrightarrow> C D"
    and Q: "Q (Inr ()) (disk_deletes (X \<union> set ps) D0)"
  shows "runs up disk down (delete_all S ps) C Q s"
  using assms
proof (induction ps arbitrary: s X)
  case Nil
  then show ?case by (simp add: runs_def)
next
  case (Cons p ps)
  obtain c where v: "d_view (disk s) p = Some c" using Cons.prems(3) by auto
  have D1: "disk_delete p (disk s) = disk_deletes (insert p X) D0"
    by (simp add: Cons.prems(4) disk_delete_deletes)
  have "runs up disk down (\<lambda>s. ok_then (st_delete S p s) (\<lambda>_ s. delete_all S ps s)) C Q s"
  proof (rule runs_then_quiet [where P = "\<lambda>_ D. D = disk_deletes (insert p X) D0"])
    show "runs up disk down (st_delete S p) C (\<lambda>r D. \<exists>x. r = Inr x \<and> D = disk_deletes (insert p X) D0) s"
      by (rule runs_delete [OF Cons.prems(1) v]) (simp_all add: D1 Cons.prems(5))
    fix s' assume s': "up s'" "disk s' = disk_deletes (insert p X) D0"
    have "d_view (disk s') q \<noteq> None" if "q \<in> set ps" for q
      using that Cons.prems(2-4) s'(2) by auto
    then show "runs up disk down (\<lambda>s. delete_all S ps s) C Q s'"
      using Cons.prems(2,5,6) by (intro Cons.IH [OF s'(1) _ _ s'(2)]) auto
  next
    fix s' D assume d: "down s' D" "D = disk_deletes (insert p X) D0"
    show "\<exists>r. delete_all S ps s' = (r, s') \<and> (\<forall>y. r = Inr y \<longrightarrow> Q (Inr y) D)"
    proof (cases ps)
      case Nil
      then show ?thesis using d(2) Cons.prems(6) by (simp add: Un_commute)
    next
      case (Cons q qs)
      obtain e where "st_delete S q s' = (Inl e, s')" using cf_down(6) [OF d(1)] by blast
      then show ?thesis by (simp add: Cons)
    qed
  qed
  then show ?case by simp
qed

end

text \<open>The log after the old segments are gone.\<close>

lemma wal_inv_deleted:
  assumes inv: "wal_inv crc dir D \<lparr>seg_id = t, seg_path = segment_path dir t, write_offset = 0\<rparr> lead [] []"
    and X: "X = segment_path dir ` fst ` set lead"
  shows "wal_inv crc dir (disk_sync_dir dir (disk_deletes X D)) \<lparr>seg_id = t, seg_path = segment_path dir t, write_offset = 0\<rparr> [] [] []"
proof -
  let ?D = "disk_sync_dir dir (disk_deletes X D)"
  note d = wal_invD [OF inv, simplified]
  note l = log_filesD [OF d(1)]
  have t: "segment_path dir t \<notin> X" using map_of_lead(2) [OF d(3)] by (force simp: X)
  have v: "d_view ?D p = (if p \<in> X then None else d_view D p)" for p
    by (simp add: disk_sync_dir_def)
  have none: "d_view ?D (segment_path dir i) = None" if "i \<noteq> t" for i
    using l(5) [of i] that v [of "segment_path dir i"] by (auto simp: X)
  have canon: "canonical_names dir (dom (d_view ?D))" using l(4) by (auto simp: v canonical_names_def split: if_splits)
  have at: "d_view ?D (segment_path dir t) = Some []" using l(3) t by (simp add: v)
  have "d_view ?D (segment_path dir i) \<noteq> None \<longleftrightarrow> i = t" for i
    using none [of i] at by (cases "i = t") simp_all
  then have files: "log_files crc dir (d_view ?D) [] t (frames crc [])"
    using at canon by (simp add: log_files_def)
  have im: "d_images ?D q = (case d_view ?D q of None \<Rightarrow> {None} | Some c \<Rightarrow> Some ` tears (the (d_sync ?D q)) c)"
    if "parent q = Some dir" for q
    using that by (simp add: disk_sync_dir_def split: option.split)
  have sy: "d_sync ?D (segment_path dir t) = Some []" using d(7) t by (simp add: disk_sync_dir_def)
  have "d_images ?D (segment_path dir i) = seg_images crc [] t [] [] i" for i
    using none [of i] im [of "segment_path dir i"] sy l(3) t by (cases "i = t") (simp_all add: seg_images_def v)
  moreover have "canonical_images dir ?D"
    unfolding canonical_images_def
  proof (intro allI impI)
    fix p i assume p: "parent p = Some dir" "parse_segment_id p = Some i" "p \<noteq> segment_path dir i"
    then have "d_view ?D p = None" using canon unfolding canonical_names_def by blast
    then show "d_images ?D p = {None}" using im [OF p(1)] by simp
  qed
  moreover have "log_shape crc [] t []" by (simp add: log_shape_def addressable_def)
  ultimately have "img_log crc dir ?D [] t [] []" by (simp add: img_log_def)
  moreover have "d_linked ?D (segment_path dir t) q \<longleftrightarrow> q = segment_path dir t" for q
    using d(8) t l(3) by (auto simp: disk_sync_dir_def disk_deletes_def)
  ultimately show ?thesis using files sy by (simp add: wal_inv_def)
qed

definition fresh_segment :: "path \<Rightarrow> u64 \<Rightarrow> segment" where
  "fresh_segment dir t = \<lparr>seg_id = t, seg_path = segment_path dir t, write_offset = 0\<rparr>"

context crash_fs
begin

lemma inert_delete_all: "ps \<noteq> [] \<Longrightarrow> inert down (delete_all S ps)"
proof (cases ps)
  case (Cons p ps')
  have "inert down (\<lambda>s. ok_then (st_delete S p s) (\<lambda>_ s. delete_all S ps' s))" by (intro inert_then inert_ops)
  then show ?thesis by (simp add: Cons inert_def)
qed simp

lemma runs_wal_reset:
  assumes W: "w_up up W" and inv: "wal_inv crc dir (disk (wfs W)) (active W) lead ps []"
    and dir: "wal_dir cfg = dir" and room: "unat (seg_id (active W)) + 1 < 2 ^ 64"
    and C: "\<And>D. durable_log crc dir D (concat (map snd lead) @ ps) [] \<Longrightarrow> C D" "\<And>D. durable_log crc dir D [] [] \<Longrightarrow> C D"
    and Q: "\<And>D g. wal_inv crc dir D g [] [] [] \<Longrightarrow> seg_id g = seg_id (active W) + 1 \<Longrightarrow> Q (Inr ()) (D, g, coord W)"
  shows "runs (w_up up) (w_obs disk) (w_down down) (wal_reset S cfg) (\<lambda>ob. C (fst ob)) Q W"
proof -
  let ?g = "active W" and ?c = "coord W" and ?t = "seg_id (active W)" and ?recs = "concat (map snd lead) @ ps"
  let ?new = "?t + 1" and ?D0 = "disk (wfs W)" and ?ids = "map fst lead @ [?t]"
  let ?seg = "fresh_segment dir ?new" and ?old = "map (segment_path dir) ?ids" and ?lead = "lead @ [(?t, ps)]"
  let ?D1 = "disk_sync_dir dir (disk_create (segment_path dir ?new) ?D0)"
  note d = wal_invD [OF inv]
  note l = log_filesD [OF d(1)]
  have t: "?t < ?new" using unat_u64_Suc [OF room] by (simp add: word_less_nat_alt)
  have up: "up (wfs W)" using W by (simp add: w_up_def)
  have sorted: "sorted_wrt (<) ?ids" using d(3) by (simp add: log_shape_def)
  have segs: "list_segments S dir (wfs W) = Inr (map (\<lambda>i. (i, segment_path dir i)) ?ids)"
    using list_segments_view [OF up l(4)] l(1) by simp
  have next_id: "fold max (map fst (map (\<lambda>i. (i, segment_path dir i)) ?ids)) 0 + 1 = ?new"
    using fold_max_sorted [OF sorted] by (simp add: comp_def)
  have inv1: "wal_inv crc dir ?D1 ?seg ?lead [] []"
    unfolding fresh_segment_def by (rule wal_inv_rotate [OF inv t])
  have old: "segment_path dir ` fst ` set ?lead = set ?old" by auto
  have inv2: "wal_inv crc dir (disk_sync_dir dir (disk_deletes (set ?old) ?D1)) ?seg [] [] []"
    using wal_inv_deleted [OF inv1 [unfolded fresh_segment_def] old [symmetric]] by (simp add: fresh_segment_def)
  have fresh: "d_view ?D0 (segment_path dir ?new) = None"
    using l(5) [of ?new] l(6) t by (metis insertE not_less_iff_gr_or_eq)
  have C0: "C (disk_create (segment_path dir ?new) ?D0)"
    using wal_inv_durable [OF inv] durable_log_images [of "disk_create (segment_path dir ?new) ?D0" ?D0]
    by (intro C(1)) (simp add: disk_create_def)
  have C1: "C D" if "d_images D = d_images ?D1" for D
    using wal_inv_durable [OF inv1] durable_log_images [OF that] by (intro C(1)) simp
  have dist: "distinct ?old"
    using sorted by (simp add: distinct_map inj_on_def strict_sorted_iff del: map_append)
  have there: "\<forall>p\<in>set ?old. d_view ?D1 p \<noteq> None"
    using l(5) by (auto simp: disk_create_def disk_sync_dir_def)
  have "runs (w_up up) (w_obs disk) (w_down down) (\<lambda>W. ok_then (on_fs (segment_create S dir ?new) W) (\<lambda>fresh W.
              ok_then (on_fs (st_sync_dir S dir) W) (\<lambda>_ W.
              ok_then (on_fs (delete_all S ?old) W) (\<lambda>_ W.
              ok_then (on_fs (st_sync_dir S dir) W) (\<lambda>_ W. (Inr (), W\<lparr>active := fresh\<rparr>)))))) (\<lambda>ob. C (fst ob)) Q W"
  proof (rule runs_then [where P = "\<lambda>fresh ob. fresh = ?seg \<and> ob = (disk_create (segment_path dir ?new) ?D0, ?g, ?c)"])
    show "runs (w_up up) (w_obs disk) (w_down down) (on_fs (segment_create S dir ?new)) (\<lambda>ob. C (fst ob))
        (\<lambda>r ob. \<exists>x. r = Inr x \<and> x = ?seg \<and> ob = (disk_create (segment_path dir ?new) ?D0, ?g, ?c)) W"
      unfolding segment_create_def Let_def fresh_segment_def
      using up fresh C0 by (intro runs_on_fs runs_then_pure runs_create) auto
    fix seg1 W1 assume W1: "w_up up W1" "seg1 = ?seg \<and> w_obs disk W1 = (disk_create (segment_path dir ?new) ?D0, ?g, ?c)"
    then have seg1: "seg1 = ?seg" and o1: "disk (wfs W1) = disk_create (segment_path dir ?new) ?D0" "active W1 = ?g" "coord W1 = ?c"
      by (simp_all add: w_obs_def)
    show "runs (w_up up) (w_obs disk) (w_down down) (\<lambda>W. ok_then (on_fs (st_sync_dir S dir) W) (\<lambda>_ W.
              ok_then (on_fs (delete_all S ?old) W) (\<lambda>_ W.
              ok_then (on_fs (st_sync_dir S dir) W) (\<lambda>_ W. (Inr (), W\<lparr>active := seg1\<rparr>))))) (\<lambda>ob. C (fst ob)) Q W1"
    proof (rule runs_then [where P = "\<lambda>_ ob. ob = (?D1, ?g, ?c)"])
      show "runs (w_up up) (w_obs disk) (w_down down) (on_fs (st_sync_dir S dir)) (\<lambda>ob. C (fst ob))
          (\<lambda>r ob. \<exists>x. r = Inr x \<and> ob = (?D1, ?g, ?c)) W1"
        using W1(1) o1 C1 [OF refl] by (intro runs_on_fs runs_sync_dir) (auto simp: w_up_def)
      fix W2 assume W2: "w_up up W2" "w_obs disk W2 = (?D1, ?g, ?c)"
      then have o2: "disk (wfs W2) = ?D1" "active W2 = ?g" "coord W2 = ?c" by (simp_all add: w_obs_def)
      show "runs (w_up up) (w_obs disk) (w_down down) (\<lambda>W. ok_then (on_fs (delete_all S ?old) W) (\<lambda>_ W.
              ok_then (on_fs (st_sync_dir S dir) W) (\<lambda>_ W. (Inr (), W\<lparr>active := seg1\<rparr>)))) (\<lambda>ob. C (fst ob)) Q W2"
      proof (rule runs_then [where P = "\<lambda>_ ob. ob = (disk_deletes (set ?old) ?D1, ?g, ?c)"])
        show "runs (w_up up) (w_obs disk) (w_down down) (on_fs (delete_all S ?old)) (\<lambda>ob. C (fst ob))
            (\<lambda>r ob. \<exists>x. r = Inr x \<and> ob = (disk_deletes (set ?old) ?D1, ?g, ?c)) W2"
          using W2(1) o2 C1 dist there
          by (intro runs_on_fs runs_delete_all [where X = "{}" and ?D0.0 = ?D1]) (auto simp: w_up_def)
        fix W3 assume W3: "w_up up W3" "w_obs disk W3 = (disk_deletes (set ?old) ?D1, ?g, ?c)"
        then have o3: "disk (wfs W3) = disk_deletes (set ?old) ?D1" "active W3 = ?g" "coord W3 = ?c" by (simp_all add: w_obs_def)
        show "runs (w_up up) (w_obs disk) (w_down down) (\<lambda>W. ok_then (on_fs (st_sync_dir S dir) W)
            (\<lambda>_ W. (Inr (), W\<lparr>active := seg1\<rparr>))) (\<lambda>ob. C (fst ob)) Q W3"
          using W3(1) o3 C(2) wal_inv_durable [OF inv2] Q [OF inv2] seg1
          by (intro runs_then_assign [where h = "\<lambda>_. seg1"] runs_on_fs runs_sync_dir) (auto simp: w_up_def fresh_segment_def)
      qed (intro inert_then inert_on_fs inert_ops)
    qed (intro inert_then inert_on_fs inert_delete_all, simp)
  qed (intro inert_then inert_on_fs inert_ops)
  moreover have "map snd (map (\<lambda>i. (i, segment_path dir i)) ?ids) = ?old" by (simp add: comp_def)
  ultimately show ?thesis
    by (subst runs_cong) (simp_all only: wal_reset_def dir segs next_id Let_def sum.case)
qed

end

end
