(* ===== verification/Compaction.thy ===== *)
theory Compaction imports MergeIter Manifest Sst_Reader begin

text \<open>
  Size-tiered compaction (\<open>src/src/compaction.rs\<close>): writing a table from a sorted stream, and one
  pass that merges the youngest full tier into one table of the next tier. The state is the manifest
  handle and the backend.
\<close>

datatype compaction_error =
    Cp_storage storage_error
  | Cp_sstable sst_error
  | Cp_manifest manifest_error

definition internal_of :: "u64 \<Rightarrow> sst_value \<Rightarrow> internal_value" where
  "internal_of sq v = (case v of Put b \<Rightarrow> \<lparr>seq = sq, kind = Value b\<rparr> | Delete \<Rightarrow> \<lparr>seq = sq, kind = Tombstone\<rparr>)"

definition value_ref :: "internal_value \<Rightarrow> sst_value" where
  "value_ref v = (case kind v of Value b \<Rightarrow> Put b | Tombstone \<Rightarrow> Delete)"

definition read_all_entries :: "crc \<Rightarrow> 'fs storage \<Rightarrow> 'fs \<Rightarrow> sst_reader \<Rightarrow> compaction_error + entry list" where
  "read_all_entries crc S fs r =
     res_err Cp_sstable (for_entries crc S fs
       (\<lambda>e out. out @ [(e_key e, internal_of (e_seq e) (e_value e))]) [] (reader_iter r))"

section \<open>Writing a table\<close>

type_synonym write_acc = "bytes option \<times> bytes \<times> u64"

fun write_entries ::
  "hash128 \<Rightarrow> crc \<Rightarrow> 'fs storage \<Rightarrow> entry list \<Rightarrow> write_acc \<Rightarrow> 'fs build \<Rightarrow> (sst_error + write_acc) \<times> 'fs build" where
  "write_entries xxh crc S [] acc bf = (Inr acc, bf)"
| "write_entries xxh crc S ((key, v) # es) (first_key, last_key, n) bf =
     ok_then (builder_add xxh crc S key (seq v) (value_ref v) bf) (\<lambda>_.
       write_entries xxh crc S es (case first_key of None \<Rightarrow> Some key | Some k \<Rightarrow> Some k, key, n + 1))"

definition write_table ::
  "hash128 \<Rightarrow> crc \<Rightarrow> 'fs storage \<Rightarrow> path \<Rightarrow> u64 \<Rightarrow> nat \<Rightarrow> entry list \<Rightarrow> 'fs
    \<Rightarrow> (compaction_error + table_meta option) \<times> 'fs" where
  "write_table xxh crc S p tid expected_keys entries s =
     ok_then (err_map Cp_sstable (builder_new S p (max expected_keys 1) DEFAULT_BITS_PER_KEY s)) (\<lambda>b s.
       let (r, (b, s)) = write_entries xxh crc S entries (None, [], 0) (b, s)
       in ok_then (err_map Cp_sstable (r, s)) (\<lambda>(first_key, last_key, n) s.
            case first_key of
              None \<Rightarrow> (Inr None, s)
            | Some k \<Rightarrow>
                ok_then (err_map Cp_sstable (builder_finish crc S (b, s))) (\<lambda>_ s.
                  (Inr (Some \<lparr>tm_id = tid, tm_entries = n, tm_first = k, tm_last = last_key\<rparr>), s))))"

section \<open>One pass\<close>

definition output_is_bottom :: "version \<Rightarrow> nat \<Rightarrow> bool" where
  "output_is_bottom v t \<longleftrightarrow> list_all (\<lambda>i. tier_len v i = 0) [t + 1..<num_tiers v]"

fun open_inputs ::
  "crc \<Rightarrow> 'fs storage \<Rightarrow> path \<Rightarrow> 'fs \<Rightarrow> table_meta list \<Rightarrow> nat \<Rightarrow> entry list list
    \<Rightarrow> compaction_error + nat \<times> entry list list" where
  "open_inputs crc S dir fs [] expected_keys srcs = Inr (expected_keys, srcs)"
| "open_inputs crc S dir fs (t # ts) expected_keys srcs =
     res_then (res_err Cp_sstable (reader_open crc S (table_path dir (tm_id t)) fs)) (\<lambda>r.
     res_then (read_all_entries crc S fs r) (\<lambda>es.
       open_inputs crc S dir fs ts (expected_keys + unat (r_entries r)) (srcs @ [es])))"

definition cleared :: "version \<Rightarrow> nat \<Rightarrow> version" where
  "cleared v t = v\<lparr>tiers := trim_empty ((tiers v)[t := []])\<rparr>"

definition merged_entries :: "bool \<Rightarrow> entry list list \<Rightarrow> entry list" where
  "merged_entries drop_tombstones srcs =
     filter (\<lambda>(_, v). \<not> (drop_tombstones \<and> is_tombstone v)) (merge_all (merge_new srcs))"

definition compact_tier ::
  "hash128 \<Rightarrow> crc \<Rightarrow> 'fs storage \<Rightarrow> version \<Rightarrow> nat \<Rightarrow> manifest \<times> 'fs \<Rightarrow> (compaction_error + unit) \<times> manifest \<times> 'fs" where
  "compact_tier xxh crc S v t = (\<lambda>(m, s).
     case open_inputs crc S (m_dir m) s (tiers v ! t) 0 [] of
       Inl e \<Rightarrow> (Inl e, (m, s))
     | Inr (expected_keys, srcs) \<Rightarrow>
         let merged = merged_entries (output_is_bottom v t) srcs;
             out_id = v_next_id v;
             (r, s) = write_table xxh crc S (table_path (m_dir m) out_id) out_id expected_keys merged s
         in case r of
              Inl e \<Rightarrow> (Inl e, (m, s))
            | Inr out \<Rightarrow>
                err_map Cp_manifest (manifest_install crc S
                  (case out of Some meta \<Rightarrow> compacted v t meta | None \<Rightarrow> cleared v t) (m, s)))"

definition full_tier :: "nat \<Rightarrow> version \<Rightarrow> nat option" where
  "full_tier tier_fanout v = find (\<lambda>t. tier_fanout \<le> tier_len v t) [0..<num_tiers v]"

text \<open>The pinned version is dropped when the function returns.\<close>

definition maybe_compact ::
  "hash128 \<Rightarrow> crc \<Rightarrow> 'fs storage \<Rightarrow> nat \<Rightarrow> manifest \<times> 'fs \<Rightarrow> (compaction_error + bool) \<times> manifest \<times> 'fs" where
  "maybe_compact xxh crc S tier_fanout = (\<lambda>(m, s).
     let ((a, v), m) = manifest_current m
     in case full_tier tier_fanout v of
          None \<Rightarrow> (Inr False, (drop_version a m, s))
        | Some t \<Rightarrow>
            let (r, (m, s)) = compact_tier xxh crc S v t (m, s)
            in (case r of Inl e \<Rightarrow> Inl e | Inr _ \<Rightarrow> Inr True, (drop_version a m, s)))"

end
