(* ===== verification/Versions.thy ===== *)
theory Versions imports Manifest Levels begin

text \<open>
  Versions as values: well-formedness and the levels a version stands for, and what flushing and
  compacting do to both. \<open>E\<close> gives the entries of the table with a given identifier.
\<close>

lemma distinct_submset: "distinct xs \<Longrightarrow> mset ys \<subseteq># mset xs \<Longrightarrow> distinct ys"
  by (metis distinct_append mset_append mset_eq_imp_distinct_iff mset_subset_eq_exists_conv ex_mset)

definition version_wf :: "version \<Rightarrow> bool" where
  "version_wf v \<longleftrightarrow> distinct (map tm_id (all_tables v)) \<and> (\<forall>t\<in>set (all_tables v). tm_id t < v_next_id v)
     \<and> length (tiers v) \<le> unat (v_next_id v)"

definition version_levels :: "(u64 \<Rightarrow> entry list) \<Rightarrow> version \<Rightarrow> entry list list" where
  "version_levels E v = map (\<lambda>t. E (tm_id t)) (tables_newest_first v)"

lemma tables_newest_first_set [simp]: "set (tables_newest_first v) = set (all_tables v)"
  by (simp add: tables_newest_first_def all_tables_def)

lemma version_levels_upd:
  "tid \<notin> referenced_ids v \<Longrightarrow> version_levels (E(tid := es)) v = version_levels E v"
  by (auto simp: version_levels_def referenced_ids_def)

lemma version_wf_fresh: "version_wf v \<Longrightarrow> v_next_id v \<le> tid \<Longrightarrow> tid \<notin> referenced_ids v"
  by (auto simp: version_wf_def referenced_ids_def)

lemma version_wf_empty [simp]: "version_wf version_empty"
  and version_levels_empty [simp]: "version_levels E version_empty = []"
  by (simp_all add: version_wf_def version_empty_def all_tables_def version_levels_def tables_newest_first_def)

section \<open>Flushing\<close>

text \<open>The number of tables, the bound on the lengths the format stores in 32 bits.\<close>

definition table_count :: "version \<Rightarrow> nat" where
  "table_count v = length (all_tables v)"

lemma flushed_tables: "all_tables (flushed v t sq) = (case tiers v of [] \<Rightarrow> [t] | ts # tss \<Rightarrow> ts @ t # concat tss)"
  by (simp add: flushed_def all_tables_def Let_def split: list.split)

lemma flushed_sel [simp]:
  "v_next_seq (flushed v t sq) = max sq (v_next_seq v)" "v_next_id (flushed v t sq) = max (v_next_id v) (tm_id t + 1)"
  by (simp_all add: flushed_def Let_def)

lemma set_flushed [simp]: "set (all_tables (flushed v t sq)) = insert t (set (all_tables v))"
  unfolding flushed_tables by (auto simp: all_tables_def split: list.split)

lemma table_count_flushed: "table_count (flushed v t sq) = table_count v + 1"
  unfolding table_count_def flushed_tables by (simp add: all_tables_def split: list.split)

lemma length_tiers_flushed: "length (tiers (flushed v t sq)) = max 1 (length (tiers v))"
  by (cases "tiers v") (simp_all add: flushed_def)

lemma unat_Suc_less: "unat (x :: u64) + 1 < 2 ^ 64 \<Longrightarrow> x < x + 1"
  by (simp add: word_less_nat_alt unat_u64_Suc)

text \<open>A new table takes the next identifier.\<close>

lemma wf_next_id:
  assumes "version_wf v" and "unat (v_next_id v) + 1 < 2 ^ 64" and "tm_id t = v_next_id v"
  shows "max (v_next_id v) (tm_id t + 1) = v_next_id v + 1" and "unat (v_next_id v + 1) = unat (v_next_id v) + 1"
    and "tm_id t \<notin> referenced_ids v" and "x \<in> insert t (set (all_tables v)) \<Longrightarrow> tm_id x < v_next_id v + 1"
proof -
  have lt: "v_next_id v < v_next_id v + 1" by (rule unat_Suc_less [OF assms(2)])
  then show "max (v_next_id v) (tm_id t + 1) = v_next_id v + 1" using assms(3) by (simp add: max_def)
  show "unat (v_next_id v + 1) = unat (v_next_id v) + 1" by (rule unat_u64_Suc [OF assms(2)])
  show "tm_id t \<notin> referenced_ids v" using version_wf_fresh [OF assms(1)] assms(3) by simp
  show "tm_id x < v_next_id v + 1" if "x \<in> insert t (set (all_tables v))"
    using that lt assms(1,3) by (auto simp: version_wf_def intro: less_trans)
qed

lemma wf_flushed:
  assumes "version_wf v" and "unat (v_next_id v) + 1 < 2 ^ 64" and "tm_id t = v_next_id v"
  shows "version_wf (flushed v t sq)" and "v_next_id (flushed v t sq) = v_next_id v + 1"
proof -
  note n = wf_next_id [OF assms]
  show id: "v_next_id (flushed v t sq) = v_next_id v + 1" by (simp add: n)
  have "distinct (map tm_id (t # all_tables v))"
    using n(3) assms(1) by (simp add: referenced_ids_def version_wf_def)
  then have "distinct (map tm_id (all_tables (flushed v t sq)))"
    by (rule distinct_submset) (unfold flushed_tables, simp add: all_tables_def split: list.split)
  then show "version_wf (flushed v t sq)"
    unfolding version_wf_def id using n(2,4) assms(1) by (simp add: version_wf_def length_tiers_flushed)
qed

lemma levels_flushed:
  "tm_id t \<notin> referenced_ids v \<Longrightarrow> version_levels (E(tm_id t := es)) (flushed v t sq) = es # version_levels E v"
  using version_levels_upd [of "tm_id t" v E es]
  by (cases "tiers v") (simp_all add: version_levels_def tables_newest_first_def flushed_def)

section \<open>Compacting\<close>

lemma concat_trim_empty [simp]: "concat (trim_empty ts) = concat ts" "concat (map rev (trim_empty ts)) = concat (map rev ts)"
proof -
  have d: "\<exists>k. ts = trim_empty ts @ replicate k []"
  proof -
    have "\<forall>x\<in>set (takeWhile (\<lambda>t. t = []) (rev ts)). x = []" by (auto dest: set_takeWhileD)
    then have "takeWhile (\<lambda>t. t = []) (rev ts) = replicate (length (takeWhile (\<lambda>t. t = []) (rev ts))) []"
      by (intro replicate_eqI) auto
    then have "rev ts = replicate (length (takeWhile (\<lambda>t. t = []) (rev ts))) [] @ dropWhile (\<lambda>t. t = []) (rev ts)"
      by (metis takeWhile_dropWhile_id)
    then have "ts = trim_empty ts @ replicate (length (takeWhile (\<lambda>t. t = []) (rev ts))) []"
      unfolding trim_empty_def by (metis rev_append rev_replicate rev_rev_ident)
    then show ?thesis by blast
  qed
  obtain k where k: "ts = trim_empty ts @ replicate k []" using d by blast
  have e: "concat (replicate k []) = ([] :: 'a list)" for k by (induction k) auto
  have "concat ts = concat (trim_empty ts) @ concat (replicate k [])"
    "concat (map rev ts) = concat (map rev (trim_empty ts)) @ concat (map rev (replicate k []))"
    by (subst k, simp)+
  then show "concat (trim_empty ts) = concat ts" "concat (map rev (trim_empty ts)) = concat (map rev ts)"
    by (simp_all add: e)
qed

lemma length_trim_empty: "length (trim_empty ts) \<le> length ts"
  unfolding trim_empty_def by (metis length_dropWhile_le length_rev)

text \<open>The tiers above \<open>t\<close>, and the ones below its output.\<close>

definition tiers_above :: "version \<Rightarrow> nat \<Rightarrow> table_meta list list" where "tiers_above v t = take t (tiers v)"
definition tiers_below :: "version \<Rightarrow> nat \<Rightarrow> table_meta list list" where "tiers_below v t = drop (Suc t) (tiers v)"

lemma tiers_split: "t < length (tiers v) \<Longrightarrow> tiers v = tiers_above v t @ tiers v ! t # tiers_below v t"
  by (simp add: tiers_above_def tiers_below_def id_take_nth_drop)

definition add_first :: "'a \<Rightarrow> 'a list list \<Rightarrow> 'a list list" where
  "add_first x ts = (case ts of [] \<Rightarrow> [[x]] | t # ts \<Rightarrow> (t @ [x]) # ts)"

lemma compacted_tiers:
  assumes "t < length (tiers v)"
  shows "tiers (compacted v t out) = trim_empty (tiers_above v t @ [] # add_first out (tiers_below v t))"
proof -
  obtain a m b where s: "tiers v = a @ m # b" "length a = t" "tiers_above v t = a" "tiers_below v t = b"
    using tiers_split [OF assms] assms by (simp add: tiers_above_def)
  show ?thesis
  proof (cases b)
    case Nil
    then show ?thesis using s by (simp add: compacted_def Let_def add_first_def list_update_append nth_append)
  next
    case (Cons x b')
    then show ?thesis using s by (simp add: compacted_def Let_def add_first_def list_update_append nth_append)
  qed
qed

lemma add_first_sel [simp]:
  "concat (add_first x ts) = (case ts of [] \<Rightarrow> [x] | t # ts \<Rightarrow> t @ x # concat ts)"
  "concat (map rev (add_first x ts)) = x # concat (map rev ts)"
  "length (add_first x ts) = max 1 (length ts)"
  by (cases ts; simp add: add_first_def)+

lemma compacted_tables:
  assumes "t < length (tiers v)"
  shows "all_tables (compacted v t out) = concat (tiers_above v t) @ concat (add_first out (tiers_below v t))"
    and "tables_newest_first (compacted v t out)
      = concat (map rev (tiers_above v t)) @ out # concat (map rev (tiers_below v t))"
  unfolding all_tables_def tables_newest_first_def compacted_tiers [OF assms] by simp_all

lemma cleared_tables:
  assumes "t < length (tiers v)"
  shows "all_tables (v\<lparr>tiers := trim_empty ((tiers v)[t := []])\<rparr>) = concat (tiers_above v t) @ concat (tiers_below v t)"
    and "tables_newest_first (v\<lparr>tiers := trim_empty ((tiers v)[t := []])\<rparr>)
      = concat (map rev (tiers_above v t)) @ concat (map rev (tiers_below v t))"
proof -
  have "(tiers v)[t := []] = tiers_above v t @ [] # tiers_below v t"
    unfolding tiers_above_def tiers_below_def using assms by (rule upd_conv_take_nth_drop)
  then show "all_tables (v\<lparr>tiers := trim_empty ((tiers v)[t := []])\<rparr>) = concat (tiers_above v t) @ concat (tiers_below v t)"
    and "tables_newest_first (v\<lparr>tiers := trim_empty ((tiers v)[t := []])\<rparr>)
      = concat (map rev (tiers_above v t)) @ concat (map rev (tiers_below v t))"
    unfolding all_tables_def tables_newest_first_def by simp_all
qed

lemma tables_split:
  assumes "t < length (tiers v)"
  shows "all_tables v = concat (tiers_above v t) @ tiers v ! t @ concat (tiers_below v t)"
    and "tables_newest_first v
      = concat (map rev (tiers_above v t)) @ rev (tiers v ! t) @ concat (map rev (tiers_below v t))"
  unfolding all_tables_def tables_newest_first_def by (subst tiers_split [OF assms], simp)+

lemma compacted_next_id [simp]: "v_next_id (compacted v t out) = max (v_next_id v) (tm_id out + 1)"
  "v_next_seq (compacted v t out) = v_next_seq v"
  by (simp_all add: compacted_def Let_def)

lemma length_tiers_compacted:
  assumes "t < length (tiers v)"
  shows "length (tiers (compacted v t out)) \<le> length (tiers v) + 1"
proof -
  have "length (tiers (compacted v t out)) \<le> length (tiers_above v t @ [] # add_first out (tiers_below v t))"
    unfolding compacted_tiers [OF assms] by (rule length_trim_empty)
  also have "\<dots> \<le> length (tiers v) + 1" using assms by (simp add: tiers_above_def tiers_below_def)
  finally show ?thesis .
qed

lemma wf_compacted:
  assumes "version_wf v" and "unat (v_next_id v) + 1 < 2 ^ 64" and "tm_id out = v_next_id v" and "t < length (tiers v)"
  shows "version_wf (compacted v t out)" and "v_next_id (compacted v t out) = v_next_id v + 1"
    and "set (all_tables (compacted v t out)) \<subseteq> insert out (set (all_tables v))"
proof -
  note n = wf_next_id [OF assms(1-3)]
  show id: "v_next_id (compacted v t out) = v_next_id v + 1" by (simp add: n)
  show sub: "set (all_tables (compacted v t out)) \<subseteq> insert out (set (all_tables v))"
    unfolding compacted_tables [OF assms(4)] tables_split(1) [OF assms(4)] by (auto split: list.split)
  have "distinct (map tm_id (out # all_tables v))"
    using n(3) assms(1) by (simp add: referenced_ids_def version_wf_def)
  then have "distinct (map tm_id (all_tables (compacted v t out)))"
  proof (rule distinct_submset)
    have "mset (all_tables (compacted v t out)) \<subseteq># mset (out # all_tables v)"
      unfolding compacted_tables [OF assms(4)] tables_split(1) [OF assms(4)] by (simp split: list.split)
    then show "mset (map tm_id (all_tables (compacted v t out))) \<subseteq># mset (map tm_id (out # all_tables v))"
      unfolding mset_map by (rule image_mset_subseteq_mono)
  qed
  then show "version_wf (compacted v t out)"
    unfolding version_wf_def id
    using n(2,4) sub assms(1) length_tiers_compacted [OF assms(4), of out] by (auto simp: version_wf_def)
qed

lemma wf_cleared:
  assumes "version_wf v" and "t < length (tiers v)"
  shows "version_wf (v\<lparr>tiers := trim_empty ((tiers v)[t := []])\<rparr>)"
    and "set (all_tables (v\<lparr>tiers := trim_empty ((tiers v)[t := []])\<rparr>)) \<subseteq> set (all_tables v)"
proof -
  let ?v = "v\<lparr>tiers := trim_empty ((tiers v)[t := []])\<rparr>"
  show "set (all_tables ?v) \<subseteq> set (all_tables v)"
    unfolding cleared_tables [OF assms(2)] tables_split(1) [OF assms(2)] by auto
  have "length (tiers ?v) \<le> length (tiers v)" using length_trim_empty [of "(tiers v)[t := []]"] by simp
  moreover have "distinct (map tm_id (all_tables ?v))"
  proof (rule distinct_submset)
    show "distinct (map tm_id (all_tables v))" using assms(1) by (simp add: version_wf_def)
    have "mset (all_tables ?v) \<subseteq># mset (all_tables v)"
      unfolding cleared_tables [OF assms(2)] tables_split(1) [OF assms(2)] by simp
    then show "mset (map tm_id (all_tables ?v)) \<subseteq># mset (map tm_id (all_tables v))"
      unfolding mset_map by (rule image_mset_subseteq_mono)
  qed
  ultimately show "version_wf ?v"
    using assms(1) \<open>set (all_tables ?v) \<subseteq> _\<close> by (auto simp: version_wf_def)
qed

text \<open>The levels around one tier.\<close>

definition levels_of :: "(u64 \<Rightarrow> entry list) \<Rightarrow> table_meta list \<Rightarrow> entry list list" where
  "levels_of E ts = map (\<lambda>t. E (tm_id t)) ts"

lemma levels_of_upd: "tid \<notin> tm_id ` set ts \<Longrightarrow> levels_of (E(tid := es)) ts = levels_of E ts"
  by (force simp: levels_of_def)

lemma levels_compacted:
  assumes "version_wf v" and "tm_id out = v_next_id v" and t: "t < length (tiers v)"
  obtains pre post where
    "version_levels E v = pre @ levels_of E (rev (tiers v ! t)) @ post"
    "version_levels (E(tm_id out := es)) (compacted v t out) = pre @ es # post"
    "version_levels E (v\<lparr>tiers := trim_empty ((tiers v)[t := []])\<rparr>) = pre @ post"
    "concat (tiers_below v t) = [] \<Longrightarrow> post = []"
proof -
  let ?pre = "concat (map rev (tiers_above v t))" and ?post = "concat (map rev (tiers_below v t))"
  have fr: "tm_id out \<notin> tm_id ` set (all_tables v)"
    using version_wf_fresh [OF assms(1), of "tm_id out"] assms(2) by (simp add: referenced_ids_def)
  then have "tm_id out \<notin> tm_id ` set ?pre" "tm_id out \<notin> tm_id ` set ?post"
    unfolding tables_split(1) [OF t] by auto
  then have "levels_of (E(tm_id out := es)) ?pre = levels_of E ?pre" "levels_of (E(tm_id out := es)) ?post = levels_of E ?post"
    by (simp_all add: levels_of_upd)
  then have "version_levels (E(tm_id out := es)) (compacted v t out) = levels_of E ?pre @ es # levels_of E ?post"
    unfolding version_levels_def compacted_tables(2) [OF t] by (simp add: levels_of_def)
  moreover have "version_levels E v = levels_of E ?pre @ levels_of E (rev (tiers v ! t)) @ levels_of E ?post"
    unfolding version_levels_def tables_split(2) [OF t] by (simp add: levels_of_def)
  moreover have "version_levels E (v\<lparr>tiers := trim_empty ((tiers v)[t := []])\<rparr>) = levels_of E ?pre @ levels_of E ?post"
    unfolding version_levels_def cleared_tables(2) [OF t] by (simp add: levels_of_def)
  moreover have "concat (tiers_below v t) = [] \<Longrightarrow> levels_of E ?post = []" by (auto simp: levels_of_def)
  ultimately show thesis using that by blast
qed

end
