(* ===== verification/Store.thy ===== *)
theory Store imports Manifest_Crash Sst_Table Compaction Versions begin

text \<open>
  The on-disk store: the tables a version names and the manifest that names the version. A file is
  \<open>settled\<close> when its content is synced and is what any power loss leaves of it; operations on other
  files keep it so. \<open>store_inv\<close> is the invariant of the manifest handle and the disk, and
  \<open>durable_store\<close> what a power loss leaves.
\<close>

section \<open>Settled files\<close>

definition file_settled :: "disk \<Rightarrow> path \<Rightarrow> bytes \<Rightarrow> bool" where
  "file_settled D p c \<longleftrightarrow> d_view D p = Some c \<and> d_sync D p = Some c \<and> d_images D p = {Some c}
     \<and> (\<forall>r. d_linked D r p \<longrightarrow> r = p)"

named_theorems settled_frame \<open>operations on other files keep a file settled\<close>

lemma settled_create [settled_frame]: "file_settled D p c \<Longrightarrow> q \<noteq> p \<Longrightarrow> file_settled (disk_create q D) p c"
  by (auto simp: file_settled_def disk_create_def)

lemma settled_file [settled_frame]: "file_settled D p c \<Longrightarrow> q \<noteq> p \<Longrightarrow> file_settled (disk_file q x y D) p c"
  by (auto simp: file_settled_def disk_file_def)

lemma settled_append [settled_frame]: "file_settled D p c \<Longrightarrow> q \<noteq> p \<Longrightarrow> file_settled (disk_append q x D) p c"
  by (auto simp: file_settled_def disk_append_def Let_def)

lemma settled_sync_file [settled_frame]: "file_settled D p c \<Longrightarrow> q \<noteq> p \<Longrightarrow> file_settled (disk_sync_file q D) p c"
  by (auto simp: file_settled_def disk_sync_file_def)

lemma settled_sync_dir [settled_frame]: "file_settled D p c \<Longrightarrow> file_settled (disk_sync_dir dir D) p c"
  by (auto simp: file_settled_def disk_sync_dir_def)

lemma settled_deletes [settled_frame]: "file_settled D p c \<Longrightarrow> p \<notin> X \<Longrightarrow> file_settled (disk_deletes X D) p c"
  by (auto simp: file_settled_def disk_deletes_def)

lemma settled_disk_replace [settled_frame]:
  "file_settled D p c \<Longrightarrow> tmp \<noteq> p \<Longrightarrow> dst \<noteq> p \<Longrightarrow> file_settled (disk_replace dir tmp dst d D) p c"
  by (auto simp: file_settled_def disk_replace_def disk_sync_dir_def)

text \<open>A directory sync settles every synced file of the directory.\<close>

lemma sync_dir_settles:
  "parent p = Some dir \<Longrightarrow> d_view D p = Some c \<Longrightarrow> d_sync D p = Some c \<Longrightarrow> file_settled (disk_sync_dir dir D) p c"
  by (auto simp: file_settled_def disk_sync_dir_def)

lemma replace_settles:
  "parent p = Some dir \<Longrightarrow> d_view D p = Some c \<Longrightarrow> d_sync D p = Some c \<Longrightarrow> tmp \<noteq> p \<Longrightarrow> dst \<noteq> p \<Longrightarrow>
    file_settled (disk_replace dir tmp dst d D) p c"
  unfolding disk_replace_def by (rule sync_dir_settles) auto

lemma replace_settles_dst: "parent dst = Some dir \<Longrightarrow> tmp \<noteq> dst \<Longrightarrow> file_settled (disk_replace dir tmp dst d D) dst d"
  unfolding disk_replace_def by (rule sync_dir_settles) auto

lemma disk_replace_view: "tmp \<noteq> dst \<Longrightarrow> d_view (disk_replace dir tmp dst d D) = (d_view D)(tmp := None, dst \<mapsto> d)"
  by (simp add: disk_replace_def disk_sync_dir_def)

lemma disk_sync_dir_view [simp]: "d_view (disk_sync_dir dir D) = d_view D"
  by (simp add: disk_sync_dir_def)

section \<open>Entries of tables and of memtables\<close>

definition entry_of :: "entry \<Rightarrow> sst_entry" where
  "entry_of kv = \<lparr>e_key = fst kv, e_seq = seq (snd kv), e_value = value_ref (snd kv)\<rparr>"

definition of_entry :: "sst_entry \<Rightarrow> entry" where
  "of_entry e = (e_key e, internal_of (e_seq e) (e_value e))"

lemma internal_of_value_ref [simp]: "internal_of (seq v) (value_ref v) = v"
  by (cases v) (auto simp: internal_of_def value_ref_def split: value_kind.split)

lemma of_entry_of [simp]: "of_entry (entry_of kv) = kv"
  by (simp add: of_entry_def entry_of_def)

lemma of_entry_of_comp [simp]: "of_entry \<circ> entry_of = id"
  by (simp add: fun_eq_iff)

lemma entry_of_sel [simp]:
  "e_key (entry_of kv) = fst kv" "e_seq (entry_of kv) = seq (snd kv)" "e_value (entry_of kv) = value_ref (snd kv)"
  by (simp_all add: entry_of_def)

lemma map_key_entry_of [simp]: "map e_key (map entry_of es) = map fst es"
  by simp

lemma find_entry_of:
  "find (\<lambda>e. e_key e = k) (map entry_of es) = map_option (\<lambda>v. entry_of (k, v)) (map_of es k)"
  by (induction es) auto

section \<open>Tables of a version\<close>

text \<open>Table \<open>t\<close> holds the entries \<open>es\<close> and its metadata describe them.\<close>

definition meta_of :: "table_meta \<Rightarrow> entry list \<Rightarrow> bool" where
  "meta_of t es \<longleftrightarrow> es \<noteq> [] \<and> tm_first t = fst (hd es) \<and> tm_last t = fst (last es) \<and> tm_entries t = of_nat (length es)"

definition table_at :: "hash128 \<Rightarrow> crc \<Rightarrow> (path \<Rightarrow> bytes option) \<Rightarrow> path \<Rightarrow> table_meta \<Rightarrow> entry list \<Rightarrow> bool" where
  "table_at xxh crc vw dir t es \<longleftrightarrow> meta_of t es \<and>
     (\<exists>img. vw (table_path dir (tm_id t)) = Some img \<and> holds_table xxh crc (map entry_of es) img)"

definition settled_table :: "hash128 \<Rightarrow> crc \<Rightarrow> disk \<Rightarrow> path \<Rightarrow> table_meta \<Rightarrow> entry list \<Rightarrow> bool" where
  "settled_table xxh crc D dir t es \<longleftrightarrow> meta_of t es \<and>
     (\<exists>img. file_settled D (table_path dir (tm_id t)) img \<and> holds_table xxh crc (map entry_of es) img)"

definition synced_table :: "hash128 \<Rightarrow> crc \<Rightarrow> disk \<Rightarrow> path \<Rightarrow> table_meta \<Rightarrow> entry list \<Rightarrow> bool" where
  "synced_table xxh crc D dir t es \<longleftrightarrow> meta_of t es \<and>
     (\<exists>img. d_view D (table_path dir (tm_id t)) = Some img \<and> d_sync D (table_path dir (tm_id t)) = Some img
        \<and> holds_table xxh crc (map entry_of es) img)"

lemma settled_table_synced: "settled_table xxh crc D dir t es \<Longrightarrow> synced_table xxh crc D dir t es"
  by (auto simp: settled_table_def synced_table_def file_settled_def)

lemma settled_table_at: "settled_table xxh crc D dir t es \<Longrightarrow> table_at xxh crc (d_view D) dir t es"
  by (auto simp: settled_table_def table_at_def file_settled_def)

lemma settled_table_file:
  assumes "settled_table xxh crc D dir t es" and "q \<noteq> table_path dir (tm_id t)"
  shows "settled_table xxh crc (disk_file q c d D) dir t es"
  using assms settled_file [OF _ assms(2)] unfolding settled_table_def by blast

lemma holds_table_sorted: "holds_table xxh crc (map entry_of es) img \<Longrightarrow> sorted_wrt (<) (map fst es)"
  unfolding holds_table_def map_key_entry_of by blast

lemma table_at_sorted: "table_at xxh crc vw dir t es \<Longrightarrow> sorted_wrt (<) (map fst es)"
  using holds_table_sorted by (auto simp: table_at_def)

text \<open>The key range of the metadata covers the keys of the table.\<close>

lemma key_in_range_covers:
  assumes "table_at xxh crc vw dir t es" and "map_of es k = Some v"
  shows "key_in_range t k"
proof -
  have k: "k \<in> set (map fst es)" using assms(2) by (force dest: map_of_SomeD)
  have s: "sorted_wrt (<) (map fst es)" by (rule table_at_sorted [OF assms(1)])
  have ne: "es \<noteq> []" using k by auto
  have "fst (hd es) \<le> k" using s k by (cases es) auto
  moreover have "k \<le> fst (last es)" using sorted_last_max [OF s k] ne by (simp add: last_map)
  ultimately show ?thesis using assms(1) by (simp add: key_in_range_def table_at_def meta_of_def)
qed

section \<open>The invariant of the store\<close>

text \<open>The tables of a version, as far as the process sees.\<close>

definition stored :: "hash128 \<Rightarrow> crc \<Rightarrow> path \<Rightarrow> (u64 \<Rightarrow> entry list) \<Rightarrow> version \<Rightarrow> (path \<Rightarrow> bytes option) \<Rightarrow> bool" where
  "stored xxh crc dir E v vw \<longleftrightarrow> version_wf v \<and> version_fits v
     \<and> vw (join dir MANIFEST_NAME) = Some (encode_version crc v)
     \<and> (\<forall>t\<in>set (all_tables v). table_at xxh crc vw dir t (E (tm_id t)))"

text \<open>What every power loss leaves.\<close>

definition durable_store :: "hash128 \<Rightarrow> crc \<Rightarrow> path \<Rightarrow> (u64 \<Rightarrow> entry list) \<Rightarrow> version \<Rightarrow> disk \<Rightarrow> bool" where
  "durable_store xxh crc dir E v D \<longleftrightarrow> (\<forall>vw. (\<forall>p. vw p \<in> d_images D p) \<longrightarrow> stored xxh crc dir E v vw)"

text \<open>The version on disk.\<close>

definition store_disk :: "hash128 \<Rightarrow> crc \<Rightarrow> path \<Rightarrow> (u64 \<Rightarrow> entry list) \<Rightarrow> version \<Rightarrow> disk \<Rightarrow> bool" where
  "store_disk xxh crc dir E v D \<longleftrightarrow> version_wf v \<and> version_fits v
     \<and> file_settled D (join dir MANIFEST_NAME) (encode_version crc v)
     \<and> (\<forall>t\<in>set (all_tables v). settled_table xxh crc D dir t (E (tm_id t)))"

lemma store_disk_stored:
  assumes s: "store_disk xxh crc dir E v D" and vw: "\<And>p. vw p = d_view D p \<or> vw p \<in> d_images D p"
  shows "stored xxh crc dir E v vw"
proof -
  have f: "vw p = Some c" if "file_settled D p c" for p c
    using that vw [of p] by (auto simp: file_settled_def)
  show ?thesis
    using s f by (auto simp: stored_def store_disk_def settled_table_def table_at_def)
qed

lemma store_disk_durable: "store_disk xxh crc dir E v D \<Longrightarrow> durable_store xxh crc dir E v D"
  using store_disk_stored unfolding durable_store_def by blast

lemma store_disk_view: "store_disk xxh crc dir E v D \<Longrightarrow> stored xxh crc dir E v (d_view D)"
  by (erule store_disk_stored) simp

lemma durable_store_images: "durable_store xxh crc dir E v D \<Longrightarrow> d_images D' = d_images D \<Longrightarrow> durable_store xxh crc dir E v D'"
  by (simp add: durable_store_def)

text \<open>The handle of the manifest and the disk. The tables of a superseded version stay on disk for as
  long as the handle keeps the version; no file has an identifier that is yet to be used.\<close>

definition ids_below :: "u64 \<Rightarrow> manifest \<Rightarrow> bool" where
  "ids_below n m \<longleftrightarrow> (\<forall>tid\<in>live_ids m. tid < n)"

definition store_inv ::
  "hash128 \<Rightarrow> crc \<Rightarrow> path \<Rightarrow> (u64 \<Rightarrow> entry list) \<Rightarrow> manifest \<Rightarrow> disk \<Rightarrow> bool" where
  "store_inv xxh crc dir E m D \<longleftrightarrow> m_dir m = dir \<and> store_disk xxh crc dir E (snd (m_current m)) D
     \<and> ids_below (v_next_id (snd (m_current m))) m
     \<and> (\<forall>tid. v_next_id (snd (m_current m)) \<le> tid \<longrightarrow> d_view D (table_path dir tid) = None)
     \<and> (\<forall>av\<in>set (m_obsolete m). \<forall>t\<in>set (all_tables (snd av)). settled_table xxh crc D dir t (E (tm_id t)))"

lemma store_invD:
  assumes "store_inv xxh crc dir E m D"
  shows "m_dir m = dir" and "store_disk xxh crc dir E (snd (m_current m)) D"
    and "ids_below (v_next_id (snd (m_current m))) m"
    and "v_next_id (snd (m_current m)) \<le> tid \<Longrightarrow> d_view D (table_path dir tid) = None"
    and "version_wf (snd (m_current m))" and "version_fits (snd (m_current m))"
    and "t \<in> set (all_tables (snd (m_current m))) \<Longrightarrow> settled_table xxh crc D dir t (E (tm_id t))"
    and "av \<in> set (m_obsolete m) \<Longrightarrow> t \<in> set (all_tables (snd av)) \<Longrightarrow> settled_table xxh crc D dir t (E (tm_id t))"
  using assms by (auto simp: store_inv_def store_disk_def)

text \<open>A version that someone holds outlives an operation on the handle.\<close>

definition held :: "manifest \<Rightarrow> manifest \<Rightarrow> bool" where
  "held m m' \<longleftrightarrow> m_pins m' = m_pins m
     \<and> (\<forall>av\<in>set (m_current m # m_obsolete m). fst av \<in># m_pins m \<longrightarrow> av \<in> set (m_current m' # m_obsolete m'))"

lemma held_refl [simp]: "held m m"
  by (simp add: held_def)

lemma held_trans: "held m m' \<Longrightarrow> held m' m'' \<Longrightarrow> held m m''"
  by (auto simp: held_def)

lemma held_pins: "held m m' \<Longrightarrow> m_pins m' = m_pins m"
  by (simp add: held_def)

section \<open>Writing a table\<close>

text \<open>\<open>write_entries\<close> is the client's loop with its bookkeeping.\<close>

fun acc_after :: "entry list \<Rightarrow> write_acc \<Rightarrow> write_acc" where
  "acc_after [] acc = acc"
| "acc_after ((k, v) # es) (f, l, n) = acc_after es (case f of None \<Rightarrow> Some k | Some x \<Rightarrow> Some x, k, n + 1)"

lemma write_entries_add_all:
  "write_entries xxh crc S es acc bf
     = ok_then (add_all xxh crc S (map entry_of es) bf) (\<lambda>_ bf. (Inr (acc_after es acc), bf))"
proof (induction es arbitrary: acc bf)
  case (Cons kv es)
  obtain k v f l n where kv: "kv = (k, v)" "acc = (f, l, n)" by (metis prod.exhaust)
  then show ?case by (simp add: Cons.IH [abs_def] ok_then_assoc)
qed simp

lemma acc_after_eq:
  "es \<noteq> [] \<Longrightarrow> acc_after es (f, l, n)
     = (case f of None \<Rightarrow> Some (fst (hd es)) | Some x \<Rightarrow> Some x, fst (last es), n + of_nat (length es))"
proof (induction es arbitrary: f l n)
  case (Cons kv es)
  obtain k v where "kv = (k, v)" by force
  then show ?case using Cons.IH by (cases "es = []") (auto split: option.split)
qed simp

definition new_meta :: "u64 \<Rightarrow> entry list \<Rightarrow> table_meta" where
  "new_meta tid es = \<lparr>tm_id = tid, tm_entries = of_nat (length es), tm_first = fst (hd es), tm_last = fst (last es)\<rparr>"

lemma meta_of_new [simp]: "es \<noteq> [] \<Longrightarrow> meta_of (new_meta tid es) es" and new_meta_id [simp]: "tm_id (new_meta tid es) = tid"
  by (simp_all add: meta_of_def new_meta_def)

text \<open>The size limits of a table file, for a stream of \<open>es\<close> and a filter sized for \<open>n\<close> keys.\<close>

definition table_limits :: "nat \<Rightarrow> entry list \<Rightarrow> bool" where
  "table_limits n es \<longleftrightarrow> table_fits (map entry_of es) \<and> bloom_bits (max n 1) DEFAULT_BITS_PER_KEY < 2 ^ 32"

lemma write_table_build:
  assumes "es \<noteq> []"
  shows "write_table xxh crc S p tid n es s =
    ok_then (err_map Cp_sstable (build_table xxh crc S p (max n 1) DEFAULT_BITS_PER_KEY (map entry_of es) s))
      (\<lambda>_ s. (Inr (Some (new_meta tid es)), s))"
proof -
  obtain r s' where r: "builder_new S p (max n 1) DEFAULT_BITS_PER_KEY s = (r, s')" by force
  note r = r [unfolded One_nat_def]
  show ?thesis
  proof (cases r)
    case (Inr b)
    obtain r' b' s'' where r': "add_all xxh crc S (map entry_of es) (b, s') = (r', (b', s''))" by (metis prod.exhaust)
    show ?thesis
      using assms by (cases r') (simp_all add: write_table_def build_table_def r Inr r' write_entries_add_all
        acc_after_eq new_meta_def ok_then_def err_map_def split: sum.split)
  qed (simp add: write_table_def build_table_def r)
qed

lemma write_table_empty:
  "write_table xxh crc S p tid n [] s =
    ok_then (err_map Cp_sstable (builder_new S p (max n 1) DEFAULT_BITS_PER_KEY s)) (\<lambda>_ s. (Inr None, s))"
  by (simp add: write_table_def)

context crash_fs
begin

lemma runs_write_table:
  assumes s: "up s" and p: "d_view (disk s) p = None"
    and es: "sorted_wrt (<) (map fst es)" and fits: "table_limits n es"
    and C: "\<And>D. d_images D = d_images (disk s) \<Longrightarrow> C D"
    and Q0: "es = [] \<Longrightarrow> Q (Inr None) (disk_file p [] [] (disk s))"
    and Q: "\<And>img. es \<noteq> [] \<Longrightarrow> holds_table xxh crc (map entry_of es) img \<Longrightarrow>
      Q (Inr (Some (new_meta tid es))) (disk_file p img img (disk s))"
  shows "runs up disk down (write_table xxh crc S p tid n es) C Q s"
proof (cases "es = []")
  case True
  show ?thesis
    unfolding True write_table_empty [abs_def]
    by (rule runs_then_pure, rule runs_err_map, rule runs_weaken [OF runs_builder_new [OF s p C]])
       (use Q0 True in \<open>auto\<close>)
next
  case False
  have "sorted_wrt (<) (map e_key (map entry_of es))" "table_fits (map entry_of es)"
      "bloom_bits (max n 1) DEFAULT_BITS_PER_KEY < 2 ^ 32"
    using es fits unfolding map_key_entry_of by (simp_all add: table_limits_def)
  then show ?thesis
    unfolding write_table_build [OF False, abs_def]
    using Q [OF False] by (intro runs_then_pure runs_err_map runs_build_table [OF s p _ _ _ C]) auto
qed

lemma inert_write_table: "inert down (write_table xxh crc S p tid n es)"
proof (cases "es = []")
  case True
  then show ?thesis
    unfolding True write_table_empty [abs_def] builder_new_eq by (intro inert_then inert_err_map inert_ops)
next
  case False
  then show ?thesis
    unfolding write_table_build [OF False, abs_def] build_table_def builder_new_eq
    by (intro inert_then inert_err_map inert_ops)
qed

end

end
