(* ===== verification/Store_Steps.thy ===== *)
theory Store_Steps imports Store begin

text \<open>
  The steps of the store on a backend whose power may fail at any operation: installing a version,
  flushing a memtable and one compaction pass. Each either completes with the invariant restored or
  stops on a disk that still holds the old version or already the new one.
\<close>

section \<open>Frames\<close>

text \<open>A predicate of the disk that no operation of the store touches, as long as new tables take
  identifiers from \<open>n\<close> on.\<close>

definition store_closed :: "path \<Rightarrow> u64 \<Rightarrow> (disk \<Rightarrow> bool) \<Rightarrow> bool" where
  "store_closed dir n F \<longleftrightarrow>
     (\<forall>D tid c d. F D \<longrightarrow> n \<le> tid \<longrightarrow> F (disk_file (table_path dir tid) c d D))
     \<and> (\<forall>D d. F D \<longrightarrow> F (disk_replace dir (join dir MANIFEST_TMP) (join dir MANIFEST_NAME) d D))
     \<and> (\<forall>D X. F D \<longrightarrow> (\<forall>p\<in>X. parse_table_id p \<noteq> None) \<longrightarrow> F (disk_deletes X D))
     \<and> (\<forall>D. F D \<longrightarrow> F (disk_sync_dir dir D))"

lemma store_closedD:
  assumes "store_closed dir n F" and "F D"
  shows "n \<le> tid \<Longrightarrow> F (disk_file (table_path dir tid) c d D)"
    and "F (disk_replace dir (join dir MANIFEST_TMP) (join dir MANIFEST_NAME) bs D)"
    and "\<forall>p\<in>X. parse_table_id p \<noteq> None \<Longrightarrow> F (disk_deletes X D)"
    and "F (disk_sync_dir dir D)"
  using assms by (auto simp: store_closed_def)

lemma store_closed_mono: "store_closed dir n F \<Longrightarrow> n \<le> n' \<Longrightarrow> store_closed dir n' F"
  unfolding store_closed_def by (meson order_trans)

lemma garbage_tables: "Y \<subseteq> garbage ids ps \<Longrightarrow> \<forall>p\<in>Y. parse_table_id p \<noteq> None"
  by (auto simp: garbage_def)

lemma garbage_live: "tid \<in> ids \<Longrightarrow> Y \<subseteq> garbage ids ps \<Longrightarrow> table_path dir tid \<notin> Y"
  by (auto simp: garbage_def)

section \<open>Installing a version\<close>

lemma store_disk_deletes:
  assumes "store_disk xxh crc dir E v D" and "referenced_ids v \<subseteq> ids" and "Y \<subseteq> garbage ids ps"
  shows "store_disk xxh crc dir E v (disk_deletes Y D)"
proof -
  have "join dir MANIFEST_NAME \<notin> Y" using assms(3) by (auto simp: garbage_def)
  moreover have "table_path dir (tm_id t) \<notin> Y" if "t \<in> set (all_tables v)" for t
    using that assms(2,3) by (intro garbage_live) (auto simp: referenced_ids_def)
  ultimately show ?thesis
    using assms(1) unfolding store_disk_def settled_table_def by (blast intro: settled_frame)
qed

lemma store_disk_sync_dir:
  "store_disk xxh crc dir E v D \<Longrightarrow> store_disk xxh crc dir E v (disk_sync_dir dir D)"
  unfolding store_disk_def settled_table_def by (blast intro: settled_frame)

lemma store_disk_collected:
  assumes "store_disk xxh crc dir E v D" and "referenced_ids v \<subseteq> ids"
  shows "store_disk xxh crc dir E v (collected ids dir D)"
  unfolding collected_def Let_def
  using assms store_disk_sync_dir [OF store_disk_deletes [OF assms order_refl]] by simp

lemma store_disk_replaced:
  assumes wf: "version_wf v" "version_fits v"
    and tabs: "\<And>t. t \<in> set (all_tables v) \<Longrightarrow> synced_table xxh crc D dir t (E (tm_id t))"
  shows "store_disk xxh crc dir E v
    (disk_replace dir (join dir MANIFEST_TMP) (join dir MANIFEST_NAME) (encode_version crc v) D)"
proof -
  let ?D = "disk_replace dir (join dir MANIFEST_TMP) (join dir MANIFEST_NAME) (encode_version crc v) D"
  have "file_settled ?D (join dir MANIFEST_NAME) (encode_version crc v)"
    by (rule replace_settles_dst) (simp_all add: manifest_tmp_name)
  moreover have "settled_table xxh crc ?D dir t (E (tm_id t))" if "t \<in> set (all_tables v)" for t
  proof -
    obtain img where "meta_of t (E (tm_id t))" "d_view D (table_path dir (tm_id t)) = Some img"
      "d_sync D (table_path dir (tm_id t)) = Some img" "holds_table xxh crc (map entry_of (E (tm_id t))) img"
      using tabs [OF \<open>t \<in> _\<close>] unfolding synced_table_def by blast
    moreover from this have "file_settled ?D (table_path dir (tm_id t)) img" by (intro replace_settles) simp_all
    ultimately show ?thesis unfolding settled_table_def by blast
  qed
  ultimately show ?thesis using wf by (simp add: store_disk_def)
qed

lemma settled_collected:
  assumes "file_settled D (table_path dir tid) c" and "tid \<in> ids"
  shows "file_settled (collected ids dir (disk_replace dir (join dir MANIFEST_TMP) (join dir MANIFEST_NAME) bs D)) (table_path dir tid) c"
proof -
  let ?D = "disk_replace dir (join dir MANIFEST_TMP) (join dir MANIFEST_NAME) bs D"
    and ?X = "garbage ids {p. d_view (disk_replace dir (join dir MANIFEST_TMP) (join dir MANIFEST_NAME) bs D) p \<noteq> None \<and> parent p = Some dir}"
  have "file_settled ?D (table_path dir tid) c" using assms(1) by (intro settled_frame) simp_all
  moreover have "table_path dir tid \<notin> ?X" by (rule garbage_live [OF assms(2) order_refl])
  ultimately have "file_settled (disk_deletes ?X ?D) (table_path dir tid) c" by (rule settled_deletes)
  then show ?thesis using \<open>file_settled ?D _ _\<close> by (auto simp: collected_def Let_def intro: settled_sync_dir)
qed

text \<open>A collection leaves only live tables.\<close>

lemma collected_view: "tid \<notin> ids \<Longrightarrow> d_view (collected ids dir D) (table_path dir tid) = None"
proof (cases "d_view D (table_path dir tid) = None")
  case False
  moreover assume "tid \<notin> ids"
  ultimately have "table_path dir tid \<in> garbage ids {p. d_view D p \<noteq> None \<and> parent p = Some dir}"
    by (simp add: garbage_def)
  then show ?thesis by (auto simp: collected_def Let_def)
qed (simp add: collected_def Let_def)

lemma collected_closed:
  assumes "store_closed dir n F" and "F D"
  shows "F (collected ids dir D)"
  unfolding collected_def Let_def
  using store_closedD(4) [OF assms(1) store_closedD(3) [OF assms garbage_tables [OF order_refl]]] assms(2) by simp

context crash_fs
begin

lemma reaches_install:
  assumes s: "up s" and m: "m_dir m = dir" and v: "version_wf v" "version_fits v"
    and tabs: "\<And>t. t \<in> set (all_tables v) \<Longrightarrow> synced_table xxh crc (disk s) dir t (E (tm_id t))"
    and ids_below: "ids_below (v_next_id v) m"
    and older: "\<And>av t. av \<in> set (m_current m # m_obsolete m) \<Longrightarrow> t \<in> set (all_tables (snd av)) \<Longrightarrow>
      settled_table xxh crc (disk s) dir t (E (tm_id t))"
    and F: "store_closed dir n F" "F (disk s)"
    and C: "\<And>D. d_images D = d_images (disk s) \<Longrightarrow> C D" "\<And>D. durable_store xxh crc dir E v D \<Longrightarrow> F D \<Longrightarrow> C D"
    and Q: "\<And>m' D. store_inv xxh crc dir E m' D \<Longrightarrow> snd (m_current m') = v \<Longrightarrow> held m m' \<Longrightarrow> F D
      \<Longrightarrow> Q (Inr ()) m' D"
  shows "reaches up disk down (manifest_install crc S v) C Q (m, s)"
proof -
  let ?D = "disk_replace dir (join dir MANIFEST_TMP) (join dir MANIFEST_NAME) (encode_version crc v) (disk s)"
  let ?m = "m\<lparr>m_current := (m_next_arc m, v), m_obsolete := m_obsolete m @ [m_current m], m_next_arc := m_next_arc m + 1\<rparr>"
  let ?ids = "live_ids (retain_pinned ?m)"
  have sd: "store_disk xxh crc dir E v ?D" by (rule store_disk_replaced [OF v tabs])
  have fd: "F ?D" by (rule store_closedD(2) [OF F])
  have ids: "referenced_ids v \<subseteq> ?ids" by (auto simp: live_ids_def retain_pinned_def)
  have inst: "manifest_install crc S v = (\<lambda>(m, s). ok_then (mem_call (write_manifest crc S (m_dir m) v) (\<lambda>e. e) m Inr
      (\<lambda>_. m\<lparr>m_current := (m_next_arc m, v), m_obsolete := m_obsolete m @ [m_current m], m_next_arc := m_next_arc m + 1\<rparr>) s)
      (\<lambda>_. manifest_gc S))"
    by (auto simp: manifest_install_def mem_call_def fun_eq_iff Let_def split: prod.split sum.split)
  have "reaches up disk down (\<lambda>ms. ok_then ((\<lambda>(m, s). mem_call (write_manifest crc S (m_dir m) v) (\<lambda>e. e) m Inr
      (\<lambda>_. m\<lparr>m_current := (m_next_arc m, v), m_obsolete := m_obsolete m @ [m_current m], m_next_arc := m_next_arc m + 1\<rparr>) s) ms)
      (\<lambda>_. manifest_gc S)) C Q (m, s)"
  proof (rule reaches_then [where P = "\<lambda>_ m' D. m' = ?m \<and> D = ?D"])
    show "reaches up disk down (\<lambda>(m, s). mem_call (write_manifest crc S (m_dir m) v) (\<lambda>e. e) m Inr
        (\<lambda>_. m\<lparr>m_current := (m_next_arc m, v), m_obsolete := m_obsolete m @ [m_current m], m_next_arc := m_next_arc m + 1\<rparr>) s)
        C (\<lambda>r m' D. \<exists>x. r = Inr x \<and> m' = ?m \<and> D = ?D) (m, s)"
    proof (rule reaches_mem_call)
      show "runs up disk down (write_manifest crc S dir v) C
          (\<lambda>r D. \<exists>x. r = Inr x \<and> (\<exists>y. Inr x = Inr y \<and> ?m = ?m \<and> D = ?D)) s"
        using C(1) C(2) [OF store_disk_durable [OF sd] fd] by (intro runs_write_manifest [OF s]) auto
    qed (simp add: m)
    fix m' s' assume s': "up s'" "m' = ?m \<and> disk s' = ?D"
    have "reaches up disk down (manifest_gc S) C
        (\<lambda>r m'' D. r = Inr () \<and> m'' = retain_pinned ?m \<and> D = collected ?ids dir ?D) (?m, s')"
    proof (rule reaches_weaken [OF reaches_gc [OF s'(1) _ refl]])
      fix Y assume "Y \<subseteq> garbage ?ids UNIV"
      then have "store_disk xxh crc dir E v (disk_deletes Y ?D)" "F (disk_deletes Y ?D)"
        using store_disk_deletes [OF sd ids] store_closedD(3) [OF F(1) fd garbage_tables] by blast+
      then show "C (disk_deletes Y (disk s'))" using s'(2) by (intro C(2) store_disk_durable) simp_all
    next
      show "C (collected ?ids dir (disk s'))"
        using store_disk_collected [OF sd ids] collected_closed [OF F(1) fd] s'(2)
        by (intro C(2) store_disk_durable) simp_all
    qed (use m s'(2) in simp_all)
    moreover have "store_inv xxh crc dir E (retain_pinned ?m) (collected ?ids dir ?D)"
    proof -
      have "live_ids (retain_pinned ?m) \<subseteq> referenced_ids v \<union> live_ids m"
        by (auto simp: live_ids_def retain_pinned_def)
      then have "ids_below (v_next_id v) (retain_pinned ?m)"
        using ids_below v(1) by (auto simp: ids_below_def version_wf_def referenced_ids_def)
      moreover from this have "d_view (collected ?ids dir ?D) (table_path dir tid) = None" if "v_next_id v \<le> tid" for tid
        using that by (intro collected_view) (auto simp: ids_below_def)
      moreover have "settled_table xxh crc (collected ?ids dir ?D) dir t (E (tm_id t))"
        if av: "av \<in> set (m_obsolete (retain_pinned ?m))" and t: "t \<in> set (all_tables (snd av))" for av t
      proof -
        have "av \<in> set (m_current m # m_obsolete m)" using av by (auto simp: retain_pinned_def split: if_splits)
        from older [OF this t] obtain img where img: "meta_of t (E (tm_id t))" "file_settled (disk s) (table_path dir (tm_id t)) img"
          "holds_table xxh crc (map entry_of (E (tm_id t))) img" by (auto simp: settled_table_def)
        have "tm_id t \<in> ?ids" using av t by (force simp: live_ids_def referenced_ids_def)
        from settled_collected [OF img(2) this] img(1,3) show ?thesis unfolding settled_table_def by blast
      qed
      ultimately show ?thesis
        using store_disk_collected [OF sd ids] m unfolding store_inv_def by (simp add: retain_pinned_def)
    qed
    then have "Q (Inr ()) (retain_pinned ?m) (collected ?ids dir ?D)"
      using collected_closed [OF F(1) fd] by (intro Q) (auto simp: retain_pinned_def held_def case_prod_unfold)
    ultimately show "reaches up disk down (manifest_gc S) C Q (m', s')"
      using s'(2) by (auto elim: reaches_weaken)
  qed (rule stays_gc)
  then show ?thesis unfolding inst by (simp add: case_prod_unfold)
qed

lemma stays_install: "stays down (manifest_install crc S v)"
  unfolding stays_def
proof (intro allI impI)
  fix m :: manifest and s D assume "down s D"
  then obtain e where "write_manifest crc S (m_dir m) v s = (Inl e, s)" using write_manifest_down by blast
  then show "snd (snd (manifest_install crc S v (m, s))) = s" by (simp add: manifest_install_def)
qed

end

section \<open>Content\<close>

text \<open>Replacing the levels \<open>L\<close> by \<open>L'\<close> below any newer levels keeps the order of versions and what a
  reader sees, and invents no version.\<close>

definition same_content :: "entry list list \<Rightarrow> entry list list \<Rightarrow> bool" where
  "same_content L L' \<longleftrightarrow> (\<forall>pre. newest_first (pre @ L) \<longrightarrow>
     newest_first (pre @ L') \<and> (\<forall>k. visible (pre @ L') k = visible (pre @ L) k))
     \<and> (\<forall>k v. holds_version L' k v \<longrightarrow> holds_version L k v)"

lemma same_content_refl [simp]: "same_content L L"
  by (simp add: same_content_def)

lemma same_content_trans: "same_content L M \<Longrightarrow> same_content M N \<Longrightarrow> same_content L N"
  unfolding same_content_def by metis

lemma same_contentD:
  assumes "same_content L L'" and "newest_first (pre @ L)"
  shows "newest_first (pre @ L')" and "visible (pre @ L') k = visible (pre @ L) k"
    and "holds_version L' k v \<Longrightarrow> holds_version L k v"
  using assms unfolding same_content_def by blast+

lemma same_content_merged:
  assumes m: "map_of m = first_hit mid"
  shows "same_content (pre @ mid @ post) (pre @ m # post)"
proof -
  have "holds_version mid k v" if "map_of m k = Some v" for k v
    using that unfolding m by (rule first_hit_holds)
  moreover have "newest_first ((p @ pre) @ m # post)" if "newest_first ((p @ pre) @ mid @ post)" for p
    using newest_first_merged [OF that, of m] m by simp
  moreover have "visible ((p @ pre) @ m # post) k = visible ((p @ pre) @ mid @ post) k" for p k
    by (rule visible_merged [OF m])
  ultimately show ?thesis unfolding same_content_def by simp
qed

lemma same_content_bottom:
  assumes m: "\<And>k. map_of m k = (case first_hit mid k of Some v \<Rightarrow> if is_tombstone v then None else Some v | None \<Rightarrow> None)"
  shows "same_content (pre @ mid) (pre @ [m])"
proof -
  have f: "first_hit mid k = Some v" if "map_of m k = Some v" for k v
    using that unfolding m by (auto split: option.splits if_splits)
  then have h: "holds_version mid k v" if "map_of m k = Some v" for k v
    using that by (blast intro: first_hit_holds)
  moreover have "newest_first ((p @ pre) @ [m])" if "newest_first ((p @ pre) @ mid @ [])" for p
    using newest_first_merged [OF that, of m] f by simp
  moreover have "visible ((p @ pre) @ [m]) k = visible ((p @ pre) @ mid) k" for p k
    by (rule visible_dropped [OF m])
  ultimately show ?thesis unfolding same_content_def by simp
qed

lemma same_content_no_level: "same_content (pre @ [] # post) (pre @ post)"
  unfolding same_content_def visible_def
  by (auto simp: newest_first_append first_hit_append split: option.split)

text \<open>The output of a merge, with tombstones dropped when nothing lies below.\<close>

lemma merged_entries_spec:
  assumes nf: "newest_first mid" and ps: "set ps = set mid" "sorted_sources ps"
  shows "sorted_wrt (<) (map fst (merged_entries dt ps))"
    and "\<not> dt \<Longrightarrow> map_of (merged_entries dt ps) = first_hit mid"
    and "dt \<Longrightarrow> map_of (merged_entries dt ps) k
      = (case first_hit mid k of Some v \<Rightarrow> if is_tombstone v then None else Some v | None \<Rightarrow> None)"
    and "set (merged_entries dt ps) \<subseteq> set (concat ps)"
proof -
  let ?m = "merge_all (merge_new ps)"
  have sm: "sorted_wrt (<) (map fst ?m)" using merge_all_wins [OF merge_new_ok ps(2)] by blast
  note mo = merge_first_hit [OF nf ps]
  show "sorted_wrt (<) (map fst (merged_entries dt ps))"
    using sm by (simp add: merged_entries_def sorted_wrt_map sorted_wrt_filter)
  show "\<not> dt \<Longrightarrow> map_of (merged_entries dt ps) = first_hit mid"
    by (simp add: merged_entries_def mo)
  show "dt \<Longrightarrow> map_of (merged_entries dt ps) k
      = (case first_hit mid k of Some v \<Rightarrow> if is_tombstone v then None else Some v | None \<Rightarrow> None)"
    using map_of_filter_sorted [OF sm, of "\<lambda>v. \<not> is_tombstone v" k] unfolding mo
    by (auto simp: merged_entries_def case_prod_unfold split: option.split)
  show "set (merged_entries dt ps) \<subseteq> set (concat ps)"
  proof
    fix kv assume "kv \<in> set (merged_entries dt ps)"
    then have "kv \<in> set ?m" by (simp add: merged_entries_def)
    moreover obtain k v where kv: "kv = (k, v)" by force
    ultimately have "wins ps k v" using merge_all_wins [OF merge_new_ok ps(2)] by blast
    then obtain j where "j < length ps" "map_of (ps ! j) k = Some v" unfolding wins_def by blast
    then show "kv \<in> set (concat ps)" using kv(1) map_of_SomeD by (auto intro!: bexI [OF _ nth_mem])
  qed
qed

end
