(* ===== verification/Db.thy ===== *)
theory Db imports Compaction Wal begin

text \<open>
  The engine (\<open>src/src/db.rs\<close>): opening with recovery, the write path in its phases, point reads,
  range scans, and flushing with cascading compaction. The backend's state lives in the log
  (\<open>wfs (db_wal d)\<close>); the manifest and the tables work on the same backend.
\<close>

section \<open>State\<close>

definition DEFAULT_TIER_FANOUT :: nat where "DEFAULT_TIER_FANOUT = 4"

record options =
  o_durability :: durability
  o_memtable_size :: nat
  o_tier_fanout :: nat

datatype db_error =
    Db_storage storage_error
  | Db_sstable sst_error
  | Db_manifest manifest_error
  | Db_compaction compaction_error

record write_state =
  ws_next_seq :: u64
  ws_in_flight :: nat
  ws_flush_pending :: bool

record 'fs db =
  db_dir :: path
  db_options :: options
  db_wal :: "'fs wal"
  db_mem :: memtable_set
  db_manifest :: manifest
  db_readers :: "u64 \<Rightarrow> sst_reader option"
  db_write :: write_state

definition db_cfg :: "'fs db \<Rightarrow> wal_cfg" where
  "db_cfg d = \<lparr>wal_dir = db_dir d, wal_durability = o_durability (db_options d), segment_size = DEFAULT_SEGMENT_SIZE\<rparr>"

abbreviation db_fs :: "'fs db \<Rightarrow> 'fs" where "db_fs d \<equiv> wfs (db_wal d)"

definition with_fs :: "'fs \<Rightarrow> 'fs db \<Rightarrow> 'fs db" where
  "with_fs s d = d\<lparr>db_wal := (db_wal d)\<lparr>wfs := s\<rparr>\<rparr>"

text \<open>An operation of the manifest or of compaction, on the manifest handle and the backend.\<close>

definition on_manifest ::
  "(manifest \<times> 'fs \<Rightarrow> ('e + 'a) \<times> manifest \<times> 'fs) \<Rightarrow> 'fs db \<Rightarrow> ('e + 'a) \<times> 'fs db" where
  "on_manifest f d = (let (r, (m, s)) = f (db_manifest d, db_fs d) in (r, with_fs s (d\<lparr>db_manifest := m\<rparr>)))"

section \<open>The record codec\<close>

definition REC_TAG_DELETE :: u8 where "REC_TAG_DELETE = 0"
definition REC_TAG_PUT :: u8 where "REC_TAG_PUT = 1"

record log_record =
  rec_seq :: u64
  rec_key :: bytes
  rec_value :: internal_value

definition encode_record :: "u64 \<Rightarrow> bytes \<Rightarrow> value_kind \<Rightarrow> bytes" where
  "encode_record sq key k = u64_le sq @
     (case k of
        Value v \<Rightarrow> [REC_TAG_PUT] @ u32_le (of_nat (length key)) @ key @ u32_le (of_nat (length v)) @ v
      | Tombstone \<Rightarrow> [REC_TAG_DELETE] @ u32_le (of_nat (length key)) @ key)"

text \<open>\<open>take\<close> of the decoder's closure; the cursor is the buffer and \<open>pos\<close>.\<close>

definition lr_take :: "nat \<Rightarrow> cursor \<Rightarrow> (db_error + bytes) \<times> cursor" where
  "lr_take n c =
     (if length (cur_buf c) - cur_pos c < n
      then (Inl (Db_sstable (Corrupt ''wal record: truncated'')), c)
      else (Inr (take n (drop (cur_pos c) (cur_buf c))), c\<lparr>cur_pos := cur_pos c + n\<rparr>))"

definition lr_field :: "cursor \<Rightarrow> (db_error + bytes) \<times> cursor" where
  "lr_field c = ok_then (lr_take 4 c) (\<lambda>n c. lr_take (unat (le_u32 n)) c)"

definition decode_fields :: "cursor \<Rightarrow> (db_error + log_record) \<times> cursor" where
  "decode_fields c =
     ok_then (lr_take 8 c) (\<lambda>sq c.
     ok_then (lr_take 1 c) (\<lambda>tag c.
     ok_then (lr_field c) (\<lambda>key c.
     ok_then
       (if tag ! 0 = REC_TAG_PUT then ok_then (lr_field c) (\<lambda>v c. (Inr (Value v), c))
        else if tag ! 0 = REC_TAG_DELETE then (Inr Tombstone, c)
        else (Inl (Db_sstable (Corrupt (''wal record: unknown tag '' @ dec (unat (tag ! 0))))), c))
       (\<lambda>k c. (Inr \<lparr>rec_seq = le_u64 sq, rec_key = key, rec_value = \<lparr>seq = le_u64 sq, kind = k\<rparr>\<rparr>, c)))))"

definition decode_record :: "bytes \<Rightarrow> db_error + log_record" where
  "decode_record b = fst (decode_fields (cur_new b))"

section \<open>Opening\<close>

text \<open>\<open>rec.seq + 1\<close> wraps at the width.\<close>

fun replay :: "bytes list \<Rightarrow> u64 \<Rightarrow> memtable_set \<Rightarrow> db_error + u64 \<times> memtable_set" where
  "replay [] sq mem = Inr (sq, mem)"
| "replay (b # bs) sq mem =
     res_then (decode_record b) (\<lambda>r.
       replay bs (max sq (rec_seq r + 1)) (set_insert_if_newer (rec_key r) (rec_value r) mem))"

definition db_open ::
  "crc \<Rightarrow> 'fs storage \<Rightarrow> path \<Rightarrow> options \<Rightarrow> 'fs \<Rightarrow> (db_error + 'fs db) \<times> 'fs" where
  "db_open crc S dir opts s =
     ok_then (err_map Db_manifest (manifest_open crc S dir s)) (\<lambda>m s.
     ok_then (err_map Db_storage (wal_open crc S dir s)) (\<lambda>(w, rec) s.
       case replay (records rec) (v_next_seq (snd (m_current m))) (set_new (o_memtable_size opts)) of
         Inl e \<Rightarrow> (Inl e, s)
       | Inr (sq, mem) \<Rightarrow>
           (Inr \<lparr>db_dir = dir, db_options = opts, db_wal = w, db_mem = mem, db_manifest = m,
                 db_readers = (\<lambda>_. None),
                 db_write = \<lparr>ws_next_seq = sq, ws_in_flight = 0, ws_flush_pending = False\<rparr>\<rparr>, s)))"

section \<open>Reading\<close>

definition reader_for ::
  "crc \<Rightarrow> 'fs storage \<Rightarrow> table_meta \<Rightarrow> 'fs db \<Rightarrow> (db_error + sst_reader) \<times> 'fs db" where
  "reader_for crc S meta d =
     (case db_readers d (tm_id meta) of
        Some r \<Rightarrow> (Inr r, d)
      | None \<Rightarrow>
          (case reader_open crc S (table_path (db_dir d) (tm_id meta)) (db_fs d) of
             Inl e \<Rightarrow> (Inl (Db_sstable e), d)
           | Inr r \<Rightarrow> (Inr r, d\<lparr>db_readers := (db_readers d)(tm_id meta \<mapsto> r)\<rparr>)))"

fun get_tables ::
  "hash128 \<Rightarrow> crc \<Rightarrow> 'fs storage \<Rightarrow> bytes \<Rightarrow> table_meta list \<Rightarrow> 'fs db \<Rightarrow> (db_error + bytes option) \<times> 'fs db" where
  "get_tables xxh crc S key [] d = (Inr None, d)"
| "get_tables xxh crc S key (t # ts) d =
     (if \<not> key_in_range t key then get_tables xxh crc S key ts d
      else ok_then (reader_for crc S t d) (\<lambda>r d.
        case reader_get xxh crc S (db_fs d) r key of
          Inl e \<Rightarrow> (Inl (Db_sstable e), d)
        | Inr None \<Rightarrow> get_tables xxh crc S key ts d
        | Inr (Some e) \<Rightarrow> (Inr (case e_value e of Put b \<Rightarrow> Some b | Delete \<Rightarrow> None), d)))"

text \<open>The version is pinned for the duration of the read and dropped at its end.\<close>

definition db_get ::
  "hash128 \<Rightarrow> crc \<Rightarrow> 'fs storage \<Rightarrow> bytes \<Rightarrow> 'fs db \<Rightarrow> (db_error + bytes option) \<times> 'fs db" where
  "db_get xxh crc S key d =
     (case set_get (db_mem d) key of
        Some v \<Rightarrow> (Inr (case kind v of Value b \<Rightarrow> Some b | Tombstone \<Rightarrow> None), d)
      | None \<Rightarrow>
          let ((a, v), m) = manifest_current (db_manifest d);
              (r, d) = get_tables xxh crc S key (tables_newest_first v) (d\<lparr>db_manifest := m\<rparr>)
          in (r, d\<lparr>db_manifest := drop_version a (db_manifest d)\<rparr>))"

definition range_contains :: "key_range \<Rightarrow> bytes \<Rightarrow> bool" where
  "range_contains r key =
     (let after_start = (case fst r of Unbounded \<Rightarrow> True | Included s \<Rightarrow> s \<le> key | Excluded s \<Rightarrow> s < key);
          before_end = (case snd r of Unbounded \<Rightarrow> True | Included e \<Rightarrow> key \<le> e | Excluded e \<Rightarrow> key < e)
      in after_start \<and> before_end)"

fun scan_tables ::
  "crc \<Rightarrow> 'fs storage \<Rightarrow> key_range \<Rightarrow> table_meta list \<Rightarrow> entry list list \<Rightarrow> 'fs db
    \<Rightarrow> (db_error + entry list list) \<times> 'fs db" where
  "scan_tables crc S rg [] srcs d = (Inr srcs, d)"
| "scan_tables crc S rg (t # ts) srcs d =
     ok_then (reader_for crc S t d) (\<lambda>r d.
       case for_entries crc S (db_fs d)
              (\<lambda>e out. if range_contains rg (e_key e)
                        then out @ [(e_key e, internal_of (e_seq e) (e_value e))] else out) [] (reader_iter r) of
         Inl e \<Rightarrow> (Inl (Db_sstable e), d)
       | Inr es \<Rightarrow> scan_tables crc S rg ts (srcs @ [es]) d)"

text \<open>A scan whose memtable snapshot panics (an inverted range) is \<open>None\<close>; otherwise the returned
  iterator holds its own snapshot of every source.\<close>

definition db_scan ::
  "crc \<Rightarrow> 'fs storage \<Rightarrow> key_range \<Rightarrow> 'fs db \<Rightarrow> ((db_error + merge_iter) \<times> 'fs db) option" where
  "db_scan crc S rg d =
     (case scan_iters rg (db_mem d) of
        None \<Rightarrow> None
      | Some srcs \<Rightarrow>
          let ((a, v), m) = manifest_current (db_manifest d);
              (r, d) = scan_tables crc S rg (all_tables v) srcs (d\<lparr>db_manifest := m\<rparr>)
          in Some (ok_then (r, d\<lparr>db_manifest := drop_version a (db_manifest d)\<rparr>) (\<lambda>ss d. (Inr (merge_new ss), d))))"

section \<open>Flushing\<close>

text \<open>One table: the version is pinned for the loop body, so the files it references outlive the
  collection that \<open>install\<close> runs.\<close>

definition flush_table ::
  "hash128 \<Rightarrow> crc \<Rightarrow> 'fs storage \<Rightarrow> nat \<times> memtable \<Rightarrow> 'fs db \<Rightarrow> (db_error + unit) \<times> 'fs db" where
  "flush_table xxh crc S fz d =
     (let ((a, v), m) = manifest_current (db_manifest d);
          d = d\<lparr>db_manifest := m\<rparr>;
          tid = v_next_id v;
          es = snapshot (snd fz);
          (r, s) = write_table xxh crc S (table_path (db_dir d) tid) tid (length es) es (db_fs d);
          (r, d) = ok_then (err_map Db_compaction (r, with_fs s d)) (\<lambda>out d.
            ok_then (case out of
                Some meta \<Rightarrow> err_map Db_manifest
                  (on_manifest (manifest_install crc S (flushed v meta (ws_next_seq (db_write d)))) d)
              | None \<Rightarrow> (Inr (), d)) (\<lambda>_ d.
            (Inr (), d\<lparr>db_mem := discard_frozen fz (db_mem d)\<rparr>)))
      in (r, d\<lparr>db_manifest := drop_version a (db_manifest d)\<rparr>))"

text \<open>The loop body without the discard at its end, for readers that run while the table is installed.
  Nothing is collected between the install and the end of the body, so where the pin ends does not show.\<close>

definition flush_install ::
  "hash128 \<Rightarrow> crc \<Rightarrow> 'fs storage \<Rightarrow> nat \<times> memtable \<Rightarrow> 'fs db \<Rightarrow> (db_error + unit) \<times> 'fs db" where
  "flush_install xxh crc S fz d =
     (let ((a, v), m) = manifest_current (db_manifest d);
          d = d\<lparr>db_manifest := m\<rparr>;
          tid = v_next_id v;
          es = snapshot (snd fz);
          (r, s) = write_table xxh crc S (table_path (db_dir d) tid) tid (length es) es (db_fs d);
          (r, d) = ok_then (err_map Db_compaction (r, with_fs s d)) (\<lambda>out d.
            case out of
                Some meta \<Rightarrow> err_map Db_manifest
                  (on_manifest (manifest_install crc S (flushed v meta (ws_next_seq (db_write d)))) d)
              | None \<Rightarrow> (Inr (), d))
      in (r, d\<lparr>db_manifest := drop_version a (db_manifest d)\<rparr>))"

fun flush_frozen ::
  "hash128 \<Rightarrow> crc \<Rightarrow> 'fs storage \<Rightarrow> (nat \<times> memtable) list \<Rightarrow> 'fs db \<Rightarrow> (db_error + unit) \<times> 'fs db" where
  "flush_frozen xxh crc S [] d = (Inr (), d)"
| "flush_frozen xxh crc S (fz # fzs) d =
     ok_then (flush_table xxh crc S fz d) (\<lambda>_ d. flush_frozen xxh crc S fzs d)"

definition db_reset_wal :: "'fs storage \<Rightarrow> 'fs db \<Rightarrow> (db_error + unit) \<times> 'fs db" where
  "db_reset_wal S d =
     (let (r, w) = wal_reset S (db_cfg d) (db_wal d) in err_map Db_storage (r, d\<lparr>db_wal := w\<rparr>))"

text \<open>\<open>while maybe_compact()? {}\<close>: \<open>None\<close> is a loop that does not end.\<close>

partial_function (option) cascade ::
  "hash128 \<Rightarrow> crc \<Rightarrow> 'fs storage \<Rightarrow> nat \<Rightarrow> manifest \<times> 'fs \<Rightarrow> ((compaction_error + unit) \<times> manifest \<times> 'fs) option" where
  "cascade xxh crc S tier_fanout ms =
     (case maybe_compact xxh crc S tier_fanout ms of
        (r, ms') \<Rightarrow>
          (case r of
             Inl e \<Rightarrow> Some (Inl e, ms')
           | Inr again \<Rightarrow> if again then cascade xxh crc S tier_fanout ms' else Some (Inr (), ms')))"

definition db_cascade :: "hash128 \<Rightarrow> crc \<Rightarrow> 'fs storage \<Rightarrow> 'fs db \<Rightarrow> ((db_error + unit) \<times> 'fs db) option" where
  "db_cascade xxh crc S d =
     map_option (\<lambda>(r, (m, s)). err_map Db_compaction (r, with_fs s (d\<lparr>db_manifest := m\<rparr>)))
       (cascade xxh crc S (o_tier_fanout (db_options d)) (db_manifest d, db_fs d))"

text \<open>One round of that loop.\<close>

definition db_compact :: "hash128 \<Rightarrow> crc \<Rightarrow> 'fs storage \<Rightarrow> 'fs db \<Rightarrow> (db_error + bool) \<times> 'fs db" where
  "db_compact xxh crc S d =
     err_map Db_compaction (on_manifest (maybe_compact xxh crc S (o_tier_fanout (db_options d))) d)"

definition freeze_active :: "'fs db \<Rightarrow> 'fs db" where
  "freeze_active d = (if 0 < active_bytes (db_mem d) then d\<lparr>db_mem := snd (freeze (db_mem d))\<rparr> else d)"

definition flush_quiesced :: "hash128 \<Rightarrow> crc \<Rightarrow> 'fs storage \<Rightarrow> 'fs db \<Rightarrow> ((db_error + unit) \<times> 'fs db) option" where
  "flush_quiesced xxh crc S d =
     (let d = freeze_active d;
          (r, d) = ok_then (flush_frozen xxh crc S (frozen_tables (db_mem d)) d) (\<lambda>_. db_reset_wal S)
      in case r of Inl e \<Rightarrow> Some (Inl e, d) | Inr _ \<Rightarrow> db_cascade xxh crc S d)"

text \<open>\<open>None\<close>: the call waits for writes in flight, or its cascade does not end.\<close>

definition flush_locked :: "hash128 \<Rightarrow> crc \<Rightarrow> 'fs storage \<Rightarrow> 'fs db \<Rightarrow> ((db_error + unit) \<times> 'fs db) option" where
  "flush_locked xxh crc S d =
     (let d = d\<lparr>db_write := (db_write d)\<lparr>ws_flush_pending := True\<rparr>\<rparr>
      in if 0 < ws_in_flight (db_write d) then None
         else map_option (\<lambda>(r, d). (r, d\<lparr>db_write := (db_write d)\<lparr>ws_flush_pending := False\<rparr>\<rparr>))
                (flush_quiesced xxh crc S d))"

definition db_flush :: "hash128 \<Rightarrow> crc \<Rightarrow> 'fs storage \<Rightarrow> 'fs db \<Rightarrow> ((db_error + unit) \<times> 'fs db) option" where
  "db_flush xxh crc S d = flush_locked xxh crc S d"

section \<open>Writing\<close>

text \<open>Phase 1, under the write lock: \<open>None\<close> is a writer that waits for a pending flush.\<close>

definition write_claim :: "'fs db \<Rightarrow> (u64 \<times> 'fs db) option" where
  "write_claim d =
     (let ws = db_write d
      in if ws_flush_pending ws then None
         else Some (ws_next_seq ws, d\<lparr>db_write := ws\<lparr>ws_next_seq := ws_next_seq ws + 1,
                                                  ws_in_flight := ws_in_flight ws + 1\<rparr>\<rparr>))"

text \<open>Phase 2: the record is logged with the lock released.\<close>

definition write_log ::
  "crc \<Rightarrow> 'fs storage \<Rightarrow> u64 \<Rightarrow> bytes \<Rightarrow> value_kind \<Rightarrow> 'fs db \<Rightarrow> ((storage_error + unit) \<times> 'fs db) option" where
  "write_log crc S sq k vk d =
     map_option (\<lambda>(r, w). (r, d\<lparr>db_wal := w\<rparr>)) (wal_append crc S (db_cfg d) (encode_record sq k vk) (db_wal d))"

definition write_leave :: "'fs db \<Rightarrow> 'fs db" where
  "write_leave d = d\<lparr>db_write := (db_write d)\<lparr>ws_in_flight := ws_in_flight (db_write d) - 1\<rparr>\<rparr>"

text \<open>Phase 3: the memtable, and a flush if the active table is full.\<close>

definition write_apply :: "u64 \<Rightarrow> bytes \<Rightarrow> value_kind \<Rightarrow> 'fs db \<Rightarrow> 'fs db" where
  "write_apply sq k vk d = d\<lparr>db_mem := set_insert_if_newer k \<lparr>seq = sq, kind = vk\<rparr> (db_mem d)\<rparr>"

definition db_write_op ::
  "hash128 \<Rightarrow> crc \<Rightarrow> 'fs storage \<Rightarrow> bytes \<Rightarrow> value_kind \<Rightarrow> 'fs db \<Rightarrow> ((db_error + unit) \<times> 'fs db) option" where
  "db_write_op xxh crc S k vk d =
     (case write_claim d of None \<Rightarrow> None
      | Some (sq, d) \<Rightarrow>
          (case write_log crc S sq k vk d of None \<Rightarrow> None
           | Some (Inl e, d) \<Rightarrow> Some (Inl (Db_storage e), write_leave d)
           | Some (Inr _, d) \<Rightarrow>
               let d = write_leave (write_apply sq k vk d)
               in if is_full (db_mem d) then flush_locked xxh crc S d else Some (Inr (), d)))"

definition db_put :: "hash128 \<Rightarrow> crc \<Rightarrow> 'fs storage \<Rightarrow> bytes \<Rightarrow> bytes \<Rightarrow> 'fs db \<Rightarrow> ((db_error + unit) \<times> 'fs db) option" where
  "db_put xxh crc S k v d = db_write_op xxh crc S k (Value v) d"

definition db_delete :: "hash128 \<Rightarrow> crc \<Rightarrow> 'fs storage \<Rightarrow> bytes \<Rightarrow> 'fs db \<Rightarrow> ((db_error + unit) \<times> 'fs db) option" where
  "db_delete xxh crc S k d = db_write_op xxh crc S k Tombstone d"

end
