(* ===== verification/Store_Compact.thy ===== *)
theory Store_Compact imports Store_Steps Db begin

text \<open>
  One compaction pass and the cascade of passes: a pass replaces the tables of the youngest full
  tier by their merge, keeps the content, and reduces the number of tables.
\<close>

section \<open>Sizes\<close>

definition entries_size :: "entry list \<Rightarrow> nat" where
  "entries_size es = (\<Sum>e\<leftarrow>es. length (row (entry_of e)) + 8)"

definition total_size :: "entry list list \<Rightarrow> nat" where
  "total_size ls = sum_list (map entries_size ls)"

lemma entries_size_simps [simp]:
  "entries_size [] = 0" "entries_size (e # es) = length (row (entry_of e)) + 8 + entries_size es"
  "entries_size (es @ fs) = entries_size es + entries_size fs"
  by (simp_all add: entries_size_def)

lemma total_size_simps [simp]:
  "total_size [] = 0" "total_size (l # ls) = entries_size l + total_size ls"
  "total_size (ls @ ms) = total_size ls + total_size ms" "total_size (rev ls) = total_size ls"
  by (simp_all add: total_size_def rev_map [symmetric] sum_list_rev)

lemma entries_size_concat: "entries_size (concat ls) = total_size ls"
  by (induction ls) simp_all

lemma entries_size_length: "21 * length es \<le> entries_size es"
  by (induction es) (auto simp: length_row encoded_entry_len_def split: sst_value.split)

lemma entries_size_table: "table_size (map entry_of es) = 8 + entries_size es"
  by (induction es) (simp_all add: table_size_def entries_size_def)

lemma sum_list_subset:
  fixes f :: "'a \<Rightarrow> nat"
  assumes "distinct xs" and "set xs \<subseteq> set ys"
  shows "sum_list (map f xs) \<le> sum_list (map f ys)"
proof -
  have "sum f (set ys) \<le> sum_list (map f ys)"
    by (induction ys) (auto simp: sum.insert_if)
  moreover have "sum f (set xs) \<le> sum f (set ys)" by (rule sum_mono2 [OF _ assms(2)]) simp_all
  ultimately show ?thesis using sum_list_distinct_conv_sum_set [OF assms(1), of f] by linarith
qed

lemma table_limitsI:
  assumes "entries_size es \<le> N" and "21 * n \<le> N" and "N + 100 < 2 ^ 32"
  shows "table_limits n es"
proof -
  have "10 * n < 2 ^ 31" using assms(2,3) by simp
  then have "saturating_mul (max (max n 1) 1) 10 < 2 ^ 31" by (auto simp: saturating_mul_def max_def)
  then have "div_ceil (max (saturating_mul (max (max n 1) 1) 10) 64) 8 < 2 ^ 29" by (auto simp: div_ceil_def max_def)
  then show ?thesis
    using assms by (simp add: table_limits_def table_fits_def entries_size_table bloom_bits_def DEFAULT_BITS_PER_KEY_def)
qed

lemma merged_size:
  assumes "newest_first mid" and "set ps = set mid" "sorted_sources ps" and "total_size ps \<le> total_size mid"
  shows "entries_size (merged_entries dt ps) \<le> total_size mid"
proof -
  note m = merged_entries_spec [where dt = dt, OF assms(1-3)]
  have "distinct (merged_entries dt ps)" using m(1) by (simp add: strict_sorted_iff distinct_map)
  then have "entries_size (merged_entries dt ps) \<le> entries_size (concat ps)"
    unfolding entries_size_def by (rule sum_list_subset [OF _ m(4)])
  then show ?thesis using assms(4) by (simp add: entries_size_concat)
qed

section \<open>Reading the inputs\<close>

context read_fs
begin

lemma read_all_entries_holds:
  assumes "ok s" and "view s p = Some img" and "reader_of xxh crc p (map entry_of es) img r"
  shows "read_all_entries crc S s r = Inr es"
proof -
  have "fold (\<lambda>e out. out @ [(e_key e, internal_of (e_seq e) (e_value e))]) (map entry_of es) acc = acc @ es" for acc
    by (induction es arbitrary: acc) simp_all
  then show ?thesis by (simp add: read_all_entries_def reader_of_iter [OF assms])
qed

lemma open_inputs_holds:
  assumes s: "ok s" and "\<And>t. t \<in> set ts \<Longrightarrow> table_at xxh crc (view s) dir t (E (tm_id t))"
  shows "open_inputs crc S dir s ts n srcs = Inr (n + length (concat (levels_of E ts)), srcs @ levels_of E ts)"
  using assms(2)
proof (induction ts arbitrary: n srcs)
  case (Cons t ts)
  obtain img where v: "view s (table_path dir (tm_id t)) = Some img"
    and h: "holds_table xxh crc (map entry_of (E (tm_id t))) img"
    using Cons.prems [of t] by (auto simp: table_at_def)
  obtain r where r: "reader_open crc S (table_path dir (tm_id t)) s = Inr r"
      "reader_of xxh crc (table_path dir (tm_id t)) (map entry_of (E (tm_id t))) img r"
    by (rule reader_open_holds [OF s v h])
  have "unat (r_entries r) = length (E (tm_id t))" using reader_of_entries [OF r(2)] by simp
  then show ?case
    using Cons.IH Cons.prems r(1) read_all_entries_holds [OF s v r(2)] by (simp add: levels_of_def add.assoc)
qed (simp add: levels_of_def)

end

section \<open>One pass\<close>

text \<open>A new file for the next table leaves the tables of every kept version alone.\<close>

lemma store_inv_file:
  assumes inv: "store_inv xxh crc dir E m D" and av: "av \<in> set (m_current m # m_obsolete m)" and t: "t \<in> set (all_tables (snd av))"
  shows "settled_table xxh crc (disk_file (table_path dir (v_next_id (snd (m_current m)))) c d D) dir t (E (tm_id t))"
    and "settled_table xxh crc (disk_file (table_path dir (v_next_id (snd (m_current m)))) c d D) dir t
      ((E(v_next_id (snd (m_current m)) := es)) (tm_id t))"
proof -
  note i = store_invD [OF inv]
  have "tm_id t < v_next_id (snd (m_current m))"
    using i(3) av t by (force simp: ids_below_def live_ids_def referenced_ids_def)
  then have ne: "tm_id t \<noteq> v_next_id (snd (m_current m))" by simp
  have "settled_table xxh crc D dir t (E (tm_id t))" using av t i(7) i(8) [of av t] by auto
  from settled_table_file [OF this] ne
  show "settled_table xxh crc (disk_file (table_path dir (v_next_id (snd (m_current m)))) c d D) dir t (E (tm_id t))"
    "settled_table xxh crc (disk_file (table_path dir (v_next_id (snd (m_current m)))) c d D) dir t
      ((E(v_next_id (snd (m_current m)) := es)) (tm_id t))" by simp_all
qed

text \<open>The store stays within the limits of the formats: \<open>N\<close> bounds the bytes of all entries.\<close>

definition store_sane :: "nat \<Rightarrow> (u64 \<Rightarrow> entry list) \<Rightarrow> version \<Rightarrow> bool" where
  "store_sane N E v \<longleftrightarrow> newest_first (version_levels E v) \<and> total_size (version_levels E v) \<le> N \<and> N + 100 < 2 ^ 32"

text \<open>What a pass does to the version and to the entries of the tables.\<close>

definition rearranged :: "(u64 \<Rightarrow> entry list) \<Rightarrow> version \<Rightarrow> (u64 \<Rightarrow> entry list) \<Rightarrow> version \<Rightarrow> bool" where
  "rearranged E v E' v' \<longleftrightarrow> same_content (version_levels E v) (version_levels E' v')
     \<and> total_size (version_levels E' v') \<le> total_size (version_levels E v)
     \<and> v_next_seq v' = v_next_seq v \<and> v_next_id v \<le> v_next_id v' \<and> (\<forall>tid<v_next_id v. E' tid = E tid)"

lemma rearranged_refl [simp]: "rearranged E v E v"
  by (simp add: rearranged_def)

lemma rearranged_trans: "rearranged E v E' v' \<Longrightarrow> rearranged E' v' E'' v'' \<Longrightarrow> rearranged E v E'' v''"
  unfolding rearranged_def by (auto intro: same_content_trans less_le_trans)

lemma rearranged_sane: "store_sane N E v \<Longrightarrow> rearranged E v E' v' \<Longrightarrow> store_sane N E' v'"
  using same_contentD(1) [of "version_levels E v" "version_levels E' v'" "[]"]
  by (auto simp: store_sane_def rearranged_def)

lemma holds_table_meta_fits: "holds_table xxh crc (map entry_of es) img \<Longrightarrow> meta_of t es \<Longrightarrow> meta_fits t"
proof -
  assume h: "holds_table xxh crc (map entry_of es) img" and m: "meta_of t es"
  have key: "length (fst kv) < 2 ^ 32" if "kv \<in> set es" for kv
  proof -
    have "table_size (map entry_of es) < 2 ^ 32" using h by (auto simp: holds_table_def table_fits_def)
    moreover have "length (row (entry_of kv)) + 8 \<le> entries_size es"
      using member_le_sum_list [of "length (row (entry_of kv)) + 8" "map (\<lambda>e. length (row (entry_of e)) + 8) es"] that
      by (force simp: entries_size_def)
    moreover have "length (fst kv) \<le> length (row (entry_of kv))" by (simp add: length_row encoded_entry_len_def)
    ultimately show ?thesis by (simp add: entries_size_table)
  qed
  then show ?thesis using m by (simp add: meta_of_def meta_fits_def)
qed

lemma version_fitsI:
  assumes wf: "version_wf v" and n: "unat (v_next_id v) < 2 ^ 32" and m: "\<And>t. t \<in> set (all_tables v) \<Longrightarrow> meta_fits t"
  shows "version_fits v"
proof -
  have "length (all_tables v) = card (tm_id ` set (all_tables v))"
    using wf distinct_card [of "map tm_id (all_tables v)"] by (simp add: version_wf_def)
  also have "\<dots> = card (unat ` tm_id ` set (all_tables v))" by (rule card_image [symmetric]) (simp add: inj_on_def word_unat_eq_iff)
  also have "\<dots> \<le> card {..<unat (v_next_id v)}"
    using wf by (intro card_mono) (auto simp: version_wf_def word_less_nat_alt)
  finally have c: "length (all_tables v) < 2 ^ 32" using n by simp
  have "tier_fits ts" if "ts \<in> set (tiers v)" for ts
  proof -
    have "length ts \<le> length (all_tables v)"
      unfolding all_tables_def length_concat using that by (intro member_le_sum_list) auto
    then show ?thesis using that c m by (auto simp: tier_fits_def list_all_iff all_tables_def)
  qed
  then show ?thesis using wf n by (simp add: version_fits_def list_all_iff version_wf_def)
qed

text \<open>The merge of a tier, below newer and above older levels.\<close>

lemma output_is_bottom_below:
  assumes "t < length (tiers v)"
  shows "output_is_bottom v t \<longleftrightarrow> concat (tiers_below v t) = []"
proof -
  have "output_is_bottom v t \<longleftrightarrow> (\<forall>i\<in>{t + 1..<length (tiers v)}. tiers v ! i = [])"
    by (auto simp: output_is_bottom_def list_all_iff num_tiers_def tier_len_def)
  also have "\<dots> \<longleftrightarrow> (\<forall>i<length (tiers v) - Suc t. tiers v ! (Suc t + i) = [])"
    by (auto simp: nat_le_iff_add less_diff_conv)
  also have "\<dots> \<longleftrightarrow> (\<forall>ts\<in>set (tiers_below v t). ts = [])"
    using assms by (auto simp: tiers_below_def all_set_conv_all_nth)
  finally show ?thesis by simp
qed

lemma pass_levels:
  assumes wf: "version_wf v" "unat (v_next_id v) + 1 < 2 ^ 64" and t: "t < length (tiers v)"
    and nf: "newest_first (version_levels E v)" and sorted: "sorted_sources (version_levels E v)"
    and m: "m = merged_entries (output_is_bottom v t) (levels_of E (tiers v ! t))"
  shows "m \<noteq> [] \<Longrightarrow> rearranged E v (E(v_next_id v := m)) (compacted v t (new_meta (v_next_id v) m))"
    and "m = [] \<Longrightarrow> rearranged E v E (cleared v t)"
    and "sorted_wrt (<) (map fst m)" and "entries_size m \<le> total_size (version_levels E v)"
proof -
  let ?mid = "levels_of E (rev (tiers v ! t))" and ?out = "new_meta (v_next_id v) m"
  obtain pre post where l: "version_levels E v = pre @ ?mid @ post"
    "version_levels (E(v_next_id v := m)) (compacted v t ?out) = pre @ m # post"
    "version_levels E (cleared v t) = pre @ post" "concat (tiers_below v t) = [] \<Longrightarrow> post = []"
    using levels_compacted [OF wf(1) _ t, of ?out E m] unfolding cleared_def by (metis new_meta_id)
  have nm: "newest_first ?mid" using nf by (simp add: l(1) newest_first_append)
  have ps: "set (levels_of E (tiers v ! t)) = set ?mid" "sorted_sources (levels_of E (tiers v ! t))"
    using sorted by (auto simp: levels_of_def l(1) sorted_sources_def)
  have sz: "total_size (levels_of E (tiers v ! t)) \<le> total_size ?mid" by (simp add: levels_of_def rev_map [symmetric])
  note sp = merged_entries_spec [where dt = "output_is_bottom v t", OF nm ps, folded m]
  show "sorted_wrt (<) (map fst m)" by (rule sp)
  have le: "entries_size m \<le> total_size ?mid" unfolding m by (rule merged_size [OF nm ps sz])
  then show "entries_size m \<le> total_size (version_levels E v)" by (simp add: l(1))
  have same: "same_content (pre @ ?mid @ post) (pre @ m # post)"
  proof (cases "output_is_bottom v t")
    case False
    then show ?thesis by (intro same_content_merged sp(2))
  next
    case True
    then have "post = []" using l(4) by (simp add: output_is_bottom_below [OF t])
    then show ?thesis using same_content_bottom [of m ?mid pre] sp(3) [OF True] by simp
  qed
  show "rearranged E v (E(v_next_id v := m)) (compacted v t ?out)"
  proof -
    have "v_next_id v < v_next_id v + 1" using wf(2) by (rule unat_Suc_less)
    then show ?thesis
      using same le wf_compacted(2) [OF wf _ t, of ?out] unat_u64_Suc [OF wf(2)]
      by (simp add: rearranged_def l(1,2) del: compacted_next_id(1))
  qed
  show "rearranged E v E (cleared v t)" if "m = []"
  proof -
    have "same_content (pre @ ?mid @ post) (pre @ post)"
      using same same_content_no_level [of pre post] that by (auto intro: same_content_trans)
    then show ?thesis by (simp add: rearranged_def l(1,3)) (simp add: cleared_def)
  qed
qed

text \<open>A pass removes the tables of the tier and adds at most one.\<close>

lemma pass_table_count:
  assumes "t < length (tiers v)"
  shows "table_count (compacted v t out) + length (tiers v ! t) = table_count v + 1"
    and "table_count (cleared v t) + length (tiers v ! t) = table_count v"
  unfolding table_count_def compacted_tables [OF assms] tables_split(1) [OF assms] cleared_def cleared_tables [OF assms]
  by (auto split: list.split)

definition pass_done :: "version \<Rightarrow> nat \<Rightarrow> version \<Rightarrow> bool" where
  "pass_done v t v' \<longleftrightarrow> table_count v' + length (tiers v ! t) \<le> table_count v + 1
     \<and> unat (v_next_id v') \<le> unat (v_next_id v) + 1"

lemma set_cleared: "version_wf v \<Longrightarrow> t < length (tiers v) \<Longrightarrow> set (all_tables (cleared v t)) \<subseteq> set (all_tables v)"
  unfolding cleared_def by (rule wf_cleared)

text \<open>A power loss sees the frame only through the images.\<close>

definition framed :: "(disk \<Rightarrow> bool) \<Rightarrow> disk \<Rightarrow> bool" where
  "framed F D \<longleftrightarrow> (\<exists>D'. F D' \<and> d_images D' = d_images D)"

lemma framedI: "F D' \<Longrightarrow> d_images D = d_images D' \<Longrightarrow> framed F D"
  by (auto simp: framed_def)

lemma store_inv_crash:
  assumes "store_inv xxh crc dir E m D0" and "F D0" and im: "d_images D = d_images D0"
    and C: "\<And>E' v' D. durable_store xxh crc dir E' v' D \<Longrightarrow> rearranged E (snd (m_current m)) E' v' \<Longrightarrow> framed F D \<Longrightarrow> C D"
  shows "C D"
proof (rule C)
  show "durable_store xxh crc dir E (snd (m_current m)) D"
    using assms(1) durable_store_images [OF store_disk_durable im] by (simp add: store_inv_def)
qed (use assms(2) im in \<open>auto intro: framedI\<close>)

context crash_fs
begin

lemma reaches_compact_tier:
  assumes s: "up s" and inv: "store_inv xxh crc dir E m (disk s)" and v: "v = snd (m_current m)"
    and t: "t < length (tiers v)" and sane: "store_sane N E v" and room: "unat (v_next_id v) + 1 < 2 ^ 32"
    and F: "store_closed dir (v_next_id v) F" "F (disk s)"
    and C: "\<And>E' v' D. durable_store xxh crc dir E' v' D \<Longrightarrow> rearranged E v E' v' \<Longrightarrow> framed F D \<Longrightarrow> C D"
    and Q: "\<And>E' m' D. store_inv xxh crc dir E' m' D \<Longrightarrow> rearranged E v E' (snd (m_current m')) \<Longrightarrow>
      pass_done v t (snd (m_current m')) \<Longrightarrow> held m m' \<Longrightarrow> F D \<Longrightarrow> Q (Inr ()) m' D"
  shows "reaches up disk down (compact_tier xxh crc S v t) C Q (m, s)"
proof -
  note i = store_invD [OF inv, folded v]
  have C1: "C D" if "d_images D = d_images (disk s)" for D
    using store_inv_crash [where F = F and C = C, OF inv F(2) that] C unfolding v by blast
  let ?srcs = "levels_of E (tiers v ! t)" and ?id = "v_next_id v"
  let ?es = "merged_entries (output_is_bottom v t) ?srcs" and ?n = "length (concat ?srcs)"
  let ?p = "table_path dir ?id" and ?out = "new_meta ?id ?es"
  let ?new = "\<lambda>out. case out of Some meta \<Rightarrow> compacted v t meta | None \<Rightarrow> cleared v t"
  have tab: "table_at xxh crc (d_view (disk s)) dir x (E (tm_id x))" if "x \<in> set (all_tables v)" for x
    using i(7) [OF that] by (rule settled_table_at)
  have sub: "set (tiers v ! t) \<subseteq> set (all_tables v)" using t by (auto simp: tables_split(1))
  have inputs: "open_inputs crc S dir s (tiers v ! t) 0 [] = Inr (?n, ?srcs)"
    using open_inputs_holds [OF s, of "tiers v ! t" xxh crc dir E 0 "[]"] tab sub by auto
  have sorted: "sorted_sources (version_levels E v)"
    using tab by (auto simp: sorted_sources_def version_levels_def intro: table_at_sorted)
  have room64: "unat ?id + 1 < 2 ^ 64" using room by simp
  note pl = pass_levels [OF i(5) room64 t _ sorted refl]
  have nf: "newest_first (version_levels E v)" and N: "total_size (version_levels E v) \<le> N" "N + 100 < 2 ^ 32"
    using sane by (simp_all add: store_sane_def)
  note pl = pl [OF nf]
  have lim: "table_limits ?n ?es"
  proof (rule table_limitsI)
    show "entries_size ?es \<le> N" using pl(4) N(1) by simp
    obtain pre post where "version_levels E v = pre @ levels_of E (rev (tiers v ! t)) @ post"
      using levels_compacted [OF i(5) new_meta_id t] by metis
    then have "total_size ?srcs \<le> total_size (version_levels E v)" by (simp add: levels_of_def rev_map [symmetric])
    then show "21 * ?n \<le> N" using entries_size_length [of "concat ?srcs"] N(1) unfolding entries_size_concat by linarith
  qed (rule N)
  have step: "compact_tier xxh crc S v t (m, s) = ok_then
      ((\<lambda>(m, s). mem_call (write_table xxh crc S ?p ?id ?n ?es) (\<lambda>e. e) m Inr (\<lambda>_. m) s) (m, s))
      (\<lambda>out ms. err_map Cp_manifest (manifest_install crc S (?new out) ms))"
    by (simp add: compact_tier_def i(1) inputs mem_call_def Let_def split: prod.split sum.split option.split)
  have "reaches up disk down (\<lambda>ms. ok_then
      ((\<lambda>(m, s). mem_call (write_table xxh crc S ?p ?id ?n ?es) (\<lambda>e. e) m Inr (\<lambda>_. m) s) ms)
      (\<lambda>out ms. err_map Cp_manifest (manifest_install crc S (?new out) ms))) C Q (m, s)"
  proof (rule reaches_then [where P = "\<lambda>out m' D. m' = m \<and> (\<exists>c d. D = disk_file ?p c d (disk s)
      \<and> (?es = [] \<and> out = None \<or> ?es \<noteq> [] \<and> out = Some ?out \<and> c = d \<and> holds_table xxh crc (map entry_of ?es) d))"])
    show "reaches up disk down (\<lambda>(m, s). mem_call (write_table xxh crc S ?p ?id ?n ?es) (\<lambda>e. e) m Inr (\<lambda>_. m) s) C
      (\<lambda>r m' D. \<exists>x. r = Inr x \<and> m' = m \<and> (\<exists>c d. D = disk_file ?p c d (disk s)
      \<and> (?es = [] \<and> x = None \<or> ?es \<noteq> [] \<and> x = Some ?out \<and> c = d \<and> holds_table xxh crc (map entry_of ?es) d))) (m, s)"
    proof (rule reaches_mem_call)
      show "runs up disk down (write_table xxh crc S ?p ?id ?n ?es) C (\<lambda>r D. \<exists>x. r = Inr x \<and> (\<exists>y. Inr x = Inr y \<and> m = m \<and>
        (\<exists>c d. D = disk_file ?p c d (disk s)
      \<and> (?es = [] \<and> y = None \<or> ?es \<noteq> [] \<and> y = Some ?out \<and> c = d \<and> holds_table xxh crc (map entry_of ?es) d)))) s"
        by (rule runs_write_table [OF s _ pl(3) lim]) (use i(4) C1 in auto)
    qed simp
    show "stays down (\<lambda>ms. err_map Cp_manifest (manifest_install crc S (?new x) ms))" for x
      by (intro stays_err_map stays_install)
  next
    fix out m' s' assume s': "up s'" and "m' = m \<and> (\<exists>c d. disk s' = disk_file ?p c d (disk s)
      \<and> (?es = [] \<and> out = None \<or> ?es \<noteq> [] \<and> out = Some ?out \<and> c = d \<and> holds_table xxh crc (map entry_of ?es) d))"
    then obtain c d where m': "m' = m" and D: "disk s' = disk_file ?p c d (disk s)"
      and out: "?es = [] \<and> out = None \<or> ?es \<noteq> [] \<and> out = Some ?out \<and> c = d \<and> holds_table xxh crc (map entry_of ?es) d"
      by blast
    let ?E = "if ?es = [] then E else E(?id := ?es)"
    have old: "synced_table xxh crc (disk s') dir x (?E (tm_id x))" if "x \<in> set (all_tables v)" for x
    proof -
      have ne: "tm_id x \<noteq> ?id" using that i(5) by (auto simp: version_wf_def)
      then have "settled_table xxh crc (disk s') dir x (E (tm_id x))"
        using i(7) [OF that] unfolding D by (auto intro: settled_table_file)
      then show ?thesis using ne by (auto intro: settled_table_synced)
    qed
    have new: "synced_table xxh crc (disk s') dir ?out (?E (tm_id ?out))" if "?es \<noteq> []"
      using that out by (simp add: synced_table_def D)
    have wf: "version_wf (?new out)" and next_le: "?id \<le> v_next_id (?new out)"
      and tabs: "set (all_tables (?new out)) \<subseteq> (if ?es = [] then {} else {?out}) \<union> set (all_tables v)"
      and cnt: "pass_done v t (?new out)" and re: "rearranged E v ?E (?new out)"
      using out pl(1,2) wf_compacted [OF i(5) room64 _ t, of ?out] wf_cleared [OF i(5) t] unat_Suc_less [OF room64]
        pass_table_count [OF t] set_cleared [OF i(5) t] unat_u64_Suc [OF room64]
      by (auto simp: cleared_def pass_done_def simp del: compacted_next_id(1))
    have syn: "synced_table xxh crc (disk s') dir x (?E (tm_id x))" if x: "x \<in> set (all_tables (?new out))" for x
    proof -
      consider "x \<in> set (all_tables v)" | "?es \<noteq> []" "x = ?out" using x tabs by (cases "?es = []") auto
      then show ?thesis by cases (erule old, erule ssubst, erule new)
    qed
    have fits: "version_fits (?new out)"
    proof (rule version_fitsI [OF wf])
      show "unat (v_next_id (?new out)) < 2 ^ 32" using cnt room by (simp add: pass_done_def)
      show "meta_fits x" if "x \<in> set (all_tables (?new out))" for x
        using syn [OF that] holds_table_meta_fits unfolding synced_table_def by blast
    qed
    have below: "ids_below (v_next_id (?new out)) m"
      using i(3) next_le by (auto simp: ids_below_def)
    have older: "settled_table xxh crc (disk s') dir x (?E (tm_id x))"
      if "av \<in> set (m_current m # m_obsolete m)" and "x \<in> set (all_tables (snd av))" for av x
      using store_inv_file [OF inv, folded v, OF that] by (simp add: D)
    show "reaches up disk down (\<lambda>ms. err_map Cp_manifest (manifest_install crc S (?new out) ms)) C Q (m', s')"
      unfolding m'
    proof (rule reaches_err_map, rule reaches_install [OF s' i(1) wf fits syn below older F(1)])
      show "F (disk s')" unfolding D by (rule store_closedD(1) [OF F order_refl])
      show "C D'" if "d_images D' = d_images (disk s')" for D' using that C1 by (simp add: D)
      show "C D'" if "durable_store xxh crc dir ?E (?new out) D'" "F D'" for D' using C [OF that(1) re framedI [where F = F, OF that(2) refl]] .
      show "Q (case Inr () of Inl e \<Rightarrow> Inl (Cp_manifest e) | Inr x \<Rightarrow> Inr x) m'' D'"
        if "store_inv xxh crc dir ?E m'' D'" "snd (m_current m'') = ?new out" "held m m''" "F D'" for m'' D'
        using Q [OF that(1) _ _ that(3,4)] re cnt that(2) by simp
    qed
  qed
  then show ?thesis by (simp only: reaches_def step)
qed

lemma stays_compact_tier: "stays down (compact_tier xxh crc S v t)"
  unfolding stays_def
proof (intro allI impI)
  fix m :: manifest and s D assume d: "down s D"
  show "snd (snd (compact_tier xxh crc S v t (m, s))) = s"
  proof (cases "open_inputs crc S (m_dir m) s (tiers v ! t) 0 []")
    case (Inr x)
    obtain n srcs where x: "x = (n, srcs)" by force
    let ?w = "write_table xxh crc S (table_path (m_dir m) (v_next_id v)) (v_next_id v) n
      (merged_entries (output_is_bottom v t) srcs)"
    obtain e where "?w s = (Inl e, s)" using inert_write_table d unfolding inert_def by blast
    then show ?thesis by (simp add: compact_tier_def Inr x)
  qed (simp add: compact_tier_def)
qed

end

section \<open>Passes and the cascade\<close>

lemma full_tier_Some: "full_tier n v = Some t \<Longrightarrow> t < length (tiers v) \<and> n \<le> length (tiers v ! t)"
  by (auto simp: full_tier_def find_Some_iff num_tiers_def tier_len_def)

lemma full_tier_None: "full_tier n v = None \<longleftrightarrow> (\<forall>ts\<in>set (tiers v). length ts < n)"
  by (auto simp: full_tier_def find_None_iff num_tiers_def tier_len_def not_le all_set_conv_all_nth)

lemma unpin [simp]: "m\<lparr>m_pins := m_pins m\<rparr> = m"
  by simp

lemma maybe_compact_None:
  "full_tier n (snd (m_current m)) = None \<Longrightarrow> maybe_compact xxh crc S n (m, s) = (Inr False, (m, s))"
  by (simp add: maybe_compact_def manifest_current_def drop_version_def case_prod_unfold)

text \<open>The handle while the current version is pinned.\<close>

definition pinned :: "manifest \<Rightarrow> manifest" where
  "pinned m = snd (manifest_current m)"

lemma maybe_compact_Some:
  "full_tier n (snd (m_current m)) = Some t \<Longrightarrow> maybe_compact xxh crc S n (m, s)
    = (let (r, (m', s)) = compact_tier xxh crc S (snd (m_current m)) t (pinned m, s)
       in (case r of Inl e \<Rightarrow> Inl e | Inr _ \<Rightarrow> Inr True, (drop_version (fst (m_current m)) m', s)))"
  by (simp add: maybe_compact_def manifest_current_def pinned_def case_prod_unfold Let_def)

lemma pinned_sel [simp]: "m_current (pinned m) = m_current m" "m_dir (pinned m) = m_dir m"
    "m_pins (pinned m) = add_mset (fst (m_current m)) (m_pins m)" "live_ids (pinned m) = live_ids m" "m_obsolete (pinned m) = m_obsolete m"
  by (simp_all add: pinned_def manifest_current_def live_ids_def)

lemma drop_version_sel [simp]: "m_current (drop_version a m) = m_current m" "m_dir (drop_version a m) = m_dir m"
    "m_pins (drop_version a m) = m_pins m - {#a#}" "live_ids (drop_version a m) = live_ids m" "m_obsolete (drop_version a m) = m_obsolete m"
  by (simp_all add: drop_version_def live_ids_def)

lemma store_inv_pins [simp]: "store_inv xxh crc dir E (pinned m) D = store_inv xxh crc dir E m D"
    "store_inv xxh crc dir E (drop_version a m) D = store_inv xxh crc dir E m D"
  by (simp_all add: store_inv_def ids_below_def)

lemma held_drop: "held (pinned m) m' \<Longrightarrow> held m (drop_version (fst (m_current m)) m')"
  by (auto simp: held_def)

context crash_fs
begin

lemma reaches_maybe_compact:
  assumes s: "up s" and inv: "store_inv xxh crc dir E m (disk s)" and v: "v = snd (m_current m)"
    and sane: "store_sane N E v" and room: "unat (v_next_id v) + 1 < 2 ^ 32"
    and F: "store_closed dir (v_next_id v) F" "F (disk s)"
    and C: "\<And>E' v' D. durable_store xxh crc dir E' v' D \<Longrightarrow> rearranged E v E' v' \<Longrightarrow> framed F D \<Longrightarrow> C D"
    and Q0: "full_tier n v = None \<Longrightarrow> Q (Inr False) m (disk s)"
    and Q: "\<And>t E' m' D. full_tier n v = Some t \<Longrightarrow> store_inv xxh crc dir E' m' D \<Longrightarrow> rearranged E v E' (snd (m_current m')) \<Longrightarrow>
      pass_done v t (snd (m_current m')) \<Longrightarrow> held m m' \<Longrightarrow> F D \<Longrightarrow> Q (Inr True) m' D"
  shows "reaches up disk down (maybe_compact xxh crc S n) C Q (m, s)"
proof (cases "full_tier n v")
  case None
  then show ?thesis using s Q0 maybe_compact_None v by (intro reaches_pure) auto
next
  case (Some t)
  let ?a = "fst (m_current m)"
  have t: "t < length (tiers v)" using full_tier_Some [OF Some] by simp
  have "reaches up disk down (\<lambda>ms. let (r, (m', s)) = compact_tier xxh crc S v t ms
       in (case r of Inl e \<Rightarrow> Inl e | Inr _ \<Rightarrow> Inr True, (drop_version ?a m', s))) C Q (pinned m, s)"
  proof (rule reaches_map, rule reaches_compact_tier [OF s _ _ t sane room F C])
    show "store_inv xxh crc dir E (pinned m) (disk s)" using inv by simp
    fix E' m' D
    assume "store_inv xxh crc dir E' m' D" "rearranged E v E' (snd (m_current m'))" "pass_done v t (snd (m_current m'))"
      "held (pinned m) m'" "F D"
    then show "Q (case Inr () of Inl e \<Rightarrow> Inl e | Inr _ \<Rightarrow> Inr True) (drop_version ?a m') D"
      using Q [OF Some] held_drop by simp
  qed (use v in simp_all)
  then show ?thesis by (simp only: reaches_def maybe_compact_Some [OF Some [unfolded v]] v)
qed

lemma maybe_compact_down:
  assumes "down s D"
  obtains r m' where "maybe_compact xxh crc S n (m, s) = (r, (m', s))" and "r \<noteq> Inr True"
proof (cases "full_tier n (snd (m_current m))")
  case None
  then show thesis by (intro that [OF maybe_compact_None]) simp_all
next
  case (Some t)
  let ?v = "snd (m_current m)"
  show thesis
  proof (cases "open_inputs crc S (m_dir m) s (tiers ?v ! t) 0 []")
    case (Inl e)
    then have "compact_tier xxh crc S ?v t (pinned m, s) = (Inl e, (pinned m, s))" by (simp add: compact_tier_def)
    then show thesis by (intro that [OF maybe_compact_Some [OF Some, THEN trans]]) (simp, simp)
  next
    case (Inr x)
    obtain k srcs where x: "x = (k, srcs)" by force
    let ?w = "write_table xxh crc S (table_path (m_dir m) (v_next_id ?v)) (v_next_id ?v) k
      (merged_entries (output_is_bottom ?v t) srcs)"
    obtain e where "?w s = (Inl e, s)" using inert_write_table assms unfolding inert_def by blast
    then have "compact_tier xxh crc S ?v t (pinned m, s) = (Inl e, (pinned m, s))"
      by (simp add: compact_tier_def Inr x)
    then show thesis by (intro that [OF maybe_compact_Some [OF Some, THEN trans]]) (simp, simp)
  qed
qed

text \<open>The cascade ends, because every pass that ends in a new version removes at least one table if
  the fanout is at least two.\<close>

lemma reaches_cascade:
  assumes s: "up s" and inv: "store_inv xxh crc dir E m (disk s)" and v: "v = snd (m_current m)"
    and sane: "store_sane N E v" and room: "unat (v_next_id v) + table_count v + 1 < 2 ^ 32" and n: "2 \<le> n"
    and F: "store_closed dir (v_next_id v) F" "F (disk s)"
    and C: "\<And>E' v' D. durable_store xxh crc dir E' v' D \<Longrightarrow> rearranged E v E' v' \<Longrightarrow> framed F D \<Longrightarrow> C D"
    and Q: "\<And>E' m' D. store_inv xxh crc dir E' m' D \<Longrightarrow> rearranged E v E' (snd (m_current m')) \<Longrightarrow>
      full_tier n (snd (m_current m')) = None \<Longrightarrow> held m m' \<Longrightarrow> F D \<Longrightarrow>
      unat (v_next_id (snd (m_current m'))) + table_count (snd (m_current m')) \<le> unat (v_next_id v) + table_count v \<Longrightarrow>
      Q (Inr ()) m' D"
  shows "cascade xxh crc S n (m, s) \<noteq> None
    \<and> reaches up disk down (\<lambda>ms. the (cascade xxh crc S n ms)) C Q (m, s)"
  using assms
proof (induction "table_count v" arbitrary: s E m v rule: less_induct)
  case less
  note v = less.prems(3)
  let ?Q1 = "\<lambda>r m' D. r = Inr False \<and> m' = m \<and> D = disk s \<and> full_tier n v = None
    \<or> r = Inr True \<and> (\<exists>E'. store_inv xxh crc dir E' m' D \<and> rearranged E v E' (snd (m_current m'))
       \<and> table_count (snd (m_current m')) < table_count v
       \<and> unat (v_next_id (snd (m_current m'))) + table_count (snd (m_current m')) \<le> unat (v_next_id v) + table_count v
       \<and> held m m' \<and> F D)"
  obtain r m' s' where r: "maybe_compact xxh crc S n (m, s) = (r, (m', s'))" by (metis prod.exhaust)
  have "reaches up disk down (maybe_compact xxh crc S n) C ?Q1 (m, s)"
  proof (rule reaches_maybe_compact [OF less.prems(1,2) v less.prems(4) _ less.prems(7,8) less.prems(9)])
    fix t E' m'' D
    assume t: "full_tier n v = Some t" and x: "store_inv xxh crc dir E' m'' D" "rearranged E v E' (snd (m_current m''))"
      "pass_done v t (snd (m_current m''))" "held m m''" "F D"
    have "2 \<le> length (tiers v ! t)" using full_tier_Some [OF t] less.prems(6) by simp
    then show "?Q1 (Inr True) m'' D" using x unfolding pass_done_def by auto
  qed (use less.prems(5) in auto)
  then have cases: "up s' \<and> ?Q1 r m' (disk s') \<or> (\<exists>D. down s' D \<and> C D)" by (simp add: reaches_def r)
  have casc: "cascade xxh crc S n (m, s) = (case r of Inl e \<Rightarrow> Some (Inl e, (m', s'))
      | Inr again \<Rightarrow> if again then cascade xxh crc S n (m', s') else Some (Inr (), (m', s')))"
    by (subst cascade.simps) (simp add: r)
  from cases show ?case
  proof (elim disjE)
    assume "\<exists>D. down s' D \<and> C D"
    then obtain D where D: "down s' D" "C D" by blast
    obtain r'' m'' where r'': "maybe_compact xxh crc S n (m', s') = (r'', (m'', s'))" "r'' \<noteq> Inr True"
      by (rule maybe_compact_down [OF D(1)])
    have "\<exists>r1 m1. cascade xxh crc S n (m', s') = Some (r1, (m1, s'))"
      by (subst cascade.simps) (use r'' in \<open>auto split: sum.split\<close>)
    then have "\<exists>r1 m1. cascade xxh crc S n (m, s) = Some (r1, (m1, s'))"
      unfolding casc by (auto split: sum.split)
    then show ?thesis using D by (auto simp: reaches_def)
  next
    assume "up s' \<and> ?Q1 r m' (disk s')"
    then have up: "up s'" and q: "?Q1 r m' (disk s')" by simp_all
    from q show ?thesis
    proof (elim disjE conjE exE)
      assume x: "r = Inr False" "m' = m" "disk s' = disk s" "full_tier n v = None"
      have "Q (Inr ()) m (disk s)"
        using less.prems(2,3,8) x(4) by (intro less.prems(10) [of E]) simp_all
      then show ?thesis using x up casc unfolding reaches_def by simp
    next
      fix E' let ?v' = "snd (m_current m')"
      assume r: "r = Inr True" and x: "store_inv xxh crc dir E' m' (disk s')" "rearranged E v E' ?v'"
        "table_count ?v' < table_count v"
        "unat (v_next_id ?v') + table_count ?v' \<le> unat (v_next_id v) + table_count v" "held m m'" "F (disk s')"
      have "cascade xxh crc S n (m', s') \<noteq> None
        \<and> reaches up disk down (\<lambda>ms. the (cascade xxh crc S n ms)) C Q (m', s')"
      proof (rule less.hyps [OF x(3) up x(1) refl rearranged_sane [OF less.prems(4) x(2)] _ less.prems(6) _ x(6)])
        show "store_closed dir (v_next_id ?v') F"
          using x(2) by (intro store_closed_mono [OF less.prems(7)]) (simp add: rearranged_def)
        show "C D" if "durable_store xxh crc dir E2 v2 D" "rearranged E' ?v' E2 v2" "framed F D" for E2 v2 D
          using less.prems(9) [OF that(1) rearranged_trans [OF x(2) that(2)] that(3)] .
        show "Q (Inr ()) m2 D" if "store_inv xxh crc dir E2 m2 D" "rearranged E' ?v' E2 (snd (m_current m2))"
          "full_tier n (snd (m_current m2)) = None" "held m' m2" "F D"
          "unat (v_next_id (snd (m_current m2))) + table_count (snd (m_current m2)) \<le> unat (v_next_id ?v') + table_count ?v'"
          for E2 m2 D
          using that x(4) held_trans [OF x(5) that(4)] by (intro less.prems(10) [OF that(1) rearranged_trans [OF x(2) that(2)] that(3)]) simp_all
      qed (use x(4) less.prems(5) in simp)
      then show ?thesis unfolding casc reaches_def r by simp
    qed
  qed
qed

end

end
