(* ===== verification/Store_Flush.thy ===== *)
theory Store_Flush imports Store_Compact begin

text \<open>
  Flushing one frozen memtable: the table is written and the manifest switched to a version in which
  it is the newest. Everything \<open>flush_table\<close> does to the manifest and the backend is \<open>flush_step\<close>.
\<close>

definition flush_step ::
  "hash128 \<Rightarrow> crc \<Rightarrow> 'fs storage \<Rightarrow> path \<Rightarrow> u64 \<Rightarrow> entry list \<Rightarrow> manifest \<times> 'fs \<Rightarrow> (db_error + unit) \<times> manifest \<times> 'fs" where
  "flush_step xxh crc S dir sq es = (\<lambda>(m, s).
     let v = snd (m_current m); tid = v_next_id v;
         (r, (m', s)) = ok_then (mem_call (write_table xxh crc S (table_path dir tid) tid (length es) es)
             Db_compaction (pinned m) Inr (\<lambda>_. pinned m) s)
           (\<lambda>out ms. case out of
               Some meta \<Rightarrow> err_map Db_manifest (manifest_install crc S (flushed v meta sq) ms)
             | None \<Rightarrow> (Inr (), ms))
     in (r, (drop_version (fst (m_current m)) m', s)))"

lemma flush_table_step:
  "flush_table xxh crc S fz d =
     (let (r, (m, s)) = flush_step xxh crc S (db_dir d) (ws_next_seq (db_write d)) (snapshot (snd fz)) (db_manifest d, db_fs d)
      in (r, with_fs s (d\<lparr>db_manifest := m,
            db_mem := (case r of Inl _ \<Rightarrow> db_mem d | Inr _ \<Rightarrow> discard_frozen fz (db_mem d))\<rparr>)))"
proof -
  let ?v = "snd (m_current (db_manifest d))" and ?es = "snapshot (snd fz)"
  obtain r s where w: "write_table xxh crc S (table_path (db_dir d) (v_next_id ?v)) (v_next_id ?v) (length ?es) ?es (db_fs d) = (r, s)"
    by force
  note defs = flush_table_def flush_step_def mem_call_def pinned_def manifest_current_def with_fs_def on_manifest_def
  consider e where "r = Inl e" | "r = Inr None" | meta where "r = Inr (Some meta)"
    by (cases r; cases "projr r") auto
  then show ?thesis
  proof cases
    case (3 meta)
    let ?m = "(db_manifest d)\<lparr>m_pins := add_mset (fst (m_current (db_manifest d))) (m_pins (db_manifest d))\<rparr>"
    obtain r' m s' where i: "manifest_install crc S (flushed ?v meta (ws_next_seq (db_write d))) (?m, s) = (r', (m, s'))"
      by (metis prod.exhaust)
    show ?thesis by (cases r') (simp_all add: defs case_prod_unfold w 3 i)
  qed (simp_all add: defs case_prod_unfold w)
qed

lemma flush_install_step:
  "flush_install xxh crc S fz d =
     (let (r, (m, s)) = flush_step xxh crc S (db_dir d) (ws_next_seq (db_write d)) (snapshot (snd fz)) (db_manifest d, db_fs d)
      in (r, with_fs s (d\<lparr>db_manifest := m\<rparr>)))"
proof -
  let ?v = "snd (m_current (db_manifest d))" and ?es = "snapshot (snd fz)"
  obtain r s where w: "write_table xxh crc S (table_path (db_dir d) (v_next_id ?v)) (v_next_id ?v) (length ?es) ?es (db_fs d) = (r, s)"
    by force
  note defs = flush_install_def flush_step_def mem_call_def pinned_def manifest_current_def with_fs_def on_manifest_def
  consider e where "r = Inl e" | "r = Inr None" | meta where "r = Inr (Some meta)"
    by (cases r; cases "projr r") auto
  then show ?thesis
  proof cases
    case (3 meta)
    let ?m = "(db_manifest d)\<lparr>m_pins := add_mset (fst (m_current (db_manifest d))) (m_pins (db_manifest d))\<rparr>"
    obtain r' m s' where i: "manifest_install crc S (flushed ?v meta (ws_next_seq (db_write d))) (?m, s) = (r', (m, s'))"
      by (metis prod.exhaust)
    show ?thesis by (cases r') (simp_all add: defs case_prod_unfold w 3 i)
  qed (simp_all add: defs case_prod_unfold w)
qed

lemma flush_table_install:
  "flush_table xxh crc S fz d =
     ok_then (flush_install xxh crc S fz d) (\<lambda>_ d. (Inr (), d\<lparr>db_mem := discard_frozen fz (db_mem d)\<rparr>))"
proof -
  obtain r m s where "flush_step xxh crc S (db_dir d) (ws_next_seq (db_write d)) (snapshot (snd fz)) (db_manifest d, db_fs d) = (r, (m, s))"
    by (metis prod.exhaust)
  then show ?thesis
    unfolding flush_table_step flush_install_step by (cases r) (simp_all add: with_fs_def)
qed

context crash_fs
begin

lemma reaches_flush_step:
  assumes s: "up s" and inv: "store_inv xxh crc dir E m (disk s)" and v: "v = snd (m_current m)"
    and es: "sorted_wrt (<) (map fst es)" "es \<noteq> []" "entries_size es + 100 < 2 ^ 32" and room: "unat (v_next_id v) + 1 < 2 ^ 32"
    and F: "store_closed dir (v_next_id v) F" "F (disk s)"
    and C: "\<And>D. d_images D = d_images (disk s) \<Longrightarrow> C D"
      "\<And>v' D. v' = flushed v (new_meta (v_next_id v) es) sq \<Longrightarrow> durable_store xxh crc dir (E(v_next_id v := es)) v' D \<Longrightarrow>
         F D \<Longrightarrow> C D"
    and Q: "\<And>m' D. store_inv xxh crc dir (E(v_next_id v := es)) m' D \<Longrightarrow>
      snd (m_current m') = flushed v (new_meta (v_next_id v) es) sq \<Longrightarrow> held m m' \<Longrightarrow> F D \<Longrightarrow> Q (Inr ()) m' D"
  shows "reaches up disk down (flush_step xxh crc S dir sq es) C Q (m, s)"
proof -
  note i = store_invD [OF inv, folded v]
  let ?id = "v_next_id v" let ?p = "table_path dir ?id" and ?meta = "new_meta ?id es" and ?E = "E(?id := es)"
  let ?v = "flushed v ?meta sq" and ?w = "write_table xxh crc S ?p ?id (length es) es" and ?a = "fst (m_current m)"
  have room64: "unat ?id + 1 < 2 ^ 64" using room by simp
  note wf = wf_flushed [OF i(5) room64, of ?meta sq, simplified]
  have lim: "table_limits (length es) es"
    using es(3) by (intro table_limitsI [OF order_refl entries_size_length])
  have "reaches up disk down (\<lambda>ms. ok_then ((\<lambda>(m0, s). mem_call ?w Db_compaction (pinned m) Inr (\<lambda>_. pinned m) s) ms)
      (\<lambda>out ms. case out of Some meta \<Rightarrow> err_map Db_manifest (manifest_install crc S (flushed v meta sq) ms)
        | None \<Rightarrow> (Inr (), ms))) C (\<lambda>r m' D. Q r (drop_version ?a m') D) (m, s)"
  proof (rule reaches_then [where P = "\<lambda>out m' D. out = Some ?meta \<and> m' = pinned m \<and> (\<exists>img. D = disk_file ?p img img (disk s)
      \<and> holds_table xxh crc (map entry_of es) img)"])
    show "reaches up disk down (\<lambda>(m0, s). mem_call ?w Db_compaction (pinned m) Inr (\<lambda>_. pinned m) s) C
      (\<lambda>r m' D. \<exists>x. r = Inr x \<and> x = Some ?meta \<and> m' = pinned m \<and> (\<exists>img. D = disk_file ?p img img (disk s)
        \<and> holds_table xxh crc (map entry_of es) img)) (m, s)"
    proof (rule reaches_mem_call)
      show "runs up disk down ?w C (\<lambda>r D. \<exists>x. r = Inr x \<and> (\<exists>y. Inr x = Inr y \<and> y = Some ?meta \<and> pinned m = pinned m \<and>
        (\<exists>img. D = disk_file ?p img img (disk s) \<and> holds_table xxh crc (map entry_of es) img))) s"
        by (rule runs_write_table [OF s _ es(1) lim]) (use i(4) C(1) es(2) in auto)
    qed simp
    have "stays down (\<lambda>ms. err_map Db_manifest (manifest_install crc S (flushed v meta sq) ms))" for meta
      by (intro stays_err_map stays_install)
    then show "stays down (\<lambda>ms. case out of Some meta \<Rightarrow> err_map Db_manifest (manifest_install crc S (flushed v meta sq) ms)
        | None \<Rightarrow> (Inr (), ms))" for out
      by (cases out) (simp_all add: stays_def)
    fix out m' s' assume s': "up s'" and "out = Some ?meta \<and> m' = pinned m \<and> (\<exists>img. disk s' = disk_file ?p img img (disk s)
      \<and> holds_table xxh crc (map entry_of es) img)"
    then obtain img where out: "out = Some ?meta" "m' = pinned m" and D: "disk s' = disk_file ?p img img (disk s)"
      and img: "holds_table xxh crc (map entry_of es) img" by blast
    have syn: "synced_table xxh crc (disk s') dir x (?E (tm_id x))" if x: "x \<in> set (all_tables ?v)" for x
    proof -
      consider "x = ?meta" | "x \<in> set (all_tables v)" using x by auto
      then show ?thesis
      proof cases
        case 1
        then show ?thesis using img es(2) by (simp add: synced_table_def D)
      next
        case 2
        then have "tm_id x \<noteq> ?id" using i(5) by (auto simp: version_wf_def)
        then show ?thesis
          using settled_table_synced [OF settled_table_file [OF i(7) [OF 2]]] by (auto simp: D)
      qed
    qed
    have fits: "version_fits ?v"
    proof (rule version_fitsI [OF wf(1)])
      show "unat (v_next_id ?v) < 2 ^ 32" using wf(2) unat_u64_Suc [OF room64] room by simp
      show "meta_fits x" if "x \<in> set (all_tables ?v)" for x
        using syn [OF that] holds_table_meta_fits unfolding synced_table_def by blast
    qed
    have below: "ids_below (v_next_id ?v) (pinned m)"
      using i(3) unat_Suc_less [OF room64] wf(2) by (auto simp: ids_below_def)
    have older: "settled_table xxh crc (disk s') dir x (?E (tm_id x))"
      if "av \<in> set (m_current (pinned m) # m_obsolete (pinned m))" and "x \<in> set (all_tables (snd av))" for av x
      using store_inv_file [OF inv, folded v, OF that(1) [unfolded pinned_sel] that(2)] by (simp add: D)
    have "reaches up disk down (\<lambda>ms. err_map Db_manifest (manifest_install crc S ?v ms)) C
        (\<lambda>r m' D. Q r (drop_version ?a m') D) (pinned m, s')"
    proof (rule reaches_err_map, rule reaches_install [OF s' _ wf(1) fits syn below older F(1)])
      show "F (disk s')" unfolding D by (rule store_closedD(1) [OF F order_refl])
      show "C D'" if "d_images D' = d_images (disk s')" for D' using that C(1) by (simp add: D)
      show "C D'" if "durable_store xxh crc dir ?E ?v D'" "F D'" for D' using C(2) [OF refl that] .
      show "Q (case Inr () of Inl e \<Rightarrow> Inl (Db_manifest e) | Inr x \<Rightarrow> Inr x) (drop_version ?a m'') D'"
        if "store_inv xxh crc dir ?E m'' D'" "snd (m_current m'') = ?v" "held (pinned m) m''" "F D'" for m'' D'
        using that(1,2,4) Q [of "drop_version ?a m''" D'] held_drop [OF that(3)] by simp
    qed (simp add: i(1))
    then show "reaches up disk down (\<lambda>ms. case out of
        Some meta \<Rightarrow> err_map Db_manifest (manifest_install crc S (flushed v meta sq) ms) | None \<Rightarrow> (Inr (), ms)) C
        (\<lambda>r m' D. Q r (drop_version ?a m') D) (m', s')"
      by (simp add: out)
  qed
  then have "reaches up disk down (\<lambda>ms. let (r, (m', s)) = ok_then ((\<lambda>(m0, s). mem_call ?w Db_compaction (pinned m) Inr (\<lambda>_. pinned m) s) ms)
      (\<lambda>out ms. case out of Some meta \<Rightarrow> err_map Db_manifest (manifest_install crc S (flushed v meta sq) ms)
        | None \<Rightarrow> (Inr (), ms)) in (r, (drop_version ?a m', s))) C Q (m, s)"
    by (rule reaches_map)
  then show ?thesis unfolding v by (simp add: reaches_def flush_step_def Let_def)
qed

text \<open>A table file that is already there, whatever its content, makes the flush fail, and nothing
  changes: a later flush fails in the same way.\<close>

lemma flush_step_blocked:
  assumes "up s" and "d_view (disk s) (table_path dir (v_next_id (snd (m_current m)))) = Some c"
  shows "flush_step xxh crc S dir sq es (m, s) =
    (Inl (Db_compaction (Cp_sstable (Storage_failed (AlreadyExists (table_path dir (v_next_id (snd (m_current m)))))))), (m, s))"
proof -
  have "drop_version (fst (m_current m)) (pinned m) = m"
    by (simp add: drop_version_def pinned_def manifest_current_def)
  then show ?thesis
    using cf_create_exists [OF assms] by (simp add: flush_step_def write_table_def builder_new_eq mem_call_def Let_def)
qed

end

end
