(* ===== verification/Db_Log.thy ===== *)
theory Db_Log imports Store_Compact begin

text \<open>
  The engine's log records: their codec, what replaying them rebuilds, and the memtable as the sum of
  the records since the last flush.
\<close>

section \<open>The codec\<close>

definition rec_bytes :: "entry \<Rightarrow> bytes" where
  "rec_bytes kv = encode_record (seq (snd kv)) (fst kv) (kind (snd kv))"

text \<open>Records whose lengths fit the length fields of the record and of its frame.\<close>

definition kv_fits :: "entry \<Rightarrow> bool" where
  "kv_fits kv \<longleftrightarrow> 17 + length (fst kv) + payload_bytes (snd kv) < 2 ^ 32"

lemma length_rec_bytes: "length (rec_bytes kv) \<le> 17 + length (fst kv) + payload_bytes (snd kv)"
  by (auto simp: rec_bytes_def encode_record_def payload_bytes_def split: value_kind.split)

lemma lr_take_at: "n = length x \<Longrightarrow> lr_take n (cur_at p (x @ r)) = (Inr x, cur_at (p @ x) r)"
  by (simp add: lr_take_def cur_at_def)

lemma lr_field_at:
  "length x < 2 ^ 32 \<Longrightarrow> lr_field (cur_at p (u32_le (of_nat (length x)) @ x @ r))
    = (Inr x, cur_at (p @ u32_le (of_nat (length x)) @ x) r)"
  by (simp add: lr_field_def lr_take_at)

lemma decode_encode_record:
  assumes "length key < 2 ^ 32" and "\<And>v. vk = Value v \<Longrightarrow> length v < 2 ^ 32"
  shows "decode_record (encode_record sq key vk) = Inr \<lparr>rec_seq = sq, rec_key = key, rec_value = \<lparr>seq = sq, kind = vk\<rparr>\<rparr>"
proof (cases vk)
  case (Value v)
  then show ?thesis
    using assms lr_field_at [of v "u64_le sq @ REC_TAG_PUT # u32_le (of_nat (length key)) @ key" "[]"]
      lr_take_at [of 1 "[REC_TAG_PUT]"]
    by (simp add: decode_record_def encode_record_def cur_new_at decode_fields_def lr_take_at lr_field_at REC_TAG_PUT_def)
next
  case Tombstone
  then show ?thesis
    using assms lr_field_at [of key "u64_le sq @ [REC_TAG_DELETE]" "[]"]
      lr_take_at [of 1 "[REC_TAG_DELETE]"]
    by (simp add: decode_record_def encode_record_def cur_new_at decode_fields_def lr_take_at
        REC_TAG_PUT_def REC_TAG_DELETE_def)
qed

lemma decode_rec_bytes:
  assumes "kv_fits kv"
  shows "decode_record (rec_bytes kv) = Inr \<lparr>rec_seq = seq (snd kv), rec_key = fst kv, rec_value = snd kv\<rparr>"
proof -
  have "length (fst kv) < 2 ^ 32" "\<And>v. kind (snd kv) = Value v \<Longrightarrow> length v < 2 ^ 32"
    using assms by (auto simp: kv_fits_def payload_bytes_def)
  from decode_encode_record [OF this] show ?thesis by (simp add: rec_bytes_def)
qed

lemma records_ok_rec_bytes: "list_all kv_fits ws \<Longrightarrow> records_ok (map rec_bytes ws)"
  unfolding records_ok_def list_all_iff kv_fits_def set_map ball_simps using length_rec_bytes le_less_trans by blast

section \<open>The memtable as a sum of records\<close>

definition mem_of :: "entry list \<Rightarrow> entry list" where
  "mem_of ws = mmap (apply_writes ws memtable_new)"

definition next_after :: "entry list \<Rightarrow> u64 \<Rightarrow> u64" where
  "next_after ws sq = fold (\<lambda>kv sq. max sq (seq (snd kv) + 1)) ws sq"

lemma replay_records:
  "list_all kv_fits ws \<Longrightarrow> replay (map rec_bytes ws) sq mem
     = Inr (next_after ws sq, mem\<lparr>active_table := apply_writes ws (active_table mem)\<rparr>)"
  by (induction ws arbitrary: sq mem) (auto simp: decode_rec_bytes set_insert_if_newer_def next_after_def)

lemma mem_of_Nil [simp]: "mem_of [] = []"
  by (simp add: mem_of_def memtable_new_def)

lemma mem_of_ok: "bt_ok (mem_of ws)" "sorted_wrt (<) (map fst (mem_of ws))"
  using mt_inv_apply_writes [OF mt_inv_new, of ws] by (simp_all add: mem_of_def mt_inv_def bt_ok_def)

lemma apply_writes_snoc: "apply_writes (ws @ [(k, v)]) t = mt_insert_if_newer k v (apply_writes ws t)"
  by (simp add: apply_writes_def)

lemma map_of_mem_of: "map_of (mem_of ws) k = mt_get (apply_writes ws memtable_new) k"
  by (simp add: mem_of_def mt_get_def bt_get_def)

lemma set_bt_insert_subset: "set (bt_insert k v m) \<subseteq> insert (k, v) (set m)"
  by (induction k v m rule: bt_insert.induct) auto

lemma mem_of_subset: "set (mmap (apply_writes ws t)) \<subseteq> set (mmap t) \<union> set ws"
proof (induction ws arbitrary: t)
  case (Cons w ws)
  obtain k v where w: "w = (k, v)" by force
  have "set (mmap (mt_insert_if_newer k v t)) \<subseteq> insert (k, v) (set (mmap t))"
    using set_bt_insert_subset [of k v "mmap t"] by (auto simp: mt_insert_if_newer_def Let_def split: option.split)
  then show ?case using Cons.IH [of "mt_insert_if_newer k v t"] by (auto simp: w)
qed simp

lemma set_mem_of: "set (mem_of ws) \<subseteq> set ws"
  using mem_of_subset [of ws memtable_new] by (simp add: mem_of_def memtable_new_def)

lemma mem_of_size: "entries_size (mem_of ws) \<le> entries_size ws"
  unfolding entries_size_def
  by (rule sum_list_subset [OF _ set_mem_of]) (use mem_of_ok(2) [of ws] in \<open>simp add: strict_sorted_iff distinct_map\<close>)

lemma map_of_mem_of_newer:
  assumes "\<And>w. map_of (mem_of ws) k = Some w \<Longrightarrow> seq w < seq v"
  shows "map_of (mem_of (ws @ [(k, v)])) k' = (if k' = k then Some v else map_of (mem_of ws) k')"
  using assms unfolding map_of_mem_of apply_writes_snoc by (auto split: option.split dest: leD)

lemma approx_bytes_mem_of: "active_bytes m = 0 \<longleftrightarrow> ws = []"
  if "active_table m = apply_writes ws memtable_new"
proof -
  have "active_bytes m = 0 \<longleftrightarrow> mem_of ws = []"
    using that mt_bytes_zero [OF mt_inv_apply_writes [OF mt_inv_new, of ws]] by (simp add: active_bytes_def mem_of_def)
  moreover have "mem_of ws \<noteq> []" if "ws \<noteq> []"
  proof -
    obtain us k v where "ws = us @ [(k, v)]" using \<open>ws \<noteq> []\<close> by (metis rev_exhaust surj_pair)
    then have "map_of (mem_of ws) k \<noteq> None"
      unfolding map_of_mem_of by (simp add: apply_writes_snoc split: option.split)
    then show ?thesis by auto
  qed
  ultimately show ?thesis by auto
qed

section \<open>The size of the log\<close>

lemma length_encode_rec_bytes: "length (encode crc (rec_bytes kv)) \<le> 2 * entries_size [kv]"
  using length_rec_bytes [of kv]
  by (cases "kind (snd kv)") (simp_all add: length_row encoded_entry_len_def payload_bytes_def value_ref_def)

lemma length_log_frames: "length (frames crc (map rec_bytes ws)) \<le> 2 * entries_size ws"
proof (induction ws)
  case (Cons kv ws)
  then show ?case using length_encode_rec_bytes [of crc kv] by simp
qed simp

end
