(* ===== verification/Db_Read.thy ===== *)
theory Db_Read imports Db_Log begin

text \<open>
  Reading: the levels of the engine are the memtables, newest first, then the tables, newest first.
  A point read returns what is visible in them; a scan returns the visible entries of its range in
  key order, each once. The cache of open readers stays valid for as long as a table's file does.
\<close>

section \<open>Levels\<close>

definition mem_levels :: "memtable_set \<Rightarrow> entry list list" where
  "mem_levels m = mmap (active_table m) # map (\<lambda>t. mmap (snd t)) (rev (frozen_tables m))"

lemma get_in_levels: "get_in ts k = first_hit (map (\<lambda>t. mmap (snd t)) ts) k"
  by (induction ts) (auto simp: mt_get_def bt_get_def split: option.split)

lemma set_get_levels: "set_get m k = first_hit (mem_levels m) k"
  by (simp add: set_get_def mem_levels_def get_in_levels mt_get_def bt_get_def split: option.split)

definition restrict :: "key_range \<Rightarrow> entry list \<Rightarrow> entry list" where
  "restrict rg l = filter (\<lambda>(k, _). in_range rg k) l"

lemma map_of_restrict: "map_of (restrict rg l) k = (if in_range rg k then map_of l k else None)"
  by (induction l) (auto simp: restrict_def)

lemma first_hit_restrict: "first_hit (map (restrict rg) L) k = (if in_range rg k then first_hit L k else None)"
  by (induction L) (auto simp: map_of_restrict split: option.split)

lemma holds_version_restrict: "holds_version (map (restrict rg) L) k v \<longleftrightarrow> in_range rg k \<and> holds_version L k v"
  by (induction L) (auto simp: map_of_restrict)

lemma newest_first_restrict: "newest_first L \<Longrightarrow> newest_first (map (restrict rg) L)"
  by (induction L) (auto simp: map_of_restrict holds_version_restrict split: if_splits)

lemma restrict_sorted: "sorted_wrt (<) (map fst l) \<Longrightarrow> sorted_wrt (<) (map fst (restrict rg l))"
  by (simp add: restrict_def sorted_wrt_map sorted_wrt_filter)

section \<open>The cache of readers\<close>

text \<open>Every cached reader is one of the table that its file holds, if the file is still there.\<close>

definition readers_ok ::
  "hash128 \<Rightarrow> crc \<Rightarrow> path \<Rightarrow> u64 \<Rightarrow> (u64 \<Rightarrow> sst_reader option) \<Rightarrow> (path \<Rightarrow> bytes option) \<Rightarrow> bool" where
  "readers_ok xxh crc dir n rs vw \<longleftrightarrow> (\<forall>tid r. rs tid = Some r \<longrightarrow> tid < n \<and>
     (\<forall>img. vw (table_path dir tid) = Some img \<longrightarrow> (\<exists>es. reader_of xxh crc (table_path dir tid) es img r)))"

lemma readers_ok_empty [simp]: "readers_ok xxh crc dir n (\<lambda>_. None) vw"
  by (simp add: readers_ok_def)

lemma readers_ok_mono: "readers_ok xxh crc dir n rs vw \<Longrightarrow> n \<le> n' \<Longrightarrow> readers_ok xxh crc dir n' rs vw"
  unfolding readers_ok_def by (meson less_le_trans)

text \<open>The levels of a list of tables, as the process sees them.\<close>

definition tables_at ::
  "hash128 \<Rightarrow> crc \<Rightarrow> (path \<Rightarrow> bytes option) \<Rightarrow> path \<Rightarrow> u64 \<Rightarrow> (u64 \<Rightarrow> entry list) \<Rightarrow> table_meta list \<Rightarrow> bool" where
  "tables_at xxh crc vw dir n E ts \<longleftrightarrow> (\<forall>t\<in>set ts. table_at xxh crc vw dir t (E (tm_id t)) \<and> tm_id t < n)"

lemma tables_at_Cons [simp]: "tables_at xxh crc vw dir n E (t # ts) \<longleftrightarrow>
    table_at xxh crc vw dir t (E (tm_id t)) \<and> tm_id t < n \<and> tables_at xxh crc vw dir n E ts"
  by (auto simp: tables_at_def)

lemma tables_at_sorted: "tables_at xxh crc vw dir n E ts \<Longrightarrow> sorted_sources (levels_of E ts)"
  by (auto simp: tables_at_def sorted_sources_def levels_of_def intro: table_at_sorted)

context read_fs
begin

lemma reader_of_image:
  assumes s: "ok s" "view s p = Some img" and r: "reader_of xxh crc p es img r" and h: "holds_table xxh crc es' img"
  shows "reader_of xxh crc p es' img r"
proof -
  obtain bl bss where t: "r = table_reader crc p bl bss" "img = table_image crc bl bss" "table_ok bl bss"
    using r unfolding reader_of_def by blast
  have "reader_open crc S p s = Inr r"
    using reader_open_table [OF s(1)] s(2) t by simp
  moreover obtain r' where "reader_open crc S p s = Inr r'" "reader_of xxh crc p es' img r'"
    by (rule reader_open_holds [OF s h])
  ultimately show ?thesis by simp
qed

lemma reader_for_ok:
  assumes s: "ok (db_fs d)" and dir: "db_dir d = dir" and rs: "readers_ok xxh crc dir n (db_readers d) (view (db_fs d))"
    and t: "table_at xxh crc (view (db_fs d)) dir t es" "tm_id t < n"
  obtains rs' r img where "reader_for crc S t d = (Inr r, d\<lparr>db_readers := rs'\<rparr>)"
    and "readers_ok xxh crc dir n rs' (view (db_fs d))"
    and "view (db_fs d) (table_path dir (tm_id t)) = Some img"
    and "reader_of xxh crc (table_path dir (tm_id t)) (map entry_of es) img r"
proof -
  let ?p = "table_path dir (tm_id t)"
  obtain img where v: "view (db_fs d) ?p = Some img" and h: "holds_table xxh crc (map entry_of es) img"
    using t(1) by (auto simp: table_at_def)
  show thesis
  proof (cases "db_readers d (tm_id t)")
    case (Some r)
    then obtain es0 where "reader_of xxh crc ?p es0 img r" using rs v unfolding readers_ok_def by blast
    from reader_of_image [OF s v this h] show thesis
      using Some rs v by (intro that [of r "db_readers d"]) (simp_all add: reader_for_def)
  next
    case None
    obtain r where r: "reader_open crc S ?p (db_fs d) = Inr r" "reader_of xxh crc ?p (map entry_of es) img r"
      by (rule reader_open_holds [OF s v h])
    have "readers_ok xxh crc dir n ((db_readers d)(tm_id t \<mapsto> r)) (view (db_fs d))"
      using rs r(2) t(2) v by (auto simp: readers_ok_def)
    then show thesis using None r v by (intro that [of r "(db_readers d)(tm_id t \<mapsto> r)"]) (simp_all add: reader_for_def dir)
  qed
qed

lemma get_tables_ok:
  assumes "ok (db_fs d)" and "db_dir d = dir" and "readers_ok xxh crc dir n (db_readers d) (view (db_fs d))"
    and "tables_at xxh crc (view (db_fs d)) dir n E ts"
  shows "\<exists>rs'. get_tables xxh crc S key ts d = (Inr (visible (levels_of E ts) key), d\<lparr>db_readers := rs'\<rparr>)
    \<and> readers_ok xxh crc dir n rs' (view (db_fs d))"
  using assms
proof (induction ts arbitrary: d)
  case Nil
  then show ?case by (intro exI [of _ "db_readers d"]) (simp add: levels_of_def visible_def)
next
  case (Cons t ts)
  have t: "table_at xxh crc (view (db_fs d)) dir t (E (tm_id t))" "tm_id t < n"
    and ts: "tables_at xxh crc (view (db_fs d)) dir n E ts"
    using Cons.prems(4) by simp_all
  show ?case
  proof (cases "key_in_range t key")
    case False
    then have "map_of (E (tm_id t)) key = None" using key_in_range_covers [OF t(1)] by (cases "map_of (E (tm_id t)) key") auto
    then show ?thesis using False Cons.IH [OF Cons.prems(1-3) ts] by (simp add: levels_of_def visible_def)
  next
    case True
    obtain rs' r img where r: "reader_for crc S t d = (Inr r, d\<lparr>db_readers := rs'\<rparr>)"
      "readers_ok xxh crc dir n rs' (view (db_fs d))" "view (db_fs d) (table_path dir (tm_id t)) = Some img"
      "reader_of xxh crc (table_path dir (tm_id t)) (map entry_of (E (tm_id t))) img r"
      by (rule reader_for_ok [OF Cons.prems(1-3) t])
    note g = reader_of_get [OF Cons.prems(1) r(3,4), of key, unfolded find_entry_of]
    have ih: "\<exists>rs''. get_tables xxh crc S key ts (d\<lparr>db_readers := rs'\<rparr>) = (Inr (visible (levels_of E ts) key),
        (d\<lparr>db_readers := rs'\<rparr>)\<lparr>db_readers := rs''\<rparr>) \<and> readers_ok xxh crc dir n rs'' (view (db_fs d))"
      using Cons.IH [of "d\<lparr>db_readers := rs'\<rparr>"] Cons.prems r(2) ts by simp
    show ?thesis
    proof (cases "map_of (E (tm_id t)) key")
      case None
      then show ?thesis using True r(1) g ih by (simp add: levels_of_def visible_def)
    next
      case (Some v)
      have "(case value_ref v of Put b \<Rightarrow> Some b | Delete \<Rightarrow> None) = as_value v"
        by (simp add: value_ref_def as_value_def split: value_kind.split)
      then show ?thesis using True r(1,2) g Some
        by (intro exI [of _ rs']) (simp add: levels_of_def visible_def)
    qed
  qed
qed

lemma scan_tables_ok:
  assumes "ok (db_fs d)" and "db_dir d = dir" and "readers_ok xxh crc dir n (db_readers d) (view (db_fs d))"
    and "tables_at xxh crc (view (db_fs d)) dir n E ts"
  shows "\<exists>rs'. scan_tables crc S rg ts srcs d = (Inr (srcs @ map (restrict rg) (levels_of E ts)), d\<lparr>db_readers := rs'\<rparr>)
    \<and> readers_ok xxh crc dir n rs' (view (db_fs d))"
  using assms
proof (induction ts arbitrary: d srcs)
  case Nil
  then show ?case by (intro exI [of _ "db_readers d"]) (simp add: levels_of_def)
next
  case (Cons t ts)
  have t: "table_at xxh crc (view (db_fs d)) dir t (E (tm_id t))" "tm_id t < n"
    and ts: "tables_at xxh crc (view (db_fs d)) dir n E ts"
    using Cons.prems(4) by simp_all
  obtain rs' r img where r: "reader_for crc S t d = (Inr r, d\<lparr>db_readers := rs'\<rparr>)"
    "readers_ok xxh crc dir n rs' (view (db_fs d))" "view (db_fs d) (table_path dir (tm_id t)) = Some img"
    "reader_of xxh crc (table_path dir (tm_id t)) (map entry_of (E (tm_id t))) img r"
    by (rule reader_for_ok [OF Cons.prems(1-3) t])
  have range: "range_contains rg k = in_range rg k" for k
    by (simp add: range_contains_def in_range_def Let_def)
  have f: "fold (\<lambda>e out. if range_contains rg (e_key e)
        then out @ [(e_key e, internal_of (e_seq e) (e_value e))] else out) (map entry_of es) acc = acc @ restrict rg es" for es acc
    unfolding range by (induction es arbitrary: acc) (auto simp: restrict_def)
  have it: "for_entries crc S (db_fs d) (\<lambda>e out. if range_contains rg (e_key e)
        then out @ [(e_key e, internal_of (e_seq e) (e_value e))] else out) [] (reader_iter r) = Inr (restrict rg (E (tm_id t)))"
    unfolding reader_of_iter [OF Cons.prems(1) r(3,4)] f by simp
  show ?case
    using Cons.IH [of "d\<lparr>db_readers := rs'\<rparr>" "srcs @ [restrict rg (E (tm_id t))]"] Cons.prems r(1,2) ts it
    by (simp add: levels_of_def)
qed

text \<open>A point read of a running or recovered engine.\<close>

lemma db_get_ok:
  assumes s: "ok (db_fs d)" and dir: "db_dir d = dir" and v: "v = snd (m_current (db_manifest d))"
    and rs: "readers_ok xxh crc dir n (db_readers d) (view (db_fs d))"
    and ts: "tables_at xxh crc (view (db_fs d)) dir n E (tables_newest_first v)"
  shows "\<exists>rs'. db_get xxh crc S key d = (Inr (visible (mem_levels (db_mem d) @ version_levels E v) key), d\<lparr>db_readers := rs'\<rparr>)
    \<and> readers_ok xxh crc dir n rs' (view (db_fs d))"
proof (cases "set_get (db_mem d) key")
  case (Some x)
  then show ?thesis using rs
    by (intro exI [of _ "db_readers d"])
       (simp add: db_get_def visible_def first_hit_append set_get_levels [symmetric] as_value_def split: value_kind.split)
next
  case None
  let ?d = "d\<lparr>db_manifest := pinned (db_manifest d)\<rparr>"
  obtain rs' where g: "get_tables xxh crc S key (tables_newest_first v) ?d
      = (Inr (visible (levels_of E (tables_newest_first v)) key), ?d\<lparr>db_readers := rs'\<rparr>)"
    "readers_ok xxh crc dir n rs' (view (db_fs d))"
    using get_tables_ok [of ?d dir xxh crc n E "tables_newest_first v" key] assms by auto
  have "drop_version (fst (m_current (db_manifest d))) (pinned (db_manifest d)) = db_manifest d"
    by (simp add: drop_version_def pinned_def manifest_current_def)
  then have "db_get xxh crc S key d = (Inr (visible (levels_of E (tables_newest_first v)) key), d\<lparr>db_readers := rs'\<rparr>)"
    using None g(1) by (simp add: db_get_def pinned_def manifest_current_def v case_prod_unfold Let_def)
  then show ?thesis using None g(2)
    by (intro exI [of _ rs']) (simp add: visible_def first_hit_append set_get_levels [symmetric] version_levels_def levels_of_def)
qed

text \<open>A scan: the iterator it returns yields the visible entries of the range.\<close>

lemma range_all_ok: "\<forall>t\<in>set ts. mmap t = [] \<or> \<not> bad_range rg \<Longrightarrow> range_all rg ts = Some (map (\<lambda>t. restrict rg (mmap t)) ts)"
  by (induction ts) (auto simp: range_snapshot_def restrict_def)

lemma db_scan_ok:
  assumes s: "ok (db_fs d)" and dir: "db_dir d = dir" and v: "v = snd (m_current (db_manifest d))"
    and rs: "readers_ok xxh crc dir n (db_readers d) (view (db_fs d))"
    and ts: "tables_at xxh crc (view (db_fs d)) dir n E (all_tables v)"
    and rg: "\<not> bad_range rg" and nf: "newest_first (mem_levels (db_mem d) @ version_levels E v)"
    and mem: "sorted_sources (mem_levels (db_mem d))"
  shows "\<exists>it rs'. db_scan crc S rg d = Some (Inr it, d\<lparr>db_readers := rs'\<rparr>)
    \<and> readers_ok xxh crc dir n rs' (view (db_fs d)) \<and> sorted_wrt (<) (map fst (live_all it))
    \<and> (\<forall>k b. (k, b) \<in> set (live_all it) \<longleftrightarrow> in_range rg k \<and> visible (mem_levels (db_mem d) @ version_levels E v) k = Some b)"
proof -
  let ?L = "mem_levels (db_mem d) @ version_levels E v"
  let ?d = "d\<lparr>db_manifest := pinned (db_manifest d)\<rparr>"
  let ?srcs = "map (\<lambda>t. restrict rg (mmap t)) (active_table (db_mem d) # map snd (frozen_tables (db_mem d)))"
  let ?ss = "?srcs @ map (restrict rg) (levels_of E (all_tables v))"
  have sc: "scan_iters rg (db_mem d) = Some ?srcs"
    unfolding scan_iters_def using rg by (intro range_all_ok) simp
  obtain rs' where g: "scan_tables crc S rg (all_tables v) ?srcs ?d = (Inr ?ss, ?d\<lparr>db_readers := rs'\<rparr>)"
    "readers_ok xxh crc dir n rs' (view (db_fs d))"
    using scan_tables_ok [of ?d dir xxh crc n E "all_tables v" rg ?srcs] assms by auto
  have "drop_version (fst (m_current (db_manifest d))) (pinned (db_manifest d)) = db_manifest d"
    by (simp add: drop_version_def pinned_def manifest_current_def)
  then have r: "db_scan crc S rg d = Some (Inr (merge_new ?ss), d\<lparr>db_readers := rs'\<rparr>)"
    using g(1) sc by (simp add: db_scan_def pinned_def manifest_current_def v case_prod_unfold Let_def)
  have set: "set ?ss = set (map (restrict rg) ?L)"
    by (auto simp: mem_levels_def version_levels_def levels_of_def)
  have "sorted_sources ?L"
    using mem tables_at_sorted [OF ts] by (auto simp: sorted_sources_def version_levels_def levels_of_def)
  then have sorted: "sorted_sources ?ss"
    unfolding sorted_sources_def set by (auto intro: restrict_sorted)
  have w: "wins ?ss k x \<longleftrightarrow> first_hit (map (restrict rg) ?L) k = Some x" for k x
    by (rule wins_first_hit [OF newest_first_restrict [OF nf] set])
  have "(k, b) \<in> set (live_all (merge_new ?ss)) \<longleftrightarrow> in_range rg k \<and> visible ?L k = Some b" for k b
    using live_all_visible [OF sorted, of k b] unfolding w first_hit_restrict visible_def bind_eq_Some_conv
    by (auto split: if_splits)
  then show ?thesis using r g(2) live_all_visible [OF sorted] by blast
qed

end

end
