(* ===== verification/Db_Frames.thy ===== *)
theory Db_Frames imports Db_Read Log_Frame Wal_Reset begin

text \<open>
  The log and the store share a directory and do not disturb each other: their files have different
  names, and what one of them relies on is kept by every operation of the other.
\<close>

section \<open>Names\<close>

lemma strip_suffixes_disjoint: "strip_suffix ''.sst'' s \<noteq> None \<Longrightarrow> strip_suffix SUFFIX s = None"
proof (rule ccontr)
  assume "strip_suffix ''.sst'' s \<noteq> None" "strip_suffix SUFFIX s \<noteq> None"
  then obtain a b where "strip_suffix ''.sst'' s = Some a" "strip_suffix SUFFIX s = Some b" by blast
  then have "s = a @ ''.sst''" "s = b @ SUFFIX" by (simp_all only: strip_suffix_Some)
  then have "last (a @ ''.sst'') = last (b @ SUFFIX)" by simp
  then show False by (simp add: SUFFIX_def)
qed

lemma table_not_segment: "parse_table_id p \<noteq> None \<Longrightarrow> parse_segment_id p = None"
  using strip_suffixes_disjoint by (auto simp: parse_table_id_def parse_segment_id_def split: option.splits)

lemma parse_segment_names [simp]:
  "parse_segment_id (table_path dir tid) = None"
  "parse_segment_id (join dir MANIFEST_NAME) = None" "parse_segment_id (join dir MANIFEST_TMP) = None"
  by (simp_all add: table_not_segment) (simp_all add: parse_segment_id_def MANIFEST_NAME_def MANIFEST_TMP_def SUFFIX_def strip_suffix_def)

lemma parse_table_segment [simp]: "parse_table_id (segment_path dir i) = None"
  using table_not_segment [of "segment_path dir i"] by (cases "parse_table_id (segment_path dir i)") auto

lemma parse_table_tmp [simp]: "parse_table_id (tmp_path dir i) = None"
proof (rule ccontr)
  assume "parse_table_id (tmp_path dir i) \<noteq> None"
  then obtain t where "zero_pad ID_WIDTH (dec (unat i)) @ ''.wal.tmp'' = t @ ''.sst''"
    by (auto simp: parse_table_id_def tmp_path_def strip_suffix_Some split: option.splits)
  then have "last (zero_pad ID_WIDTH (dec (unat i)) @ ''.wal.tmp'') = last (t @ ''.sst'')" by simp
  then show False by simp
qed

lemma tmp_not_manifest [simp]: "tmp_path dir i \<noteq> join dir MANIFEST_NAME"
proof
  assume "tmp_path dir i = join dir MANIFEST_NAME"
  then have e: "zero_pad 20 (dec (unat i)) @ ''.wal.tmp'' = MANIFEST_NAME"
    by (simp add: tmp_path_def)
  have "last (zero_pad 20 (dec (unat i)) @ ''.wal.tmp'') = CHR ''p''" by simp
  then have "last MANIFEST_NAME = CHR ''p''" unfolding e .
  then show False by (simp add: MANIFEST_NAME_def)
qed

lemma log_path_table: "log_path dir p \<Longrightarrow> parse_table_id p = None"
  using table_not_segment by (cases "parse_table_id p") (auto simp: log_path_def)

lemma log_path_not_store: "log_path dir p \<Longrightarrow> p \<noteq> table_path dir' tid" "log_path dir p \<Longrightarrow> p \<noteq> join dir MANIFEST_NAME"
  using log_path_table [of dir p] tmp_not_manifest by (auto simp: log_path_def dest: sym)

section \<open>The log, as the store runs\<close>

text \<open>The log holds the records \<open>recs\<close>, all of them durable.\<close>

definition log_at :: "crc \<Rightarrow> path \<Rightarrow> disk \<Rightarrow> segment \<Rightarrow> bytes list \<Rightarrow> bool" where
  "log_at crc dir D g recs \<longleftrightarrow> (\<exists>lead ps. wal_inv crc dir D g lead ps [] \<and> concat (map snd lead) @ ps = recs)"

lemma log_at_durable: "log_at crc dir D g recs \<Longrightarrow> durable_log crc dir D recs []"
  using wal_inv_durable by (auto simp: log_at_def)

text \<open>What the log relies on is confined to segment names.\<close>

lemma wal_inv_cong:
  assumes inv: "wal_inv crc dir D g lead ps pend"
    and eq: "\<And>p. parent p = Some dir \<Longrightarrow> parse_segment_id p \<noteq> None \<Longrightarrow>
      d_view D' p = d_view D p \<and> d_sync D' p = d_sync D p \<and> d_images D' p = d_images D p"
    and li: "\<And>q. d_linked D' (seg_path g) q = d_linked D (seg_path g) q"
  shows "wal_inv crc dir D' g lead ps pend"
proof -
  note d = wal_invD [OF inv]
  have seg: "d_view D' (segment_path dir i) = d_view D (segment_path dir i)" "d_sync D' (segment_path dir i) = d_sync D (segment_path dir i)"
    "d_images D' (segment_path dir i) = d_images D (segment_path dir i)" for i using eq [of "segment_path dir i"] by simp_all
  have names: "canonical_names dir (dom (d_view D'))"
    using log_filesD(4) [OF d(1)] eq unfolding canonical_names_def by (metis domIff option.distinct(1))
  have imgs: "canonical_images dir D'"
    using d(4) eq unfolding canonical_images_def by (metis option.distinct(1))
  have "log_files crc dir (d_view D') lead (seg_id g) (frames crc (ps @ pend))"
    by (rule log_files_congI [OF d(1) seg(1) names])
  moreover have "img_log crc dir D' lead (seg_id g) ps pend"
    using d(2) imgs seg(3) by (simp add: img_log_def)
  ultimately show ?thesis
    using inv seg li d(9) by (simp add: wal_inv_def)
qed

lemma wal_inv_sync_dir:
  assumes inv: "wal_inv crc dir D g lead ps []"
  shows "wal_inv crc dir (disk_sync_dir dir D) g lead ps []"
proof (rule wal_inv_cong [OF inv])
  note d = wal_invD [OF inv] and l = log_filesD [OF wal_invD(1) [OF inv]]
  fix p assume p: "parent p = Some dir" "parse_segment_id p \<noteq> None"
  then obtain i where i: "parse_segment_id p = Some i" by auto
  show "d_view (disk_sync_dir dir D) p = d_view D p \<and> d_sync (disk_sync_dir dir D) p = d_sync D p
      \<and> d_images (disk_sync_dir dir D) p = d_images D p"
  proof (cases "p = segment_path dir i")
    case False
    then have "d_view D p = None" "d_images D p = {None}"
      using l(4) d(4) p(1) i unfolding canonical_names_def canonical_images_def by blast+
    then show ?thesis by (simp add: disk_sync_dir_def)
  next
    case True
    consider "i = seg_id g" | qs where "i \<noteq> seg_id g" "(i, qs) \<in> set lead" | "d_view D p = None" "i \<notin> fst ` set lead" "i \<noteq> seg_id g"
      using l(5) [of i] True by fastforce
    then show ?thesis
    proof cases
      case 1
      then show ?thesis using d(5) [of i] d(7,10) True p(1) by (simp add: disk_sync_dir_def seg_images_def)
    next
      case 2
      then show ?thesis using d(5) [of i] d(6) l(2) map_of_lead [OF d(3) 2(2)] True p(1) by (simp add: disk_sync_dir_def seg_images_def)
    next
      case 3
      then have "map_of lead i = None" by (simp add: map_of_eq_None_iff)
      then show ?thesis using d(5) [of i] 3 True p(1) by (simp add: disk_sync_dir_def seg_images_def)
    qed
  qed
next
  note d = wal_invD [OF inv]
  fix q show "d_linked (disk_sync_dir dir D) (seg_path g) q = d_linked D (seg_path g) q"
    using d(8-10) by (auto simp: disk_sync_dir_def)
qed

lemma log_at_store_closed: "store_closed dir n (\<lambda>D. log_at crc dir D g recs)"
  unfolding store_closed_def
proof (intro conjI allI impI)
  fix D tid c bs and X :: "path set"
  assume "log_at crc dir D g recs"
  then obtain lead ps where inv: "wal_inv crc dir D g lead ps []" and r: "concat (map snd lead) @ ps = recs"
    by (auto simp: log_at_def)
  have g: "seg_path g = segment_path dir (seg_id g)" by (rule wal_invD(9) [OF inv])
  have ne: "segment_path dir i \<noteq> table_path dir tid" "segment_path dir i \<noteq> join dir MANIFEST_TMP"
    "segment_path dir i \<noteq> join dir MANIFEST_NAME" for i
    by (auto dest: arg_cong [where f = parse_segment_id])
  have at: "log_at crc dir D' g recs" if "wal_inv crc dir D' g lead ps []" for D'
    using that r by (auto simp: log_at_def)
  show "log_at crc dir (disk_file (table_path dir tid) c bs D) g recs"
  proof (rule at, rule wal_inv_cong [OF inv])
    fix p assume "parse_segment_id p \<noteq> None"
    then have "p \<noteq> table_path dir tid" by auto
    then show "d_view (disk_file (table_path dir tid) c bs D) p = d_view D p
        \<and> d_sync (disk_file (table_path dir tid) c bs D) p = d_sync D p
        \<and> d_images (disk_file (table_path dir tid) c bs D) p = d_images D p" by simp
  qed (use ne(1) in \<open>simp add: disk_file_def g\<close>)
  show "log_at crc dir (disk_sync_dir dir D) g recs"
    using wal_inv_sync_dir [OF inv] r by (auto simp: log_at_def)
  show "log_at crc dir (disk_deletes X D) g recs" if "\<forall>p\<in>X. parse_table_id p \<noteq> None"
  proof -
    have X: "p \<notin> X" if "parse_segment_id p \<noteq> None" for p
    proof
      assume "p \<in> X"
      with \<open>\<forall>p\<in>X. _\<close> have "parse_table_id p \<noteq> None" by (rule bspec)
      from table_not_segment [OF this] that show False by simp
    qed
    have gX: "segment_path dir (seg_id g) \<notin> X" by (rule X) simp
    show ?thesis
    proof (rule at, rule wal_inv_cong [OF inv])
      fix p assume "parse_segment_id p \<noteq> None"
      from X [OF this] show "d_view (disk_deletes X D) p = d_view D p \<and> d_sync (disk_deletes X D) p = d_sync D p
        \<and> d_images (disk_deletes X D) p = d_images D p" by (simp add: disk_deletes_def)
    qed (use gX in \<open>simp add: disk_deletes_def g\<close>)
  qed
  let ?T = "join dir MANIFEST_TMP" and ?M = "join dir MANIFEST_NAME"
  let ?D = "D\<lparr>d_view := (d_view D)(join dir MANIFEST_TMP := None, join dir MANIFEST_NAME \<mapsto> bs),
    d_sync := (d_sync D)(join dir MANIFEST_TMP := None, join dir MANIFEST_NAME \<mapsto> bs),
    d_linked := (\<lambda>r q. r \<noteq> join dir MANIFEST_TMP \<and> r \<noteq> join dir MANIFEST_NAME \<and> d_linked D r q)\<rparr>"
  have "wal_inv crc dir ?D g lead ps []"
  proof (rule wal_inv_cong [OF inv])
    fix p assume "parse_segment_id p \<noteq> None"
    then have "p \<noteq> ?T" "p \<noteq> ?M" by auto
    then show "d_view ?D p = d_view D p \<and> d_sync ?D p = d_sync D p \<and> d_images ?D p = d_images D p" by simp
  qed (use ne(2,3) in \<open>simp add: g\<close>)
  then show "log_at crc dir (disk_replace dir (join dir MANIFEST_TMP) (join dir MANIFEST_NAME) bs D) g recs"
    using wal_inv_sync_dir r unfolding disk_replace_def log_at_def by blast
qed

lemma readers_ok_store_closed: "store_closed dir n (\<lambda>D. readers_ok xxh crc dir n rs (d_view D))"
proof -
  have tmp: "join dir MANIFEST_TMP \<noteq> join dir MANIFEST_NAME" by (rule manifest_names_ne)
  have "n \<le> tid \<longrightarrow> (\<forall>t. t < n \<longrightarrow> t \<noteq> tid)" for tid by auto
  then show ?thesis
    unfolding store_closed_def readers_ok_def disk_replace_view [OF tmp] disk_file_sel disk_sync_dir_view disk_deletes_sel
    by auto
qed

section \<open>The store, as the log runs\<close>

lemma settled_delete: "file_settled D p c \<Longrightarrow> q \<noteq> p \<Longrightarrow> file_settled (disk_delete q D) p c"
  by (auto simp: file_settled_def disk_delete_def)

lemma settled_rename: "file_settled D p c \<Longrightarrow> a \<noteq> p \<Longrightarrow> b \<noteq> p \<Longrightarrow> file_settled (disk_rename a b D) p c"
  by (auto simp: file_settled_def disk_rename_def)

lemma file_settled_log_closed:
  assumes "\<And>q. log_path dir q \<Longrightarrow> q \<noteq> p"
  shows "log_closed dir (\<lambda>D. file_settled D p c)"
  unfolding log_closed_def using assms
  by (auto intro: settled_create settled_append settled_sync_file settled_sync_dir settled_delete settled_rename)

lemma log_closed_conj: "log_closed dir F \<Longrightarrow> log_closed dir G \<Longrightarrow> log_closed dir (\<lambda>D. F D \<and> G D)"
  by (simp add: log_closed_def)

lemma log_closed_all: "(\<And>x. log_closed dir (F x)) \<Longrightarrow> log_closed dir (\<lambda>D. \<forall>x. F x D)"
  by (simp add: log_closed_def)

lemma log_closed_const: "log_closed dir (\<lambda>_. P)"
  by (simp add: log_closed_def)

lemma log_closed_imp: "(P \<Longrightarrow> log_closed dir F) \<Longrightarrow> log_closed dir (\<lambda>D. P \<longrightarrow> F D)"
  by (cases P) (simp_all add: log_closed_const)

lemma log_closed_ex: "(\<And>x. log_closed dir (F x)) \<Longrightarrow> log_closed dir (\<lambda>D. \<exists>x. F x D)"
  unfolding log_closed_def by blast

lemma log_closed_view:
  assumes "\<And>q. log_path dir q \<Longrightarrow> q \<noteq> p"
  shows "log_closed dir (\<lambda>D. P (d_view D p))"
  unfolding log_closed_def
  by (auto simp: disk_create_def disk_append_def disk_sync_file_def disk_delete_def disk_rename_def Let_def dest: assms)

lemmas log_closed_rules = log_closed_conj log_closed_all log_closed_const log_closed_imp log_closed_ex

lemma settled_table_log_closed: "log_closed dir (\<lambda>D. settled_table xxh crc D dir t es)"
  unfolding settled_table_def
  by (intro log_closed_rules file_settled_log_closed log_path_not_store)

lemma store_inv_log_closed: "log_closed dir (\<lambda>D. store_inv xxh crc dir E m D)"
  unfolding store_inv_def store_disk_def Ball_def
  by (intro log_closed_rules file_settled_log_closed settled_table_log_closed
      log_closed_view [where P = "\<lambda>c. c = None"] log_path_not_store)

lemma readers_ok_log_closed: "log_closed dir (\<lambda>D. readers_ok xxh crc dir n rs (d_view D))"
  unfolding readers_ok_def
  by (intro log_closed_rules log_closed_view [where P = "\<lambda>c. c = Some _ \<longrightarrow> _"] log_path_not_store)

end
