(* ===== verification/Db_Inv.thy ===== *)
theory Db_Inv imports Store_Flush Db_Frames begin

text \<open>
  The invariant of the whole engine on a running backend, and what a power loss leaves of it. The
  content is a map from keys to values: what is visible in the records of the log, applied on top of
  the tables of the current version.
\<close>

lemma mem_of_nonempty: "ws \<noteq> [] \<Longrightarrow> mem_of ws \<noteq> []"
proof -
  assume "ws \<noteq> []"
  then obtain us k v where "ws = us @ [(k, v)]" by (metis rev_exhaust surj_pair)
  then have "map_of (mem_of ws) k \<noteq> None"
    unfolding map_of_mem_of by (simp add: apply_writes_snoc split: option.split)
  then show ?thesis by auto
qed

section \<open>What survives\<close>

type_synonym content = "bytes \<Rightarrow> bytes option"

definition seqs_below :: "u64 \<Rightarrow> entry list list \<Rightarrow> bool" where
  "seqs_below n L \<longleftrightarrow> (\<forall>k v. holds_version L k v \<longrightarrow> seq v < n)"

lemma seqs_below_simps [simp]:
  "seqs_below n []" "seqs_below n (l # L) \<longleftrightarrow> (\<forall>k v. map_of l k = Some v \<longrightarrow> seq v < n) \<and> seqs_below n L"
  by (auto simp: seqs_below_def)

lemma seqs_below_mono: "seqs_below n L \<Longrightarrow> n \<le> m \<Longrightarrow> seqs_below m L"
  unfolding seqs_below_def by (meson less_le_trans)

definition levels_ok :: "(u64 \<Rightarrow> entry list) \<Rightarrow> entry list \<Rightarrow> version \<Rightarrow> bool" where
  "levels_ok E wl v \<longleftrightarrow> newest_first (mem_of wl # version_levels E v) \<and> list_all kv_fits wl
     \<and> seqs_below (v_next_seq v) (version_levels E v)"

text \<open>A directory without a manifest holds no tables.\<close>

definition stored_or_new ::
  "hash128 \<Rightarrow> crc \<Rightarrow> path \<Rightarrow> (u64 \<Rightarrow> entry list) \<Rightarrow> version \<Rightarrow> (path \<Rightarrow> bytes option) \<Rightarrow> bool" where
  "stored_or_new xxh crc dir E v vw \<longleftrightarrow> stored xxh crc dir E v vw
     \<or> v = version_empty \<and> vw (join dir MANIFEST_NAME) = None"

definition db_image :: "hash128 \<Rightarrow> crc \<Rightarrow> path \<Rightarrow> content \<Rightarrow> (path \<Rightarrow> bytes option) \<Rightarrow> bool" where
  "db_image xxh crc dir M vw \<longleftrightarrow> (\<exists>E v wl. stored_or_new xxh crc dir E v vw
     \<and> log_has crc dir vw (map rec_bytes wl) \<and> levels_ok E wl v \<and> M = visible (mem_of wl # version_levels E v))"

section \<open>The invariant\<close>

abbreviation db_version :: "'fs db \<Rightarrow> version" where "db_version d \<equiv> snd (m_current (db_manifest d))"

text \<open>The part on disk, with the caches that depend on it.\<close>

definition db_disk ::
  "hash128 \<Rightarrow> crc \<Rightarrow> path \<Rightarrow> (u64 \<Rightarrow> entry list) \<Rightarrow> entry list \<Rightarrow> 'fs db \<Rightarrow> disk \<Rightarrow> bool" where
  "db_disk xxh crc dir E wl d D \<longleftrightarrow> db_dir d = dir \<and> store_inv xxh crc dir E (db_manifest d) D
     \<and> log_at crc dir D (active (db_wal d)) (map rec_bytes wl)
     \<and> readers_ok xxh crc dir (v_next_id (db_version d)) (db_readers d) (d_view D)
     \<and> levels_ok E wl (db_version d) \<and> v_next_seq (db_version d) \<le> ws_next_seq (db_write d)
     \<and> seqs_below (ws_next_seq (db_write d)) (mem_of wl # version_levels E (db_version d))"

definition db_content :: "(u64 \<Rightarrow> entry list) \<Rightarrow> entry list \<Rightarrow> 'fs db \<Rightarrow> content" where
  "db_content E wl d = visible (mem_of wl # version_levels E (db_version d))"

text \<open>The part in memory: no call is in progress, and the memtable holds the writes \<open>ws\<close>.\<close>

definition db_idle :: "'fs db \<Rightarrow> bool" where
  "db_idle d \<longleftrightarrow> quiet_coord (coord (db_wal d)) \<and> is_durable (o_durability (db_options d))
     \<and> 2 \<le> o_tier_fanout (db_options d) \<and> ws_in_flight (db_write d) = 0 \<and> \<not> ws_flush_pending (db_write d)"

definition mem_is :: "entry list \<Rightarrow> 'fs db \<Rightarrow> bool" where
  "mem_is ws d \<longleftrightarrow> active_table (db_mem d) = apply_writes ws memtable_new \<and> frozen_tables (db_mem d) = []"

text \<open>Room for \<open>b\<close> more operations that add \<open>U\<close> bytes of entries: identifiers and sequence numbers do
  not wrap, and the tables stay within the 32-bit lengths of their format.\<close>

definition db_room :: "nat \<Rightarrow> nat \<Rightarrow> (u64 \<Rightarrow> entry list) \<Rightarrow> entry list \<Rightarrow> 'fs db \<Rightarrow> bool" where
  "db_room b U E wl d \<longleftrightarrow> entries_size wl + total_size (version_levels E (db_version d)) + U + 100 < 2 ^ 32
     \<and> unat (v_next_id (db_version d)) + table_count (db_version d) + 2 * b + 1 < 2 ^ 32
     \<and> unat (seg_id (active (db_wal d))) + 2 * b + 1 < 2 ^ 63
     \<and> unat (next_seq (coord (db_wal d))) + b + 1 < 2 ^ 63 \<and> unat (ws_next_seq (db_write d)) + b + 1 < 2 ^ 63"

lemma db_diskD:
  assumes "db_disk xxh crc dir E wl d D"
  shows "db_dir d = dir" and "store_inv xxh crc dir E (db_manifest d) D"
    and "log_at crc dir D (active (db_wal d)) (map rec_bytes wl)"
    and "readers_ok xxh crc dir (v_next_id (db_version d)) (db_readers d) (d_view D)"
    and "levels_ok E wl (db_version d)" and "v_next_seq (db_version d) \<le> ws_next_seq (db_write d)"
    and "seqs_below (ws_next_seq (db_write d)) (mem_of wl # version_levels E (db_version d))"
  using assms by (simp_all add: db_disk_def)

text \<open>The disk of a running engine shows its content, whatever survives of it.\<close>

lemma durable_store_image:
  assumes "durable_store xxh crc dir E v D" and "recoverable crc dir D' (map rec_bytes wl)"
    and "levels_ok E wl v" and "\<And>p. vw p \<in> d_images D p" and "\<And>p. vw p \<in> d_images D' p"
  shows "db_image xxh crc dir (visible (mem_of wl # version_levels E v)) vw"
  using assms unfolding db_image_def durable_store_def recoverable_def stored_or_new_def by blast

lemma store_inv_durable: "store_inv xxh crc dir E m D \<Longrightarrow> durable_store xxh crc dir E (snd (m_current m)) D"
  by (simp add: store_inv_def store_disk_durable)

text \<open>A disk whose content is \<open>M\<close>, whatever survives.\<close>

definition safe_disk :: "hash128 \<Rightarrow> crc \<Rightarrow> path \<Rightarrow> content \<Rightarrow> disk \<Rightarrow> bool" where
  "safe_disk xxh crc dir M D \<longleftrightarrow> (\<exists>E v wl. durable_store xxh crc dir E v D \<and> recoverable crc dir D (map rec_bytes wl)
     \<and> levels_ok E wl v \<and> M = visible (mem_of wl # version_levels E v))"

lemma safe_disk_image: "safe_disk xxh crc dir M D \<Longrightarrow> (\<And>p. vw p \<in> d_images D p) \<Longrightarrow> db_image xxh crc dir M vw"
  unfolding safe_disk_def using durable_store_image by blast

lemma safe_disk_images: "safe_disk xxh crc dir M D \<Longrightarrow> d_images D' = d_images D \<Longrightarrow> safe_disk xxh crc dir M D'"
  unfolding safe_disk_def recoverable_def durable_store_def by simp

lemma log_at_recoverable: "log_at crc dir D g recs \<Longrightarrow> recoverable crc dir D recs"
  by (rule durable_recoverable [OF log_at_durable])

lemma safe_diskI:
  "durable_store xxh crc dir E v D \<Longrightarrow> recoverable crc dir D (map rec_bytes wl) \<Longrightarrow> levels_ok E wl v
    \<Longrightarrow> visible (mem_of wl # version_levels E v) = M \<Longrightarrow> safe_disk xxh crc dir M D"
  unfolding safe_disk_def by blast

lemma db_disk_safe: "db_disk xxh crc dir E wl d D \<Longrightarrow> safe_disk xxh crc dir (db_content E wl d) D"
  using store_inv_durable log_at_recoverable by (fastforce simp: db_disk_def db_content_def intro: safe_diskI)

text \<open>The memory that the store's steps leave alone.\<close>

definition same_memory :: "'fs db \<Rightarrow> 'fs db \<Rightarrow> bool" where
  "same_memory d d' \<longleftrightarrow> coord (db_wal d') = coord (db_wal d) \<and> db_options d' = db_options d \<and> db_dir d' = db_dir d
     \<and> db_write d' = db_write d"

lemma same_memory_refl [simp]: "same_memory d d"
  and same_memory_trans: "same_memory d d' \<Longrightarrow> same_memory d' d'' \<Longrightarrow> same_memory d d''"
  and same_memory_idle: "same_memory d d' \<Longrightarrow> db_idle d' = db_idle d"
  by (simp_all add: same_memory_def db_idle_def)

section \<open>Moving the log's records into a table\<close>

text \<open>Until the log is reset its records are in the log and in the table: the content is the same.\<close>

lemma visible_twice: "visible (m # m # L) = visible (m # L)"
  by (auto simp: visible_def fun_eq_iff split: option.split)

lemma visible_Nil [simp]: "visible ([] # L) = visible L"
  by (simp add: visible_def fun_eq_iff)

lemma levels_ok_flushed:
  assumes "levels_ok E wl v" and "tm_id t \<notin> referenced_ids v" and "v_next_seq v \<le> n" "seqs_below n (mem_of wl # version_levels E v)"
  shows "levels_ok (E(tm_id t := mem_of wl)) wl (flushed v t n)"
    and "version_levels (E(tm_id t := mem_of wl)) (flushed v t n) = mem_of wl # version_levels E v"
proof -
  show l: "version_levels (E(tm_id t := mem_of wl)) (flushed v t n) = mem_of wl # version_levels E v"
    using assms(2) by (rule levels_flushed)
  show "levels_ok (E(tm_id t := mem_of wl)) wl (flushed v t n)"
    using assms(1,3,4) unfolding levels_ok_def l by (auto simp: max_def)
qed

lemma levels_ok_no_log: "levels_ok E wl v \<Longrightarrow> levels_ok E [] v"
  by (auto simp: levels_ok_def)

lemma levels_ok_rearranged:
  assumes "levels_ok E [] v" and "rearranged E v E' v'"
  shows "levels_ok E' [] v'" and "visible (version_levels E' v') = visible (version_levels E v)"
    and "seqs_below n (version_levels E v) \<Longrightarrow> seqs_below n (version_levels E' v')"
proof -
  have nf: "newest_first ([] @ version_levels E v)" using assms(1) by (simp add: levels_ok_def)
  have r: "same_content (version_levels E v) (version_levels E' v')" "v_next_seq v' = v_next_seq v"
    using assms(2) by (simp_all add: rearranged_def)
  note s = same_contentD [OF r(1) nf]
  show seqs: "seqs_below n (version_levels E v) \<Longrightarrow> seqs_below n (version_levels E' v')" for n
    using s(3) unfolding seqs_below_def by blast
  show "visible (version_levels E' v') = visible (version_levels E v)" using s(2) by (simp add: fun_eq_iff)
  show "levels_ok E' [] v'" using s(1) seqs assms(1) r(2) by (auto simp: levels_ok_def)
qed

section \<open>Outcomes\<close>

context crash_fs
begin

text \<open>The power failed, and what survives has the content \<open>M\<close>.\<close>

definition lost :: "hash128 \<Rightarrow> crc \<Rightarrow> path \<Rightarrow> content set \<Rightarrow> 'fs \<Rightarrow> bool" where
  "lost xxh crc dir Ms s \<longleftrightarrow> (\<exists>D. down s D) \<and> (\<exists>M\<in>Ms. db_image xxh crc dir M (survivor s))"

lemma lostI:
  assumes "down s D" and "safe_disk xxh crc dir M D" and "M \<in> Ms"
  shows "lost xxh crc dir Ms s"
  using assms(2,3) safe_disk_image [OF _ cf_survivor [OF assms(1)]] assms(1) unfolding lost_def by blast

text \<open>What is known of the store and of the log may come from different steps of the proof.\<close>

lemma lost_parts:
  assumes "down s D" and "durable_store xxh crc dir E v D"
    and "down s D'" and "recoverable crc dir D' (map rec_bytes wl)"
    and "levels_ok E wl v" and "visible (mem_of wl # version_levels E v) \<in> Ms"
  shows "lost xxh crc dir Ms s"
  using durable_store_image [OF assms(2,4,5)] cf_survivor [OF assms(1)] cf_survivor [OF assms(3)] assms(1,6)
  unfolding lost_def by blast

lemma lost_mono: "lost xxh crc dir Ms s \<Longrightarrow> Ms \<subseteq> Ns \<Longrightarrow> lost xxh crc dir Ns s"
  unfolding lost_def by blast

end

end
