(* ===== verification/Db_Flush.thy ===== *)
theory Db_Flush imports Db_Inv begin

text \<open>
  Flushing the engine: the memtable is frozen, written as a table, the log is reset and the tiers are
  compacted. None of it changes the content; a power loss on the way leaves the content as it was.
\<close>

lemma with_fs_sel [simp]:
  "db_fs (with_fs s d) = s" "db_manifest (with_fs s d) = db_manifest d" "db_mem (with_fs s d) = db_mem d"
  "db_readers (with_fs s d) = db_readers d" "db_write (with_fs s d) = db_write d" "db_dir (with_fs s d) = db_dir d"
  "db_options (with_fs s d) = db_options d" "active (db_wal (with_fs s d)) = active (db_wal d)"
  "coord (db_wal (with_fs s d)) = coord (db_wal d)"
  by (simp_all add: with_fs_def)

context crash_fs
begin

lemma flush_install_ok:
  assumes up: "up (db_fs d)" and inv: "db_disk xxh crc dir E wl d (disk (db_fs d))"
    and fz: "mmap (snd fz) = mem_of wl" "mem_of wl \<noteq> []"
    and room: "entries_size (mem_of wl) + 100 < 2 ^ 32" "unat (v_next_id (db_version d)) + 1 < 2 ^ 32"
    and f: "flush_install xxh crc S fz d = (r, d')"
  shows "same_memory d d' \<and> db_mem d' = db_mem d \<and>
    ((up (db_fs d') \<and> r = Inr () \<and> held (db_manifest d) (db_manifest d') \<and> active (db_wal d') = active (db_wal d)
        \<and> (\<exists>E'. db_disk xxh crc dir E' wl d' (disk (db_fs d')) \<and> v_next_seq (db_version d') = ws_next_seq (db_write d)
          \<and> version_levels E' (db_version d') = mem_of wl # version_levels E (db_version d)
          \<and> unat (v_next_id (db_version d')) = unat (v_next_id (db_version d)) + 1
          \<and> table_count (db_version d') = table_count (db_version d) + 1 \<and> (\<forall>tid<v_next_id (db_version d). E' tid = E tid)))
     \<or> lost xxh crc dir {db_content E wl d} (db_fs d'))"
proof -
  note i = db_diskD [OF inv]
  let ?v = "db_version d" and ?n = "ws_next_seq (db_write d)" and ?id = "v_next_id (db_version d)"
  let ?t = "new_meta ?id (mem_of wl)" let ?v' = "flushed ?v ?t ?n" and ?E = "E(?id := mem_of wl)"
  let ?M = "db_content E wl d" and ?recs = "map rec_bytes wl"
  let ?F = "\<lambda>D. log_at crc dir D (active (db_wal d)) ?recs \<and> readers_ok xxh crc dir ?id (db_readers d) (d_view D)"
  note si = store_invD [OF i(2)]
  have room64: "unat ?id + 1 < 2 ^ 64" using room(2) by simp
  have nid: "?id \<notin> referenced_ids ?v" using version_wf_fresh [OF si(5), of ?id] by simp
  note lv = levels_ok_flushed [of E wl ?v ?t ?n, unfolded new_meta_id, OF i(5) nid i(6,7)]
  have M': "visible (mem_of wl # version_levels ?E ?v') = ?M"
    unfolding lv(2) visible_twice db_content_def ..
  obtain m s where fs: "flush_step xxh crc S dir ?n (mem_of wl) (db_manifest d, db_fs d) = (r, (m, s))"
    and d': "d' = with_fs s (d\<lparr>db_manifest := m\<rparr>)"
    using f fz(1) i(1) by (auto simp: flush_install_step snapshot_def Let_def split: prod.splits)
  have F: "store_closed dir ?id ?F"
    using log_at_store_closed [of dir ?id crc] readers_ok_store_closed [of dir ?id xxh crc] by (simp add: store_closed_def)
  have "reaches up disk down (flush_step xxh crc S dir ?n (mem_of wl)) (safe_disk xxh crc dir ?M)
    (\<lambda>r m' D. r = Inr () \<and> store_inv xxh crc dir ?E m' D \<and> snd (m_current m') = ?v' \<and> held (db_manifest d) m' \<and> ?F D) (db_manifest d, db_fs d)"
  proof (rule reaches_flush_step [OF up i(2) refl mem_of_ok(2) fz(2) room F])
    show "?F (disk (db_fs d))" using i(3,4) by simp
    show "safe_disk xxh crc dir ?M D" if "d_images D = d_images (disk (db_fs d))" for D
      using safe_disk_images [OF db_disk_safe [OF inv] that] .
    show "safe_disk xxh crc dir ?M D" if "v' = ?v'" "durable_store xxh crc dir ?E v' D" "?F D" for v' D
      using that log_at_recoverable lv(1) M' by (intro safe_diskI [of xxh crc dir ?E v' D wl]) auto
  qed auto
  then show ?thesis unfolding reaches_def fs Let_def prod.case
  proof (elim disjE exE conjE)
    fix D assume "down s D" "safe_disk xxh crc dir ?M D"
    then have "lost xxh crc dir {?M} s" by (rule lostI) simp
    then show ?thesis by (simp add: d' same_memory_def)
  next
    assume u: "up s" "r = Inr ()" and inv': "store_inv xxh crc dir ?E m (disk s)" "snd (m_current m) = ?v'"
      and held: "held (db_manifest d) m" and log: "log_at crc dir (disk s) (active (db_wal d)) ?recs"
      and rd: "readers_ok xxh crc dir ?id (db_readers d) (d_view (disk s))"
    have wf: "v_next_id ?v' = ?id + 1" using wf_flushed(2) [OF si(5) room64, of ?t ?n] by simp
    have id1: "unat (?id + 1) = unat ?id + 1" using room64 by (rule unat_u64_Suc)
    have "?id \<le> ?id + 1" using id1 by (simp add: word_le_nat_alt)
    have sq: "v_next_seq ?v' = ?n" using i(6) by (simp add: max_def)
    have "db_disk xxh crc dir ?E wl d' (disk s)"
      unfolding db_disk_def using i inv' log lv readers_ok_mono [OF rd \<open>?id \<le> ?id + 1\<close>]
      by (simp add: d' u(2) wf del: flushed_sel(2))
    moreover have "table_count ?v' = table_count ?v + 1" by (rule table_count_flushed)
    ultimately show ?thesis
      using u inv'(2) lv(2) wf id1 sq held
      by (intro conjI disjI1) (auto simp: d' same_memory_def simp del: flushed_sel)
  qed
qed

lemma flush_table_ok:
  assumes "up (db_fs d)" and "db_disk xxh crc dir E wl d (disk (db_fs d))" and "mmap (snd fz) = mem_of wl" "mem_of wl \<noteq> []"
    and "entries_size (mem_of wl) + 100 < 2 ^ 32" "unat (v_next_id (db_version d)) + 1 < 2 ^ 32"
    and f: "flush_table xxh crc S fz d = (r, d')"
  shows "same_memory d d' \<and>
    ((up (db_fs d') \<and> r = Inr () \<and> db_mem d' = discard_frozen fz (db_mem d) \<and> active (db_wal d') = active (db_wal d)
        \<and> (\<exists>E'. db_disk xxh crc dir E' wl d' (disk (db_fs d')) \<and> v_next_seq (db_version d') = ws_next_seq (db_write d)
          \<and> version_levels E' (db_version d') = mem_of wl # version_levels E (db_version d)
          \<and> unat (v_next_id (db_version d')) = unat (v_next_id (db_version d)) + 1
          \<and> table_count (db_version d') = table_count (db_version d) + 1))
     \<or> lost xxh crc dir {db_content E wl d} (db_fs d'))"
proof -
  obtain r1 d1 where i: "flush_install xxh crc S fz d = (r1, d1)" by force
  note ok = flush_install_ok [OF assms(1-6) i]
  have "same_memory d1 (d1\<lparr>db_mem := m\<rparr>)" "db_disk xxh crc dir E' wl (d1\<lparr>db_mem := m\<rparr>) D = db_disk xxh crc dir E' wl d1 D" for m E' D
    by (simp_all add: same_memory_def db_disk_def)
  note same = this
  have d': "r = r1" "d' = (case r1 of Inl _ \<Rightarrow> d1 | Inr _ \<Rightarrow> d1\<lparr>db_mem := discard_frozen fz (db_mem d1)\<rparr>)"
  proof -
    have "flush_table xxh crc S fz d = (r1, case r1 of Inl _ \<Rightarrow> d1 | Inr _ \<Rightarrow> d1\<lparr>db_mem := discard_frozen fz (db_mem d1)\<rparr>)"
      unfolding flush_table_install i by (cases r1) simp_all
    then show "r = r1" "d' = (case r1 of Inl _ \<Rightarrow> d1 | Inr _ \<Rightarrow> d1\<lparr>db_mem := discard_frozen fz (db_mem d1)\<rparr>)"
      using f by (metis fst_conv, metis snd_conv)
  qed
  have sm: "same_memory d d1" and mem: "db_mem d1 = db_mem d" using ok by simp_all
  have x: "same_memory d d'" "db_wal d' = db_wal d1" "db_manifest d' = db_manifest d1"
    using d'(2) sm same_memory_trans [OF sm same(1)] by (cases r1; simp)+
  show ?thesis
  proof (cases "lost xxh crc dir {db_content E wl d} (db_fs d1)")
    case True
    then show ?thesis using x by simp
  next
    case False
    then obtain E' where e: "up (db_fs d1)" "r1 = Inr ()" "active (db_wal d1) = active (db_wal d)"
      "db_disk xxh crc dir E' wl d1 (disk (db_fs d1))" "v_next_seq (db_version d1) = ws_next_seq (db_write d)"
      "version_levels E' (db_version d1) = mem_of wl # version_levels E (db_version d)"
      "unat (v_next_id (db_version d1)) = unat (v_next_id (db_version d)) + 1"
      "table_count (db_version d1) = table_count (db_version d) + 1"
      using ok by blast
    have "d' = d1\<lparr>db_mem := discard_frozen fz (db_mem d)\<rparr>" using d'(2) e(2) mem by simp
    then show ?thesis using x(1) d'(1) e by (intro conjI disjI1 exI [of _ E']) (simp_all add: same(2))
  qed
qed

text \<open>Resetting the log, once its records are in a table.\<close>

lemma on_fs_coord [simp]: "coord (snd (on_fs m W)) = coord W"
  by (simp add: on_fs_def case_prod_unfold Let_def)

lemma ok_then_coord:
  assumes "coord (snd r) = c" and "\<And>x W. coord W = c \<Longrightarrow> coord (snd (f x W)) = c"
  shows "coord (snd (ok_then r f)) = c"
  using assms by (cases r; cases "fst r") auto

lemma wal_reset_coord: "coord (snd (wal_reset S' cfg W)) = coord W"
  by (auto simp: wal_reset_def Let_def split: sum.split intro!: ok_then_coord)

lemma db_reset_wal_ok:
  assumes up: "up (db_fs d)" and inv: "db_disk xxh crc dir E wl d (disk (db_fs d))"
    and same: "visible (version_levels E (db_version d)) = db_content E wl d"
    and room: "unat (seg_id (active (db_wal d))) + 1 < 2 ^ 64"
    and f: "db_reset_wal S d = (r, d')"
  shows "same_memory d d' \<and> db_mem d' = db_mem d \<and>
    ((up (db_fs d') \<and> r = Inr () \<and> db_disk xxh crc dir E [] d' (disk (db_fs d')) \<and> db_version d' = db_version d
        \<and> unat (seg_id (active (db_wal d'))) = unat (seg_id (active (db_wal d))) + 1)
     \<or> lost xxh crc dir {db_content E wl d} (db_fs d'))"
proof -
  note i = db_diskD [OF inv]
  let ?W = "db_wal d" and ?cfg = "db_cfg d" and ?M = "db_content E wl d" and ?v = "db_version d"
  obtain r0 W' where w: "wal_reset S ?cfg ?W = (r0, W')" by force
  have r: "r = fst (err_map Db_storage (r0, d))" and d': "d' = d\<lparr>db_wal := W'\<rparr>"
    using f by (cases r0; auto simp: db_reset_wal_def w)+
  have co: "coord W' = coord ?W" using wal_reset_coord [of S ?cfg ?W] by (simp add: w)
  obtain lead ps where wi: "wal_inv crc dir (disk (wfs ?W)) (active ?W) lead ps []" and recs: "concat (map snd lead) @ ps = map rec_bytes wl"
    using i(3) by (auto simp: log_at_def)
  have dir: "wal_dir ?cfg = dir" by (simp add: db_cfg_def i(1))
  let ?F = "\<lambda>D. store_inv xxh crc dir E (db_manifest d) D \<and> readers_ok xxh crc dir (v_next_id ?v) (db_readers d) (d_view D)"
  have F: "log_closed dir ?F" by (intro log_closed_conj store_inv_log_closed readers_ok_log_closed)
  have "active_ok dir ?W \<and> alive up disk down ?F (wfs ?W)"
    using up i(2,4) wal_invD(9) [OF wi] by (simp add: active_ok_def alive_def)
  from keeps_reset [OF F dir, unfolded keeps_def, rule_format, OF this]
  have keep: "up (wfs W') \<and> ?F (disk (wfs W')) \<or> (\<exists>D. down (wfs W') D \<and> ?F D)"
    using up i(2,4) by (simp add: w fs_step_def)
  have "runs (w_up up) (w_obs disk) (w_down down) (wal_reset S ?cfg) (\<lambda>ob. durable_log crc dir (fst ob) (map rec_bytes wl) [] \<or> durable_log crc dir (fst ob) [] [])
     (\<lambda>r ob. r = Inr () \<and> wal_inv crc dir (fst ob) (fst (snd ob)) [] [] [] \<and> seg_id (fst (snd ob)) = seg_id (active ?W) + 1) ?W"
    by (rule runs_wal_reset [OF _ wi dir room]) (use up recs in \<open>auto simp: w_up_def\<close>)
  then consider (up) "up (wfs W')" "r0 = Inr ()" "wal_inv crc dir (disk (wfs W')) (active W') [] [] []"
      "seg_id (active W') = seg_id (active ?W) + 1"
    | (down) D ws where "down (wfs W') D" "recoverable crc dir D (map rec_bytes ws)" "ws = wl \<or> ws = []"
    unfolding runs_def w w_defs fst_conv snd_conv
  proof (elim disjE exE conjE)
    fix ob :: "disk \<times> segment \<times> coord"
    assume d: "down (wfs W') (fst ob)" "durable_log crc dir (fst ob) (map rec_bytes wl) []"
    show thesis by (rule down [OF d(1) durable_recoverable [OF d(2)]]) simp
  next
    fix ob :: "disk \<times> segment \<times> coord"
    assume d: "down (wfs W') (fst ob)" "durable_log crc dir (fst ob) [] []"
    show thesis by (rule down [of "fst ob" "[]"]) (use d durable_recoverable [OF d(2)] in simp_all)
  next
    assume "up (wfs W')" "r0 = Inr ()" "wal_inv crc dir (disk (wfs W')) (active W') [] [] []"
      "seg_id (active W') = seg_id (active ?W) + 1"
    then show thesis by (rule up)
  qed
  then show ?thesis
  proof cases
    case up
    then have "?F (disk (wfs W'))" using keep cf_excl by blast
    moreover have "log_at crc dir (disk (wfs W')) (active W') (map rec_bytes [])" using up(3) by (auto simp: log_at_def)
    ultimately have "db_disk xxh crc dir E [] d' (disk (wfs W'))"
      using i levels_ok_no_log [OF i(5)] by (simp add: db_disk_def d')
    then show ?thesis using up r co unat_u64_Suc [OF room] by (simp add: d' same_memory_def)
  next
    case down
    then have "\<not> up (wfs W')" using cf_excl by blast
    then obtain D' where D': "down (wfs W') D'" "?F D'" using keep by blast
    have "lost xxh crc dir {?M} (wfs W')"
      using down(3) levels_ok_no_log [OF i(5)] i(5) same store_inv_durable D'(2)
      by (intro lost_parts [OF D'(1) _ down(1,2)]) (auto simp: db_content_def)
    then show ?thesis using co by (simp add: d' same_memory_def)
  qed
qed

lemma db_reset_wal_same: "db_reset_wal S d = (r, d') \<Longrightarrow> db_manifest d' = db_manifest d \<and> db_readers d' = db_readers d"
  by (auto simp: db_reset_wal_def err_map_def Let_def split: prod.splits sum.splits)

text \<open>One round of compaction, on an empty log.\<close>

lemma db_compact_ok:
  assumes up: "up (db_fs d)" and inv: "db_disk xxh crc dir E [] d (disk (db_fs d))"
    and room: "total_size (version_levels E (db_version d)) + 100 < 2 ^ 32"
      "unat (v_next_id (db_version d)) + table_count (db_version d) + 1 < 2 ^ 32"
    and fan: "2 \<le> o_tier_fanout (db_options d)" and f: "db_compact xxh crc S d = (r, d')"
  shows "same_memory d d' \<and> db_mem d' = db_mem d \<and>
    ((up (db_fs d') \<and> (\<exists>again. r = Inr again) \<and> active (db_wal d') = active (db_wal d) \<and> held (db_manifest d) (db_manifest d')
        \<and> (\<exists>E'. db_disk xxh crc dir E' [] d' (disk (db_fs d')) \<and> rearranged E (db_version d) E' (db_version d')
          \<and> unat (v_next_id (db_version d')) + table_count (db_version d')
              \<le> unat (v_next_id (db_version d)) + table_count (db_version d)))
     \<or> lost xxh crc dir {db_content E [] d} (db_fs d'))"
proof -
  note i = db_diskD [OF inv]
  let ?v = "db_version d" and ?n = "o_tier_fanout (db_options d)" and ?M = "db_content E [] d"
  let ?F = "\<lambda>D. log_at crc dir D (active (db_wal d)) [] \<and> readers_ok xxh crc dir (v_next_id ?v) (db_readers d) (d_view D)"
  have F: "store_closed dir (v_next_id ?v) ?F"
    using log_at_store_closed [of dir "v_next_id ?v" crc] readers_ok_store_closed [of dir "v_next_id ?v" xxh crc]
    by (simp add: store_closed_def)
  have sane: "store_sane (total_size (version_levels E ?v)) E ?v"
    using i(5) room(1) by (simp add: store_sane_def levels_ok_def)
  let ?Q = "\<lambda>r m' D. (\<exists>again. r = Inr again) \<and> held (db_manifest d) m'
      \<and> (\<exists>E'. store_inv xxh crc dir E' m' D \<and> rearranged E ?v E' (snd (m_current m')) \<and> ?F D
      \<and> unat (v_next_id (snd (m_current m'))) + table_count (snd (m_current m')) \<le> unat (v_next_id ?v) + table_count ?v)"
  obtain r0 m s where r: "maybe_compact xxh crc S ?n (db_manifest d, db_fs d) = (r0, (m, s))" by (metis prod.exhaust)
  have c: "reaches up disk down (maybe_compact xxh crc S ?n) (safe_disk xxh crc dir ?M) ?Q (db_manifest d, db_fs d)"
  proof (rule reaches_maybe_compact [OF up i(2) refl sane _ F])
    show "?F (disk (db_fs d))" using i(3,4) by simp
    show "?Q (Inr False) (db_manifest d) (disk (db_fs d))"
      using i(2,3,4) by (intro conjI exI [of _ E] exI [of _ False]) simp_all
    show "?Q (Inr True) m' D" if t: "full_tier ?n ?v = Some t" and x: "store_inv xxh crc dir E' m' D" "rearranged E ?v E' (snd (m_current m'))"
      "pass_done ?v t (snd (m_current m'))" "held (db_manifest d) m'" "?F D" for t E' m' D
    proof -
      have "2 \<le> length (tiers ?v ! t)" using full_tier_Some [OF t] fan by simp
      then show ?thesis using x by (intro conjI exI [of _ E'] exI [of _ True]) (auto simp: pass_done_def)
    qed
    show "safe_disk xxh crc dir ?M D" if r: "durable_store xxh crc dir E' v' D" "rearranged E ?v E' v'" "framed ?F D" for E' v' D
    proof -
      obtain D' where "?F D'" "d_images D' = d_images D" using r(3) by (auto simp: framed_def)
      then have "recoverable crc dir D (map rec_bytes [])"
        using log_at_recoverable [of crc dir D' "active (db_wal d)" "[]"] by (simp add: recoverable_def)
      moreover note levels_ok_rearranged(1,2) [OF i(5) r(2)]
      ultimately show ?thesis using r(1) by (intro safe_diskI [of xxh crc dir E' v' D "[]"]) (simp_all add: db_content_def)
    qed
  qed (use room(2) in simp)
  let ?d = "with_fs s (d\<lparr>db_manifest := m\<rparr>)"
  have res: "d' = ?d" "(\<exists>again. r0 = Inr again) \<Longrightarrow> \<exists>again. r = Inr again"
    using f by (cases r0; auto simp: db_compact_def on_manifest_def r)+
  have mem: "same_memory d ?d" "db_mem ?d = db_mem d" by (simp_all add: same_memory_def)
  from c have "up s \<and> ?Q r0 m (disk s) \<or> (\<exists>D. down s D \<and> safe_disk xxh crc dir ?M D)"
    unfolding reaches_def r Let_def prod.case by blast
  then show ?thesis
  proof (elim disjE exE conjE)
    fix D assume "down s D" "safe_disk xxh crc dir ?M D"
    then have "lost xxh crc dir {?M} (db_fs ?d)" by (auto intro: lostI)
    then show ?thesis using res(1) mem by simp
  next
    fix again E'
    assume u: "up s" "r0 = Inr again" "held (db_manifest d) m" and q: "store_inv xxh crc dir E' m (disk s)" "rearranged E ?v E' (snd (m_current m))"
      "log_at crc dir (disk s) (active (db_wal d)) []"
      "readers_ok xxh crc dir (v_next_id ?v) (db_readers d) (d_view (disk s))"
      "unat (v_next_id (snd (m_current m))) + table_count (snd (m_current m)) \<le> unat (v_next_id ?v) + table_count ?v"
    have n: "v_next_seq (snd (m_current m)) = v_next_seq ?v" "v_next_id ?v \<le> v_next_id (snd (m_current m))"
      using q(2) by (simp_all add: rearranged_def)
    have "db_disk xxh crc dir E' [] ?d (disk s)"
      using i q levels_ok_rearranged [OF i(5) q(2)] readers_ok_mono [OF q(4) n(2)] n(1) by (simp add: db_disk_def)
    moreover have "\<exists>again. r = Inr again" using res(2) u(2) by auto
    ultimately show ?thesis using res(1) mem u q(2,5) by (auto simp del: with_fs_sel(1) simp: with_fs_def)
  qed
qed

text \<open>The cascade of compactions, on an empty log.\<close>

lemma db_cascade_ok:
  assumes up: "up (db_fs d)" and inv: "db_disk xxh crc dir E [] d (disk (db_fs d))"
    and room: "total_size (version_levels E (db_version d)) + 100 < 2 ^ 32"
      "unat (v_next_id (db_version d)) + table_count (db_version d) + 1 < 2 ^ 32"
    and fan: "2 \<le> o_tier_fanout (db_options d)"
  obtains r d' where "db_cascade xxh crc S d = Some (r, d')" and "same_memory d d'" and "db_mem d' = db_mem d"
    and "(up (db_fs d') \<and> r = Inr () \<and> active (db_wal d') = active (db_wal d)
        \<and> (\<exists>E'. db_disk xxh crc dir E' [] d' (disk (db_fs d')) \<and> rearranged E (db_version d) E' (db_version d')
          \<and> unat (v_next_id (db_version d')) + table_count (db_version d')
              \<le> unat (v_next_id (db_version d)) + table_count (db_version d)))
     \<or> lost xxh crc dir {db_content E [] d} (db_fs d')"
proof -
  note i = db_diskD [OF inv]
  let ?v = "db_version d" and ?n = "o_tier_fanout (db_options d)" and ?M = "db_content E [] d"
  let ?F = "\<lambda>D. log_at crc dir D (active (db_wal d)) [] \<and> readers_ok xxh crc dir (v_next_id ?v) (db_readers d) (d_view D)"
  have F: "store_closed dir (v_next_id ?v) ?F"
    using log_at_store_closed [of dir "v_next_id ?v" crc] readers_ok_store_closed [of dir "v_next_id ?v" xxh crc]
    by (simp add: store_closed_def)
  have sane: "store_sane (total_size (version_levels E ?v)) E ?v"
    using i(5) room(1) by (simp add: store_sane_def levels_ok_def)
  let ?Q = "\<lambda>r m' D. r = Inr () \<and> (\<exists>E'. store_inv xxh crc dir E' m' D \<and> rearranged E ?v E' (snd (m_current m')) \<and> ?F D
      \<and> unat (v_next_id (snd (m_current m'))) + table_count (snd (m_current m')) \<le> unat (v_next_id ?v) + table_count ?v)"
  have c: "cascade xxh crc S ?n (db_manifest d, db_fs d) \<noteq> None
      \<and> reaches up disk down (\<lambda>ms. the (cascade xxh crc S ?n ms)) (safe_disk xxh crc dir ?M) ?Q (db_manifest d, db_fs d)"
  proof (rule reaches_cascade [OF up i(2) refl sane room(2) fan F])
    show "?F (disk (db_fs d))" using i(3,4) by simp
    show "safe_disk xxh crc dir ?M D" if r: "durable_store xxh crc dir E' v' D" "rearranged E ?v E' v'" "framed ?F D" for E' v' D
    proof -
      obtain D' where "?F D'" "d_images D' = d_images D" using r(3) by (auto simp: framed_def)
      then have "recoverable crc dir D (map rec_bytes [])"
        using log_at_recoverable [of crc dir D' "active (db_wal d)" "[]"] by (simp add: recoverable_def)
      moreover note levels_ok_rearranged(1,2) [OF i(5) r(2)]
      ultimately show ?thesis using r(1) by (intro safe_diskI [of xxh crc dir E' v' D "[]"]) (simp_all add: db_content_def)
    qed
  qed auto
  then obtain r m s where r: "cascade xxh crc S ?n (db_manifest d, db_fs d) = Some (r, (m, s))" by auto
  let ?d = "with_fs s (d\<lparr>db_manifest := m\<rparr>)"
  have res: "db_cascade xxh crc S d = Some (err_map Db_compaction (r, ?d))" by (simp add: db_cascade_def r)
  have mem: "same_memory d ?d" "db_mem ?d = db_mem d" by (simp_all add: same_memory_def)
  from c have "up s \<and> ?Q r m (disk s) \<or> (\<exists>D. down s D \<and> safe_disk xxh crc dir ?M D)"
    unfolding reaches_def r option.sel Let_def prod.case by blast
  then show thesis
  proof (elim disjE exE conjE)
    fix D assume "down s D" "safe_disk xxh crc dir ?M D"
    then have "lost xxh crc dir {?M} (db_fs ?d)" by (auto intro: lostI)
    then show thesis using res mem by (intro that [of "fst (err_map Db_compaction (r, ?d))" ?d]) (cases r; simp)+
  next
    fix E'
    assume u: "up s" "r = Inr ()" and q: "store_inv xxh crc dir E' m (disk s)" "rearranged E ?v E' (snd (m_current m))"
      "log_at crc dir (disk s) (active (db_wal d)) []"
      "readers_ok xxh crc dir (v_next_id ?v) (db_readers d) (d_view (disk s))"
      "unat (v_next_id (snd (m_current m))) + table_count (snd (m_current m)) \<le> unat (v_next_id ?v) + table_count ?v"
    have n: "v_next_seq (snd (m_current m)) = v_next_seq ?v" "v_next_id ?v \<le> v_next_id (snd (m_current m))"
      using q(2) by (simp_all add: rearranged_def)
    have "db_disk xxh crc dir E' [] ?d (disk s)"
      using i q levels_ok_rearranged [OF i(5) q(2)] readers_ok_mono [OF q(4) n(2)] n(1) by (simp add: db_disk_def)
    then show thesis using res mem u q(2,5) by (intro that [of "Inr ()" ?d]) (auto simp del: with_fs_sel(1) simp: with_fs_def)
  qed
qed

text \<open>Writing the memtable as a table.\<close>

lemma flush_memtable_ok:
  assumes up: "up (db_fs d)" and inv: "db_disk xxh crc dir E ws d (disk (db_fs d))" and mem: "mem_is ws d"
    and room: "entries_size ws + 100 < 2 ^ 32" "unat (v_next_id (db_version d)) + 1 < 2 ^ 32"
    and f2: "flush_frozen xxh crc S (frozen_tables (db_mem (freeze_active d))) (freeze_active d) = (r, d')"
  shows "same_memory d d' \<and> ((up (db_fs d') \<and> r = Inr () \<and> mem_is [] d' \<and> active (db_wal d') = active (db_wal d)
        \<and> (\<exists>E'. db_disk xxh crc dir E' ws d' (disk (db_fs d')) \<and> visible (version_levels E' (db_version d')) = db_content E ws d
          \<and> db_content E' ws d' = db_content E ws d
          \<and> total_size (version_levels E' (db_version d')) \<le> entries_size ws + total_size (version_levels E (db_version d))
          \<and> unat (v_next_id (db_version d')) + table_count (db_version d')
             \<le> unat (v_next_id (db_version d)) + table_count (db_version d) + 2))
      \<or> lost xxh crc dir {db_content E ws d} (db_fs d'))"
proof (cases "ws = []")
  case True
  then have "freeze_active d = d" "frozen_tables (db_mem d) = []"
    using mem approx_bytes_mem_of [of "db_mem d" ws] by (simp_all add: freeze_active_def mem_is_def)
  then have "d' = d" "r = Inr ()" using f2 by simp_all
  then show ?thesis using up inv mem True by (auto simp: db_content_def)
next
  case False
  let ?d1 = "freeze_active d" and ?fz = "(next_arc (db_mem d), active_table (db_mem d))" and ?M = "db_content E ws d"
  have d1: "same_memory d ?d1" "db_fs ?d1 = db_fs d" "db_version ?d1 = db_version d" "active (db_wal ?d1) = active (db_wal d)"
    by (simp_all add: freeze_active_def same_memory_def)
  have inv1: "db_disk xxh crc dir E ws ?d1 (disk (db_fs ?d1))"
    using inv by (simp add: db_disk_def freeze_active_def)
  have frz: "frozen_tables (db_mem ?d1) = [?fz]" and act: "active_table (db_mem ?d1) = memtable_new"
    using False mem approx_bytes_mem_of [of "db_mem d" ws] by (auto simp: freeze_active_def mem_is_def freeze_def Let_def)
  have fz: "mmap (snd ?fz) = mem_of ws" using mem by (simp add: mem_is_def mem_of_def)
  obtain r0 where f: "flush_table xxh crc S ?fz ?d1 = (r0, d')" and r: "r = r0"
    using f2 unfolding frz by (cases "flush_table xxh crc S ?fz ?d1"; cases "fst (flush_table xxh crc S ?fz ?d1)") auto
  have lim: "entries_size (mem_of ws) + 100 < 2 ^ 32" "unat (v_next_id (db_version ?d1)) + 1 < 2 ^ 32"
    using room mem_of_size [of ws] d1(3) by simp_all
  have c1: "db_content E ws ?d1 = ?M" using d1(3) by (simp add: db_content_def)
  note ft = flush_table_ok [OF up [folded d1(2)] inv1 fz mem_of_nonempty [OF False] lim f, unfolded c1]
  have mem': "mem_is [] d'" if "db_mem d' = discard_frozen ?fz (db_mem ?d1)"
    using that frz act by (simp add: mem_is_def discard_frozen_def)
  show ?thesis
  proof (cases "lost xxh crc dir {?M} (db_fs d')")
    case True
    then show ?thesis using ft same_memory_trans [OF d1(1)] by blast
  next
    case False
    then obtain E' where e: "up (db_fs d')" "r0 = Inr ()" "db_mem d' = discard_frozen ?fz (db_mem ?d1)"
      "active (db_wal d') = active (db_wal ?d1)" "db_disk xxh crc dir E' ws d' (disk (db_fs d'))"
      "version_levels E' (db_version d') = mem_of ws # version_levels E (db_version ?d1)"
      "unat (v_next_id (db_version d')) = unat (v_next_id (db_version ?d1)) + 1"
      "table_count (db_version d') = table_count (db_version ?d1) + 1" "same_memory ?d1 d'"
      using ft by blast
    have l: "version_levels E' (db_version d') = mem_of ws # version_levels E (db_version d)" using e(6) d1(3) by simp
    then show ?thesis
      using e d1(3,4) same_memory_trans [OF d1(1) e(9)] mem' [OF e(3)] r mem_of_size [of ws]
      by (intro conjI disjI1 exI [of _ E']) (simp_all add: db_content_def visible_twice)
  qed
qed

text \<open>On a stopped backend the later phases change nothing there.\<close>

lemma db_reset_wal_down:
  assumes "down (db_fs d) D"
  shows "\<exists>e. db_reset_wal S d = (Inl e, d)"
proof (cases "list_segments S (wal_dir (db_cfg d)) (db_fs d)")
  case (Inr segs)
  have "inert (w_down down) (on_fs (segment_create S (wal_dir (db_cfg d)) (fold max (map fst segs) 0 + 1)))"
    unfolding segment_create_def Let_def by (intro inert_on_fs inert_then inert_ops)
  moreover have "w_down down (db_wal d) (D, active (db_wal d), coord (db_wal d))" using assms by (simp add: w_down_def)
  ultimately obtain e where "on_fs (segment_create S (wal_dir (db_cfg d)) (fold max (map fst segs) 0 + 1)) (db_wal d) = (Inl e, db_wal d)"
    unfolding inert_def by blast
  then show ?thesis by (simp add: db_reset_wal_def wal_reset_def Inr Let_def)
qed (simp add: db_reset_wal_def wal_reset_def)

lemma db_cascade_down:
  assumes "down (db_fs d) D"
  shows "\<exists>r d'. db_cascade xxh crc S d = Some (r, d') \<and> same_memory d d' \<and> db_fs d' = db_fs d"
proof -
  obtain r m where m: "maybe_compact xxh crc S (o_tier_fanout (db_options d)) (db_manifest d, db_fs d) = (r, (m, db_fs d))"
    and r: "r \<noteq> Inr True" by (rule maybe_compact_down [OF assms])
  have "\<exists>r'. cascade xxh crc S (o_tier_fanout (db_options d)) (db_manifest d, db_fs d) = Some (r', (m, db_fs d))"
    by (subst cascade.simps) (use m r in \<open>auto split: sum.split\<close>)
  then obtain r' where c: "cascade xxh crc S (o_tier_fanout (db_options d)) (db_manifest d, db_fs d) = Some (r', (m, db_fs d))" ..
  show ?thesis
    by (cases r') (auto simp: db_cascade_def c same_memory_def with_fs_def)
qed

text \<open>The whole flush, of an engine with no call in progress.\<close>

lemma flush_quiesced_ok:
  assumes up: "up (db_fs d)" and inv: "db_disk xxh crc dir E ws d (disk (db_fs d))" and mem: "mem_is ws d" and fan0: "2 \<le> o_tier_fanout (db_options d)"
    and room: "db_room (Suc b) U E ws d"
  shows "\<exists>r d'. flush_quiesced xxh crc S d = Some (r, d') \<and> same_memory d d' \<and>
     ((up (db_fs d') \<and> r = Inr () \<and> mem_is [] d' \<and> (\<exists>E'. db_disk xxh crc dir E' [] d' (disk (db_fs d'))
            \<and> db_content E' [] d' = db_content E ws d \<and> db_room b U E' [] d'))
       \<or> lost xxh crc dir {db_content E ws d} (db_fs d'))"
proof -
  let ?M = "db_content E ws d" and ?v = "db_version d"
  note rm = room [unfolded db_room_def]
  obtain r2 d2 where f2: "flush_frozen xxh crc S (frozen_tables (db_mem (freeze_active d))) (freeze_active d) = (r2, d2)" by force
  have fq: "flush_quiesced xxh crc S d = (case ok_then (r2, d2) (\<lambda>_. db_reset_wal S) of (r, d) \<Rightarrow>
      (case r of Inl e \<Rightarrow> Some (Inl e, d) | Inr _ \<Rightarrow> db_cascade xxh crc S d))"
    using f2 by (simp add: flush_quiesced_def Let_def)
  have lim: "entries_size ws + 100 < 2 ^ 32" "unat (v_next_id ?v) + 1 < 2 ^ 32" using rm by simp_all
  have 2: "same_memory d d2" and c2: "(up (db_fs d2) \<and> r2 = Inr () \<and> mem_is [] d2 \<and> active (db_wal d2) = active (db_wal d)
        \<and> (\<exists>E'. db_disk xxh crc dir E' ws d2 (disk (db_fs d2)) \<and> visible (version_levels E' (db_version d2)) = ?M
          \<and> db_content E' ws d2 = ?M
          \<and> total_size (version_levels E' (db_version d2)) \<le> entries_size ws + total_size (version_levels E ?v)
          \<and> unat (v_next_id (db_version d2)) + table_count (db_version d2) \<le> unat (v_next_id ?v) + table_count ?v + 2))
      \<or> lost xxh crc dir {?M} (db_fs d2)"
    using flush_memtable_ok [OF up inv mem lim f2] by simp_all
  have result: ?thesis if "flush_quiesced xxh crc S d = Some (r, d')" "same_memory d d'" "lost xxh crc dir {?M} (db_fs d')" for r d'
    using that by blast
  from c2 show ?thesis
  proof (elim disjE exE conjE)
    assume l: "lost xxh crc dir {?M} (db_fs d2)"
    then obtain D where D: "down (db_fs d2) D" by (auto simp: lost_def)
    obtain e where "db_reset_wal S d2 = (Inl e, d2)" using db_reset_wal_down [OF D] by blast
    then show ?thesis using 2 l by (intro result [of "case r2 of Inl e \<Rightarrow> Inl e | Inr _ \<Rightarrow> Inl e" d2]) (auto simp: fq split: sum.split)
  next
    fix E' assume e: "up (db_fs d2)" "r2 = Inr ()" "mem_is [] d2" "active (db_wal d2) = active (db_wal d)"
      "db_disk xxh crc dir E' ws d2 (disk (db_fs d2))" "visible (version_levels E' (db_version d2)) = ?M"
      and c: "db_content E' ws d2 = ?M"
      and e2: "total_size (version_levels E' (db_version d2)) \<le> entries_size ws + total_size (version_levels E ?v)"
      "unat (v_next_id (db_version d2)) + table_count (db_version d2) \<le> unat (v_next_id ?v) + table_count ?v + 2"
    obtain r3 d3 where f3: "db_reset_wal S d2 = (r3, d3)" by force
    have room3: "unat (seg_id (active (db_wal d2))) + 1 < 2 ^ 64" using rm e(4) by simp
    note rs = db_reset_wal_ok [OF e(1,5) trans [OF e(6) c [symmetric]] room3 f3, unfolded c]
    have sm3: "same_memory d d3" "db_mem d3 = db_mem d2" using rs same_memory_trans [OF 2] by blast+
    have fan: "2 \<le> o_tier_fanout (db_options d3)" using fan0 sm3(1) by (simp add: same_memory_def)
    show ?thesis
    proof (cases "lost xxh crc dir {?M} (db_fs d3)")
      case True
      then obtain D where D: "down (db_fs d3) D" by (auto simp: lost_def)
      obtain r4 d4 where c4: "db_cascade xxh crc S d3 = Some (r4, d4)" "same_memory d3 d4" "db_fs d4 = db_fs d3"
        using db_cascade_down [OF D] by blast
      show ?thesis
      proof (cases r3)
        case (Inl x)
        then show ?thesis using True sm3(1) by (intro result [of "Inl x" d3]) (simp_all add: fq e(2) f3)
      next
        case (Inr x)
        then show ?thesis using True c4 same_memory_trans [OF sm3(1) c4(2)]
          by (intro result [of r4 d4]) (simp_all add: fq e(2) f3)
      qed
    next
      case False
      then have g: "up (db_fs d3)" "r3 = Inr ()" "db_disk xxh crc dir E' [] d3 (disk (db_fs d3))" "db_version d3 = db_version d2"
        "unat (seg_id (active (db_wal d3))) = unat (seg_id (active (db_wal d2))) + 1"
        using rs by blast+
      have c3: "db_content E' [] d3 = ?M" using e(6) g(4) by (simp add: db_content_def)
      have lim3: "total_size (version_levels E' (db_version d3)) + 100 < 2 ^ 32"
        "unat (v_next_id (db_version d3)) + table_count (db_version d3) + 1 < 2 ^ 32"
        using rm e2 g(4) by simp_all
      obtain r4 d4 where c4: "db_cascade xxh crc S d3 = Some (r4, d4)" "same_memory d3 d4" "db_mem d4 = db_mem d3"
        and o4: "(up (db_fs d4) \<and> r4 = Inr () \<and> active (db_wal d4) = active (db_wal d3)
          \<and> (\<exists>E''. db_disk xxh crc dir E'' [] d4 (disk (db_fs d4)) \<and> rearranged E' (db_version d3) E'' (db_version d4)
            \<and> unat (v_next_id (db_version d4)) + table_count (db_version d4)
              \<le> unat (v_next_id (db_version d3)) + table_count (db_version d3)))
          \<or> lost xxh crc dir {?M} (db_fs d4)"
        by (rule db_cascade_ok [OF g(1,3) lim3 fan, unfolded c3])
      have fq4: "flush_quiesced xxh crc S d = Some (r4, d4)" using c4(1) by (simp add: fq e(2) f3 g(2))
      have sm4: "same_memory d d4" by (rule same_memory_trans [OF sm3(1) c4(2)])
      from o4 show ?thesis
      proof (elim disjE exE conjE)
        fix E'' assume h: "up (db_fs d4)" "r4 = Inr ()" "active (db_wal d4) = active (db_wal d3)"
          "db_disk xxh crc dir E'' [] d4 (disk (db_fs d4))" "rearranged E' (db_version d3) E'' (db_version d4)"
          "unat (v_next_id (db_version d4)) + table_count (db_version d4)
            \<le> unat (v_next_id (db_version d3)) + table_count (db_version d3)"
        have "levels_ok E' [] (db_version d3)" using db_diskD(5) [OF g(3)] .
        then have "db_content E'' [] d4 = ?M"
          using levels_ok_rearranged(2) [OF _ h(5)] c3 by (simp add: db_content_def)
        moreover have "db_room b U E'' [] d4"
          using rm e2 h(3,5,6) g(4,5) e(4) sm4 by (simp add: db_room_def same_memory_def rearranged_def)
        moreover have "mem_is [] d4" using e(3) c4(3) sm3(2) by (simp add: mem_is_def)
        ultimately show ?thesis using fq4 sm4 h(1,2,4) by blast
      qed (use fq4 sm4 in blast)
    qed
  qed
qed

end

end
