(* ===== verification/Db_Write.thy ===== *)
theory Db_Write imports Db_Flush begin

text \<open>
  Writing: a record is claimed, logged and applied, and a full memtable is flushed. A write that is
  acknowledged is in the content that any later power loss leaves; one that is not may or may not be.
\<close>

section \<open>Flushing under the write lock\<close>

lemma pending_inv [simp]:
  "db_disk xxh crc dir E ws (d\<lparr>db_write := (db_write d)\<lparr>ws_flush_pending := p\<rparr>\<rparr>) D = db_disk xxh crc dir E ws d D"
  "mem_is ws (d\<lparr>db_write := (db_write d)\<lparr>ws_flush_pending := p\<rparr>\<rparr>) = mem_is ws d"
  "db_content E ws (d\<lparr>db_write := (db_write d)\<lparr>ws_flush_pending := p\<rparr>\<rparr>) = db_content E ws d"
  "db_room b U E ws (d\<lparr>db_write := (db_write d)\<lparr>ws_flush_pending := p\<rparr>\<rparr>) = db_room b U E ws d"
  by (simp_all add: db_disk_def mem_is_def db_content_def db_room_def)

text \<open>What an operation leaves of the memory that later operations rely on.\<close>

definition stays_idle :: "nat \<Rightarrow> 'fs db \<Rightarrow> 'fs db \<Rightarrow> bool" where
  "stays_idle n d d' \<longleftrightarrow> db_idle d' \<and> db_dir d' = db_dir d
     \<and> unat (next_seq (coord (db_wal d'))) \<le> unat (next_seq (coord (db_wal d))) + n
     \<and> unat (ws_next_seq (db_write d')) = unat (ws_next_seq (db_write d)) + n"

context crash_fs
begin

lemma flush_locked_ok:
  assumes up: "up (db_fs d)" and inv: "db_disk xxh crc dir E ws d (disk (db_fs d))" and mem: "mem_is ws d" and idle: "db_idle d"
    and room: "db_room (Suc b) U E ws d"
  shows "\<exists>r d'. flush_locked xxh crc S d = Some (r, d') \<and> stays_idle 0 d d' \<and>
     ((up (db_fs d') \<and> r = Inr () \<and> mem_is [] d' \<and> (\<exists>E'. db_disk xxh crc dir E' [] d' (disk (db_fs d'))
            \<and> db_content E' [] d' = db_content E ws d \<and> db_room b U E' [] d'))
       \<or> lost xxh crc dir {db_content E ws d} (db_fs d'))"
proof -
  let ?d = "d\<lparr>db_write := (db_write d)\<lparr>ws_flush_pending := True\<rparr>\<rparr>"
  have fan: "2 \<le> o_tier_fanout (db_options ?d)" using idle by (simp add: db_idle_def)
  have "\<exists>r d'. flush_quiesced xxh crc S ?d = Some (r, d') \<and> same_memory ?d d' \<and>
     ((up (db_fs d') \<and> r = Inr () \<and> mem_is [] d' \<and> (\<exists>E'. db_disk xxh crc dir E' [] d' (disk (db_fs d'))
            \<and> db_content E' [] d' = db_content E ws ?d \<and> db_room b U E' [] d'))
       \<or> lost xxh crc dir {db_content E ws ?d} (db_fs d'))"
    by (rule flush_quiesced_ok [OF _ _ _ fan]) (use assms in simp_all)
  then obtain r d' where q: "flush_quiesced xxh crc S ?d = Some (r, d')" "same_memory ?d d'"
    and o: "(up (db_fs d') \<and> r = Inr () \<and> mem_is [] d' \<and> (\<exists>E'. db_disk xxh crc dir E' [] d' (disk (db_fs d'))
            \<and> db_content E' [] d' = db_content E ws d \<and> db_room b U E' [] d'))
       \<or> lost xxh crc dir {db_content E ws d} (db_fs d')" by auto
  let ?d' = "d'\<lparr>db_write := (db_write d')\<lparr>ws_flush_pending := False\<rparr>\<rparr>"
  have f: "flush_locked xxh crc S d = Some (r, ?d')"
    using q(1) idle by (simp add: flush_locked_def Let_def db_idle_def)
  have "stays_idle 0 d ?d'" using q(2) idle by (simp add: stays_idle_def same_memory_def db_idle_def)
  then show ?thesis using f o by (intro exI [of _ r] exI [of _ ?d']) simp
qed

text \<open>On a stopped backend a flush fails.\<close>

lemma flush_table_down:
  assumes "down (db_fs d) D"
  shows "\<exists>e d'. flush_table xxh crc S fz d = (Inl e, d') \<and> same_memory d d' \<and> db_fs d' = db_fs d"
proof -
  let ?v = "db_version d" and ?es = "snapshot (snd fz)"
  obtain e where "write_table xxh crc S (table_path (db_dir d) (v_next_id ?v)) (v_next_id ?v) (length ?es) ?es (db_fs d) = (Inl e, db_fs d)"
    using inert_write_table assms unfolding inert_def by blast
  then show ?thesis by (simp add: flush_table_step flush_step_def mem_call_def same_memory_def Let_def)
qed

lemma flush_quiesced_down:
  assumes "down (db_fs d) D"
  shows "\<exists>e d'. flush_quiesced xxh crc S d = Some (Inl e, d') \<and> same_memory d d' \<and> db_fs d' = db_fs d"
proof -
  let ?f = "freeze_active d"
  have f: "same_memory d ?f" "db_fs ?f = db_fs d" by (simp_all add: freeze_active_def same_memory_def)
  then have D: "down (db_fs ?f) D" using assms by simp
  have "\<exists>e d'. ok_then (flush_frozen xxh crc S (frozen_tables (db_mem ?f)) ?f) (\<lambda>_. db_reset_wal S) = (Inl e, d')
      \<and> same_memory ?f d' \<and> db_fs d' = db_fs d"
  proof (cases "frozen_tables (db_mem ?f)")
    case Nil
    then show ?thesis using db_reset_wal_down [OF D] f(2) by auto
  next
    case (Cons fz fzs)
    then show ?thesis using flush_table_down [OF D, of xxh crc fz] f(2) by auto
  qed
  then show ?thesis using same_memory_trans [OF f(1)] by (auto simp: flush_quiesced_def Let_def)
qed

lemma flush_locked_down:
  assumes d: "down (db_fs d) D" and idle: "db_idle d"
  shows "\<exists>e d'. flush_locked xxh crc S d = Some (Inl e, d') \<and> stays_idle 0 d d' \<and> db_fs d' = db_fs d"
proof -
  let ?d = "d\<lparr>db_write := (db_write d)\<lparr>ws_flush_pending := True\<rparr>\<rparr>"
  obtain e d' where e: "flush_quiesced xxh crc S ?d = Some (Inl e, d')" "same_memory ?d d'" "db_fs d' = db_fs d"
    using flush_quiesced_down [of ?d D xxh crc] d by auto
  let ?d' = "d'\<lparr>db_write := (db_write d')\<lparr>ws_flush_pending := False\<rparr>\<rparr>"
  have "flush_locked xxh crc S d = Some (Inl e, ?d')"
    using e(1) idle by (simp add: flush_locked_def Let_def db_idle_def)
  moreover have "stays_idle 0 d ?d'" using e(2) idle by (simp add: stays_idle_def same_memory_def db_idle_def)
  ultimately show ?thesis using e(3) by auto
qed

end

section \<open>One more record\<close>

lemma write_levels:
  assumes ok: "levels_ok E ws v" and below: "seqs_below n (mem_of ws # version_levels E v)" and fits: "kv_fits (k, \<lparr>seq = n, kind = vk\<rparr>)"
  shows "levels_ok E (ws @ [(k, \<lparr>seq = n, kind = vk\<rparr>)]) v"
    and "visible (mem_of (ws @ [(k, \<lparr>seq = n, kind = vk\<rparr>)]) # version_levels E v)
      = (visible (mem_of ws # version_levels E v))(k := as_value \<lparr>seq = n, kind = vk\<rparr>)"
    and "n < n' \<Longrightarrow> seqs_below n' (mem_of (ws @ [(k, \<lparr>seq = n, kind = vk\<rparr>)]) # version_levels E v)"
proof -
  let ?x = "\<lparr>seq = n, kind = vk\<rparr>"
  have m: "map_of (mem_of (ws @ [(k, ?x)])) k' = (if k' = k then Some ?x else map_of (mem_of ws) k')" for k'
    using below by (intro map_of_mem_of_newer) simp
  have s: "seqs_below n (version_levels E v)" using below by simp
  then have lt: "holds_version (version_levels E v) k' w \<Longrightarrow> seq w < n" for k' w by (auto simp: seqs_below_def)
  show "levels_ok E (ws @ [(k, ?x)]) v"
    using ok fits lt by (auto simp: levels_ok_def m split: if_splits)
  show "visible (mem_of (ws @ [(k, ?x)]) # version_levels E v) = (visible (mem_of ws # version_levels E v))(k := as_value ?x)"
    by (auto simp: visible_def fun_eq_iff m split: option.split)
  show "seqs_below n' (mem_of (ws @ [(k, ?x)]) # version_levels E v)" if "n < n'"
    using below s that by (auto simp: m intro: seqs_below_mono less_trans split: if_splits)
qed

context crash_fs
begin

lemma lost_log:
  assumes "down s D" and "durable_store xxh crc dir E v D" and "log_has crc dir (survivor s) (map rec_bytes wl)"
    and "levels_ok E wl v" and "visible (mem_of wl # version_levels E v) \<in> Ms"
  shows "lost xxh crc dir Ms s"
proof -
  have "stored xxh crc dir E v (survivor s)"
    using assms(2) cf_survivor [OF assms(1)] by (auto simp: durable_store_def)
  then have "db_image xxh crc dir (visible (mem_of wl # version_levels E v)) (survivor s)"
    using assms(3,4) by (auto simp: db_image_def stored_or_new_def)
  then show ?thesis using assms(1,5) by (auto simp: lost_def)
qed

text \<open>Logging one record; \<open>M'\<close> is the content with it.\<close>

lemma log_append_ok:
  assumes up: "up (db_fs d)" and inv: "db_disk xxh crc dir E ws d (disk (db_fs d))"
    and idle: "quiet_coord (coord (db_wal d))" "is_durable (o_durability (db_options d))"
    and kv: "kv_fits kv" "(\<exists>s D. down s D) \<longrightarrow> flip_safe crc (rec_bytes kv)" and lv: "levels_ok E (ws @ [kv]) (db_version d)"
    and room: "db_room (Suc b) (entries_size [kv] + U) E ws d"
    and M: "M = db_content E ws d" "M' = visible (mem_of (ws @ [kv]) # version_levels E (db_version d))"
  shows "\<exists>r W'. wal_append crc S (db_cfg d) (rec_bytes kv) (db_wal d) = Some (r, W')
    \<and> (r = Inr () \<longrightarrow> quiet_coord (coord W') \<and> unat (next_seq (coord W')) \<le> unat (next_seq (coord (db_wal d))) + 1)
    \<and> ((up (wfs W') \<and> r = Inr () \<and> store_inv xxh crc dir E (db_manifest d) (disk (wfs W'))
          \<and> readers_ok xxh crc dir (v_next_id (db_version d)) (db_readers d) (d_view (disk (wfs W')))
          \<and> log_at crc dir (disk (wfs W')) (active W') (map rec_bytes (ws @ [kv]))
          \<and> unat (seg_id (active W')) \<le> unat (seg_id (active (db_wal d))) + 1)
       \<or> lost xxh crc dir {M, M'} (wfs W') \<and> (r = Inr () \<longrightarrow> lost xxh crc dir {M'} (wfs W')))"
proof -
  note i = db_diskD [OF inv] and rm = room [unfolded db_room_def]
  let ?W = "db_wal d" and ?cfg = "db_cfg d" and ?x = "rec_bytes kv" and ?v = "db_version d" and ?recs = "map rec_bytes ws"
  obtain lead ps where wi: "wal_inv crc dir (disk (wfs ?W)) (active ?W) lead ps []" and recs: "concat (map snd lead) @ ps = ?recs"
    using i(3) by (auto simp: log_at_def)
  have lx: "length ?x < 2 ^ 32" using kv(1) length_rec_bytes [of kv] by (simp add: kv_fits_def)
  have "length (frames crc (ps @ [?x])) \<le> length (frames crc (map rec_bytes (ws @ [kv])))"
    by (simp add: recs [symmetric])
  also have "\<dots> \<le> 2 * entries_size (ws @ [kv])" by (rule length_log_frames)
  also have "\<dots> < 2 ^ 33" using rm by simp
  finally have adr: "addressable (frames crc (ps @ [?x]))" by (simp add: addressable_def)
  have cfg: "wal_dir ?cfg = dir" "is_durable (wal_durability ?cfg)" using i(1) idle by (simp_all add: db_cfg_def)
  have lim: "unat (seg_id (active ?W)) + 1 < 2 ^ 64" "unat (next_seq (coord ?W)) + 1 < 2 ^ 64" using rm by simp_all
  have wup: "w_up up ?W" using up by (simp add: w_up_def)
  obtain r W' where a: "wal_append crc S ?cfg ?x ?W = Some (r, W')"
    and c: "r = Inr () \<longrightarrow> quiet_coord (coord W') \<and> unat (next_seq (coord W')) \<le> unat (next_seq (coord ?W)) + 1"
    and o: "((r = Inr () \<and> w_up up W' \<and> (\<exists>lead' ps'. wal_inv crc dir (disk (wfs W')) (active W') lead' ps' []
          \<and> concat (map snd lead') @ ps' = ?recs @ [?x]) \<and> unat (seg_id (active W')) \<le> unat (seg_id (active ?W)) + 1)
      \<or> (\<exists>D. down (wfs W') D \<and> append_crash crc dir ?recs [?x] D
           \<and> (r = Inr () \<longrightarrow> durable_log crc dir D (?recs @ [?x]) [])))"
    using wal_append_durable [OF wup wi lx adr cfg lim idle(1) refl] unfolding recs by blast
  let ?F = "\<lambda>D. store_inv xxh crc dir E (db_manifest d) D \<and> readers_ok xxh crc dir (v_next_id ?v) (db_readers d) (d_view D)"
  have F: "log_closed dir ?F" by (intro log_closed_conj store_inv_log_closed readers_ok_log_closed)
  have "active_ok dir ?W" "alive up disk down ?F (wfs ?W)"
    using up i(2,4) wal_invD(9) [OF wi] by (simp_all add: active_ok_def alive_def)
  from append_keeps [OF F cfg(1) this a]
  have keep: "up (wfs W') \<and> ?F (disk (wfs W')) \<or> (\<exists>D. down (wfs W') D \<and> ?F D)"
    using up i(2,4) by (simp add: fs_step_def)
  from o have "(up (wfs W') \<and> r = Inr () \<and> ?F (disk (wfs W')) \<and> log_at crc dir (disk (wfs W')) (active W') (map rec_bytes (ws @ [kv]))
          \<and> unat (seg_id (active W')) \<le> unat (seg_id (active ?W)) + 1)
       \<or> lost xxh crc dir {M, M'} (wfs W') \<and> (r = Inr () \<longrightarrow> lost xxh crc dir {M'} (wfs W'))"
  proof (elim disjE exE conjE)
    fix D assume D: "down (wfs W') D" "append_crash crc dir ?recs [?x] D" "r = Inr () \<longrightarrow> durable_log crc dir D (?recs @ [?x]) []"
    then have "\<not> up (wfs W')" using cf_excl by blast
    then obtain D' where D': "down (wfs W') D'" "?F D'" using keep by blast
    have st: "durable_store xxh crc dir E ?v D'" using D'(2) store_inv_durable by blast
    have old: "lost xxh crc dir {M} (wfs W')" if "log_has crc dir (survivor (wfs W')) ?recs"
      using that i(5) M by (intro lost_log [OF D'(1) st]) (auto simp: db_content_def)
    have new: "lost xxh crc dir {M'} (wfs W')" if "log_has crc dir (survivor (wfs W')) (?recs @ [?x])"
      using that lv M by (intro lost_log [OF D'(1) st, where wl = "ws @ [kv]"]) auto
    have safe: "flip_safe crc ?x" using kv(2) D(1) by blast
    have "log_has crc dir (survivor (wfs W')) ?recs \<or> log_has crc dir (survivor (wfs W')) (?recs @ [?x])"
      using append_crash_log_has [of crc dir ?recs 1 ?x D, OF _ safe cf_survivor [OF D(1)]] D(2) by simp
    then have "lost xxh crc dir {M, M'} (wfs W')" using old new lost_mono by blast
    moreover have "lost xxh crc dir {M'} (wfs W')" if "r = Inr ()"
      using that D(3) durable_recoverable cf_survivor [OF D(1)] unfolding recoverable_def by (blast intro: new)
    ultimately show ?thesis by blast
  next
    fix lead' ps' assume u: "r = Inr ()" "w_up up W'" "wal_inv crc dir (disk (wfs W')) (active W') lead' ps' []"
      "concat (map snd lead') @ ps' = ?recs @ [?x]" "unat (seg_id (active W')) \<le> unat (seg_id (active ?W)) + 1"
    then have "up (wfs W')" by (simp add: w_up_def)
    moreover from this have "?F (disk (wfs W'))" using keep cf_excl by blast
    moreover have "log_at crc dir (disk (wfs W')) (active W') (map rec_bytes (ws @ [kv]))" using u(3,4) by (auto simp: log_at_def)
    ultimately show ?thesis using u(1,5) by blast
  qed
  then show ?thesis using a c by blast
qed

text \<open>A write, with the flush it may trigger.\<close>

definition db_good :: "hash128 \<Rightarrow> crc \<Rightarrow> path \<Rightarrow> content \<Rightarrow> nat \<Rightarrow> nat \<Rightarrow> 'fs db \<Rightarrow> bool" where
  "db_good xxh crc dir M b U d \<longleftrightarrow> up (db_fs d) \<and> db_idle d \<and> (\<exists>E ws. db_disk xxh crc dir E ws d (disk (db_fs d))
     \<and> mem_is ws d \<and> db_content E ws d = M \<and> db_room b U E ws d)"

lemma db_write_op_ok:
  assumes good: "db_good xxh crc dir M (Suc (Suc b)) (entries_size [kv] + U) d"
    and kv: "kv = (k, \<lparr>seq = ws_next_seq (db_write d), kind = vk\<rparr>)" "kv_fits kv" "(\<exists>s D. down s D) \<longrightarrow> flip_safe crc (rec_bytes kv)"
    and M': "M' = M(k := as_value (snd kv))"
  shows "\<exists>r d'. db_write_op xxh crc S k vk d = Some (r, d') \<and> (r = Inr () \<longrightarrow> stays_idle 1 d d')
    \<and> ((r = Inr () \<and> db_good xxh crc dir M' b U d')
      \<or> lost xxh crc dir {M, M'} (db_fs d') \<and> (r = Inr () \<longrightarrow> lost xxh crc dir {M'} (db_fs d')))"
proof -
  obtain E ws where inv: "db_disk xxh crc dir E ws d (disk (db_fs d))" and mem: "mem_is ws d"
    and M: "M = db_content E ws d" and room: "db_room (Suc (Suc b)) (entries_size [kv] + U) E ws d"
    and up: "up (db_fs d)" and idle: "db_idle d"
    using good by (auto simp: db_good_def)
  note i = db_diskD [OF inv] and rm = room [unfolded db_room_def]
  let ?sq = "ws_next_seq (db_write d)" and ?v = "db_version d"
  note lv = write_levels [OF i(5,7), of k vk, folded kv(1), OF kv(2)]
  let ?d1 = "d\<lparr>db_write := (db_write d)\<lparr>ws_next_seq := ?sq + 1, ws_in_flight := ws_in_flight (db_write d) + 1\<rparr>\<rparr>"
  obtain r W' where a: "wal_append crc S (db_cfg d) (rec_bytes kv) (db_wal d) = Some (r, W')"
    and c: "r = Inr () \<longrightarrow> quiet_coord (coord W') \<and> unat (next_seq (coord W')) \<le> unat (next_seq (coord (db_wal d))) + 1"
    and o: "(up (wfs W') \<and> r = Inr () \<and> store_inv xxh crc dir E (db_manifest d) (disk (wfs W'))
          \<and> readers_ok xxh crc dir (v_next_id ?v) (db_readers d) (d_view (disk (wfs W')))
          \<and> log_at crc dir (disk (wfs W')) (active W') (map rec_bytes (ws @ [kv]))
          \<and> unat (seg_id (active W')) \<le> unat (seg_id (active (db_wal d))) + 1)
       \<or> lost xxh crc dir {M, M'} (wfs W') \<and> (r = Inr () \<longrightarrow> lost xxh crc dir {M'} (wfs W'))"
    using log_append_ok [OF up inv _ _ kv(2,3) _ room M, of M'] lv idle M M' kv(1) by (simp add: db_idle_def db_content_def) blast
  have log: "write_log crc S ?sq k vk ?d1 = Some (r, ?d1\<lparr>db_wal := W'\<rparr>)"
    using a by (simp add: write_log_def rec_bytes_def kv(1) db_cfg_def)
  have claim: "write_claim d = Some (?sq, ?d1)" using idle by (simp add: write_claim_def db_idle_def Let_def)
  let ?d2 = "write_leave (write_apply ?sq k vk (?d1\<lparr>db_wal := W'\<rparr>))"
  have op: "db_write_op xxh crc S k vk d = (case r of Inl e \<Rightarrow> Some (Inl (Db_storage e), write_leave (?d1\<lparr>db_wal := W'\<rparr>))
      | Inr _ \<Rightarrow> if is_full (db_mem ?d2) then flush_locked xxh crc S ?d2 else Some (Inr (), ?d2))"
    unfolding db_write_op_def claim option.case prod.case log Let_def by (cases r) simp_all
  have sq: "unat (?sq + 1) = unat ?sq + 1" using rm by (intro unat_u64_Suc) simp
  then have sq_lt: "?sq < ?sq + 1" by (simp add: word_less_nat_alt)
  have fs2: "db_fs ?d2 = wfs W'" by (simp add: write_leave_def write_apply_def)
  have idle2: "stays_idle 1 d ?d2" if "r = Inr ()"
    using that c idle sq by (simp add: stays_idle_def db_idle_def write_leave_def write_apply_def)
  have idle2': "stays_idle 1 d d'" if "r = Inr ()" "stays_idle 0 ?d2 d'" for d'
    using idle2 [OF that(1)] that(2) by (simp add: stays_idle_def)
  have after: ?thesis if "db_write_op xxh crc S k vk d = Some (r', d')" "r' = Inr () \<longrightarrow> stays_idle 1 d d'"
      "(r' = Inr () \<and> db_good xxh crc dir M' b U d')
      \<or> lost xxh crc dir {M, M'} (db_fs d') \<and> (r' = Inr () \<longrightarrow> lost xxh crc dir {M'} (db_fs d'))" for r' d'
    using that by blast
  from o show ?thesis
  proof (elim disjE exE conjE)
    assume l: "lost xxh crc dir {M, M'} (wfs W')" "r = Inr () \<longrightarrow> lost xxh crc dir {M'} (wfs W')"
    show ?thesis
    proof (cases r)
      case (Inl e)
      then show ?thesis using l(1) by (intro after [of "Inl (Db_storage e)"]) (auto simp: op write_leave_def)
    next
      case (Inr u)
      then have r: "r = Inr ()" by simp
      show ?thesis
      proof (cases "is_full (db_mem ?d2)")
        case False
        then show ?thesis using l r idle2 by (intro after [of "Inr ()" ?d2]) (simp_all only: op fs2 sum.case if_False simp_thms)
      next
        case True
        obtain D where "down (db_fs ?d2) D" using l(1) fs2 by (auto simp: lost_def)
        moreover have "db_idle ?d2" using idle2 [OF r] by (simp add: stays_idle_def)
        ultimately obtain e d' where "flush_locked xxh crc S ?d2 = Some (Inl e, d')" "db_fs d' = db_fs ?d2"
          using flush_locked_down by blast
        then show ?thesis using l(1) r True fs2 by (intro after [of "Inl e" d']) (simp_all only: op fs2 sum.case if_True simp_thms sum.distinct)
      qed
    qed
  next
    assume u: "up (wfs W')" "r = Inr ()" "store_inv xxh crc dir E (db_manifest d) (disk (wfs W'))"
      "readers_ok xxh crc dir (v_next_id ?v) (db_readers d) (d_view (disk (wfs W')))"
      "log_at crc dir (disk (wfs W')) (active W') (map rec_bytes (ws @ [kv]))"
      "unat (seg_id (active W')) \<le> unat (seg_id (active (db_wal d))) + 1"
    have inv2: "db_disk xxh crc dir E (ws @ [kv]) ?d2 (disk (db_fs ?d2))"
      using i u lv(1) lv(3) [OF sq_lt] sq_lt by (simp add: db_disk_def write_leave_def write_apply_def)
    have mem2: "mem_is (ws @ [kv]) ?d2"
      using mem by (simp add: mem_is_def write_leave_def write_apply_def set_insert_if_newer_def kv(1) apply_writes_snoc)
    have c2: "db_content E (ws @ [kv]) ?d2 = M'"
      using lv(2) M M' kv(1) by (simp add: db_content_def write_leave_def write_apply_def)
    have room2: "db_room (Suc b) U E (ws @ [kv]) ?d2"
      using rm u(2,6) c sq by (simp add: db_room_def write_leave_def write_apply_def)
    have up2: "up (db_fs ?d2)" using u(1) fs2 by simp
    have id2: "db_idle ?d2" using idle2 [OF u(2)] by (simp add: stays_idle_def)
    show ?thesis
    proof (cases "is_full (db_mem ?d2)")
      case False
      have "db_room b U E (ws @ [kv]) ?d2" using room2 by (simp add: db_room_def)
      then have "db_good xxh crc dir M' b U ?d2" using up2 id2 inv2 mem2 c2 unfolding db_good_def by blast
      then show ?thesis using u(2) False idle2 by (intro after [of "Inr ()" ?d2]) (simp_all only: op sum.case if_False simp_thms)
    next
      case True
      obtain r' d' where f: "flush_locked xxh crc S ?d2 = Some (r', d')" "stays_idle 0 ?d2 d'"
        and o': "(up (db_fs d') \<and> r' = Inr () \<and> mem_is [] d' \<and> (\<exists>E'. db_disk xxh crc dir E' [] d' (disk (db_fs d'))
            \<and> db_content E' [] d' = M' \<and> db_room b U E' [] d'))
          \<or> lost xxh crc dir {M'} (db_fs d')"
        using flush_locked_ok [OF up2 inv2 mem2 id2 room2] unfolding c2 by blast
      have op': "db_write_op xxh crc S k vk d = Some (r', d')" using True f(1) u(2) by (simp add: op)
      have "db_idle d'" using f(2) by (simp add: stays_idle_def)
      then have "(r' = Inr () \<and> db_good xxh crc dir M' b U d') \<or> lost xxh crc dir {M'} (db_fs d')"
        using o' unfolding db_good_def by blast
      then show ?thesis using lost_mono [of xxh crc dir "{M'}" "db_fs d'" "{M, M'}"] idle2' [OF u(2) f(2)]
        by (intro after [OF op']) auto
    qed
  qed
qed

end

end
