(* ===== verification/Db_Open.thy ===== *)
theory Db_Open imports Db_Write Wal_Durability begin

text \<open>
  Opening: on a directory that a power loss left behind, or on an empty one, the engine comes up with
  the content of the directory, and a power loss while it opens changes nothing of it.
\<close>

lemma db_image_cong:
  assumes i: "db_image xxh crc dir M vw" and eq: "\<And>p. parent p = Some dir \<Longrightarrow> vw' p = vw p"
  shows "db_image xxh crc dir M vw'"
proof -
  obtain E v wl where s: "stored_or_new xxh crc dir E v vw" and l: "log_has crc dir vw (map rec_bytes wl)"
    "levels_ok E wl v" "M = visible (mem_of wl # version_levels E v)"
    using i by (auto simp: db_image_def)
  have e: "vw' (join dir MANIFEST_NAME) = vw (join dir MANIFEST_NAME)" "vw' (table_path dir tid) = vw (table_path dir tid)" for tid
    by (simp_all add: eq)
  have "stored_or_new xxh crc dir E v vw'" using s by (simp add: stored_or_new_def stored_def table_at_def e)
  moreover have "log_has crc dir vw' (map rec_bytes wl)" by (rule log_has_cong [OF l(1) eq])
  ultimately show ?thesis using l(2,3) unfolding db_image_def by blast
qed

lemma log_has_segments:
  assumes "log_has crc dir v recs" and eq: "\<And>p. parent p = Some dir \<Longrightarrow> parse_segment_id p \<noteq> None \<Longrightarrow> v' p = v p"
  shows "log_has crc dir v' recs"
proof -
  have c: "canonical_names dir (dom v') = canonical_names dir (dom v)"
    using eq by (simp add: canonical_names_def dom_def Ball_def) metis
  have s: "v' (segment_path dir i) = v (segment_path dir i)" for i by (rule eq) simp_all
  have "log_files crc dir v' lead t b" if "log_files crc dir v lead t b" for lead t b
    by (rule log_files_congI [OF that s]) (use c log_filesD(4) [OF that] in simp)
  then show ?thesis using assms(1) unfolding log_has_def c s by blast
qed

section \<open>The manifest\<close>

definition opened_manifest :: "path \<Rightarrow> version \<Rightarrow> manifest" where
  "opened_manifest dir v = \<lparr>m_dir = dir, m_current = (0, v), m_obsolete = [], m_next_arc = 1, m_pins = {#}\<rparr>"

abbreviation new_manifest_disk :: "crc \<Rightarrow> path \<Rightarrow> disk \<Rightarrow> disk" where
  "new_manifest_disk crc dir D \<equiv> disk_replace dir (join dir MANIFEST_TMP) (join dir MANIFEST_NAME) (encode_version crc version_empty) D"

lemma stored_empty: "vw (join dir MANIFEST_NAME) = Some (encode_version crc version_empty) \<Longrightarrow> stored xxh crc dir E version_empty vw"
  by (simp add: stored_def version_fits_def version_empty_def all_tables_def version_wf_def)

text \<open>Every table of a version on a settled directory is settled.\<close>

lemma settled_file_settled: "settled dir D \<Longrightarrow> parent p = Some dir \<Longrightarrow> d_view D p = Some c \<Longrightarrow> file_settled D p c"
  using settledD [of dir D p] by (auto simp: file_settled_def)

lemma store_settled:
  assumes set: "settled dir D" and st: "stored xxh crc dir E v (d_view D)"
  shows "store_disk xxh crc dir E v D"
    and "(\<And>tid. v_next_id v \<le> tid \<Longrightarrow> d_view D (table_path dir tid) = None)
      \<Longrightarrow> store_inv xxh crc dir E (opened_manifest dir v) D"
proof -
  have f: "d_view D p = Some c \<Longrightarrow> parent p = Some dir \<Longrightarrow> file_settled D p c" for p c
    using settled_file_settled [OF set] by blast
  have "settled_table xxh crc D dir t (E (tm_id t))" if t: "t \<in> set (all_tables v)" for t
  proof -
    obtain img where "meta_of t (E (tm_id t))" "d_view D (table_path dir (tm_id t)) = Some img"
      "holds_table xxh crc (map entry_of (E (tm_id t))) img"
      using bspec [OF _ t] st unfolding stored_def table_at_def by blast
    then show ?thesis using f [of "table_path dir (tm_id t)" img] unfolding settled_table_def by auto
  qed
  then show sd: "store_disk xxh crc dir E v D"
    using st f [of "join dir MANIFEST_NAME"] by (simp add: store_disk_def stored_def)
  show "store_inv xxh crc dir E (opened_manifest dir v) D"
    if "\<And>tid. v_next_id v \<le> tid \<Longrightarrow> d_view D (table_path dir tid) = None"
    using sd st that by (auto simp: store_inv_def stored_def opened_manifest_def ids_below_def live_ids_def referenced_ids_def version_wf_def)
qed

context crash_fs
begin

lemma manifest_open_stored:
  assumes "up s" and "stored xxh crc dir E v (d_view (disk s))"
  shows "manifest_open crc S dir s = (Inr (opened_manifest dir v), s)"
proof -
  have v: "d_view (disk s) (join dir MANIFEST_NAME) = Some (encode_version crc v)" "version_fits v"
    using assms(2) by (simp_all add: stored_def)
  have "st_open S (join dir MANIFEST_NAME) s = Inr ()" "st_len S (join dir MANIFEST_NAME) s = Inr (length (encode_version crc v))"
    "st_read_at S (join dir MANIFEST_NAME) 0 (length (encode_version crc v)) s = Inr (encode_version crc v)"
    using fs_open [OF assms(1)] fs_len [OF assms(1)] fs_read_at [OF assms(1) v(1), of 0] v(1) by simp_all
  then show ?thesis by (simp add: manifest_open_def Let_def decode_encode_version [OF v(2)] opened_manifest_def)
qed

lemma manifest_open_new:
  assumes s: "up s" and "d_view (disk s) (join dir MANIFEST_NAME) = None"
  shows "runs up disk down (manifest_open crc S dir)
    (\<lambda>D. d_images D = d_images (disk s) \<or> D = new_manifest_disk crc dir (disk s))
    (\<lambda>r D. r = Inr (opened_manifest dir version_empty) \<and> D = new_manifest_disk crc dir (disk s)) s"
proof -
  have "st_open S (join dir MANIFEST_NAME) s = Inl (NotFound (join dir MANIFEST_NAME))"
    using fs_open [OF s] assms(2) by simp
  then have e: "manifest_open crc S dir s = ok_then (write_manifest crc S dir version_empty s)
      (\<lambda>_ s. (Inr (opened_manifest dir version_empty), s))"
    by (simp add: manifest_open_def Let_def opened_manifest_def ok_then_assoc)
  have "runs up disk down (\<lambda>s. ok_then (write_manifest crc S dir version_empty s)
      (\<lambda>_ s. (Inr (opened_manifest dir version_empty), s)))
    (\<lambda>D. d_images D = d_images (disk s) \<or> D = new_manifest_disk crc dir (disk s))
    (\<lambda>r D. r = Inr (opened_manifest dir version_empty) \<and> D = new_manifest_disk crc dir (disk s)) s"
    by (intro runs_then_pure runs_write_manifest [OF s]) simp_all
  then show ?thesis by (simp add: runs_def e)
qed

text \<open>Either way the version is the one on disk, and the rest of the directory is as it was.\<close>

lemma manifest_open_ok:
  assumes s: "up s" and set: "settled dir (disk s)" and st: "stored_or_new xxh crc dir E v (d_view (disk s))"
    and i: "db_image xxh crc dir M (d_view (disk s))" and o: "manifest_open crc S dir s = (r, s')"
  shows "(up s' \<and> r = Inr (opened_manifest dir v) \<and> settled dir (disk s') \<and> stored xxh crc dir E v (d_view (disk s'))
      \<and> (\<forall>p. p \<noteq> join dir MANIFEST_NAME \<longrightarrow> p \<noteq> join dir MANIFEST_TMP \<longrightarrow> d_view (disk s') p = d_view (disk s) p))
    \<or> lost xxh crc dir {M} s'"
proof (cases "stored xxh crc dir E v (d_view (disk s))")
  case True
  then show ?thesis using manifest_open_stored [OF s True] o s set by simp
next
  case False
  then have n: "v = version_empty" "d_view (disk s) (join dir MANIFEST_NAME) = None"
    using st by (simp_all add: stored_or_new_def)
  let ?D = "new_manifest_disk crc dir (disk s)"
  have tmp: "join dir MANIFEST_TMP \<noteq> join dir MANIFEST_NAME" by (rule manifest_names_ne)
  note rep = settled_replace [OF set parent_join parent_join tmp, where d = "encode_version crc version_empty"]
  have st': "stored xxh crc dir E v (d_view ?D)" unfolding n(1) by (rule stored_empty) (simp add: rep(2))
  have keep: "d_view ?D p = d_view (disk s) p" if "p \<noteq> join dir MANIFEST_NAME" "p \<noteq> join dir MANIFEST_TMP" for p
    using that by (simp add: rep(2))
  from manifest_open_new [OF s n(2), of crc] show ?thesis unfolding runs_def o fst_conv snd_conv
  proof (elim disjE exE conjE)
    fix D assume d: "down s' D" "d_images D = d_images (disk s)"
    then have "parent p = Some dir \<Longrightarrow> survivor s' p = d_view (disk s) p" for p
      using cf_survivor [OF d(1), of p] settledD(1) [OF set, of p] by simp
    then have "db_image xxh crc dir M (survivor s')" by (rule db_image_cong [OF i])
    then show ?thesis using d(1) by (auto simp: lost_def)
  next
    fix D assume d: "down s' D" "D = ?D"
    obtain E0 v0 wl where i0: "stored_or_new xxh crc dir E0 v0 (d_view (disk s))" "log_has crc dir (d_view (disk s)) (map rec_bytes wl)"
      "levels_ok E0 wl v0" "M = visible (mem_of wl # version_levels E0 v0)"
      using i by (auto simp: db_image_def)
    have "v0 = version_empty" using i0(1) n(2) by (auto simp: stored_or_new_def stored_def)
    then have "stored xxh crc dir E0 v0 (d_view ?D)" by (auto intro: stored_empty simp: rep(2))
    moreover have "log_has crc dir (d_view ?D) (map rec_bytes wl)" by (rule log_has_segments [OF i0(2)]) (auto simp: rep(2))
    ultimately have "db_image xxh crc dir M (d_view ?D)" using i0(3,4) by (auto simp: db_image_def stored_or_new_def)
    moreover have "parent p = Some dir \<Longrightarrow> survivor s' p = d_view ?D p" for p
      using cf_survivor [OF d(1), of p] settledD(1) [OF rep(1), of p] d(2) by simp
    ultimately show ?thesis using d(1) db_image_cong by (fastforce simp: lost_def)
  qed (use rep st' keep n(1) in auto)
qed

end

section \<open>The log, the memtable and the engine\<close>

lemma store_disk_log_closed: "log_closed dir (\<lambda>D. store_disk xxh crc dir E v D)"
  unfolding store_disk_def Ball_def
  by (intro log_closed_rules file_settled_log_closed settled_table_log_closed log_path_not_store)

lemma next_after_bounds:
  assumes "\<And>kv. kv \<in> set ws \<Longrightarrow> unat (seq (snd kv)) < N" and "unat sq \<le> N" and "N < 2 ^ 64"
  shows "sq \<le> next_after ws sq \<and> unat (next_after ws sq) \<le> N \<and> (\<forall>kv\<in>set ws. seq (snd kv) < next_after ws sq)"
  using assms
proof (induction ws arbitrary: sq)
  case (Cons kv ws)
  let ?m = "max sq (seq (snd kv) + 1)"
  have lt: "unat (seq (snd kv)) < N" using Cons.prems(1) by simp
  then have u: "unat (seq (snd kv) + 1) = unat (seq (snd kv)) + 1" using Cons.prems(3) by (intro unat_u64_Suc) simp
  then have "unat ?m \<le> N" using lt Cons.prems(2) by (simp add: max_def)
  then have "?m \<le> next_after ws ?m \<and> unat (next_after ws ?m) \<le> N \<and> (\<forall>kv\<in>set ws. seq (snd kv) < next_after ws ?m)"
    using Cons.prems(1,3) by (intro Cons.IH) auto
  moreover have "seq (snd kv) < seq (snd kv) + 1" using u by (simp add: word_less_nat_alt)
  ultimately show ?case by (auto simp: next_after_def)
qed (simp add: next_after_def)

lemma db_open_memory:
  assumes "db_open crc S dir opts s = (Inr d, s')"
  shows "db_fs d = s'" and "coord (db_wal d) = default_coord" and "db_options d = opts" and "db_dir d = dir"
    and "ws_in_flight (db_write d) = 0" and "\<not> ws_flush_pending (db_write d)"
proof -
  obtain m w rec s1 where o: "wal_open crc S dir s1 = (Inr (w, rec), s')" "db_wal d = w" "db_options d = opts" "db_dir d = dir"
    "ws_in_flight (db_write d) = 0" "\<not> ws_flush_pending (db_write d)"
  proof -
    obtain mr s1 where m: "manifest_open crc S dir s = (mr, s1)" by force
    obtain wr s2 where w: "wal_open crc S dir s1 = (wr, s2)" by force
    obtain m x where "mr = Inr m" "wr = Inr x"
      using assms by (cases mr; cases wr) (auto simp: db_open_def m w)
    then show thesis using assms m w that [of s1] by (auto simp: db_open_def split: sum.splits prod.splits)
  qed
  moreover have "coord w = default_coord"
    using o(1) by (auto simp: wal_open_def ok_then_def split: sum.splits prod.splits if_splits)
  ultimately show "db_fs d = s'" "coord (db_wal d) = default_coord" "db_options d = opts" "db_dir d = dir"
    "ws_in_flight (db_write d) = 0" "\<not> ws_flush_pending (db_write d)"
    using wal_open_wfs by auto
qed

lemma db_open_idle:
  assumes "db_open crc S dir opts s = (Inr d, s')" and "is_durable (o_durability opts)" and "2 \<le> o_tier_fanout opts"
  shows "db_idle d"
  using db_open_memory [OF assms(1)] assms(2,3) by (simp add: db_idle_def quiet_coord_def default_coord_def)

text \<open>What opening finds: the version \<open>v\<close> of the manifest, and the log's records in the memtable.\<close>

definition db_opened ::
  "hash128 \<Rightarrow> crc \<Rightarrow> path \<Rightarrow> (u64 \<Rightarrow> entry list) \<Rightarrow> version \<Rightarrow> entry list \<Rightarrow> u64 set \<Rightarrow> 'fs db \<Rightarrow> disk \<Rightarrow> bool" where
  "db_opened xxh crc dir E v wl T d D \<longleftrightarrow> db_manifest d = opened_manifest dir v \<and> db_readers d = (\<lambda>_. None)
     \<and> mem_is wl d \<and> ws_next_seq (db_write d) = next_after wl (v_next_seq v)
     \<and> log_at crc dir D (active (db_wal d)) (map rec_bytes wl) \<and> seg_id (active (db_wal d)) \<in> T
     \<and> store_disk xxh crc dir E v D"

context crash_fs
begin

lemma wal_open_frame:
  assumes o: "wal_open crc S dir s = (r, s')" and F: "log_closed dir F"
  shows "up s \<Longrightarrow> F (disk s) \<Longrightarrow> up s' \<and> F (disk s') \<or> (\<exists>D. down s' D \<and> F D)" and "down s D \<Longrightarrow> s' = s"
  using keeps_open [OF F, of crc] o unfolding keeps_def alive_def fs_step_def by fastforce+

lemma db_open_lost:
  assumes m: "manifest_open crc S dir s = (rm, s1)" and l: "lost xxh crc dir Ms s1" and o: "db_open crc S dir opts s = (r, s')"
  shows "lost xxh crc dir Ms s'"
proof -
  obtain D where D: "down s1 D" using l by (auto simp: lost_def)
  obtain wr s2 where w: "wal_open crc S dir s1 = (wr, s2)" by force
  have "s2 = s1" by (rule wal_open_frame(2) [OF w log_closed_const D])
  then have "s' = s1"
    using o m w by (cases rm; cases wr) (auto simp: db_open_def split: sum.splits prod.splits)
  then show ?thesis using l by simp
qed

lemma db_open_ok:
  assumes s: "up s" and set: "settled dir (disk s)" and st: "stored_or_new xxh crc dir E v (d_view (disk s))"
    and log: "log_has crc dir (d_view (disk s)) (map rec_bytes wl)" and lv: "levels_ok E wl v"
    and M: "M = visible (mem_of wl # version_levels E v)"
    and T: "insert 1 {i. d_view (disk s) (segment_path dir i) \<noteq> None} \<subseteq> T"
    and o: "db_open crc S dir opts s = (r, s')"
  shows "(\<exists>d. r = Inr d \<and> up s' \<and> db_opened xxh crc dir E v wl T d (disk s')
      \<and> ((\<forall>tid. v_next_id v \<le> tid \<longrightarrow> d_view (disk s) (table_path dir tid) = None)
           \<longrightarrow> store_inv xxh crc dir E (db_manifest d) (disk s')))
    \<or> lost xxh crc dir {M} s'"
proof -
  let ?m = "opened_manifest dir v"
  have img: "db_image xxh crc dir M (d_view (disk s))" using st log lv M by (auto simp: db_image_def)
  obtain rm s1 where m: "manifest_open crc S dir s = (rm, s1)" by force
  show ?thesis
  proof (cases "lost xxh crc dir {M} s1")
    case True
    then show ?thesis using db_open_lost [OF m True o] by simp
  next
    case False
    then have m1: "up s1" "rm = Inr ?m" "settled dir (disk s1)" "stored xxh crc dir E v (d_view (disk s1))"
      and keep: "p \<noteq> join dir MANIFEST_NAME \<Longrightarrow> p \<noteq> join dir MANIFEST_TMP \<Longrightarrow> d_view (disk s1) p = d_view (disk s) p" for p
      using manifest_open_ok [OF s set st img m] by blast+
    have log1: "log_has crc dir (d_view (disk s1)) (map rec_bytes wl)"
      by (rule log_has_segments [OF log]) (auto intro: keep)
    have seg: "d_view (disk s1) (segment_path dir i) = d_view (disk s) (segment_path dir i)" for i
      by (rule keep) (auto dest: arg_cong [where f = parse_segment_id])
    have tab: "d_view (disk s1) (table_path dir t) = d_view (disk s) (table_path dir t)" for t
      by (rule keep) (auto dest: arg_cong [where f = parse_table_id])
    let ?Q = "\<forall>tid. v_next_id v \<le> tid \<longrightarrow> d_view (disk s) (table_path dir tid) = None"
    let ?F = "\<lambda>D. store_disk xxh crc dir E v D \<and> (?Q \<longrightarrow> store_inv xxh crc dir E ?m D)"
    have F: "log_closed dir ?F" by (intro log_closed_conj log_closed_imp store_disk_log_closed store_inv_log_closed)
    have F1: "?F (disk s1)" using store_settled [OF m1(3,4)] tab by auto
    obtain wr s2 where w: "wal_open crc S dir s1 = (wr, s2)" by force
    note fr = wal_open_frame(1) [OF w F m1(1) F1]
    have run: "runs up disk down (wal_open crc S dir) (\<lambda>D. recoverable crc dir D (map rec_bytes wl)) (opened crc dir (map rec_bytes wl) T) s1"
      by (rule runs_wal_open [OF m1(1,3) log1]) (use T seg in simp)
    have s': "s' = s2" using o m m1(2) w by (cases wr) (auto simp: db_open_def split: sum.splits prod.splits)
    from run show ?thesis unfolding runs_def w fst_conv snd_conv
    proof (elim disjE exE conjE)
      fix D assume D: "down s2 D" "recoverable crc dir D (map rec_bytes wl)"
      then obtain D' where "down s2 D'" "?F D'" using fr cf_excl by blast
      then have "lost xxh crc dir {M} s2"
        using lost_parts [OF _ _ D lv, of D'] store_disk_durable M by blast
      then show ?thesis using s' by simp
    next
      assume u: "up s2" "opened crc dir (map rec_bytes wl) T wr (disk s2)"
      then obtain W rec lead ps where W: "wr = Inr (W, rec)" "records rec = map rec_bytes wl" "seg_id (active W) \<in> T"
        "wal_inv crc dir (disk s2) (active W) lead ps []" "concat (map snd lead) @ ps = map rec_bytes wl"
        by (auto simp: opened_def)
      have F2: "?F (disk s2)" using fr u(1) cf_excl by blast
      have "list_all kv_fits wl" using lv by (simp add: levels_ok_def)
      from replay_records [OF this] have "db_open crc S dir opts s = (Inr \<lparr>db_dir = dir, db_options = opts, db_wal = W,
          db_mem = (set_new (o_memtable_size opts))\<lparr>active_table := apply_writes wl memtable_new\<rparr>, db_manifest = ?m,
          db_readers = (\<lambda>_. None), db_write = \<lparr>ws_next_seq = next_after wl (v_next_seq v), ws_in_flight = 0, ws_flush_pending = False\<rparr>\<rparr>, s2)"
        by (simp add: db_open_def m m1(2) w W(1,2) opened_manifest_def set_new_def)
      then show ?thesis using o u(1) F2 W(3-5)
        by (intro disjI1) (auto simp: db_opened_def mem_is_def set_new_def log_at_def)
    qed
  qed
qed

end

end
