(* ===== verification/Db_Session.thy ===== *)
theory Db_Session imports Db_Open begin

text \<open>
  A client's session: the engine is opened, a sequence of puts, deletes and flushes is run until the
  first error, and after every acknowledged call the content is that of a map updated in the same
  order. A power loss anywhere in the session leaves the content after the acknowledged calls, or
  after one more.
\<close>

section \<open>Sessions and their specification\<close>

datatype db_op = Op_put bytes bytes | Op_delete bytes | Op_flush

fun db_op_run :: "hash128 \<Rightarrow> crc \<Rightarrow> 'fs storage \<Rightarrow> db_op \<Rightarrow> 'fs db \<Rightarrow> ((db_error + unit) \<times> 'fs db) option" where
  "db_op_run xxh crc S (Op_put k v) d = db_put xxh crc S k v d"
| "db_op_run xxh crc S (Op_delete k) d = db_delete xxh crc S k d"
| "db_op_run xxh crc S Op_flush d = db_flush xxh crc S d"

text \<open>How many calls were acknowledged, and the engine after the last one.\<close>

fun db_ops_run :: "hash128 \<Rightarrow> crc \<Rightarrow> 'fs storage \<Rightarrow> db_op list \<Rightarrow> 'fs db \<Rightarrow> (nat \<times> 'fs db) option" where
  "db_ops_run xxh crc S [] d = Some (0, d)"
| "db_ops_run xxh crc S (x # xs) d =
     (case db_op_run xxh crc S x d of None \<Rightarrow> None
      | Some (r, d) \<Rightarrow>
          (case r of Inl e \<Rightarrow> Some (0, d)
           | Inr _ \<Rightarrow> map_option (\<lambda>(n, d). (Suc n, d)) (db_ops_run xxh crc S xs d)))"

definition db_session ::
  "hash128 \<Rightarrow> crc \<Rightarrow> 'fs storage \<Rightarrow> path \<Rightarrow> options \<Rightarrow> db_op list \<Rightarrow> 'fs \<Rightarrow> (nat \<times> 'fs) option" where
  "db_session xxh crc S dir opts xs s =
     (case db_open crc S dir opts s of
        (Inl _, s) \<Rightarrow> Some (0, s)
      | (Inr d, _) \<Rightarrow> map_option (\<lambda>(n, d). (n, db_fs d)) (db_ops_run xxh crc S xs d))"

fun map_op :: "db_op \<Rightarrow> content \<Rightarrow> content" where
  "map_op (Op_put k v) M = M(k \<mapsto> v)"
| "map_op (Op_delete k) M = M(k := None)"
| "map_op Op_flush M = M"

definition map_ops :: "db_op list \<Rightarrow> content \<Rightarrow> content" where
  "map_ops xs M = fold map_op xs M"

lemma map_ops_simps [simp]: "map_ops [] M = M" "map_ops (x # xs) M = map_ops xs (map_op x M)"
  by (simp_all add: map_ops_def)

text \<open>The records that the calls write, numbered from \<open>sq\<close>.\<close>

fun op_writes :: "u64 \<Rightarrow> db_op list \<Rightarrow> entry list" where
  "op_writes sq [] = []"
| "op_writes sq (Op_put k v # xs) = (k, \<lparr>seq = sq, kind = Value v\<rparr>) # op_writes (sq + 1) xs"
| "op_writes sq (Op_delete k # xs) = (k, \<lparr>seq = sq, kind = Tombstone\<rparr>) # op_writes (sq + 1) xs"
| "op_writes sq (Op_flush # xs) = op_writes sq xs"

definition op_width :: "db_op \<Rightarrow> nat" where
  "op_width x = (case x of Op_flush \<Rightarrow> 0 | _ \<Rightarrow> 1)"

lemma op_writes_Cons: "op_writes sq (x # xs) = op_writes sq [x] @ op_writes (sq + of_nat (op_width x)) xs"
  by (cases x) (simp_all add: op_width_def)

text \<open>The records fit the lengths of the formats, and where the power may fail the checksum tells
  each of them from its damaged copies.\<close>

definition writes_fit :: "bool \<Rightarrow> crc \<Rightarrow> entry list \<Rightarrow> bool" where
  "writes_fit crashes crc ws \<longleftrightarrow> list_all (\<lambda>kv. kv_fits kv \<and> (crashes \<longrightarrow> flip_safe crc (rec_bytes kv))) ws"

lemma writes_fit_mono: "writes_fit True crc ws \<Longrightarrow> writes_fit b crc ws"
  by (simp add: writes_fit_def list_all_iff)

lemma entries_size_append [simp]: "entries_size (xs @ ys) = entries_size xs + entries_size ys"
  by (simp add: entries_size_def)

section \<open>Running\<close>

context crash_fs
begin

lemma db_op_run_ok:
  assumes good: "db_good xxh crc dir M (Suc (Suc b)) (entries_size (op_writes (ws_next_seq (db_write d)) [x]) + U) d"
    and fit: "writes_fit (\<exists>s D. down s D) crc (op_writes (ws_next_seq (db_write d)) [x])"
  shows "\<exists>r d'. db_op_run xxh crc S x d = Some (r, d') \<and> (r = Inr () \<longrightarrow> stays_idle (op_width x) d d')
    \<and> ((r = Inr () \<and> db_good xxh crc dir (map_op x M) b U d')
      \<or> lost xxh crc dir {M, map_op x M} (db_fs d') \<and> (r = Inr () \<longrightarrow> lost xxh crc dir {map_op x M} (db_fs d')))"
proof (cases x)
  case (Op_put k v)
  then show ?thesis
    using db_write_op_ok [of xxh crc dir M b "(k, \<lparr>seq = ws_next_seq (db_write d), kind = Value v\<rparr>)" U d k "Value v" "M(k \<mapsto> v)"] assms
    by (simp add: db_put_def op_width_def writes_fit_def as_value_def)
next
  case (Op_delete k)
  then show ?thesis
    using db_write_op_ok [of xxh crc dir M b "(k, \<lparr>seq = ws_next_seq (db_write d), kind = Tombstone\<rparr>)" U d k Tombstone "M(k := None)"] assms
    by (simp add: db_delete_def op_width_def writes_fit_def as_value_def)
next
  case Op_flush
  obtain E ws where g: "up (db_fs d)" "db_idle d" "db_disk xxh crc dir E ws d (disk (db_fs d))" "mem_is ws d"
    "db_content E ws d = M" "db_room (Suc (Suc b)) U E ws d"
    using good Op_flush by (auto simp: db_good_def entries_size_def)
  have room: "db_room (Suc b) U E ws d" using g(6) by (simp add: db_room_def)
  obtain r d' where f: "flush_locked xxh crc S d = Some (r, d')" "stays_idle 0 d d'"
    and o: "(up (db_fs d') \<and> r = Inr () \<and> mem_is [] d' \<and> (\<exists>E'. db_disk xxh crc dir E' [] d' (disk (db_fs d'))
            \<and> db_content E' [] d' = M \<and> db_room b U E' [] d')) \<or> lost xxh crc dir {M} (db_fs d')"
    using flush_locked_ok [OF g(1,3,4,2) room] unfolding g(5) by blast
  have "db_idle d'" using f(2) by (simp add: stays_idle_def)
  then have "(r = Inr () \<and> db_good xxh crc dir M b U d') \<or> lost xxh crc dir {M} (db_fs d')"
    using o unfolding db_good_def by blast
  then show ?thesis using f by (auto simp: Op_flush db_flush_def op_width_def)
qed

lemma db_op_run_down:
  assumes d: "down (db_fs d) D" and idle: "db_idle d" and room: "unat (next_seq (coord (db_wal d))) + 1 < 2 ^ 64"
  shows "\<exists>e d'. db_op_run xxh crc S x d = Some (Inl e, d') \<and> db_fs d' = db_fs d"
proof -
  have wr: "\<exists>e d'. db_write_op xxh crc S k vk d = Some (Inl e, d') \<and> db_fs d' = db_fs d" for k vk
  proof -
    let ?x = "encode_record (ws_next_seq (db_write d)) k vk"
    have q: "is_durable (wal_durability (db_cfg d))" "quiet_coord (coord (db_wal d))" using idle by (simp_all add: db_idle_def db_cfg_def)
    obtain e W' where a: "wal_append crc S (db_cfg d) ?x (db_wal d) = Some (Inl e, W')" "wfs W' = wfs (db_wal d)"
      by (rule wal_append_down [OF d q room])
    have "\<exists>d1. db_write_op xxh crc S k vk d = Some (Inl (Db_storage e), write_leave (d1\<lparr>db_wal := W'\<rparr>))"
      using a(1) idle by (simp add: db_write_op_def write_claim_def write_log_def db_idle_def db_cfg_def Let_def) blast
    then show ?thesis using a(2) by (auto simp: write_leave_def)
  qed
  show ?thesis
  proof (cases x)
    case Op_flush
    then show ?thesis using flush_locked_down [OF d idle] by (simp add: db_flush_def) blast
  qed (use wr in \<open>simp_all add: db_put_def db_delete_def\<close>)
qed

lemma db_ops_run_down:
  assumes "down (db_fs d) D" and "db_idle d" and "unat (next_seq (coord (db_wal d))) + 1 < 2 ^ 64"
  shows "\<exists>d'. db_ops_run xxh crc S xs d = Some (0, d') \<and> db_fs d' = db_fs d"
proof (cases xs)
  case (Cons x xs')
  from db_op_run_down [OF assms, of xxh crc x] show ?thesis by (auto simp: Cons)
qed simp

lemma db_ops_run_ok:
  assumes "db_good xxh crc dir M (2 * length xs + b) (entries_size (op_writes (ws_next_seq (db_write d)) xs) + U) d"
    and "writes_fit (\<exists>s D. down s D) crc (op_writes (ws_next_seq (db_write d)) xs)"
  shows "\<exists>n d'. db_ops_run xxh crc S xs d = Some (n, d') \<and> n \<le> length xs
    \<and> ((n = length xs \<and> db_good xxh crc dir (map_ops xs M) b U d')
      \<or> lost xxh crc dir {map_ops (take n xs) M, map_ops (take (Suc n) xs) M} (db_fs d'))"
  using assms
proof (induction xs arbitrary: d M)
  case Nil
  then show ?case by (simp add: entries_size_def)
next
  case (Cons x xs)
  let ?sq = "ws_next_seq (db_write d)" and ?b = "2 * length xs + b"
  let ?sq' = "?sq + of_nat (op_width x)" let ?U = "entries_size (op_writes ?sq' xs) + U"
  note w = op_writes_Cons [of ?sq x xs]
  have good: "db_good xxh crc dir M (Suc (Suc ?b)) (entries_size (op_writes ?sq [x]) + ?U) d"
    using Cons.prems(1) unfolding w by (simp add: add.assoc)
  have fit: "writes_fit (\<exists>s D. down s D) crc (op_writes ?sq [x])" "writes_fit (\<exists>s D. down s D) crc (op_writes ?sq' xs)"
    using Cons.prems(2) unfolding w by (simp_all add: writes_fit_def)
  obtain r d1 where r: "db_op_run xxh crc S x d = Some (r, d1)" "r = Inr () \<longrightarrow> stays_idle (op_width x) d d1"
    and o: "(r = Inr () \<and> db_good xxh crc dir (map_op x M) ?b ?U d1)
      \<or> lost xxh crc dir {M, map_op x M} (db_fs d1) \<and> (r = Inr () \<longrightarrow> lost xxh crc dir {map_op x M} (db_fs d1))"
    using db_op_run_ok [OF good fit(1)] by blast
  show ?case
  proof (cases r)
    case (Inl e)
    then show ?thesis using r(1) o by simp
  next
    case (Inr u)
    then have i: "r = Inr ()" "stays_idle (op_width x) d d1" using r(2) by simp_all
    have run: "db_ops_run xxh crc S (x # xs) d = map_option (\<lambda>(n, d). (Suc n, d)) (db_ops_run xxh crc S xs d1)"
      using r(1) i(1) by simp
    from o show ?thesis
    proof (elim disjE conjE)
      assume g: "db_good xxh crc dir (map_op x M) ?b ?U d1"
      have "(of_nat (unat (ws_next_seq (db_write d1))) :: u64) = of_nat (unat ?sq + op_width x)"
        using i(2) by (simp only: stays_idle_def)
      then have sq: "ws_next_seq (db_write d1) = ?sq'" by simp
      obtain n d' where "db_ops_run xxh crc S xs d1 = Some (n, d')" "n \<le> length xs"
        "(n = length xs \<and> db_good xxh crc dir (map_ops xs (map_op x M)) b U d')
          \<or> lost xxh crc dir {map_ops (take n xs) (map_op x M), map_ops (take (Suc n) xs) (map_op x M)} (db_fs d')"
        using Cons.IH [of "map_op x M" d1] g fit(2) sq by auto
      then show ?thesis unfolding run by (intro exI [of _ "Suc n"] exI [of _ d']) simp
    next
      assume "r = Inr () \<longrightarrow> lost xxh crc dir {map_op x M} (db_fs d1)"
      then have l: "lost xxh crc dir {map_op x M} (db_fs d1)" using i(1) by simp
      then obtain D where D: "down (db_fs d1) D" by (auto simp: lost_def)
      have "unat (next_seq (coord (db_wal d1))) + 1 < 2 ^ 64"
        using good i(2) by (auto simp: db_good_def db_room_def stays_idle_def op_width_def split: db_op.splits)
      moreover have "db_idle d1" using i(2) by (simp add: stays_idle_def)
      ultimately obtain d' where "db_ops_run xxh crc S xs d1 = Some (0, d')" "db_fs d' = db_fs d1"
        using db_ops_run_down [OF D] by blast
      then show ?thesis unfolding run using l lost_mono [of xxh crc dir "{map_op x M}" "db_fs d1"]
        by (intro exI [of _ "Suc 0"] exI [of _ d']) (cases xs; simp)
    qed
  qed
qed

text \<open>Reading a running engine changes nothing but its cache of readers.\<close>

lemma db_good_readers: "readers_ok xxh crc dir (v_next_id (db_version d)) rs (d_view (disk (db_fs d))) \<Longrightarrow>
    db_good xxh crc dir M b U d \<Longrightarrow> db_good xxh crc dir M b U (d\<lparr>db_readers := rs\<rparr>)"
  by (auto simp: db_good_def db_disk_def db_idle_def mem_is_def db_content_def db_room_def)

lemma db_disk_tables:
  assumes "db_disk xxh crc dir E ws d D"
  shows "tables_at xxh crc (d_view D) dir (v_next_id (db_version d)) E (all_tables (db_version d))"
    and "tables_at xxh crc (d_view D) dir (v_next_id (db_version d)) E (tables_newest_first (db_version d))"
proof -
  have "stored xxh crc dir E (db_version d) (d_view D)"
    by (rule store_disk_stored [OF store_invD(2) [OF db_diskD(2) [OF assms]]]) simp
  then show "tables_at xxh crc (d_view D) dir (v_next_id (db_version d)) E (all_tables (db_version d))"
    "tables_at xxh crc (d_view D) dir (v_next_id (db_version d)) E (tables_newest_first (db_version d))"
    by (auto simp: stored_def version_wf_def tables_at_def)
qed

lemma db_good_get:
  assumes good: "db_good xxh crc dir M b U d"
  shows "\<exists>rs. db_get xxh crc S key d = (Inr (M key), d\<lparr>db_readers := rs\<rparr>) \<and> db_good xxh crc dir M b U (d\<lparr>db_readers := rs\<rparr>)"
proof -
  obtain E ws where g: "up (db_fs d)" "db_disk xxh crc dir E ws d (disk (db_fs d))" "mem_is ws d" "db_content E ws d = M"
    using good by (auto simp: db_good_def)
  have M: "visible (mem_levels (db_mem d) @ version_levels E (db_version d)) = M"
    using g(3,4) by (simp add: mem_levels_def mem_is_def db_content_def mem_of_def)
  show ?thesis
    using db_get_ok [OF g(1) db_diskD(1) [OF g(2)] refl db_diskD(4) [OF g(2)] db_disk_tables(2) [OF g(2)], of key]
      db_good_readers [OF _ good] unfolding M by blast
qed

lemma db_good_scan:
  assumes good: "db_good xxh crc dir M b U d" and rg: "\<not> bad_range rg"
  shows "\<exists>it rs. db_scan crc S rg d = Some (Inr it, d\<lparr>db_readers := rs\<rparr>) \<and> db_good xxh crc dir M b U (d\<lparr>db_readers := rs\<rparr>)
    \<and> sorted_wrt (<) (map fst (live_all it)) \<and> (\<forall>k v. (k, v) \<in> set (live_all it) \<longleftrightarrow> in_range rg k \<and> M k = Some v)"
proof -
  obtain E ws where g: "up (db_fs d)" "db_disk xxh crc dir E ws d (disk (db_fs d))" "mem_is ws d" "db_content E ws d = M"
    using good by (auto simp: db_good_def)
  have ml: "mem_levels (db_mem d) = [mem_of ws]" using g(3) by (simp add: mem_levels_def mem_is_def mem_of_def)
  have M: "visible (mem_levels (db_mem d) @ version_levels E (db_version d)) = M"
    using g(4) ml by (simp add: db_content_def)
  have nf: "newest_first (mem_levels (db_mem d) @ version_levels E (db_version d))"
    using db_diskD(5) [OF g(2)] by (simp add: ml levels_ok_def)
  have so: "sorted_sources (mem_levels (db_mem d))" by (simp add: ml sorted_sources_def mem_of_ok(2))
  show ?thesis
    using db_scan_ok [OF g(1) db_diskD(1) [OF g(2)] refl db_diskD(4) [OF g(2)] db_disk_tables(1) [OF g(2)] rg nf so]
      db_good_readers [OF _ good] unfolding M by blast
qed

end

end
