(* ===== verification/Db_Durability.thy ===== *)
theory Db_Durability imports Db_Session begin

text \<open>
  The engine's durability: sessions from opening to a power loss, the image that is left, and what a
  reopened engine reads from it.
\<close>

section \<open>From opening to running\<close>

definition open_room :: "nat \<Rightarrow> nat \<Rightarrow> (u64 \<Rightarrow> entry list) \<Rightarrow> version \<Rightarrow> entry list \<Rightarrow> bool" where
  "open_room b U E v wl \<longleftrightarrow> entries_size wl + total_size (version_levels E v) + U + 100 < 2 ^ 32
     \<and> unat (v_next_id v) + table_count v + 2 * b + 1 < 2 ^ 32
     \<and> (\<forall>kv\<in>set wl. unat (seq (snd kv)) + b + 2 < 2 ^ 63) \<and> unat (v_next_seq v) + b + 1 < 2 ^ 63"

definition open_opts :: "options \<Rightarrow> bool" where
  "open_opts opts \<longleftrightarrow> is_durable (o_durability opts) \<and> 2 \<le> o_tier_fanout opts"

lemma opened_seqs:
  assumes lv: "levels_ok E wl v" and room: "open_room b U E v wl"
  shows "v_next_seq v \<le> next_after wl (v_next_seq v)" and "unat (next_after wl (v_next_seq v)) + b + 1 < 2 ^ 63"
    and "seqs_below (next_after wl (v_next_seq v)) (mem_of wl # version_levels E v)"
proof -
  let ?n = "next_after wl (v_next_seq v)"
  have all: "v_next_seq v \<le> ?n \<and> unat ?n \<le> 2 ^ 63 - b - 2 \<and> (\<forall>kv\<in>set wl. seq (snd kv) < ?n)"
    using room by (intro next_after_bounds) (fastforce simp: open_room_def)+
  then have n': "v_next_seq v \<le> ?n" "unat ?n \<le> 2 ^ 63 - b - 2" by blast+
  have lt: "seq (snd kv) < ?n" if "kv \<in> set wl" for kv using all that by blast
  have "b + 1 < 2 ^ 63" using room by (simp add: open_room_def)
  then show n: "v_next_seq v \<le> ?n" and "unat ?n + b + 1 < 2 ^ 63" using n' by linarith+
  have "seq x < ?n" if "map_of (mem_of wl) k = Some x" for k x
    using lt [of "(k, x)"] map_of_SomeD [OF that] set_mem_of by auto
  then show "seqs_below ?n (mem_of wl # version_levels E v)"
    using lv n by (auto simp: levels_ok_def intro: seqs_below_mono)
qed

context crash_fs
begin

lemma db_opened_good:
  assumes o: "db_open crc S dir opts s = (Inr d, s')" and opts: "open_opts opts" and up: "up s'"
    and op: "db_opened xxh crc dir E v wl {i. unat i + 2 * b + 1 < 2 ^ 63} d (disk s')"
    and inv: "store_inv xxh crc dir E (db_manifest d) (disk s')" and lv: "levels_ok E wl v" and room: "open_room b U E v wl"
  shows "db_good xxh crc dir (visible (mem_of wl # version_levels E v)) b U d"
proof -
  note mem = db_open_memory [OF o] and sq = opened_seqs [OF lv room]
  have v: "db_version d = v" using op by (simp add: db_opened_def opened_manifest_def)
  have "db_disk xxh crc dir E wl d (disk (db_fs d))"
    unfolding db_disk_def v using op inv mem(1,4) lv sq(1,3) by (simp add: db_opened_def)
  moreover have "db_room b U E wl d"
    unfolding db_room_def v using op room sq(2) mem(2) by (simp add: db_opened_def open_room_def default_coord_def)
  moreover have "db_idle d" using db_open_idle [OF o] opts by (simp add: open_opts_def)
  ultimately show ?thesis
    using up mem(1) op unfolding db_good_def db_content_def v db_opened_def by blast
qed

text \<open>A session on a directory with room for it.\<close>

lemma db_session_ok:
  assumes s: "up s" and set: "settled dir (disk s)" and st: "stored_or_new xxh crc dir E v (d_view (disk s))"
    and log: "log_has crc dir (d_view (disk s)) (map rec_bytes wl)" and lv: "levels_ok E wl v"
    and M: "M = visible (mem_of wl # version_levels E v)"
    and free: "\<And>tid. v_next_id v \<le> tid \<Longrightarrow> d_view (disk s) (table_path dir tid) = None"
    and ids: "\<And>i. d_view (disk s) (segment_path dir i) \<noteq> None \<Longrightarrow> unat i + 4 * length xs + 2 * b + 1 < 2 ^ 63"
    and b: "4 * length xs + 2 * b + 2 < 2 ^ 63" and opts: "open_opts opts"
    and ws: "ws = op_writes (next_after wl (v_next_seq v)) xs" "writes_fit (\<exists>s D. down s D) crc ws"
    and room: "open_room (2 * length xs + b) (entries_size ws + U) E v wl"
  shows "\<exists>n s'. db_session xxh crc S dir opts xs s = Some (n, s') \<and> n \<le> length xs
    \<and> ((n = length xs \<and> (\<exists>d0 s0 d. db_open crc S dir opts s = (Inr d0, s0) \<and> db_ops_run xxh crc S xs d0 = Some (n, d)
          \<and> db_fs d = s' \<and> db_good xxh crc dir (map_ops xs M) b U d))
      \<or> lost xxh crc dir {map_ops (take n xs) M, map_ops (take (Suc n) xs) M} s')"
proof -
  let ?T = "{i :: u64. unat i + 2 * (2 * length xs + b) + 1 < 2 ^ 63}"
  obtain r s1 where o: "db_open crc S dir opts s = (r, s1)" by force
  have T: "insert 1 {i. d_view (disk s) (segment_path dir i) \<noteq> None} \<subseteq> ?T" using ids b by (auto simp: algebra_simps)
  from db_open_ok [OF s set st log lv M T o] show ?thesis
  proof (elim disjE exE conjE)
    fix d assume d: "r = Inr d" "up s1" "db_opened xxh crc dir E v wl ?T d (disk s1)"
      "(\<forall>tid. v_next_id v \<le> tid \<longrightarrow> d_view (disk s) (table_path dir tid) = None) \<longrightarrow> store_inv xxh crc dir E (db_manifest d) (disk s1)"
    have inv: "store_inv xxh crc dir E (db_manifest d) (disk s1)" using d(4) free by blast
    have good: "db_good xxh crc dir M (2 * length xs + b) (entries_size ws + U) d"
      unfolding M by (rule db_opened_good [OF o [unfolded d(1)] opts d(2,3) inv lv room])
    have sq: "ws_next_seq (db_write d) = next_after wl (v_next_seq v)" using d(3) by (simp add: db_opened_def)
    obtain n d' where r: "db_ops_run xxh crc S xs d = Some (n, d')" and le: "n \<le> length xs"
      and out: "(n = length xs \<and> db_good xxh crc dir (map_ops xs M) b U d')
        \<or> lost xxh crc dir {map_ops (take n xs) M, map_ops (take (Suc n) xs) M} (db_fs d')"
      using db_ops_run_ok [of xxh crc dir M xs b d U] good ws unfolding sq by blast
    have "db_session xxh crc S dir opts xs s = Some (n, db_fs d')" using o d(1) r by (simp add: db_session_def)
    then show ?thesis using le out o [unfolded d(1)] r by blast
  next
    assume l: "lost xxh crc dir {M} s1"
    have l': "lost xxh crc dir {map_ops (take 0 xs) M, map_ops (take (Suc 0) xs) M} s1" using lost_mono [OF l] by simp
    show ?thesis
    proof (cases r)
      case (Inl e)
      then have "db_session xxh crc S dir opts xs s = Some (0, s1)" using o by (simp add: db_session_def)
      then show ?thesis using l' by blast
    next
      case (Inr d)
      note mem = db_open_memory [OF o [unfolded Inr]]
      obtain D where D: "down (db_fs d) D" using l mem(1) by (auto simp: lost_def)
      have "db_idle d" using db_open_idle [OF o [unfolded Inr]] opts by (simp add: open_opts_def)
      moreover have "unat (next_seq (coord (db_wal d))) + 1 < 2 ^ 64" using mem(2) by (simp add: default_coord_def)
      ultimately obtain d' where "db_ops_run xxh crc S xs d = Some (0, d')" "db_fs d' = db_fs d"
        using db_ops_run_down [OF D] by blast
      then have "db_session xxh crc S dir opts xs s = Some (0, s1)" using o Inr mem(1) by (simp add: db_session_def)
      then show ?thesis using l' by blast
    qed
  qed
qed

lemma db_good_image:
  assumes "db_good xxh crc dir M b U d" and "\<And>p. vw p \<in> d_images (disk (db_fs d)) p"
  shows "db_image xxh crc dir M vw"
proof -
  obtain E ws where g: "db_disk xxh crc dir E ws d (disk (db_fs d))" "db_content E ws d = M"
    using assms(1) by (auto simp: db_good_def)
  note i = db_diskD [OF g(1)]
  from durable_store_image [OF store_inv_durable [OF i(2)] durable_recoverable [OF log_at_durable [OF i(3)]] i(5) assms(2) assms(2)]
  show ?thesis using g(2) by (simp add: db_content_def)
qed

text \<open>An engine that can be read: its memtables and tables are together the map \<open>M\<close>.\<close>

definition db_shows :: "hash128 \<Rightarrow> crc \<Rightarrow> path \<Rightarrow> content \<Rightarrow> 'fs db \<Rightarrow> bool" where
  "db_shows xxh crc dir M d \<longleftrightarrow> up (db_fs d) \<and> db_dir d = dir
     \<and> (\<exists>E n. readers_ok xxh crc dir n (db_readers d) (d_view (disk (db_fs d)))
          \<and> tables_at xxh crc (d_view (disk (db_fs d))) dir n E (tables_newest_first (db_version d))
          \<and> visible (mem_levels (db_mem d) @ version_levels E (db_version d)) = M)"

lemma db_shows_get:
  assumes sh: "db_shows xxh crc dir M d"
  shows "\<exists>rs. db_get xxh crc S key d = (Inr (M key), d\<lparr>db_readers := rs\<rparr>) \<and> db_shows xxh crc dir M (d\<lparr>db_readers := rs\<rparr>)"
proof -
  obtain E n where g: "up (db_fs d)" "db_dir d = dir" "readers_ok xxh crc dir n (db_readers d) (d_view (disk (db_fs d)))"
    "tables_at xxh crc (d_view (disk (db_fs d))) dir n E (tables_newest_first (db_version d))"
    "visible (mem_levels (db_mem d) @ version_levels E (db_version d)) = M"
    using sh by (auto simp: db_shows_def)
  from db_get_ok [OF g(1,2) refl g(3,4), of key] obtain rs where
    "db_get xxh crc S key d = (Inr (M key), d\<lparr>db_readers := rs\<rparr>)" "readers_ok xxh crc dir n rs (d_view (disk (db_fs d)))"
    unfolding g(5) by blast
  then show ?thesis using g by (auto simp: db_shows_def)
qed

text \<open>Reopening an image: the engine shows the content of the image.\<close>

lemma db_reopen_shows:
  assumes s: "up s" and set: "settled dir (disk s)" and img: "db_image xxh crc dir M (d_view (disk s))"
    and o: "db_open crc S dir opts s = (r, s')"
  shows "(\<exists>d. r = Inr d \<and> up s' \<and> db_shows xxh crc dir M d) \<or> lost xxh crc dir {M} s'"
proof -
  obtain E v wl where i: "stored_or_new xxh crc dir E v (d_view (disk s))" "log_has crc dir (d_view (disk s)) (map rec_bytes wl)"
    "levels_ok E wl v" "M = visible (mem_of wl # version_levels E v)"
    using img by (auto simp: db_image_def)
  from db_open_ok [OF s set i(1,2,3,4) subset_UNIV o] show ?thesis
  proof (elim disjE exE conjE)
    fix d assume d: "r = Inr d" "up s'" "db_opened xxh crc dir E v wl UNIV d (disk s')"
    note mem = db_open_memory [OF o [unfolded d(1)]]
    have dm: "db_readers d = (\<lambda>_. None)" "mem_is wl d" "db_version d = v" "store_disk xxh crc dir E v (disk s')"
      using d(3) by (simp_all add: db_opened_def opened_manifest_def)
    have "stored xxh crc dir E v (d_view (disk s'))" by (rule store_disk_stored [OF dm(4)]) simp
    then have "tables_at xxh crc (d_view (disk s')) dir (v_next_id v) E (tables_newest_first v)"
      by (auto simp: stored_def version_wf_def tables_at_def)
    moreover have "visible (mem_levels (db_mem d) @ version_levels E v) = M"
      using dm(2) i(4) by (simp add: mem_levels_def mem_is_def mem_of_def)
    ultimately have "db_shows xxh crc dir M d"
      using d(2) mem(1,4) dm(1,3) unfolding db_shows_def by (intro conjI exI [of _ E] exI [of _ "v_next_id v"]) simp_all
    then show ?thesis using d(1,2) by blast
  qed blast
qed

end

section \<open>On the simulator\<close>

lemma power_lost_settled:
  assumes "inj_up G h \<or> inj_down G h D"
  shows "sim_ok (power_lost G h) \<and> settled dir (sim_disk (power_lost G h))"
proof -
  have "\<exists>st. sim_inv st \<and> gen_ok G \<and> power_lost G h = snd (crash G st)"
    using assms
  proof
    assume "inj_up G h"
    then show ?thesis by (intro exI [of _ "inner h"]) (simp add: inj_up_def power_lost_def)
  next
    assume d: "inj_down G h D"
    then show ?thesis unfolding power_lost_down [OF d] inj_down_def by blast
  qed
  then show ?thesis using crash_ok crash_settled by fastforce
qed

text \<open>A fresh directory is empty and has room.\<close>

lemma fresh_dir:
  "stored_or_new xxh crc dir E version_empty (sim_view (sim_new seeded seed))"
  "log_has crc dir (sim_view (sim_new seeded seed)) (map rec_bytes [])"
  "levels_ok E [] version_empty" "visible (mem_of [] # version_levels E version_empty) = Map.empty"
  "next_after [] (v_next_seq version_empty) = 1"
  using sim_new_fresh(3,4) [where seeded = seeded and seed = seed]
  by (simp_all add: stored_or_new_def levels_ok_def version_levels_def version_empty_def tables_newest_first_def next_after_def
      visible_def fun_eq_iff)

lemma fresh_room: "length xs < 2 ^ 30 \<Longrightarrow> entries_size ws + 100 < 2 ^ 32 \<Longrightarrow> open_room (2 * length xs + 0) (entries_size ws + 0) E version_empty []"
  by (simp add: open_room_def entries_size_def total_size_def version_levels_def version_empty_def table_count_def all_tables_def tables_newest_first_def)

text \<open>A session through the crash injector, and the engine that is reopened after it.\<close>

lemma db_crash_session:
  assumes G: "gen_ok G" and opts: "is_durable (o_durability opts)" "2 \<le> o_tier_fanout opts"
    and xs: "length xs < 2 ^ 30" "entries_size (op_writes 1 xs) + 100 < 2 ^ 32" "writes_fit True crc (op_writes 1 xs)"
  shows "\<exists>n h d s m. db_session xxh crc (injector G) dir opts xs (injector_new (arm_crash_after k (sim_new seeded seed))) = Some (n, h)
      \<and> n \<le> length xs \<and> (halted h \<or> n = length xs)
      \<and> db_open crc (sim_storage G) dir opts (power_lost G h) = (Inr d, s)
      \<and> (m = n \<or> m = Suc n) \<and> crash_fs.db_shows sim_ok sim_disk xxh crc dir (map_ops (take m xs) Map.empty) d"
proof -
  let ?h = "injector_new (arm_crash_after k (sim_new seeded seed))"
  note fresh = sim_new_fresh [where seeded = seeded and seed = seed]
  have up: "inj_up G ?h" and dsk: "inj_disk ?h = sim_disk (sim_new seeded seed)"
    using injector_new_up [OF G fresh(1)] by (simp_all add: sim_new_def)
  have reads: "\<exists>d s. db_open crc (sim_storage G) dir opts (power_lost G h) = (Inr d, s)
      \<and> crash_fs.db_shows sim_ok sim_disk xxh crc dir M d"
    if "sim_ok (power_lost G h) \<and> settled dir (sim_disk (power_lost G h))" "db_image xxh crc dir M (sim_view (power_lost G h))" for h M
  proof -
    obtain r s where o: "db_open crc (sim_storage G) dir opts (power_lost G h) = (r, s)" by force
    show ?thesis
      using crash_fs.db_reopen_shows [OF sim_run.crash_fs_axioms that(1) [THEN conjunct1] that(1) [THEN conjunct2] _ o, of xxh M] that(2)
      by (simp add: o crash_fs.lost_def [OF sim_run.crash_fs_axioms]) blast
  qed
  have "\<exists>n h. db_session xxh crc (injector G) dir opts xs ?h = Some (n, h) \<and> n \<le> length xs
    \<and> ((n = length xs \<and> (\<exists>d0 s0 d. db_open crc (injector G) dir opts ?h = (Inr d0, s0) \<and> db_ops_run xxh crc (injector G) xs d0 = Some (n, d)
          \<and> db_fs d = h \<and> crash_fs.db_good (inj_up G) inj_disk xxh crc dir (map_ops xs Map.empty) 0 0 d))
      \<or> crash_fs.lost (inj_down G) inj_survivor xxh crc dir {map_ops (take n xs) Map.empty, map_ops (take (Suc n) xs) Map.empty} h)"
    by (rule crash_fs.db_session_ok [OF inj.crash_fs_axioms up, where v = version_empty and wl = "[]" and b = 0 and U = 0])
       (use fresh fresh_dir fresh_room xs writes_fit_mono [OF xs(3)] opts in \<open>auto simp: dsk open_opts_def\<close>)
  then obtain n h where run: "db_session xxh crc (injector G) dir opts xs ?h = Some (n, h)" "n \<le> length xs"
    and out: "(n = length xs \<and> (\<exists>d0 s0 d. db_open crc (injector G) dir opts ?h = (Inr d0, s0) \<and> db_ops_run xxh crc (injector G) xs d0 = Some (n, d)
          \<and> db_fs d = h \<and> crash_fs.db_good (inj_up G) inj_disk xxh crc dir (map_ops xs Map.empty) 0 0 d))
      \<or> crash_fs.lost (inj_down G) inj_survivor xxh crc dir {map_ops (take n xs) Map.empty, map_ops (take (Suc n) xs) Map.empty} h"
    by blast
  from out have "(halted h \<or> n = length xs) \<and> (sim_ok (power_lost G h) \<and> settled dir (sim_disk (power_lost G h)))
      \<and> (\<exists>m. (m = n \<or> m = Suc n) \<and> db_image xxh crc dir (map_ops (take m xs) Map.empty) (sim_view (power_lost G h)))"
  proof (elim disjE exE conjE)
    fix d assume d: "n = length xs" "db_fs d = h" "crash_fs.db_good (inj_up G) inj_disk xxh crc dir (map_ops xs Map.empty) 0 0 d"
    then have u: "inj_up G h" by (simp add: crash_fs.db_good_def [OF inj.crash_fs_axioms])
    have "db_image xxh crc dir (map_ops xs Map.empty) (sim_view (power_lost G h))"
      using crash_fs.db_good_image [OF inj.crash_fs_axioms d(3)] power_lost_up(2) [OF u] d(2) by simp
    then have "db_image xxh crc dir (map_ops (take n xs) Map.empty) (sim_view (power_lost G h))" using d(1) by simp
    then show ?thesis using d(1) power_lost_settled u by blast
  next
    assume l: "crash_fs.lost (inj_down G) inj_survivor xxh crc dir {map_ops (take n xs) Map.empty, map_ops (take (Suc n) xs) Map.empty} h"
    then obtain D where D: "inj_down G h D" by (auto simp: crash_fs.lost_def [OF inj.crash_fs_axioms])
    then have "halted h" by (simp add: inj_down_def)
    moreover have "inj_survivor h = sim_view (power_lost G h)" by (simp add: inj_survivor_def [abs_def] power_lost_down [OF D])
    ultimately show ?thesis
      using l D power_lost_settled by (auto simp: crash_fs.lost_def [OF inj.crash_fs_axioms])
  qed
  then show ?thesis using run reads by metis
qed

text \<open>C1 (db_crash_durability): an acknowledged write survives a power loss at any operation, with any
  tear. The engine is opened on a fresh simulated disk through the crash injector, armed at an
  arbitrary operation count, and a sequence of puts, deletes and flushes is run in a durable mode
  until the first error; the flushes and compactions that the writes trigger are part of the run.
  The session never blocks. The engine reopened on the image that survives returns, for every key,
  what a map holds after the acknowledged calls, or after one call more (the one in progress); and
  when no power loss stopped the session, every call was acknowledged.\<close>

theorem db_crash_durability:
  assumes G: "gen_ok G" and opts: "is_durable (o_durability opts)" "2 \<le> o_tier_fanout opts"
    and xs: "length xs < 2 ^ 30" "entries_size (op_writes 1 xs) + 100 < 2 ^ 32" "writes_fit True crc (op_writes 1 xs)"
  shows "\<exists>n h d s m. db_session xxh crc (injector G) dir opts xs (injector_new (arm_crash_after k (sim_new seeded seed))) = Some (n, h)
      \<and> n \<le> length xs \<and> (halted h \<or> n = length xs)
      \<and> db_open crc (sim_storage G) dir opts (power_lost G h) = (Inr d, s)
      \<and> (m = n \<or> m = Suc n) \<and> (\<forall>key. fst (db_get xxh crc (sim_storage G) key d) = Inr (map_ops (take m xs) Map.empty key))"
proof -
  obtain n h d s m where run: "db_session xxh crc (injector G) dir opts xs (injector_new (arm_crash_after k (sim_new seeded seed))) = Some (n, h)"
    "n \<le> length xs" "halted h \<or> n = length xs" "db_open crc (sim_storage G) dir opts (power_lost G h) = (Inr d, s)" "m = n \<or> m = Suc n"
    and sh: "crash_fs.db_shows sim_ok sim_disk xxh crc dir (map_ops (take m xs) Map.empty) d"
    using db_crash_session [OF assms] by blast
  have "fst (db_get xxh crc (sim_storage G) key d) = Inr (map_ops (take m xs) Map.empty key)" for key
    using crash_fs.db_shows_get [OF sim_run.crash_fs_axioms sh, of G key] by auto
  then show ?thesis using run by blast
qed

section \<open>A concrete session\<close>

text \<open>A checksum that tells a payload from its prefixes and from its one-bit damages.\<close>

definition sum_crc :: crc where
  "sum_crc bs = of_nat (\<Sum>b\<leftarrow>bs. unat b + 1)"

lemma sum_crc_value: "length bs < 2 ^ 16 \<Longrightarrow> unat (sum_crc bs) = (\<Sum>b\<leftarrow>bs. unat b + 1)"
proof -
  assume l: "length bs < 2 ^ 16"
  have "(\<Sum>b\<leftarrow>bs. unat b + 1) \<le> length bs * 256"
  proof (induction bs)
    case (Cons b bs)
    have "unat b < 2 ^ LENGTH(8)" by (rule unsigned_less)
    then show ?case using Cons by simp
  qed simp
  then have "(\<Sum>b\<leftarrow>bs. unat b + 1) < 2 ^ 32" using l by simp
  then show ?thesis unfolding sum_crc_def by (simp add: unat_of_nat take_bit_nat_eq_self)
qed

lemma sum_crc_safe:
  assumes l: "length bs < 2 ^ 16"
  shows "flip_safe sum_crc bs"
  unfolding flip_safe_def
proof (intro conjI allI impI)
  fix k assume k: "k < length bs"
  have "(\<Sum>b\<leftarrow>bs. unat b + 1) = (\<Sum>b\<leftarrow>take k bs. unat b + 1) + (\<Sum>b\<leftarrow>drop k bs. unat b + 1)"
    by (metis append_take_drop_id map_append sum_list_append)
  moreover have "0 < (\<Sum>b\<leftarrow>drop k bs. unat b + 1)" using k by (cases "drop k bs") auto
  ultimately have "unat (sum_crc (take k bs)) < unat (sum_crc bs)" using l by (simp add: sum_crc_value)
  then show "sum_crc (take k bs) \<noteq> sum_crc bs" by auto
next
  fix i b :: nat assume i: "i < length bs" "b < 8"
  let ?f = "\<lambda>b :: u8. unat b + 1"
  obtain y where y: "flip_bit bs i b = bs[i := y]" "y \<noteq> bs ! i"
    using flip_bit_neq [OF i] by (metis flip_bit_def list_update_id)
  have "(\<Sum>b\<leftarrow>bs[i := y]. unat b + 1) = (\<Sum>b\<leftarrow>bs. unat b + 1) + ?f y - ?f (bs ! i)"
    using i by (simp only: map_update sum_list_update length_map nth_map)
  moreover have "?f (bs ! i) \<le> (\<Sum>b\<leftarrow>bs. unat b + 1)"
    using i by (intro member_le_sum_list) auto
  moreover have "?f y \<noteq> ?f (bs ! i)" using y(2) by (simp add: word_unat_eq_iff)
  ultimately have "(\<Sum>b\<leftarrow>bs[i := y]. unat b + 1) \<noteq> (\<Sum>b\<leftarrow>bs. unat b + 1)" by linarith
  then have "unat (sum_crc (bs[i := y])) \<noteq> unat (sum_crc bs)" using l by (simp add: sum_crc_value)
  then show "sum_crc (flip_bit bs i b) \<noteq> sum_crc bs" unfolding y(1) by auto
qed

lemma writes_fit_small:
  assumes "list_all (\<lambda>kv. length (fst kv) + payload_bytes (snd kv) < 1000) ws"
  shows "writes_fit True sum_crc ws"
  unfolding writes_fit_def list_all_iff
proof
  fix kv assume "kv \<in> set ws"
  then have l: "length (fst kv) + payload_bytes (snd kv) < 1000" using assms by (auto simp: list_all_iff)
  then have "length (rec_bytes kv) < 2 ^ 16" using length_rec_bytes [of kv] by simp
  then show "kv_fits kv \<and> (True \<longrightarrow> flip_safe sum_crc (rec_bytes kv))" using l sum_crc_safe by (simp add: kv_fits_def)
qed

definition demo_ops :: "db_op list" where
  "demo_ops = [Op_put [1] [2], Op_put [3] [4, 5], Op_flush, Op_delete [1], Op_put [6] []]"

definition demo_opts :: options where
  "demo_opts = \<lparr>o_durability = GroupCommit, o_memtable_size = 8, o_tier_fanout = 2\<rparr>"

theorem db_crash_durability_witness:
  "\<exists>n h d s m. db_session (\<lambda>_. 0) sum_crc (injector first_choice) [''db''] demo_opts demo_ops
        (injector_new (arm_crash_after 17 (sim_new (\<lambda>_. 0) 0))) = Some (n, h)
      \<and> n \<le> length demo_ops \<and> (halted h \<or> n = length demo_ops)
      \<and> db_open sum_crc (sim_storage first_choice) [''db''] demo_opts (power_lost first_choice h) = (Inr d, s)
      \<and> (m = n \<or> m = Suc n) \<and> (\<forall>key. fst (db_get (\<lambda>_. 0) sum_crc (sim_storage first_choice) key d) = Inr (map_ops (take m demo_ops) Map.empty key))"
proof (rule db_crash_durability [OF first_choice_ok])
  show "writes_fit True sum_crc (op_writes 1 demo_ops)"
    by (rule writes_fit_small) (simp add: demo_ops_def payload_bytes_def)
  show "entries_size (op_writes 1 demo_ops) + 100 < 2 ^ 32"
    by (simp add: demo_ops_def entries_size_def row_def entry_of_def value_ref_def encode_entry_def)
qed (simp_all add: demo_opts_def demo_ops_def is_durable_def)

end
