(* ===== verification/Db_Refine.thy ===== *)
theory Db_Refine imports Db_Durability begin

text \<open>
  The engine as a map: on a backend that does not fail, every call is acknowledged, and point reads
  and scans show the map that the same calls build, whatever flushes and compactions have happened.
\<close>

lemma fits_without_crash: "list_all kv_fits ws \<Longrightarrow> writes_fit False crc ws"
  by (simp add: writes_fit_def)

lemma fresh_room_for:
  "length xs + b < 2 ^ 30 \<Longrightarrow> entries_size ws + 100 < 2 ^ 32 \<Longrightarrow> open_room (2 * length xs + b) (entries_size ws + 0) E version_empty []"
  by (simp add: open_room_def entries_size_def total_size_def version_levels_def version_empty_def table_count_def all_tables_def tables_newest_first_def)

text \<open>The state that a session on a fresh simulated disk reaches.\<close>

lemma db_run_fresh:
  assumes opts: "is_durable (o_durability opts)" "2 \<le> o_tier_fanout opts"
    and xs: "length xs + b < 2 ^ 30" "entries_size (op_writes 1 xs) + 100 < 2 ^ 32" "list_all kv_fits (op_writes 1 xs)"
  obtains d s d' where "db_open crc (sim_storage G) dir opts (sim_new seeded seed) = (Inr d, s)"
    and "db_ops_run xxh crc (sim_storage G) xs d = Some (length xs, d')"
    and "crash_fs.db_good sim_ok sim_disk xxh crc dir (map_ops xs Map.empty) b 0 d'"
proof -
  let ?s = "sim_new seeded seed"
  note fresh = sim_new_fresh [where seeded = seeded and seed = seed]
  have no: "\<not> crash_fs.lost (\<lambda>_ _. False) sim_view xxh crc dir Ms s" for Ms and s :: "'a sim_state"
    by (simp add: crash_fs.lost_def [OF sim_run.crash_fs_axioms])
  have fit: "writes_fit (\<exists>(s :: 'a sim_state) D :: disk. False) crc (op_writes 1 xs)" using fits_without_crash [OF xs(3)] by simp
  have "\<exists>n s'. db_session xxh crc (sim_storage G) dir opts xs ?s = Some (n, s') \<and> n \<le> length xs
    \<and> ((n = length xs \<and> (\<exists>d0 s0 d. db_open crc (sim_storage G) dir opts ?s = (Inr d0, s0)
          \<and> db_ops_run xxh crc (sim_storage G) xs d0 = Some (n, d) \<and> db_fs d = s' \<and> crash_fs.db_good sim_ok sim_disk xxh crc dir (map_ops xs Map.empty) b 0 d))
      \<or> crash_fs.lost (\<lambda>_ _. False) sim_view xxh crc dir {map_ops (take n xs) Map.empty, map_ops (take (Suc n) xs) Map.empty} s')"
    by (rule crash_fs.db_session_ok [OF sim_run.crash_fs_axioms fresh(1), where v = version_empty and wl = "[]" and b = b and U = 0])
       (use fresh fresh_dir fresh_room_for xs(1,2) fit opts in \<open>auto simp: open_opts_def\<close>)
  then show thesis using no that by blast
qed

text \<open>C3 (db_refines_map): on a backend that does not fail the engine is a map. A sequence of puts,
  deletes and flushes on a fresh directory never blocks and never fails, whatever the memtable size
  and the tier fanout (at least 2) make of it in flushes and compactions; afterwards a point read of
  any key returns what the map built by the same calls holds.\<close>

theorem db_refines_map:
  assumes opts: "is_durable (o_durability opts)" "2 \<le> o_tier_fanout opts"
    and xs: "length xs < 2 ^ 30" "entries_size (op_writes 1 xs) + 100 < 2 ^ 32" "list_all kv_fits (op_writes 1 xs)"
  shows "\<exists>d s d'. db_open crc (sim_storage G) dir opts (sim_new seeded seed) = (Inr d, s)
      \<and> db_ops_run xxh crc (sim_storage G) xs d = Some (length xs, d')
      \<and> (\<forall>key. fst (db_get xxh crc (sim_storage G) key d') = Inr (map_ops xs Map.empty key))"
proof -
  obtain d s d' where d: "db_open crc (sim_storage G) dir opts (sim_new seeded seed) = (Inr d, s)"
    "db_ops_run xxh crc (sim_storage G) xs d = Some (length xs, d')"
    and good: "crash_fs.db_good sim_ok sim_disk xxh crc dir (map_ops xs Map.empty) 0 0 d'"
    by (rule db_run_fresh [OF opts _ xs(2,3), where b = 0]) (use xs(1) in simp)
  have "fst (db_get xxh crc (sim_storage G) key d') = Inr (map_ops xs Map.empty key)" for key
    using crash_fs.db_good_get [OF sim_run.crash_fs_axioms good, of G key] by auto
  then show ?thesis using d by blast
qed

text \<open>C4 (db_scan_refines): a scan of any range that is not inverted yields exactly the bindings of
  that map in the range, in strictly ascending key order, tombstones and overwritten values
  suppressed, from whatever mix of memtable and tables holds them.\<close>

theorem db_scan_refines:
  assumes opts: "is_durable (o_durability opts)" "2 \<le> o_tier_fanout opts" and rg: "\<not> bad_range rg"
    and xs: "length xs < 2 ^ 30" "entries_size (op_writes 1 xs) + 100 < 2 ^ 32" "list_all kv_fits (op_writes 1 xs)"
  shows "\<exists>d s d' it d''. db_open crc (sim_storage G) dir opts (sim_new seeded seed) = (Inr d, s)
      \<and> db_ops_run xxh crc (sim_storage G) xs d = Some (length xs, d')
      \<and> db_scan crc (sim_storage G) rg d' = Some (Inr it, d'') \<and> sorted_wrt (<) (map fst (live_all it))
      \<and> (\<forall>k v. (k, v) \<in> set (live_all it) \<longleftrightarrow> in_range rg k \<and> map_ops xs Map.empty k = Some v)"
proof -
  obtain d s d' where d: "db_open crc (sim_storage G) dir opts (sim_new seeded seed) = (Inr d, s)"
    "db_ops_run xxh crc (sim_storage G) xs d = Some (length xs, d')"
    and good: "crash_fs.db_good sim_ok sim_disk xxh crc dir (map_ops xs Map.empty) 0 0 d'"
    by (rule db_run_fresh [OF opts _ xs(2,3), where b = 0]) (use xs(1) in simp)
  show ?thesis
    using crash_fs.db_good_scan [OF sim_run.crash_fs_axioms good rg, of G] d by blast
qed

lemma demo_fits: "list_all kv_fits (op_writes 1 demo_ops)" "entries_size (op_writes 1 demo_ops) + 100 < 2 ^ 32"
  by (simp_all add: demo_ops_def kv_fits_def payload_bytes_def entries_size_def row_def entry_of_def value_ref_def encode_entry_def)

theorem db_refines_map_witness:
  "\<exists>d s d'. db_open sum_crc (sim_storage first_choice) [''db''] demo_opts (sim_new (\<lambda>_. 0) 0) = (Inr d, s)
      \<and> db_ops_run (\<lambda>_. 0) sum_crc (sim_storage first_choice) demo_ops d = Some (length demo_ops, d')
      \<and> (\<forall>key. fst (db_get (\<lambda>_. 0) sum_crc (sim_storage first_choice) key d') = Inr (map_ops demo_ops Map.empty key))"
  by (rule db_refines_map) (use demo_fits in \<open>simp_all add: demo_opts_def is_durable_def demo_ops_def\<close>)

theorem db_scan_refines_witness:
  "\<exists>d s d' it d''. db_open sum_crc (sim_storage first_choice) [''db''] demo_opts (sim_new (\<lambda>_. 0) 0) = (Inr d, s)
      \<and> db_ops_run (\<lambda>_. 0) sum_crc (sim_storage first_choice) demo_ops d = Some (length demo_ops, d')
      \<and> db_scan sum_crc (sim_storage first_choice) (Included [1], Excluded [6]) d' = Some (Inr it, d'')
      \<and> sorted_wrt (<) (map fst (live_all it))
      \<and> (\<forall>k v. (k, v) \<in> set (live_all it) \<longleftrightarrow> in_range (Included [1], Excluded [6]) k \<and> map_ops demo_ops Map.empty k = Some v)"
  by (rule db_scan_refines) (use demo_fits in \<open>simp_all add: demo_opts_def is_durable_def demo_ops_def bad_range_def\<close>)

end
