(* ===== verification/Store_Facts.thy ===== *)
theory Store_Facts imports Db_Refine begin

text \<open>
  What compaction does to a running store: versions stay well-formed, the cascade ends and changes no
  read, and what happens outside its working conditions: a fanout below two, a leftover table file.
\<close>

section \<open>Versions\<close>

text \<open>C14 (version_wf_invariant): flushing a table and merging a tier keep a version well-formed:
  identifiers stay unique and below the next one, which moves up by one with a new table and stays put
  when a merge has no output. The new table is the only one that is added, and a merge removes the
  tier's tables.\<close>

theorem version_wf_invariant:
  assumes "version_wf v" and "unat (v_next_id v) + 1 < 2 ^ 64" and "tm_id t = v_next_id v" and "i < length (tiers v)"
  shows "version_wf (flushed v t sq) \<and> v_next_id (flushed v t sq) = v_next_id v + 1
      \<and> set (all_tables (flushed v t sq)) = insert t (set (all_tables v))
    \<and> version_wf (compacted v i t) \<and> v_next_id (compacted v i t) = v_next_id v + 1
      \<and> table_count (compacted v i t) + length (tiers v ! i) = table_count v + 1
    \<and> version_wf (cleared v i) \<and> v_next_id (cleared v i) = v_next_id v
      \<and> table_count (cleared v i) + length (tiers v ! i) = table_count v"
  using wf_flushed [OF assms(1-3)] wf_compacted [OF assms] wf_cleared [OF assms(1,4)] pass_table_count [OF assms(4)] set_flushed
  by (simp add: cleared_def)

definition demo_tables :: version where
  "demo_tables = \<lparr>tiers = [[\<lparr>tm_id = 1, tm_entries = 1, tm_first = [1], tm_last = [1]\<rparr>,
     \<lparr>tm_id = 2, tm_entries = 1, tm_first = [1], tm_last = [2]\<rparr>]], v_next_seq = 5, v_next_id = 3\<rparr>"

definition demo_meta :: table_meta where
  "demo_meta = \<lparr>tm_id = 3, tm_entries = 2, tm_first = [1], tm_last = [2]\<rparr>"

theorem version_wf_invariant_witness:
  "version_wf (flushed demo_tables demo_meta 6) \<and> v_next_id (flushed demo_tables demo_meta 6) = v_next_id demo_tables + 1
      \<and> set (all_tables (flushed demo_tables demo_meta 6)) = insert demo_meta (set (all_tables demo_tables))
    \<and> version_wf (compacted demo_tables 0 demo_meta) \<and> v_next_id (compacted demo_tables 0 demo_meta) = v_next_id demo_tables + 1
      \<and> table_count (compacted demo_tables 0 demo_meta) + length (tiers demo_tables ! 0) = table_count demo_tables + 1
    \<and> version_wf (cleared demo_tables 0) \<and> v_next_id (cleared demo_tables 0) = v_next_id demo_tables
      \<and> table_count (cleared demo_tables 0) + length (tiers demo_tables ! 0) = table_count demo_tables"
  by (rule version_wf_invariant) (simp_all add: demo_tables_def demo_meta_def version_wf_def all_tables_def)

section \<open>The cascade\<close>

lemma store_closed_True: "store_closed dir n (\<lambda>_. True)"
  by (simp add: store_closed_def)

context crash_fs
begin

text \<open>The cascade of a running engine, for any fanout of at least two, at any time.\<close>

lemma db_good_cascade:
  assumes good: "db_good xxh crc dir M b U d" and n: "2 \<le> n" and dn: "\<And>s D. \<not> down s D"
  shows "\<exists>m s. cascade xxh crc S n (db_manifest d, db_fs d) = Some (Inr (), m, s)
    \<and> full_tier n (snd (m_current m)) = None
    \<and> (\<forall>key. fst (db_get xxh crc S key (with_fs s (d\<lparr>db_manifest := m\<rparr>))) = Inr (M key))"
proof -
  obtain E ws where g: "up (db_fs d)" "db_disk xxh crc dir E ws d (disk (db_fs d))" "mem_is ws d" "db_content E ws d = M"
    "db_room b U E ws d" using good by (auto simp: db_good_def)
  note i = db_diskD [OF g(2)]
  let ?v = "db_version d" let ?F = "\<lambda>D. readers_ok xxh crc dir (v_next_id ?v) (db_readers d) (d_view D)"
  let ?Q = "\<lambda>r m D. r = Inr () \<and> (\<exists>E'. store_inv xxh crc dir E' m D \<and> rearranged E ?v E' (snd (m_current m))
      \<and> full_tier n (snd (m_current m)) = None \<and> ?F D)"
  have ml: "mem_levels (db_mem d) = [mem_of ws]" using g(3) by (simp add: mem_levels_def mem_is_def mem_of_def)
  have nf: "newest_first ([mem_of ws] @ version_levels E ?v)" using i(5) by (simp add: levels_ok_def)
  have sane: "store_sane (total_size (version_levels E ?v)) E ?v"
    using nf g(5) by (simp add: store_sane_def db_room_def)
  have room: "unat (v_next_id ?v) + table_count ?v + 1 < 2 ^ 32" using g(5) by (simp add: db_room_def)
  have c: "cascade xxh crc S n (db_manifest d, db_fs d) \<noteq> None
      \<and> reaches up disk down (\<lambda>ms. the (cascade xxh crc S n ms)) (\<lambda>_. True) ?Q (db_manifest d, db_fs d)"
    by (rule reaches_cascade [OF g(1) i(2) refl sane room n readers_ok_store_closed i(4)]) auto
  then obtain r m s where r: "cascade xxh crc S n (db_manifest d, db_fs d) = Some (r, (m, s))" by auto
  have "up s \<and> ?Q r m (disk s)" using c dn unfolding reaches_def r option.sel Let_def prod.case by simp
  then obtain E' where q: "up s" "r = Inr ()" "store_inv xxh crc dir E' m (disk s)" "rearranged E ?v E' (snd (m_current m))"
    "full_tier n (snd (m_current m)) = None" "?F (disk s)" by blast
  let ?d = "with_fs s (d\<lparr>db_manifest := m\<rparr>)" and ?v' = "snd (m_current m)"
  have le: "v_next_id ?v \<le> v_next_id ?v'" using q(4) by (simp add: rearranged_def)
  have "stored xxh crc dir E' ?v' (d_view (disk s))"
    by (rule store_disk_view [OF store_invD(2) [OF q(3)]])
  then have ts: "tables_at xxh crc (d_view (disk s)) dir (v_next_id ?v') E' (tables_newest_first ?v')"
    by (auto simp: stored_def version_wf_def tables_at_def)
  have "visible ([mem_of ws] @ version_levels E' ?v') k = visible ([mem_of ws] @ version_levels E ?v) k" for k
    using q(4) nf by (simp only: rearranged_def same_content_def)
  then have M: "visible (mem_levels (db_mem d) @ version_levels E' ?v') = M"
    using g(4) ml by (auto simp: db_content_def)
  have "fst (db_get xxh crc S key ?d) = Inr (M key)" for key
    using db_get_ok [of ?d dir ?v' xxh crc "v_next_id ?v'" E' key] q(1) i(1) ts readers_ok_mono [OF q(6) le] M by auto
  then show ?thesis using r q(2,5) by blast
qed

end

text \<open>With a fanout of at most one a pass is always due while there is anything to read.\<close>

fun passes :: "hash128 \<Rightarrow> crc \<Rightarrow> 'fs storage \<Rightarrow> nat \<Rightarrow> nat \<Rightarrow> manifest \<times> 'fs \<Rightarrow> bool" where
  "passes xxh crc S n 0 ms = True"
| "passes xxh crc S n (Suc k) ms = (let (r, ms') = maybe_compact xxh crc S n ms in r = Inr True \<and> passes xxh crc S n k ms')"

lemma full_tier_due:
  assumes "n \<le> 1" and "visible (version_levels E v) key \<noteq> None"
  shows "full_tier n v \<noteq> None"
proof
  assume none: "full_tier n v = None"
  have "ts = []" if "ts \<in> set (tiers v)" for ts
  proof -
    have "length ts < n" using none that unfolding full_tier_None by (rule bspec)
    then show ?thesis using assms(1) by (cases ts) auto
  qed
  then have "all_tables v = []" by (auto simp: all_tables_def)
  then have "set (tables_newest_first v) = {}" unfolding tables_newest_first_set by (simp only: list.set)
  then have "tables_newest_first v = []" by (simp only: set_empty)
  then have "version_levels E v = []" by (simp add: version_levels_def)
  then show False using assms(2) by (simp add: visible_def)
qed

context crash_fs
begin

lemma passes_due:
  assumes dn: "\<And>s D. \<not> down s D" and n: "n \<le> 1"
  shows "up s \<Longrightarrow> store_inv xxh crc dir E m (disk s) \<Longrightarrow> store_sane N E (snd (m_current m)) \<Longrightarrow>
    visible (version_levels E (snd (m_current m))) key \<noteq> None \<Longrightarrow> unat (v_next_id (snd (m_current m))) + k + 1 < 2 ^ 32 \<Longrightarrow>
    passes xxh crc S n k (m, s)"
proof (induction k arbitrary: s E m)
  case (Suc k)
  let ?v = "snd (m_current m)"
  let ?Q = "\<lambda>r m' D. r = Inr True \<and> (\<exists>E'. store_inv xxh crc dir E' m' D \<and> rearranged E ?v E' (snd (m_current m'))
      \<and> unat (v_next_id (snd (m_current m'))) \<le> unat (v_next_id ?v) + 1)"
  obtain r m' s' where r: "maybe_compact xxh crc S n (m, s) = (r, (m', s'))" by (metis prod.exhaust)
  have "reaches up disk down (maybe_compact xxh crc S n) (\<lambda>_. True) ?Q (m, s)"
  proof (rule reaches_maybe_compact [OF Suc.prems(1,2) refl Suc.prems(3) _ store_closed_True])
    show "?Q (Inr False) m (disk s)" if "full_tier n ?v = None"
      using that full_tier_due [OF n Suc.prems(4)] by simp
    show "?Q (Inr True) m'' D" if "store_inv xxh crc dir E' m'' D" "rearranged E ?v E' (snd (m_current m''))"
      "pass_done ?v t (snd (m_current m''))" for t E' m'' D
      using that by (auto simp: pass_done_def)
  qed (use Suc.prems(5) in auto)
  then have "up s' \<and> ?Q r m' (disk s')" using dn unfolding reaches_def r by simp
  then obtain E' where q: "up s'" "r = Inr True" "store_inv xxh crc dir E' m' (disk s')" "rearranged E ?v E' (snd (m_current m'))"
    "unat (v_next_id (snd (m_current m'))) \<le> unat (v_next_id ?v) + 1" by blast
  have "newest_first ([] @ version_levels E ?v)" using Suc.prems(3) by (simp add: store_sane_def)
  then have "visible ([] @ version_levels E' (snd (m_current m'))) key = visible ([] @ version_levels E ?v) key"
    using q(4) by (simp only: rearranged_def same_content_def)
  then have "passes xxh crc S n k (m', s')"
    using Suc.prems(4,5) q(5) by (intro Suc.IH [OF q(1,3) rearranged_sane [OF Suc.prems(3) q(4)]]) simp_all
  then show ?case using r q(2) by simp
qed simp

lemma db_good_flush: "db_good xxh crc dir M (Suc b) U d \<Longrightarrow> \<exists>r d'. db_flush xxh crc S d = Some (r, d')"
  unfolding db_good_def db_flush_def using flush_locked_ok by blast

lemma db_good_passes:
  assumes good: "db_good xxh crc dir M (Suc b) U d" and n: "n \<le> 1" and dn: "\<And>s D. \<not> down s D" and k: "k \<le> b"
    and M: "M key \<noteq> None" and f: "db_flush xxh crc S d = Some (r, d')"
  shows "r = Inr () \<and> passes xxh crc S n k (db_manifest d', db_fs d')"
proof -
  obtain E ws where g: "up (db_fs d)" "db_disk xxh crc dir E ws d (disk (db_fs d))" "mem_is ws d" "db_content E ws d = M"
    "db_room (Suc b) U E ws d" "db_idle d" using good by (auto simp: db_good_def)
  obtain E' where e: "up (db_fs d')" "r = Inr ()" "db_disk xxh crc dir E' [] d' (disk (db_fs d'))"
    "db_content E' [] d' = M" "db_room b U E' [] d'"
    using flush_locked_ok [OF g(1-3,6,5)] f dn by (auto simp: db_flush_def g(4) lost_def)
  note i = db_diskD [OF e(3)]
  have "store_sane (total_size (version_levels E' (db_version d'))) E' (db_version d')"
    using i(5) e(5) by (simp add: store_sane_def levels_ok_def db_room_def)
  moreover have "visible (version_levels E' (db_version d')) key \<noteq> None"
    using M e(4) by (auto simp: db_content_def visible_def)
  ultimately have "passes xxh crc S n k (db_manifest d', db_fs d')"
    using e(5) k by (intro passes_due [OF dn n e(1) i(2)]) (simp_all add: db_room_def)
  then show ?thesis using e(2) by simp
qed

end

text \<open>C12 (cascade_terminates): after any session the cascade of compactions ends, for every fanout of at
  least two: it returns without an error, in a version in which every tier holds fewer tables than the
  fanout, and every key reads as before.\<close>

theorem cascade_terminates:
  assumes opts: "is_durable (o_durability opts)" "2 \<le> o_tier_fanout opts" and n: "2 \<le> n"
    and xs: "length xs < 2 ^ 30" "entries_size (op_writes 1 xs) + 100 < 2 ^ 32" "list_all kv_fits (op_writes 1 xs)"
  shows "\<exists>d s d' m s'. db_open crc (sim_storage G) dir opts (sim_new seeded seed) = (Inr d, s)
      \<and> db_ops_run xxh crc (sim_storage G) xs d = Some (length xs, d')
      \<and> cascade xxh crc (sim_storage G) n (db_manifest d', db_fs d') = Some (Inr (), m, s')
      \<and> full_tier n (snd (m_current m)) = None
      \<and> (\<forall>key. fst (db_get xxh crc (sim_storage G) key (with_fs s' (d'\<lparr>db_manifest := m\<rparr>))) = Inr (map_ops xs Map.empty key))"
proof -
  obtain d s d' where d: "db_open crc (sim_storage G) dir opts (sim_new seeded seed) = (Inr d, s)"
    "db_ops_run xxh crc (sim_storage G) xs d = Some (length xs, d')"
    and good: "crash_fs.db_good sim_ok sim_disk xxh crc dir (map_ops xs Map.empty) 0 0 d'"
    by (rule db_run_fresh [OF opts _ xs(2,3), where b = 0]) (use xs(1) in simp)
  show ?thesis using crash_fs.db_good_cascade [OF sim_run.crash_fs_axioms good n, of G] d by blast
qed

theorem cascade_terminates_witness:
  "\<exists>d s d' m s'. db_open sum_crc (sim_storage first_choice) [''db''] demo_opts (sim_new (\<lambda>_. 0) 0) = (Inr d, s)
      \<and> db_ops_run (\<lambda>_. 0) sum_crc (sim_storage first_choice) demo_ops d = Some (length demo_ops, d')
      \<and> cascade (\<lambda>_. 0) sum_crc (sim_storage first_choice) 3 (db_manifest d', db_fs d') = Some (Inr (), m, s')
      \<and> full_tier 3 (snd (m_current m)) = None
      \<and> (\<forall>key. fst (db_get (\<lambda>_. 0) sum_crc (sim_storage first_choice) key (with_fs s' (d'\<lparr>db_manifest := m\<rparr>)))
            = Inr (map_ops demo_ops Map.empty key))"
  by (rule cascade_terminates) (use demo_fits in \<open>simp_all add: demo_opts_def is_durable_def demo_ops_def\<close>)

text \<open>C13 (fanout_one_never_done): with a tier fanout of zero or one the loop \<open>while maybe_compact()?\<close> has
  no reason to stop. After any session that leaves something to read, and a flush, every one of the
  next \<open>k\<close> passes succeeds and reports that there is more to do, for every \<open>k\<close> for which identifiers
  do not run out.\<close>

theorem fanout_one_never_done:
  assumes opts: "is_durable (o_durability opts)" "2 \<le> o_tier_fanout opts" and n: "n \<le> 1"
    and xs: "length xs + k < 2 ^ 29" "entries_size (op_writes 1 xs) + 100 < 2 ^ 32" "list_all kv_fits (op_writes 1 xs)"
    and key: "map_ops xs Map.empty key \<noteq> None"
  shows "\<exists>d s d' d''. db_open crc (sim_storage G) dir opts (sim_new seeded seed) = (Inr d, s)
      \<and> db_ops_run xxh crc (sim_storage G) xs d = Some (length xs, d')
      \<and> db_flush xxh crc (sim_storage G) d' = Some (Inr (), d'')
      \<and> passes xxh crc (sim_storage G) n k (db_manifest d'', db_fs d'')"
proof -
  obtain d s d' where d: "db_open crc (sim_storage G) dir opts (sim_new seeded seed) = (Inr d, s)"
    "db_ops_run xxh crc (sim_storage G) xs d = Some (length xs, d')"
    and good: "crash_fs.db_good sim_ok sim_disk xxh crc dir (map_ops xs Map.empty) (Suc k) 0 d'"
    by (rule db_run_fresh [OF opts _ xs(2,3), where b = "Suc k"]) (use xs(1) in simp)
  obtain r d'' where f: "db_flush xxh crc (sim_storage G) d' = Some (r, d'')"
    using crash_fs.db_good_flush [OF sim_run.crash_fs_axioms good, of G] by blast
  show ?thesis
    using crash_fs.db_good_passes [OF sim_run.crash_fs_axioms good n _ order_refl key f] d f by blast
qed

theorem fanout_one_never_done_witness:
  "\<exists>d s d' d''. db_open sum_crc (sim_storage first_choice) [''db''] demo_opts (sim_new (\<lambda>_. 0) 0) = (Inr d, s)
      \<and> db_ops_run (\<lambda>_. 0) sum_crc (sim_storage first_choice) demo_ops d = Some (length demo_ops, d')
      \<and> db_flush (\<lambda>_. 0) sum_crc (sim_storage first_choice) d' = Some (Inr (), d'')
      \<and> passes (\<lambda>_. 0) sum_crc (sim_storage first_choice) 1 100000 (db_manifest d'', db_fs d'')"
proof (rule fanout_one_never_done)
  show "map_ops demo_ops Map.empty [3] \<noteq> None" by (simp add: demo_ops_def)
qed (use demo_fits in \<open>simp_all add: demo_opts_def is_durable_def demo_ops_def\<close>)

text \<open>What a flush that fails at its first table leaves: the active memtable frozen, the mark of the
  flush taken back, and nothing else changed.\<close>

definition unflushed :: "'fs db \<Rightarrow> 'fs db" where
  "unflushed d = (freeze_active d)\<lparr>db_write := (db_write d)\<lparr>ws_flush_pending := False\<rparr>\<rparr>"

lemma with_fs_same: "with_fs (db_fs d) (d\<lparr>db_manifest := db_manifest d\<rparr>) = d"
  by (simp add: with_fs_def)

lemma active_bytes_frozen [simp]: "active_bytes (snd (freeze t)) = 0"
  by (simp add: active_bytes_def freeze_def Let_def memtable_new_def)

lemma unflushed_simps [simp]:
  "db_fs (unflushed d) = db_fs d" "db_manifest (unflushed d) = db_manifest d" "db_dir (unflushed d) = db_dir d"
  "db_write (unflushed d) = (db_write d)\<lparr>ws_flush_pending := False\<rparr>"
  "frozen_tables (db_mem (unflushed d)) = frozen_tables (db_mem (freeze_active d))"
  "unflushed (unflushed d) = unflushed d"
  by (simp_all add: unflushed_def freeze_active_def)

text \<open>C18 (flush_blocked_by_leftover): suppose something is buffered, no write is in flight, and a table
  file with the next identifier is already in the directory (a compaction without output leaves one,
  and if the power fails before it is collected it stays, as opening collects nothing). Then a flush
  fails with \<open>AlreadyExists\<close>, and it leaves exactly \<open>unflushed d\<close>: the storage, the manifest, the
  log, the readers and the counters as they were, the buffered records still in the memtables (the
  active one frozen), and \<open>flush_pending\<close> taken back, so that writers go on. A second flush fails in
  the same way and changes nothing at all, and so does every one after it.\<close>

theorem flush_blocked_by_leftover:
  assumes s: "sim_ok (db_fs d)" and idle: "ws_in_flight (db_write d) = 0"
    and mem: "0 < active_bytes (db_mem d) \<or> frozen_tables (db_mem d) \<noteq> []"
    and left: "sim_view (db_fs d) (table_path (db_dir d) (v_next_id (db_version d))) = Some c"
  shows "\<exists>e. e = Inl (Db_compaction (Cp_sstable (Storage_failed
        (AlreadyExists (table_path (db_dir d) (v_next_id (db_version d)))))))
      \<and> db_flush xxh crc (sim_storage G) d = Some (e, unflushed d)
      \<and> db_flush xxh crc (sim_storage G) (unflushed d) = Some (e, unflushed d)
      \<and> frozen_tables (db_mem (unflushed d)) \<noteq> []"
proof -
  let ?e = "Db_compaction (Cp_sstable (Storage_failed (AlreadyExists (table_path (db_dir d) (v_next_id (db_version d))))))"
  have blocked: "db_flush xxh crc (sim_storage G) b = Some (Inl ?e, unflushed b)"
    if b: "db_fs b = db_fs d" "db_dir b = db_dir d" "db_manifest b = db_manifest d" "ws_in_flight (db_write b) = 0"
      "frozen_tables (db_mem (freeze_active b)) \<noteq> []" for b :: "'a sim_state db"
  proof -
    let ?d = "freeze_active (b\<lparr>db_write := (db_write b)\<lparr>ws_flush_pending := True\<rparr>\<rparr>)"
    have f: "db_fs ?d = db_fs d" "db_manifest ?d = db_manifest d" "db_dir ?d = db_dir d"
      "db_mem ?d = db_mem (freeze_active b)"
      using b by (simp_all add: freeze_active_def)
    obtain fz fzs where fz: "frozen_tables (db_mem (freeze_active b)) = fz # fzs" using b(5) by (meson list.exhaust)
    have st: "flush_step xxh crc (sim_storage G) (db_dir ?d) (ws_next_seq (db_write ?d)) (snapshot (snd fz)) (db_manifest ?d, db_fs ?d)
        = (Inl ?e, (db_manifest d, db_fs d))"
      using crash_fs.flush_step_blocked [OF sim_run.crash_fs_axioms, of "db_fs d" "db_dir d" "db_manifest d" c] s left
      by (simp add: f)
    have id: "with_fs (db_fs d) (?d\<lparr>db_manifest := db_manifest d\<rparr>) = ?d" unfolding f(1,2) [symmetric] by (rule with_fs_same)
    have "flush_table xxh crc (sim_storage G) fz ?d = (Inl ?e, ?d)"
      unfolding flush_table_step st using id by simp
    then show ?thesis
      using b(4) by (simp add: db_flush_def flush_locked_def flush_quiesced_def Let_def f fz unflushed_def)
        (simp add: freeze_active_def)
  qed
  have frozen: "frozen_tables (db_mem (freeze_active d)) \<noteq> []"
    using mem by (auto simp: freeze_active_def freeze_def Let_def)
  moreover have "freeze_active (unflushed d) = unflushed d"
    by (simp add: unflushed_def freeze_active_def)
  ultimately show ?thesis
    using blocked [of d] blocked [of "unflushed d"] idle by simp
qed

text \<open>A memtable with one write, and an empty file in the way.\<close>

definition demo_left :: "nat sim_state db" where
  "demo_left = \<lparr>db_dir = [''db''], db_options = demo_opts,
     db_wal = \<lparr>wfs = snd (sim_create first_choice (table_path [''db''] 1) (sim_new (\<lambda>_. 0) 0)),
       active = fresh_segment [''db''] 1, coord = default_coord\<rparr>,
     db_mem = set_insert_if_newer [1] (iv_value 1 [2]) (set_new 8), db_manifest = opened_manifest [''db''] version_empty,
     db_readers = (\<lambda>_. None), db_write = \<lparr>ws_next_seq = 2, ws_in_flight = 0, ws_flush_pending = False\<rparr>\<rparr>"

theorem flush_blocked_by_leftover_witness:
  "\<exists>e. e = Inl (Db_compaction (Cp_sstable (Storage_failed
        (AlreadyExists (table_path (db_dir demo_left) (v_next_id (db_version demo_left)))))))
      \<and> db_flush (\<lambda>_. 0) sum_crc (sim_storage first_choice) demo_left = Some (e, unflushed demo_left)
      \<and> db_flush (\<lambda>_. 0) sum_crc (sim_storage first_choice) (unflushed demo_left) = Some (e, unflushed demo_left)
      \<and> frozen_tables (db_mem (unflushed demo_left)) \<noteq> []"
proof (rule flush_blocked_by_leftover)
  let ?s = "sim_new (\<lambda>_. 0 :: nat) 0" and ?p = "table_path [''db''] 1"
  have ok: "sim_ok ?s" and none: "sim_view ?s ?p = None" by (rule sim_new_fresh)+
  have c: "sim_ok (snd (sim_create first_choice ?p ?s))" "sim_view (snd (sim_create first_choice ?p ?s)) ?p = Some []"
    using crash_fs.cf_create [OF sim_run.crash_fs_axioms ok, of ?p first_choice] none
    by (auto simp: sim_storage_def disk_create_def simp flip: sim_disk_view)
  show "sim_ok (db_fs demo_left)" using c(1) by (simp add: demo_left_def)
  show "sim_view (db_fs demo_left) (table_path (db_dir demo_left) (v_next_id (db_version demo_left))) = Some []"
    using c(2) by (simp add: demo_left_def opened_manifest_def version_empty_def)
  show "0 < active_bytes (db_mem demo_left) \<or> frozen_tables (db_mem demo_left) \<noteq> []"
    by (simp add: demo_left_def active_bytes_def set_insert_if_newer_def set_new_def mt_insert_if_newer_def mt_insert_def
        memtable_new_def iv_value_def ENTRY_OVERHEAD_def entry_bytes_def bt_get_def)
qed (simp add: demo_left_def)

end
