(* ===== verification/Codec_Facts.thy ===== *)
theory Codec_Facts imports Db_Refine begin

text \<open>
  The formats that the engine puts on disk, one statement each: what is written is read back, names
  are parsed to what they were made of, and a damaged frame is reported as such.
\<close>

section \<open>Records and frames\<close>

text \<open>C19 (record_roundtrip): a log record decodes to the sequence number, key and value or tombstone
  that were logged, for keys and values whose length fits the 32-bit length field.\<close>

theorem record_roundtrip:
  assumes "length key < 2 ^ 32" and "payload_bytes \<lparr>seq = sq, kind = vk\<rparr> < 2 ^ 32"
  shows "decode_record (encode_record sq key vk) = Inr \<lparr>rec_seq = sq, rec_key = key, rec_value = \<lparr>seq = sq, kind = vk\<rparr>\<rparr>"
  using assms by (intro decode_encode_record) (auto simp: payload_bytes_def)

theorem record_roundtrip_witness:
  "decode_record (encode_record 7 [1, 2] (Value [3])) = Inr \<lparr>rec_seq = 7, rec_key = [1, 2], rec_value = \<lparr>seq = 7, kind = Value [3]\<rparr>\<rparr>"
  by (rule record_roundtrip) (simp_all add: payload_bytes_def)

text \<open>C20 (frame_bitflip_detected): with a checksum that tells the payload from its one-bit damages and
  from its prefixes, a frame with any one bit flipped, in the length, the checksum or the payload, is
  never decoded: the decoder reports truncation or a checksum mismatch, wherever the frame stands.\<close>

theorem frame_bitflip_detected:
  assumes "flip_safe crc p" and "length p < 2 ^ 32" and "i < length (encode crc p)" and "b < 8"
  shows "\<exists>e. decode crc (pre @ flip_bit (encode crc p) i b) (length pre) = Inl e"
  using decode_flipped [OF assms] by blast

theorem frame_bitflip_detected_witness:
  "\<exists>e. decode sum_crc ([9] @ flip_bit (encode sum_crc [1, 2, 3]) 9 4) (length [9 :: u8]) = Inl e"
  by (rule frame_bitflip_detected [OF sum_crc_safe]) (simp_all add: encode_def)

section \<open>The manifest\<close>

text \<open>C16 (manifest_roundtrip): a version whose lengths fit the format is read back from the bytes of its
  manifest, tiers, table order, key bounds and counters included.\<close>

theorem manifest_roundtrip:
  assumes "version_fits v"
  shows "decode_version crc (encode_version crc v) = Inr v"
  using assms by (rule decode_encode_version)

definition demo_version :: version where
  "demo_version = \<lparr>tiers = [[\<lparr>tm_id = 3, tm_entries = 2, tm_first = [1], tm_last = [4, 5]\<rparr>], [],
     [\<lparr>tm_id = 1, tm_entries = 9, tm_first = [], tm_last = [7]\<rparr>]], v_next_seq = 12, v_next_id = 4\<rparr>"

theorem manifest_roundtrip_witness: "decode_version sum_crc (encode_version sum_crc demo_version) = Inr demo_version"
  by (rule manifest_roundtrip) (simp add: version_fits_def tier_fits_def meta_fits_def demo_version_def)

text \<open>C15 (manifest_switch_atomic): writing a manifest replaces the old one atomically. If the power fails
  at any operation of the write, the manifest that survives is the old content or the whole new one,
  and it is the new one if the write had returned. If the power stays on the write succeeds, and the
  new manifest is all that any later power loss can leave under its name.\<close>

theorem manifest_switch_atomic:
  assumes h: "inj_up G h" and old: "d_images (inj_disk h) (join dir MANIFEST_NAME) = {old}"
    and w: "write_manifest crc (injector G) dir v h = (r, h')"
  shows "inj_up G h' \<and> r = Inr () \<and> sim_view (inner h') (join dir MANIFEST_NAME) = Some (encode_version crc v)
        \<and> d_images (inj_disk h') (join dir MANIFEST_NAME) = {Some (encode_version crc v)}
    \<or> halted h' \<and> (sim_view (inner h') (join dir MANIFEST_NAME) = Some (encode_version crc v)
        \<or> r \<noteq> Inr () \<and> sim_view (inner h') (join dir MANIFEST_NAME) = old)"
proof -
  let ?p = "join dir MANIFEST_NAME" and ?new = "Some (encode_version crc v)"
  let ?C = "\<lambda>D. d_images D ?p = {old} \<or> d_images D ?p = {?new}"
  let ?D = "disk_replace dir (join dir MANIFEST_TMP) ?p (encode_version crc v) (inj_disk h)"
  have tmp: "join dir MANIFEST_TMP \<noteq> ?p" by (rule manifest_names_ne)
  have D: "d_view ?D ?p = ?new" "d_images ?D ?p = {?new}"
    using replace_settles_dst [OF parent_join tmp] by (simp_all add: file_settled_def)
  have "runs (inj_up G) inj_disk (inj_down G) (write_manifest crc (injector G) dir v) ?C
      (\<lambda>r D. r = Inr () \<and> d_view D ?p = ?new \<and> d_images D ?p = {?new}) h"
    by (rule crash_fs.runs_write_manifest [OF inj.crash_fs_axioms h]) (use D old in simp_all)
  then show ?thesis
    unfolding runs_def w fst_conv snd_conv
  proof
    assume "\<exists>D. inj_down G h' D \<and> ?C D \<and> (\<forall>y. r = Inr y \<longrightarrow> Inr y = Inr () \<and> d_view D ?p = ?new \<and> d_images D ?p = {?new})"
    then obtain D where d: "inj_down G h' D" "?C D" "r = Inr () \<Longrightarrow> d_images D ?p = {?new}" by blast
    have "halted h'" "sim_view (inner h') ?p \<in> d_images D ?p"
      using d(1) inj_down_survivor(2) [OF d(1), of ?p] by (simp_all add: inj_down_def)
    then show ?thesis using d(2,3) by (cases "r = Inr ()") auto
  qed (simp_all add: inj_disk_def)
qed

definition demo_switch :: "(manifest_error + unit) \<times> nat injector" where
  "demo_switch = write_manifest sum_crc (injector first_choice) [''db''] demo_version
     (injector_new (arm_crash_after 3 (sim_new (\<lambda>_. 0) 0)))"

theorem manifest_switch_atomic_witness:
  "inj_up first_choice (snd demo_switch) \<and> fst demo_switch = Inr ()
        \<and> sim_view (inner (snd demo_switch)) (join [''db''] MANIFEST_NAME) = Some (encode_version sum_crc demo_version)
        \<and> d_images (inj_disk (snd demo_switch)) (join [''db''] MANIFEST_NAME) = {Some (encode_version sum_crc demo_version)}
    \<or> halted (snd demo_switch) \<and> (sim_view (inner (snd demo_switch)) (join [''db''] MANIFEST_NAME) = Some (encode_version sum_crc demo_version)
        \<or> fst demo_switch \<noteq> Inr () \<and> sim_view (inner (snd demo_switch)) (join [''db''] MANIFEST_NAME) = None)"
proof (rule manifest_switch_atomic)
  let ?s = "sim_new (\<lambda>_. 0 :: nat) 0"
  note fresh = sim_new_fresh [where seeded = "\<lambda>_. 0 :: nat" and seed = 0]
  have rep: "last_report ?s = None" by (simp add: sim_new_def)
  show "inj_up first_choice (injector_new (arm_crash_after 3 ?s))"
    by (rule injector_new_up(1) [OF first_choice_ok fresh(1) rep])
  show "d_images (inj_disk (injector_new (arm_crash_after 3 ?s))) (join [''db''] MANIFEST_NAME) = {None}"
    using settledD(1) [OF fresh(2), of "join [''db''] MANIFEST_NAME" "[''db'']"] fresh(4)
    unfolding injector_new_up(2) [OF first_choice_ok fresh(1) rep] by simp
  show "write_manifest sum_crc (injector first_choice) [''db''] demo_version (injector_new (arm_crash_after 3 ?s))
      = (fst demo_switch, snd demo_switch)"
    by (simp add: demo_switch_def)
qed

section \<open>Names\<close>

text \<open>C22 (names_roundtrip): the names of segments and tables are parsed back to the identifier they were
  made of, different identifiers have different names, and neither parser accepts the names of the
  other kind, the manifest's names, or the scratch file of a truncation.\<close>

theorem names_roundtrip:
  "parse_segment_id (segment_path dir i) = Some i \<and> parse_table_id (table_path dir i) = Some i
    \<and> (segment_path dir i = segment_path dir j \<longleftrightarrow> i = j) \<and> (table_path dir i = table_path dir j \<longleftrightarrow> i = j)
    \<and> parse_segment_id (table_path dir i) = None \<and> parse_table_id (segment_path dir i) = None
    \<and> parse_segment_id (tmp_path dir i) = None \<and> parse_table_id (tmp_path dir i) = None
    \<and> list_all (\<lambda>n. parse_segment_id (join dir n) = None \<and> parse_table_id (join dir n) = None) [MANIFEST_NAME, MANIFEST_TMP]"
  by simp

end
