(* ===== verification/Reader_Safety.thy ===== *)
theory Reader_Safety imports Sst_Reader begin

text \<open>
  The table reader on arbitrary files: whatever bytes a file holds, opening it, looking a key up and
  iterating over it end with a result or an error value. No index is out of range and no integer
  operation fails.
\<close>

named_theorems calm_intro \<open>programs that do not panic\<close>

definition calm :: "sst_error + 'a \<Rightarrow> bool" where
  "calm r \<longleftrightarrow> r \<noteq> Inl Panicked"

lemma calm_simps [simp]: "calm (Inr x)" "calm (Inl e) \<longleftrightarrow> e \<noteq> Panicked"
  by (simp_all add: calm_def)

lemma calm_res_then [calm_intro]: "calm r \<Longrightarrow> (\<And>x. r = Inr x \<Longrightarrow> calm (f x)) \<Longrightarrow> calm (res_then r f)"
  by (cases r) (simp_all add: calm_def)

lemma calm_ok_then [calm_intro]:
  "calm (fst r) \<Longrightarrow> (\<And>x s. r = (Inr x, s) \<Longrightarrow> calm (fst (f x s))) \<Longrightarrow> calm (fst (ok_then r f))"
  by (cases r; cases "fst r") (simp_all add: calm_def)

lemma calm_storage [calm_intro]: "calm (res_err Storage_failed r)"
  by (cases r) simp_all

section \<open>Decoding\<close>

text \<open>A decoder that starts inside its buffer ends inside it and does not panic.\<close>

definition safe :: "(sst_error + 'a) \<times> cursor \<Rightarrow> bool" where
  "safe r \<longleftrightarrow> calm (fst r) \<and> cur_ok (snd r)"

lemma safe_pair [calm_intro]: "calm r \<Longrightarrow> cur_ok c \<Longrightarrow> safe (r, c)"
  by (simp add: safe_def)

lemma safe_ok_then [calm_intro]:
  "safe r \<Longrightarrow> (\<And>x c. r = (Inr x, c) \<Longrightarrow> cur_ok c \<Longrightarrow> safe (f x c)) \<Longrightarrow> safe (ok_then r f)"
  by (cases r; cases "fst r") (simp_all add: safe_def)

lemma safe_calm: "safe r \<Longrightarrow> calm (fst r)"
  by (simp add: safe_def)

lemma safe_repeat_dec [calm_intro]:
  "cur_ok c \<Longrightarrow> (\<And>c. cur_ok c \<Longrightarrow> safe (d c)) \<Longrightarrow> safe (repeat_dec d n out c)"
  by (induction n arbitrary: out c) (auto intro!: calm_intro)

lemma cur_new_ok [calm_intro]: "cur_ok (cur_new b)"
  by (simp add: cur_ok_def cur_new_def)

lemma cur_left_ok: "cur_ok c \<Longrightarrow> cur_left c = Inr (cur_remaining c)"
  by (simp add: cur_ok_def cur_left_def cur_remaining_def)

lemma safe_cur_take [calm_intro]: "cur_ok c \<Longrightarrow> safe (cur_take n c)"
  by (auto simp: cur_take_def cur_left_ok slice_checked_def cur_ok_def cur_remaining_def safe_def)

lemma safe_cursor [calm_intro]:
  assumes "cur_ok c"
  shows "safe (cur_u32 c)" "safe (cur_u64 c)" "safe (cur_u8 c)"
  using assms unfolding cur_u32_def cur_u64_def cur_u8_def
  by (auto intro!: calm_intro dest!: cur_take_Inr)

lemma safe_decode_handle [calm_intro]: "cur_ok c \<Longrightarrow> safe (decode_handle c)"
  unfolding decode_handle_def by (intro calm_intro) simp_all

lemma safe_decode_entry [calm_intro]: "cur_ok c \<Longrightarrow> safe (decode_entry c)"
  unfolding decode_entry_def by (auto intro!: calm_intro)

lemma safe_decode_entries [calm_intro]: "cur_ok c \<Longrightarrow> safe (decode_entries out c)"
proof (induction out c rule: decode_entries.induct)
  case (1 out c)
  then show ?case by (subst decode_entries.simps) (auto simp: cur_left_ok intro!: calm_intro)
qed

lemma calm_decode_block [calm_intro]: "calm (decode_block b)"
  unfolding decode_block_def by (intro safe_calm calm_intro)

lemma calm_read_exact [calm_intro]: "calm (read_exact S p off n fs)"
  unfolding read_exact_def by (intro calm_intro) simp

lemma calm_verify [calm_intro]: "calm (verify_crc crc b what)" "calm (check_region off len limit what)"
  by (auto simp: verify_crc_def check_region_def Let_def)

lemma calm_decode_footer [calm_intro]: "calm (fst (decode_footer ft))"
  unfolding decode_footer_def by (rule safe_calm) (auto intro!: calm_intro)

lemma calm_bloom_decode [calm_intro]: "cur_ok c \<Longrightarrow> calm (fst (bloom_decode c))"
  unfolding bloom_decode_def by (rule safe_calm) (auto intro!: calm_intro)

lemma verify_crc_long: "verify_crc crc b what = Inr u \<Longrightarrow> \<not> length b < 4"
  by (auto simp: verify_crc_def)

lemma calm_without_crc: "verify_crc crc b what = Inr u \<Longrightarrow> calm (without_crc b)"
  using verify_crc_long [of crc b what u] by simp

lemma calm_decode_index: "verify_crc crc b what = Inr u \<Longrightarrow> calm (decode_index b)"
  unfolding decode_index_def by (intro calm_res_then calm_without_crc safe_calm) (auto intro!: calm_intro)

lemma bloom_decode_ok:
  assumes "fst (bloom_decode c) = Inr b"
  shows "bloom_ok b"
proof -
  from assms obtain c' where "bloom_decode c = (Inr b, c')" by (metis prod.collapse)
  then obtain nb where n: "num_bits b = nb" "nb \<noteq> 0" "nb mod 8 = 0" "unat (nb div 8) = length (bits b)"
    unfolding bloom_decode_def by (elim ok_then_InrE) (auto split: if_splits del: mod_0_imp_dvd)
  have e: "8 * unat (nb div 8) = unat nb"
  proof -
    have "unat (nb mod 8) = 0" using n(3) by (simp only: unat_0)
    then have "unat nb mod 8 = 0" by (simp add: unat_mod)
    then show ?thesis by (simp add: unat_div) presburger
  qed
  have "unat nb \<noteq> 0" using n(2) by (simp add: unat_eq_0)
  then have "2 \<le> unat nb" using e by (cases "unat (nb div 8)") auto
  then show ?thesis using e n by (simp add: bloom_ok_def word_le_nat_alt)
qed

section \<open>Lookup and iteration\<close>

lemma search_loop_less: "base + n \<le> length xs \<Longrightarrow> 0 < n \<Longrightarrow> search_loop f xs base n < length xs"
proof (induction n arbitrary: base rule: less_induct)
  case (less n)
  show ?case
  proof (cases "1 < n")
    case True
    then show ?thesis using less.prems by (subst search_loop_step) (auto intro!: less.IH)
  qed (use less.prems in \<open>simp add: search_loop_end\<close>)
qed

lemma partition_point_le: "partition_point p xs \<le> length xs"
proof (cases "xs = []")
  case False
  then show ?thesis
    using search_loop_less [of 0 "length xs" xs "\<lambda>x. if p x then Less else Greater"]
    by (auto simp: partition_point_def binary_search_by_def Let_def)
qed (simp add: partition_point_def binary_search_by_def)

lemma binary_search_less: "binary_search_by f xs = Inr i \<Longrightarrow> i < length xs"
  using search_loop_less [of 0 "length xs" xs f] by (auto simp: binary_search_by_def Let_def split: if_splits)

text \<open>The search ends on an element whose predicate it has seen to hold, or on the first one.\<close>

lemma search_loop_holds:
  "f (xs ! base) \<noteq> Greater \<Longrightarrow> f (xs ! search_loop f xs base n) \<noteq> Greater"
proof (induction n arbitrary: base rule: less_induct)
  case (less n)
  show ?case
  proof (cases "1 < n")
    case True
    then show ?thesis using less.prems by (simp only: search_loop_step) (intro less.IH; simp)
  qed (use less.prems in \<open>simp add: search_loop_end\<close>)
qed

lemma partition_point_pos: "xs \<noteq> [] \<Longrightarrow> P (xs ! 0) \<Longrightarrow> 0 < partition_point P xs"
  using search_loop_holds [of "\<lambda>x. if P x then Less else Greater" xs 0 "length xs"]
  by (auto simp: partition_point_def binary_search_by_def Let_def split: if_splits)

lemma find_block_cases:
  obtains "find_block r key = Inr None" | i where "find_block r key = Inr (Some i)" "i < length (r_index r)"
proof (cases "r_index r = [] \<or> key < h_first (r_index r ! 0)")
  case True
  then have "find_block r key = Inr None" by (auto simp: find_block_def)
  then show thesis by (rule that(1))
next
  case False
  let ?p = "partition_point (\<lambda>h. h_first h \<le> key) (r_index r)"
  have p: "0 < ?p" "?p \<le> length (r_index r)"
    using False by (auto intro!: partition_point_pos partition_point_le simp: not_less)
  then have "find_block r key = Inr (Some (?p - 1))" using False by (simp add: find_block_def Let_def Suc_le_eq)
  then show thesis using p by (intro that(2)) auto
qed

lemma calm_load_block: "i < length (r_index r) \<Longrightarrow> calm (load_block crc S fs r i)"
  unfolding load_block_def by (auto intro!: calm_intro calm_without_crc)

lemma calm_reader_get:
  assumes "bloom_ok (r_bloom r)"
  shows "calm (reader_get xxh crc S fs r key)"
proof -
  obtain c where "bloom_contains xxh (r_bloom r) key = Some c"
  proof -
    obtain pr where "probes xxh (r_bloom r) key = Some pr" "list_all (\<lambda>idx. unat idx < 8 * length (bits (r_bloom r))) pr"
      by (rule probes_ok [OF assms])
    then show thesis using that by (simp add: bloom_contains_def all_set_iff)
  qed
  moreover have "calm (case binary_search_by f es of Inr i \<Rightarrow> res_then (nth_checked es i) (\<lambda>e. Inr (Some e)) | Inl j \<Rightarrow> Inr None)"
    for f and es :: "sst_entry list"
    by (cases "binary_search_by f es") (auto dest: binary_search_less)
  ultimately show ?thesis
    by (cases rule: find_block_cases [of r key]; cases c)
       (auto simp: reader_get_def intro!: calm_res_then calm_load_block)
qed

lemma calm_iter_next: "fst (iter_next crc S fs it) \<noteq> Some (Inl Panicked)"
proof (induction crc S fs it rule: iter_next.induct)
  case (1 crc S fs it)
  show ?case
  proof (cases "it_loaded it \<and> it_within it < length (it_block it) \<or> length (r_index (it_reader it)) \<le> it_block_idx it")
    case True
    then show ?thesis by (subst iter_next.simps) auto
  next
    case False
    then have "calm (load_block crc S fs (it_reader it) (it_block_idx it))" by (intro calm_load_block) simp
    then show ?thesis using 1 False by (subst iter_next.simps) (auto split: sum.split)
  qed
qed

lemma calm_for_entries: "for_entries crc S fs body acc it \<noteq> Inl Panicked"
proof (induction crc S fs body acc it rule: for_entries.induct)
  case (1 crc S fs body acc it)
  obtain r it' where n: "iter_next crc S fs it = (r, it')" by force
  have p: "r \<noteq> Some (Inl Panicked)" using calm_iter_next [of crc S fs it] n by simp
  show ?case
  proof (cases r)
    case (Some e)
    then show ?thesis using 1 n p by (cases e) (simp_all add: for_entries.simps [of crc S fs body acc it])
  qed (simp add: for_entries.simps [of crc S fs body acc it] n)
qed

lemma reader_open_bloom: "reader_open crc S p fs = Inr r \<Longrightarrow> bloom_ok (r_bloom r)"
  unfolding reader_open_def by (auto simp: bloom_decode_ok split: if_splits)

lemma calm_reader_open: "calm (reader_open crc S p fs)"
  unfolding reader_open_def by (auto intro!: calm_intro calm_decode_index calm_without_crc)

text \<open>C17 (table_reader_no_panic): on a file of any content, through any storage, opening a table never
  panics; and on a reader that was opened, no lookup and no iteration step does. The operations that
  can panic have an error result of their own here: \<open>p - 1\<close> in the search of the index (the guard
  on the first key is what makes \<open>p\<close> positive, also on an index that is not sorted),
  \<open>len - 4\<close> before every checksum, the offset of the footer, the index of a block and of an entry,
  the slices and the subtraction of the cursor, the conversions into four and eight bytes, the
  capacity reserved for an index of any count, and the probes of the filter. Running out of memory
  is not a panic and is not modelled.\<close>

theorem table_reader_no_panic:
  "case reader_open crc S p fs of
     Inl e \<Rightarrow> e \<noteq> Panicked
   | Inr r \<Rightarrow> reader_get xxh crc S fs' r key \<noteq> Inl Panicked
       \<and> (case find_block r key of
            Inl e \<Rightarrow> False | Inr None \<Rightarrow> True | Inr (Some i) \<Rightarrow> i < length (r_index r))
       \<and> for_entries crc S fs' body acc (reader_iter r) \<noteq> Inl Panicked"
proof (cases "reader_open crc S p fs")
  case (Inr r)
  then show ?thesis
    using calm_reader_get [OF reader_open_bloom [OF Inr], of xxh crc S fs' key]
      calm_for_entries [of crc S fs' body acc "reader_iter r"]
    by (cases rule: find_block_cases [of r key]) (simp_all add: calm_def)
qed (use calm_reader_open [of crc S p fs] in \<open>simp add: calm_def\<close>)

end
