(* ===== verification/Group_Commit.thy ===== *)
theory Group_Commit imports Wal_Durability begin

text \<open>
  Group commit with many writers (\<open>Wal::commit_group\<close> in \<open>src/src/wal/mod.rs\<close>): the threads take
  turns in the critical sections of the coordinator mutex, the leader writes its batch under the writer
  mutex, and the others wait on the condition variable, which may also wake up spuriously. Every
  interleaving is covered. What is acknowledged to any writer survives a power loss at any operation,
  and the writers cannot all be left waiting.
\<close>

section \<open>Threads and their steps\<close>

datatype gc_pc =
    Outside
  | Waiting u64 bytes
  | Parked u64 bytes
  | Leading u64 bytes "(u64 \<times> bytes) list"
  | Publishing u64 bytes "(u64 \<times> bytes) list" "storage_error + unit"
  | Returned u64 bytes "storage_error + unit"

record 'fs gc =
  gc_wal :: "'fs wal"
  gc_pc :: "nat \<Rightarrow> gc_pc"

definition gc_coord :: "coord \<Rightarrow> 'fs gc \<Rightarrow> 'fs gc" where
  "gc_coord c g = g\<lparr>gc_wal := (gc_wal g)\<lparr>coord := c\<rparr>\<rparr>"

definition gc_at :: "nat \<Rightarrow> gc_pc \<Rightarrow> 'fs gc \<Rightarrow> 'fs gc" where
  "gc_at t p g = g\<lparr>gc_pc := (gc_pc g)(t := p)\<rparr>"

text \<open>\<open>notify_all\<close>.\<close>

definition woken :: "gc_pc \<Rightarrow> gc_pc" where
  "woken p = (case p of Parked q x \<Rightarrow> Waiting q x | _ \<Rightarrow> p)"

text \<open>The next step of thread \<open>t\<close>; \<open>x\<close> is the record of a new call. A parked thread does not step.\<close>

definition gc_step :: "crc \<Rightarrow> 'fs storage \<Rightarrow> wal_cfg \<Rightarrow> nat \<Rightarrow> bytes \<Rightarrow> 'fs gc \<Rightarrow> 'fs gc" where
  "gc_step crc S cfg t x g =
     (let c = coord (gc_wal g)
      in case gc_pc g t of
           Outside \<Rightarrow> (let (q, c) = group_enqueue (encode crc x) c in gc_at t (Waiting q x) (gc_coord c g))
         | Waiting q y \<Rightarrow>
             (case group_decide q c of
                (Acked, c) \<Rightarrow> gc_at t (Returned q y (Inr ())) (gc_coord c g)
              | (Park, c) \<Rightarrow> gc_at t (Parked q y) (gc_coord c g)
              | (Lead batch, c) \<Rightarrow> gc_at t (Leading q y batch) (gc_coord c g))
         | Parked q y \<Rightarrow> g
         | Leading q y batch \<Rightarrow>
             (let (io, W) = write_batch S cfg batch (gc_wal g)
              in gc_at t (Publishing q y batch io) (g\<lparr>gc_wal := W\<rparr>))
         | Publishing q y batch io \<Rightarrow>
             gc_at t (Returned q y io) ((gc_coord (group_publish q batch io c) g)\<lparr>gc_pc := woken \<circ> gc_pc g\<rparr>)
         | Returned q y r \<Rightarrow> gc_at t Outside g)"

text \<open>The states that some interleaving reaches, with the records in the order of their calls.\<close>

inductive gc_reach :: "crc \<Rightarrow> 'fs storage \<Rightarrow> wal_cfg \<Rightarrow> 'fs gc \<Rightarrow> bytes list \<Rightarrow> 'fs gc \<Rightarrow> bool"
  for crc S cfg g0 where
  start: "gc_reach crc S cfg g0 [] g0"
| call: "gc_reach crc S cfg g0 xs g \<Longrightarrow> gc_pc g t = Outside \<Longrightarrow> gc_reach crc S cfg g0 (xs @ [x]) (gc_step crc S cfg t x g)"
| run: "gc_reach crc S cfg g0 xs g \<Longrightarrow> gc_pc g t \<noteq> Outside \<Longrightarrow> gc_reach crc S cfg g0 xs (gc_step crc S cfg t [] g)"
| wake: "gc_reach crc S cfg g0 xs g \<Longrightarrow> gc_pc g t = Parked q y \<Longrightarrow> gc_reach crc S cfg g0 xs (gc_at t (Waiting q y) g)"

section \<open>Batches\<close>

text \<open>The frames of the calls number \<open>i + 1\<close> to \<open>j\<close>.\<close>

definition numbered :: "crc \<Rightarrow> bytes list \<Rightarrow> nat \<Rightarrow> nat \<Rightarrow> (u64 \<times> bytes) list" where
  "numbered crc xs i j = map (\<lambda>k. (of_nat (Suc k), encode crc (xs ! k))) [i..<j]"

lemma numbered_append: "i \<le> j \<Longrightarrow> j \<le> k \<Longrightarrow> numbered crc xs i j @ numbered crc xs j k = numbered crc xs i k"
  using upt_add_eq_append [of i j "k - j"] by (simp add: numbered_def flip: map_append)

lemma numbered_old: "j \<le> length xs \<Longrightarrow> numbered crc (xs @ [x]) i j = numbered crc xs i j"
  by (simp add: numbered_def nth_append)

lemma numbered_new:
  "i \<le> length xs \<Longrightarrow> numbered crc (xs @ [x]) i (Suc (length xs)) = numbered crc xs i (length xs) @ [(of_nat (Suc (length xs)), encode crc x)]"
  using numbered_old [of "length xs" xs crc x i] by (simp add: numbered_def)

lemma numbered_empty [simp]: "numbered crc xs i i = []" "numbered crc xs i j = [] \<longleftrightarrow> j \<le> i"
  by (auto simp: numbered_def)

lemma numbered_last: "i < j \<Longrightarrow> fst (last (numbered crc xs i j)) = of_nat j"
  by (cases j) (simp_all add: numbered_def)

lemma numbered_frames: "i \<le> j \<Longrightarrow> j \<le> length xs \<Longrightarrow> map snd (numbered crc xs i j) = map (encode crc) (take (j - i) (drop i xs))"
  by (rule nth_equalityI) (simp_all add: numbered_def)

section \<open>The coordinator\<close>

definition called :: "bytes list \<Rightarrow> u64 \<Rightarrow> bytes \<Rightarrow> bool" where
  "called xs q y \<longleftrightarrow> 0 < unat q \<and> unat q \<le> length xs \<and> xs ! (unat q - 1) = y"

lemma called_append: "called xs q y \<Longrightarrow> called (xs @ [x]) q y"
  by (auto simp: called_def nth_append)

definition leads :: "gc_pc \<Rightarrow> bool" where
  "leads p \<longleftrightarrow> (case p of Leading _ _ _ \<Rightarrow> True | Publishing _ _ _ _ \<Rightarrow> True | _ \<Rightarrow> False)"

lemma leads_simps [simp]:
  "\<not> leads Outside" "\<not> leads (Waiting q y)" "\<not> leads (Parked q y)" "\<not> leads (Returned q y r)"
  "leads (Leading q y b)" "leads (Publishing q y b io)"
  by (simp_all add: leads_def)

text \<open>What a thread knows: \<open>s\<close> calls are durable, and a leader has the batch of the calls up to \<open>a\<close>.\<close>

definition pc_ok :: "crc \<Rightarrow> bytes list \<Rightarrow> nat \<Rightarrow> nat \<Rightarrow> bool \<Rightarrow> gc_pc \<Rightarrow> bool" where
  "pc_ok crc xs s a leader p \<longleftrightarrow>
     (case p of
        Outside \<Rightarrow> True
      | Waiting q y \<Rightarrow> called xs q y
      | Parked q y \<Rightarrow> called xs q y \<and> leader
      | Leading q y batch \<Rightarrow> called xs q y \<and> batch = numbered crc xs s a \<and> s < a \<and> leader \<and> unat q \<le> a
      | Publishing q y batch io \<Rightarrow> called xs q y \<and> batch = numbered crc xs s a \<and> s < a \<and> leader \<and> unat q \<le> a
      | Returned q y r \<Rightarrow> called xs q y \<and> (r = Inr () \<longrightarrow> unat q \<le> s))"

lemmas pc_ok_simps [simp] = pc_ok_def [of _ _ _ _ _ Outside, simplified] pc_ok_def [of _ _ _ _ _ "Waiting q y" for q y, simplified]
  pc_ok_def [of _ _ _ _ _ "Parked q y" for q y, simplified] pc_ok_def [of _ _ _ _ _ "Leading q y b" for q y b, simplified]
  pc_ok_def [of _ _ _ _ _ "Publishing q y b io" for q y b io, simplified] pc_ok_def [of _ _ _ _ _ "Returned q y r" for q y r, simplified]

text \<open>The queue holds the calls after \<open>a\<close>, in order; at most one thread leads.\<close>

definition coord_ok :: "crc \<Rightarrow> bytes list \<Rightarrow> nat \<Rightarrow> nat \<Rightarrow> coord \<Rightarrow> (nat \<Rightarrow> gc_pc) \<Rightarrow> bool" where
  "coord_ok crc xs s a c pc \<longleftrightarrow> unat (next_seq c) = length xs \<and> unat (synced_through c) = s \<and> s \<le> a \<and> a \<le> length xs
     \<and> queue c = numbered crc xs a (length xs) \<and> (\<forall>t. pc_ok crc xs s a (leader_active c) (pc t))
     \<and> (leader_active c \<longrightarrow> (\<exists>t. leads (pc t))) \<and> (\<not> leader_active c \<longrightarrow> a = s)
     \<and> (\<forall>t u. leads (pc t) \<longrightarrow> leads (pc u) \<longrightarrow> t = u)"

lemma coord_okD:
  assumes "coord_ok crc xs s a c pc"
  shows "unat (next_seq c) = length xs" and "unat (synced_through c) = s" and "s \<le> a" and "a \<le> length xs"
    and "queue c = numbered crc xs a (length xs)" and "pc_ok crc xs s a (leader_active c) (pc t)"
    and "leader_active c \<Longrightarrow> \<exists>t. leads (pc t)" and "\<not> leader_active c \<Longrightarrow> a = s"
    and "leads (pc t) \<Longrightarrow> leads (pc u) \<Longrightarrow> t = u"
  using assms unfolding coord_ok_def by blast+

lemma coord_okI:
  assumes "unat (next_seq c) = length xs" and "unat (synced_through c) = s" and "s \<le> a" and "a \<le> length xs"
    and "queue c = numbered crc xs a (length xs)" and "\<And>t. pc_ok crc xs s a (leader_active c) (pc t)"
    and "leader_active c \<Longrightarrow> \<exists>t. leads (pc t)" and "\<not> leader_active c \<Longrightarrow> a = s"
    and "\<And>t u. leads (pc t) \<Longrightarrow> leads (pc u) \<Longrightarrow> t = u"
  shows "coord_ok crc xs s a c pc"
  using assms unfolding coord_ok_def by blast

text \<open>A step of a thread that neither was nor becomes the leader.\<close>

lemma coord_ok_other:
  assumes ok: "coord_ok crc xs s a c pc" and "\<not> leads (pc t)" and "\<not> leads p" and "pc_ok crc xs s a (leader_active c) p"
  shows "coord_ok crc xs s a c (pc(t := p))"
proof (rule coord_okI)
  note d = coord_okD [OF ok]
  show "\<exists>u. leads ((pc(t := p)) u)" if act: "leader_active c"
  proof -
    obtain u where "leads (pc u)" using d(7) [OF act] by blast
    then show ?thesis using assms(2) by (intro exI [of _ u]) auto
  qed
  show "pc_ok crc xs s a (leader_active c) ((pc(t := p)) u)" for u using d(6) assms(4) by simp
  show "u = v" if "leads ((pc(t := p)) u)" "leads ((pc(t := p)) v)" for u v
    using that assms(3) d(9) by (auto split: if_splits)
qed (use coord_okD [OF ok] in auto)

text \<open>The leader stays the leader.\<close>

lemma coord_ok_leader:
  assumes ok: "coord_ok crc xs s a c pc" and l: "leads (pc t)" "leads p" and p: "pc_ok crc xs s a (leader_active c) p"
  shows "coord_ok crc xs s a c (pc(t := p))"
proof (rule coord_okI)
  note d = coord_okD [OF ok]
  show "\<exists>u. leads ((pc(t := p)) u)" using l(2) by (intro exI [of _ t]) simp
  show "pc_ok crc xs s a (leader_active c) ((pc(t := p)) u)" for u using d(6) p by simp
  show "u = v" if "leads ((pc(t := p)) u)" "leads ((pc(t := p)) v)" for u v
    using that d(9) l(1) by (metis fun_upd_other)
qed (use coord_okD [OF ok] in auto)

text \<open>Enqueueing.\<close>

lemma pc_ok_append: "pc_ok crc xs s a l p \<Longrightarrow> a \<le> length xs \<Longrightarrow> pc_ok crc (xs @ [x]) s a l p"
  by (cases p) (auto simp: called_append numbered_old)

lemma coord_enqueue:
  assumes ok: "coord_ok crc xs s a c pc" and t: "pc t = Outside" and room: "length xs + 1 < 2 ^ 64"
    and e: "group_enqueue (encode crc x) c = (q, c')"
  shows "coord_ok crc (xs @ [x]) s a c' (pc(t := Waiting q x))"
proof (rule coord_ok_other)
  note d = coord_okD [OF ok]
  have q: "q = next_seq c + 1" "c' = c\<lparr>next_seq := q, queue := queue c @ [(q, encode crc x)]\<rparr>"
    using e by (auto simp: group_enqueue_def Let_def)
  have n: "unat q = length xs + 1" using d(1) room unfolding q(1) by (subst unat_u64_Suc) simp_all
  then have "of_nat (unat q) = (of_nat (Suc (length xs)) :: u64)" by simp
  then have qn: "q = of_nat (Suc (length xs))" by simp
  show "pc_ok crc (xs @ [x]) s a (leader_active c') (Waiting q x)" using n by (simp add: called_def)
  show "coord_ok crc (xs @ [x]) s a c' pc"
  proof (rule coord_okI)
    show "queue c' = numbered crc (xs @ [x]) a (length (xs @ [x]))"
      using d(4,5) numbered_new [of a xs crc x] qn by (simp add: q(2))
    show "pc_ok crc (xs @ [x]) s a (leader_active c') (pc u)" for u
      using pc_ok_append [OF d(6) d(4)] by (simp add: q(2))
  qed (use d n in \<open>auto simp: q(2)\<close>)
qed (use t in simp_all)

text \<open>Deciding.\<close>

lemma coord_decide:
  assumes ok: "coord_ok crc xs s a c pc" and t: "pc t = Waiting q y" and e: "group_decide q c = (role, c')"
  shows "role = Acked \<Longrightarrow> c' = c \<and> coord_ok crc xs s a c' (pc(t := Returned q y (Inr ())))"
    and "role = Park \<Longrightarrow> c' = c \<and> coord_ok crc xs s a c' (pc(t := Parked q y))"
    and "role = Lead b \<Longrightarrow> coord_ok crc xs s (length xs) c' (pc(t := Leading q y b)) \<and> a = s"
proof -
  note d = coord_okD [OF ok]
  have q: "called xs q y" using d(6) [of t] t by simp
  have nl: "\<not> leads (pc t)" using t by simp
  show "c' = c \<and> coord_ok crc xs s a c' (pc(t := Returned q y (Inr ())))" if "role = Acked"
    using e that q d(2) coord_ok_other [OF ok nl, of "Returned q y (Inr ())"]
    by (simp add: group_decide_def word_le_nat_alt split: if_splits)
  show "c' = c \<and> coord_ok crc xs s a c' (pc(t := Parked q y))" if "role = Park"
    using e that q coord_ok_other [OF ok nl, of "Parked q y"] by (simp add: group_decide_def split: if_splits)
  assume "role = Lead b"
  then have l: "\<not> q \<le> synced_through c" "\<not> leader_active c" "b = queue c" "c' = c\<lparr>leader_active := True, queue := []\<rparr>"
    using e by (auto simp: group_decide_def split: if_splits)
  have a: "a = s" by (rule d(8) [OF l(2)])
  have lt: "s < length xs" using l(1) q d(2) by (simp add: word_le_nat_alt called_def)
  have qa: "unat q \<le> length xs" using q by (simp add: called_def)
  have none: "\<not> leads (pc u)" for u
  proof -
    have "pc_ok crc xs s a False (pc u)" using d(6) [of u] l(2) by simp
    then show ?thesis by (cases "pc u") simp_all
  qed
  have "coord_ok crc xs s (length xs) c' (pc(t := Leading q y b))"
  proof (rule coord_okI)
    show "pc_ok crc xs s (length xs) (leader_active c') ((pc(t := Leading q y b)) u)" for u
      using d(6) [of u] none [of u] q qa lt d(5) l(3) a by (cases "pc u") (auto simp: l(4))
    show "\<exists>u. leads ((pc(t := Leading q y b)) u)" by (intro exI [of _ t]) simp
    show "u = v" if "leads ((pc(t := Leading q y b)) u)" "leads ((pc(t := Leading q y b)) v)" for u v
      using that none by (auto split: if_splits)
  qed (use d in \<open>auto simp: l(4)\<close>)
  then show "coord_ok crc xs s (length xs) c' (pc(t := Leading q y b)) \<and> a = s" using a by simp
qed

text \<open>Publishing.\<close>

lemma coord_publish:
  assumes ok: "coord_ok crc xs s a c pc" and t: "pc t = Publishing q y b io"
  defines "c' \<equiv> group_publish q b io c" and "pc' \<equiv> (woken \<circ> pc)(t := Returned q y io)"
  shows "io = Inr () \<Longrightarrow> coord_ok crc xs a a c' pc'" and "io = Inl e \<Longrightarrow> coord_ok crc xs s s c' pc'"
proof -
  note d = coord_okD [OF ok]
  have p: "called xs q y" "b = numbered crc xs s a" "s < a" "leader_active c" "unat q \<le> a"
    using d(6) [of t] t by simp_all
  have lim: "length xs < 2 ^ 64" using d(1) unsigned_less [of "next_seq c", where 'a = nat] by simp
  have la: "unat (of_nat a :: u64) = a" using d(4) lim by (simp add: unat_of_nat take_bit_nat_eq_self)
  have hi: "fst (last b) = of_nat a" using numbered_last [OF p(3)] p(2) by simp
  have b: "b \<noteq> []" using p(2,3) by simp
  have nl: "\<not> leads (pc' u)" for u
  proof (cases "u = t")
    case False
    then have "\<not> leads (pc u)" using d(9) [of t u] t by auto
    then show ?thesis using False by (cases "pc u") (simp_all add: pc'_def woken_def)
  qed (simp add: pc'_def)
  have others: "pc_ok crc xs m m l (woken (pc u))" if "s \<le> m" "u \<noteq> t" for u m l
  proof -
    have "\<not> leads (pc u)" using d(9) [of t u] t that(2) by auto
    then show ?thesis using d(6) [of u] that(1) by (cases "pc u") (auto simp: woken_def)
  qed
  show "coord_ok crc xs a a c' pc'" if io: "io = Inr ()"
  proof (rule coord_okI)
    show "unat (synced_through c') = a"
      using d(2) p(3) la hi b by (simp add: c'_def group_publish_def io Let_def max_def word_le_nat_alt)
    show "pc_ok crc xs a a (leader_active c') (pc' u)" for u
      using others [of a u] p d(3) io by (simp add: pc'_def)
  qed (use d nl in \<open>auto simp: c'_def group_publish_def io Let_def\<close>)
  show "coord_ok crc xs s s c' pc'" if io: "io = Inl e"
  proof (rule coord_okI)
    show "queue c' = numbered crc xs s (length xs)"
      using numbered_append [of s a "length xs" crc xs] d(4,5) p(2,3) by (simp add: c'_def group_publish_def io Let_def)
    show "pc_ok crc xs s s (leader_active c') (pc' u)" for u
      using others [of s u] p io by (simp add: pc'_def)
  qed (use d nl in \<open>auto simp: c'_def group_publish_def io Let_def\<close>)
qed

section \<open>The log\<close>

lemma ok_then_proj: "(\<And>x W'. P W' \<Longrightarrow> P (snd (f x W'))) \<Longrightarrow> P (snd m) \<Longrightarrow> P (snd (ok_then m f))"
  by (cases m; cases "fst m") auto

lemma write_batch_coord: "coord (snd (write_batch S cfg batch W)) = coord W"
proof -
  have on: "coord (snd (on_fs m W)) = coord W" for m :: "'a \<Rightarrow> (storage_error + 'b) \<times> 'a" and W
    by (simp add: on_fs_def case_prod_unfold Let_def)
  have app: "coord (snd (active_append S x W)) = coord W" for x W
    unfolding active_append_def by (rule ok_then_proj [where P = "\<lambda>W'. coord W' = coord W"]) (simp_all add: on)
  have sync: "coord (snd (active_sync S W)) = coord W" for W by (simp add: active_sync_def on)
  have rot: "coord (snd (maybe_rotate S cfg W)) = coord W" for W
  proof (cases "write_offset (active W) < segment_size cfg")
    case False
    then show ?thesis
      unfolding maybe_rotate_def Let_def if_not_P [OF False]
      by (intro ok_then_proj [where P = "\<lambda>W'. coord W' = coord W"]) (simp_all add: on sync)
  qed (simp add: maybe_rotate_def)
  have batch: "coord (snd (append_batch S batch W)) = coord W"
  proof (induction batch arbitrary: W)
    case (Cons b batch)
    obtain q f where b: "b = (q, f)" by force
    show ?case unfolding b append_batch.simps
      by (rule ok_then_proj [where P = "\<lambda>W'. coord W' = coord W"]) (use Cons.IH app in simp_all)
  qed simp
  show ?thesis
    unfolding write_batch_def by (intro ok_then_proj [where P = "\<lambda>W'. coord W' = coord W"]) (simp_all add: batch sync rot)
qed

definition published :: "(nat \<Rightarrow> gc_pc) \<Rightarrow> bool" where
  "published pc \<longleftrightarrow> (\<exists>t q y b. pc t = Publishing q y b (Inr ()))"

definition on_disk :: "nat \<Rightarrow> nat \<Rightarrow> (nat \<Rightarrow> gc_pc) \<Rightarrow> nat" where
  "on_disk s a pc = (if published pc then a else s)"

lemma on_disk_other: "\<not> leads (pc t) \<Longrightarrow> \<not> leads p \<Longrightarrow> on_disk s a (pc(t := p)) = on_disk s a pc"
  unfolding on_disk_def published_def by (metis fun_upd_apply leads_simps(6))

definition gc_bounds :: "crc \<Rightarrow> nat \<Rightarrow> bytes list \<Rightarrow> bytes list \<Rightarrow> bool" where
  "gc_bounds crc id0 old xs \<longleftrightarrow> records_ok xs \<and> addressable (frames crc (old @ xs)) \<and> id0 + length xs + 1 < 2 ^ 64"

lemma gc_bounds_append: "gc_bounds crc id0 old (xs @ [x]) \<Longrightarrow> gc_bounds crc id0 old xs"
  by (simp add: gc_bounds_def addressable_def)

context crash_fs
begin

text \<open>The first \<open>n\<close> calls are on disk; after a power loss at least these.\<close>

definition logged :: "crc \<Rightarrow> path \<Rightarrow> nat \<Rightarrow> bytes list \<Rightarrow> bytes list \<Rightarrow> nat \<Rightarrow> 'fs wal \<Rightarrow> bool" where
  "logged crc dir id0 old xs n W \<longleftrightarrow>
     (up (wfs W) \<and> (\<exists>lead ps. wal_inv crc dir (disk (wfs W)) (active W) lead ps [] \<and> concat (map snd lead) @ ps = old @ take n xs)
        \<and> unat (seg_id (active W)) \<le> id0 + n)
     \<or> (\<exists>D m pend. down (wfs W) D \<and> n \<le> m \<and> m \<le> length xs \<and> durable_log crc dir D (old @ take m xs) pend)"

lemma logged_append: "logged crc dir id0 old xs n W \<Longrightarrow> n \<le> length xs \<Longrightarrow> logged crc dir id0 old (xs @ [x]) n W"
  unfolding logged_def
proof (elim disjE exE conjE)
  fix D m pend assume "down (wfs W) D" "n \<le> m" "m \<le> length xs" "durable_log crc dir D (old @ take m xs) pend"
  then show "(up (wfs W) \<and> (\<exists>lead ps. wal_inv crc dir (disk (wfs W)) (active W) lead ps [] \<and> concat (map snd lead) @ ps = old @ take n (xs @ [x]))
        \<and> unat (seg_id (active W)) \<le> id0 + n)
     \<or> (\<exists>D m pend. down (wfs W) D \<and> n \<le> m \<and> m \<le> length (xs @ [x]) \<and> durable_log crc dir D (old @ take m (xs @ [x])) pend)"
    by (intro disjI2 exI [of _ D] exI [of _ m] exI [of _ pend]) simp
qed auto

lemma logged_coord [simp]: "logged crc dir id0 old xs n (W\<lparr>coord := c\<rparr>) = logged crc dir id0 old xs n W"
  by (simp add: logged_def)

lemma logged_mono: "logged crc dir id0 old xs n W \<Longrightarrow> down (wfs W) D \<Longrightarrow> n' \<le> n \<Longrightarrow> logged crc dir id0 old xs n' W"
  using cf_excl unfolding logged_def by (meson le_trans)

lemma logged_batch:
  assumes log: "logged crc dir id0 old xs s W" and a: "s < a" "a \<le> length xs" and b: "gc_bounds crc id0 old xs"
    and dir: "wal_dir cfg = dir" and w: "write_batch S cfg (numbered crc xs s a) W = (io, W')"
  shows "logged crc dir id0 old xs (if io = Inr () then a else s) W'"
  using log unfolding logged_def [of crc dir id0 old xs s W]
proof (elim disjE exE conjE)
  fix D m pend assume d: "down (wfs W) D" "s \<le> m" "m \<le> length xs" "durable_log crc dir D (old @ take m xs) pend"
  obtain q f rest where "numbered crc xs s a = (q, f) # rest"
    using a(1) by (cases "numbered crc xs s a") auto
  then obtain e where "(io, W') = (Inl e, W)" using write_batch_down [OF d(1), of cfg q f rest] w by auto
  then show ?thesis using log by simp
next
  fix lead ps
  assume u: "up (wfs W)" "wal_inv crc dir (disk (wfs W)) (active W) lead ps []" "concat (map snd lead) @ ps = old @ take s xs"
    "unat (seg_id (active W)) \<le> id0 + s"
  let ?new = "take (a - s) (drop s xs)" let ?acked = "concat (map snd lead) @ ps"
  have all: "?acked @ ?new = old @ take a xs"
    using a(1) take_add [of s "a - s" xs] by (simp add: u(3))
  have "length (frames crc (ps @ ?new)) \<le> length (frames crc (?acked @ ?new))" by simp
  also have "\<dots> \<le> length (frames crc (old @ xs))"
  proof -
    have "frames crc xs = frames crc (take a xs) @ frames crc (drop a xs)"
      by (simp flip: frames_simps(3))
    then show ?thesis unfolding all by simp
  qed
  also have "\<dots> < 2 ^ 64" using b by (simp add: gc_bounds_def addressable_def)
  finally have adr: "addressable (frames crc (ps @ ?new))" by (simp add: addressable_def)
  have ok: "records_ok ?new"
    using b by (auto simp: gc_bounds_def records_ok_def dest!: in_set_takeD in_set_dropD)
  let ?Q = "\<lambda>r ob. r = Inr () \<and> (\<exists>lead' ps'. wal_inv crc dir (fst ob) (fst (snd ob)) lead' ps' []
      \<and> concat (map snd lead') @ ps' = old @ take a xs) \<and> unat (seg_id (fst (snd ob))) \<le> id0 + a"
  have "runs (w_up up) (w_obs disk) (w_down down) (write_batch S cfg (numbered crc xs s a))
      (\<lambda>ob. append_crash crc dir ?acked ?new (fst ob)) ?Q W"
  proof (rule runs_write_batch [OF _ u(2) numbered_frames ok adr dir])
    show "?Q (Inr ()) (D, g, coord W)" if "wal_inv crc dir D g lead' ps' []" "concat (map snd lead') @ ps' = concat (map snd lead) @ ps @ ?new"
      "unat (seg_id g) \<le> unat (seg_id (active W)) + 1" for D g lead' ps'
      using that u(4) a(1) all by auto
  qed (use u(1,4) a b in \<open>auto simp: w_up_def gc_bounds_def\<close>)
  then have "w_up up W' \<and> ?Q io (w_obs disk W')
    \<or> (\<exists>ob. w_down down W' ob \<and> append_crash crc dir ?acked ?new (fst ob) \<and> (\<forall>z. io = Inr z \<longrightarrow> ?Q (Inr z) ob))"
    unfolding runs_def w by simp
  then show ?thesis
  proof
    assume "w_up up W' \<and> ?Q io (w_obs disk W')"
    then show ?thesis by (auto simp: logged_def w_up_def w_obs_def)
  next
    assume "\<exists>ob. w_down down W' ob \<and> append_crash crc dir ?acked ?new (fst ob) \<and> (\<forall>z. io = Inr z \<longrightarrow> ?Q (Inr z) ob)"
    then obtain ob where o: "w_down down W' ob" "append_crash crc dir ?acked ?new (fst ob)" "io = Inr () \<Longrightarrow> ?Q (Inr ()) ob" by blast
    have D: "down (wfs W') (fst ob)" using o(1) by (simp add: w_down_def)
    show ?thesis
    proof (cases "io = Inr ()")
      case True
      then have "durable_log crc dir (fst ob) (old @ take a xs) []" using o(3) wal_inv_durable by metis
      then show ?thesis using D a True unfolding logged_def by auto
    next
      case False
      obtain m pend where "s \<le> m" "m \<le> length xs" "durable_log crc dir (fst ob) (old @ take m xs) pend"
      proof -
        have "s \<le> length xs" using a by simp
        then show thesis using o(2) that [of s] that [of a] a unfolding append_crash_def unfolding all unfolding u(3) by auto
      qed
      then show ?thesis using D False unfolding logged_def by auto
    qed
  qed
qed

definition gc_inv :: "crc \<Rightarrow> path \<Rightarrow> nat \<Rightarrow> bytes list \<Rightarrow> bytes list \<Rightarrow> nat \<Rightarrow> nat \<Rightarrow> 'fs gc \<Rightarrow> bool" where
  "gc_inv crc dir id0 old xs s a g \<longleftrightarrow> coord_ok crc xs s a (coord (gc_wal g)) (gc_pc g)
     \<and> logged crc dir id0 old xs (on_disk s a (gc_pc g)) (gc_wal g)"

lemma gc_invD:
  assumes "gc_inv crc dir id0 old xs s a g"
  shows "coord_ok crc xs s a (coord (gc_wal g)) (gc_pc g)" and "logged crc dir id0 old xs (on_disk s a (gc_pc g)) (gc_wal g)"
    and "on_disk s a (gc_pc g) \<le> length xs" and "s \<le> on_disk s a (gc_pc g)"
  using assms coord_okD(3,4) [of crc xs s a] by (fastforce simp: gc_inv_def on_disk_def)+

lemma gc_call:
  assumes inv: "gc_inv crc dir id0 old xs s a g" and t: "gc_pc g t = Outside" and b: "gc_bounds crc id0 old (xs @ [x])"
  shows "gc_inv crc dir id0 old (xs @ [x]) s a (gc_step crc S cfg t x g)"
proof -
  note i = gc_invD [OF inv]
  obtain q c where e: "group_enqueue (encode crc x) (coord (gc_wal g)) = (q, c)" by force
  have "length xs + 1 < 2 ^ 64" using b by (simp add: gc_bounds_def)
  from coord_enqueue [OF i(1) t this e] i(2) show ?thesis
    using t e logged_append [OF i(2,3)] on_disk_other [of "gc_pc g" t "Waiting q x" s a]
    by (simp add: gc_step_def gc_inv_def gc_at_def gc_coord_def)
qed

lemma not_published: "\<not> leader_active c \<Longrightarrow> coord_ok crc xs s a c pc \<Longrightarrow> \<not> published pc"
proof
  assume l: "\<not> leader_active c" "coord_ok crc xs s a c pc" "published pc"
  then obtain t q y b where "pc t = Publishing q y b (Inr ())" by (auto simp: published_def)
  then show False using coord_okD(6) [OF l(2), of t] l(1) by simp
qed

lemma gc_run:
  assumes inv: "gc_inv crc dir id0 old xs s a g" and t: "gc_pc g t \<noteq> Outside" and b: "gc_bounds crc id0 old xs"
    and dir: "wal_dir cfg = dir"
  shows "\<exists>s' a'. s \<le> s' \<and> gc_inv crc dir id0 old xs s' a' (gc_step crc S cfg t x g)"
proof (cases "gc_pc g t")
  note i = gc_invD [OF inv]
  let ?c = "coord (gc_wal g)"
  case (Waiting q y)
  obtain role c where e: "group_decide q ?c = (role, c)" by force
  note d = coord_decide [OF i(1) Waiting e]
  have pub: "on_disk s m ((gc_pc g)(t := p)) = on_disk s m (gc_pc g)" if "\<not> leads p" for p m
    using on_disk_other [of "gc_pc g" t p s m] that Waiting by simp
  show ?thesis
  proof (cases role)
    case Acked
    then have "gc_inv crc dir id0 old xs s a (gc_step crc S cfg t x g)"
      using d(1) [OF Acked, THEN conjunct2] i(2) pub e Waiting Acked by (simp add: gc_step_def gc_inv_def gc_at_def gc_coord_def)
    then show ?thesis by blast
  next
    case Park
    then have "gc_inv crc dir id0 old xs s a (gc_step crc S cfg t x g)"
      using d(2) [OF Park, THEN conjunct2] i(2) pub e Waiting Park by (simp add: gc_step_def gc_inv_def gc_at_def gc_coord_def)
    then show ?thesis by blast
  next
    case (Lead batch)
    have "\<not> leader_active ?c" using e Lead by (auto simp: group_decide_def split: if_splits)
    from not_published [OF this i(1)] have np: "\<not> published (gc_pc g)" .
    then have "\<not> published ((gc_pc g)(t := Leading q y batch))" by (auto simp: published_def split: if_splits)
    then have "gc_inv crc dir id0 old xs s (length xs) (gc_step crc S cfg t x g)"
      using d(3) [OF Lead] i(2) np e Waiting Lead by (simp add: gc_step_def gc_inv_def gc_at_def gc_coord_def on_disk_def)
    then show ?thesis by blast
  qed
next
  note i = gc_invD [OF inv]
  let ?pc = "gc_pc g"
  case (Leading q y batch)
  have p: "called xs q y" "batch = numbered crc xs s a" "s < a" "leader_active (coord (gc_wal g))" "unat q \<le> a"
    using coord_okD(6) [OF i(1), of t] Leading by simp_all
  have only: "u = t" if "leads (?pc u)" for u using coord_okD(9) [OF i(1), of u t] that Leading by simp
  obtain io W' where w: "write_batch S cfg batch (gc_wal g) = (io, W')" by force
  have "coord W' = coord (gc_wal g)" using write_batch_coord [of S cfg batch "gc_wal g"] w by simp
  then have ok: "coord_ok crc xs s a (coord W') (?pc(t := Publishing q y batch io))"
    using coord_ok_leader [OF i(1), of t "Publishing q y batch io"] Leading p by simp
  have np: "\<not> published ?pc"
  proof
    assume "published ?pc"
    then obtain u q' y' b' where u: "?pc u = Publishing q' y' b' (Inr ())" by (auto simp: published_def)
    then show False using only [of u] Leading by simp
  qed
  have pub: "published (?pc(t := Publishing q y batch io)) \<longleftrightarrow> io = Inr ()"
    using np by (auto simp: published_def split: if_splits)
  have "logged crc dir id0 old xs s (gc_wal g)" using i(2) np by (simp add: on_disk_def)
  from logged_batch [OF this p(3) coord_okD(4) [OF i(1)] b dir w [unfolded p(2)]]
  have "gc_inv crc dir id0 old xs s a (gc_step crc S cfg t x g)"
    using ok pub w Leading by (simp add: gc_step_def gc_inv_def gc_at_def on_disk_def)
  then show ?thesis by blast
next
  note i = gc_invD [OF inv]
  case (Publishing q y batch io)
  note d = coord_publish [OF i(1) Publishing]
  have s: "s \<le> a" by (rule coord_okD(3) [OF i(1)])
  show ?thesis
  proof (cases io)
    case (Inr u)
    then have io: "io = Inr ()" by simp
    then have "published (gc_pc g)" using Publishing by (auto simp: published_def)
    then have "gc_inv crc dir id0 old xs a a (gc_step crc S cfg t x g)"
      using d(1) [OF io] i(2) Publishing by (simp add: gc_step_def gc_inv_def gc_at_def gc_coord_def on_disk_def)
    then show ?thesis using s by blast
  next
    case (Inl e)
    have "\<not> published (gc_pc g)"
    proof
      assume "published (gc_pc g)"
      then obtain u q' y' b' where u: "gc_pc g u = Publishing q' y' b' (Inr ())" by (auto simp: published_def)
      then show False using coord_okD(9) [OF i(1), of u t] Publishing Inl by auto
    qed
    then have "gc_inv crc dir id0 old xs s s (gc_step crc S cfg t x g)"
      using d(2) [OF Inl] i(2) Publishing by (simp add: gc_step_def gc_inv_def gc_at_def gc_coord_def on_disk_def)
    then show ?thesis by blast
  qed
next
  note i = gc_invD [OF inv]
  case (Returned q y r)
  have "gc_inv crc dir id0 old xs s a (gc_step crc S cfg t x g)"
    using coord_ok_other [OF i(1), of t Outside] on_disk_other [of "gc_pc g" t Outside s a] i(2) Returned
    by (simp add: gc_step_def gc_inv_def gc_at_def)
  then show ?thesis by blast
qed (use inv t in \<open>auto simp: gc_step_def\<close>)

lemma gc_wake:
  assumes inv: "gc_inv crc dir id0 old xs s a g" and t: "gc_pc g t = Parked q y"
  shows "gc_inv crc dir id0 old xs s a (gc_at t (Waiting q y) g)"
proof -
  note i = gc_invD [OF inv]
  have "called xs q y" using coord_okD(6) [OF i(1), of t] t by simp
  then show ?thesis
    using coord_ok_other [OF i(1), of t "Waiting q y"] on_disk_other [of "gc_pc g" t "Waiting q y" s a] i(2) t
    by (simp add: gc_inv_def gc_at_def)
qed

lemma gc_reach_inv:
  assumes "gc_reach crc S cfg g0 xs g" and "gc_inv crc dir id0 old [] 0 0 g0" and "wal_dir cfg = dir"
    and "gc_bounds crc id0 old xs"
  shows "\<exists>s a. gc_inv crc dir id0 old xs s a g"
  using assms
proof (induction rule: gc_reach.induct)
  case (call xs g t x)
  then show ?case using gc_call gc_bounds_append by blast
next
  case (run xs g t)
  then show ?case using gc_run by blast
next
  case (wake xs g t q y)
  then show ?case using gc_wake by blast
qed blast

end

section \<open>On the simulator\<close>

definition gc_new :: "'fs wal \<Rightarrow> 'fs gc" where
  "gc_new W = \<lparr>gc_wal = W, gc_pc = (\<lambda>_. Outside)\<rparr>"

lemma gc_fresh:
  assumes G: "gen_ok G" and o: "wal_open crc (injector G) dir (injector_new (arm_crash_after k (sim_new seeded seed))) = (Inr (W, rec), h)"
  shows "crash_fs.gc_inv (inj_up G) inj_disk (inj_down G) crc dir 1 [] [] 0 0 (gc_new W)"
proof -
  let ?h = "injector_new (arm_crash_after k (sim_new seeded seed))"
  note fresh = sim_new_fresh [where seeded = seeded and seed = seed]
  have up: "inj_up G ?h" and dsk: "inj_disk ?h = sim_disk (sim_new seeded seed)"
    using injector_new_up [OF G fresh(1)] by (simp_all add: sim_new_def)
  have "runs (inj_up G) inj_disk (inj_down G) (wal_open crc (injector G) dir) (\<lambda>D. recoverable crc dir D []) (opened crc dir [] {1}) ?h"
    by (rule crash_fs.runs_wal_open [OF inj.crash_fs_axioms up]) (use fresh in \<open>simp_all add: dsk\<close>)
  then have "inj_up G h \<and> opened crc dir [] {1} (Inr (W, rec)) (inj_disk h)
    \<or> (\<exists>D. inj_down G h D \<and> opened crc dir [] {1} (Inr (W, rec)) D)"
    unfolding runs_def o by auto
  then obtain D lead ps where D: "inj_up G h \<and> D = inj_disk h \<or> inj_down G h D" and W: "coord W = default_coord" "seg_id (active W) = 1"
    "wal_inv crc dir D (active W) lead ps []" "concat (map snd lead) @ ps = []"
    by (auto simp: opened_def)
  have wfs: "wfs W = h" by (rule wal_open_wfs [OF o])
  have "durable_log crc dir D [] []" using wal_inv_durable [OF W(3)] W(4) by simp
  then have "crash_fs.logged (inj_up G) inj_disk (inj_down G) crc dir 1 [] [] 0 W"
    using D W(2-4) wfs unfolding crash_fs.logged_def [OF inj.crash_fs_axioms] by auto
  moreover have "coord_ok crc [] 0 0 (coord W) (\<lambda>_. Outside)"
    by (rule coord_okI) (simp_all add: W(1) default_coord_def)
  ultimately show ?thesis
    by (simp add: crash_fs.gc_inv_def [OF inj.crash_fs_axioms] gc_new_def on_disk_def)
qed

text \<open>C8 (group_commit_durability): with any number of writers, in any interleaving of their critical
  sections, batch writes and wake-ups, and with a power loss at any operation and any tear, recovery
  of the image that survives returns first the records of the first \<open>m\<close> calls, in the order in which
  the calls took their sequence numbers, for an \<open>m\<close> that covers every call that was acknowledged: a
  writer that was told its record is durable finds it there, in its place.\<close>

theorem group_commit_durability:
  assumes G: "gen_ok G" and xs: "records_ok xs" "addressable (frames crc xs)" "length xs < 2 ^ 63"
    and o: "wal_open crc (injector G) (wal_dir cfg) (injector_new (arm_crash_after k (sim_new seeded seed))) = (Inr (W, rec), h)"
    and r: "gc_reach crc (injector G) cfg (gc_new W) xs g"
  shows "\<exists>rec m. recover crc (sim_storage G) (wal_dir cfg) (power_lost G (wfs (gc_wal g))) = Inr rec
      \<and> m \<le> length xs \<and> m \<le> length (records rec) \<and> take m (records rec) = take m xs
      \<and> (\<forall>t q y. gc_pc g t = Returned q y (Inr ()) \<longrightarrow> 0 < unat q \<and> unat q \<le> m \<and> xs ! (unat q - 1) = y)"
proof -
  let ?dir = "wal_dir cfg" and ?h = "wfs (gc_wal g)"
  have "gc_bounds crc 1 [] xs" using xs by (simp add: gc_bounds_def)
  from crash_fs.gc_reach_inv [OF inj.crash_fs_axioms r gc_fresh [OF G o] refl this] obtain s a
    where inv: "crash_fs.gc_inv (inj_up G) inj_disk (inj_down G) crc ?dir 1 [] xs s a g" by blast
  note i = crash_fs.gc_invD [OF inj.crash_fs_axioms inv]
  let ?n = "on_disk s a (gc_pc g)"
  have acked: "0 < unat q \<and> unat q \<le> m \<and> xs ! (unat q - 1) = y" if "gc_pc g t = Returned q y (Inr ())" "?n \<le> m" for t q y m
    using coord_okD(6) [OF i(1), of t] that i(4) by (auto simp: called_def)
  have fin: ?thesis if "recover crc (sim_storage G) ?dir (power_lost G ?h) = Inr rec" "records rec = take m xs @ extra"
    "?n \<le> m" "m \<le> length xs" for rec m extra
    using that acked by (intro exI [of _ rec] exI [of _ m]) auto
  from i(2) show ?thesis unfolding crash_fs.logged_def [OF inj.crash_fs_axioms]
  proof (elim disjE exE conjE)
    fix lead ps assume u: "inj_up G ?h" "wal_inv crc ?dir (inj_disk ?h) (active (gc_wal g)) lead ps []" "concat (map snd lead) @ ps = [] @ take ?n xs"
    note sv = power_lost_up [OF u(1)]
    obtain rec where "recover crc (sim_storage G) ?dir (power_lost G ?h) = Inr rec" "records rec = take ?n xs"
      using read_fs.recover_images [OF sim.read_fs_axioms sv(1) wal_inv_durable [OF u(2)] sv(2)] u(3) by auto
    then show ?thesis using i(3) by (intro fin [of rec ?n "[]"]) simp_all
  next
    fix D m pend assume d: "inj_down G ?h D" "?n \<le> m" "m \<le> length xs" "durable_log crc ?dir D ([] @ take m xs) pend"
    note sv = inj_down_survivor [OF d(1)]
    obtain rec extra where "recover crc (sim_storage G) ?dir (inner ?h) = Inr rec" "records rec = take m xs @ extra"
      using read_fs.recover_images [OF sim.read_fs_axioms sv(1) d(4) sv(2)] by simp blast
    then show ?thesis using d(2,3) power_lost_down [OF d(1)] by (intro fin) simp_all
  qed
qed

text \<open>The rest of the leader's work: its batch if it is not yet written, and publishing the outcome.\<close>

definition leader_finish :: "crc \<Rightarrow> 'fs storage \<Rightarrow> wal_cfg \<Rightarrow> nat \<Rightarrow> 'fs gc \<Rightarrow> 'fs gc" where
  "leader_finish crc S cfg u g =
     (case gc_pc g u of
        Leading _ _ _ \<Rightarrow> gc_step crc S cfg u [] (gc_step crc S cfg u [] g)
      | Publishing _ _ _ _ \<Rightarrow> gc_step crc S cfg u [] g
      | _ \<Rightarrow> g)"

definition is_parked :: "gc_pc \<Rightarrow> bool" where
  "is_parked p = (case p of Parked _ _ \<Rightarrow> True | _ \<Rightarrow> False)"

lemma publish_wakes:
  "gc_pc g u = Publishing q y b io \<Longrightarrow> \<not> is_parked (gc_pc (gc_step crc S cfg u x g) t)"
  by (cases "gc_pc g t") (simp_all add: gc_step_def gc_at_def woken_def is_parked_def)

lemma finish_wakes: "leads (gc_pc g u) \<Longrightarrow> \<not> is_parked (gc_pc (leader_finish crc S cfg u g) t)"
proof (cases "gc_pc g u")
  case (Leading q y b)
  obtain io W where w: "write_batch S cfg b (gc_wal g) = (io, W)" by force
  have "gc_pc (gc_step crc S cfg u [] g) u = Publishing q y b io" using Leading w by (simp add: gc_step_def gc_at_def)
  then show ?thesis using Leading publish_wakes by (simp add: leader_finish_def)
next
  case (Publishing q y b io)
  then show ?thesis using publish_wakes [OF Publishing] by (simp add: leader_finish_def)
qed simp_all

text \<open>C9 (group_commit_progress): writers are never left waiting for nobody. In every reachable state at
  most one thread leads; if a thread is parked on the condition variable then one does lead, and when
  that thread has done its one or two remaining steps, successful or not, no thread is parked.\<close>

theorem group_commit_progress:
  assumes G: "gen_ok G" and xs: "records_ok xs" "addressable (frames crc xs)" "length xs < 2 ^ 63"
    and o: "wal_open crc (injector G) (wal_dir cfg) (injector_new (arm_crash_after k (sim_new seeded seed))) = (Inr (W, rec), h)"
    and r: "gc_reach crc (injector G) cfg (gc_new W) xs g"
  shows "(\<forall>t u. leads (gc_pc g t) \<longrightarrow> leads (gc_pc g u) \<longrightarrow> t = u)
    \<and> ((\<exists>t. is_parked (gc_pc g t)) \<longrightarrow>
        (\<exists>u. leads (gc_pc g u) \<and> (\<forall>t. \<not> is_parked (gc_pc (leader_finish crc (injector G) cfg u g) t))))"
proof -
  have "gc_bounds crc 1 [] xs" using xs by (simp add: gc_bounds_def)
  from crash_fs.gc_reach_inv [OF inj.crash_fs_axioms r gc_fresh [OF G o] refl this] obtain s a
    where inv: "crash_fs.gc_inv (inj_up G) inj_disk (inj_down G) crc (wal_dir cfg) 1 [] xs s a g" by blast
  note d = coord_okD [OF crash_fs.gc_invD(1) [OF inj.crash_fs_axioms inv]]
  have "leader_active (coord (gc_wal g))" if "is_parked (gc_pc g t)" for t
    using that d(6) [of t] by (cases "gc_pc g t") (simp_all add: is_parked_def)
  then show ?thesis using d(7,9) finish_wakes by blast
qed

text \<open>Two writers in one batch: the second joins the queue before the first leads, and parks.\<close>

definition demo_gc_cfg :: wal_cfg where
  "demo_gc_cfg = \<lparr>wal_dir = [''wal''], wal_durability = GroupCommit, segment_size = 64\<rparr>"

definition demo_gc_open :: "(storage_error + nat injector wal \<times> recovered) \<times> nat injector" where
  "demo_gc_open = wal_open (\<lambda>_. 0) (injector first_choice) (wal_dir demo_gc_cfg)
     (injector_new (arm_crash_after 9 (sim_new (\<lambda>_. 0) 0)))"

definition demo_gc :: "nat \<Rightarrow> nat injector gc" where
  "demo_gc n = foldl (\<lambda>g (t, x). gc_step (\<lambda>_. 0) (injector first_choice) demo_gc_cfg t x g)
     (gc_new (fst (projr (fst demo_gc_open))))
     (take n [(0, [1]), (1, [2]), (0, []), (1, []), (0, []), (0, []), (1, [])])"

lemma demo_gc_open_eq:
  "wal_open (\<lambda>_. 0) (injector first_choice) (wal_dir demo_gc_cfg) (injector_new (arm_crash_after 9 (sim_new (\<lambda>_. 0) 0)))
     = (Inr (fst (projr (fst demo_gc_open)), snd (projr (fst demo_gc_open))), snd demo_gc_open)"
proof -
  have "case fst demo_gc_open of Inr _ \<Rightarrow> True | _ \<Rightarrow> False" by code_simp
  then have "fst demo_gc_open = Inr (fst (projr (fst demo_gc_open)), snd (projr (fst demo_gc_open)))"
    by (auto split: sum.splits)
  then show ?thesis unfolding demo_gc_open_def [symmetric] by (metis prod.collapse)
qed

lemma demo_gc_returns: "gc_pc (demo_gc 7) 0 = Returned 1 [1] (Inr ())" "gc_pc (demo_gc 7) 1 = Returned 2 [2] (Inr ())"
  by code_simp+

lemma demo_gc_parks: "is_parked (gc_pc (demo_gc 4) 1)"
  by code_simp

lemma demo_gc_turns: "list_all (\<lambda>(i, t). gc_pc (demo_gc i) t \<noteq> Outside) [(2, 0), (3, 1), (4, 0), (5, 0), (6, 1)]"
  by code_simp

lemma demo_gc_reach:
  "gc_reach (\<lambda>_. 0) (injector first_choice) demo_gc_cfg (gc_new (fst (projr (fst demo_gc_open)))) [[1], [2]] (demo_gc 4)"
  "gc_reach (\<lambda>_. 0) (injector first_choice) demo_gc_cfg (gc_new (fst (projr (fst demo_gc_open)))) [[1], [2]] (demo_gc 7)"
proof -
  let ?R = "gc_reach (\<lambda>_. 0) (injector first_choice) demo_gc_cfg (demo_gc 0)"
  have turns: "gc_pc (demo_gc 2) 0 \<noteq> Outside" "gc_pc (demo_gc 3) 1 \<noteq> Outside" "gc_pc (demo_gc 4) 0 \<noteq> Outside"
    "gc_pc (demo_gc 5) 0 \<noteq> Outside" "gc_pc (demo_gc 6) 1 \<noteq> Outside" using demo_gc_turns by simp_all
  have "?R [] (demo_gc 0)" by (rule gc_reach.start)
  from gc_reach.call [OF this, of 0 "[1]"] have "?R [[1]] (demo_gc 1)" by (simp add: demo_gc_def gc_new_def)
  from gc_reach.call [OF this, of 1 "[2]"] have "?R [[1], [2]] (demo_gc 2)"
    by (simp add: demo_gc_def gc_new_def gc_step_def gc_at_def gc_coord_def group_enqueue_def Let_def)
  from gc_reach.run [OF this turns(1)] have "?R [[1], [2]] (demo_gc 3)" by (simp add: demo_gc_def)
  from gc_reach.run [OF this turns(2)] have r: "?R [[1], [2]] (demo_gc 4)" by (simp add: demo_gc_def)
  from gc_reach.run [OF r turns(3)] have "?R [[1], [2]] (demo_gc 5)" by (simp add: demo_gc_def)
  from gc_reach.run [OF this turns(4)] have "?R [[1], [2]] (demo_gc 6)" by (simp add: demo_gc_def)
  from gc_reach.run [OF this turns(5)] have "?R [[1], [2]] (demo_gc 7)" by (simp add: demo_gc_def)
  moreover have "demo_gc 0 = gc_new (fst (projr (fst demo_gc_open)))" by (simp add: demo_gc_def)
  ultimately show "gc_reach (\<lambda>_. 0) (injector first_choice) demo_gc_cfg (gc_new (fst (projr (fst demo_gc_open)))) [[1], [2]] (demo_gc 4)"
    "gc_reach (\<lambda>_. 0) (injector first_choice) demo_gc_cfg (gc_new (fst (projr (fst demo_gc_open)))) [[1], [2]] (demo_gc 7)"
    using r by simp_all
qed

theorem group_commit_durability_witness:
  "\<exists>rec. recover (\<lambda>_. 0) (sim_storage first_choice) (wal_dir demo_gc_cfg) (power_lost first_choice (wfs (gc_wal (demo_gc 7)))) = Inr rec
      \<and> take 2 (records rec) = [[1], [2]]"
proof -
  have p: "records_ok [[1], [2]]" "addressable (frames (\<lambda>_. 0) [[1], [2]])" "length [[1 :: u8], [2]] < 2 ^ 63"
    by (simp_all add: addressable_def)
  from group_commit_durability [OF first_choice_ok p demo_gc_open_eq demo_gc_reach(2)] obtain rec m
    where r: "recover (\<lambda>_. 0) (sim_storage first_choice) (wal_dir demo_gc_cfg) (power_lost first_choice (wfs (gc_wal (demo_gc 7)))) = Inr rec"
      "m \<le> length [[1 :: u8], [2]]" "take m (records rec) = take m [[1], [2]]"
    and acked: "\<forall>t q y. gc_pc (demo_gc 7) t = Returned q y (Inr ()) \<longrightarrow> 0 < unat q \<and> unat q \<le> m \<and> [[1], [2]] ! (unat q - 1) = y"
    by blast
  from acked demo_gc_returns(2) have "unat (2 :: u64) \<le> m" by blast
  with r(2) have "m = 2" by simp
  then show ?thesis using r(1,3) by simp
qed

theorem group_commit_progress_witness:
  "\<exists>u. leads (gc_pc (demo_gc 4) u) \<and> \<not> is_parked (gc_pc (leader_finish (\<lambda>_. 0) (injector first_choice) demo_gc_cfg u (demo_gc 4)) 1)"
  using group_commit_progress [OF first_choice_ok _ _ _ demo_gc_open_eq demo_gc_reach(1)] demo_gc_parks
  by (auto simp: addressable_def)

end
