(* ===== verification/Crashtest.thy ===== *)
theory Crashtest imports Db_Refine begin

text \<open>
  The crash-test binary (\<open>src/src/bin/accretion-crashtest.rs\<close>): one process writes numbered records and
  announces each one after it is acknowledged, another reopens the directory and lists the records
  that are there.
\<close>

section \<open>The program\<close>

datatype exit_code = SUCCESS | FAILURE | Code nat

definition ascii :: "string \<Rightarrow> bytes" where
  "ascii s = map of_char s"

definition key_for :: "u64 \<Rightarrow> bytes" where
  "key_for i = ascii (''key'' @ zero_pad 12 (dec (unat i)))"

definition value_for :: "u64 \<Rightarrow> bytes" where
  "value_for i = ascii (''val-'' @ zero_pad 12 (dec (unat i)) @ ''-payload-padding-to-force-flushes-0123456789'')"

definition crashtest_opts :: options where
  "crashtest_opts = \<lparr>o_durability = Always, o_memtable_size = 4 * 1024, o_tier_fanout = 4\<rparr>"

text \<open>The result of a process: its exit code, the lines that the reader of its output received, and what
  it leaves. The reader takes \<open>room\<close> lines and then closes the pipe.\<close>

fun write_from ::
  "hash128 \<Rightarrow> crc \<Rightarrow> 'fs storage \<Rightarrow> nat \<Rightarrow> u64 \<Rightarrow> 'fs db \<Rightarrow> (exit_code \<times> u64 list \<times> 'fs) option" where
  "write_from xxh crc S room i d =
     (case db_put xxh crc S (key_for i) (value_for i) d of
        None \<Rightarrow> None
      | Some (Inl e, d) \<Rightarrow> Some (FAILURE, [], db_fs d)
      | Some (Inr _, d) \<Rightarrow>
          (case room of
             0 \<Rightarrow> Some (SUCCESS, [], db_fs d)
           | Suc room \<Rightarrow> map_option (\<lambda>(c, out, s). (c, i # out, s)) (write_from xxh crc S room (i + 1) d)))"

declare write_from.simps [simp del]

definition write_loop ::
  "hash128 \<Rightarrow> crc \<Rightarrow> 'fs storage \<Rightarrow> path \<Rightarrow> nat \<Rightarrow> 'fs \<Rightarrow> (exit_code \<times> u64 list \<times> 'fs) option" where
  "write_loop xxh crc S dir room s =
     (case db_open crc S dir crashtest_opts s of
        (Inl _, s) \<Rightarrow> Some (FAILURE, [], s)
      | (Inr d, _) \<Rightarrow> write_from xxh crc S room 0 d)"

text \<open>The loop has no bound of its own: \<open>None\<close> is a run that does not end.\<close>

partial_function (option) verify_from ::
  "hash128 \<Rightarrow> crc \<Rightarrow> 'fs storage \<Rightarrow> u64 \<Rightarrow> 'fs db \<Rightarrow> u64 list \<Rightarrow> (exit_code \<times> u64 list) option" where
  "verify_from xxh crc S i d out =
     (case db_get xxh crc S (key_for i) d of
        (r, d) \<Rightarrow>
          (case r of
             Inl e \<Rightarrow> Some (FAILURE, out)
           | Inr v \<Rightarrow> if v = None then Some (SUCCESS, out) else verify_from xxh crc S (i + 1) d (out @ [i])))"

definition crash_verify :: "hash128 \<Rightarrow> crc \<Rightarrow> 'fs storage \<Rightarrow> path \<Rightarrow> 'fs \<Rightarrow> (exit_code \<times> u64 list) option" where
  "crash_verify xxh crc S dir s =
     (case db_open crc S dir crashtest_opts s of
        (Inl _, _) \<Rightarrow> Some (FAILURE, [])
      | (Inr d, _) \<Rightarrow> verify_from xxh crc S 0 d [])"

text \<open>\<open>Path::new\<close>: the components between the slashes.\<close>

fun split_slash :: "string \<Rightarrow> string \<Rightarrow> path" where
  "split_slash part [] = [part]"
| "split_slash part (c # cs) = (if c = CHR ''/'' then part # split_slash [] cs else split_slash (part @ [c]) cs)"

definition path_new :: "string \<Rightarrow> path" where
  "path_new s = filter (\<lambda>c. c \<noteq> [] \<and> c \<noteq> ''.'') (split_slash [] s)"

definition crashtest_main ::
  "hash128 \<Rightarrow> crc \<Rightarrow> 'fs storage \<Rightarrow> nat \<Rightarrow> string list \<Rightarrow> 'fs \<Rightarrow> (exit_code \<times> u64 list) option" where
  "crashtest_main xxh crc S room args s =
     (if length args < 3 then Some (Code 2, [])
      else if args ! 1 = ''write'' then
        map_option (\<lambda>(c, out, _). (c, out)) (write_loop xxh crc S (path_new (args ! 2)) room s)
      else if args ! 1 = ''verify'' then crash_verify xxh crc S (path_new (args ! 2)) s
      else Some (Code 2, []))"

section \<open>The writer is a session\<close>

definition puts :: "nat \<Rightarrow> nat \<Rightarrow> db_op list" where
  "puts i n = map (\<lambda>j. Op_put (key_for (of_nat j)) (value_for (of_nat j))) [i..<i + n]"

lemma puts_Suc: "puts i (Suc n) = Op_put (key_for (of_nat i)) (value_for (of_nat i)) # puts (Suc i) n"
  by (simp add: puts_def upt_conv_Cons del: upt_Suc)

lemma length_puts [simp]: "length (puts i n) = n"
  by (simp add: puts_def)

lemma puts_append: "puts i (m + n) = puts i m @ puts (i + m) n"
  using upt_add_eq_append [of i "i + m" n] by (simp add: puts_def add.assoc)

lemma take_puts: "take m (puts i n) = puts i (min m n)"
  by (cases "m \<le> n") (simp_all add: puts_def take_map take_upt min_def)

lemma write_from_puts:
  "write_from xxh crc S room (of_nat i) d =
     map_option (\<lambda>(n, d). (if n = Suc room then SUCCESS else FAILURE, map of_nat [i..<i + min n room], db_fs d))
       (db_ops_run xxh crc S (puts i (Suc room)) d)"
proof (induction room arbitrary: i d)
  case 0
  show ?case
    by (subst write_from.simps)
       (simp add: puts_Suc puts_def split: option.split sum.split prod.split)
next
  case (Suc room)
  have i: "of_nat i + 1 = (of_nat (Suc i) :: u64)" by simp
  show ?case
  proof (cases "db_put xxh crc S (key_for (of_nat i)) (value_for (of_nat i)) d")
    case None
    then show ?thesis by (subst write_from.simps) (simp add: puts_Suc [of i])
  next
    case (Some rd)
    obtain r d1 where rd: "rd = (r, d1)" by force
    show ?thesis
    proof (cases r)
      case (Inl e)
      then show ?thesis using Some rd by (subst write_from.simps) (simp add: puts_Suc [of i])
    next
      case (Inr u)
      have upt: "of_nat i # map of_nat [Suc i..<Suc i + m] = (map of_nat [i..<i + Suc m] :: u64 list)" for m
        by (simp add: upt_conv_Cons del: upt_Suc)
      show ?thesis
        using Some rd Inr Suc.IH [of "Suc i" d1] upt [of "min n room" for n]
        by (subst write_from.simps, cases "db_ops_run xxh crc S (puts (Suc i) (Suc room)) d1")
           (auto simp add: puts_Suc [of i] i simp del: of_nat_Suc upt_Suc)
    qed
  qed
qed

section \<open>Numbers and keys\<close>

lemma zero_pad_inj: "zero_pad w (dec m) = zero_pad w (dec n) \<longleftrightarrow> m = n"
proof
  assume "zero_pad w (dec m) = zero_pad w (dec n)"
  then have "dec_value 0 (zero_pad w (dec m)) = dec_value 0 (zero_pad w (dec n))" by simp
  then show "m = n" by (simp add: zero_pad_def dec_value_zeros dec_value_dec)
qed simp

lemma ascii_inj [simp]: "ascii s = ascii t \<longleftrightarrow> s = t"
proof -
  have "inj (of_char :: char \<Rightarrow> u8)"
  proof (rule injI)
    fix c d :: char assume "of_char c = (of_char d :: u8)"
    then have "unat (of_nat (of_char c) :: u8) = unat (of_nat (of_char d) :: u8)" by (simp add: of_nat_of_char)
    then show "c = d" by (simp add: unat_of_nat take_bit_nat_eq_self char_of_eq_iff)
  qed
  then show ?thesis by (simp add: ascii_def inj_map_eq_map)
qed

lemma length_ascii [simp]: "length (ascii s) = length s" by (simp add: ascii_def)

lemma key_for_inj [simp]: "key_for i = key_for j \<longleftrightarrow> i = j"
  by (simp add: key_for_def zero_pad_inj word_unat_eq_iff)

lemma length_padded: "i < 10 ^ 12 \<Longrightarrow> length (zero_pad 12 (dec i)) = 12"
  using length_dec [of i 11] by (simp add: zero_pad_def)

lemma crashtest_lengths:
  assumes "i < 10 ^ 12"
  shows "length (key_for (of_nat i)) = 15" and "length (value_for (of_nat i)) = 60"
proof -
  have "unat (of_nat i :: u64) = i" using assms by (simp add: unat_of_nat take_bit_nat_eq_self)
  then show "length (key_for (of_nat i)) = 15" "length (value_for (of_nat i)) = 60"
    using length_padded [OF assms] by (simp_all add: key_for_def value_for_def)
qed

lemma puts_size: "i + n \<le> 10 ^ 12 \<Longrightarrow> entries_size (op_writes sq (puts i n)) = 100 * n"
proof (induction n arbitrary: i sq)
  case (Suc n)
  then have "i < 10 ^ 12" by simp
  then show ?case
    using Suc crashtest_lengths [of i] by (simp add: puts_Suc entries_size_def length_row encoded_entry_len_def entry_of_def value_ref_def)
qed (simp add: puts_def entries_size_def)

lemma puts_fit: "i + n \<le> 10 ^ 12 \<Longrightarrow> list_all (\<lambda>kv. length (fst kv) + payload_bytes (snd kv) = 75) (op_writes sq (puts i n))"
proof (induction n arbitrary: i sq)
  case (Suc n)
  then have "i < 10 ^ 12" by simp
  then show ?case
    using Suc crashtest_lengths [of i] by (simp add: puts_Suc payload_bytes_def)
qed (simp add: puts_def)

lemma map_ops_append: "map_ops (xs @ ys) M = map_ops ys (map_ops xs M)"
  by (simp add: map_ops_def)

lemma map_ops_puts:
  assumes "j < 2 ^ 64" and "n < 2 ^ 64"
  shows "map_ops (puts 0 n) Map.empty (key_for (of_nat j)) = (if j < n then Some (value_for (of_nat j)) else None)"
  using assms(2)
proof (induction n)
  case 0
  then show ?case by (simp add: puts_def)
next
  case (Suc n)
  have "(of_nat j :: u64) = of_nat n \<longleftrightarrow> j = n"
    using assms(1) Suc.prems by (simp add: word_unat_eq_iff unat_of_nat take_bit_nat_eq_self)
  then show ?case using Suc puts_append [of 0 n 1] by (auto simp: map_ops_append puts_def)
qed

section \<open>What the second process lists\<close>

context crash_fs
begin

lemma verify_lists:
  assumes "\<And>j. i \<le> j \<Longrightarrow> j < m \<Longrightarrow> M (key_for (of_nat j)) \<noteq> None" and "M (key_for (of_nat m)) = None" and "i \<le> m"
    and "db_shows xxh crc dir M d"
  shows "verify_from xxh crc S (of_nat i) d out = Some (SUCCESS, out @ map of_nat [i..<m])"
  using assms
proof (induction "m - i" arbitrary: i d out)
  case 0
  obtain rs where "db_get xxh crc S (key_for (of_nat i)) d = (Inr (M (key_for (of_nat i))), d\<lparr>db_readers := rs\<rparr>)"
    using db_shows_get [OF 0(5)] by blast
  then show ?case using 0 by (subst verify_from.simps) simp
next
  case (Suc k)
  obtain rs where g: "db_get xxh crc S (key_for (of_nat i)) d = (Inr (M (key_for (of_nat i))), d\<lparr>db_readers := rs\<rparr>)"
    "db_shows xxh crc dir M (d\<lparr>db_readers := rs\<rparr>)"
    using db_shows_get [OF Suc.prems(4)] by blast
  have lt: "i < m" using Suc.hyps(2) by simp
  have "verify_from xxh crc S (of_nat (Suc i)) (d\<lparr>db_readers := rs\<rparr>) (out @ [of_nat i])
      = Some (SUCCESS, (out @ [of_nat i]) @ map of_nat [Suc i..<m])"
    by (rule Suc.hyps(1)) (use Suc.hyps(2) Suc.prems g(2) in auto)
  then show ?case using g(1) lt Suc.prems(1) [of i] by (subst verify_from.simps) (simp add: upt_conv_Cons add.commute)
qed

end

text \<open>C7 (crashtest_lists_announced): the power may fail at any operation of the writing process. Every
  record that it announced is listed by the verifying process, which ends with success and lists the
  records in order without a gap; it lists at most one record more, the one in progress. Without a power
  loss the writer runs until its reader closes the pipe, and it only fails when the power does.\<close>

theorem crashtest_lists_announced:
  assumes G: "gen_ok G" and room: "room < 2 ^ 25" and crc: "writes_fit True crc (op_writes 1 (puts 0 (Suc room)))"
  shows "\<exists>c out h n. write_loop xxh crc (injector G) dir room (injector_new (arm_crash_after k (sim_new seeded seed))) = Some (c, out, h)
      \<and> out = map of_nat [0..<length out] \<and> (halted h \<or> c = SUCCESS \<and> length out = room)
      \<and> crash_verify xxh crc (sim_storage G) dir (power_lost G h) = Some (SUCCESS, map of_nat [0..<n])
      \<and> (n = length out \<or> n = Suc (length out))"
proof -
  let ?xs = "puts 0 (Suc room)"
  have opts: "is_durable (o_durability crashtest_opts)" "2 \<le> o_tier_fanout crashtest_opts"
    by (simp_all add: crashtest_opts_def is_durable_def)
  have xs: "length ?xs < 2 ^ 30" "entries_size (op_writes 1 ?xs) + 100 < 2 ^ 32"
    using room puts_size [of 0 "Suc room" 1] by simp_all
  from db_crash_session [OF G opts xs crc, of xxh dir k seeded seed] obtain n h d s m
    where run: "db_session xxh crc (injector G) dir crashtest_opts ?xs (injector_new (arm_crash_after k (sim_new seeded seed))) = Some (n, h)"
      "n \<le> Suc room" "halted h \<or> n = Suc room"
    and re: "db_open crc (sim_storage G) dir crashtest_opts (power_lost G h) = (Inr d, s)" "m = n \<or> m = Suc n"
      "crash_fs.db_shows sim_ok sim_disk xxh crc dir (map_ops (take m ?xs) Map.empty) d"
    unfolding length_puts by blast
  have "\<exists>c. write_loop xxh crc (injector G) dir room (injector_new (arm_crash_after k (sim_new seeded seed)))
      = Some (c, map of_nat [0..<min n room], h) \<and> (n = Suc room \<longrightarrow> c = SUCCESS)"
  proof (cases "db_open crc (injector G) dir crashtest_opts (injector_new (arm_crash_after k (sim_new seeded seed)))")
    case (Pair r s0)
    show ?thesis
    proof (cases r)
      case (Inl e)
      then show ?thesis using run(1) Pair by (simp add: db_session_def write_loop_def)
    next
      case (Inr d)
      then obtain d' where d': "db_ops_run xxh crc (injector G) ?xs d = Some (n, d')" "h = db_fs d'"
        using run(1) Pair by (auto simp: db_session_def)
      have "write_from xxh crc (injector G) room 0 d
          = Some (if n = Suc room then SUCCESS else FAILURE, map of_nat [0..<min n room], h)"
        using write_from_puts [of xxh crc "injector G" room 0 d] d' by simp
      then show ?thesis using Inr Pair by (simp add: write_loop_def)
    qed
  qed
  then obtain c where wl: "write_loop xxh crc (injector G) dir room (injector_new (arm_crash_after k (sim_new seeded seed)))
      = Some (c, map of_nat [0..<min n room], h)" "n = Suc room \<longrightarrow> c = SUCCESS" by blast
  let ?m = "min m (Suc room)"
  have "verify_from xxh crc (sim_storage G) (of_nat 0) d [] = Some (SUCCESS, [] @ map of_nat [0..<?m])"
    by (rule crash_fs.verify_lists [OF sim_run.crash_fs_axioms _ _ _ re(3)])
       (use room in \<open>auto simp: take_puts map_ops_puts\<close>)
  then have "crash_verify xxh crc (sim_storage G) dir (power_lost G h) = Some (SUCCESS, map of_nat [0..<?m])"
    using re(1) by (simp add: crash_verify_def)
  moreover have "?m = min n room \<or> ?m = Suc (min n room)" using re(2) run(2) by (auto simp: min_def)
  ultimately show ?thesis
    using wl run(3) by (intro exI [of _ c] exI [of _ "map of_nat [0..<min n room]"] exI [of _ h] exI [of _ ?m]) auto
qed

theorem crashtest_lists_announced_witness:
  "\<exists>c out h n. write_loop (\<lambda>_. 0) sum_crc (injector first_choice) [''db''] 9 (injector_new (arm_crash_after 40 (sim_new (\<lambda>_. 0) 0))) = Some (c, out, h)
      \<and> out = map of_nat [0..<length out] \<and> (halted h \<or> c = SUCCESS \<and> length out = 9)
      \<and> crash_verify (\<lambda>_. 0) sum_crc (sim_storage first_choice) [''db''] (power_lost first_choice h) = Some (SUCCESS, map of_nat [0..<n])
      \<and> (n = length out \<or> n = Suc (length out))"
proof (rule crashtest_lists_announced [OF first_choice_ok])
  show "writes_fit True sum_crc (op_writes 1 (puts 0 (Suc 9)))"
    by (rule writes_fit_small) (use puts_fit [of 0 "Suc 9" 1] in \<open>auto simp: list_all_iff\<close>)
qed simp

end
