(* ===== verification/Bench_Hist.thy ===== *)
theory Bench_Hist imports Bloom "HOL-Library.Multiset" begin

text \<open>
  The latency histogram of the benchmark (\<open>src/src/bin/accretion-bench/hist.rs\<close>): samples are kept and
  sorted once, and quantiles are read off by nearest rank. The rank is computed in double precision,
  modelled with the rounding of \<open>Bloom\<close>; for the two quantiles that the driver prints it is the exact
  rank.
\<close>

section \<open>The histogram\<close>

record histogram =
  samples :: "u64 list"
  is_sorted :: bool

definition hist_with_capacity :: "nat \<Rightarrow> histogram" where
  "hist_with_capacity expected = \<lparr>samples = [], is_sorted = False\<rparr>"

definition hist_record :: "u64 \<Rightarrow> histogram \<Rightarrow> histogram" where
  "hist_record nanos h = h\<lparr>samples := samples h @ [nanos], is_sorted := False\<rparr>"

definition hist_len :: "histogram \<Rightarrow> nat" where "hist_len h = length (samples h)"
definition hist_is_empty :: "histogram \<Rightarrow> bool" where "hist_is_empty h \<longleftrightarrow> samples h = []"

definition ensure_sorted :: "histogram \<Rightarrow> histogram" where
  "ensure_sorted h = (if is_sorted h then h else h\<lparr>samples := sort (samples h), is_sorted := True\<rparr>)"

text \<open>\<open>f64::clamp(0.0, 1.0)\<close>, and \<open>f64::ceil\<close> followed by \<open>as usize\<close>.\<close>

definition f64_clamp01 :: "frac \<Rightarrow> frac" where
  "f64_clamp01 q = (if snd q < fst q then (1, 1) else q)"

definition f64_ceil :: "frac \<Rightarrow> nat" where
  "f64_ceil x = min ((fst x + snd x - 1) div snd x) (2 ^ 64 - 1)"

definition nearest_rank :: "frac \<Rightarrow> nat \<Rightarrow> nat" where
  "nearest_rank q n = min (max (f64_ceil (f64_mul (f64_clamp01 q) (f64_of_nat n))) 1) n - 1"

definition quantile :: "frac \<Rightarrow> histogram \<Rightarrow> u64 \<times> histogram" where
  "quantile q h =
     (if samples h = [] then (0, h)
      else let h = ensure_sorted h in (samples h ! nearest_rank q (length (samples h)), h))"

definition hist_min :: "histogram \<Rightarrow> u64 \<times> histogram" where
  "hist_min h = (let h = ensure_sorted h in (case samples h of [] \<Rightarrow> 0 | x # _ \<Rightarrow> x, h))"

definition hist_max :: "histogram \<Rightarrow> u64 \<times> histogram" where
  "hist_max h = (let h = ensure_sorted h in (if samples h = [] then 0 else last (samples h), h))"

text \<open>The sum is taken in \<open>u128\<close>.\<close>

definition hist_mean :: "histogram \<Rightarrow> u64" where
  "hist_mean h =
     (if samples h = [] then 0
      else ucast ((\<Sum>s\<leftarrow>samples h. ucast s :: u128) div of_nat (length (samples h))))"

definition P50 :: frac where "P50 = (1, 2)"
definition P99 :: frac where "P99 = (8917127262193582, 2 ^ 53)"

record latency_summary =
  min_us :: frac
  p50_us :: frac
  p99_us :: frac
  max_us :: frac
  mean_us :: frac

definition us :: "u64 \<Rightarrow> frac" where "us n = f64_div (f64_of_nat (unat n)) (1000, 1)"

definition summary_us :: "histogram \<Rightarrow> latency_summary \<times> histogram" where
  "summary_us h =
     (let (lo, h) = hist_min h; (p50, h) = quantile P50 h; (p99, h) = quantile P99 h; (hi, h) = hist_max h
      in (\<lparr>min_us = us lo, p50_us = us p50, p99_us = us p99, max_us = us hi, mean_us = us (hist_mean h)\<rparr>, h))"

section \<open>Rounding\<close>

lemma bit_length_bounds: "0 < n \<Longrightarrow> 2 ^ (bit_length n - 1) \<le> n \<and> n < 2 ^ bit_length n \<and> 0 < bit_length n"
proof (induction n rule: bit_length.induct)
  case (1 n)
  show ?case
  proof (cases "n div 2 = 0")
    case True
    then have "n = 1" using 1(2) by linarith
    moreover have "bit_length 0 = 0" by (simp add: bit_length.simps)
    then have "bit_length 1 = 1" by (subst bit_length.simps) simp
    ultimately show ?thesis by simp
  next
    case False
    then have ih: "2 ^ (bit_length (n div 2) - 1) \<le> n div 2" "n div 2 < 2 ^ bit_length (n div 2)" "0 < bit_length (n div 2)"
      using 1 by auto
    have b: "bit_length n = Suc (bit_length (n div 2))" using 1(2) by (subst bit_length.simps) simp
    have "2 ^ bit_length (n div 2) = 2 * (2 :: nat) ^ (bit_length (n div 2) - 1)" using ih(3) by (cases "bit_length (n div 2)") auto
    then show ?thesis using ih b by simp linarith
  qed
qed

lemma div_even_bounds:
  assumes "0 < b"
  shows "2 * (div_even a b * b) \<le> 2 * a + b" and "2 * a \<le> 2 * (div_even a b * b) + b"
proof -
  define q r where "q = a div b * b" and "r = a mod b"
  have a: "a = q + r" and r: "r < b" using assms by (simp_all add: q_def r_def)
  have "div_even a b * b = q \<and> 2 * r \<le> b \<or> div_even a b * b = q + b \<and> b \<le> 2 * r"
    by (auto simp: div_even_def Let_def q_def r_def add_mult_distrib)
  then show "2 * (div_even a b * b) \<le> 2 * a + b" "2 * a \<le> 2 * (div_even a b * b) + b"
    using a r by linarith+
qed

lemma halve:
  fixes A :: nat
  assumes "0 < B" and "2 ^ 53 * B \<le> A" and "2 * A' * B = A * B'"
  shows "2 ^ 52 * B' \<le> A'"
proof -
  have "B * (2 ^ 53 * B') = 2 ^ 53 * B * B'" by simp
  also have "\<dots> \<le> A * B'" using assms(2) by (rule mult_le_mono1)
  also have "\<dots> = B * (2 * A')" using assms(3) by (simp add: ac_simps)
  finally have "2 ^ 53 * B' \<le> 2 * A'" using assms(1) by simp
  then show ?thesis by simp
qed

text \<open>The shift leaves at least 53 bits, and is not negative below \<open>2 ^ 53\<close>.\<close>

lemma f64_shift_bits:
  assumes "0 < a" and "0 < b"
  shows "2 ^ 52 * snd (scaled (a, b) (f64_shift (a, b))) \<le> fst (scaled (a, b) (f64_shift (a, b)))"
proof -
  define s where "s = 53 + int (bit_length b) - int (bit_length a)"
  note ba = bit_length_bounds [OF assms(1)] and bb = bit_length_bounds [OF assms(2)]
  have first: "2 ^ 52 * snd (scaled (a, b) s) \<le> fst (scaled (a, b) s)"
  proof (cases "0 \<le> s")
    case True
    have "2 ^ 52 * b \<le> 2 ^ (52 + bit_length b)" using bb by (simp add: power_add)
    also have "52 + bit_length b = bit_length a - 1 + nat s" using True ba by (simp add: s_def)
    also have "2 ^ (bit_length a - 1 + nat s) \<le> a * 2 ^ nat s" unfolding power_add using ba by (intro mult_le_mono1) blast
    finally show ?thesis using True by (simp add: scaled_def)
  next
    case False
    have "2 ^ 52 * (b * 2 ^ nat (- s)) \<le> 2 ^ (52 + bit_length b + nat (- s))" using bb by (simp add: power_add)
    also have "52 + bit_length b + nat (- s) = bit_length a - 1" using False ba by (simp add: s_def)
    finally show ?thesis using False ba by (simp add: scaled_def)
  qed
  show ?thesis
  proof (cases "2 ^ 53 \<le> fst (scaled (a, b) s) div snd (scaled (a, b) s)")
    case True
    have pos: "0 < snd (scaled (a, b) s)" using assms(2) by (simp add: scaled_def)
    have "2 ^ 53 * snd (scaled (a, b) s) \<le> fst (scaled (a, b) s)"
      using True div_times_less_eq_dividend [of "fst (scaled (a, b) s)" "snd (scaled (a, b) s)"]
      by (meson le_trans mult_le_mono1)
    moreover have "f64_shift (a, b) = s - 1" using True by (simp add: f64_shift_def s_def)
    moreover have "2 * fst (scaled (a, b) (s - 1)) * snd (scaled (a, b) s) = fst (scaled (a, b) s) * snd (scaled (a, b) (s - 1))"
    proof (cases "0 < s")
      case True
      then have "nat s = Suc (nat (s - 1))" by simp
      then show ?thesis using True by (simp add: scaled_def)
    next
      case False
      then have "nat (- (s - 1)) = Suc (nat (- s))" by simp
      then show ?thesis using False by (cases "s = 0") (simp_all add: scaled_def)
    qed
    ultimately show ?thesis by (intro halve [OF pos, of "fst (scaled (a, b) s)"]) simp_all
  next
    case False
    then have "f64_shift (a, b) = s" by (simp add: f64_shift_def s_def)
    then show ?thesis using first by simp
  qed
qed

lemma f64_round_small:
  assumes "0 < a" and "0 < b" and "a < 2 ^ 53 * b"
  obtains s where "f64_round (a, b) = (div_even (a * 2 ^ s) b, 2 ^ s)" and "2 ^ 52 * b \<le> a * 2 ^ s"
proof -
  note bits = f64_shift_bits [OF assms(1,2)]
  have s: "0 \<le> f64_shift (a, b)"
  proof (rule ccontr)
    assume neg: "\<not> 0 \<le> f64_shift (a, b)"
    then obtain k where k: "nat (- f64_shift (a, b)) = Suc k" by (cases "nat (- f64_shift (a, b))") auto
    have "2 ^ 53 * b \<le> 2 ^ 52 * (b * 2 ^ Suc k)" by simp
    also have "\<dots> \<le> a" using bits neg unfolding scaled_def k by simp
    finally show False using assms(3) by simp
  qed
  show thesis
  proof (rule that [of "nat (f64_shift (a, b))"])
    show "f64_round (a, b) = (div_even (a * 2 ^ nat (f64_shift (a, b))) b, 2 ^ nat (f64_shift (a, b)))"
      using s assms(1) by (cases "f64_shift (a, b) = 0") (simp_all add: f64_round_def scaled_def Let_def)
    show "2 ^ 52 * b \<le> a * 2 ^ nat (f64_shift (a, b))" using bits s by (simp add: scaled_def)
  qed
qed

lemma f64_of_nat_exact:
  assumes "0 < n" and "n < 2 ^ 53"
  obtains s where "f64_of_nat n = (n * 2 ^ s, 2 ^ s)"
proof -
  obtain s where "f64_round (n, 1) = (div_even (n * 2 ^ s) 1, 2 ^ s)"
    using f64_round_small [of n 1] assms by (metis mult.right_neutral zero_less_one)
  then show thesis by (intro that [of s]) (simp add: f64_of_nat_def div_even_def)
qed

text \<open>A fraction that is clear of the integer below keeps its ceiling when it is rounded.\<close>

lemma f64_ceil_round:
  assumes ab: "0 < b" "a < 2 ^ 53 * b" and c: "a \<le> Suc c * b" "c * b < a" "a < 2 ^ 53 * (a - c * b)" and lt: "Suc c < 2 ^ 64"
  shows "f64_ceil (f64_round (a, b)) = Suc c"
proof -
  have a: "0 < a" using c(2) by simp
  obtain s where r: "f64_round (a, b) = (div_even (a * 2 ^ s) b, 2 ^ s)" and s: "2 ^ 52 * b \<le> a * 2 ^ s"
    by (rule f64_round_small [OF a ab])
  define k where "k = div_even (a * 2 ^ s) b"
  define T :: nat where "T = 2 ^ s"
  note kb = div_even_bounds [OF ab(1), of "a * T", folded k_def [unfolded T_def [symmetric]]]
  have T: "0 < T" by (simp add: T_def)
  have up: "k \<le> Suc c * T"
  proof (rule ccontr)
    assume "\<not> k \<le> Suc c * T"
    then have "(Suc c * T + 1) * b \<le> k * b" by (intro mult_le_mono1) simp
    moreover have "a * T \<le> Suc c * b * T" using c(1) by (rule mult_le_mono1)
    ultimately show False using kb(1) ab(1) by (simp add: algebra_simps)
  qed
  have low: "c * T < k"
  proof (rule ccontr)
    assume "\<not> c * T < k"
    then have "k * b \<le> c * T * b" by (intro mult_le_mono1) simp
    then have "2 * (a * T) \<le> 2 * (c * T * b) + b" using kb(2) by linarith
    then have "2 * ((a - c * b) * T) \<le> b" using c(2) by (simp add: diff_mult_distrib algebra_simps)
    have "T * (2 ^ 53 * (a - c * b)) = 2 ^ 52 * (2 * ((a - c * b) * T))" by simp
    also have "\<dots> \<le> 2 ^ 52 * b" by (rule mult_le_mono2) fact
    also have "\<dots> \<le> T * a" using s by (simp add: T_def mult.commute)
    finally have "T * (2 ^ 53 * (a - c * b)) \<le> T * a" .
    then show False using c(3) T by simp
  qed
  have "(k + T - 1) div T = Suc c"
    using up low T by (intro div_nat_eqI) (simp_all add: algebra_simps)
  then show ?thesis using lt r by (simp add: f64_ceil_def k_def T_def)
qed

lemma rank_exact:
  assumes q: "f64_clamp01 (x, y) = (x, y)" "0 < y" "x \<le> y" and n: "0 < n" "n < 2 ^ 53"
    and c: "x * n \<le> Suc c * y" "c * y < x * n" "x * n < 2 ^ 53 * (x * n - c * y)"
  shows "nearest_rank (x, y) n = c"
proof -
  obtain s where s: "f64_of_nat n = (n * 2 ^ s, 2 ^ s)" by (rule f64_of_nat_exact [OF n])
  define T :: nat where "T = 2 ^ s"
  have T: "0 < T" by (simp add: T_def)
  have cn: "c < n"
  proof (rule ccontr)
    assume "\<not> c < n"
    then have "n * y \<le> c * y" by (intro mult_le_mono1) simp
    moreover have "x * n \<le> y * n" using q(3) by (rule mult_le_mono1)
    ultimately show False using c(2) mult.commute [of n y] by linarith
  qed
  have "f64_ceil (f64_round (x * (n * T), y * T)) = Suc c"
  proof (rule f64_ceil_round)
    show "0 < y * T" using q(2) T by simp
    have "x * n \<le> y * n" using q(3) by simp
    also have "\<dots> < 2 ^ 53 * y" using n(2) q(2) by (simp add: mult.commute)
    finally show "x * (n * T) < 2 ^ 53 * (y * T)" using T by (simp flip: mult.assoc)
    show "x * (n * T) \<le> Suc c * (y * T)" using mult_le_mono1 [OF c(1), of T] by (simp add: ac_simps)
    show "c * (y * T) < x * (n * T)" using c(2) T by (simp flip: mult.assoc)
    have "x * (n * T) - c * (y * T) = (x * n - c * y) * T" by (simp add: diff_mult_distrib mult.assoc)
    then show "x * (n * T) < 2 ^ 53 * (x * (n * T) - c * (y * T))" using c(3) T by (simp flip: mult.assoc)
    show "Suc c < 2 ^ 64" using cn n(2) by simp
  qed
  then have "f64_ceil (f64_mul (f64_clamp01 (x, y)) (f64_of_nat n)) = Suc c" using q(1) s by (simp add: f64_mul_def T_def)
  then show ?thesis using cn by (simp add: nearest_rank_def min_def)
qed

lemma nearest_rank_P50: "0 < n \<Longrightarrow> n < 2 ^ 45 \<Longrightarrow> nearest_rank P50 n = (n + 1) div 2 - 1"
  unfolding P50_def by (rule rank_exact) (auto simp: f64_clamp01_def)

lemma nearest_rank_P99: "0 < n \<Longrightarrow> n < 2 ^ 45 \<Longrightarrow> nearest_rank P99 n = (99 * n + 99) div 100 - 1"
  unfolding P99_def by (rule rank_exact) (auto simp: f64_clamp01_def)

section \<open>Nearest rank\<close>

definition hist_ok :: "histogram \<Rightarrow> bool" where
  "hist_ok h \<longleftrightarrow> (is_sorted h \<longrightarrow> sorted (samples h))"

lemma ensure_sorted_samples: "hist_ok h \<Longrightarrow> samples (ensure_sorted h) = sort (samples h)"
  by (auto simp: ensure_sorted_def hist_ok_def sorted_sort_id)

lemma hist_ok_simps [simp]: "hist_ok (hist_with_capacity n)" "hist_ok (hist_record x h)"
  by (simp_all add: hist_ok_def hist_with_capacity_def hist_record_def)

lemma hist_ok_ensure: "hist_ok h \<Longrightarrow> hist_ok (ensure_sorted h)"
  by (simp add: hist_ok_def ensure_sorted_def)

text \<open>How many samples are at most, and how many are below, the one at a rank.\<close>

lemma sorted_nth_rank:
  fixes xs :: "'a :: linorder list"
  assumes "sorted xs" and "k < length xs"
  shows "Suc k \<le> length (filter (\<lambda>x. x \<le> xs ! k) xs)" and "length (filter (\<lambda>x. x < xs ! k) xs) \<le> k"
proof -
  have xs: "xs = take (Suc k) xs @ drop (Suc k) xs" "xs = take k xs @ drop k xs" by simp_all
  have "filter (\<lambda>x. x \<le> xs ! k) (take (Suc k) xs) = take (Suc k) xs"
    using assms by (auto simp: in_set_conv_nth sorted_nth_mono less_Suc_eq_le intro!: filter_True)
  then show "Suc k \<le> length (filter (\<lambda>x. x \<le> xs ! k) xs)"
    using assms(2) by (subst xs(1)) (simp del: append_take_drop_id)
  have "xs ! k \<le> xs ! (k + i)" if "i < length xs - k" for i
    using that by (intro sorted_nth_mono [OF assms(1)]) auto
  then have "filter (\<lambda>x. x < xs ! k) (drop k xs) = []"
    by (intro filter_False) (auto simp: in_set_conv_nth not_less)
  then show "length (filter (\<lambda>x. x < xs ! k) xs) \<le> k"
    using assms(2) length_filter_le [of "\<lambda>x. x < xs ! k" "take k xs"] by (subst xs(2)) (simp del: append_take_drop_id)
qed

lemma quantile_rank:
  assumes h: "hist_ok h" "samples h \<noteq> []" and k: "k = nearest_rank q (length (samples h))" "k < length (samples h)"
  shows "fst (quantile q h) \<in> set (samples h)"
    and "Suc k \<le> length (filter (\<lambda>s. s \<le> fst (quantile q h)) (samples h))"
    and "length (filter (\<lambda>s. s < fst (quantile q h)) (samples h)) \<le> k"
proof -
  have v: "fst (quantile q h) = sort (samples h) ! k" using h ensure_sorted_samples [OF h(1)] k by (simp add: quantile_def Let_def)
  have count: "length (filter P (sort (samples h))) = length (filter P (samples h))" for P
    by (metis mset_filter mset_sort size_mset)
  show "fst (quantile q h) \<in> set (samples h)" unfolding v using k(2) by (metis length_sort nth_mem set_sort)
  show "Suc k \<le> length (filter (\<lambda>s. s \<le> fst (quantile q h)) (samples h))"
    "length (filter (\<lambda>s. s < fst (quantile q h)) (samples h)) \<le> k"
    unfolding v using sorted_nth_rank [of "sort (samples h)" k] k(2) by (simp_all add: count)
qed

lemma rank_bounds:
  fixes n :: nat
  assumes "0 < n"
  shows "(n + 1) div 2 - 1 < n" "n \<le> 2 * Suc ((n + 1) div 2 - 1)" "2 * ((n + 1) div 2 - 1) < n"
    and "(99 * n + 99) div 100 - 1 < n" "99 * n \<le> 100 * Suc ((99 * n + 99) div 100 - 1)"
      "100 * ((99 * n + 99) div 100 - 1) < 99 * n"
proof -
  define d e where "d = (n + 1) div 2" and "e = (99 * n + 99) div 100"
  have de: "2 * d \<le> n + 1" "n + 1 < 2 * d + 2" "100 * e \<le> 99 * n + 99" "99 * n + 99 < 100 * e + 100"
    unfolding d_def e_def by linarith+
  then obtain d' e' where "d = Suc d'" "e = Suc e'" using assms by (cases d; cases e) auto
  with de show "(n + 1) div 2 - 1 < n" "n \<le> 2 * Suc ((n + 1) div 2 - 1)" "2 * ((n + 1) div 2 - 1) < n"
    "(99 * n + 99) div 100 - 1 < n" "99 * n \<le> 100 * Suc ((99 * n + 99) div 100 - 1)"
    "100 * ((99 * n + 99) div 100 - 1) < 99 * n"
    using assms unfolding d_def [symmetric] e_def [symmetric] by simp_all
qed

text \<open>C21 (quantile_nearest_rank): the p50 and the p99 that a histogram of fewer than \<open>2 ^ 45\<close> samples
  reports are samples, at least half of the samples (99 in 100) are at most the reported value, and
  fewer than half (99 in 100) are below it; in spite of the rank being computed in floating point.\<close>

theorem quantile_nearest_rank:
  assumes h: "hist_ok h" "samples h \<noteq> []" "length (samples h) < 2 ^ 45"
  shows "fst (quantile P50 h) \<in> set (samples h)
    \<and> length (samples h) \<le> 2 * length (filter (\<lambda>s. s \<le> fst (quantile P50 h)) (samples h))
    \<and> 2 * length (filter (\<lambda>s. s < fst (quantile P50 h)) (samples h)) < length (samples h)
    \<and> fst (quantile P99 h) \<in> set (samples h)
    \<and> 99 * length (samples h) \<le> 100 * length (filter (\<lambda>s. s \<le> fst (quantile P99 h)) (samples h))
    \<and> 100 * length (filter (\<lambda>s. s < fst (quantile P99 h)) (samples h)) < 99 * length (samples h)"
proof -
  let ?n = "length (samples h)"
  have n: "0 < ?n" using h(2) by simp
  have r: "nearest_rank P50 ?n = (?n + 1) div 2 - 1" "nearest_rank P99 ?n = (99 * ?n + 99) div 100 - 1"
    using nearest_rank_P50 nearest_rank_P99 n h(3) by blast+
  note a = quantile_rank [OF h(1,2) r(1) [symmetric]] and b = quantile_rank [OF h(1,2) r(2) [symmetric]]
  note b2 = rank_bounds [OF n]
  show ?thesis using a [OF b2(1)] b [OF b2(4)] b2(2,3,5,6) by (intro conjI) (blast | linarith)+
qed

definition demo_hist :: histogram where
  "demo_hist = foldr hist_record [7, 3, 9, 3, 5] (hist_with_capacity 5)"

theorem quantile_nearest_rank_witness:
  "fst (quantile P50 demo_hist) \<in> set (samples demo_hist)
    \<and> 5 \<le> 2 * length (filter (\<lambda>s. s \<le> fst (quantile P50 demo_hist)) (samples demo_hist))
    \<and> 2 * length (filter (\<lambda>s. s < fst (quantile P50 demo_hist)) (samples demo_hist)) < 5
    \<and> 99 * 5 \<le> 100 * length (filter (\<lambda>s. s \<le> fst (quantile P99 demo_hist)) (samples demo_hist))
    \<and> 100 * length (filter (\<lambda>s. s < fst (quantile P99 demo_hist)) (samples demo_hist)) < 99 * 5"
proof -
  have l: "length (samples demo_hist) = 5" by (simp add: demo_hist_def hist_record_def hist_with_capacity_def)
  have "hist_ok demo_hist" "samples demo_hist \<noteq> []" "length (samples demo_hist) < 2 ^ 45"
    using l by (auto simp: demo_hist_def)
  from quantile_nearest_rank [OF this] show ?thesis unfolding l by blast
qed

end
