(* ===== verification/Bench_Work.thy ===== *)
theory Bench_Work imports Slices Ordered_Map "HOL-Library.Multiset" begin

text \<open>
  The generated workload of the benchmark (\<open>src/src/bin/accretion-bench/workload.rs\<close>): keys, values and
  the order in which they are visited. The random generator is a crate: \<open>shuf seed xs\<close> is what
  \<open>shuffle\<close> makes of a list, \<open>rnd seed n k\<close> the \<open>k\<close>-th result of \<open>gen_range(0..n)\<close>.
\<close>

definition KEY_LEN :: nat where "KEY_LEN = 16"
definition VALUE_LEN :: nat where "VALUE_LEN = 100"

definition u64_be :: "u64 \<Rightarrow> bytes" where "u64_be i = rev (u64_le i)"

definition bench_key :: "u64 \<Rightarrow> bytes" where
  "bench_key i = take (KEY_LEN - 8) (replicate KEY_LEN 0) @ u64_be i"

definition bench_value :: "u64 \<Rightarrow> bytes" where
  "bench_value i =
     (let sd = i * 0x9E3779B97F4A7C15
      in u64_le i @ map (\<lambda>j. ucast ((sd + of_nat j) AND 0xFF)) [0..<VALUE_LEN - 8])"

datatype fill_order = Sequential | Random

definition fill_indices :: "(u64 \<Rightarrow> u64 list \<Rightarrow> u64 list) \<Rightarrow> fill_order \<Rightarrow> u64 \<Rightarrow> u64 \<Rightarrow> u64 list" where
  "fill_indices shuf ord n sd =
     (let idx = map of_nat [0..<unat n] in if ord = Random then shuf sd idx else idx)"

text \<open>\<open>gen_range\<close> panics on an empty range.\<close>

definition read_indices :: "(u64 \<Rightarrow> u64 \<Rightarrow> nat \<Rightarrow> u64) \<Rightarrow> u64 \<Rightarrow> nat \<Rightarrow> u64 \<Rightarrow> u64 list option" where
  "read_indices rnd n num sd = (if n = 0 \<and> 0 < num then None else Some (map (rnd sd n) [0..<num]))"

text \<open>What the driver relies on: a shuffle permutes, and a number from a range is in it.\<close>

definition rng_ok :: "(u64 \<Rightarrow> u64 list \<Rightarrow> u64 list) \<Rightarrow> (u64 \<Rightarrow> u64 \<Rightarrow> nat \<Rightarrow> u64) \<Rightarrow> bool" where
  "rng_ok shuf rnd \<longleftrightarrow> (\<forall>sd xs. mset (shuf sd xs) = mset xs) \<and> (\<forall>sd n k. 0 < n \<longrightarrow> rnd sd n k < n)"

section \<open>Keys\<close>

lemma length_u64_be [simp]: "length (u64_be i) = 8"
  by (simp add: u64_be_def)

lemma bench_key_split: "bench_key i = replicate 8 0 @ u64_be i"
  by (simp add: bench_key_def KEY_LEN_def)

lemma length_bench_key [simp]: "length (bench_key i) = 16" by (simp add: bench_key_split)
lemma length_bench_value [simp]: "length (bench_value i) = 100" by (simp add: bench_value_def VALUE_LEN_def Let_def)

lemma less_append_iff:
  fixes xs :: "'a :: linorder list"
  shows "length xs = length ys \<Longrightarrow> xs @ us < ys @ vs \<longleftrightarrow> xs < ys \<or> xs = ys \<and> us < vs"
  by (induction xs ys rule: list_induct2) auto

lemma nat_le_inj: "m < 256 ^ k \<Longrightarrow> n < 256 ^ k \<Longrightarrow> nat_le k m = nat_le k n \<longleftrightarrow> m = n"
  by (metis le_nat_nat_le mod_less)

lemma digits_less:
  fixes q r :: nat
  assumes "r < b" and "r' < b"
  shows "q * b + r < q' * b + r' \<longleftrightarrow> q < q' \<or> q = q' \<and> r < r'"
proof -
  have lt: "x * b + y < x' * b + y'" if "x < x'" "y < b" for x y x' y' :: nat
  proof -
    have "Suc x * b \<le> x' * b" using that(1) by (intro mult_le_mono1) simp
    then show ?thesis using that(2) by simp
  qed
  show ?thesis using lt [of q q' r r'] lt [of q' q r' r] assms by (cases q q' rule: linorder_cases) auto
qed

lemma nat_be_less: "m < 256 ^ k \<Longrightarrow> n < 256 ^ k \<Longrightarrow> rev (nat_le k m) < rev (nat_le k n) \<longleftrightarrow> m < n"
proof (induction k arbitrary: m n)
  case (Suc k)
  have d: "m div 256 < 256 ^ k" "n div 256 < 256 ^ k" using Suc.prems by (simp_all add: less_mult_imp_div_less mult.commute)
  have b: "(of_nat (m mod 256) :: u8) < of_nat (n mod 256) \<longleftrightarrow> m mod 256 < n mod 256"
    by (simp add: word_less_nat_alt unat_of_nat_byte)
  have "m < n \<longleftrightarrow> m div 256 < n div 256 \<or> m div 256 = n div 256 \<and> m mod 256 < n mod 256"
    using digits_less [of "m mod 256" 256 "n mod 256" "m div 256" "n div 256"] by simp
  then show ?case
    using Suc.IH [OF d] by (simp add: less_append_iff nat_le_inj [OF d] b)
qed simp

lemma u64_be_less: "u64_be i < u64_be j \<longleftrightarrow> i < j"
  using nat_be_less [of "unat i" 8 "unat j"] unsigned_less [of i, where ?'a = nat] unsigned_less [of j, where ?'a = nat]
  by (simp add: u64_be_def u64_le_def word_less_nat_alt)

lemma bench_key_less: "bench_key i < bench_key j \<longleftrightarrow> i < j"
  by (simp add: bench_key_split less_append_iff u64_be_less)

lemma bench_key_inj [simp]: "bench_key i = bench_key j \<longleftrightarrow> i = j"
  using bench_key_less [of i j] bench_key_less [of j i] by (metis less_irrefl linorder_neqE)

lemma bench_value_inj [simp]: "bench_value i = bench_value j \<longleftrightarrow> i = j"
proof
  assume "bench_value i = bench_value j"
  then have "take 8 (bench_value i) = take 8 (bench_value j)" by simp
  then have "u64_le i = u64_le j" by (simp add: bench_value_def Let_def)
  then show "i = j" by (metis le_u64_u64_le)
qed simp

section \<open>Orders\<close>

lemma mset_fill_indices:
  assumes "rng_ok shuf rnd"
  shows "mset (fill_indices shuf ord n sd) = mset (map of_nat [0..<unat n])"
  using assms by (simp add: fill_indices_def rng_ok_def Let_def)

lemma set_fill_indices: "rng_ok shuf rnd \<Longrightarrow> set (fill_indices shuf ord n sd) = {i. i < n}"
proof -
  assume "rng_ok shuf rnd"
  from mset_fill_indices [OF this, of ord n sd] have "set (fill_indices shuf ord n sd) = of_nat ` {0..<unat n}"
    by (metis mset_eq_setD set_map set_upt)
  also have "\<dots> = {i. i < n}"
  proof (intro set_eqI iffI)
    fix i :: u64 assume "i \<in> {i. i < n}"
    then have "unat i \<in> {0..<unat n}" "i = of_nat (unat i)" by (simp_all add: word_less_nat_alt)
    then show "i \<in> of_nat ` {0..<unat n}" by blast
  next
    fix i :: u64 assume "i \<in> of_nat ` {0..<unat n}"
    then obtain k where "k < unat n" "i = of_nat k" by auto
    then show "i \<in> {i. i < n}" using unsigned_less [of n, where ?'a = nat] by (simp add: word_less_nat_alt)
  qed
  finally show ?thesis .
qed

lemma length_fill_indices: "rng_ok shuf rnd \<Longrightarrow> length (fill_indices shuf ord n sd) = unat n"
  using mset_fill_indices [of shuf rnd ord n sd] by (metis diff_zero length_map length_upt size_mset)

lemma read_indices_less:
  assumes "rng_ok shuf rnd" and "read_indices rnd n num sd = Some is"
  shows "length is = num" and "i \<in> set is \<Longrightarrow> i < n"
  using assms by (auto simp: read_indices_def rng_ok_def split: if_splits) (metis word_gt_0)

end
