(* ===== verification/Bench_Run.thy ===== *)
theory Bench_Run imports Bench_Work Bench_Hist Db_Refine begin

text \<open>
  The benchmark driver (\<open>src/src/bin/accretion-bench/kv.rs\<close> and \<open>runner.rs\<close>): the trait \<open>KvBench\<close> as a
  record of operations on an engine state, its implementation by the engine, and the three phases.
  The workers of a phase are threads; each engine call is one step, and a schedule says whose turn it
  is. Time is read from the machine, so elapsed times are arguments.
\<close>

section \<open>The trait\<close>

datatype bench_error =
    Open_failed db_error | Put_failed db_error | Get_failed db_error | Scan_failed db_error | Flush_failed db_error
  | Message string

text \<open>\<open>None\<close> is a call that panics or does not return.\<close>

record 's kv_bench =
  kb_label :: string
  kb_put :: "bytes \<Rightarrow> bytes \<Rightarrow> 's \<Rightarrow> ((bench_error + unit) \<times> 's) option"
  kb_get :: "bytes \<Rightarrow> 's \<Rightarrow> ((bench_error + bytes option) \<times> 's) option"
  kb_scan_count :: "bytes \<Rightarrow> bytes \<Rightarrow> 's \<Rightarrow> ((bench_error + nat) \<times> 's) option"
  kb_flush :: "'s \<Rightarrow> ((bench_error + unit) \<times> 's) option"

definition durability_name :: "durability \<Rightarrow> string" where
  "durability_name m = (case m of Always \<Rightarrow> ''Always'' | GroupCommit \<Rightarrow> ''GroupCommit'' | OsBuffered \<Rightarrow> ''OsBuffered'')"

definition bench_opts :: "durability \<Rightarrow> nat \<Rightarrow> options" where
  "bench_opts m memtable_size = \<lparr>o_durability = m, o_memtable_size = memtable_size, o_tier_fanout = 4\<rparr>"

definition accretion_open ::
  "crc \<Rightarrow> 'fs storage \<Rightarrow> path \<Rightarrow> durability \<Rightarrow> nat \<Rightarrow> 'fs \<Rightarrow> (bench_error + 'fs db) \<times> 'fs" where
  "accretion_open crc S dir m memtable_size s = err_map Open_failed (db_open crc S dir (bench_opts m memtable_size) s)"

definition accretion_bench :: "hash128 \<Rightarrow> crc \<Rightarrow> 'fs storage \<Rightarrow> durability \<Rightarrow> 'fs db kv_bench" where
  "accretion_bench xxh crc S m =
     \<lparr>kb_label = ''accretion-db/'' @ durability_name m,
      kb_put = \<lambda>k v d. map_option (err_map Put_failed) (db_put xxh crc S k v d),
      kb_get = \<lambda>k d. Some (err_map Get_failed (db_get xxh crc S k d)),
      kb_scan_count = \<lambda>lo hi d. map_option (\<lambda>r. ok_then (err_map Scan_failed r) (\<lambda>it d. (Inr (length (live_all it)), d)))
        (db_scan crc S (Included lo, Excluded hi) d),
      kb_flush = \<lambda>d. map_option (err_map Flush_failed) (db_flush xxh crc S d)\<rparr>"

section \<open>Workers\<close>

text \<open>\<open>partition\<close>: the last chunk takes the remainder.\<close>

fun partition_from :: "nat \<Rightarrow> nat \<Rightarrow> nat \<Rightarrow> nat list \<Rightarrow> nat \<Rightarrow> (nat \<times> nat) list" where
  "partition_from n workers base [] start = []"
| "partition_from n workers base (w # ws) start =
     (let len = (if w = workers - 1 then n - start else base)
      in (start, start + len) # partition_from n workers base ws (start + len))"

definition partition_work :: "nat \<Rightarrow> nat \<Rightarrow> (nat \<times> nat) list" where
  "partition_work n workers = (let workers = max workers 1 in partition_from n workers (n div workers) [0..<workers] 0)"

record worker =
  w_todo :: "u64 list"
  w_hist :: histogram
  w_failed :: "bench_error option"

definition fill_task :: "'s kv_bench \<Rightarrow> u64 \<Rightarrow> 's \<Rightarrow> ((bench_error + unit) \<times> 's) option" where
  "fill_task K i s = kb_put K (bench_key i) (bench_value i) s"

definition read_task :: "'s kv_bench \<Rightarrow> u64 \<Rightarrow> 's \<Rightarrow> ((bench_error + unit) \<times> 's) option" where
  "read_task K i s =
     map_option (\<lambda>r. ok_then r (\<lambda>got s.
         (case got of
            Some v \<Rightarrow> if v = bench_value i then Inr () else Inl (Message ''point-read: value mismatch'')
          | None \<Rightarrow> Inl (Message ''point-read: missing key that was filled''), s)))
       (kb_get K (bench_key i) s)"

text \<open>One turn of worker \<open>k\<close>; \<open>el k j\<close> is the time its \<open>j\<close>-th call took.\<close>

definition worker_step ::
  "(nat \<Rightarrow> nat \<Rightarrow> u64) \<Rightarrow> (u64 \<Rightarrow> 's \<Rightarrow> ((bench_error + unit) \<times> 's) option) \<Rightarrow> nat
    \<Rightarrow> worker list \<times> 's \<Rightarrow> (worker list \<times> 's) option" where
  "worker_step el task k = (\<lambda>(ws, s).
     case (if k < length ws then w_todo (ws ! k) else []) of
       [] \<Rightarrow> Some (ws, s)
     | i # todo \<Rightarrow>
         (case task i s of
            None \<Rightarrow> None
          | Some (Inl e, s) \<Rightarrow> Some (ws[k := (ws ! k)\<lparr>w_todo := [], w_failed := Some e\<rparr>], s)
          | Some (Inr _, s) \<Rightarrow>
              let h = w_hist (ws ! k)
              in Some (ws[k := (ws ! k)\<lparr>w_todo := todo, w_hist := hist_record (el k (hist_len h)) h\<rparr>], s)))"

fun run_workers ::
  "(nat \<Rightarrow> nat \<Rightarrow> u64) \<Rightarrow> (u64 \<Rightarrow> 's \<Rightarrow> ((bench_error + unit) \<times> 's) option) \<Rightarrow> nat list
    \<Rightarrow> worker list \<times> 's \<Rightarrow> (worker list \<times> 's) option" where
  "run_workers el task [] st = Some st"
| "run_workers el task (k # ks) st =
     (case worker_step el task k st of None \<Rightarrow> None | Some st \<Rightarrow> run_workers el task ks st)"

text \<open>The handles are joined in order; the first error is the result.\<close>

fun join_workers :: "worker list \<Rightarrow> bench_error + histogram list" where
  "join_workers [] = Inr []"
| "join_workers (w # ws) =
     (case w_failed w of Some e \<Rightarrow> Inl e | None \<Rightarrow> res_then (join_workers ws) (\<lambda>hs. Inr (w_hist w # hs)))"

text \<open>What the machine contributes to a phase: whose turn it is, how long each call and the phase took.\<close>

record run_env =
  schedule :: "nat list"
  elapsed :: "nat \<Rightarrow> nat \<Rightarrow> u64"
  phase_secs :: frac

definition new_worker :: "u64 list \<Rightarrow> nat \<times> nat \<Rightarrow> worker" where
  "new_worker idx = (\<lambda>(lo, hi). \<lparr>w_todo = take (hi - lo) (drop lo idx), w_hist = hist_with_capacity (hi - lo), w_failed = None\<rparr>)"

text \<open>A schedule that leaves work undone does not reach the join.\<close>

definition run_phase ::
  "run_env \<Rightarrow> (u64 \<Rightarrow> 's \<Rightarrow> ((bench_error + unit) \<times> 's) option) \<Rightarrow> u64 list \<Rightarrow> nat \<Rightarrow> 's
    \<Rightarrow> ((bench_error + histogram list) \<times> 's) option" where
  "run_phase env task idx concurrency s =
     (case run_workers (elapsed env) task (schedule env) (map (new_worker idx) (partition_work (length idx) concurrency), s) of
        None \<Rightarrow> None
      | Some (ws, s) \<Rightarrow> if list_all (\<lambda>w. w_todo w = []) ws then Some (join_workers ws, s) else None)"

section \<open>Phases\<close>

record phase_report =
  pr_phase :: string
  pr_engine :: string
  pr_concurrency :: nat
  pr_ops :: nat
  pr_secs :: frac
  pr_throughput :: frac
  pr_latency :: latency_summary

definition merge_hists :: "histogram list \<Rightarrow> histogram" where
  "merge_hists hs =
     foldl (\<lambda>m h. foldl (\<lambda>m x. hist_record x m) m (samples h)) (hist_with_capacity (sum_list (map hist_len hs))) hs"

definition finish_report :: "string \<Rightarrow> string \<Rightarrow> nat \<Rightarrow> frac \<Rightarrow> histogram list \<Rightarrow> phase_report" where
  "finish_report phase engine concurrency secs hs =
     (let merged = merge_hists hs; ops = hist_len merged
      in \<lparr>pr_phase = phase, pr_engine = engine, pr_concurrency = concurrency, pr_ops = ops, pr_secs = secs,
          pr_throughput = (if 0 < fst secs then f64_div (f64_of_nat ops) secs else (0, 1)),
          pr_latency = fst (summary_us merged)\<rparr>)"

definition run_fill ::
  "(u64 \<Rightarrow> u64 list \<Rightarrow> u64 list) \<Rightarrow> run_env \<Rightarrow> 's kv_bench \<Rightarrow> fill_order \<Rightarrow> u64 \<Rightarrow> nat \<Rightarrow> u64 \<Rightarrow> 's
    \<Rightarrow> ((bench_error + phase_report) \<times> 's) option" where
  "run_fill shuf env K ord n concurrency sd s =
     map_option (\<lambda>r. ok_then r (\<lambda>hs s.
         (Inr (finish_report (if ord = Sequential then ''fill-seq'' else ''fill-random'') (kb_label K) concurrency (phase_secs env) hs), s)))
       (run_phase env (fill_task K) (fill_indices shuf ord n sd) concurrency s)"

definition run_point_read ::
  "(u64 \<Rightarrow> u64 \<Rightarrow> nat \<Rightarrow> u64) \<Rightarrow> run_env \<Rightarrow> 's kv_bench \<Rightarrow> u64 \<Rightarrow> nat \<Rightarrow> nat \<Rightarrow> u64 \<Rightarrow> 's
    \<Rightarrow> ((bench_error + phase_report) \<times> 's) option" where
  "run_point_read rnd env K n num concurrency sd s =
     (case read_indices rnd n num sd of
        None \<Rightarrow> None
      | Some idx \<Rightarrow>
          map_option (\<lambda>r. ok_then r (\<lambda>hs s.
              (Inr (finish_report ''point-read'' (kb_label K) concurrency (phase_secs env) hs), s)))
            (run_phase env (read_task K) idx concurrency s))"

fun scan_loop ::
  "(nat \<Rightarrow> u64) \<Rightarrow> 's kv_bench \<Rightarrow> u64 \<Rightarrow> u64 list \<Rightarrow> histogram \<times> nat \<Rightarrow> 's
    \<Rightarrow> ((bench_error + histogram \<times> nat) \<times> 's) option" where
  "scan_loop el K window [] acc s = Some (Inr acc, s)"
| "scan_loop el K window (i # is) (h, seen) s =
     (case kb_scan_count K (bench_key i) (bench_key (i + window)) s of
        None \<Rightarrow> None
      | Some (Inl e, s) \<Rightarrow> Some (Inl e, s)
      | Some (Inr pairs, s) \<Rightarrow> scan_loop el K window is (hist_record (el (hist_len h)) h, seen + pairs) s)"

definition saturating_sub :: "u64 \<Rightarrow> u64 \<Rightarrow> u64" where
  "saturating_sub a b = (if a \<le> b then 0 else a - b)"

definition run_scan ::
  "(u64 \<Rightarrow> u64 \<Rightarrow> nat \<Rightarrow> u64) \<Rightarrow> run_env \<Rightarrow> 's kv_bench \<Rightarrow> u64 \<Rightarrow> nat \<Rightarrow> u64 \<Rightarrow> u64 \<Rightarrow> 's
    \<Rightarrow> ((bench_error + phase_report) \<times> 's) option" where
  "run_scan rnd env K n num window sd s =
     (case read_indices rnd (max (saturating_sub n window) 1) num sd of
        None \<Rightarrow> None
      | Some starts \<Rightarrow>
          map_option (\<lambda>r. ok_then r (\<lambda>(h, seen) s.
              (Inr ((finish_report ''scan'' (kb_label K) 1 (phase_secs env) [h])
                 \<lparr>pr_phase := ''scan('' @ [CHR 0xE2, CHR 0x89, CHR 0x88] @ dec seen @ '' pairs)''\<rparr>), s)))
            (scan_loop (elapsed env 0) K window starts (hist_with_capacity num, 0) s))"

section \<open>The chunks\<close>

definition chunk :: "'a list \<Rightarrow> nat \<times> nat \<Rightarrow> 'a list" where
  "chunk xs = (\<lambda>(lo, hi). take (hi - lo) (drop lo xs))"

lemma partition_from_chunks:
  "j + k = workers \<Longrightarrow> start + k * base \<le> length xs \<Longrightarrow>
    concat (map (chunk xs) (partition_from (length xs) workers base [j..<workers] start)) = (if k = 0 then [] else drop start xs)
    \<and> list_all (\<lambda>(lo, hi). lo \<le> hi \<and> hi \<le> length xs) (partition_from (length xs) workers base [j..<workers] start)"
proof (induction k arbitrary: j start)
  case (Suc k)
  have up: "[j..<workers] = j # [Suc j..<workers]" using Suc.prems(1) by (simp add: upt_conv_Cons)
  show ?case
  proof (cases k)
    case 0
    then show ?thesis using Suc.prems up by (simp add: chunk_def Let_def)
  next
    case (Suc k')
    have "take base (drop start xs) @ drop (start + base) xs = drop start xs"
      by (metis add.commute append_take_drop_id drop_drop)
    then show ?thesis
      using Suc.IH [of "Suc j" "start + base"] Suc.prems Suc up by (simp add: chunk_def Let_def add.assoc)
  qed
qed simp

lemma length_partition_from [simp]: "length (partition_from n workers base ws start) = length ws"
  by (induction ws arbitrary: start) (simp_all add: Let_def)

lemma div_mult_max: "max w 1 * (n div max w 1) \<le> (n :: nat)"
  by simp

lemma chunks_partition_work: "concat (map (chunk xs) (partition_work (length xs) w)) = xs"
  using partition_from_chunks [of 0 "max w 1" "max w 1" 0 "length xs div max w 1" xs]
  by (simp add: partition_work_def Let_def)

end
