(* ===== verification/Bench_Client.thy ===== *)
theory Bench_Client imports Bench_Run begin

text \<open>
  What the benchmark's phases do on any engine that behaves as a map, for every split of the work and
  every order in which the workers take turns, and the engine's own implementation of the trait.
\<close>

section \<open>Workers\<close>

lemma mset_concat_update:
  "k < length ws \<Longrightarrow> mset (concat (map f (ws[k := w]))) + mset (f (ws ! k)) = mset (concat (map f ws)) + mset (f w)"
proof (induction ws arbitrary: k)
  case (Cons x ws)
  then show ?case by (cases k) (auto simp: ac_simps)
qed simp

lemma sum_map_update:
  fixes f :: "'a \<Rightarrow> nat"
  shows "k < length ws \<Longrightarrow> sum_list (map f (ws[k := w])) + f (ws ! k) = sum_list (map f ws) + f w"
proof (induction ws arbitrary: k)
  case (Cons x ws)
  then show ?case by (cases k) (auto simp: ac_simps)
qed simp

lemma hist_len_record [simp]: "hist_len (hist_record x h) = Suc (hist_len h)"
  by (simp add: hist_len_def hist_record_def)

lemma run_workers_ok:
  assumes step: "\<And>xs i s. J xs s \<Longrightarrow> mset (xs @ [i]) \<subseteq># A \<Longrightarrow> \<exists>s'. task i s = Some (Inr (), s') \<and> J (xs @ [i]) s'"
    and "J xs s" and "mset xs + mset (concat (map w_todo ws)) = A" and "list_all (\<lambda>w. w_failed w = None) ws"
  shows "\<exists>ws' s' xs'. run_workers el task sched (ws, s) = Some (ws', s') \<and> J xs' s'
    \<and> mset xs' + mset (concat (map w_todo ws')) = A \<and> list_all (\<lambda>w. w_failed w = None) ws' \<and> length ws' = length ws
    \<and> sum_list (map (hist_len \<circ> w_hist) ws') + length xs = sum_list (map (hist_len \<circ> w_hist) ws) + length xs'
    \<and> (\<forall>k<length ws. w_todo (ws' ! k) = drop (count_list sched k) (w_todo (ws ! k)))"
  using assms(2-4)
proof (induction sched arbitrary: ws s xs)
  case (Cons k sched)
  show ?case
  proof (cases "if k < length ws then w_todo (ws ! k) else []")
    case Nil
    then have "worker_step el task k (ws, s) = Some (ws, s)" by (simp add: worker_step_def)
    moreover have "drop (count_list (k # sched) j) (w_todo (ws ! j)) = drop (count_list sched j) (w_todo (ws ! j))" if "j < length ws" for j
      using Nil that by auto
    ultimately show ?thesis using Cons.IH [OF Cons.prems] by (simp del: count_list.simps)
  next
    case (Cons i todo)
    then have k: "k < length ws" "w_todo (ws ! k) = i # todo" by (auto split: if_splits)
    let ?w = "(ws ! k)\<lparr>w_todo := todo, w_hist := hist_record (el k (hist_len (w_hist (ws ! k)))) (w_hist (ws ! k))\<rparr>"
    have m: "mset (xs @ [i]) + mset (concat (map w_todo (ws[k := ?w]))) = A"
    proof -
      have "mset (concat (map w_todo ws)) = add_mset i (mset (concat (map w_todo (ws[k := ?w]))))"
        using mset_concat_update [OF k(1), of w_todo ?w] k(2) by simp
      then show ?thesis unfolding Cons.prems(2) [symmetric] by (simp only: mset_append) simp
    qed
    then have "mset (xs @ [i]) \<subseteq># A" by (metis mset_subset_eq_add_left)
    with step [OF Cons.prems(1)] obtain s1 where s1: "task i s = Some (Inr (), s1)" "J (xs @ [i]) s1" by blast
    have w: "worker_step el task k (ws, s) = Some (ws[k := ?w], s1)"
      using Cons k s1(1) by (simp add: worker_step_def Let_def)
    have ok: "list_all (\<lambda>w. w_failed w = None) (ws[k := ?w])"
      using Cons.prems(3) k(1) by (auto simp: list_all_length nth_list_update)
    have len: "sum_list (map (hist_len \<circ> w_hist) (ws[k := ?w])) = Suc (sum_list (map (hist_len \<circ> w_hist) ws))"
      using sum_map_update [OF k(1), of "hist_len \<circ> w_hist" ?w] by simp
    have dr: "drop (count_list sched j) (w_todo (ws[k := ?w] ! j)) = drop (count_list (k # sched) j) (w_todo (ws ! j))"
      if "j < length ws" for j
      using that k by (cases "j = k") simp_all
    obtain ws' s' xs' where r: "run_workers el task sched (ws[k := ?w], s1) = Some (ws', s')" "J xs' s'"
      "mset xs' + mset (concat (map w_todo ws')) = A" "list_all (\<lambda>w. w_failed w = None) ws'" "length ws' = length ws"
      "sum_list (map (hist_len \<circ> w_hist) ws') + length (xs @ [i]) = sum_list (map (hist_len \<circ> w_hist) (ws[k := ?w])) + length xs'"
      "\<forall>j<length ws. w_todo (ws' ! j) = drop (count_list sched j) (w_todo (ws[k := ?w] ! j))"
      using Cons.IH [OF s1(2) m ok] unfolding length_list_update by blast
    have "run_workers el task (k # sched) (ws, s) = Some (ws', s')" using w r(1) by simp
    moreover have "\<forall>j<length ws. w_todo (ws' ! j) = drop (count_list (k # sched) j) (w_todo (ws ! j))"
      using r(7) dr by simp
    moreover have "sum_list (map (hist_len \<circ> w_hist) ws') + length xs = sum_list (map (hist_len \<circ> w_hist) ws) + length xs'"
      using r(6) unfolding len by (simp only: length_append list.size add_Suc add_Suc_right add_0_right)
    ultimately show ?thesis using r(2-5) by blast
  qed
qed auto

lemma join_workers_ok: "list_all (\<lambda>w. w_failed w = None) ws \<Longrightarrow> join_workers ws = Inr (map w_hist ws)"
  by (induction ws) simp_all

text \<open>A schedule in which every worker gets its turns.\<close>

definition finishes :: "nat list \<Rightarrow> nat \<Rightarrow> nat \<Rightarrow> bool" where
  "finishes sched n concurrency \<longleftrightarrow>
     list_all (\<lambda>(k, lo, hi). hi - lo \<le> count_list sched k) (enumerate 0 (partition_work n concurrency))"

lemma run_phase_ok:
  assumes step: "\<And>xs i s. J xs s \<Longrightarrow> mset (xs @ [i]) \<subseteq># mset idx \<Longrightarrow> \<exists>s'. task i s = Some (Inr (), s') \<and> J (xs @ [i]) s'"
    and J: "J [] s" and sched: "finishes (schedule env) (length idx) concurrency"
  shows "\<exists>hs s' xs. run_phase env task idx concurrency s = Some (Inr hs, s') \<and> J xs s' \<and> mset xs = mset idx
    \<and> sum_list (map hist_len hs) = length idx"
proof -
  let ?ps = "partition_work (length idx) concurrency"
  let ?ws = "map (new_worker idx) ?ps"
  have todo: "map w_todo ?ws = map (chunk idx) ?ps" by (simp add: new_worker_def chunk_def split_def)
  have A: "mset [] + mset (concat (map w_todo ?ws)) = mset idx" unfolding todo chunks_partition_work by simp
  have ok: "list_all (\<lambda>w. w_failed w = None) ?ws" by (simp add: list_all_iff new_worker_def split_def)
  have h0: "sum_list (map (hist_len \<circ> w_hist) ?ws) = 0"
    by (auto simp: new_worker_def split_def hist_len_def hist_with_capacity_def)
  from run_workers_ok [of J "mset idx" task "[]" s ?ws "elapsed env" "schedule env", OF step J A ok] h0
  obtain ws s' xs where r: "run_workers (elapsed env) task (schedule env) (?ws, s) = Some (ws, s')" "J xs s'"
    "mset xs + mset (concat (map w_todo ws)) = mset idx" "list_all (\<lambda>w. w_failed w = None) ws" "length ws = length ?ws"
    "sum_list (map (hist_len \<circ> w_hist) ws) = length xs"
    "\<forall>k<length ?ws. w_todo (ws ! k) = drop (count_list (schedule env) k) (w_todo (?ws ! k))"
    by auto
  have empty: "w_todo (ws ! k) = []" if k: "k < length ?ps" for k
  proof -
    obtain lo hi where p: "?ps ! k = (lo, hi)" by force
    have "hi - lo \<le> count_list (schedule env) k"
      using sched k p by (auto simp: finishes_def list_all_length nth_enumerate_eq)
    then show ?thesis using r(7) k p by (simp add: new_worker_def)
  qed
  then have all: "list_all (\<lambda>w. w_todo w = []) ws" using r(5) by (simp add: list_all_length)
  then have "concat (map w_todo ws) = []" by (simp add: list_all_iff)
  then have m: "mset xs = mset idx" using r(3) by (simp only: mset.simps add_0_right)
  have "run_phase env task idx concurrency s = Some (Inr (map w_hist ws), s')"
    using r(1,4) all by (simp add: run_phase_def join_workers_ok)
  moreover have "sum_list (map hist_len (map w_hist ws)) = length idx" using r(6) m by (metis map_map mset_eq_length)
  ultimately show ?thesis using r(2) m by blast
qed

lemma hist_len_merge: "hist_len (merge_hists hs) = sum_list (map hist_len hs)"
proof -
  have 1: "hist_len (foldl (\<lambda>m x. hist_record x m) m xs) = hist_len m + length xs" for m xs
    by (induction xs arbitrary: m) simp_all
  have "hist_len (foldl (\<lambda>m h. foldl (\<lambda>m x. hist_record x m) m (samples h)) m hs) = hist_len m + sum_list (map hist_len hs)" for m
    by (induction hs arbitrary: m) (simp_all add: 1 flip: hist_len_def)
  then show ?thesis by (simp add: merge_hists_def) (simp add: hist_len_def hist_with_capacity_def)
qed

lemma pr_ops_finish [simp]: "pr_ops (finish_report p e c secs hs) = sum_list (map hist_len hs)"
  by (simp add: finish_report_def Let_def hist_len_merge)

section \<open>The generated content\<close>

definition filled :: "u64 list \<Rightarrow> content \<Rightarrow> content" where
  "filled xs M = fold (\<lambda>i M. M(bench_key i \<mapsto> bench_value i)) xs M"

lemma filled_snoc [simp]: "filled [] M = M" "filled (xs @ [i]) M = (filled xs M)(bench_key i \<mapsto> bench_value i)"
  by (simp_all add: filled_def)

lemma filled_hit: "i \<in> set xs \<Longrightarrow> filled xs M (bench_key i) = Some (bench_value i)"
  by (induction xs rule: rev_induct) auto

lemma filled_miss: "k \<notin> bench_key ` set xs \<Longrightarrow> filled xs M k = M k"
  by (induction xs rule: rev_induct) auto

lemma filled_cong: "set xs = set ys \<Longrightarrow> filled xs M = filled ys M"
  by (rule ext, rename_tac k, case_tac "k \<in> bench_key ` set xs") (auto simp: filled_hit filled_miss)

text \<open>Every key of the first \<open>n\<close> indices, and no other.\<close>

definition bench_map :: "u64 \<Rightarrow> content" where
  "bench_map n = filled (map of_nat [0..<unat n]) Map.empty"

lemma set_upto: "set (map of_nat [0..<unat n]) = {i :: u64. i < n}"
  using set_fill_indices [of "\<lambda>_ xs. xs" "\<lambda>_ _ _. 0" Sequential n 0] by (simp add: rng_ok_def fill_indices_def word_gt_0)

lemma bench_map_simps: "i < n \<Longrightarrow> bench_map n (bench_key i) = Some (bench_value i)"
  "bench_map n k \<noteq> None \<longleftrightarrow> (\<exists>i<n. k = bench_key i)"
proof -
  show "i < n \<Longrightarrow> bench_map n (bench_key i) = Some (bench_value i)"
    unfolding bench_map_def using set_upto by (intro filled_hit) auto
  show "bench_map n k \<noteq> None \<longleftrightarrow> (\<exists>i<n. k = bench_key i)"
  proof (cases "k \<in> bench_key ` {i. i < n}")
    case True
    then obtain i where "i < n" "k = bench_key i" by auto
    then show ?thesis using filled_hit [of i "map of_nat [0..<unat n]" Map.empty] set_upto [of n] by (auto simp: bench_map_def)
  next
    case False
    then show ?thesis using filled_miss [of k "map of_nat [0..<unat n]" Map.empty] set_upto [of n] by (auto simp: bench_map_def)
  qed
qed

lemma filled_bench_map: "set xs = {i. i < n} \<Longrightarrow> filled xs Map.empty = bench_map n"
  unfolding bench_map_def by (rule filled_cong) (simp only: set_upto)

lemma bench_key_le: "bench_key i \<le> bench_key j \<longleftrightarrow> i \<le> j"
  using bench_key_less [of j i] by (simp add: not_less [symmetric])

text \<open>A window that ends inside the filled range holds as many pairs as it is wide.\<close>

lemma bench_window:
  assumes "unat i + unat w \<le> unat n"
  shows "card {k. bench_key i \<le> k \<and> k < bench_key (i + w) \<and> bench_map n k \<noteq> None} = unat w" and "i \<le> i + w"
proof -
  have iw: "unat (i + w) = unat i + unat w" using assms unsigned_less [of n, where ?'a = nat] by (simp add: unat_word_ariths)
  then show "i \<le> i + w" by (simp add: word_le_nat_alt)
  have "{k. bench_key i \<le> k \<and> k < bench_key (i + w) \<and> bench_map n k \<noteq> None} = bench_key ` {j. i \<le> j \<and> j < i + w}"
  proof -
    have "j < n" if "j < i + w" for j using that assms iw by (simp add: word_less_nat_alt)
    then show ?thesis unfolding bench_map_simps(2) using bench_key_le by (auto simp: bench_key_less)
  qed
  moreover have "card {j. i \<le> j \<and> j < i + w} = unat w"
  proof -
    have img: "unat ` {j. i \<le> j \<and> j < i + w} = {unat i..<unat i + unat w}"
    proof (intro set_eqI iffI)
      fix m assume m: "m \<in> {unat i..<unat i + unat w}"
      then have "m < 2 ^ 64" using iw unsigned_less [of "i + w", where ?'a = nat] by simp
      then have "unat (of_nat m :: u64) = m" by simp
      then show "m \<in> unat ` {j. i \<le> j \<and> j < i + w}"
        using m iw by (intro image_eqI [of _ _ "of_nat m"]) (simp_all add: word_le_nat_alt word_less_nat_alt)
    qed (auto simp: word_le_nat_alt word_less_nat_alt iw)
    have "inj_on unat {j. i \<le> j \<and> j < i + w}" by (blast intro: inj_onI unsigned_word_eqI)
    from card_image [OF this] have "card {j. i \<le> j \<and> j < i + w} = card {unat i..<unat i + unat w}" unfolding img by (rule sym)
    then show ?thesis by simp
  qed
  ultimately show "card {k. bench_key i \<le> k \<and> k < bench_key (i + w) \<and> bench_map n k \<noteq> None} = unat w"
    by (simp add: card_image inj_on_def)
qed

section \<open>An engine that is a map\<close>

text \<open>\<open>contains b M s\<close>: the engine holds the map \<open>M\<close> and has room for \<open>b\<close> more calls that change it.\<close>

locale kv_engine =
  fixes K :: "'s kv_bench" and contains :: "nat \<Rightarrow> content \<Rightarrow> 's \<Rightarrow> bool"
  assumes kb_put: "contains (Suc b) M s \<Longrightarrow> length k = KEY_LEN \<Longrightarrow> length v = VALUE_LEN \<Longrightarrow>
      \<exists>s'. kb_put K k v s = Some (Inr (), s') \<and> contains b (M(k \<mapsto> v)) s'"
    and kb_get: "contains b M s \<Longrightarrow> \<exists>s'. kb_get K k s = Some (Inr (M k), s') \<and> contains b M s'"
    and kb_scan: "contains b M s \<Longrightarrow> lo \<le> hi \<Longrightarrow>
      \<exists>s'. kb_scan_count K lo hi s = Some (Inr (card {k. lo \<le> k \<and> k < hi \<and> M k \<noteq> None}), s') \<and> contains b M s'"
    and kb_flush: "contains (Suc b) M s \<Longrightarrow> \<exists>s'. kb_flush K s = Some (Inr (), s') \<and> contains b M s'"
begin

lemma fill_ok:
  assumes c: "contains (unat n + b) Map.empty s" and g: "rng_ok shuf rnd"
    and sched: "finishes (schedule env) (unat n) concurrency"
  shows "\<exists>rep s'. run_fill shuf env K ord n concurrency sd s = Some (Inr rep, s') \<and> contains b (bench_map n) s' \<and> pr_ops rep = unat n"
proof -
  let ?idx = "fill_indices shuf ord n sd"
  note len = length_fill_indices [OF g, of ord n sd]
  define J where "J xs s \<longleftrightarrow> contains (unat n - length xs + b) (filled xs Map.empty) s" for xs s
  have step: "\<exists>s'. fill_task K i s = Some (Inr (), s') \<and> J (xs @ [i]) s'" if "J xs s" "mset (xs @ [i]) \<subseteq># mset ?idx" for xs i s
  proof -
    have "length (xs @ [i]) \<le> unat n" using size_mset_mono [OF that(2)] len by (simp only: size_mset)
    then have "contains (Suc (unat n - length (xs @ [i]) + b)) (filled xs Map.empty) s"
      using that(1) by (simp add: J_def Suc_diff_Suc)
    from kb_put [OF this, of "bench_key i" "bench_value i"] show ?thesis
      by (simp add: fill_task_def J_def KEY_LEN_def VALUE_LEN_def)
  qed
  have J0: "J [] s" using c by (simp add: J_def)
  from run_phase_ok [of J ?idx "fill_task K" s env concurrency, OF step J0] sched len
  obtain hs s' xs where r: "run_phase env (fill_task K) ?idx concurrency s = Some (Inr hs, s')" "J xs s'" "mset xs = mset ?idx"
    "sum_list (map hist_len hs) = unat n" by auto
  have "length xs = unat n" using r(3) len by (metis size_mset)
  moreover have "filled xs Map.empty = bench_map n"
    using mset_eq_setD [OF r(3)] set_fill_indices [OF g] by (intro filled_bench_map) simp
  ultimately have "contains b (bench_map n) s'" using r(2) by (simp add: J_def)
  then show ?thesis using r(1,4) by (simp add: run_fill_def)
qed

lemma read_ok:
  assumes c: "contains b (bench_map n) s" and g: "rng_ok shuf rnd" and n: "0 < n"
    and sched: "finishes (schedule env) num concurrency"
  shows "\<exists>rep s'. run_point_read rnd env K n num concurrency sd s = Some (Inr rep, s') \<and> contains b (bench_map n) s' \<and> pr_ops rep = num"
proof -
  obtain idx where idx: "read_indices rnd n num sd = Some idx" using n by (auto simp: read_indices_def word_gt_0)
  note ri = read_indices_less [OF g idx]
  have step: "\<exists>s'. read_task K i s = Some (Inr (), s') \<and> contains b (bench_map n) s'"
    if "contains b (bench_map n) s" "mset (xs @ [i]) \<subseteq># mset idx" for xs i s
  proof -
    have "i \<in> set idx" using set_mset_mono [OF that(2)] by (simp flip: set_mset_mset)
    then have "bench_map n (bench_key i) = Some (bench_value i)" using ri(2) bench_map_simps(1) by blast
    then show ?thesis using kb_get [OF that(1), of "bench_key i"] by (auto simp: read_task_def)
  qed
  have sched': "finishes (schedule env) (length idx) concurrency" using sched ri(1) by simp
  have "\<exists>hs s' xs. run_phase env (read_task K) idx concurrency s = Some (Inr hs, s') \<and> contains b (bench_map n) s'
      \<and> mset xs = mset idx \<and> sum_list (map hist_len hs) = length idx"
    by (rule run_phase_ok [where J = "\<lambda>_. contains b (bench_map n)", OF step c sched'])
  then obtain hs s' where "run_phase env (read_task K) idx concurrency s = Some (Inr hs, s')" "contains b (bench_map n) s'"
    "sum_list (map hist_len hs) = num" using ri(1) by blast
  then show ?thesis using idx by (simp add: run_point_read_def)
qed

lemma scan_loop_ok:
  assumes "contains b (bench_map n) s" and "\<And>i. i \<in> set is \<Longrightarrow> unat i + unat w \<le> unat n"
  shows "\<exists>h' s'. scan_loop el K w is (h, seen) s = Some (Inr (h', seen + length is * unat w), s')
    \<and> contains b (bench_map n) s' \<and> hist_len h' = hist_len h + length is"
  using assms
proof (induction "is" arbitrary: h seen s)
  case (Cons i "is")
  note w = bench_window [OF Cons.prems(2) [of i]]
  have "bench_key i \<le> bench_key (i + w)" using w(2) by (simp add: bench_key_less not_less [symmetric])
  from kb_scan [OF Cons.prems(1) this] obtain s1 where s1: "kb_scan_count K (bench_key i) (bench_key (i + w)) s = Some (Inr (unat w), s1)"
    "contains b (bench_map n) s1" using w(1) by auto
  show ?case using Cons.IH [OF s1(2), of "hist_record (el (hist_len h)) h" "seen + unat w"] Cons.prems(2) s1(1) by (auto simp: ac_simps)
qed auto

lemma scan_ok:
  assumes c: "contains b (bench_map n) s" and g: "rng_ok shuf rnd" and w: "0 < w" "w \<le> n"
  shows "\<exists>rep s'. run_scan rnd env K n num w sd s = Some (Inr rep, s') \<and> contains b (bench_map n) s' \<and> pr_ops rep = num
    \<and> pr_phase rep = ''scan('' @ [CHR 0xE2, CHR 0x89, CHR 0x88] @ dec (num * unat w) @ '' pairs)''"
proof -
  let ?m = "max (saturating_sub n w) 1"
  have "0 < ?m" by (rule less_le_trans [of _ 1]) simp_all
  then obtain starts where st: "read_indices rnd ?m num sd = Some starts" by (auto simp: read_indices_def word_gt_0)
  note ri = read_indices_less [OF g st]
  have "unat i + unat w \<le> unat n" if "i \<in> set starts" for i
  proof (cases "n = w")
    case True
    then have "i < 1" using ri(2) [OF that] by (simp add: saturating_sub_def)
    then show ?thesis using True by (simp add: word_less_nat_alt)
  next
    case False
    then have "w < n" using w(2) by simp
    then have "saturating_sub n w = n - w" "0 < n - w" "unat (n - w) = unat n - unat w" by (auto simp: saturating_sub_def unat_sub word_gt_0)
    moreover from this have "?m = n - w" by (simp only:) (rule max.absorb1, simp add: word_le_nat_alt word_less_nat_alt)
    ultimately show ?thesis using ri(2) [OF that] by (simp add: word_less_nat_alt)
  qed
  from scan_loop_ok [OF c this, of starts "elapsed env 0" "hist_with_capacity num" 0] st ri(1) show ?thesis
    by (auto simp: run_scan_def hist_len_def hist_with_capacity_def)
qed

end

end
