(* ===== verification/Bench_Db.thy ===== *)
theory Bench_Db imports Bench_Client begin

text \<open>
  The engine implements the benchmark's trait as a map: the interpretation of the driver's contract on
  the model of the engine over the simulated disk.
\<close>

lemma put_size: "length k = 16 \<Longrightarrow> length v = 100 \<Longrightarrow> entries_size (op_writes sq [Op_put k v]) = 141"
  by (simp add: entries_size_def length_row encoded_entry_len_def entry_of_def value_ref_def)

lemma put_fits: "length k = 16 \<Longrightarrow> length v = 100 \<Longrightarrow> writes_fit False crc (op_writes sq [Op_put k v])"
  by (simp add: writes_fit_def kv_fits_def payload_bytes_def)

definition accretion_contains ::
  "hash128 \<Rightarrow> crc \<Rightarrow> path \<Rightarrow> nat \<Rightarrow> content \<Rightarrow> 'g sim_state db \<Rightarrow> bool" where
  "accretion_contains xxh crc dir b M d \<longleftrightarrow> crash_fs.db_good sim_ok sim_disk xxh crc dir M (2 * b) (141 * b) d"

lemma sim_op_ok:
  assumes "crash_fs.db_good sim_ok sim_disk xxh crc dir M (Suc (Suc b)) (entries_size (op_writes (ws_next_seq (db_write d)) [x]) + U) d"
    and "writes_fit False crc (op_writes (ws_next_seq (db_write d)) [x])"
  shows "\<exists>d'. db_op_run xxh crc (sim_storage G) x d = Some (Inr (), d') \<and> crash_fs.db_good sim_ok sim_disk xxh crc dir (map_op x M) b U d'"
proof -
  have no: "\<not> crash_fs.lost (\<lambda>_ _. False) sim_view xxh crc dir Ms s" for Ms s
    by (simp add: crash_fs.lost_def [OF sim_run.crash_fs_axioms])
  show ?thesis using crash_fs.db_op_run_ok [OF sim_run.crash_fs_axioms assms(1), of G] assms(2) no by simp blast
qed

lemma sim_good_mono:
  "crash_fs.db_good sim_ok sim_disk xxh crc dir M b U d \<Longrightarrow> U' \<le> U \<Longrightarrow> crash_fs.db_good sim_ok sim_disk xxh crc dir M b U' d"
  by (fastforce simp: crash_fs.db_good_def [OF sim_run.crash_fs_axioms] db_room_def)

interpretation accretion: kv_engine "accretion_bench xxh crc (sim_storage G) m" "accretion_contains xxh crc dir"
proof
  fix b M and d :: "'a sim_state db" and k v :: bytes
  assume c: "accretion_contains xxh crc dir (Suc b) M d" and l: "length k = KEY_LEN" "length v = VALUE_LEN"
  then have "\<exists>d'. db_op_run xxh crc (sim_storage G) (Op_put k v) d = Some (Inr (), d')
      \<and> crash_fs.db_good sim_ok sim_disk xxh crc dir (map_op (Op_put k v) M) (2 * b) (141 * b) d'"
    by (intro sim_op_ok) (simp_all add: accretion_contains_def KEY_LEN_def VALUE_LEN_def put_size put_fits del: op_writes.simps)
  then show "\<exists>s'. kb_put (accretion_bench xxh crc (sim_storage G) m) k v d = Some (Inr (), s') \<and> accretion_contains xxh crc dir b (M(k \<mapsto> v)) s'"
    by (auto simp: accretion_bench_def accretion_contains_def)
next
  fix b M and d :: "'a sim_state db" and k :: bytes
  assume c: "accretion_contains xxh crc dir b M d"
  show "\<exists>s'. kb_get (accretion_bench xxh crc (sim_storage G) m) k d = Some (Inr (M k), s') \<and> accretion_contains xxh crc dir b M s'"
    using crash_fs.db_good_get [OF sim_run.crash_fs_axioms c [unfolded accretion_contains_def], of G k]
    by (auto simp: accretion_bench_def accretion_contains_def)
next
  fix b M and d :: "'a sim_state db" and lo hi :: bytes
  assume c: "accretion_contains xxh crc dir b M d" and le: "lo \<le> hi"
  have rg: "\<not> bad_range (Included lo, Excluded hi)" using le by (simp add: bad_range_def)
  obtain it rs where r: "db_scan crc (sim_storage G) (Included lo, Excluded hi) d = Some (Inr it, d\<lparr>db_readers := rs\<rparr>)"
    "crash_fs.db_good sim_ok sim_disk xxh crc dir M (2 * b) (141 * b) (d\<lparr>db_readers := rs\<rparr>)"
    "sorted_wrt (<) (map fst (live_all it))"
    "\<forall>k v. (k, v) \<in> set (live_all it) \<longleftrightarrow> in_range (Included lo, Excluded hi) k \<and> M k = Some v"
    using crash_fs.db_good_scan [OF sim_run.crash_fs_axioms c [unfolded accretion_contains_def] rg, of G] by blast
  have "set (map fst (live_all it)) = {k. lo \<le> k \<and> k < hi \<and> M k \<noteq> None}"
    using r(4) by (force simp: in_range_def)
  moreover have "distinct (map fst (live_all it))" using r(3) by (simp add: strict_sorted_iff)
  ultimately have "length (live_all it) = card {k. lo \<le> k \<and> k < hi \<and> M k \<noteq> None}"
    by (metis distinct_card length_map)
  then show "\<exists>s'. kb_scan_count (accretion_bench xxh crc (sim_storage G) m) lo hi d = Some (Inr (card {k. lo \<le> k \<and> k < hi \<and> M k \<noteq> None}), s')
      \<and> accretion_contains xxh crc dir b M s'"
    using r(1,2) by (auto simp: accretion_bench_def accretion_contains_def)
next
  fix b M and d :: "'a sim_state db"
  assume c: "accretion_contains xxh crc dir (Suc b) M d"
  then have "crash_fs.db_good sim_ok sim_disk xxh crc dir M (Suc (Suc (2 * b))) (141 * Suc b) d"
    by (simp add: accretion_contains_def)
  then have "crash_fs.db_good sim_ok sim_disk xxh crc dir M (Suc (Suc (2 * b))) (entries_size (op_writes (ws_next_seq (db_write d)) [Op_flush]) + 141 * b) d"
    by (rule sim_good_mono) (simp add: entries_size_def)
  then have "\<exists>d'. db_op_run xxh crc (sim_storage G) Op_flush d = Some (Inr (), d')
      \<and> crash_fs.db_good sim_ok sim_disk xxh crc dir (map_op Op_flush M) (2 * b) (141 * b) d'"
    by (rule sim_op_ok) (simp add: writes_fit_def)
  then show "\<exists>s'. kb_flush (accretion_bench xxh crc (sim_storage G) m) d = Some (Inr (), s') \<and> accretion_contains xxh crc dir b M s'"
    by (auto simp: accretion_bench_def accretion_contains_def)
qed

lemma accretion_fresh:
  assumes opts: "is_durable m" and b: "b < 2 ^ 24"
  shows "\<exists>d s. accretion_open crc (sim_storage G) dir m size0 (sim_new seeded seed) = (Inr d, s) \<and> accretion_contains xxh crc dir b Map.empty d"
proof -
  let ?s = "sim_new seeded seed"
  note fresh = sim_new_fresh [where seeded = seeded and seed = seed]
  have no: "\<not> crash_fs.lost (\<lambda>_ _. False) sim_view xxh crc dir Ms s" for Ms and s :: "'a sim_state"
    by (simp add: crash_fs.lost_def [OF sim_run.crash_fs_axioms])
  have room: "open_room (2 * length ([] :: db_op list) + 2 * b) (entries_size (op_writes 1 []) + 141 * b) E version_empty []" for E
    using b by (simp add: open_room_def entries_size_def total_size_def version_levels_def version_empty_def table_count_def all_tables_def tables_newest_first_def)
  have "\<exists>n s'. db_session xxh crc (sim_storage G) dir (bench_opts m size0) [] ?s = Some (n, s') \<and> n \<le> length ([] :: db_op list)
    \<and> ((n = length ([] :: db_op list) \<and> (\<exists>d0 s0 d. db_open crc (sim_storage G) dir (bench_opts m size0) ?s = (Inr d0, s0)
          \<and> db_ops_run xxh crc (sim_storage G) [] d0 = Some (n, d) \<and> db_fs d = s'
          \<and> crash_fs.db_good sim_ok sim_disk xxh crc dir (map_ops [] Map.empty) (2 * b) (141 * b) d))
      \<or> crash_fs.lost (\<lambda>_ _. False) sim_view xxh crc dir {map_ops (take n []) Map.empty, map_ops (take (Suc n) []) Map.empty} s')"
    by (rule crash_fs.db_session_ok [OF sim_run.crash_fs_axioms fresh(1), where v = version_empty and wl = "[]" and b = "2 * b" and U = "141 * b"])
       (use fresh fresh_dir room b opts in \<open>auto simp: open_opts_def bench_opts_def writes_fit_def\<close>)
  then show ?thesis using no by (auto simp: accretion_open_def accretion_contains_def)
qed

end
