(* ===== verification/Bench_Main.thy ===== *)
theory Bench_Main imports Bench_Db Crashtest begin

text \<open>
  The benchmark's command line and its sequence of phases (\<open>src/src/bin/accretion-bench/main.rs\<close>).
  Printing and the choice of a temporary directory are left out; the feature that links the other
  engine is off.
\<close>

section \<open>Configuration\<close>

datatype bench_engine = Accretion | Sled

record bench_config =
  c_workload :: string
  c_engine :: bench_engine
  c_durability :: durability
  c_keys :: u64
  c_reads :: nat
  c_concurrency :: nat
  c_memtable_bytes :: nat
  c_dir :: "string option"
  c_seed :: u64

definition default_config :: bench_config where
  "default_config =
     \<lparr>c_workload = ''all'', c_engine = Accretion, c_durability = GroupCommit, c_keys = 100000, c_reads = 0,
      c_concurrency = 1, c_memtable_bytes = 4 * 1024 * 1024, c_dir = None, c_seed = 0x5eed\<rparr>"

datatype arg_error =
    Unknown_durability string | Unknown_engine string | Unknown_flag string | Needs_value string | Bad_number string

definition parse_durability :: "string \<Rightarrow> arg_error + durability" where
  "parse_durability s =
     (if s = ''always'' then Inr Always
      else if s \<in> {''group'', ''groupcommit'', ''group-commit''} then Inr GroupCommit
      else if s \<in> {''osbuffered'', ''buffered'', ''os''} then Inr OsBuffered
      else Inl (Unknown_durability s))"

definition parse_engine :: "string \<Rightarrow> arg_error + bench_engine" where
  "parse_engine s =
     (if s \<in> {''accretion'', ''accretion-db''} then Inr Accretion
      else if s = ''sled'' then Inr Sled else Inl (Unknown_engine s))"

definition parse_num :: "string \<Rightarrow> string \<Rightarrow> arg_error + u64" where
  "parse_num flag s = (case parse_u64 s of None \<Rightarrow> Inl (Bad_number flag) | Some n \<Rightarrow> Inr n)"

text \<open>One flag with its value; \<open>usize\<close> has 64 bits.\<close>

definition set_flag :: "string \<Rightarrow> string \<Rightarrow> bench_config \<Rightarrow> arg_error + bench_config" where
  "set_flag flag v cfg =
     (if flag = ''--engine'' then res_then (parse_engine v) (\<lambda>x. Inr (cfg\<lparr>c_engine := x\<rparr>))
      else if flag = ''--durability'' then res_then (parse_durability v) (\<lambda>x. Inr (cfg\<lparr>c_durability := x\<rparr>))
      else if flag = ''--keys'' then res_then (parse_num flag v) (\<lambda>x. Inr (cfg\<lparr>c_keys := x\<rparr>))
      else if flag = ''--reads'' then res_then (parse_num flag v) (\<lambda>x. Inr (cfg\<lparr>c_reads := unat x\<rparr>))
      else if flag = ''--concurrency'' then res_then (parse_num flag v) (\<lambda>x. Inr (cfg\<lparr>c_concurrency := unat x\<rparr>))
      else if flag = ''--memtable-bytes'' then res_then (parse_num flag v) (\<lambda>x. Inr (cfg\<lparr>c_memtable_bytes := unat x\<rparr>))
      else if flag = ''--dir'' then Inr (cfg\<lparr>c_dir := Some v\<rparr>)
      else if flag = ''--seed'' then res_then (parse_num flag v) (\<lambda>x. Inr (cfg\<lparr>c_seed := x\<rparr>))
      else Inl (Unknown_flag flag))"

definition known_flag :: "string \<Rightarrow> bool" where
  "known_flag flag \<longleftrightarrow> flag \<in> {''--engine'', ''--durability'', ''--keys'', ''--reads'', ''--concurrency'',
     ''--memtable-bytes'', ''--dir'', ''--seed''}"

fun parse_flags :: "string list \<Rightarrow> bench_config \<Rightarrow> arg_error + bench_config" where
  "parse_flags [] cfg = Inr (if c_reads cfg = 0 then cfg\<lparr>c_reads := unat (c_keys cfg)\<rparr> else cfg)"
| "parse_flags [flag] cfg = Inl (if known_flag flag then Needs_value flag else Unknown_flag flag)"
| "parse_flags (flag # v # args) cfg = res_then (set_flag flag v cfg) (parse_flags args)"

definition parse_args :: "string list \<Rightarrow> arg_error + bench_config" where
  "parse_args args =
     (case args of
        [] \<Rightarrow> parse_flags [] default_config
      | first # rest \<Rightarrow>
          if take 2 first \<noteq> ''--'' then parse_flags rest (default_config\<lparr>c_workload := first\<rparr>)
          else parse_flags args default_config)"

section \<open>The sequence of phases\<close>

definition phase_then ::
  "phase_report list \<Rightarrow> ((bench_error + phase_report) \<times> 's) option
    \<Rightarrow> (phase_report list \<Rightarrow> 's \<Rightarrow> ((bench_error + phase_report list) \<times> 's) option)
    \<Rightarrow> ((bench_error + phase_report list) \<times> 's) option" where
  "phase_then out r f =
     (case r of None \<Rightarrow> None
      | Some (Inl e, s) \<Rightarrow> Some (Inl e, s)
      | Some (Inr rep, s) \<Rightarrow> f (out @ [rep]) s)"

definition want :: "bench_config \<Rightarrow> string \<Rightarrow> bool" where
  "want cfg name \<longleftrightarrow> c_workload cfg = ''all'' \<or> c_workload cfg = name"

text \<open>\<open>env p\<close> is what the machine contributes to phase \<open>p\<close>.\<close>

definition bench_fill ::
  "(u64 \<Rightarrow> u64 list \<Rightarrow> u64 list) \<Rightarrow> (nat \<Rightarrow> run_env) \<Rightarrow> 's kv_bench \<Rightarrow> bench_config \<Rightarrow> fill_order \<Rightarrow> 's
    \<Rightarrow> ((bench_error + phase_report) \<times> 's) option" where
  "bench_fill shuf env K cfg ord s = run_fill shuf (env 0) K ord (c_keys cfg) (c_concurrency cfg) (c_seed cfg) s"

definition bench_window_of :: "bench_config \<Rightarrow> u64" where
  "bench_window_of cfg = min (max (c_keys cfg div 100) 1) 1000"

definition bench_reads ::
  "(u64 \<Rightarrow> u64 \<Rightarrow> nat \<Rightarrow> u64) \<Rightarrow> (nat \<Rightarrow> run_env) \<Rightarrow> 's kv_bench \<Rightarrow> bench_config \<Rightarrow> phase_report list \<Rightarrow> 's
    \<Rightarrow> ((bench_error + phase_report list) \<times> 's) option" where
  "bench_reads rnd env K cfg out s =
     (case kb_flush K s of None \<Rightarrow> None
      | Some (Inl e, s) \<Rightarrow> Some (Inl e, s)
      | Some (Inr _, s) \<Rightarrow>
          let scans = (\<lambda>out s.
                if want cfg ''scan'' then
                  phase_then out (run_scan rnd (env 2) K (c_keys cfg) (min (c_reads cfg) 1000) (bench_window_of cfg) (c_seed cfg XOR 0x1234) s)
                    (\<lambda>out s. Some (Inr out, s))
                else Some (Inr out, s))
          in if want cfg ''point-read'' then
               phase_then out (run_point_read rnd (env 1) K (c_keys cfg) (c_reads cfg) (c_concurrency cfg) (c_seed cfg XOR 0xA5A5) s) scans
             else scans out s)"

definition bench_cold ::
  "(u64 \<Rightarrow> u64 list \<Rightarrow> u64 list) \<Rightarrow> (u64 \<Rightarrow> u64 \<Rightarrow> nat \<Rightarrow> u64) \<Rightarrow> (nat \<Rightarrow> run_env) \<Rightarrow> 's kv_bench \<Rightarrow> bench_config
    \<Rightarrow> phase_report list \<Rightarrow> 's \<Rightarrow> ((bench_error + phase_report list) \<times> 's) option" where
  "bench_cold shuf rnd env K cfg out s =
     (if want cfg ''point-read'' \<or> want cfg ''scan'' then
        if c_workload cfg = ''point-read'' \<or> c_workload cfg = ''scan''
        then phase_then out (bench_fill shuf env K cfg Random s) (bench_reads rnd env K cfg)
        else bench_reads rnd env K cfg out s
      else Some (Inr out, s))"

definition run_workload ::
  "(u64 \<Rightarrow> u64 list \<Rightarrow> u64 list) \<Rightarrow> (u64 \<Rightarrow> u64 \<Rightarrow> nat \<Rightarrow> u64) \<Rightarrow> (nat \<Rightarrow> run_env) \<Rightarrow> 's kv_bench \<Rightarrow> bench_config
    \<Rightarrow> 's \<Rightarrow> ((bench_error + phase_report list) \<times> 's) option" where
  "run_workload shuf rnd env K cfg s =
     (if want cfg ''fill-random'' \<or> want cfg ''fill-seq'' then
        let order = (if want cfg ''fill-seq'' \<and> \<not> want cfg ''fill-random'' then Sequential else Random)
        in if c_workload cfg = ''fill-seq''
           then phase_then [] (bench_fill shuf env K cfg Sequential s) (\<lambda>out s. Some (Inr out, s))
           else phase_then [] (bench_fill shuf env K cfg order s)
                  (\<lambda>out s. if c_workload cfg = ''fill-random'' then Some (Inr out, s) else bench_cold shuf rnd env K cfg out s)
      else bench_cold shuf rnd env K cfg [] s)"

text \<open>The run of the program: \<open>tmp\<close> is the directory that is made when none is given.\<close>

datatype run_error = Bad_args arg_error | Bench_error bench_error

definition bench_run ::
  "(u64 \<Rightarrow> u64 list \<Rightarrow> u64 list) \<Rightarrow> (u64 \<Rightarrow> u64 \<Rightarrow> nat \<Rightarrow> u64) \<Rightarrow> (nat \<Rightarrow> run_env) \<Rightarrow> hash128 \<Rightarrow> crc \<Rightarrow> 'fs storage
    \<Rightarrow> (u64 \<Rightarrow> path) \<Rightarrow> string list \<Rightarrow> 'fs \<Rightarrow> (run_error + phase_report list) option" where
  "bench_run shuf rnd env xxh crc S tmp args s =
     (case parse_args args of
        Inl e \<Rightarrow> Some (Inl (Bad_args e))
      | Inr cfg \<Rightarrow>
          let dir = (case c_dir cfg of Some d \<Rightarrow> path_new d | None \<Rightarrow> tmp (c_seed cfg))
          in case c_engine cfg of
               Sled \<Rightarrow> Some (Inl (Bench_error (Message ''sled engine requires building with --features bench-sled'')))
             | Accretion \<Rightarrow>
                 (case accretion_open crc S dir (c_durability cfg) (c_memtable_bytes cfg) s of
                    (Inl e, _) \<Rightarrow> Some (Inl (Bench_error e))
                  | (Inr d, _) \<Rightarrow>
                      map_option (\<lambda>(r, _). map_sum Bench_error id r)
                        (run_workload shuf rnd env (accretion_bench xxh crc S (c_durability cfg)) cfg d)))"

section \<open>The command line\<close>

definition engine_arg :: "bench_engine \<Rightarrow> string" where
  "engine_arg e = (case e of Accretion \<Rightarrow> ''accretion'' | Sled \<Rightarrow> ''sled'')"

definition durability_arg :: "durability \<Rightarrow> string" where
  "durability_arg m = (case m of Always \<Rightarrow> ''always'' | GroupCommit \<Rightarrow> ''group'' | OsBuffered \<Rightarrow> ''osbuffered'')"

text \<open>A command line that asks for a configuration.\<close>

definition render_args :: "bench_config \<Rightarrow> string list" where
  "render_args cfg =
     [c_workload cfg, ''--engine'', engine_arg (c_engine cfg), ''--durability'', durability_arg (c_durability cfg),
      ''--keys'', dec (unat (c_keys cfg)), ''--reads'', dec (c_reads cfg), ''--concurrency'', dec (c_concurrency cfg),
      ''--memtable-bytes'', dec (c_memtable_bytes cfg), ''--seed'', dec (unat (c_seed cfg))]
     @ (case c_dir cfg of None \<Rightarrow> [] | Some d \<Rightarrow> [''--dir'', d])"

lemma parse_engine_arg [simp]: "parse_engine (engine_arg e) = Inr e"
  by (cases e) (simp_all add: parse_engine_def engine_arg_def)

lemma parse_durability_arg [simp]: "parse_durability (durability_arg m) = Inr m"
  by (cases m) (simp_all add: parse_durability_def durability_arg_def)

lemma parse_num_dec [simp]: "parse_num flag (dec (unat w)) = Inr w"
  using parse_zero_pad [of 0 w] by (simp add: parse_num_def zero_pad_def)

lemma parse_num_dec_nat: "n < 2 ^ 64 \<Longrightarrow> parse_num flag (dec n) = Inr (of_nat n)"
  using parse_num_dec [of flag "of_nat n"] by (simp del: parse_num_dec)

text \<open>C40 (bench_args_roundtrip): every configuration can be asked for on the command line: parsing the flags
  that spell out a configuration gives that configuration, if its workload does not look like a flag,
  its numbers fit their types and it asks for some reads (none means one per key).\<close>

theorem bench_args_roundtrip:
  assumes "take 2 (c_workload cfg) \<noteq> ''--''" and "0 < c_reads cfg" and "c_reads cfg < 2 ^ 64"
    and "c_concurrency cfg < 2 ^ 64" and "c_memtable_bytes cfg < 2 ^ 64"
  shows "parse_args (render_args cfg) = Inr cfg"
proof -
  have "parse_args (render_args cfg) = Inr \<lparr>c_workload = c_workload cfg, c_engine = c_engine cfg, c_durability = c_durability cfg,
      c_keys = c_keys cfg, c_reads = c_reads cfg, c_concurrency = c_concurrency cfg, c_memtable_bytes = c_memtable_bytes cfg,
      c_dir = c_dir cfg, c_seed = c_seed cfg\<rparr>"
    using assms by (cases "c_dir cfg") (simp_all add: parse_args_def render_args_def set_flag_def parse_num_dec_nat default_config_def)
  then show ?thesis by simp
qed

definition demo_config :: bench_config where
  "demo_config = default_config\<lparr>c_workload := ''all'', c_durability := Always, c_keys := 12, c_reads := 5, c_concurrency := 2,
     c_memtable_bytes := 256, c_dir := Some ''db''\<rparr>"

theorem bench_args_roundtrip_witness: "parse_args (render_args demo_config) = Inr demo_config"
  by (rule bench_args_roundtrip) (simp_all add: demo_config_def default_config_def)

section \<open>Running a workload\<close>

lemma window_bounds: "0 < c_keys cfg \<Longrightarrow> 0 < bench_window_of cfg \<and> bench_window_of cfg \<le> c_keys cfg"
proof -
  assume n: "0 < c_keys cfg"
  have "c_keys cfg div 100 \<le> c_keys cfg" by (simp add: word_le_nat_alt unat_div)
  moreover have "1 \<le> c_keys cfg" using n by (simp add: word_le_nat_alt word_less_nat_alt)
  ultimately have "max (c_keys cfg div 100) 1 \<le> c_keys cfg" by simp
  moreover have "0 < max (c_keys cfg div 100) 1" by (rule less_le_trans [of _ 1]) simp_all
  ultimately show ?thesis
    unfolding bench_window_of_def by (intro conjI order_trans [OF min.cobounded1]) (simp_all only: min_less_iff_conj, simp)
qed

text \<open>How many calls each phase of a workload reports.\<close>

definition read_ops :: "bench_config \<Rightarrow> nat list" where
  "read_ops cfg = (if want cfg ''point-read'' then [c_reads cfg] else []) @ (if want cfg ''scan'' then [min (c_reads cfg) 1000] else [])"

definition expected_ops :: "bench_config \<Rightarrow> nat list" where
  "expected_ops cfg =
     (if c_workload cfg \<in> {''all'', ''fill-random'', ''fill-seq'', ''point-read'', ''scan''} then unat (c_keys cfg) # read_ops cfg else [])"

definition env_ok :: "(nat \<Rightarrow> run_env) \<Rightarrow> bench_config \<Rightarrow> bool" where
  "env_ok env cfg \<longleftrightarrow> finishes (schedule (env 0)) (unat (c_keys cfg)) (c_concurrency cfg)
     \<and> finishes (schedule (env 1)) (c_reads cfg) (c_concurrency cfg)"

context kv_engine
begin

lemma bench_fill_ok:
  assumes "contains (unat (c_keys cfg) + 1) Map.empty s" and "rng_ok shuf rnd" and "env_ok env cfg"
  shows "\<exists>rep s'. bench_fill shuf env K cfg ord s = Some (Inr rep, s') \<and> contains 1 (bench_map (c_keys cfg)) s'
    \<and> pr_ops rep = unat (c_keys cfg)"
  using fill_ok [OF assms(1,2)] assms(3) by (simp add: bench_fill_def env_ok_def)

lemma bench_reads_ok:
  assumes c: "contains 1 (bench_map (c_keys cfg)) s" and g: "rng_ok shuf rnd" and env: "env_ok env cfg" and n: "0 < c_keys cfg"
  shows "\<exists>reps s'. bench_reads rnd env K cfg out s = Some (Inr (out @ reps), s') \<and> map pr_ops reps = read_ops cfg"
proof -
  obtain s1 where s1: "kb_flush K s = Some (Inr (), s1)" "contains 0 (bench_map (c_keys cfg)) s1" using kb_flush [of 0] c by auto
  have scan: "\<exists>rep s'. run_scan rnd (env 2) K (c_keys cfg) (min (c_reads cfg) 1000) (bench_window_of cfg) (c_seed cfg XOR 0x1234) t = Some (Inr rep, s')
      \<and> pr_ops rep = min (c_reads cfg) 1000" if "contains 0 (bench_map (c_keys cfg)) t" for t
    using scan_ok [OF that g] window_bounds [OF n] by blast
  have "finishes (schedule (env 1)) (c_reads cfg) (c_concurrency cfg)" using env by (simp add: env_ok_def)
  from read_ok [OF s1(2) g n this] obtain rep s2
    where s2: "run_point_read rnd (env 1) K (c_keys cfg) (c_reads cfg) (c_concurrency cfg) (c_seed cfg XOR 0xA5A5) s1 = Some (Inr rep, s2)"
      "contains 0 (bench_map (c_keys cfg)) s2" "pr_ops rep = c_reads cfg" by blast
  obtain rep1 s3 where s3: "run_scan rnd (env 2) K (c_keys cfg) (min (c_reads cfg) 1000) (bench_window_of cfg) (c_seed cfg XOR 0x1234) s1 = Some (Inr rep1, s3)"
    "pr_ops rep1 = min (c_reads cfg) 1000" using scan [OF s1(2)] by blast
  obtain rep2 s4 where s4: "run_scan rnd (env 2) K (c_keys cfg) (min (c_reads cfg) 1000) (bench_window_of cfg) (c_seed cfg XOR 0x1234) s2 = Some (Inr rep2, s4)"
    "pr_ops rep2 = min (c_reads cfg) 1000" using scan [OF s2(2)] by blast
  show ?thesis
    using s1(1) s2(1,3) s3 s4
    by (cases "want cfg ''point-read''"; cases "want cfg ''scan''") (simp_all add: bench_reads_def phase_then_def read_ops_def Let_def)
qed

lemma workload_ok:
  assumes c: "contains (unat (c_keys cfg) + 1) Map.empty s" and g: "rng_ok shuf rnd" and env: "env_ok env cfg" and n: "0 < c_keys cfg"
  shows "\<exists>reps s'. run_workload shuf rnd env K cfg s = Some (Inr reps, s') \<and> map pr_ops reps = expected_ops cfg"
proof -
  obtain rep s1 where f: "bench_fill shuf env K cfg Random s = Some (Inr rep, s1)" "contains 1 (bench_map (c_keys cfg)) s1"
    "pr_ops rep = unat (c_keys cfg)" using bench_fill_ok [OF c g env] by blast
  obtain rep' s1' where f': "bench_fill shuf env K cfg Sequential s = Some (Inr rep', s1')" "pr_ops rep' = unat (c_keys cfg)"
    using bench_fill_ok [OF c g env] by blast
  obtain reps s2 where r: "bench_reads rnd env K cfg [rep] s1 = Some (Inr ([rep] @ reps), s2)" "map pr_ops reps = read_ops cfg"
    using bench_reads_ok [OF f(2) g env n] by blast
  consider "c_workload cfg = ''all''" | "c_workload cfg = ''fill-random''" | "c_workload cfg = ''fill-seq''"
    | "c_workload cfg \<in> {''point-read'', ''scan''}" | "c_workload cfg \<notin> {''all'', ''fill-random'', ''fill-seq'', ''point-read'', ''scan''}"
    by blast
  then show ?thesis
  proof cases
    case 1
    then have "run_workload shuf rnd env K cfg s = Some (Inr ([rep] @ reps), s2)"
      using f(1) r(1) by (simp add: run_workload_def bench_cold_def want_def phase_then_def)
    then show ?thesis using 1 f(3) r(2) by (simp add: expected_ops_def)
  next
    case 2
    then show ?thesis using f by (simp add: run_workload_def want_def phase_then_def expected_ops_def read_ops_def)
  next
    case 3
    then show ?thesis using f' by (simp add: run_workload_def want_def phase_then_def expected_ops_def read_ops_def)
  next
    case 4
    then have "run_workload shuf rnd env K cfg s = Some (Inr ([rep] @ reps), s2)"
      using f(1) r(1) by (auto simp: run_workload_def bench_cold_def want_def phase_then_def)
    then show ?thesis using 4 f(3) r(2) by (auto simp: expected_ops_def)
  next
    case 5
    then show ?thesis by (simp add: run_workload_def bench_cold_def want_def expected_ops_def)
  qed
qed

end

text \<open>C10 (bench_run_ok): the benchmark passes on the engine. On a fresh directory, with a durable mode and at
  least one and fewer than \<open>2 ^ 24 - 1\<close> keys, whatever the memtable size, the number of workers, the
  order in which they take turns (as long as each gets enough turns) and the generated workload, the
  program ends without an error: no read finds a missing key or a wrong value, and each phase of the
  workload reports as many calls as were asked for. (A workload that is none of the five is accepted
  and runs no phase.)\<close>

theorem bench_run_ok:
  assumes args: "parse_args args = Inr cfg" and eng: "c_engine cfg = Accretion" and dur: "is_durable (c_durability cfg)"
    and n: "0 < c_keys cfg" "unat (c_keys cfg) + 1 < 2 ^ 24" and g: "rng_ok shuf rnd" and env: "env_ok env cfg"
  shows "\<exists>reps. bench_run shuf rnd env xxh crc (sim_storage G) tmp args (sim_new seeded seed) = Some (Inr reps)
      \<and> map pr_ops reps = expected_ops cfg"
proof -
  let ?dir = "case c_dir cfg of Some d \<Rightarrow> path_new d | None \<Rightarrow> tmp (c_seed cfg)"
  obtain d s where o: "accretion_open crc (sim_storage G) ?dir (c_durability cfg) (c_memtable_bytes cfg) (sim_new seeded seed) = (Inr d, s)"
    "accretion_contains xxh crc ?dir (unat (c_keys cfg) + 1) Map.empty d"
    using accretion_fresh [OF dur n(2)] by blast
  from accretion.workload_ok [OF o(2) g env n(1)] obtain reps s' where
    "run_workload shuf rnd env (accretion_bench xxh crc (sim_storage G) (c_durability cfg)) cfg d = Some (Inr reps, s')"
    "map pr_ops reps = expected_ops cfg" by blast
  then show ?thesis using args eng o(1) by (simp add: bench_run_def Let_def)
qed

text \<open>Two workers that take turns.\<close>

definition demo_env :: "nat \<Rightarrow> run_env" where
  "demo_env p = \<lparr>schedule = [0, 1, 0, 1, 0, 1, 0, 1, 0, 1, 0, 1], elapsed = \<lambda>k j. of_nat (100 * k + j), phase_secs = (1, 1000)\<rparr>"

theorem bench_run_ok_witness:
  "\<exists>reps. bench_run (\<lambda>_. rev) (\<lambda>_ _ _. 0) demo_env (\<lambda>_. 0) (\<lambda>_. 0) (sim_storage first_choice) (\<lambda>_. [''tmp'']) (render_args demo_config)
        (sim_new (\<lambda>_. 0) 0) = Some (Inr reps) \<and> map pr_ops reps = [12, 5, 5]"
proof -
  have "parse_args (render_args demo_config) = Inr demo_config" by (simp add: demo_config_def default_config_def parse_args_def render_args_def set_flag_def engine_arg_def durability_arg_def parse_engine_def parse_durability_def parse_num_dec_nat)
  moreover have "rng_ok (\<lambda>_. rev) (\<lambda>_ _ _. 0)" by (simp add: rng_ok_def)
  moreover have "env_ok demo_env demo_config"
    by (simp add: env_ok_def demo_env_def demo_config_def default_config_def finishes_def partition_work_def Let_def)
       (simp flip: numeral_2_eq_2)
  ultimately have "\<exists>reps. bench_run (\<lambda>_. rev) (\<lambda>_ _ _. 0) demo_env (\<lambda>_. 0) (\<lambda>_. 0) (sim_storage first_choice) (\<lambda>_. [''tmp'']) (render_args demo_config)
        (sim_new (\<lambda>_. 0) 0) = Some (Inr reps) \<and> map pr_ops reps = expected_ops demo_config"
    by (intro bench_run_ok) (simp_all add: demo_config_def default_config_def is_durable_def)
  moreover have "expected_ops demo_config = [12, 5, 5]"
    by (simp add: expected_ops_def read_ops_def want_def demo_config_def default_config_def)
  ultimately show ?thesis by simp
qed

end
