(* ===== verification/Bench_Sled.thy ===== *)
theory Bench_Sled imports Bench_Main begin

text \<open>
  The baseline of the benchmark (\<open>src/src/bin/accretion-bench/sled_shim.rs\<close>), built when the feature
  \<open>bench-sled\<close> is on: two ways to drive the crate \<open>sled\<close> behind the trait of the benchmark. The crate is a
  parameter: its calls are the record \<open>sled\<close> over a state of its own.
\<close>

section \<open>The shims\<close>

record sled_config =
  sc_path :: path
  sc_flush_every_ms :: "u64 option"
  sc_cache_capacity :: nat

record 'd sled =
  sl_open :: "sled_config \<Rightarrow> string + 'd"
  sl_insert :: "bytes \<Rightarrow> bytes \<Rightarrow> 'd \<Rightarrow> (string + bytes option) \<times> 'd"
  sl_get :: "bytes \<Rightarrow> 'd \<Rightarrow> (string + bytes option) \<times> 'd"
  sl_range :: "bytes \<Rightarrow> bytes \<Rightarrow> 'd \<Rightarrow> (string + bytes \<times> bytes) list \<times> 'd"
  sl_flush :: "'d \<Rightarrow> (string + nat) \<times> 'd"

definition sled_err :: "string \<Rightarrow> (string + 'a) \<times> 'd \<Rightarrow> (bench_error + 'a) \<times> 'd" where
  "sled_err what r = (map_sum (\<lambda>e. Message (what @ e)) id (fst r), snd r)"

definition open_sled :: "'d sled \<Rightarrow> path \<Rightarrow> u64 option \<Rightarrow> bench_error + 'd" where
  "open_sled L dir flush_every_ms =
     map_sum (\<lambda>e. Message (''sled open: '' @ e)) id
       (sl_open L \<lparr>sc_path = dir, sc_flush_every_ms = flush_every_ms, sc_cache_capacity = 64 * 1024 * 1024\<rparr>)"

definition sled_durable_open :: "'d sled \<Rightarrow> path \<Rightarrow> bench_error + 'd" where
  "sled_durable_open L dir = open_sled L dir None"

definition sled_buffered_open :: "'d sled \<Rightarrow> path \<Rightarrow> bench_error + 'd" where
  "sled_buffered_open L dir = open_sled L dir None"

fun count_items :: "(string + bytes \<times> bytes) list \<Rightarrow> nat \<Rightarrow> bench_error + nat" where
  "count_items [] n = Inr n"
| "count_items (Inl e # items) n = Inl (Message (''sled range: '' @ e))"
| "count_items (Inr _ # items) n = count_items items (n + 1)"

definition sled_scan_count :: "'d sled \<Rightarrow> bytes \<Rightarrow> bytes \<Rightarrow> 'd \<Rightarrow> (bench_error + nat) \<times> 'd" where
  "sled_scan_count L lo hi d = (let (items, d) = sl_range L lo hi d in (count_items items 0, d))"

definition sled_flush :: "'d sled \<Rightarrow> 'd \<Rightarrow> (bench_error + unit) \<times> 'd" where
  "sled_flush L d = ok_then (sled_err ''sled flush: '' (sl_flush L d)) (\<lambda>_ d. (Inr (), d))"

definition sled_durable :: "'d sled \<Rightarrow> 'd kv_bench" where
  "sled_durable L =
     \<lparr>kb_label = ''sled/insert+flush(durable)'',
      kb_put = \<lambda>k v d. Some (ok_then (sled_err ''sled insert: '' (sl_insert L k v d)) (\<lambda>_. sled_flush L)),
      kb_get = \<lambda>k d. Some (sled_err ''sled get: '' (sl_get L k d)),
      kb_scan_count = \<lambda>lo hi d. Some (sled_scan_count L lo hi d),
      kb_flush = \<lambda>d. Some (sled_flush L d)\<rparr>"

definition sled_buffered :: "'d sled \<Rightarrow> 'd kv_bench" where
  "sled_buffered L =
     \<lparr>kb_label = ''sled/buffered(no-flush)'',
      kb_put = \<lambda>k v d. Some (ok_then (sled_err ''sled insert: '' (sl_insert L k v d)) (\<lambda>_ d. (Inr (), d))),
      kb_get = \<lambda>k d. Some (sled_err ''sled get: '' (sl_get L k d)),
      kb_scan_count = \<lambda>lo hi d. Some (sled_scan_count L lo hi d),
      kb_flush = \<lambda>d. Some (sled_flush L d)\<rparr>"

definition run_sled ::
  "(u64 \<Rightarrow> u64 list \<Rightarrow> u64 list) \<Rightarrow> (u64 \<Rightarrow> u64 \<Rightarrow> nat \<Rightarrow> u64) \<Rightarrow> (nat \<Rightarrow> run_env) \<Rightarrow> 'd sled \<Rightarrow> bench_config \<Rightarrow> path
    \<Rightarrow> (bench_error + phase_report list) option" where
  "run_sled shuf rnd env L cfg dir =
     (if c_durability cfg = OsBuffered then
        (case sled_buffered_open L dir of Inl e \<Rightarrow> Some (Inl e)
         | Inr d \<Rightarrow> map_option fst (run_workload shuf rnd env (sled_buffered L) cfg d))
      else
        (case sled_durable_open L dir of Inl e \<Rightarrow> Some (Inl e)
         | Inr d \<Rightarrow> map_option fst (run_workload shuf rnd env (sled_durable L) cfg d)))"

section \<open>On a store that is a map\<close>

text \<open>What the crate documents: inserting, reading and iterating over a range act as on a map from keys to
  values, and flushing changes nothing that can be read.\<close>

definition sled_laws :: "'d sled \<Rightarrow> (content \<Rightarrow> 'd \<Rightarrow> bool) \<Rightarrow> bool" where
  "sled_laws L holds \<longleftrightarrow>
     (\<forall>M d k v. holds M d \<longrightarrow> (\<exists>d'. sl_insert L k v d = (Inr (M k), d') \<and> holds (M(k \<mapsto> v)) d'))
   \<and> (\<forall>M d k. holds M d \<longrightarrow> (\<exists>d'. sl_get L k d = (Inr (M k), d') \<and> holds M d'))
   \<and> (\<forall>M d lo hi. holds M d \<longrightarrow> lo \<le> hi \<longrightarrow> (\<exists>kvs d'. sl_range L lo hi d = (map Inr kvs, d') \<and> holds M d'
        \<and> sorted_wrt (<) (map fst kvs) \<and> (\<forall>k v. (k, v) \<in> set kvs \<longleftrightarrow> lo \<le> k \<and> k < hi \<and> M k = Some v)))
   \<and> (\<forall>M d. holds M d \<longrightarrow> (\<exists>n d'. sl_flush L d = (Inr n, d') \<and> holds M d'))"

lemma sled_lawsD:
  assumes "sled_laws L holds" and "holds M d"
  shows "\<exists>d'. sl_insert L k v d = (Inr (M k), d') \<and> holds (M(k \<mapsto> v)) d'"
    and "\<exists>d'. sl_get L k d = (Inr (M k), d') \<and> holds M d'"
    and "lo \<le> hi \<Longrightarrow> \<exists>kvs d'. sl_range L lo hi d = (map Inr kvs, d') \<and> holds M d'
        \<and> sorted_wrt (<) (map fst kvs) \<and> (\<forall>k v. (k, v) \<in> set kvs \<longleftrightarrow> lo \<le> k \<and> k < hi \<and> M k = Some v)"
    and "\<exists>n d'. sl_flush L d = (Inr n, d') \<and> holds M d'"
proof -
  note l = assms(1) [unfolded sled_laws_def]
  show "\<exists>d'. sl_insert L k v d = (Inr (M k), d') \<and> holds (M(k \<mapsto> v)) d'"
    by (rule l [THEN conjunct1, rule_format, OF assms(2)])
  show "\<exists>d'. sl_get L k d = (Inr (M k), d') \<and> holds M d'"
    by (rule l [THEN conjunct2, THEN conjunct1, rule_format, OF assms(2)])
  show "\<exists>kvs d'. sl_range L lo hi d = (map Inr kvs, d') \<and> holds M d'
        \<and> sorted_wrt (<) (map fst kvs) \<and> (\<forall>k v. (k, v) \<in> set kvs \<longleftrightarrow> lo \<le> k \<and> k < hi \<and> M k = Some v)" if "lo \<le> hi"
    by (rule l [THEN conjunct2, THEN conjunct2, THEN conjunct1, rule_format, OF assms(2) that])
  show "\<exists>n d'. sl_flush L d = (Inr n, d') \<and> holds M d'"
    by (rule l [THEN conjunct2, THEN conjunct2, THEN conjunct2, rule_format, OF assms(2)])
qed

lemma count_items_Inr: "count_items (map Inr kvs) n = Inr (n + length kvs)"
  by (induction kvs arbitrary: n) simp_all

lemma sled_flush_ok: "sled_laws L holds \<Longrightarrow> holds M d \<Longrightarrow> \<exists>d'. sled_flush L d = (Inr (), d') \<and> holds M d'"
  using sled_lawsD(4) [of L holds M d] by (auto simp: sled_flush_def sled_err_def)

lemma sled_scan_ok:
  assumes "sled_laws L holds" and "holds M d" and "lo \<le> hi"
  shows "\<exists>d'. sled_scan_count L lo hi d = (Inr (card {k. lo \<le> k \<and> k < hi \<and> M k \<noteq> None}), d') \<and> holds M d'"
proof -
  from sled_lawsD(3) [OF assms] obtain kvs d' where r: "sl_range L lo hi d = (map Inr kvs, d')" "holds M d'"
    "sorted_wrt (<) (map fst kvs)" "\<forall>k v. (k, v) \<in> set kvs \<longleftrightarrow> lo \<le> k \<and> k < hi \<and> M k = Some v" by blast
  have "set (map fst kvs) = {k. lo \<le> k \<and> k < hi \<and> M k \<noteq> None}" using r(4) by force
  moreover have "distinct (map fst kvs)" using r(3) by (simp add: strict_sorted_iff)
  ultimately have "length kvs = card {k. lo \<le> k \<and> k < hi \<and> M k \<noteq> None}" by (metis distinct_card length_map)
  then show ?thesis using r(1,2) by (simp add: sled_scan_count_def count_items_Inr)
qed

lemma sled_durable_engine: "sled_laws L holds \<Longrightarrow> kv_engine (sled_durable L) (\<lambda>_. holds)"
proof
  fix b M d and k v :: bytes
  assume l: "sled_laws L holds" and h: "holds M d"
  from sled_lawsD(1) [OF l h, of k v] obtain d1 where "sl_insert L k v d = (Inr (M k), d1)" "holds (M(k \<mapsto> v)) d1" by blast
  then show "\<exists>s'. kb_put (sled_durable L) k v d = Some (Inr (), s') \<and> holds (M(k \<mapsto> v)) s'"
    using sled_flush_ok [OF l, of _ d1] by (simp add: sled_durable_def sled_err_def)
next
  fix b M d and k :: bytes
  assume l: "sled_laws L holds" and h: "holds M d"
  show "\<exists>s'. kb_get (sled_durable L) k d = Some (Inr (M k), s') \<and> holds M s'"
    using sled_lawsD(2) [OF l h, of k] by (auto simp: sled_durable_def sled_err_def)
next
  fix b M d and lo hi :: bytes
  assume l: "sled_laws L holds" and h: "holds M d" and le: "lo \<le> hi"
  show "\<exists>s'. kb_scan_count (sled_durable L) lo hi d = Some (Inr (card {k. lo \<le> k \<and> k < hi \<and> M k \<noteq> None}), s') \<and> holds M s'"
    using sled_scan_ok [OF l h le] by (auto simp: sled_durable_def)
next
  fix b :: nat and M d
  assume l: "sled_laws L holds" and h: "holds M d"
  show "\<exists>s'. kb_flush (sled_durable L) d = Some (Inr (), s') \<and> holds M s'"
    using sled_flush_ok [OF l h] by (auto simp: sled_durable_def)
qed

lemma sled_buffered_engine: "sled_laws L holds \<Longrightarrow> kv_engine (sled_buffered L) (\<lambda>_. holds)"
proof
  fix b M d and k v :: bytes
  assume l: "sled_laws L holds" and h: "holds M d"
  from sled_lawsD(1) [OF l h, of k v] obtain d1 where "sl_insert L k v d = (Inr (M k), d1)" "holds (M(k \<mapsto> v)) d1" by blast
  then show "\<exists>s'. kb_put (sled_buffered L) k v d = Some (Inr (), s') \<and> holds (M(k \<mapsto> v)) s'"
    by (simp add: sled_buffered_def sled_err_def)
next
  fix b M d and k :: bytes
  assume l: "sled_laws L holds" and h: "holds M d"
  show "\<exists>s'. kb_get (sled_buffered L) k d = Some (Inr (M k), s') \<and> holds M s'"
    using sled_lawsD(2) [OF l h, of k] by (auto simp: sled_buffered_def sled_err_def)
next
  fix b M d and lo hi :: bytes
  assume l: "sled_laws L holds" and h: "holds M d" and le: "lo \<le> hi"
  show "\<exists>s'. kb_scan_count (sled_buffered L) lo hi d = Some (Inr (card {k. lo \<le> k \<and> k < hi \<and> M k \<noteq> None}), s') \<and> holds M s'"
    using sled_scan_ok [OF l h le] by (auto simp: sled_buffered_def)
next
  fix b :: nat and M d
  assume l: "sled_laws L holds" and h: "holds M d"
  show "\<exists>s'. kb_flush (sled_buffered L) d = Some (Inr (), s') \<and> holds M s'"
    using sled_flush_ok [OF l h] by (auto simp: sled_buffered_def)
qed

text \<open>C38 (sled_run_ok): the benchmark passes on the baseline as it does on the engine. With a store that acts as
  a map and comes up empty, in every mode and for every workload, worker count and schedule, both shims
  let the run end without an error, and each phase reports as many calls as were asked for.\<close>

theorem sled_run_ok:
  assumes L: "sled_laws L holds"
    and op: "sl_open L \<lparr>sc_path = dir, sc_flush_every_ms = None, sc_cache_capacity = 2 ^ 26\<rparr> = Inr d" and emp: "holds Map.empty d"
    and n: "0 < c_keys cfg" and g: "rng_ok shuf rnd" and env: "env_ok env cfg"
  shows "\<exists>reps. run_sled shuf rnd env L cfg dir = Some (Inr reps) \<and> map pr_ops reps = expected_ops cfg"
proof (cases "c_durability cfg = OsBuffered")
  case True
  then show ?thesis
    using kv_engine.workload_ok [OF sled_buffered_engine [OF L] emp g env n] op
    by (auto simp: run_sled_def sled_buffered_open_def open_sled_def)
next
  case False
  then show ?thesis
    using kv_engine.workload_ok [OF sled_durable_engine [OF L] emp g env n] op
    by (auto simp: run_sled_def sled_durable_open_def open_sled_def)
qed

text \<open>A store that is a sorted map in memory.\<close>

definition demo_sled :: "(bytes, bytes) btree sled" where
  "demo_sled = \<lparr>sl_open = \<lambda>_. Inr [], sl_insert = \<lambda>k v m. (Inr (bt_get m k), bt_insert k v m), sl_get = \<lambda>k m. (Inr (bt_get m k), m),
     sl_range = \<lambda>lo hi m. (map Inr (filter (\<lambda>(k, _). lo \<le> k \<and> k < hi) m), m), sl_flush = \<lambda>m. (Inr 0, m)\<rparr>"

definition demo_holds :: "content \<Rightarrow> (bytes, bytes) btree \<Rightarrow> bool" where
  "demo_holds M m \<longleftrightarrow> bt_ok m \<and> bt_get m = M"

lemma demo_range:
  assumes "bt_ok m"
  shows "sorted_wrt (<) (map fst (filter (\<lambda>(k, _). lo \<le> k \<and> k < hi) m))"
    and "(k, v) \<in> set (filter (\<lambda>(k, _). lo \<le> k \<and> k < hi) m) \<longleftrightarrow> lo \<le> k \<and> k < hi \<and> bt_get m k = Some v"
  using bt_ok_retain [OF assms, of "\<lambda>k _. lo \<le> k \<and> k < hi"] bt_get_mem [OF assms, of k v] by (auto simp: bt_ok_def bt_retain_def)

lemma demo_sled_laws: "sled_laws demo_sled demo_holds"
  unfolding sled_laws_def
proof (intro conjI allI impI)
  fix M m and k v :: bytes
  assume h: "demo_holds M m"
  then show "\<exists>d'. sl_insert demo_sled k v m = (Inr (M k), d') \<and> demo_holds (M(k \<mapsto> v)) d'"
    by (auto simp: demo_holds_def demo_sled_def fun_eq_iff)
  show "\<exists>d'. sl_get demo_sled k m = (Inr (M k), d') \<and> demo_holds M d'"
    using h by (auto simp: demo_holds_def demo_sled_def)
next
  fix M m and lo hi :: bytes
  assume h: "demo_holds M m"
  let ?kvs = "filter (\<lambda>(k, _). lo \<le> k \<and> k < hi) m"
  have m: "bt_ok m" "bt_get m = M" using h by (simp_all add: demo_holds_def)
  have "sl_range demo_sled lo hi m = (map Inr ?kvs, m)" by (simp add: demo_sled_def)
  moreover note demo_range(1) [OF m(1), of lo hi]
  moreover have "\<forall>k v. (k, v) \<in> set ?kvs \<longleftrightarrow> lo \<le> k \<and> k < hi \<and> M k = Some v"
    using demo_range(2) [OF m(1), of _ _ lo hi] unfolding m(2) by blast
  ultimately show "\<exists>kvs d'. sl_range demo_sled lo hi m = (map Inr kvs, d') \<and> demo_holds M d'
      \<and> sorted_wrt (<) (map fst kvs) \<and> (\<forall>k v. (k, v) \<in> set kvs \<longleftrightarrow> lo \<le> k \<and> k < hi \<and> M k = Some v)"
    using h by blast
qed (auto simp: demo_sled_def)

theorem sled_run_ok_witness:
  "\<exists>reps. run_sled (\<lambda>_. rev) (\<lambda>_ _ _. 0) demo_env demo_sled demo_config [''db''] = Some (Inr reps) \<and> map pr_ops reps = [12, 5, 5]"
proof -
  have "\<exists>reps. run_sled (\<lambda>_. rev) (\<lambda>_ _ _. 0) demo_env demo_sled demo_config [''db''] = Some (Inr reps) \<and> map pr_ops reps = expected_ops demo_config"
  proof (rule sled_run_ok [OF demo_sled_laws])
    show "env_ok demo_env demo_config"
      by (simp add: env_ok_def demo_env_def demo_config_def default_config_def finishes_def partition_work_def Let_def)
         (simp flip: numeral_2_eq_2)
    show "demo_holds Map.empty []" by (simp add: demo_holds_def fun_eq_iff)
  qed (simp_all add: demo_sled_def demo_config_def default_config_def rng_ok_def)
  moreover have "expected_ops demo_config = [12, 5, 5]"
    by (simp add: expected_ops_def read_ops_def want_def demo_config_def default_config_def)
  ultimately show ?thesis by simp
qed

end
