(* ===== verification/Os_Tree.thy ===== *)
theory Os_Tree imports Ordered_Map Storage begin

text \<open>
  The calls of \<open>std::fs\<close> that the program makes, on a tree of directories and regular files as one process
  sees it, with the failures that the tree explains. Those that it does not (permissions, a full disk)
  are parameters of the callers.
\<close>

section \<open>The operating system\<close>

datatype node = Regular bytes | Directory

type_synonym os_tree = "(path, node) btree"

datatype io_error = Enoent | Eexist | Eother string

text \<open>Every proper prefix of a path must be a directory.\<close>

definition os_walk :: "os_tree \<Rightarrow> path \<Rightarrow> io_error option" where
  "os_walk t p =
     (case filter (\<lambda>q. bt_get t q \<noteq> Some Directory) (map (\<lambda>n. take n p) [0..<length p]) of
        [] \<Rightarrow> None
      | q # _ \<Rightarrow> Some (if bt_get t q = None then Enoent else Eother ''Not a directory''))"

definition os_find :: "os_tree \<Rightarrow> path \<Rightarrow> io_error + node" where
  "os_find t p =
     (case os_walk t p of Some e \<Rightarrow> Inl e
      | None \<Rightarrow> (case bt_get t p of None \<Rightarrow> Inl Enoent | Some n \<Rightarrow> Inr n))"

definition os_open_write :: "os_tree \<Rightarrow> path \<Rightarrow> io_error + bytes" where
  "os_open_write t p = res_then (os_find t p) (\<lambda>n. case n of Regular c \<Rightarrow> Inr c | Directory \<Rightarrow> Inl (Eother ''Is a directory''))"

definition os_is_file :: "os_tree \<Rightarrow> path \<Rightarrow> bool" where
  "os_is_file t p = (case os_find t p of Inr (Regular _) \<Rightarrow> True | _ \<Rightarrow> False)"

definition os_exists :: "os_tree \<Rightarrow> path \<Rightarrow> bool" where
  "os_exists t p = (case os_find t p of Inr _ \<Rightarrow> True | Inl _ \<Rightarrow> False)"

definition os_below :: "path \<Rightarrow> path \<Rightarrow> bool" where
  "os_below d p \<longleftrightarrow> take (length d) p = d"

text \<open>\<open>rename\<close>: a file replaces a file, a directory an empty directory, and nothing moves into itself.\<close>

definition os_rename :: "os_tree \<Rightarrow> path \<Rightarrow> path \<Rightarrow> (io_error + unit) \<times> os_tree" where
  "os_rename t from to =
     (case os_find t from of
        Inl e \<Rightarrow> (Inl e, t)
      | Inr n \<Rightarrow>
          (case os_walk t to of
             Some e \<Rightarrow> (Inl e, t)
           | None \<Rightarrow>
               if from = to then (Inr (), t)
               else (case n of
                  Regular c \<Rightarrow>
                    if bt_get t to = Some Directory then (Inl (Eother ''Is a directory''), t)
                    else (Inr (), bt_insert to n (bt_retain (\<lambda>q _. q \<noteq> from) t))
                | Directory \<Rightarrow>
                    if os_below from to then (Inl (Eother ''Invalid argument''), t)
                    else if (\<exists>(q, _)\<in>set t. os_below to q \<and> (q \<noteq> to \<or> bt_get t to \<noteq> Some Directory))
                    then (Inl (Eother ''Directory not empty''), t)
                    else (Inr (), fold (\<lambda>(q, x). bt_insert (to @ drop (length from) q) x) (filter (\<lambda>(q, _). os_below from q) t)
                            (bt_retain (\<lambda>q _. \<not> os_below from q) t)))))"

definition os_unlink :: "os_tree \<Rightarrow> path \<Rightarrow> (io_error + unit) \<times> os_tree" where
  "os_unlink t p =
     (case os_find t p of
        Inl e \<Rightarrow> (Inl e, t)
      | Inr (Regular c) \<Rightarrow> (Inr (), bt_retain (\<lambda>q _. q \<noteq> p) t)
      | Inr Directory \<Rightarrow> (Inl (Eother ''Is a directory''), t))"

text \<open>\<open>is_dir\<close>, \<open>create_dir\<close>, \<open>create_dir_all\<close> (which asks again when the parents have been made, and is
  content with a directory that is there), \<open>remove_dir_all\<close>, and the opening of a file that is made or
  truncated.\<close>

definition os_is_dir :: "os_tree \<Rightarrow> path \<Rightarrow> bool" where
  "os_is_dir t p = (case os_find t p of Inr Directory \<Rightarrow> True | _ \<Rightarrow> False)"

definition os_mkdir :: "path \<Rightarrow> os_tree \<Rightarrow> (io_error + unit) \<times> os_tree" where
  "os_mkdir p t =
     (case os_walk t p of Some e \<Rightarrow> (Inl e, t)
      | None \<Rightarrow> if bt_get t p \<noteq> None then (Inl Eexist, t) else (Inr (), bt_insert p Directory t))"

function os_mkdir_all :: "path \<Rightarrow> os_tree \<Rightarrow> (io_error + unit) \<times> os_tree" where
  "os_mkdir_all p t =
     (if p = [] then (Inr (), t)
      else case os_mkdir p t of
        (Inr _, t) \<Rightarrow> (Inr (), t)
      | (Inl e, t) \<Rightarrow>
          if e = Enoent then
            ok_then (os_mkdir_all (butlast p) t) (\<lambda>_ t.
              case os_mkdir p t of (Inr _, t) \<Rightarrow> (Inr (), t)
              | (Inl e, t) \<Rightarrow> if os_is_dir t p then (Inr (), t) else (Inl e, t))
          else if os_is_dir t p then (Inr (), t) else (Inl e, t))"
  by pat_completeness auto
termination by (relation "measure (\<lambda>(p, t). length p)") auto

declare os_mkdir_all.simps [simp del]

definition os_remove_dir_all :: "path \<Rightarrow> os_tree \<Rightarrow> (io_error + unit) \<times> os_tree" where
  "os_remove_dir_all p t =
     (case os_find t p of
        Inl e \<Rightarrow> (Inl e, t)
      | Inr (Regular _) \<Rightarrow> (Inl (Eother ''Not a directory''), t)
      | Inr Directory \<Rightarrow> (Inr (), bt_retain (\<lambda>q _. \<not> os_below p q) t))"

definition os_open_truncate :: "path \<Rightarrow> os_tree \<Rightarrow> (io_error + unit) \<times> os_tree" where
  "os_open_truncate p t =
     (case os_walk t p of Some e \<Rightarrow> (Inl e, t)
      | None \<Rightarrow> if bt_get t p = Some Directory then (Inl (Eother ''Is a directory''), t) else (Inr (), bt_insert p (Regular []) t))"

section \<open>The tree as a flat namespace\<close>

definition file_view :: "os_tree \<Rightarrow> path \<Rightarrow> bytes option" where
  "file_view t p = (case bt_get t p of Some (Regular c) \<Rightarrow> Some c | _ \<Rightarrow> None)"

definition os_ok :: "os_tree \<Rightarrow> bool" where
  "os_ok t \<longleftrightarrow> bt_ok t \<and> (\<forall>p. p \<noteq> [] \<longrightarrow> bt_get t p \<noteq> None \<longrightarrow> bt_get t (butlast p) = Some Directory)"

text \<open>A path for a file: its directory is there, and the path itself is not a directory.\<close>

definition plain :: "os_tree \<Rightarrow> path \<Rightarrow> bool" where
  "plain t p \<longleftrightarrow> p \<noteq> [] \<and> bt_get t (butlast p) = Some Directory \<and> bt_get t p \<noteq> Some Directory"

lemma os_okD: "os_ok t \<Longrightarrow> bt_get t p = Some n \<Longrightarrow> p \<noteq> [] \<Longrightarrow> bt_get t (butlast p) = Some Directory"
  by (simp add: os_ok_def)

lemma os_prefix: "os_ok t \<Longrightarrow> bt_get t q = Some Directory \<Longrightarrow> bt_get t (take n q) = Some Directory"
proof (induction q rule: rev_induct)
  case (snoc x q)
  from os_okD [OF snoc.prems] have "bt_get t q = Some Directory" by simp
  then show ?case using snoc by (cases "n \<le> length q") simp_all
qed simp

lemma os_walk_plain: "os_ok t \<Longrightarrow> bt_get t (butlast p) = Some Directory \<Longrightarrow> os_walk t p = None"
proof -
  assume t: "os_ok t" "bt_get t (butlast p) = Some Directory"
  have "bt_get t (take n p) = Some Directory" if "n < length p" for n
  proof -
    have "min n (length p - 1) = n" using that by simp
    then show ?thesis using os_prefix [OF t, of n] by (simp add: butlast_conv_take)
  qed
  then have "filter (\<lambda>q. bt_get t q \<noteq> Some Directory) (map (\<lambda>n. take n p) [0..<length p]) = []"
    by (intro filter_False) auto
  then show ?thesis by (simp add: os_walk_def)
qed

lemma os_find_plain: "os_ok t \<Longrightarrow> plain t p \<Longrightarrow>
    os_find t p = (case file_view t p of None \<Rightarrow> Inl Enoent | Some c \<Rightarrow> Inr (Regular c))"
  using os_walk_plain [of t p] by (auto simp: os_find_def plain_def file_view_def split: option.split node.split)

lemma os_find_dir: "os_ok t \<Longrightarrow> bt_get t d = Some Directory \<Longrightarrow> os_find t d = Inr Directory"
  using os_walk_plain [of t d] by (cases "d = []") (auto simp: os_find_def os_ok_def os_walk_def)

lemma os_ok_insert: "os_ok t \<Longrightarrow> plain t p \<Longrightarrow> os_ok (bt_insert p (Regular c) t)"
  unfolding os_ok_def plain_def by (auto; metis)

lemma os_ok_retain: "os_ok t \<Longrightarrow> bt_get t p \<noteq> Some Directory \<Longrightarrow> os_ok (bt_retain (\<lambda>q _. q \<noteq> p) t)"
  unfolding os_ok_def by (auto simp: bt_get_retain split: option.splits)

lemma file_view_insert: "file_view (bt_insert p (Regular c) t) = (file_view t)(p \<mapsto> c)"
  by (simp add: file_view_def fun_eq_iff)

lemma file_view_retain: "os_ok t \<Longrightarrow> file_view (bt_retain (\<lambda>q _. q \<noteq> p) t) = (file_view t)(p := None)"
  by (auto simp: file_view_def fun_eq_iff os_ok_def bt_get_retain split: option.split)

section \<open>Directories\<close>

lemma os_ok_mkdir: "os_ok t \<Longrightarrow> bt_get t (butlast p) = Some Directory \<Longrightarrow> os_ok (bt_insert p Directory t)"
  unfolding os_ok_def by (auto; metis)

lemma os_mkdir_fresh:
  "os_ok t \<Longrightarrow> bt_get t (butlast p) = Some Directory \<Longrightarrow> bt_get t p = None \<Longrightarrow> os_mkdir p t = (Inr (), bt_insert p Directory t)"
  by (simp add: os_mkdir_def os_walk_plain)

lemma os_walk_no_file: "\<forall>n. file_view t (take n p) = None \<Longrightarrow> os_walk t p = Some e \<Longrightarrow> e = Enoent"
proof -
  assume no: "\<forall>n. file_view t (take n p) = None" and w: "os_walk t p = Some e"
  from w obtain q qs where q: "filter (\<lambda>q. bt_get t q \<noteq> Some Directory) (map (\<lambda>n. take n p) [0..<length p]) = q # qs"
    and e: "e = (if bt_get t q = None then Enoent else Eother ''Not a directory'')"
    by (auto simp: os_walk_def split: list.splits)
  have "q \<in> set (filter (\<lambda>q. bt_get t q \<noteq> Some Directory) (map (\<lambda>n. take n p) [0..<length p]))" by (simp add: q)
  then obtain n where "q = take n p" "bt_get t q \<noteq> Some Directory" by auto
  then have "bt_get t q = None" using no [rule_format, of n]
    by (cases "bt_get t q") (auto simp: file_view_def split: node.splits)
  then show ?thesis using e by simp
qed

lemma os_is_dirI: "os_ok t \<Longrightarrow> bt_get t p = Some Directory \<Longrightarrow> os_is_dir t p"
  by (simp add: os_is_dir_def os_find_dir)

text \<open>Where no file is in the way, \<open>create_dir_all\<close> leaves the directory there and every file as it was.\<close>

lemma os_mkdir_all_ok:
  "os_ok t \<Longrightarrow> bt_get t [] = Some Directory \<Longrightarrow> \<forall>n. file_view t (take n p) = None \<Longrightarrow>
    \<exists>t'. os_mkdir_all p t = (Inr (), t') \<and> os_ok t' \<and> bt_get t' p = Some Directory \<and> file_view t' = file_view t
      \<and> (\<forall>q. bt_get t q \<noteq> None \<or> length p < length q \<longrightarrow> bt_get t' q = bt_get t q)"
proof (induction p arbitrary: t rule: rev_induct)
  case Nil
  then show ?case by (auto simp: os_mkdir_all.simps)
next
  case (snoc x p)
  have fv: "file_view (bt_insert (p @ [x]) Directory t) = file_view t" if "bt_get t (p @ [x]) = None" for t
    using that by (auto simp: file_view_def fun_eq_iff)
  have up: "\<forall>n. file_view t (take n p) = None"
  proof
    fix n show "file_view t (take n p) = None" using snoc.prems(3) [rule_format, of "min n (length p)"] by (cases "n \<le> length p") simp_all
  qed
  have nofile: "file_view t (p @ [x]) = None" using snoc.prems(3) [rule_format, of "Suc (length p)"] by simp
  have here: "\<exists>t'. os_mkdir (p @ [x]) t = (Inr (), t') \<and> os_ok t' \<and> bt_get t' (p @ [x]) = Some Directory
      \<and> file_view t' = file_view t \<and> (\<forall>q. bt_get t q \<noteq> None \<or> length (p @ [x]) < length q \<longrightarrow> bt_get t' q = bt_get t q)"
    if t: "os_ok t" "bt_get t p = Some Directory" "bt_get t (p @ [x]) = None" for t
    using os_mkdir_fresh [of t "p @ [x]"] os_ok_mkdir [of t "p @ [x]"] t fv [OF t(3)] by auto
  show ?case
  proof (cases "os_mkdir (p @ [x]) t")
    case (Pair r t1)
    show ?thesis
    proof (cases r)
      case (Inr u)
      then have t1: "t1 = bt_insert (p @ [x]) Directory t" "bt_get t (p @ [x]) = None" "os_walk t (p @ [x]) = None"
        using Pair by (auto simp: os_mkdir_def split: option.splits if_splits)
      then have "bt_get t p = Some Directory" by (auto simp: os_walk_def split: list.splits if_splits)
      then show ?thesis using here [OF snoc.prems(1) _ t1(2)] Pair Inr by (auto simp: os_mkdir_all.simps)
    next
      case (Inl e)
      have t1: "t1 = t" using Inl Pair by (auto simp: os_mkdir_def split: option.splits if_splits)
      show ?thesis
      proof (cases "bt_get t (p @ [x])")
        case None
        obtain t2 where t2: "os_mkdir_all p t = (Inr (), t2)" "os_ok t2" "bt_get t2 p = Some Directory" "file_view t2 = file_view t"
          "\<forall>q. bt_get t q \<noteq> None \<or> length p < length q \<longrightarrow> bt_get t2 q = bt_get t q"
          using snoc.IH [OF snoc.prems(1,2) up] by blast
        have e: "e = Enoent"
          using Inl Pair None os_walk_no_file [OF snoc.prems(3), of e] by (auto simp: os_mkdir_def split: option.splits)
        have unfold: "os_mkdir_all (p @ [x]) t = (case os_mkdir (p @ [x]) t2 of (Inr _, t) \<Rightarrow> (Inr (), t)
            | (Inl e, t) \<Rightarrow> if os_is_dir t (p @ [x]) then (Inr (), t) else (Inl e, t))"
          using Pair Inl e t1 t2(1) by (simp add: os_mkdir_all.simps [of "p @ [x]"])
        show ?thesis
        proof (cases "bt_get t2 (p @ [x])")
          case None
          then show ?thesis using here [OF t2(2,3) None] t2(4,5) unfold by fastforce
        next
          case (Some n)
          have "file_view t2 (p @ [x]) = None" using nofile t2(4) by simp
          then have n: "n = Directory" using Some by (cases n) (simp_all add: file_view_def)
          have "os_mkdir (p @ [x]) t2 = (Inl Eexist, t2)"
            using Some os_walk_plain [OF t2(2), of "p @ [x]"] t2(3) by (simp add: os_mkdir_def)
          then show ?thesis using unfold os_is_dirI [OF t2(2)] Some n t2 by auto
        qed
      next
        case (Some n)
        then have n: "n = Directory" using nofile by (cases n) (simp_all add: file_view_def)
        then have "e = Eexist" "os_is_dir t (p @ [x])"
          using os_is_dirI [OF snoc.prems(1), of "p @ [x]"] os_okD [OF snoc.prems(1) Some] os_walk_plain [OF snoc.prems(1), of "p @ [x]"] Some Inl Pair
          by (auto simp: os_mkdir_def)
        then show ?thesis using Pair Inl t1 Some n snoc.prems(1) by (auto simp: os_mkdir_all.simps)
      qed
    qed
  qed
qed

end
