(* ===== verification/Real_Fs.thy ===== *)
theory Real_Fs imports Os_Tree Wal_Durability begin

text \<open>
  The real-filesystem backend (\<open>src/src/storage/real.rs\<close>) over the tree of files and directories of
  \<open>Os_Tree\<close>. Durability is the machine's: a sync changes nothing that the process can see. So are the
  failures that the tree does not explain (permissions, a full disk, an input or output error): they
  are a parameter of every call.
\<close>

section \<open>The backend\<close>

definition map_io :: "path \<Rightarrow> io_error \<Rightarrow> storage_error" where
  "map_io p e = (case e of Enoent \<Rightarrow> NotFound p | Eexist \<Rightarrow> AlreadyExists p | Eother m \<Rightarrow> Io p m)"

definition io_map :: "path \<Rightarrow> io_error + 'a \<Rightarrow> storage_error + 'a" where
  "io_map p r = map_sum (map_io p) id r"

text \<open>What the machine makes of one call: the call that opens, makes, renames, removes or looks up the path
  may fail, and so may, on the file once it is open, asking for its metadata, seeking, writing (after
  some of the bytes got through), reading (with some of the bytes there; an interrupted read is
  repeated and does not count), syncing, and stepping through a directory.\<close>

record faults =
  ft_path :: "io_error option"
  ft_meta :: "io_error option"
  ft_seek :: "io_error option"
  ft_write :: "(nat \<times> io_error) option"
  ft_read :: "nat \<Rightarrow> io_error option"
  ft_sync :: "io_error option"
  ft_entry :: "io_error option"

definition healthy :: faults where
  "healthy = \<lparr>ft_path = None, ft_meta = None, ft_seek = None, ft_write = None, ft_read = (\<lambda>_. None), ft_sync = None,
     ft_entry = None\<rparr>"

lemma healthy_simps [simp]:
  "ft_path healthy = None" "ft_meta healthy = None" "ft_seek healthy = None" "ft_write healthy = None"
  "ft_read healthy = (\<lambda>_. None)" "ft_sync healthy = None" "ft_entry healthy = None"
  by (simp_all add: healthy_def)

definition unless :: "io_error option \<Rightarrow> io_error + 'a \<Rightarrow> io_error + 'a" where
  "unless f r = (case f of Some e \<Rightarrow> Inl e | None \<Rightarrow> r)"

lemma unless_simps [simp]: "unless None r = r" "unless (Some e) r = Inl e"
  by (simp_all add: unless_def)

text \<open>\<open>write_all\<close>: whether it succeeds, and the bytes that reach the file. No call is made for an empty
  rest, so that a fault after the last byte is none.\<close>

definition write_all :: "faults \<Rightarrow> bytes \<Rightarrow> (io_error + unit) \<times> bytes" where
  "write_all F d =
     (case ft_write F of
        Some (m, e) \<Rightarrow> if m < length d then (Inl e, take m d) else (Inr (), d)
      | None \<Rightarrow> (Inr (), d))"

lemma write_all_healthy [simp]: "write_all healthy d = (Inr (), d)"
  by (simp add: write_all_def)

definition real_create :: "faults \<Rightarrow> path \<Rightarrow> os_tree \<Rightarrow> (storage_error + unit) \<times> os_tree" where
  "real_create F p t =
     (case unless (ft_path F) (case os_walk t p of Some e \<Rightarrow> Inl e | None \<Rightarrow> if bt_get t p \<noteq> None then Inl Eexist else Inr ()) of
        Inl e \<Rightarrow> (Inl (map_io p e), t)
      | Inr _ \<Rightarrow> (Inr (), bt_insert p (Regular []) t))"

text \<open>\<open>is_file\<close> and \<open>exists\<close> are false where the path cannot be looked up.\<close>

definition real_open :: "faults \<Rightarrow> path \<Rightarrow> os_tree \<Rightarrow> storage_error + unit" where
  "real_open F p t =
     (if ft_path F = None \<and> os_is_file t p then Inr ()
      else if ft_path F = None \<and> os_exists t p then Inl (NotADirectory p) else Inl (NotFound p))"

definition real_append :: "faults \<Rightarrow> path \<Rightarrow> bytes \<Rightarrow> os_tree \<Rightarrow> (storage_error + nat) \<times> os_tree" where
  "real_append F p d t =
     (case io_map p (unless (ft_path F) (os_open_write t p)) of Inl e \<Rightarrow> (Inl e, t)
      | Inr c \<Rightarrow>
          (case io_map p (unless (ft_meta F) (Inr (length c))) of Inl e \<Rightarrow> (Inl e, t)
           | Inr offset \<Rightarrow>
               let (r, w) = write_all F d; t = bt_insert p (Regular (c @ w)) t
               in (case io_map p r of Inl e \<Rightarrow> (Inl e, t) | Inr _ \<Rightarrow> (Inr offset, t))))"

definition real_write_at :: "faults \<Rightarrow> path \<Rightarrow> nat \<Rightarrow> bytes \<Rightarrow> os_tree \<Rightarrow> (storage_error + unit) \<times> os_tree" where
  "real_write_at F p off d t =
     (case io_map p (unless (ft_path F) (os_open_write t p)) of Inl e \<Rightarrow> (Inl e, t)
      | Inr c \<Rightarrow>
          (case io_map p (unless (ft_meta F) (Inr (length c))) of Inl e \<Rightarrow> (Inl e, t)
           | Inr len \<Rightarrow>
               if len < off \<or> len < off + length d then (Inl (OutOfBounds p off len), t)
               else (case io_map p (unless (ft_seek F) (Inr ())) of Inl e \<Rightarrow> (Inl e, t)
                     | Inr _ \<Rightarrow>
                         let (r, w) = write_all F d; t = bt_insert p (Regular (take off c @ w @ drop (off + length w) c)) t
                         in (io_map p r, t))))"

text \<open>The read loop: a call of \<open>read\<close> fails, or fills at least one and at most \<open>sh\<close> bytes, unless the file
  ends.\<close>

function read_fill :: "(nat \<Rightarrow> io_error option) \<Rightarrow> (nat \<Rightarrow> nat) \<Rightarrow> bytes \<Rightarrow> nat \<Rightarrow> nat \<Rightarrow> bytes \<Rightarrow> io_error + bytes" where
  "read_fill fr sh c pos n buf =
     (if length buf < n then
        (case fr (length buf) of
           Some e \<Rightarrow> Inl e
         | None \<Rightarrow>
             (let got = take (max 1 (min (sh (length buf)) (n - length buf))) (drop (pos + length buf) c)
              in if got = [] then Inr buf else read_fill fr sh c pos n (buf @ got)))
      else Inr buf)"
  by pat_completeness auto
termination
  by (relation "measure (\<lambda>(fr, sh, c, pos, n, buf). n - length buf)") (auto simp: Let_def intro!: diff_less_mono2)

declare read_fill.simps [simp del]

definition real_read_at :: "faults \<Rightarrow> (nat \<Rightarrow> nat) \<Rightarrow> path \<Rightarrow> nat \<Rightarrow> nat \<Rightarrow> os_tree \<Rightarrow> storage_error + bytes" where
  "real_read_at F sh p off n t =
     (case io_map p (unless (ft_path F) (os_find t p)) of
        Inl e \<Rightarrow> Inl e
      | Inr node \<Rightarrow>
          (case io_map p (unless (ft_seek F) (Inr ())) of Inl e \<Rightarrow> Inl e
           | Inr _ \<Rightarrow>
               (case node of
                  Regular c \<Rightarrow> io_map p (read_fill (ft_read F) sh c off n [])
                | Directory \<Rightarrow> if n = 0 then Inr [] else Inl (map_io p (Eother ''Is a directory'')))))"

definition real_sync_file :: "faults \<Rightarrow> path \<Rightarrow> os_tree \<Rightarrow> (storage_error + unit) \<times> os_tree" where
  "real_sync_file F p t =
     (case io_map p (unless (ft_path F) (os_open_write t p)) of Inl e \<Rightarrow> (Inl e, t)
      | Inr _ \<Rightarrow> (io_map p (unless (ft_sync F) (Inr ())), t))"

definition real_sync_dir :: "faults \<Rightarrow> path \<Rightarrow> os_tree \<Rightarrow> (storage_error + unit) \<times> os_tree" where
  "real_sync_dir F dir t =
     (case io_map dir (unless (ft_path F) (os_find t dir)) of Inl e \<Rightarrow> (Inl e, t)
      | Inr _ \<Rightarrow> (io_map dir (unless (ft_sync F) (Inr ())), t))"

definition real_rename :: "faults \<Rightarrow> path \<Rightarrow> path \<Rightarrow> os_tree \<Rightarrow> (storage_error + unit) \<times> os_tree" where
  "real_rename F from to t =
     (let (r, t) = (case ft_path F of Some e \<Rightarrow> (Inl e, t) | None \<Rightarrow> os_rename t from to) in (io_map from r, t))"

definition real_delete :: "faults \<Rightarrow> path \<Rightarrow> os_tree \<Rightarrow> (storage_error + unit) \<times> os_tree" where
  "real_delete F p t =
     (let (r, t) = (case ft_path F of Some e \<Rightarrow> (Inl e, t) | None \<Rightarrow> os_unlink t p) in (io_map p r, t))"

definition real_list :: "faults \<Rightarrow> path \<Rightarrow> os_tree \<Rightarrow> storage_error + path list" where
  "real_list F dir t =
     (case io_map dir (unless (ft_path F) (os_find t dir)) of
        Inl e \<Rightarrow> Inl e
      | Inr (Regular _) \<Rightarrow> Inl (map_io dir (Eother ''Not a directory''))
      | Inr Directory \<Rightarrow>
          io_map dir (unless (ft_entry F)
            (Inr (sort (filter (os_is_file t) (map fst (filter (\<lambda>(q, _). parent q = Some dir) t)))))))"

text \<open>\<open>dlen\<close> is the length that the system reports for a directory.\<close>

definition real_len :: "faults \<Rightarrow> (path \<Rightarrow> nat) \<Rightarrow> path \<Rightarrow> os_tree \<Rightarrow> storage_error + nat" where
  "real_len F dlen p t =
     (case io_map p (unless (ft_path F) (os_find t p)) of
        Inl e \<Rightarrow> Inl e
      | Inr (Regular c) \<Rightarrow> Inr (length c)
      | Inr Directory \<Rightarrow> Inr (dlen p))"

definition real_storage :: "faults \<Rightarrow> (nat \<Rightarrow> nat) \<Rightarrow> (path \<Rightarrow> nat) \<Rightarrow> os_tree storage" where
  "real_storage F sh dlen = \<lparr>st_create = real_create F, st_open = real_open F, st_append = real_append F,
     st_write_at = real_write_at F, st_read_at = real_read_at F sh, st_sync_file = real_sync_file F,
     st_sync_dir = real_sync_dir F, st_rename = real_rename F, st_delete = real_delete F,
     st_list = real_list F, st_len = real_len F dlen\<rparr>"

lemma read_fill_take:
  assumes "\<And>i. fr i = None"
  shows "length buf \<le> n \<Longrightarrow> read_fill fr sh c pos n buf = Inr (buf @ take (n - length buf) (drop (pos + length buf) c))"
  using assms
proof (induction fr sh c pos n buf rule: read_fill.induct)
  case (1 fr sh c pos n buf)
  show ?case
  proof (cases "length buf < n")
    case True
    define m k X where "m = n - length buf" and "k = max 1 (min (sh (length buf)) m)" and "X = drop (pos + length buf) c"
    have k: "1 \<le> k" "k \<le> m" using True by (auto simp: k_def m_def)
    show ?thesis
    proof (cases "take k X = []")
      case True
      then have "X = []" using k(1) by (cases X) auto
      then show ?thesis using \<open>length buf < n\<close> using 1(3) by (subst read_fill.simps) (simp add: X_def)
    next
      case False
      have "take k X @ take (m - length (take k X)) (drop (length (take k X)) X) = take m X"
        using k(2) take_add [of k "m - k" X] by (cases "k \<le> length X") simp_all
      moreover have got: "take (max 1 (min (sh (length buf)) (n - length buf))) (drop (pos + length buf) c) = take k X"
        by (simp only: k_def X_def m_def)
      moreover have len: "length (buf @ take k X) \<le> n" using k(2) \<open>length buf < n\<close> by (simp add: m_def)
      moreover note 1(1) [OF \<open>length buf < n\<close> 1(3) got [symmetric] False len 1(3)]
      moreover have "n - length (buf @ take k X) = m - length (take k X)"
        "drop (pos + length (buf @ take k X)) c = drop (length (take k X)) X"
        by (simp_all only: m_def X_def length_append drop_drop diff_diff_left ac_simps)
      ultimately have "read_fill fr sh c pos n (buf @ take k X) = Inr (buf @ take m X)" by simp
      then show ?thesis
        using \<open>length buf < n\<close> False got 1(3) by (subst read_fill.simps) (simp only: Let_def if_True if_False option.case m_def X_def)
    qed
  next
    case False
    then show ?thesis by (subst read_fill.simps) simp
  qed
qed

section \<open>The simulator shows what the real backend shows\<close>

definition same_fs :: "os_tree \<Rightarrow> 'r sim_state \<Rightarrow> bool" where
  "same_fs t s \<longleftrightarrow> os_ok t \<and> sim_ok s \<and> file_view t = sim_view s"

definition agree :: "('a \<times> os_tree) \<Rightarrow> ('a \<times> 'r sim_state) \<Rightarrow> bool" where
  "agree x y \<longleftrightarrow> fst x = fst y \<and> same_fs (snd x) (snd y)"

lemma sim_missing:
  "sim_view s p = None \<Longrightarrow> sim_append G p d s = (Inl (NotFound p), s)" "sim_view s p = None \<Longrightarrow> sim_write_at G p off d s = (Inl (NotFound p), s)"
  "sim_view s p = None \<Longrightarrow> sim_sync_file G p s = (Inl (NotFound p), s)" "sim_view s p = None \<Longrightarrow> sim_rename G p q s = (Inl (NotFound p), s)"
  "sim_view s p = None \<Longrightarrow> sim_delete G p s = (Inl (NotFound p), s)" "sim_view s p = None \<Longrightarrow> sim_read_at p off n s = Inl (NotFound p)"
  by (simp_all add: view_None_iff sim_append_def sim_write_at_def sim_sync_file_def sim_rename_def sim_delete_def sim_read_at_def)

lemma sim_write_at_ok:
  assumes "sim_ok s" and "sim_view s p = Some c"
  shows "\<exists>s'. sim_write_at G p off d s =
      (if length c < off + length d then (Inl (OutOfBounds p off (length c)), s) else (Inr (), s'))
    \<and> (off + length d \<le> length c \<longrightarrow> sim_ok s' \<and> sim_view s' = (sim_view s)(p \<mapsto> take off c @ d @ drop (off + length d) c))"
proof -
  have inv: "sim_inv s" and ca: "crash_after s = None" using assms by (auto simp: sim_ok_def)
  obtain i where i: "live_of s p = Some i" and c: "c = live (inode_at s i)" using assms(2) by (auto simp: sim_view_def)
  let ?n = "(inode_at s i)\<lparr>live := take off c @ d @ drop (off + length d) c\<rparr>"
  have w: "sim_write_at G p off d s =
      (if length c < off + length d then (Inl (OutOfBounds p off (length c)), s) else (Inr (), tick (with_inode i ?n s)))"
    using bump_tick [of "with_inode i ?n s" G] ca by (simp add: sim_write_at_def i c Let_def with_inode_def)
  have "sim_ok (tick (with_inode i ?n s)) \<and> sim_view (tick (with_inode i ?n s)) = (sim_view s)(p \<mapsto> take off c @ d @ drop (off + length d) c)"
    if "off + length d \<le> length c"
  proof -
    have "length (durable ?n) \<le> length (live ?n)" using durable_le_live [OF inv i] that by (simp add: c)
    then show ?thesis using with_inode_inv [OF inv i, of ?n] with_inode_view [OF inv i, of ?n] ca by (simp add: sim_ok_def)
  qed
  then show ?thesis using w by blast
qed

lemma same_facts:
  assumes same: "same_fs t s" and p: "plain t p"
  shows "os_ok t" "sim_ok s" "file_view t = sim_view s" "os_walk t p = None"
  "os_find t p = (case sim_view s p of None \<Rightarrow> Inl Enoent | Some c \<Rightarrow> Inr (Regular c))"
  "bt_get t p = map_option Regular (sim_view s p)"
proof -
  show t: "os_ok t" "sim_ok s" and v: "file_view t = sim_view s" using same by (simp_all add: same_fs_def)
  show "os_walk t p = None" using os_walk_plain [OF t(1)] p by (simp add: plain_def)
  show "os_find t p = (case sim_view s p of None \<Rightarrow> Inl Enoent | Some c \<Rightarrow> Inr (Regular c))"
    using os_find_plain [OF t(1) p] v by simp
  show "bt_get t p = map_option Regular (sim_view s p)"
    using p v [symmetric] by (cases "bt_get t p") (auto simp: plain_def file_view_def split: node.split node.splits)
qed

lemma open_write_same:
  assumes same: "same_fs t s" and p: "plain t p"
  shows "os_open_write t p = (case sim_view s p of None \<Rightarrow> Inl Enoent | Some c \<Rightarrow> Inr c)"
  using same_facts(5) [OF same p] by (simp add: os_open_write_def split: option.split)

lemma same_create:
  assumes same: "same_fs t s" and p: "plain t p"
  shows "agree (real_create healthy p t) (sim_create G p s)"
proof (cases "sim_view s p")
  case None
  from sim.fs_create [OF same_facts(2) [OF same p] None, of G] obtain s' where
    "sim_create G p s = (Inr (), s')" "sim_ok s'" "sim_view s' = (sim_view s)(p \<mapsto> [])" by (auto simp: sim_storage_def)
  then show ?thesis
    using None same_facts [OF same p] p by (auto simp: agree_def same_fs_def real_create_def os_ok_insert file_view_insert)
next
  case (Some c)
  have "sim_create G p s = (Inl (AlreadyExists p), s)"
    using sim.fs_create_exists [OF same_facts(2) [OF same p] Some, of G] by (simp add: sim_storage_def)
  then show ?thesis
    using Some same_facts [OF same p] by (auto simp: agree_def same_fs_def real_create_def map_io_def)
qed

lemma same_append:
  assumes same: "same_fs t s" and p: "plain t p"
  shows "agree (real_append healthy p d t) (sim_append G p d s)"
proof (cases "sim_view s p")
  case None
  then show ?thesis
    using same_facts [OF same p] by (auto simp: agree_def same_fs_def real_append_def open_write_same [OF same p] io_map_def map_io_def sim_missing)
next
  case (Some c)
  from sim.fs_append [OF same_facts(2) [OF same p] Some, of G d] obtain s' where
    "sim_append G p d s = (Inr (length c), s')" "sim_ok s'" "sim_view s' = (sim_view s)(p \<mapsto> c @ d)" by (auto simp: sim_storage_def)
  then show ?thesis
    using Some same_facts [OF same p] p
    by (auto simp: agree_def same_fs_def real_append_def open_write_same [OF same p] io_map_def os_ok_insert file_view_insert)
qed

lemma same_write_at:
  assumes same: "same_fs t s" and p: "plain t p"
  shows "agree (real_write_at healthy p off d t) (sim_write_at G p off d s)"
proof (cases "sim_view s p")
  case None
  then show ?thesis
    using same_facts [OF same p] by (auto simp: agree_def same_fs_def real_write_at_def open_write_same [OF same p] io_map_def map_io_def sim_missing)
next
  case (Some c)
  from sim_write_at_ok [OF same_facts(2) [OF same p] Some, of G off d] obtain s' where s': "sim_write_at G p off d s =
      (if length c < off + length d then (Inl (OutOfBounds p off (length c)), s) else (Inr (), s'))"
    "off + length d \<le> length c \<longrightarrow> sim_ok s' \<and> sim_view s' = (sim_view s)(p \<mapsto> take off c @ d @ drop (off + length d) c)" by blast
  show ?thesis
  proof (cases "length c < off + length d")
    case True
    then show ?thesis using Some same_facts [OF same p] s'(1)
      by (auto simp: agree_def same_fs_def real_write_at_def open_write_same [OF same p] io_map_def)
  next
    case False
    then show ?thesis using Some same_facts [OF same p] s' p
      by (auto simp: agree_def same_fs_def real_write_at_def open_write_same [OF same p] io_map_def os_ok_insert file_view_insert)
  qed
qed

lemma same_sync_file:
  assumes same: "same_fs t s" and p: "plain t p"
  shows "agree (real_sync_file healthy p t) (sim_sync_file G p s)"
proof (cases "sim_view s p")
  case None
  then show ?thesis
    using same_facts [OF same p] by (auto simp: agree_def same_fs_def real_sync_file_def open_write_same [OF same p] io_map_def map_io_def sim_missing)
next
  case (Some c)
  from sim.fs_sync_file [OF same_facts(2) [OF same p] Some, of G] obtain s' where
    "sim_sync_file G p s = (Inr (), s')" "sim_ok s'" "sim_view s' = sim_view s" by (auto simp: sim_storage_def)
  then show ?thesis
    using Some same_facts [OF same p] by (auto simp: agree_def same_fs_def real_sync_file_def open_write_same [OF same p] io_map_def)
qed

lemma same_delete:
  assumes same: "same_fs t s" and p: "plain t p"
  shows "agree (real_delete healthy p t) (sim_delete G p s)"
proof (cases "sim_view s p")
  case None
  then show ?thesis
    using same_facts [OF same p] by (auto simp: agree_def same_fs_def real_delete_def os_unlink_def io_map_def map_io_def sim_missing)
next
  case (Some c)
  from sim.fs_delete [OF same_facts(2) [OF same p] Some, of G] obtain s' where
    "sim_delete G p s = (Inr (), s')" "sim_ok s'" "sim_view s' = (sim_view s)(p := None)" by (auto simp: sim_storage_def)
  then show ?thesis
    using Some same_facts [OF same p] p
    by (auto simp: agree_def same_fs_def real_delete_def os_unlink_def io_map_def os_ok_retain file_view_retain plain_def)
qed

lemma same_rename:
  assumes same: "same_fs t s" and p: "plain t p" and q: "plain t q" "p \<noteq> q" "parent p = parent q"
  shows "agree (real_rename healthy p q t) (sim_rename G p q s)"
proof (cases "sim_view s p")
  case None
  then show ?thesis
    using same_facts [OF same p] by (auto simp: agree_def same_fs_def real_rename_def os_rename_def io_map_def map_io_def sim_missing)
next
  case (Some c)
  from sim.fs_rename [OF same_facts(2) [OF same p] Some q(2,3), of G] obtain s' where s':
    "sim_rename G p q s = (Inr (), s')" "sim_ok s'" "sim_view s' = (sim_view s)(p := None, q \<mapsto> c)" by (auto simp: sim_storage_def)
  have w: "os_walk t q = None" using os_walk_plain [OF same_facts(1) [OF same p]] q(1) by (simp add: plain_def)
  let ?t = "bt_retain (\<lambda>r _. r \<noteq> p) t"
  have t: "os_ok ?t" using os_ok_retain [OF same_facts(1) [OF same p]] p by (simp add: plain_def)
  have "plain ?t q" using q same_facts(1) [OF same p] p by (auto simp: plain_def bt_get_retain os_ok_def split: option.splits if_splits)
  then have "os_ok (bt_insert q (Regular c) ?t)" by (rule os_ok_insert [OF t])
  moreover have "file_view (bt_insert q (Regular c) ?t) = (sim_view s)(p := None, q \<mapsto> c)"
    using file_view_retain [OF same_facts(1) [OF same p], of p] same_facts(3) [OF same p] by (simp add: file_view_insert)
  moreover have "real_rename healthy p q t = (Inr (), bt_insert q (Regular c) ?t)"
    using Some same_facts(5) [OF same p] w q(1,2) by (simp add: real_rename_def os_rename_def io_map_def plain_def)
  ultimately show ?thesis using s' by (auto simp: agree_def same_fs_def)
qed

lemma same_queries:
  assumes same: "same_fs t s" and p: "plain t p"
  shows
  "real_open healthy p t = sim_open p s" "real_len healthy dlen p t = sim_len p s"
  "real_read_at healthy sh p off n t = (case sim_view s p of None \<Rightarrow> Inl (NotFound p) | Some c \<Rightarrow> Inr (take n (drop off c)))"
proof -
  show "real_open healthy p t = sim_open p s"
    using sim.fs_open [OF same_facts(2) [OF same p], where p = p] same_facts(5) [OF same p]
    by (simp add: real_open_def os_is_file_def os_exists_def sim_storage_def split: option.split)
  show "real_len healthy dlen p t = sim_len p s"
    using sim.fs_len [OF same_facts(2) [OF same p], where p = p] same_facts(5) [OF same p]
    by (simp add: real_len_def io_map_def map_io_def sim_storage_def split: option.split)
  show "real_read_at healthy sh p off n t = (case sim_view s p of None \<Rightarrow> Inl (NotFound p) | Some c \<Rightarrow> Inr (take n (drop off c)))"
  proof -
    have rf: "read_fill (\<lambda>_. None) sh c off n [] = Inr (take n (drop off c))" for c n by (simp add: read_fill_take)
    show ?thesis using same_facts(5) [OF same p] by (simp add: real_read_at_def io_map_def map_io_def rf split: option.split)
  qed
qed

lemma same_sync_dir:
  assumes "same_fs t s" and d: "bt_get t dir = Some Directory"
  shows "agree (real_sync_dir healthy dir t) (sim_sync_dir G dir s)"
proof -
  have t: "os_ok t" "sim_ok s" "file_view t = sim_view s" using assms(1) by (simp_all add: same_fs_def)
  from sim.fs_sync_dir [OF t(2), of G dir] obtain s' where
    "sim_sync_dir G dir s = (Inr (), s')" "sim_ok s'" "sim_view s' = sim_view s" by (auto simp: sim_storage_def)
  then show ?thesis using t os_find_dir [OF t(1) d] by (auto simp: agree_def same_fs_def real_sync_dir_def io_map_def)
qed

lemma same_list:
  assumes "same_fs t s" and d: "bt_get t dir = Some Directory"
  shows "real_list healthy dir t = sim_list dir s"
proof -
  have t: "os_ok t" "sim_ok s" "file_view t = sim_view s" using assms(1) by (simp_all add: same_fs_def)
  obtain ps where ps: "sim_list dir s = Inr ps" "sorted_wrt (<) ps" "set ps = {p. sim_view s p \<noteq> None \<and> parent p = Some dir}"
    using sim.fs_list [OF t(2), where dir = dir] by (auto simp: sim_storage_def)
  let ?qs = "filter (os_is_file t) (map fst (filter (\<lambda>(q, _). parent q = Some dir) t))"
  have bt: "bt_ok t" using t(1) by (simp add: os_ok_def)
  have "sorted_wrt (<) (map fst t)" using bt by (simp add: bt_ok_def)
  then have "sorted_wrt (<) ?qs" by (auto simp: sorted_wrt_map intro!: sorted_wrt_filter)
  then have qs: "sorted_wrt (<) ?qs" "sort ?qs = ?qs" by (auto simp: sorted_sort_id strict_sorted_iff)
  have "os_is_file t q \<longleftrightarrow> file_view t q \<noteq> None" if "parent q = Some dir" for q
  proof (cases "bt_get t q = Some Directory")
    case True
    then show ?thesis using os_find_dir [OF t(1)] by (simp add: os_is_file_def file_view_def)
  next
    case False
    then have "plain t q" using that d by (auto simp: plain_def parent_def split: if_splits)
    then show ?thesis using os_find_plain [OF t(1)] by (simp add: os_is_file_def split: option.split)
  qed
  moreover have "q \<in> fst ` set t" if "file_view t q \<noteq> None" for q
    using that bt_get_mem [OF bt, of q] by (force simp: file_view_def split: option.splits)
  ultimately have "set ?qs = {p. sim_view s p \<noteq> None \<and> parent p = Some dir}"
    unfolding t(3) [symmetric] by (auto simp: image_iff) force
  then have "?qs = ps" using qs(1) ps(2,3) by (intro strict_sorted_equal) simp_all
  then show ?thesis using ps(1) qs(2) os_find_dir [OF t(1) d] by (simp add: real_list_def io_map_def)
qed

text \<open>C11 (real_matches_sim): the simulator stands for the real backend. On a tree of files and a simulated
  state that show the same files, for paths in an existing directory that are not directories, every
  call gives the same result on both, errors included, and leaves them showing the same files, whatever
  short reads the system makes, as long as the machine itself does not fail (\<open>healthy\<close>). The one difference is a read that starts past the end of the file: the
  simulator refuses it, the real backend reads nothing.\<close>

theorem real_matches_sim:
  assumes same: "same_fs t s" and p: "plain t p" and q: "plain t q" "p \<noteq> q" "parent p = parent q" and dir: "bt_get t dir = Some Directory"
  shows "agree (real_create healthy p t) (sim_create G p s) \<and> real_open healthy p t = sim_open p s
    \<and> agree (real_append healthy p d t) (sim_append G p d s) \<and> agree (real_write_at healthy p off d t) (sim_write_at G p off d s)
    \<and> (case sim_view s p of None \<Rightarrow> real_read_at healthy sh p off n t = sim_read_at p off n s
        | Some c \<Rightarrow> if off \<le> length c then real_read_at healthy sh p off n t = sim_read_at p off n s
            else real_read_at healthy sh p off n t = Inr [] \<and> sim_read_at p off n s = Inl (OutOfBounds p off (length c)))
    \<and> agree (real_sync_file healthy p t) (sim_sync_file G p s) \<and> agree (real_sync_dir healthy dir t) (sim_sync_dir G dir s)
    \<and> agree (real_rename healthy p q t) (sim_rename G p q s) \<and> agree (real_delete healthy p t) (sim_delete G p s)
    \<and> real_list healthy dir t = sim_list dir s \<and> real_len healthy dlen p t = sim_len p s"
proof -
  have ok: "sim_ok s" using same by (simp add: same_fs_def)
  have "case sim_view s p of None \<Rightarrow> real_read_at healthy sh p off n t = sim_read_at p off n s
        | Some c \<Rightarrow> if off \<le> length c then real_read_at healthy sh p off n t = sim_read_at p off n s
            else real_read_at healthy sh p off n t = Inr [] \<and> sim_read_at p off n s = Inl (OutOfBounds p off (length c))"
  proof (cases "sim_view s p")
    case (Some c)
    then obtain i where i: "live_of s p = Some i" "c = live (inode_at s i)" by (auto simp: sim_view_def)
    then show ?thesis
      using Some same_queries(3) [OF same p, of sh off n] by (simp add: sim_read_at_def take_min_drop)
  qed (use same_queries(3) [OF same p] in \<open>simp add: sim_missing\<close>)
  then show ?thesis
    using same_create [OF same p] same_append [OF same p] same_write_at [OF same p] same_sync_file [OF same p]
      same_sync_dir [OF same dir] same_rename [OF same p q] same_delete [OF same p] same_list [OF same dir] same_queries(1,2) [OF same p]
    by blast
qed

definition demo_tree :: os_tree where
  "demo_tree = snd (real_create healthy [''db'', ''a''] [([], Directory), ([''db''], Directory)])"

definition demo_sim :: "nat sim_state" where
  "demo_sim = snd (sim_create first_choice [''db'', ''a''] (sim_new (\<lambda>_. 0) 0))"

lemma demo_same: "same_fs demo_tree demo_sim" "plain demo_tree [''db'', ''a'']" "plain demo_tree [''db'', ''b'']"
  "bt_get demo_tree [''db''] = Some Directory"
proof -
  let ?t = "[([], Directory), ([''db''], Directory)] :: os_tree" and ?s = "sim_new (\<lambda>_. 0 :: nat) 0"
  have t: "bt_get ?t p = (if p = [] \<or> p = [''db''] then Some Directory else None)" for p by (simp add: bt_get_def)
  have "os_ok ?t" unfolding os_ok_def t by (auto simp: bt_ok_def)
  moreover have "file_view ?t = sim_view ?s" by (rule ext) (simp add: file_view_def t sim_new_fresh(4))
  ultimately have "same_fs ?t ?s" using sim_new_fresh(1) by (simp add: same_fs_def)
  moreover have "plain ?t [''db'', ''a'']" by (simp add: plain_def t)
  ultimately have "agree (real_create healthy [''db'', ''a''] ?t) (sim_create first_choice [''db'', ''a''] ?s)" by (rule same_create)
  then show "same_fs demo_tree demo_sim" by (simp add: agree_def demo_tree_def demo_sim_def)
  have "demo_tree = bt_insert [''db'', ''a''] (Regular []) ?t"
    by (simp add: demo_tree_def real_create_def os_walk_def t del: bt_insert.simps)
  then have d: "bt_get demo_tree p = (if p = [''db'', ''a''] then Some (Regular []) else bt_get ?t p)" for p
    using bt_get_insert [of "[''db'', ''a'']" "Regular []" ?t p] by simp
  then show "plain demo_tree [''db'', ''a'']" "plain demo_tree [''db'', ''b'']" "bt_get demo_tree [''db''] = Some Directory"
    by (simp_all add: plain_def d t)
qed

theorem real_matches_sim_witness:
  "agree (real_append healthy [''db'', ''a''] [7] demo_tree) (sim_append first_choice [''db'', ''a''] [7] demo_sim)
    \<and> agree (real_rename healthy [''db'', ''a''] [''db'', ''b''] demo_tree) (sim_rename first_choice [''db'', ''a''] [''db'', ''b''] demo_sim)
    \<and> real_list healthy [''db''] demo_tree = sim_list [''db''] demo_sim"
  using real_matches_sim [OF demo_same(1,2,3) _ _ demo_same(4)] by (simp add: parent_def)

end
