(* ===== verification/Real_Tree.thy ===== *)
theory Real_Tree imports Real_Fs begin

text \<open>
  The real backend on arbitrary paths, those of directories and those that lead nowhere included: the
  tree stays a tree, and a failed call changes nothing.
\<close>

lemma os_below_append [simp]: "os_below d (d @ r)"
  by (simp add: os_below_def)

lemma os_belowE: "os_below d p \<Longrightarrow> (\<And>r. p = d @ r \<Longrightarrow> thesis) \<Longrightarrow> thesis"
  unfolding os_below_def by (metis append_take_drop_id)

lemma os_below_butlast: "os_below d (butlast p) \<Longrightarrow> os_below d p"
  by (erule os_belowE) (metis append_butlast_last_id append_assoc butlast.simps(1) os_below_append)

lemma os_below_length: "os_below d p \<Longrightarrow> length d \<le> length p"
  by (auto elim!: os_belowE)

lemma os_walk_parent: "os_walk t p = None \<Longrightarrow> p \<noteq> [] \<Longrightarrow> bt_get t (butlast p) = Some Directory"
  by (auto simp: os_walk_def filter_empty_conv butlast_conv_take split: list.splits)

lemma os_root: "os_ok t \<Longrightarrow> bt_get t q \<noteq> None \<Longrightarrow> q \<noteq> [] \<Longrightarrow> bt_get t [] = Some Directory"
  using os_okD [of t q] os_prefix [of t "butlast q" 0] by auto

lemma os_ok_touch:
  assumes "os_ok t" and "os_walk t p = None" and "bt_get t p \<noteq> Some Directory"
  shows "os_ok (bt_insert p (Regular c) t)"
proof (cases "p = []")
  case True
  then show ?thesis using assms(1,3) os_root [OF assms(1)] by (auto simp: os_ok_def)
next
  case False
  then show ?thesis using assms by (intro os_ok_insert) (simp_all add: plain_def os_walk_parent)
qed

lemma get_moved:
  assumes t: "bt_ok t"
  shows "bt_get (fold (\<lambda>(q, x). bt_insert (to @ drop (length from) q) x) (filter (\<lambda>(q, _). os_below from q) t)
      (bt_retain (\<lambda>q _. \<not> os_below from q) t)) k
    = (case (if os_below to k then bt_get t (from @ drop (length to) k) else None) of
        Some n \<Rightarrow> Some n | None \<Rightarrow> if os_below from k then None else bt_get t k)"
proof -
  let ?kvs = "map (\<lambda>(q, x). (to @ drop (length from) q, x)) (filter (\<lambda>(q, _). os_below from q) t)"
  have f: "fold (\<lambda>(q, x). bt_insert (to @ drop (length from) q) x) (filter (\<lambda>(q, _). os_below from q) t) m
      = fold (\<lambda>(k, v). bt_insert k v) ?kvs m" for m
    by (simp add: fold_map comp_def split_def)
  have d: "distinct (map fst t)" using t by (simp add: bt_ok_def strict_sorted_iff)
  have "inj_on (\<lambda>(q, x). to @ drop (length from) q) (set (filter (\<lambda>(q, _). os_below from q) t))"
  proof (rule inj_onI, clarsimp elim!: os_belowE)
    fix r x y assume "(from @ r, x) \<in> set t" "(from @ r, y) \<in> set t"
    then show "x = y" using bt_get_mem [OF t] by (metis option.inject)
  qed
  then have dk: "distinct (map fst ?kvs)" using d distinct_map by (auto simp: distinct_map comp_def split_def)
  have m: "map_of (rev ?kvs) k = Some n \<longleftrightarrow> os_below to k \<and> bt_get t (from @ drop (length to) k) = Some n" for n
  proof -
    have "map_of (rev ?kvs) k = Some n \<longleftrightarrow> (k, n) \<in> set ?kvs" using map_of_eq_Some_iff [of "rev ?kvs" k n] dk by (simp only: rev_map [symmetric] distinct_rev set_rev)
    also have "\<dots> \<longleftrightarrow> (\<exists>r. k = to @ r \<and> (from @ r, n) \<in> set t)" by (force elim!: os_belowE)
    finally show ?thesis using bt_get_mem [OF t] by (auto elim!: os_belowE)
  qed
  have "bt_ok (bt_retain (\<lambda>q _. \<not> os_below from q) t)" using t by simp
  then have "bt_get (fold (\<lambda>(k, v). bt_insert k v) ?kvs (bt_retain (\<lambda>q _. \<not> os_below from q) t)) k
    = (case map_of (rev ?kvs) k of Some v \<Rightarrow> Some v | None \<Rightarrow> bt_get (bt_retain (\<lambda>q _. \<not> os_below from q) t) k)"
    using bt.get_insert_all by blast
  also have "map_of (rev ?kvs) k = (if os_below to k then bt_get t (from @ drop (length to) k) else None)"
    using m by (cases "map_of (rev ?kvs) k") (force split: if_splits)+
  finally show ?thesis unfolding f by (auto simp: bt_get_retain [OF t] split: option.split)
qed

lemma os_ok_rename_dir:
  assumes t: "os_ok t" and fr: "bt_get t from = Some Directory" and w: "os_walk t to = None" and sep: "\<not> os_below from to"
    and free: "\<forall>q. os_below to q \<longrightarrow> bt_get t q \<noteq> None \<longrightarrow> q = to \<and> bt_get t to = Some Directory"
  shows "os_ok (fold (\<lambda>(q, x). bt_insert (to @ drop (length from) q) x) (filter (\<lambda>(q, _). os_below from q) t)
      (bt_retain (\<lambda>q _. \<not> os_below from q) t))" (is "os_ok ?t")
proof -
  have ok: "bt_ok t" using t by (simp add: os_ok_def)
  have "bt_ok (fold (\<lambda>(k, v). bt_insert k v) (kvs :: (path \<times> node) list) m)" if "bt_ok m" for kvs m
    using bt.get_insert_all [OF that] by blast
  from this [of "bt_retain (\<lambda>q _. \<not> os_below from q) t" "map (\<lambda>(q, x). (to @ drop (length from) q, x)) (filter (\<lambda>(q, _). os_below from q) t)"]
  have "bt_ok ?t" using ok by (simp add: fold_map comp_def split_def)
  moreover have "bt_get ?t (butlast k) = Some Directory" if k: "k \<noteq> []" "bt_get ?t k = Some n" for k n
  proof (cases "os_below to k \<and> bt_get t (from @ drop (length to) k) \<noteq> None")
    case True
    then obtain r n' where r: "k = to @ r" "bt_get t (from @ r) = Some n'" by (auto elim!: os_belowE)
    show ?thesis
    proof (cases r rule: rev_cases)
      case Nil
      then have "to \<noteq> []" using k(1) r(1) by simp
      then have "bt_get t (butlast to) = Some Directory" "\<not> os_below to (butlast to)"
        using os_walk_parent [OF w] os_below_length [of to "butlast to"] by (cases to; auto)+
      moreover have "\<not> os_below from (butlast to)" using sep os_below_butlast by blast
      ultimately show ?thesis using Nil r(1) by (simp add: get_moved [OF ok])
    next
      case (snoc r' x)
      then show ?thesis using os_okD [OF t r(2)] r(1) by (simp add: get_moved [OF ok] butlast_append)
    qed
  next
    case False
    then have k': "\<not> os_below from k" "bt_get t k = Some n"
      using k(2) by (auto simp: get_moved [OF ok] split: option.splits if_splits)
    then have b: "bt_get t (butlast k) = Some Directory" "\<not> os_below from (butlast k)"
      using os_okD [OF t] k(1) os_below_butlast by blast+
    have "\<not> os_below to (butlast k)"
    proof
      assume "os_below to (butlast k)"
      then have "os_below to k" "length to \<le> length (butlast k)" by (blast intro: os_below_butlast os_below_length)+
      then have "k = to" using free k'(2) by blast
      then show False using \<open>length to \<le> length (butlast k)\<close> k(1) by (cases k) auto
    qed
    then show ?thesis using b by (simp add: get_moved [OF ok])
  qed
  ultimately show ?thesis unfolding os_ok_def by blast
qed

lemma os_find_Inr: "os_find t p = Inr n \<longleftrightarrow> os_walk t p = None \<and> bt_get t p = Some n"
  by (auto simp: os_find_def split: option.split)

lemma os_open_write_Inr: "os_open_write t p = Inr c \<longleftrightarrow> os_walk t p = None \<and> bt_get t p = Some (Regular c)"
  by (auto simp: os_open_write_def os_find_Inr split: sum.splits node.splits) (auto simp: os_find_def split: option.splits)

lemma io_map_Inr: "io_map p r = Inr x \<longleftrightarrow> r = Inr x"
  by (cases r) (simp_all add: io_map_def)

lemma isl_io_map [simp]: "isl (io_map p r) \<longleftrightarrow> isl r"
  by (cases r) (simp_all add: io_map_def)

lemma open_fault_Inr: "io_map p (unless f (os_open_write t p)) = Inr c \<Longrightarrow> bt_get t p = Some (Regular c) \<and> os_walk t p = None"
  by (cases f) (auto simp: io_map_Inr os_open_write_Inr)

lemma real_write_ok:
  assumes t: "os_ok t"
  shows "os_ok (snd (real_create F p t))" "os_ok (snd (real_append F p d t))" "os_ok (snd (real_write_at F p off d t))"
    "snd (real_sync_file F p t) = t" "snd (real_sync_dir F p t) = t"
proof -
  have w: "os_ok (bt_insert p (Regular c') t)" if "bt_get t p = Some (Regular c) \<and> os_walk t p = None" for c c'
    using os_ok_touch [OF t, of p] that by simp
  show "os_ok (snd (real_create F p t))"
    using t os_ok_touch [OF t, of p] by (cases "ft_path F") (auto simp: real_create_def split: option.split)
  show "os_ok (snd (real_append F p d t))" "os_ok (snd (real_write_at F p off d t))"
    using t w by (auto simp: real_append_def real_write_at_def Let_def dest!: open_fault_Inr split: sum.split prod.split)
  show "snd (real_sync_file F p t) = t" "snd (real_sync_dir F p t) = t"
    by (simp_all add: real_sync_file_def real_sync_dir_def split: sum.split)
qed

lemma real_rename_ok:
  assumes t: "os_ok t"
  shows "os_ok (snd (real_rename F p q t))"
proof -
  have "os_ok (snd (os_rename t p q)) \<and> (isl (fst (os_rename t p q)) \<longrightarrow> snd (os_rename t p q) = t)"
  proof (cases "os_find t p = Inr Directory \<and> os_walk t q = None \<and> p \<noteq> q \<and> \<not> os_below p q
      \<and> \<not> (\<exists>(r, _)\<in>set t. os_below q r \<and> (r \<noteq> q \<or> bt_get t q \<noteq> Some Directory))")
    case True
    have "\<forall>r. os_below q r \<longrightarrow> bt_get t r \<noteq> None \<longrightarrow> r = q \<and> bt_get t q = Some Directory"
      using True t bt_get_mem [of t] by (fastforce simp: os_ok_def)
    moreover have "os_rename t p q = (Inr (), fold (\<lambda>(r, x). bt_insert (q @ drop (length p) r) x) (filter (\<lambda>(r, _). os_below p r) t)
        (bt_retain (\<lambda>r _. \<not> os_below p r) t))"
      using True by (simp add: os_rename_def)
    ultimately show ?thesis using os_ok_rename_dir [OF t, of p q] True by (simp add: os_find_Inr)
  next
    case False
    have f: "os_ok (bt_insert q (Regular c) (bt_retain (\<lambda>r _. r \<noteq> p) t))"
      if "os_find t p = Inr (Regular c)" "os_walk t q = None" "p \<noteq> q" "bt_get t q \<noteq> Some Directory" for c
    proof -
      have g: "bt_get t p = Some (Regular c)" using that(1) by (simp add: os_find_Inr)
      have "q \<noteq> []"
      proof
        assume "q = []"
        then show False using os_root [OF t, of p] g that(3,4) by simp
      qed
      then have "bt_get t (butlast q) = Some Directory" using os_walk_parent that(2) by blast
      then have "plain (bt_retain (\<lambda>r _. r \<noteq> p) t) q"
        using g that(3,4) \<open>q \<noteq> []\<close> t by (auto simp: plain_def os_ok_def bt_get_retain split: option.splits)
      then show ?thesis using os_ok_retain [OF t, of p] g by (intro os_ok_insert) simp_all
    qed
    show ?thesis using False f t by (auto simp: os_rename_def split: sum.splits option.splits node.splits)
  qed
  then show ?thesis using t by (cases "ft_path F") (auto simp: real_rename_def split: prod.split)
qed

lemma real_delete_ok: "os_ok t \<Longrightarrow> os_ok (snd (real_delete F p t))"
  using os_ok_retain [of t p]
  by (cases "ft_path F") (auto simp: real_delete_def os_unlink_def os_find_Inr split: sum.split node.split)

text \<open>Every call, whatever fails, leaves a tree of files and directories.\<close>

lemmas real_tree_ok = real_write_ok real_rename_ok real_delete_ok

end
