(* ===== verification/Real_Torn.thy ===== *)
theory Real_Torn imports Real_Tree begin

text \<open>
  A write that fails part way on the real backend (a full disk, an input or output error in
  \<open>real.rs\<close>), seen from the log (\<open>src/src/wal/mod.rs\<close>): the bytes that got through stay in the
  segment, and the log goes on behind them.
\<close>

text \<open>What a frame header promises is compared with the bytes that follow it.\<close>

lemma decode_header:
  assumes buf: "buf = pre @ u32_le (of_nat n) @ u32_le w @ rest" and off: "off = length pre"
    and n: "n < 2 ^ 32" and mem: "addressable buf"
  shows "n \<le> length rest \<Longrightarrow> crc (take n rest) \<noteq> w \<Longrightarrow> decode crc buf off = Inl BadCrc"
    and "length rest < n \<Longrightarrow> decode crc buf off = Inl Truncated"
proof -
  have l: "length buf = off + 8 + length rest" by (simp add: buf off)
  have "slice buf off (off + 4) = u32_le (of_nat n)"
    unfolding buf by (rule slice_mid) (simp_all add: off)
  then have s1: "unat (le_u32 (slice buf off (off + 4))) = n" using n by simp
  have s2: "slice buf (off + 4) (off + 8) = u32_le w"
    using slice_mid [of "off + 4" "pre @ u32_le (of_nat n)" "off + 8" "u32_le w" rest] by (simp add: buf off)
  have s3: "slice buf (off + 8) (off + 8 + n) = take n rest"
    by (simp add: slice_def buf off)
  have b: "off + 8 < 2 ^ 64" "n \<le> length rest \<Longrightarrow> off + 8 + n < 2 ^ 64" using mem l by (simp_all add: addressable_def)
  show "decode crc buf off = Inl BadCrc" if "n \<le> length rest" "crc (take n rest) \<noteq> w"
    using that s1 s2 s3 l b by (simp add: decode_def checked_add_def Let_def)
  show "decode crc buf off = Inl Truncated" if "length rest < n"
    using that s1 l b by (simp add: decode_def checked_add_def Let_def)
qed

lemma encode_torn: "8 \<le> m \<Longrightarrow> take m (encode crc x) = u32_le (of_nat (length x)) @ u32_le (crc x) @ take (m - 8) x"
  by (simp add: encode_def)

lemma scan_behind_torn:
  assumes rs: "records_ok rs" and x: "length x < 2 ^ 32" and m: "8 \<le> m"
    and mem: "addressable (frames crc rs @ take m (encode crc x) @ z)"
    and differ: "length x \<le> length (take (m - 8) x @ z) \<longrightarrow> crc (take (length x) (take (m - 8) x @ z)) \<noteq> crc x"
  shows "snd (scan_buffer crc (frames crc rs @ take m (encode crc x) @ z) []) = rs"
proof -
  let ?rest = "take m (encode crc x) @ z" and ?off = "length (frames crc rs)"
  have b: "frames crc rs @ ?rest = frames crc rs @ u32_le (of_nat (length x)) @ u32_le (crc x) @ take (m - 8) x @ z"
    by (simp only: encode_torn [OF m] append.assoc)
  have "decode crc (frames crc rs @ ?rest) ?off \<in> {Inl BadCrc, Inl Truncated}"
    using decode_header [OF b refl x mem, of crc] differ by (cases "length x \<le> length (take (m - 8) x @ z)") auto
  moreover have "take m (encode crc x) \<noteq> []" using m by (simp add: encode_def)
  ultimately show ?thesis
    using scan_frames [OF rs, of "[]" crc ?rest "[]"] mem
    by (auto simp: scan_buffer_def scan_from.simps [of crc "frames crc rs @ ?rest" ?off])
qed

text \<open>An append of the \<open>Always\<close> mode to the active segment, on the real backend.\<close>

lemma real_open_active: "bt_get t p = Some (Regular c) \<Longrightarrow> os_walk t p = None \<Longrightarrow> os_open_write t p = Inr c"
  by (simp add: os_open_write_Inr)

lemma always_append_fails:
  assumes "wal_durability cfg = Always" and "bt_get (wfs W) (seg_path (active W)) = Some (Regular c)" "os_walk (wfs W) (seg_path (active W)) = None"
    and "ft_path F = None" "ft_meta F = None" "ft_write F = Some (m, e)" "m < length (encode crc x)"
  shows "wal_append crc (real_storage F sh dlen) cfg x W
    = Some (Inl (map_io (seg_path (active W)) e), W\<lparr>wfs := bt_insert (seg_path (active W)) (Regular (c @ take m (encode crc x))) (wfs W)\<rparr>)"
  using assms real_open_active [OF assms(2,3)]
  by (simp add: wal_append_def commit_sync_now_def active_append_def on_fs_def segment_append_def real_storage_def real_append_def
      write_all_def io_map_def Let_def)

lemma always_append_succeeds:
  assumes "wal_durability cfg = Always" and "bt_get (wfs W) (seg_path (active W)) = Some (Regular c)" "os_walk (wfs W) (seg_path (active W)) = None"
    and "write_offset (active W) + length (encode crc y) < segment_size cfg"
  shows "\<exists>W'. wal_append crc (real_storage healthy sh dlen) cfg y W = Some (Inr (), W')
    \<and> wfs W' = bt_insert (seg_path (active W)) (Regular (c @ encode crc y)) (wfs W)"
proof -
  let ?p = "seg_path (active W)" and ?t = "bt_insert (seg_path (active W)) (Regular (c @ encode crc y)) (wfs W)"
  have "os_walk ?t ?p = None" using assms(3) by (simp add: os_walk_def filter_empty_conv split: list.splits if_splits)
  then have "os_open_write ?t ?p = Inr (c @ encode crc y)" by (simp add: os_open_write_Inr)
  then show ?thesis
    using assms real_open_active [OF assms(2,3)]
    by (simp add: wal_append_def commit_sync_now_def active_append_def active_sync_def on_fs_def segment_append_def segment_sync_def
        real_storage_def real_append_def real_sync_file_def maybe_rotate_def io_map_def Let_def)
qed

text \<open>C37 (torn_append_hides_later): let a log in the \<open>Always\<close> mode on the real backend hold the records
  \<open>rs\<close> in its segment, and let the write of a record \<open>x\<close> fail after \<open>m\<close> bytes, its header among them.
  The append reports the error, every other path is as it was, the segment holds the bytes that got
  through behind the frames of \<open>rs\<close>, and recovery still returns exactly \<open>rs\<close>. But the log does not
  take the torn bytes back: a later append, of any record \<open>y\<close> and on a machine that works again, is
  written behind them, synced and acknowledged, and recovery then returns \<open>rs\<close> without \<open>y\<close>, unless the
  bytes that follow the torn header happen to have the checksum of \<open>x\<close>. (With debug assertions the
  second append panics instead: the offset is not the expected one.)\<close>

theorem torn_append_hides_later:
  assumes t: "os_ok (wfs W)" and p: "p = seg_path (active W)" "plain (wfs W) p" "bt_get (wfs W) p = Some (Regular (frames crc rs))"
    and cfg: "wal_durability cfg = Always" "write_offset (active W) + length (encode crc y) < segment_size cfg"
    and fault: "ft_path F = None" "ft_meta F = None" "ft_write F = Some (m, e)" "8 \<le> m" "m < length (encode crc x)"
    and sizes: "records_ok rs" "length x < 2 ^ 32" "addressable (frames crc rs @ take m (encode crc x) @ encode crc y)"
    and differ: "length x \<le> length (take (m - 8) x @ encode crc y) \<longrightarrow> crc (take (length x) (take (m - 8) x @ encode crc y)) \<noteq> crc x"
  shows "\<exists>W1 W2.
      wal_append crc (real_storage F sh dlen) cfg x W = Some (Inl (map_io p e), W1)
    \<and> file_view (wfs W1) = (file_view (wfs W))(p \<mapsto> frames crc rs @ take m (encode crc x))
    \<and> scan_buffer crc (frames crc rs @ take m (encode crc x)) [] = ((length (frames crc rs), StopTruncated), rs)
    \<and> wal_append crc (real_storage healthy sh dlen) cfg y W1 = Some (Inr (), W2)
    \<and> file_view (wfs W2) = (file_view (wfs W))(p \<mapsto> frames crc rs @ take m (encode crc x) @ encode crc y)
    \<and> snd (scan_buffer crc (frames crc rs @ take m (encode crc x) @ encode crc y) []) = rs"
proof -
  let ?c1 = "frames crc rs @ take m (encode crc x)"
  let ?W1 = "W\<lparr>wfs := bt_insert p (Regular ?c1) (wfs W)\<rparr>"
  have w: "os_walk (wfs W) p = None" using os_walk_plain [OF t] p(2) by (simp add: plain_def)
  have t1: "os_ok (wfs ?W1)" "plain (wfs ?W1) p" using os_ok_insert [OF t p(2)] p(2) by (auto simp: plain_def dest: arg_cong [of _ _ length])
  have w1: "os_walk (wfs ?W1) p = None" using os_walk_plain [OF t1(1)] t1(2) by (simp add: plain_def)
  have a1: "wal_append crc (real_storage F sh dlen) cfg x W = Some (Inl (map_io p e), ?W1)"
    using always_append_fails [OF cfg(1) _ _ fault(1-3,5), of W "frames crc rs" sh dlen] p w by simp
  obtain W2 where a2: "wal_append crc (real_storage healthy sh dlen) cfg y ?W1 = Some (Inr (), W2)"
    "wfs W2 = bt_insert p (Regular (?c1 @ encode crc y)) (wfs ?W1)"
    using always_append_succeeds [OF cfg(1), of ?W1 ?c1 crc y sh dlen] p(1) w1 cfg(2) by auto
  have v: "file_view (bt_insert p (Regular c) u) = (file_view u)(p \<mapsto> c)" for c u by (rule ext) (simp add: file_view_def)
  have "addressable ?c1" using sizes(3) by (simp add: addressable_def)
  then have s1: "scan_buffer crc ?c1 [] = ((length (frames crc rs), StopTruncated), rs)"
    using scan_buffer_torn [OF sizes(1,2) _ fault(5), of "[]"] fault(4) by simp
  note s2 = scan_behind_torn [OF sizes(1,2) fault(4) sizes(3) differ]
  show ?thesis using a1 a2 s1 s2 by (intro exI [of _ ?W1] exI [of _ W2]) (simp add: v)
qed

text \<open>One record in the log, a write of a second one that stops after its header and one byte, and a
  third one that is acknowledged and lost.\<close>

definition add_crc :: crc where
  "add_crc b = sum_list (map ucast b)"

definition torn_demo :: "os_tree wal" where
  "torn_demo = \<lparr>wfs = bt_insert [''db'', ''a''] (Regular (frames add_crc [[1]])) demo_tree,
     active = \<lparr>seg_id = 1, seg_path = [''db'', ''a''], write_offset = 9\<rparr>, coord = default_coord\<rparr>"

definition full_disk :: faults where
  "full_disk = healthy\<lparr>ft_write := Some (9, Eother ''No space left on device'')\<rparr>"

theorem torn_append_hides_later_witness:
  "\<exists>W1 W2.
      wal_append add_crc (real_storage full_disk (\<lambda>_. 1) (\<lambda>_. 0)) \<lparr>wal_dir = [''db''], wal_durability = Always, segment_size = 100\<rparr> [5, 6] torn_demo
        = Some (Inl (map_io [''db'', ''a''] (Eother ''No space left on device'')), W1)
    \<and> file_view (wfs W1) = (file_view (wfs torn_demo))([''db'', ''a''] \<mapsto> frames add_crc [[1]] @ take 9 (encode add_crc [5, 6]))
    \<and> scan_buffer add_crc (frames add_crc [[1]] @ take 9 (encode add_crc [5, 6])) [] = ((length (frames add_crc [[1]]), StopTruncated), [[1]])
    \<and> wal_append add_crc (real_storage healthy (\<lambda>_. 1) (\<lambda>_. 0)) \<lparr>wal_dir = [''db''], wal_durability = Always, segment_size = 100\<rparr> [7] W1
        = Some (Inr (), W2)
    \<and> file_view (wfs W2) = (file_view (wfs torn_demo))([''db'', ''a''] \<mapsto>
        frames add_crc [[1]] @ take 9 (encode add_crc [5, 6]) @ encode add_crc [7])
    \<and> snd (scan_buffer add_crc (frames add_crc [[1]] @ take 9 (encode add_crc [5, 6]) @ encode add_crc [7]) []) = [[1]]"
proof (rule torn_append_hides_later)
  have t: "os_ok demo_tree" "plain demo_tree [''db'', ''a'']" using demo_same(1,2) by (simp_all add: same_fs_def)
  show "os_ok (wfs torn_demo)" "plain (wfs torn_demo) [''db'', ''a'']"
    using os_ok_insert [OF t] t(2) by (simp_all add: torn_demo_def plain_def)
  have "add_crc (take 2 (take 1 [5, 6] @ encode add_crc [7])) \<noteq> add_crc [5, 6]" by code_simp
  then show "length ([5, 6] :: bytes) \<le> length (take (9 - 8) [5, 6] @ encode add_crc [7]) \<longrightarrow>
      add_crc (take (length ([5, 6] :: bytes)) (take (9 - 8) [5, 6] @ encode add_crc [7])) \<noteq> add_crc [5, 6]" by simp
qed (simp_all add: torn_demo_def full_disk_def addressable_def)

end
