(* ===== verification/Db_Entry.thy ===== *)
theory Db_Entry imports Real_Fs Db begin

text \<open>
  The engine's two entry points (\<open>Db::open\<close> and \<open>Db::open_sim\<close> in \<open>src/src/db.rs\<close>): on the real
  filesystem the directory is made first, since the trait has no operation for that.
\<close>

definition io_text :: "io_error \<Rightarrow> string" where
  "io_text e = (case e of
     Enoent \<Rightarrow> ''No such file or directory (os error 2)'' | Eexist \<Rightarrow> ''File exists (os error 17)'' | Eother m \<Rightarrow> m)"

definition db_open_real ::
  "crc \<Rightarrow> faults \<Rightarrow> (nat \<Rightarrow> nat) \<Rightarrow> (path \<Rightarrow> nat) \<Rightarrow> path \<Rightarrow> options \<Rightarrow> os_tree \<Rightarrow> (db_error + os_tree db) \<times> os_tree" where
  "db_open_real crc F sh dlen dir opts t =
     (case os_mkdir_all dir t of
        (Inl e, t) \<Rightarrow> (Inl (Db_storage (Io dir (io_text e))), t)
      | (Inr _, t) \<Rightarrow> db_open crc (real_storage F sh dlen) dir opts t)"

definition db_open_sim :: "crc \<Rightarrow> 'r gen \<Rightarrow> (u64 \<Rightarrow> 'r) \<Rightarrow> u64 \<Rightarrow> path \<Rightarrow> options \<Rightarrow> (db_error + 'r sim_state db) \<times> 'r sim_state" where
  "db_open_sim crc G seeded seed dir opts = db_open crc (sim_storage G) dir opts (sim_new seeded seed)"

lemma db_open_real_ok:
  assumes same: "same_fs t s" and root: "bt_get t [] = Some Directory" and no: "\<forall>n. sim_view s (take n dir) = None"
  shows "\<exists>t'. db_open_real crc F sh dlen dir opts t = db_open crc (real_storage F sh dlen) dir opts t'
      \<and> same_fs t' s \<and> bt_get t' dir = Some Directory \<and> (\<forall>name. bt_get t (dir @ [name]) = None \<longrightarrow> plain t' (dir @ [name]))"
proof -
  have t: "os_ok t" "file_view t = sim_view s" using same by (simp_all add: same_fs_def)
  have "\<forall>n. file_view t (take n dir) = None" using no t(2) by simp
  from os_mkdir_all_ok [OF t(1) root this] obtain t' where
    "os_mkdir_all dir t = (Inr (), t')" "os_ok t'" "bt_get t' dir = Some Directory" "file_view t' = file_view t"
    "\<forall>q. bt_get t q \<noteq> None \<or> length dir < length q \<longrightarrow> bt_get t' q = bt_get t q" by blast
  then show ?thesis using same by (intro exI [of _ t']) (simp add: db_open_real_def same_fs_def plain_def)
qed

end
