(* ===== verification/Probe.thy ===== *)
theory Probe imports Real_Tree Bench_Main begin

text \<open>
  The script that times the syncs of a machine (\<open>src/scripts/fsync_probe.rs\<close>). What the machine does
  is a parameter: \<open>td i\<close> and \<open>ta i\<close> are the outcomes of the two syncs of round \<open>i\<close>, an error or the
  time taken, \<open>tw (2 * i)\<close> and \<open>tw (2 * i + 1)\<close> those of the two writes before them, \<open>None\<close> or an
  error after some of the bytes were written, and \<open>ty i\<close> that of the sync of the directory, \<open>None\<close>
  where it fails. The other calls act on the tree of \<open>Os_Tree\<close> and fail where it makes them fail.
  Printing and the rendering of a duration are left out; the script is built with optimisation, so
  that sums wrap.
\<close>

section \<open>Options\<close>

definition PROBE_BLOCK :: nat where "PROBE_BLOCK = 4096"
definition DEFAULT_ITERS :: nat where "DEFAULT_ITERS = 1000"
definition WARMUP :: nat where "WARMUP = 16"

record probe_config =
  pc_iters :: nat
  pc_dir :: path

text \<open>Exit with status 0 after the usage text, with status 2 after a message.\<close>

datatype probe_exit = Usage | Fail string

fun probe_flags :: "string list \<Rightarrow> probe_config \<Rightarrow> probe_exit + probe_config" where
  "probe_flags [] cfg = (if pc_iters cfg = 0 then Inl (Fail ''--iters must be > 0'') else Inr cfg)"
| "probe_flags (arg # args) cfg =
     (if arg = ''--iters'' then
        (case args of
           [] \<Rightarrow> Inl (Fail ''--iters needs a positive integer'')
         | v # args \<Rightarrow>
             (case parse_u64 v of
                None \<Rightarrow> Inl (Fail ''--iters needs a positive integer'')
              | Some n \<Rightarrow> probe_flags args (cfg\<lparr>pc_iters := unat n\<rparr>)))
      else if arg = ''--dir'' then
        (case args of [] \<Rightarrow> Inl (Fail ''--dir needs a path'') | v # args \<Rightarrow> probe_flags args (cfg\<lparr>pc_dir := path_new v\<rparr>))
      else if arg = ''-h'' \<or> arg = ''--help'' then Inl Usage
      else Inl (Fail (''unknown argument: '' @ arg)))"

definition probe_args :: "path \<Rightarrow> string list \<Rightarrow> probe_exit + probe_config" where
  "probe_args temp_dir args = probe_flags args \<lparr>pc_iters = DEFAULT_ITERS, pc_dir = temp_dir\<rparr>"

section \<open>Statistics\<close>

definition percentile :: "u64 list \<Rightarrow> frac \<Rightarrow> u64 \<times> u64 list" where
  "percentile xs pct =
     (if xs = [] then (0, xs)
      else let xs = sort xs;
               rank = f64_ceil (f64_mul (f64_div pct (100, 1)) (f64_of_nat (length xs)));
               idx = min (rank - 1) (length xs - 1)
           in (xs ! idx, xs))"

definition ops_per_sec :: "u64 \<Rightarrow> u64" where
  "ops_per_sec ns =
     (if ns = 0 then 0
      else let q = f64_div (1000000000, 1) (f64_of_nat (unat ns)) in of_nat (min (fst q div snd q) (2 ^ 64 - 1)))"

record probe_row =
  row_p50 :: u64
  row_p99 :: u64
  row_min :: u64
  row_max :: u64
  row_mean :: u64

definition probe_row_of :: "u64 list \<Rightarrow> probe_row option" where
  "probe_row_of xs =
     (if xs = [] then None
      else let (p50, xs) = percentile xs (50, 1); (p99, xs) = percentile xs (99, 1)
           in Some \<lparr>row_p50 = p50, row_p99 = p99, row_min = Min (set xs), row_max = Max (set xs),
                    row_mean = sum_list xs div of_nat (length xs)\<rparr>)"

section \<open>The measurements\<close>

definition probe_block :: bytes where "probe_block = replicate PROBE_BLOCK 0xA5"

text \<open>Writing \<open>m\<close> bytes of the block at the front, through a handle of the file.\<close>

definition write_front :: "nat \<Rightarrow> path \<Rightarrow> os_tree \<Rightarrow> os_tree" where
  "write_front m p t =
     (case bt_get t p of
        Some (Regular c) \<Rightarrow> bt_insert p (Regular (take m probe_block @ drop (min m PROBE_BLOCK) c)) t
      | _ \<Rightarrow> t)"

definition probe_write :: "(io_error \<times> nat) option \<Rightarrow> path \<Rightarrow> os_tree \<Rightarrow> (io_error + unit) \<times> os_tree" where
  "probe_write w p t =
     (case w of None \<Rightarrow> (Inr (), write_front PROBE_BLOCK p t) | Some (e, m) \<Rightarrow> (Inl e, write_front m p t))"

fun probe_file ::
  "(nat \<Rightarrow> io_error + u64) \<Rightarrow> (nat \<Rightarrow> io_error + u64) \<Rightarrow> (nat \<Rightarrow> (io_error \<times> nat) option) \<Rightarrow> path \<Rightarrow> nat list \<Rightarrow>
    u64 list \<times> u64 list \<Rightarrow> os_tree \<Rightarrow> (io_error + u64 list \<times> u64 list) \<times> os_tree" where
  "probe_file td ta tw p [] (data, all) t = (Inr (data, all), t)"
| "probe_file td ta tw p (i # is) (data, all) t =
     ok_then (probe_write (tw (2 * i)) p t) (\<lambda>_ t.
     ok_then (td i, t) (\<lambda>d_data t.
     ok_then (probe_write (tw (2 * i + 1)) p t) (\<lambda>_ t.
     ok_then (ta i, t) (\<lambda>d_all t.
       probe_file td ta tw p is (if WARMUP \<le> i then (data @ [d_data], all @ [d_all]) else (data, all)) t))))"

definition os_write_file :: "path \<Rightarrow> bytes \<Rightarrow> os_tree \<Rightarrow> (io_error + unit) \<times> os_tree" where
  "os_write_file p c t = ok_then (os_open_truncate p t) (\<lambda>_ t. (Inr (), bt_insert p (Regular c) t))"

definition probe_tmp :: "path \<Rightarrow> nat \<Rightarrow> path" where "probe_tmp sub i = sub @ [''t'' @ dec i @ ''.tmp'']"
definition probe_dst :: "path \<Rightarrow> nat \<Rightarrow> path" where "probe_dst sub i = sub @ [''f'' @ dec i]"

fun probe_renames ::
  "(nat \<Rightarrow> u64 option) \<Rightarrow> path \<Rightarrow> nat list \<Rightarrow> u64 list \<Rightarrow> os_tree \<Rightarrow> (io_error + u64 list option) \<times> os_tree" where
  "probe_renames ty sub [] got t = (Inr (Some got), t)"
| "probe_renames ty sub (i # is) got t =
     ok_then (os_write_file (probe_tmp sub i) [0x78] t) (\<lambda>_ t.
     ok_then (os_rename t (probe_tmp sub i) (probe_dst sub i)) (\<lambda>_ t.
       case (case os_find t sub of Inl _ \<Rightarrow> None | Inr _ \<Rightarrow> ty i) of
         None \<Rightarrow> (Inr None, snd (os_remove_dir_all sub t))
       | Some ns \<Rightarrow> probe_renames ty sub is (if WARMUP \<le> i then got @ [ns] else got) t))"

definition probe_dir_fsync :: "(nat \<Rightarrow> u64 option) \<Rightarrow> path \<Rightarrow> nat \<Rightarrow> nat \<Rightarrow> os_tree \<Rightarrow> (io_error + u64 list option) \<times> os_tree" where
  "probe_dir_fsync ty dir nonce iters t =
     (let sub = dir @ [''accretion_fsync_probe_dir_'' @ dec nonce]
      in ok_then (os_mkdir_all sub t) (\<lambda>_ t.
         ok_then (probe_renames ty sub [0..<iters + WARMUP] [] t) (\<lambda>r t.
           case r of
             None \<Rightarrow> (Inr None, t)
           | Some got \<Rightarrow> (Inr (if got = [] then None else Some got), snd (os_remove_dir_all sub t)))))"

record probe_report =
  rp_data :: "probe_row option"
  rp_all :: "probe_row option"
  rp_dir :: "probe_row option"
  rp_p50 :: u64
  rp_p99 :: u64
  rp_ceiling :: u64

definition probe_path :: "path \<Rightarrow> nat \<Rightarrow> path" where
  "probe_path dir nonce = dir @ [''accretion_fsync_probe_'' @ dec nonce @ ''.dat'']"

text \<open>The two nonces are read off the clock.\<close>

definition probe_run ::
  "(nat \<Rightarrow> io_error + u64) \<Rightarrow> (nat \<Rightarrow> io_error + u64) \<Rightarrow> (nat \<Rightarrow> (io_error \<times> nat) option) \<Rightarrow> (nat \<Rightarrow> u64 option) \<Rightarrow>
    nat \<Rightarrow> nat \<Rightarrow> probe_config \<Rightarrow> os_tree \<Rightarrow> (io_error + probe_report) \<times> os_tree" where
  "probe_run td ta tw ty nonce nonce' cfg t =
     (let p = probe_path (pc_dir cfg) nonce
      in ok_then (os_open_truncate p t) (\<lambda>_ t.
         ok_then (probe_file td ta tw p [0..<pc_iters cfg + WARMUP] ([], []) t) (\<lambda>(data, all) t.
         ok_then (probe_dir_fsync ty (pc_dir cfg) nonce' (pc_iters cfg) t) (\<lambda>dirs t.
              (Inr \<lparr>rp_data = probe_row_of data, rp_all = probe_row_of all,
                    rp_dir = (case dirs of None \<Rightarrow> None | Some xs \<Rightarrow> probe_row_of xs),
                    rp_p50 = fst (percentile data (50, 1)), rp_p99 = fst (percentile data (99, 1)),
                    rp_ceiling = ops_per_sec (fst (percentile data (50, 1)))\<rparr>,
               snd (os_unlink t p))))))"

section \<open>The percentiles of the benchmark\<close>

lemma pct_quotients: "f64_div (50, 1) (100, 1) = (2 ^ 52, 2 ^ 53)" "f64_div (99, 1) (100, 1) = P99"
proof -
  have bl: "bit_length 50 = 6" "bit_length 100 = 7" "bit_length 99 = 7" by (simp_all add: bit_length.simps)
  show "f64_div (50, 1) (100, 1) = (2 ^ 52, 2 ^ 53)" "f64_div (99, 1) (100, 1) = P99"
    by (simp_all add: f64_div_def f64_round_def f64_shift_def scaled_def div_even_def bl Let_def P99_def)
qed

lemma percentile_nearest_rank:
  assumes "xs \<noteq> []" and "f64_div pct (100, 1) = q" and "f64_clamp01 q = q"
  shows "fst (percentile xs pct) = sort xs ! nearest_rank q (length xs)"
proof -
  have "min (r - 1) (n - 1) = min (max r 1) n - 1" if "0 < n" for r n :: nat
    using that by (cases r; cases n) (simp_all add: min_def max_def)
  then show ?thesis using assms by (simp add: percentile_def nearest_rank_def Let_def)
qed

text \<open>The script and the benchmark read the same quantiles off the same samples.\<close>

lemma percentile_quantile:
  assumes xs: "xs \<noteq> []" "length xs < 2 ^ 45" and h: "hist_ok h" "samples h = xs"
  shows "fst (percentile xs (50, 1)) = fst (quantile P50 h)" "fst (percentile xs (99, 1)) = fst (quantile P99 h)"
proof -
  let ?n = "length xs"
  have n: "0 < ?n" using xs(1) by simp
  have q: "fst (quantile q h) = sort xs ! nearest_rank q ?n" for q
    using xs(1) h ensure_sorted_samples [OF h(1)] by (simp add: quantile_def Let_def)
  define c e where "c = (?n + 1) div 2 - 1" and "e = ?n - 2 * c"
  have "2 * c < ?n" "?n \<le> 2 * Suc c" using rank_bounds(2,3) [OF n] by (simp_all add: c_def)
  then have ce: "?n = 2 * c + e" "0 < e" "e \<le> 2" by (simp_all add: e_def)
  have "nearest_rank (2 ^ 52, 2 ^ 53) ?n = c"
    using n xs(2) ce by (intro rank_exact) (simp_all add: f64_clamp01_def algebra_simps)
  then show "fst (percentile xs (50, 1)) = fst (quantile P50 h)"
    using percentile_nearest_rank [OF xs(1) pct_quotients(1)] q nearest_rank_P50 [OF n xs(2)] by (simp add: f64_clamp01_def c_def)
  show "fst (percentile xs (99, 1)) = fst (quantile P99 h)"
    using percentile_nearest_rank [OF xs(1) pct_quotients(2)] q by (simp add: f64_clamp01_def P99_def)
qed

section \<open>The files\<close>

lemma os_eqI: "bt_ok t \<Longrightarrow> bt_ok u \<Longrightarrow> bt_get t = bt_get u \<Longrightarrow> t = u"
  using bt.entries_eqI [of t u] by simp

text \<open>The errors of the first phase in the order in which the script would meet them.\<close>

definition fault_of :: "io_error + 'a \<Rightarrow> io_error option" where
  "fault_of r = (case r of Inl e \<Rightarrow> Some e | Inr _ \<Rightarrow> None)"

fun first_fault ::
  "(nat \<Rightarrow> io_error + u64) \<Rightarrow> (nat \<Rightarrow> io_error + u64) \<Rightarrow> (nat \<Rightarrow> (io_error \<times> nat) option) \<Rightarrow> nat list \<Rightarrow> io_error option" where
  "first_fault td ta tw [] = None"
| "first_fault td ta tw (i # is) =
     (case filter (\<lambda>x. x \<noteq> None) [map_option fst (tw (2 * i)), fault_of (td i), map_option fst (tw (2 * i + 1)), fault_of (ta i)] of
        [] \<Rightarrow> first_fault td ta tw is
      | x # _ \<Rightarrow> x)"

text \<open>The probe file in the tree, holding \<open>c\<close>.\<close>

abbreviation probing :: "path \<Rightarrow> bytes \<Rightarrow> os_tree \<Rightarrow> os_tree" where
  "probing p c t \<equiv> bt_insert p (Regular c) t"

lemma length_probe_block [simp]: "length probe_block = PROBE_BLOCK"
  by (simp add: probe_block_def)

lemma probing_twice: "bt_ok t \<Longrightarrow> probing p c (probing p b t) = probing p c t"
  by (rule os_eqI) auto

lemma write_front_block [simp]: "bt_ok t \<Longrightarrow> write_front m p (probing p probe_block t) = probing p probe_block t"
proof -
  have "take m probe_block @ drop (min m PROBE_BLOCK) probe_block = probe_block"
    by (cases "m \<le> PROBE_BLOCK") (simp_all add: min_def)
  then show "bt_ok t \<Longrightarrow> ?thesis" by (simp add: write_front_def probing_twice)
qed

lemma write_front_empty:
  "bt_ok t \<Longrightarrow> write_front m p (probing p [] t) = probing p (take m probe_block) t"
  by (simp add: write_front_def probing_twice)

text \<open>Once the block is in the file it stays: every later write puts the same bytes there.\<close>

lemma probe_file_block:
  assumes t: "bt_ok t"
  shows "probe_file td ta tw p is (data, all) (probing p probe_block t) =
    ((case first_fault td ta tw is of
        Some e \<Rightarrow> Inl e
      | None \<Rightarrow> Inr (data @ map (projr \<circ> td) (filter ((\<le>) WARMUP) is), all @ map (projr \<circ> ta) (filter ((\<le>) WARMUP) is))),
     probing p probe_block t)"
proof (induction "is" arbitrary: data all)
  case (Cons i "is")
  then show ?case
    using t by (auto simp: probe_write_def fault_of_def split: option.split sum.split)
qed simp

lemma probe_file_start:
  assumes t: "bt_ok t" and n: "0 < n"
  shows "probe_file td ta tw p [0..<n] ([], []) (probing p [] t) =
    ((case first_fault td ta tw [0..<n] of
        Some e \<Rightarrow> Inl e
      | None \<Rightarrow> Inr (map (projr \<circ> td) (filter ((\<le>) WARMUP) [0..<n]), map (projr \<circ> ta) (filter ((\<le>) WARMUP) [0..<n]))),
     probing p (case tw 0 of None \<Rightarrow> probe_block | Some (e, m) \<Rightarrow> take m probe_block) t)"
proof (cases "tw 0")
  case None
  have "probe_file td ta tw p [0..<n] ([], []) (probing p [] t) = probe_file td ta tw p [0..<n] ([], []) (probing p probe_block t)"
    using n None t by (simp add: upt_conv_Cons probe_write_def write_front_empty)
  then show ?thesis using probe_file_block [OF t, of td ta tw p "[0..<n]" "[]" "[]"] None by (simp split: option.split)
next
  case (Some w)
  then show ?thesis
    using n t by (cases w) (simp add: upt_conv_Cons probe_write_def write_front_empty)
qed

lemma warm_filter: "filter ((\<le>) WARMUP) [0..<n + WARMUP] = [WARMUP..<n + WARMUP]"
proof -
  have "[0..<n + WARMUP] = [0..<WARMUP] @ [WARMUP..<n + WARMUP]"
    using upt_add_eq_append [of 0 WARMUP n] by (simp add: add.commute)
  then show ?thesis by (simp add: filter_empty_conv filter_id_conv)
qed

text \<open>Only the directory \<open>sub\<close> and files in it differ.\<close>

definition below_changed :: "path \<Rightarrow> os_tree \<Rightarrow> os_tree \<Rightarrow> bool" where
  "below_changed sub t u \<longleftrightarrow> os_ok u \<and> (\<forall>q. \<not> os_below sub q \<longrightarrow> bt_get u q = bt_get t q) \<and> bt_get u sub = Some Directory
     \<and> (\<forall>q. os_below sub q \<longrightarrow> q \<noteq> sub \<longrightarrow> bt_get u q \<noteq> Some Directory)"

lemma below_plain: "below_changed sub t u \<Longrightarrow> plain u (sub @ [name])"
  by (auto simp: below_changed_def plain_def)

lemma below_insert: "below_changed sub t u \<Longrightarrow> below_changed sub t (bt_insert (sub @ [name]) (Regular c) u)"
  using os_ok_insert [OF _ below_plain, of u sub t name c] by (auto simp: below_changed_def)

lemma below_retain: "below_changed sub t u \<Longrightarrow> below_changed sub t (bt_retain (\<lambda>q _. q \<noteq> sub @ [name]) u)"
proof -
  assume u: "below_changed sub t u"
  then have "bt_ok u" by (simp add: below_changed_def os_ok_def)
  then show ?thesis
    using u os_ok_retain [of u "sub @ [name]"] by (auto simp: below_changed_def bt_get_retain split: option.split)
qed

lemma os_write_file_plain: "os_ok u \<Longrightarrow> plain u p \<Longrightarrow> os_write_file p c u = (Inr (), bt_insert p (Regular c) (bt_insert p (Regular []) u))"
  using os_walk_plain [of u p] by (simp add: os_write_file_def os_open_truncate_def plain_def)

lemma os_rename_plain:
  assumes "os_ok u" and "plain u p" and "plain u q" and "p \<noteq> q" and "bt_get u p = Some (Regular c)"
  shows "os_rename u p q = (Inr (), bt_insert q (Regular c) (bt_retain (\<lambda>r _. r \<noteq> p) u))"
  using assms os_walk_plain [OF assms(1)] by (auto simp: os_rename_def os_find_def plain_def)

lemma fresh_below:
  assumes t: "os_ok t" and fresh: "bt_get t sub = None" and b: "os_below sub q"
  shows "bt_get t q = None"
proof (rule ccontr)
  assume "bt_get t q \<noteq> None"
  then obtain n where n: "bt_get t q = Some n" by auto
  obtain r where r: "q = sub @ r" using b by (auto elim: os_belowE)
  then have ne: "r \<noteq> []" "q \<noteq> []" using n fresh by auto
  have "bt_get t (butlast q) = Some Directory" by (rule os_okD [OF t n ne(2)])
  from os_prefix [OF t this, of "length sub"] show False using fresh r ne(1) by (simp add: butlast_append)
qed

lemma remove_below:
  assumes t: "os_ok t" and u: "below_changed sub t u" and fresh: "bt_get t sub = None"
  shows "snd (os_remove_dir_all sub u) = t"
proof -
  have ok: "bt_ok u" "bt_ok t" using u t by (simp_all add: below_changed_def os_ok_def)
  have "bt_get (bt_retain (\<lambda>q _. \<not> os_below sub q) u) q = bt_get t q" for q
    using u fresh_below [OF t fresh, of q]
    by (cases "os_below sub q") (auto simp: bt_get_retain [OF ok(1)] below_changed_def split: option.split)
  then have "bt_retain (\<lambda>q _. \<not> os_below sub q) u = t" using ok by (intro os_eqI ext) simp_all
  moreover have "os_find u sub = Inr Directory" using u os_find_dir by (simp add: below_changed_def)
  ultimately show ?thesis by (simp add: os_remove_dir_all_def)
qed

lemma probe_renames_ok:
  assumes t: "os_ok t" and fresh: "bt_get t sub = None"
  shows "below_changed sub t u \<Longrightarrow>
    if list_all (\<lambda>i. ty i \<noteq> None) is
    then \<exists>u'. probe_renames ty sub is got u = (Inr (Some (got @ map (the \<circ> ty) (filter ((\<le>) WARMUP) is))), u') \<and> below_changed sub t u'
    else probe_renames ty sub is got u = (Inr None, t)"
proof (induction "is" arbitrary: got u)
  case (Cons i "is")
  let ?p = "probe_tmp sub i" and ?q = "probe_dst sub i"
  define u1 where "u1 = bt_insert ?p (Regular [0x78]) (bt_insert ?p (Regular []) u)"
  define u2 where "u2 = bt_insert ?q (Regular [0x78]) (bt_retain (\<lambda>r _. r \<noteq> ?p) u1)"
  have b1: "below_changed sub t u1" using Cons.prems by (simp add: u1_def probe_tmp_def below_insert)
  have b2: "below_changed sub t u2" using b1 by (simp add: u2_def probe_tmp_def probe_dst_def below_insert below_retain)
  have "os_ok u" "os_ok u1" "os_ok u2" using Cons.prems b1 b2 by (simp_all add: below_changed_def)
  moreover have "plain u ?p" "plain u1 ?p" "plain u1 ?q" "?p \<noteq> ?q"
    using below_plain [OF Cons.prems] below_plain [OF b1] by (simp_all add: probe_tmp_def probe_dst_def)
  ultimately have "os_write_file ?p [0x78] u = (Inr (), u1)" "os_rename u1 ?p ?q = (Inr (), u2)" "os_find u2 sub = Inr Directory"
    using os_find_dir [of u2 sub] b2 by (simp_all add: os_write_file_plain os_rename_plain [where c = "[0x78]"] u1_def u2_def below_changed_def)
  then show ?case
    using Cons.IH [OF b2, of got] Cons.IH [OF b2, of "got @ [the (ty i)]"] remove_below [OF t b2 fresh]
    by (cases "ty i"; cases "WARMUP \<le> i") (simp_all split: if_splits)
qed simp

lemma probe_dir_fsync_ok:
  assumes t: "os_ok t" and d: "bt_get t dir = Some Directory"
    and fresh: "bt_get t (dir @ [''accretion_fsync_probe_dir_'' @ dec nonce]) = None"
    and n: "0 < iters"
  shows "probe_dir_fsync ty dir nonce iters t =
    (Inr (if list_all (\<lambda>i. ty i \<noteq> None) [0..<iters + WARMUP] then Some (map (the \<circ> ty) [WARMUP..<iters + WARMUP]) else None), t)"
proof -
  let ?sub = "dir @ [''accretion_fsync_probe_dir_'' @ dec nonce]"
  have mk: "os_mkdir_all ?sub t = (Inr (), bt_insert ?sub Directory t)"
    using os_mkdir_fresh [OF t _ fresh] d by (simp add: os_mkdir_all.simps)
  have "os_below ?sub ?sub" using os_below_append [of ?sub "[]"] by simp
  then have "below_changed ?sub t (bt_insert ?sub Directory t)"
    using fresh_below [OF t fresh] os_ok_mkdir [OF t, of ?sub] d unfolding below_changed_def by auto
  from probe_renames_ok [OF t fresh this, of ty "[0..<iters + WARMUP]" "[]"] show ?thesis
    using mk remove_below [OF t _ fresh] n by (auto simp: probe_dir_fsync_def Let_def warm_filter split: if_splits)
qed

text \<open>C39 (probe_measures): started in a directory in which its files are not there. If a write or a sync
  of the probe file fails, the first such error is the result, and the probe file stays behind with
  the block in it (or the part of it that the first write got through). Otherwise the script leaves
  the directory as it found it, also where the sync of a directory is not supported; its three rows
  are the statistics of exactly the syncs after the warm-up, as many as were asked for, and the row
  of the directory is missing exactly when one of its syncs fails, during the warm-up or after it;
  and its p50, p99 and ceiling come from the quantiles that the histogram of the benchmark reports
  for the samples of the first row.\<close>

theorem probe_measures:
  assumes t: "os_ok t" "bt_get t (pc_dir cfg) = Some Directory"
    and fresh: "bt_get t (probe_path (pc_dir cfg) nonce) = None" "bt_get t (pc_dir cfg @ [''accretion_fsync_probe_dir_'' @ dec nonce']) = None"
    and iters: "0 < pc_iters cfg" "pc_iters cfg < 2 ^ 45" and n: "n = pc_iters cfg + WARMUP"
    and h: "samples h = map (projr \<circ> td) [WARMUP..<n]" "is_sorted h = False"
  shows "(case first_fault td ta tw [0..<n] of
      Some e \<Rightarrow> probe_run td ta tw ty nonce nonce' cfg t =
        (Inl e, bt_insert (probe_path (pc_dir cfg) nonce)
                  (Regular (case tw 0 of None \<Rightarrow> probe_block | Some (_, m) \<Rightarrow> take m probe_block)) t)
    | None \<Rightarrow> (\<exists>rep. probe_run td ta tw ty nonce nonce' cfg t = (Inr rep, t)
        \<and> rp_data rep = probe_row_of (map (projr \<circ> td) [WARMUP..<n])
        \<and> rp_all rep = probe_row_of (map (projr \<circ> ta) [WARMUP..<n])
        \<and> rp_dir rep = (if list_all (\<lambda>i. ty i \<noteq> None) [0..<n] then probe_row_of (map (the \<circ> ty) [WARMUP..<n]) else None)
        \<and> rp_p50 rep = fst (quantile P50 h) \<and> rp_p99 rep = fst (quantile P99 h)
        \<and> rp_ceiling rep = ops_per_sec (fst (quantile P50 h))))"
proof -
  let ?p = "probe_path (pc_dir cfg) nonce" and ?sub = "pc_dir cfg @ [''accretion_fsync_probe_dir_'' @ dec nonce']"
  let ?c = "case tw 0 of None \<Rightarrow> probe_block | Some (e, m) \<Rightarrow> take m probe_block"
  have bt: "bt_ok t" using t(1) by (simp add: os_ok_def)
  have p: "plain t ?p" using t fresh(1) by (simp add: plain_def probe_path_def)
  have o: "os_open_truncate ?p t = (Inr (), probing ?p [] t)"
    using os_walk_plain [OF t(1)] p by (simp add: os_open_truncate_def plain_def)
  note pf = probe_file_start [OF bt, of n td ta tw ?p]
  show ?thesis
  proof (cases "first_fault td ta tw [0..<n]")
    case (Some e)
    then show ?thesis using o pf n iters(1) by (simp add: probe_run_def Let_def)
  next
    case None
    have ne: "?p \<noteq> ?sub" "?p \<noteq> pc_dir cfg"
    proof -
      have "list_all is_digit (dec nonce)" by (rule dec_digits)
      then have "hd (dec nonce) \<noteq> CHR ''d''" by (cases "dec nonce") (auto simp: is_digit_def)
      then show "?p \<noteq> ?sub" by (cases "dec nonce") (auto simp: probe_path_def)
      show "?p \<noteq> pc_dir cfg" by (simp add: probe_path_def)
    qed
    let ?t2 = "probing ?p ?c t"
    have ok2: "os_ok ?t2" "bt_get ?t2 (pc_dir cfg) = Some Directory" "bt_get ?t2 ?sub = None"
      using os_ok_insert [OF t(1) p] t(2) fresh(2) ne bt by simp_all
    note r = probe_dir_fsync_ok [OF ok2 iters(1), of ty]
    have un: "snd (os_unlink ?t2 ?p) = t"
    proof -
      have "plain ?t2 ?p" using ok2(2) bt by (simp add: plain_def probe_path_def)
      then have "os_find ?t2 ?p = Inr (Regular ?c)" using os_find_plain [OF ok2(1)] bt by (simp add: file_view_def)
      moreover have "bt_retain (\<lambda>q _. q \<noteq> ?p) ?t2 = t"
        using bt fresh(1) by (intro os_eqI ext) (auto simp: bt_get_retain split: option.split)
      ultimately show ?thesis by (simp add: os_unlink_def)
    qed
    have d: "samples h \<noteq> []" "length (samples h) < 2 ^ 45" using n iters h(1) by simp_all
    have "hist_ok h" using h by (simp add: hist_ok_def)
    note q = percentile_quantile [OF d this refl]
    show ?thesis
      using o pf None r un q n iters(1) h(1) by (simp add: probe_run_def Let_def warm_filter)
  qed
qed

theorem probe_measures_witness:
  "(\<exists>rep. probe_run (\<lambda>i. Inr (of_nat (1000 + i))) (\<lambda>i. Inr (of_nat (2000 + i))) (\<lambda>_. None) (\<lambda>i. Some (of_nat (3000 + i))) 1 2
        \<lparr>pc_iters = 3, pc_dir = [''tmp'']\<rparr> [([], Directory), ([''tmp''], Directory)] = (Inr rep, [([], Directory), ([''tmp''], Directory)])
      \<and> rp_data rep = probe_row_of [1016, 1017, 1018] \<and> rp_all rep = probe_row_of [2016, 2017, 2018]
      \<and> rp_dir rep = probe_row_of [3016, 3017, 3018]
      \<and> rp_p50 rep = fst (quantile P50 \<lparr>samples = [1016, 1017, 1018], is_sorted = False\<rparr>)
      \<and> rp_p99 rep = fst (quantile P99 \<lparr>samples = [1016, 1017, 1018], is_sorted = False\<rparr>)
      \<and> rp_ceiling rep = ops_per_sec (fst (quantile P50 \<lparr>samples = [1016, 1017, 1018], is_sorted = False\<rparr>)))
   \<and> probe_run (\<lambda>i. if i = 2 then Inl (Eother ''io'') else Inr 5) (\<lambda>i. Inr 6) (\<lambda>_. None) (\<lambda>_. None) 1 2
        \<lparr>pc_iters = 3, pc_dir = [''tmp'']\<rparr> [([], Directory), ([''tmp''], Directory)]
      = (Inl (Eother ''io''), bt_insert (probe_path [''tmp''] 1) (Regular probe_block) [([], Directory), ([''tmp''], Directory)])"
proof -
  let ?t = "[([], Directory), ([''tmp''], Directory)] :: os_tree" and ?td = "\<lambda>i. if i = 2 then Inl (Eother ''io'') else Inr (5 :: u64)"
    and ?cfg = "\<lparr>pc_iters = 3, pc_dir = [''tmp'']\<rparr>"
  have t: "bt_get ?t p = (if p = [] \<or> p = [''tmp''] then Some Directory else None)" for p by (simp add: bt_get_def)
  have ok: "os_ok ?t" unfolding os_ok_def t by (auto simp: bt_ok_def)
  have f: "first_fault ?td (\<lambda>i. Inr 6) (\<lambda>_. None) [0..<19] = Some (Eother ''io'')"
    "first_fault (\<lambda>i. Inr (of_nat (1000 + i))) (\<lambda>i. Inr (of_nat (2000 + i))) (\<lambda>_. None) [0..<19] = None"
    by (simp_all add: upt_conv_Cons fault_of_def)
  have u: "[WARMUP..<19] = [16, 17, 18]" "WARMUP = 16" by (simp_all add: WARMUP_def upt_conv_Cons)
  have l: "list_all (\<lambda>i. Some (of_nat (3000 + i) :: u64) \<noteq> None) [0..<19]" by (simp add: list_all_iff)
  note good = probe_measures [OF ok, of ?cfg 1 2 19 "\<lparr>samples = [1016, 1017, 1018], is_sorted = False\<rparr>" "\<lambda>i. Inr (of_nat (1000 + i))"
      "\<lambda>i. Inr (of_nat (2000 + i))" "\<lambda>_. None" "\<lambda>i. Some (of_nat (3000 + i))"]
  have "(\<exists>rep. probe_run (\<lambda>i. Inr (of_nat (1000 + i))) (\<lambda>i. Inr (of_nat (2000 + i))) (\<lambda>_. None) (\<lambda>i. Some (of_nat (3000 + i))) 1 2
        \<lparr>pc_iters = 3, pc_dir = [''tmp'']\<rparr> [([], Directory), ([''tmp''], Directory)] = (Inr rep, [([], Directory), ([''tmp''], Directory)])
      \<and> rp_data rep = probe_row_of [1016, 1017, 1018] \<and> rp_all rep = probe_row_of [2016, 2017, 2018]
      \<and> rp_dir rep = probe_row_of [3016, 3017, 3018]
      \<and> rp_p50 rep = fst (quantile P50 \<lparr>samples = [1016, 1017, 1018], is_sorted = False\<rparr>)
      \<and> rp_p99 rep = fst (quantile P99 \<lparr>samples = [1016, 1017, 1018], is_sorted = False\<rparr>)
      \<and> rp_ceiling rep = ops_per_sec (fst (quantile P50 \<lparr>samples = [1016, 1017, 1018], is_sorted = False\<rparr>)))"
    using good unfolding f option.case if_P [OF l] u by (simp add: t probe_path_def)
  moreover have "probe_run (\<lambda>i. if i = 2 then Inl (Eother ''io'') else Inr 5) (\<lambda>i. Inr 6) (\<lambda>_. None) (\<lambda>_. None) 1 2
        \<lparr>pc_iters = 3, pc_dir = [''tmp'']\<rparr> [([], Directory), ([''tmp''], Directory)]
      = (Inl (Eother ''io''), bt_insert (probe_path [''tmp''] 1) (Regular probe_block) [([], Directory), ([''tmp''], Directory)])"
    using probe_measures [OF ok, of ?cfg 1 2 19 "\<lparr>samples = [5, 5, 5], is_sorted = False\<rparr>" ?td "\<lambda>i. Inr 6" "\<lambda>_. None" "\<lambda>_. None"]
    unfolding f option.case u by (simp add: t probe_path_def)
  ultimately show ?thesis by blast
qed

end
