(* ===== verification/Db_Threads.thy ===== *)
theory Db_Threads imports Db_Refine Group_Commit begin

text \<open>
  The engine with many threads (\<open>Db::write\<close>, \<open>Db::flush\<close> and \<open>Db::flush_locked\<close> in \<open>src/src/db.rs\<close>): writers
  and flushers take turns in the critical sections of the write lock, in the appends to the log and in
  the insertions into the memtable, which a writer makes with the lock released. A thread that waits
  on the condition variable cannot step until what it waits for has come about; every change that can
  bring it about is followed by a notification. An append is one step; how the threads of a group
  commit meet inside it is the subject of \<open>Group_Commit\<close>.
\<close>

section \<open>Threads and their steps\<close>

text \<open>Where a thread is: before the first phase of a write, with a claimed record that is not logged, whose
  logging failed, that is logged, that is in the memtable; in a flush that waits for the writes in
  flight (of a write whose record filled the memtable, or of its own); and after a call.\<close>

datatype db_pc =
    Resting
  | Claiming bytes value_kind
  | Logging entry
  | Failing entry storage_error
  | Applying entry
  | Leaving entry
  | Quiescing "entry option"
  | Returned "entry option" "db_error + unit"

record 'fs dbt =
  dt_db :: "'fs db"
  dt_pc :: "nat \<Rightarrow> db_pc"

definition dt_at :: "nat \<Rightarrow> db_pc \<Rightarrow> 'fs db \<Rightarrow> 'fs dbt \<Rightarrow> 'fs dbt" where
  "dt_at t p d g = g\<lparr>dt_db := d, dt_pc := (dt_pc g)(t := p)\<rparr>"

definition set_pending :: "bool \<Rightarrow> 'fs db \<Rightarrow> 'fs db" where
  "set_pending b d = d\<lparr>db_write := (db_write d)\<lparr>ws_flush_pending := b\<rparr>\<rparr>"

text \<open>The end of \<open>flush_locked\<close>, once no write is in flight; \<open>None\<close> is a cascade that does not end.\<close>

definition finish_flush :: "hash128 \<Rightarrow> crc \<Rightarrow> 'fs storage \<Rightarrow> nat \<Rightarrow> entry option \<Rightarrow> 'fs dbt \<Rightarrow> 'fs dbt option" where
  "finish_flush xxh crc S t eo g =
     map_option (\<lambda>(r, d). dt_at t (Returned eo r) (set_pending False d) g) (flush_quiesced xxh crc S (dt_db g))"

definition enter_flush :: "hash128 \<Rightarrow> crc \<Rightarrow> 'fs storage \<Rightarrow> nat \<Rightarrow> entry option \<Rightarrow> 'fs dbt \<Rightarrow> 'fs dbt option" where
  "enter_flush xxh crc S t eo g =
     (let d = set_pending True (dt_db g)
      in if 0 < ws_in_flight (db_write d) then Some (dt_at t (Quiescing eo) d g)
         else finish_flush xxh crc S t eo (g\<lparr>dt_db := d\<rparr>))"

definition dt_start :: "'fs db \<Rightarrow> 'fs dbt" where
  "dt_start d = \<lparr>dt_db = d, dt_pc = (\<lambda>_. Resting)\<rparr>"

datatype db_call = Call_write bytes value_kind | Call_flush

definition dt_call :: "hash128 \<Rightarrow> crc \<Rightarrow> 'fs storage \<Rightarrow> nat \<Rightarrow> db_call \<Rightarrow> 'fs dbt \<Rightarrow> 'fs dbt option" where
  "dt_call xxh crc S t c g =
     (case c of
        Call_write k vk \<Rightarrow> Some (dt_at t (Claiming k vk) (dt_db g) g)
      | Call_flush \<Rightarrow> enter_flush xxh crc S t None g)"

text \<open>The next step of a thread that has one.\<close>

definition dt_step :: "hash128 \<Rightarrow> crc \<Rightarrow> 'fs storage \<Rightarrow> nat \<Rightarrow> 'fs dbt \<Rightarrow> 'fs dbt option" where
  "dt_step xxh crc S t g =
     (let d = dt_db g
      in case dt_pc g t of
           Resting \<Rightarrow> None
         | Claiming k vk \<Rightarrow>
             map_option (\<lambda>(sq, d). dt_at t (Logging (k, \<lparr>seq = sq, kind = vk\<rparr>)) d g) (write_claim d)
         | Logging e \<Rightarrow>
             map_option (\<lambda>(r, d). dt_at t (case r of Inl err \<Rightarrow> Failing e err | Inr _ \<Rightarrow> Applying e) d g)
               (write_log crc S (seq (snd e)) (fst e) (kind (snd e)) d)
         | Failing e err \<Rightarrow> Some (dt_at t (Returned (Some e) (Inl (Db_storage err))) (write_leave d) g)
         | Applying e \<Rightarrow> Some (dt_at t (Leaving e) (write_apply (seq (snd e)) (fst e) (kind (snd e)) d) g)
         | Leaving e \<Rightarrow>
             (let d = write_leave d
              in if is_full (db_mem d) then enter_flush xxh crc S t (Some e) (g\<lparr>dt_db := d\<rparr>)
                 else Some (dt_at t (Returned (Some e) (Inr ())) d g))
         | Quiescing eo \<Rightarrow> if 0 < ws_in_flight (db_write d) then None else finish_flush xxh crc S t eo g
         | Returned eo r \<Rightarrow> Some (dt_at t Resting d g))"

text \<open>The states that some interleaving reaches in \<open>n\<close> steps: \<open>cs\<close> are the records in the order in which they
  were claimed, \<open>ak\<close> those whose write has returned without an error.\<close>

definition claimed :: "db_pc \<Rightarrow> entry list" where
  "claimed p = (case p of Logging e \<Rightarrow> [e] | _ \<Rightarrow> [])"

definition acked :: "db_pc \<Rightarrow> entry set" where
  "acked p = (case p of Returned (Some e) (Inr _) \<Rightarrow> {e} | _ \<Rightarrow> {})"

inductive dt_reach :: "hash128 \<Rightarrow> crc \<Rightarrow> 'fs storage \<Rightarrow> 'fs dbt \<Rightarrow> nat \<Rightarrow> entry list \<Rightarrow> entry set \<Rightarrow> 'fs dbt \<Rightarrow> bool"
  for xxh crc S g0 where
  start: "dt_reach xxh crc S g0 0 [] {} g0"
| call: "dt_reach xxh crc S g0 n cs ak g \<Longrightarrow> dt_pc g t = Resting \<Longrightarrow> dt_call xxh crc S t c g = Some g' \<Longrightarrow>
    dt_reach xxh crc S g0 (Suc n) cs ak g'"
| step: "dt_reach xxh crc S g0 n cs ak g \<Longrightarrow> dt_step xxh crc S t g = Some g' \<Longrightarrow>
    dt_reach xxh crc S g0 (Suc n) (cs @ claimed (dt_pc g' t)) (ak \<union> acked (dt_pc g' t)) g'"

lemma dt_at_simps [simp]:
  "dt_db (dt_at t p d g) = d" "dt_pc (dt_at t p d g) = (dt_pc g)(t := p)"
  by (simp_all add: dt_at_def)

lemma set_pending_simps [simp]:
  "ws_flush_pending (db_write (set_pending b d)) = b" "ws_in_flight (db_write (set_pending b d)) = ws_in_flight (db_write d)"
  "ws_next_seq (db_write (set_pending b d)) = ws_next_seq (db_write d)" "db_wal (set_pending b d) = db_wal d"
  "db_mem (set_pending b d) = db_mem d" "db_options (set_pending b d) = db_options d" "db_dir (set_pending b d) = db_dir d"
  "db_manifest (set_pending b d) = db_manifest d"
  "db_disk xxh crc dir E ws (set_pending b d) D = db_disk xxh crc dir E ws d D"
  "mem_is ws (set_pending b d) = mem_is ws d" "db_content E ws (set_pending b d) = db_content E ws d"
  "db_room c U E ws (set_pending b d) = db_room c U E ws d"
  by (simp_all add: set_pending_def)

section \<open>What a set of records shows\<close>

text \<open>The map that holds, for every key, the record with the highest sequence number.\<close>

definition latest :: "entry set \<Rightarrow> content \<Rightarrow> bool" where
  "latest A M \<longleftrightarrow> (\<forall>k v. newest A k v \<longrightarrow> M k = as_value v) \<and> (\<forall>k. (\<forall>v. (k, v) \<notin> A) \<longrightarrow> M k = None)"

lemma finite_newest: "finite A \<Longrightarrow> (k, v) \<in> A \<Longrightarrow> \<exists>w. newest A k w"
proof -
  assume A: "finite A" "(k, v) \<in> A"
  let ?V = "{w. (k, w) \<in> A}"
  have "?V \<subseteq> snd ` A" by force
  then have V: "finite ?V" "?V \<noteq> {}" using A finite_surj by auto
  obtain w where "w \<in> ?V" "seq w = Max (seq ` ?V)"
    using Max_in [of "seq ` ?V"] V by fastforce
  then show ?thesis using V by (auto simp: newest_def intro!: exI [of _ w])
qed

lemma map_of_mem_of_newest: "seqs_unique (set ws) \<Longrightarrow> map_of (mem_of ws) k = Some v \<longleftrightarrow> newest (set ws) k v"
proof -
  assume "seqs_unique (set ws)"
  moreover have "mmap memtable_new = []" by (simp add: memtable_new_def)
  ultimately show ?thesis using apply_writes_newest [of memtable_new ws k v] by (simp add: map_of_mem_of)
qed

text \<open>Records in memory that are newer than those in the tables.\<close>

lemma latest_on_top:
  assumes F: "latest F (visible L)" and new: "\<And>f e. f \<in> F \<Longrightarrow> e \<in> set ws \<Longrightarrow> seq (snd f) < seq (snd e)"
    and u: "seqs_unique (set ws)"
  shows "latest (F \<union> set ws) (visible (mem_of ws # L))"
proof -
  have m: "visible (mem_of ws # L) k = (case map_of (mem_of ws) k of None \<Rightarrow> visible L k | Some v \<Rightarrow> as_value v)" for k
    by (auto simp: visible_def split: option.split)
  have "visible (mem_of ws # L) k = as_value v" if n: "newest (F \<union> set ws) k v" for k v
  proof (cases "map_of (mem_of ws) k")
    case None
    then have no: "(k, w) \<notin> set ws" for w using finite_newest [of "set ws" k] map_of_mem_of_newest [OF u] by force
    then have "newest F k v" using n by (auto simp: newest_def)
    then show ?thesis using F None m by (simp add: latest_def)
  next
    case (Some w)
    then have w: "newest (set ws) k w" using map_of_mem_of_newest [OF u] by simp
    then have "(k, v) \<notin> F" using n new [of "(k, v)" "(k, w)"] by (auto simp: newest_def dest: leD)
    then have "newest (set ws) k v" using n by (auto simp: newest_def)
    then show ?thesis using Some m newest_unique [OF u _ w] by simp
  qed
  moreover have "visible (mem_of ws # L) k = None" if no: "\<forall>v. (k, v) \<notin> F \<union> set ws" for k
  proof (cases "map_of (mem_of ws) k")
    case None
    then show ?thesis using F no m by (simp add: latest_def)
  next
    case (Some w)
    then show ?thesis using map_of_mem_of_newest [OF u, of k w] no by (auto simp: newest_def)
  qed
  ultimately show ?thesis by (simp add: latest_def)
qed

section \<open>Control\<close>

definition flying :: "db_pc \<Rightarrow> bool" where
  "flying p = (case p of Logging _ \<Rightarrow> True | Failing _ _ \<Rightarrow> True | Applying _ \<Rightarrow> True | Leaving _ \<Rightarrow> True | _ \<Rightarrow> False)"

definition quiescing :: "db_pc \<Rightarrow> bool" where
  "quiescing p = (case p of Quiescing _ \<Rightarrow> True | _ \<Rightarrow> False)"

definition failed :: "db_pc \<Rightarrow> bool" where
  "failed p = (case p of Failing _ _ \<Rightarrow> True | Returned _ (Inl _) \<Rightarrow> True | _ \<Rightarrow> False)"

text \<open>The record of a thread that is logged and not in the memtable, or in the memtable.\<close>

definition applying :: "db_pc \<Rightarrow> entry set" where
  "applying p = (case p of Applying e \<Rightarrow> {e} | _ \<Rightarrow> {})"

definition applied :: "db_pc \<Rightarrow> entry set" where
  "applied p = (case p of Leaving e \<Rightarrow> {e} | Quiescing eo \<Rightarrow> set_option eo | _ \<Rightarrow> {})"

lemma pc_simps [simp]:
  "\<not> flying Resting" "\<not> flying (Claiming k vk)" "flying (Logging e)" "flying (Failing e err)"
  "flying (Applying e)" "flying (Leaving e)" "\<not> flying (Quiescing eo)" "\<not> flying (Returned eo r)"
  "\<not> quiescing Resting" "\<not> quiescing (Claiming k vk)" "\<not> quiescing (Logging e)"
  "\<not> quiescing (Failing e err)" "\<not> quiescing (Applying e)" "\<not> quiescing (Leaving e)"
  "quiescing (Quiescing eo)" "\<not> quiescing (Returned eo r)"
  "\<not> failed Resting" "\<not> failed (Claiming k vk)" "\<not> failed (Logging e)" "failed (Failing e err)"
  "\<not> failed (Applying e)" "\<not> failed (Leaving e)" "\<not> failed (Quiescing eo)"
  "\<not> failed (Returned eo (Inr u))" "failed (Returned eo (Inl err2))"
  "applying Resting = {}" "applying (Claiming k vk) = {}" "applying (Logging e) = {}" "applying (Failing e err) = {}"
  "applying (Applying e) = {e}" "applying (Leaving e) = {}" "applying (Quiescing eo) = {}"
  "applying (Returned eo r) = {}"
  "applied Resting = {}" "applied (Claiming k vk) = {}" "applied (Logging e) = {}" "applied (Failing e err) = {}"
  "applied (Applying e) = {}" "applied (Leaving e) = {e}" "applied (Quiescing eo) = set_option eo"
  "applied (Returned eo r) = {}"
  "claimed Resting = []" "claimed (Claiming k vk) = []" "claimed (Logging e) = [e]" "claimed (Failing e err) = []"
  "claimed (Applying e) = []" "claimed (Leaving e) = []" "claimed (Quiescing eo) = []" "claimed (Returned eo r) = []"
  "acked Resting = {}" "acked (Claiming k vk) = {}" "acked (Logging e) = {}" "acked (Failing e err) = {}"
  "acked (Applying e) = {}" "acked (Leaving e) = {}" "acked (Quiescing eo) = {}"
  "acked (Returned eo (Inr u)) = set_option eo" "acked (Returned eo (Inl err2)) = {}"
  by (auto simp: flying_def quiescing_def failed_def applying_def applied_def claimed_def acked_def split: option.split)

definition owed :: "entry set \<Rightarrow> 'fs dbt \<Rightarrow> entry set" where
  "owed ak g = ak \<union> (\<Union>t. applying (dt_pc g t) \<union> applied (dt_pc g t))"

text \<open>A coordinator without a leader, whose counters are in order.\<close>

definition tame_coord :: "coord \<Rightarrow> bool" where
  "tame_coord c \<longleftrightarrow> \<not> leader_active c \<and> synced_through c \<le> next_seq c"

lemma quiet_tame: "quiet_coord c \<Longrightarrow> tame_coord c"
  by (simp add: quiet_coord_def tame_coord_def)

text \<open>What holds whatever the disk does, with room for \<open>b\<close> more steps.\<close>

definition db_ctl :: "nat \<Rightarrow> options \<Rightarrow> path \<Rightarrow> entry list \<Rightarrow> entry set \<Rightarrow> 'fs dbt \<Rightarrow> bool" where
  "db_ctl b opts dir cs ak g \<longleftrightarrow>
     finite {t. flying (dt_pc g t)} \<and> ws_in_flight (db_write (dt_db g)) = card {t. flying (dt_pc g t)}
   \<and> (ws_flush_pending (db_write (dt_db g)) \<longrightarrow> (\<exists>t. quiescing (dt_pc g t)))
   \<and> (\<forall>t e. dt_pc g t = Logging e \<longrightarrow> e \<in> set cs) \<and> owed ak g \<subseteq> set cs
   \<and> (\<forall>t u e. dt_pc g t = Logging e \<longrightarrow> dt_pc g u = Logging e \<longrightarrow> t = u)
   \<and> sorted_wrt (<) (map (seq \<circ> snd) cs) \<and> (\<forall>e\<in>set cs. seq (snd e) < ws_next_seq (db_write (dt_db g)))
   \<and> unat (ws_next_seq (db_write (dt_db g))) + b + 1 < 2 ^ 63
   \<and> unat (next_seq (coord (db_wal (dt_db g)))) + b + 1 < 2 ^ 63 \<and> tame_coord (coord (db_wal (dt_db g)))
   \<and> db_dir (dt_db g) = dir \<and> db_options (dt_db g) = opts"

lemma db_ctlD:
  assumes "db_ctl b opts dir cs ak g"
  shows "finite {t. flying (dt_pc g t)}" "ws_in_flight (db_write (dt_db g)) = card {t. flying (dt_pc g t)}"
    "ws_flush_pending (db_write (dt_db g)) \<Longrightarrow> \<exists>t. quiescing (dt_pc g t)"
    "dt_pc g t = Logging e \<Longrightarrow> e \<in> set cs" "owed ak g \<subseteq> set cs"
    "dt_pc g t = Logging e \<Longrightarrow> dt_pc g u = Logging e \<Longrightarrow> t = u"
    "sorted_wrt (<) (map (seq \<circ> snd) cs)" "e \<in> set cs \<Longrightarrow> seq (snd e) < ws_next_seq (db_write (dt_db g))"
    "unat (ws_next_seq (db_write (dt_db g))) + b + 1 < 2 ^ 63"
    "unat (next_seq (coord (db_wal (dt_db g)))) + b + 1 < 2 ^ 63" "tame_coord (coord (db_wal (dt_db g)))"
    "db_dir (dt_db g) = dir" "db_options (dt_db g) = opts"
  using assms unfolding db_ctl_def by blast+

lemma db_ctl_mono: "db_ctl b opts dir cs ak g \<Longrightarrow> c \<le> b \<Longrightarrow> db_ctl c opts dir cs ak g"
  by (simp add: db_ctl_def)

lemma no_flying: "db_ctl b opts dir cs ak g \<Longrightarrow> ws_in_flight (db_write (dt_db g)) = 0 \<Longrightarrow> \<not> flying (dt_pc g t)"
  using db_ctlD(1,2) [of b opts dir cs ak g] by auto

lemma flying_room: "db_ctl b opts dir cs ak g \<Longrightarrow> flying (dt_pc g t) \<Longrightarrow> 0 < ws_in_flight (db_write (dt_db g))"
  using no_flying by blast

lemma owed_at: "owed (ak \<union> a) (dt_at t p d g) \<subseteq> owed ak g \<union> applying p \<union> applied p \<union> a"
  by (auto simp: owed_def split: if_splits)

lemma owed_mem: "e \<in> applying (dt_pc g t) \<union> applied (dt_pc g t) \<Longrightarrow> e \<in> owed ak g"
  by (auto simp: owed_def)

lemma flying_card:
  assumes fin: "finite {t. flying (f t)}"
  shows "finite {u. flying ((f(t := p)) u)}"
    and "card {u. flying ((f(t := p)) u)} = card {u. flying (f u)} - (if flying (f t) then 1 else 0) + (if flying p then 1 else 0)"
proof -
  let ?F = "{u. flying (f u)}"
  have e: "{u. flying ((f(t := p)) u)} = (if flying p then insert t (?F - {t}) else ?F - {t})" by auto
  show "finite {u. flying ((f(t := p)) u)}" unfolding e using fin by simp
  show "card {u. flying ((f(t := p)) u)} = card ?F - (if flying (f t) then 1 else 0) + (if flying p then 1 else 0)"
    using fin card_insert_disjoint [of "?F - {t}" t] unfolding e by (simp only: card_Diff_singleton_if) (simp split: if_split)
qed

text \<open>The step of one thread to \<open>p\<close>.\<close>

lemma ctl_at:
  assumes c: "db_ctl (Suc b) opts dir cs ak g"
    and fl: "ws_in_flight (db_write d) = ws_in_flight (db_write (dt_db g)) - (if flying (dt_pc g t) then 1 else 0) + (if flying p then 1 else 0)"
    and pend: "ws_flush_pending (db_write d) \<Longrightarrow> quiescing p \<or> ws_flush_pending (db_write (dt_db g)) \<and> \<not> quiescing (dt_pc g t)"
    and sq: "claimed p = [] \<and> ws_next_seq (db_write d) = ws_next_seq (db_write (dt_db g))
      \<or> (\<exists>k vk. p = Logging (k, \<lparr>seq = ws_next_seq (db_write (dt_db g)), kind = vk\<rparr>) \<and> ws_next_seq (db_write d) = ws_next_seq (db_write (dt_db g)) + 1)"
    and ow: "applying p \<union> applied p \<union> acked p \<subseteq> applying (dt_pc g t) \<union> applied (dt_pc g t) \<union> set (claimed (dt_pc g t))"
    and co: "tame_coord (coord (db_wal d))" "unat (next_seq (coord (db_wal d))) \<le> unat (next_seq (coord (db_wal (dt_db g)))) + 1"
    and same: "db_dir d = db_dir (dt_db g)" "db_options d = db_options (dt_db g)"
  shows "db_ctl b opts dir (cs @ claimed p) (ak \<union> acked p) (dt_at t p d g)"
proof -
  let ?q = "ws_next_seq (db_write (dt_db g))" and ?q' = "ws_next_seq (db_write d)"
  note i = db_ctlD [OF c]
  have q1: "unat (?q + 1) = unat ?q + 1" using i(9) by (intro unat_u64_Suc) simp
  then have "?q < ?q + 1" by (simp add: word_less_nat_alt)
  moreover have w: "claimed p = [] \<and> ?q' = ?q \<or> (\<exists>e. claimed p = [e] \<and> seq (snd e) = ?q \<and> ?q' = ?q + 1)"
    using sq by fastforce
  ultimately have le: "?q \<le> ?q'" and lt: "\<And>e. e \<in> set (claimed p) \<Longrightarrow> seq (snd e) < ?q' \<and> seq (snd e) = ?q"
    by (metis order.strict_implies_order order_refl, metis empty_iff list.set(1) set_ConsD list.distinct(1))
  have clock: "unat ?q' + b + 1 < 2 ^ 63" using w q1 i(9) by auto
  have log: "e \<in> set cs" if "e \<in> set (claimed (dt_pc g t))" for e
    using that i(4) by (cases "dt_pc g t") auto
  have "owed (ak \<union> acked p) (dt_at t p d g) \<subseteq> set (cs @ claimed p)"
  proof -
    have "applying (dt_pc g t) \<union> applied (dt_pc g t) \<subseteq> owed ak g" by (auto simp: owed_def)
    then have "applying p \<union> applied p \<union> acked p \<subseteq> set cs" using ow i(5) log by blast
    then show ?thesis using owed_at [of ak "acked p" t p d g] i(5) unfolding set_append by blast
  qed
  moreover have "\<forall>u e. dt_pc (dt_at t p d g) u = Logging e \<longrightarrow> e \<in> set (cs @ claimed p)" using i(4) by auto
  moreover have "\<forall>u v e. dt_pc (dt_at t p d g) u = Logging e \<longrightarrow> dt_pc (dt_at t p d g) v = Logging e \<longrightarrow> u = v"
  proof (intro allI impI)
    fix u v e assume uv: "dt_pc (dt_at t p d g) u = Logging e" "dt_pc (dt_at t p d g) v = Logging e"
    have new: False if "p = Logging e" "dt_pc g w = Logging e" for w
      using that lt [of e] i(4,8) by fastforce
    show "u = v" using uv i(6) new by (auto split: if_splits)
  qed
  moreover have "sorted_wrt (<) (map (seq \<circ> snd) (cs @ claimed p))"
    using i(7,8) w by (auto simp: sorted_wrt_append)
  moreover have "\<forall>e\<in>set (cs @ claimed p). seq (snd e) < ?q'"
    using i(8) lt le unfolding set_append by (blast intro: less_le_trans)
  moreover have "ws_flush_pending (db_write d) \<longrightarrow> (\<exists>u. quiescing (dt_pc (dt_at t p d g) u))"
  proof
    assume pd: "ws_flush_pending (db_write d)"
    show "\<exists>u. quiescing (dt_pc (dt_at t p d g) u)" using pend [OF pd]
    proof
      assume "ws_flush_pending (db_write (dt_db g)) \<and> \<not> quiescing (dt_pc g t)"
      then obtain u where "quiescing (dt_pc g u)" "u \<noteq> t" using i(3) by blast
      then show ?thesis by (intro exI [of _ u]) simp
    qed (intro exI [of _ t], simp)
  qed
  moreover have "unat (next_seq (coord (db_wal d))) + b + 1 < 2 ^ 63" using i(10) co(2) by simp
  moreover have "finite {u. flying (dt_pc (dt_at t p d g) u)}"
    "ws_in_flight (db_write d) = card {u. flying (dt_pc (dt_at t p d g) u)}"
    using flying_card [OF i(1), of t p] fl i(2) by (simp_all only: dt_at_simps)
  ultimately show ?thesis
    unfolding db_ctl_def dt_at_simps(1) using clock co(1) same [unfolded i(12,13)] by (intro conjI) assumption+
qed

end
