(* ===== verification/Db_Threads_Inv.thy ===== *)
theory Db_Threads_Inv imports Db_Threads begin

text \<open>
  The invariant of the engine with many threads. While the backend runs, the tables hold the newest of
  a set of claimed records and the log the newer ones, of which the memtable lacks just those that a
  thread is about to insert. Once the power has failed, what survives are the newest of some claimed
  records, among them all that any write relies on.
\<close>

section \<open>An append by a tame coordinator\<close>

lemma group_append:
  assumes dur: "wal_durability cfg = GroupCommit" and c: "tame_coord (coord W)" and room: "unat (next_seq (coord W)) + 1 < 2 ^ 64"
    and wb: "write_batch S cfg (queue (coord W) @ [(next_seq (coord W) + 1, encode crc x)])
      (W\<lparr>coord := (coord W)\<lparr>next_seq := next_seq (coord W) + 1, leader_active := True, queue := []\<rparr>\<rparr>) = (r, W1)"
  shows "wal_append crc S cfg x W = Some (r, W1\<lparr>coord := group_publish (next_seq (coord W) + 1)
    (queue (coord W) @ [(next_seq (coord W) + 1, encode crc x)]) r (coord W1)\<rparr>)"
proof -
  have "unat (next_seq (coord W) + 1) = unat (next_seq (coord W)) + 1" using room by (rule unat_u64_Suc)
  then have "\<not> next_seq (coord W) + 1 \<le> synced_through (coord W)" using c by (simp add: tame_coord_def word_le_nat_alt)
  then show ?thesis
    using c wb by (simp add: wal_append_def dur commit_group_def group_enqueue_def group_decide_def tame_coord_def Let_def)
qed

lemma wal_append_tame:
  assumes dur: "is_durable (wal_durability cfg)" and c: "tame_coord (coord W)" and room: "unat (next_seq (coord W)) + 1 < 2 ^ 64"
  shows "\<exists>r W'. wal_append crc S cfg x W = Some (r, W') \<and> tame_coord (coord W')
    \<and> unat (next_seq (coord W')) \<le> unat (next_seq (coord W)) + 1"
proof (cases "wal_durability cfg")
  case Always
  have "coord (snd (write_batch S cfg [(0, encode crc x)] W)) = coord W" by (rule write_batch_coord)
  then show ?thesis using c by (cases "write_batch S cfg [(0, encode crc x)] W") (simp add: wal_append_def Always commit_sync_now_batch)
next
  case GroupCommit
  let ?s = "next_seq (coord W) + 1"
  let ?W0 = "W\<lparr>coord := (coord W)\<lparr>next_seq := ?s, leader_active := True, queue := []\<rparr>\<rparr>"
    and ?b = "queue (coord W) @ [(?s, encode crc x)]"
  obtain r W1 where w: "write_batch S cfg ?b ?W0 = (r, W1)" by force
  then have W1: "coord W1 = coord ?W0" using write_batch_coord [of S cfg ?b ?W0] by simp
  have s: "unat ?s = unat (next_seq (coord W)) + 1" using room by (rule unat_u64_Suc)
  then have "synced_through (coord W) \<le> ?s" using c by (simp add: tame_coord_def word_le_nat_alt)
  then have "tame_coord (group_publish ?s ?b r (coord W1))"
    by (cases r) (simp_all add: W1 tame_coord_def group_publish_def Let_def)
  moreover have "next_seq (group_publish ?s ?b r (coord W1)) = ?s"
    by (cases r) (simp_all add: W1 group_publish_def Let_def)
  ultimately show ?thesis using group_append [OF GroupCommit c room w] s by simp
qed (use dur in \<open>simp add: is_durable_def\<close>)

context crash_fs
begin

lemma wal_append_tame_down:
  assumes d: "down (wfs W) D" and dur: "is_durable (wal_durability cfg)" and c: "tame_coord (coord W)"
    and room: "unat (next_seq (coord W)) + 1 < 2 ^ 64"
  shows "\<exists>e W'. wal_append crc S cfg x W = Some (Inl e, W') \<and> wfs W' = wfs W"
proof (cases "wal_durability cfg")
  case Always
  obtain e where "write_batch S cfg [(0, encode crc x)] W = (Inl e, W)" using write_batch_down [OF d] by blast
  then show ?thesis by (simp add: wal_append_def Always commit_sync_now_batch)
next
  case GroupCommit
  let ?s = "next_seq (coord W) + 1"
  let ?W0 = "W\<lparr>coord := (coord W)\<lparr>next_seq := ?s, leader_active := True, queue := []\<rparr>\<rparr>"
    and ?b = "queue (coord W) @ [(?s, encode crc x)]"
  obtain n fr rest where b: "?b = (n, fr) # rest" by (metis append_is_Nil_conv list.distinct(1) list.exhaust surj_pair)
  have "down (wfs ?W0) D" using d by simp
  from write_batch_down [OF this] obtain e where "write_batch S cfg ?b ?W0 = (Inl e, ?W0)" unfolding b by blast
  from group_append [OF GroupCommit c room this] show ?thesis by simp
qed (use dur in \<open>simp add: is_durable_def\<close>)

end

section \<open>The running engine\<close>

lemma claims_unique: "sorted_wrt (<) (map (seq \<circ> snd) cs) \<Longrightarrow> A \<subseteq> set cs \<Longrightarrow> seqs_unique A"
proof -
  assume s: "sorted_wrt (<) (map (seq \<circ> snd) cs)" and A: "A \<subseteq> set cs"
  have "inj_on (seq \<circ> snd) (set cs)" using s by (simp add: strict_sorted_iff distinct_map)
  from inj_onD [OF this, of "(k, v)" "(k, w)" for k v w] show ?thesis using A unfolding seqs_unique_def by auto
qed

lemma mem_of_same:
  assumes "seqs_unique (set ws)" and "set as = set ws"
  shows "apply_writes as memtable_new = apply_writes ws memtable_new"
proof (rule memtable_eqI)
  have "mt_get (apply_writes as memtable_new) k = Some v \<longleftrightarrow> mt_get (apply_writes ws memtable_new) k = Some v" for k v
    using map_of_mem_of_newest [OF assms(1)] map_of_mem_of_newest [of as] assms by (simp add: map_of_mem_of)
  then show "mt_get (apply_writes as memtable_new) k = mt_get (apply_writes ws memtable_new) k" for k
    by (metis option.exhaust)
qed simp_all

text \<open>\<open>F\<close> are the records in the tables, \<open>ws\<close> those in the log since the last flush, which are newer; all
  are among the claimed ones.\<close>

definition db_logs ::
  "hash128 \<Rightarrow> crc \<Rightarrow> path \<Rightarrow> nat \<Rightarrow> (u64 \<Rightarrow> entry list) \<Rightarrow> entry list \<Rightarrow> entry set \<Rightarrow> u64 \<Rightarrow> entry list \<Rightarrow> 'fs db \<Rightarrow> disk \<Rightarrow> bool" where
  "db_logs xxh crc dir b E ws F th cs d D \<longleftrightarrow> db_disk xxh crc dir E ws d D \<and> db_room b 0 E ws d
     \<and> latest F (visible (version_levels E (db_version d))) \<and> seqs_below th (version_levels E (db_version d))
     \<and> (\<forall>e\<in>F. seq (snd e) < th) \<and> (\<forall>e\<in>set ws. th \<le> seq (snd e)) \<and> th \<le> ws_next_seq (db_write d) \<and> F \<union> set ws \<subseteq> set cs
     \<and> entries_size ws + total_size (version_levels E (db_version d)) \<le> entries_size (filter (\<lambda>e. e \<in> F \<union> set ws) cs)"

lemma db_logsD:
  assumes "db_logs xxh crc dir b E ws F th cs d D"
  shows "db_disk xxh crc dir E ws d D" "db_room b 0 E ws d" "latest F (visible (version_levels E (db_version d)))"
    "seqs_below th (version_levels E (db_version d))" "e \<in> F \<Longrightarrow> seq (snd e) < th" "e \<in> set ws \<Longrightarrow> th \<le> seq (snd e)"
    "th \<le> ws_next_seq (db_write d)" "F \<union> set ws \<subseteq> set cs"
    "entries_size ws + total_size (version_levels E (db_version d)) \<le> entries_size (filter (\<lambda>e. e \<in> F \<union> set ws) cs)"
  using assms by (simp_all add: db_logs_def)

text \<open>The threads: \<open>as\<close> are the records in the memtable.\<close>

definition db_tied :: "entry set \<Rightarrow> entry list \<Rightarrow> entry list \<Rightarrow> u64 \<Rightarrow> entry set \<Rightarrow> (nat \<Rightarrow> db_pc) \<Rightarrow> bool" where
  "db_tied F ws as th ak f \<longleftrightarrow> set ws = set as \<union> (\<Union>t. applying (f t)) \<and> ak \<union> (\<Union>t. applied (f t)) \<subseteq> F \<union> set as
     \<and> (\<forall>t e. f t = Logging e \<longrightarrow> e \<notin> F \<union> set ws \<and> th \<le> seq (snd e)) \<and> (\<forall>t. \<not> failed (f t))"

lemma db_tiedD:
  assumes "db_tied F ws as th ak f"
  shows "set ws = set as \<union> (\<Union>t. applying (f t))" "ak \<union> (\<Union>t. applied (f t)) \<subseteq> F \<union> set as"
    "f t = Logging e \<Longrightarrow> e \<notin> F \<union> set ws" "f t = Logging e \<Longrightarrow> th \<le> seq (snd e)" "\<not> failed (f t)"
  using assms unfolding db_tied_def by blast+

lemma tied_owed: "db_tied F ws as th ak (dt_pc g) \<Longrightarrow> owed ak g \<subseteq> F \<union> set ws"
  by (auto simp: db_tied_def owed_def)

lemma entries_size_filter: "entries_size (filter P cs) \<le> entries_size cs"
  by (induction cs) (auto simp: entries_size_def)

lemma entries_size_insert:
  assumes "distinct cs" "e \<in> set cs" "e \<notin> A"
  shows "entries_size (filter (\<lambda>x. x \<in> insert e A) cs) = entries_size [e] + entries_size (filter (\<lambda>x. x \<in> A) cs)"
  using assms
proof (induction cs)
  case (Cons c cs)
  have "filter (\<lambda>x. x \<in> insert e A) cs = filter (\<lambda>x. x \<in> A) cs" if "e \<notin> set cs"
    using that by (intro filter_cong) auto
  then show ?case using Cons by (auto simp: entries_size_def)
qed simp

text \<open>What each kind of step does to the ties.\<close>

lemma UN_upd: "(\<Union>u. h ((f(t := p)) u)) = h p \<union> (\<Union>u\<in>- {t}. h (f u))"
proof -
  have "(\<Union>u. h ((f(t := p)) u)) = h ((f(t := p)) t) \<union> (\<Union>u\<in>- {t}. h ((f(t := p)) u))" by (rule equalityI) blast+
  also have "(\<Union>u\<in>- {t}. h ((f(t := p)) u)) = (\<Union>u\<in>- {t}. h (f u))" by (intro SUP_cong) simp_all
  finally show ?thesis by simp
qed

lemma UN_at: "(\<Union>u. h (f u)) = h (f t) \<union> (\<Union>u\<in>- {t}. h (f u))"
  using UN_upd [of h f t "f t"] by simp

lemma tied_control:
  assumes t: "db_tied F ws as th ak f" and no: "applying p = {}" "applying (f t) = {}"
    and sub: "applied p \<union> a \<subseteq> applied (f t)" and ok: "\<not> failed p"
    and new: "\<And>e. p = Logging e \<Longrightarrow> e \<notin> F \<union> set ws \<and> th \<le> seq (snd e)"
  shows "db_tied F ws as th (ak \<union> a) (f(t := p))"
proof -
  note i = db_tiedD [OF t]
  have "set ws = set as \<union> (\<Union>u. applying ((f(t := p)) u))"
    using no i(1) by (simp only: UN_upd UN_at [of applying f t])
  moreover have "(\<Union>u. applied ((f(t := p)) u)) \<union> a \<subseteq> (\<Union>u. applied (f u))"
    using sub unfolding UN_upd UN_at [of applied f t] by blast
  then have "(ak \<union> a) \<union> (\<Union>u. applied ((f(t := p)) u)) \<subseteq> F \<union> set as" using i(2) by blast
  moreover have "\<forall>u e. (f(t := p)) u = Logging e \<longrightarrow> e \<notin> F \<union> set ws \<and> th \<le> seq (snd e)" using i(3,4) new by (simp del: split_paired_All)
  moreover have "\<forall>u. \<not> failed ((f(t := p)) u)" using i(5) ok by simp
  ultimately show ?thesis unfolding db_tied_def by (intro conjI)
qed

lemma tied_log:
  assumes t: "db_tied F ws as th ak f" and p: "f t = Logging e" and one: "\<And>u. f u = Logging e \<Longrightarrow> u = t"
  shows "db_tied F (ws @ [e]) as th ak (f(t := Applying e))"
proof -
  note i = db_tiedD [OF t]
  have "(\<Union>u. applying ((f(t := Applying e)) u)) = insert e (\<Union>u. applying (f u))"
    unfolding UN_upd UN_at [of applying f t] p by simp
  moreover have "(\<Union>u. applied ((f(t := Applying e)) u)) = (\<Union>u. applied (f u))"
    unfolding UN_upd UN_at [of applied f t] p by simp
  moreover have "\<forall>u e'. (f(t := Applying e)) u = Logging e' \<longrightarrow> e' \<notin> F \<union> set (ws @ [e]) \<and> th \<le> seq (snd e')"
    using i(3,4) one by (auto simp del: split_paired_All)
  ultimately show ?thesis using i(1,2,5) unfolding db_tied_def by auto
qed

lemma tied_apply:
  assumes t: "db_tied F ws as th ak f" and p: "f t = Applying e"
  shows "db_tied F ws (as @ [e]) th ak (f(t := Leaving e))"
proof -
  note i = db_tiedD [OF t]
  have "insert e (\<Union>u. applying ((f(t := Leaving e)) u)) = (\<Union>u. applying (f u))"
    unfolding UN_upd UN_at [of applying f t] p by simp
  moreover have "(\<Union>u. applied ((f(t := Leaving e)) u)) = insert e (\<Union>u. applied (f u))"
    unfolding UN_upd UN_at [of applied f t] p by simp
  moreover have "\<forall>u e'. (f(t := Leaving e)) u = Logging e' \<longrightarrow> e' \<notin> F \<union> set ws \<and> th \<le> seq (snd e')"
    using i(3,4) by (simp del: split_paired_All)
  ultimately show ?thesis using i(1,2,5) unfolding db_tied_def by auto
qed

lemma tied_flush:
  assumes t: "db_tied F ws as th ak f" and quiet: "\<And>u. \<not> flying (f u)" and p: "f t = Quiescing eo"
  shows "db_tied (F \<union> set ws) [] [] th' (ak \<union> set_option eo) (f(t := Returned eo (Inr ())))"
    and "set as = set ws"
proof -
  note i = db_tiedD [OF t]
  have none: "applying (f u) = {}" "f u \<noteq> Logging e" for u e using quiet [of u] by (cases "f u"; auto)+
  then show same: "set as = set ws" using i(1) by simp
  let ?f = "f(t := Returned eo (Inr ()))"
  have "(\<Union>u. applied (?f u)) \<union> set_option eo \<subseteq> (\<Union>u. applied (f u))" unfolding UN_upd UN_at [of applied f t] p by auto
  then have "(ak \<union> set_option eo) \<union> (\<Union>u. applied (?f u)) \<subseteq> (F \<union> set ws) \<union> set []" using i(2) same by blast
  moreover have "set [] = set [] \<union> (\<Union>u. applying (?f u))" unfolding UN_upd using none by simp
  moreover have "\<forall>u. \<not> failed (?f u)" using i(5) by simp
  moreover have "\<forall>u e. ?f u = Logging e \<longrightarrow> e \<notin> (F \<union> set ws) \<union> set [] \<and> th' \<le> seq (snd e)"
    using none by (simp del: split_paired_All)
  ultimately show "db_tied (F \<union> set ws) [] [] th' (ak \<union> set_option eo) ?f" unfolding db_tied_def by blast
qed

lemma logs_write:
  assumes l: "db_logs xxh crc dir (Suc b) E ws F th cs d D" and le: "ws_next_seq (db_write d) \<le> ws_next_seq w"
    and one: "unat (ws_next_seq w) \<le> unat (ws_next_seq (db_write d)) + 1" and new: "set xs \<inter> (F \<union> set ws) = {}"
  shows "db_logs xxh crc dir b E ws F th (cs @ xs) (d\<lparr>db_write := w\<rparr>) D"
proof -
  note i = db_logsD [OF l]
  have f: "filter (\<lambda>e. e \<in> F \<union> set ws) (cs @ xs) = filter (\<lambda>e. e \<in> F \<union> set ws) cs"
    using new by (simp add: filter_empty_conv) blast
  have "db_disk xxh crc dir E ws (d\<lparr>db_write := w\<rparr>) D"
    using i(1) le by (auto simp: db_disk_def intro: seqs_below_mono order_trans less_le_trans)
  moreover have "db_room b 0 E ws (d\<lparr>db_write := w\<rparr>)" using i(2) one by (simp add: db_room_def)
  ultimately show ?thesis unfolding db_logs_def f using i le by (auto intro: order_trans)
qed

lemma logs_mem: "db_logs xxh crc dir b E ws F th cs (d\<lparr>db_mem := m\<rparr>) D = db_logs xxh crc dir b E ws F th cs d D"
  by (simp add: db_logs_def db_disk_def db_room_def)

lemma logs_room: "db_logs xxh crc dir b E ws F th cs d D \<Longrightarrow> c \<le> b \<Longrightarrow> db_logs xxh crc dir c E ws F th cs d D"
  by (simp add: db_logs_def db_room_def)

lemma logs_latest:
  assumes l: "db_logs xxh crc dir b E ws F th cs d D" and s: "sorted_wrt (<) (map (seq \<circ> snd) cs)"
  shows "latest (F \<union> set ws) (db_content E ws d)"
proof -
  note i = db_logsD [OF l]
  have "seqs_unique (set ws)" using i(8) by (intro claims_unique [OF s]) blast
  then show ?thesis unfolding db_content_def
    by (rule latest_on_top [OF i(3), rotated]) (blast intro: less_le_trans i(5,6))
qed

context crash_fs
begin

definition db_live :: "hash128 \<Rightarrow> crc \<Rightarrow> path \<Rightarrow> nat \<Rightarrow> entry list \<Rightarrow> entry set \<Rightarrow> 'fs dbt \<Rightarrow> bool" where
  "db_live xxh crc dir b cs ak g \<longleftrightarrow> up (db_fs (dt_db g)) \<and> quiet_coord (coord (db_wal (dt_db g)))
     \<and> (\<exists>E ws as F th. db_logs xxh crc dir b E ws F th cs (dt_db g) (disk (db_fs (dt_db g)))
          \<and> active_table (db_mem (dt_db g)) = apply_writes as memtable_new \<and> frozen_tables (db_mem (dt_db g)) = []
          \<and> db_tied F ws as th ak (dt_pc g))"

lemma db_liveI:
  "up (db_fs (dt_db g)) \<Longrightarrow> quiet_coord (coord (db_wal (dt_db g))) \<Longrightarrow>
   db_logs xxh crc dir b E ws F th cs (dt_db g) (disk (db_fs (dt_db g))) \<Longrightarrow>
   active_table (db_mem (dt_db g)) = apply_writes as memtable_new \<Longrightarrow> frozen_tables (db_mem (dt_db g)) = [] \<Longrightarrow>
   db_tied F ws as th ak (dt_pc g) \<Longrightarrow> db_live xxh crc dir b cs ak g"
  unfolding db_live_def by blast

lemma db_liveE:
  assumes "db_live xxh crc dir b cs ak g"
  obtains E ws as F th where "up (db_fs (dt_db g))" and "quiet_coord (coord (db_wal (dt_db g)))"
    and "db_logs xxh crc dir b E ws F th cs (dt_db g) (disk (db_fs (dt_db g)))"
    and "active_table (db_mem (dt_db g)) = apply_writes as memtable_new" and "frozen_tables (db_mem (dt_db g)) = []"
    and "db_tied F ws as th ak (dt_pc g)"
  using assms unfolding db_live_def by blast

lemma db_live_mono: "db_live xxh crc dir b cs ak g \<Longrightarrow> c \<le> b \<Longrightarrow> db_live xxh crc dir c cs ak g"
  by (blast elim: db_liveE intro: db_liveI logs_room)

text \<open>The power has failed, and what survives are the newest of some claimed records, among them all that
  any write relies on.\<close>

definition db_gone :: "hash128 \<Rightarrow> crc \<Rightarrow> path \<Rightarrow> entry list \<Rightarrow> entry set \<Rightarrow> 'fs dbt \<Rightarrow> bool" where
  "db_gone xxh crc dir cs ak g \<longleftrightarrow>
     (\<exists>A M. owed ak g \<subseteq> A \<and> A \<subseteq> set cs \<and> latest A M \<and> lost xxh crc dir {M} (db_fs (dt_db g)))"

definition db_inv :: "hash128 \<Rightarrow> crc \<Rightarrow> nat \<Rightarrow> options \<Rightarrow> path \<Rightarrow> entry list \<Rightarrow> entry set \<Rightarrow> 'fs dbt \<Rightarrow> bool" where
  "db_inv xxh crc b opts dir cs ak g \<longleftrightarrow> db_ctl b opts dir cs ak g
     \<and> (db_live xxh crc dir b cs ak g \<or> db_gone xxh crc dir cs ak g)"

lemma db_invI:
  "db_ctl b opts dir cs ak g \<Longrightarrow> db_live xxh crc dir b cs ak g \<or> db_gone xxh crc dir cs ak g \<Longrightarrow> db_inv xxh crc b opts dir cs ak g"
  by (simp add: db_inv_def)

lemma db_inv_mono: "db_inv xxh crc b opts dir cs ak g \<Longrightarrow> c \<le> b \<Longrightarrow> db_inv xxh crc c opts dir cs ak g"
  unfolding db_inv_def using db_ctl_mono db_live_mono by blast

lemma db_goneI:
  "lost xxh crc dir {M} (db_fs (dt_db g)) \<Longrightarrow> latest A M \<Longrightarrow> owed ak g \<subseteq> A \<Longrightarrow> A \<subseteq> set cs \<Longrightarrow> db_gone xxh crc dir cs ak g"
  unfolding db_gone_def by blast

lemma gone_at:
  assumes g: "db_gone xxh crc dir cs ak g" and fs: "db_fs d = db_fs (dt_db g)"
    and sub: "applying p \<union> applied p \<union> a \<subseteq> applying (dt_pc g t) \<union> applied (dt_pc g t)"
  shows "db_gone xxh crc dir (cs @ xs) (ak \<union> a) (dt_at t p d g)"
proof -
  obtain A M where A: "owed ak g \<subseteq> A" "A \<subseteq> set cs" "latest A M" "lost xxh crc dir {M} (db_fs (dt_db g))"
    using g by (auto simp: db_gone_def)
  have "applying p \<union> applied p \<union> a \<subseteq> owed ak g" using sub by (auto simp: owed_def)
  then have "owed (ak \<union> a) (dt_at t p d g) \<subseteq> A" using owed_at [of ak a t p d g] A(1) by blast
  then show ?thesis using A by (intro db_goneI [of xxh crc dir M _ A]) (auto simp: fs)
qed

lemma gone_down: "db_gone xxh crc dir cs ak g \<Longrightarrow> \<exists>D. down (db_fs (dt_db g)) D"
  by (auto simp: db_gone_def lost_def)

section \<open>The steps\<close>

text \<open>A step that changes nothing but the state under the write lock.\<close>

lemma live_control:
  assumes l: "db_live xxh crc dir (Suc b) cs ak g" and c: "db_ctl n opts dir cs ak g"
    and le: "ws_next_seq (db_write (dt_db g)) \<le> ws_next_seq w" and one: "unat (ws_next_seq w) \<le> unat (ws_next_seq (db_write (dt_db g))) + 1"
    and p: "applying p = {}" "applying (dt_pc g t) = {}" "applied p \<union> acked p \<subseteq> applied (dt_pc g t)" "\<not> failed p"
    and new: "\<And>e. p = Logging e \<Longrightarrow> seq (snd e) = ws_next_seq (db_write (dt_db g))"
  shows "db_live xxh crc dir b (cs @ claimed p) (ak \<union> acked p) (dt_at t p ((dt_db g)\<lparr>db_write := w\<rparr>) g)"
proof -
  let ?d = "dt_db g"
  from l obtain E ws as F th where up: "up (db_fs ?d)" "quiet_coord (coord (db_wal ?d))"
    and i: "db_logs xxh crc dir (Suc b) E ws F th cs ?d (disk (db_fs ?d))"
    "active_table (db_mem ?d) = apply_writes as memtable_new" "frozen_tables (db_mem ?d) = []" "db_tied F ws as th ak (dt_pc g)"
    by (rule db_liveE)
  note j = db_logsD [OF i(1)]
  have fresh: "e \<notin> F \<union> set ws \<and> th \<le> seq (snd e)" if "p = Logging e" for e
    using j(7,8) db_ctlD(8) [OF c, of e] new [OF that] by auto
  then have none: "set (claimed p) \<inter> (F \<union> set ws) = {}" by (cases p) auto
  have "db_tied F ws as th (ak \<union> acked p) ((dt_pc g)(t := p))" by (rule tied_control [OF i(4) p fresh])
  moreover have "db_logs xxh crc dir b E ws F th (cs @ claimed p) (?d\<lparr>db_write := w\<rparr>) (disk (db_fs ?d))"
    by (rule logs_write [OF i(1) le one none])
  ultimately show ?thesis using i(2,3) up by (intro db_liveI [where E = E and ws = ws and as = as and F = F and th = th]) simp_all
qed

lemma inv_control:
  assumes inv: "db_inv xxh crc (Suc b) opts dir cs ak g"
    and fl: "ws_in_flight w = ws_in_flight (db_write (dt_db g)) - (if flying (dt_pc g t) then 1 else 0) + (if flying p then 1 else 0)"
    and pend: "ws_flush_pending w \<Longrightarrow> quiescing p \<or> ws_flush_pending (db_write (dt_db g)) \<and> \<not> quiescing (dt_pc g t)"
    and sq: "claimed p = [] \<and> ws_next_seq w = ws_next_seq (db_write (dt_db g))
      \<or> (\<exists>k vk. p = Logging (k, \<lparr>seq = ws_next_seq (db_write (dt_db g)), kind = vk\<rparr>) \<and> ws_next_seq w = ws_next_seq (db_write (dt_db g)) + 1)"
    and p: "applying p = {}" "applying (dt_pc g t) = {}" "applied p \<union> acked p \<subseteq> applied (dt_pc g t)" "failed p \<Longrightarrow> failed (dt_pc g t)"
  shows "db_inv xxh crc b opts dir (cs @ claimed p) (ak \<union> acked p) (dt_at t p ((dt_db g)\<lparr>db_write := w\<rparr>) g)"
proof (rule db_invI)
  let ?q = "ws_next_seq (db_write (dt_db g))"
  have c: "db_ctl (Suc b) opts dir cs ak g" using inv by (simp add: db_inv_def)
  show "db_ctl b opts dir (cs @ claimed p) (ak \<union> acked p) (dt_at t p ((dt_db g)\<lparr>db_write := w\<rparr>) g)"
    by (rule ctl_at [OF c]) (use fl pend sq p db_ctlD(11) [OF c] in auto)
  have "unat (?q + 1) = unat ?q + 1" using db_ctlD(9) [OF c] by (intro unat_u64_Suc) simp
  then have le: "?q \<le> ws_next_seq w" "unat (ws_next_seq w) \<le> unat ?q + 1" using sq by (auto simp: word_le_nat_alt)
  have new: "seq (snd e) = ?q" if "p = Logging e" for e using sq that by auto
  show "db_live xxh crc dir b (cs @ claimed p) (ak \<union> acked p) (dt_at t p ((dt_db g)\<lparr>db_write := w\<rparr>) g)
    \<or> db_gone xxh crc dir (cs @ claimed p) (ak \<union> acked p) (dt_at t p ((dt_db g)\<lparr>db_write := w\<rparr>) g)"
    using inv unfolding db_inv_def
  proof (elim conjE disjE)
    assume l: "db_live xxh crc dir (Suc b) cs ak g"
    then have "\<not> failed (dt_pc g t)" by (blast elim: db_liveE dest: db_tiedD(5))
    then have "\<not> failed p" using p(4) by blast
    from live_control [OF l c le p(1-3) this new] show ?thesis ..
  next
    assume "db_gone xxh crc dir cs ak g"
    from gone_at [OF this, of "(dt_db g)\<lparr>db_write := w\<rparr>" p "acked p" t "claimed p"] show ?thesis using p by auto
  qed
qed

end

section \<open>Logging\<close>

text \<open>One more claimed record in the log.\<close>

lemma logs_add:
  assumes l: "db_logs xxh crc dir b E ws F th cs d D" and s: "sorted_wrt (<) (map (seq \<circ> snd) cs)"
    and e: "e \<in> set cs" "e \<notin> F \<union> set ws" "th \<le> seq (snd e)" and fit: "list_all kv_fits cs"
    and below: "\<And>e. e \<in> set cs \<Longrightarrow> seq (snd e) < ws_next_seq (db_write d)"
  shows "levels_ok E (ws @ [e]) (db_version d)"
    and "latest (F \<union> set (ws @ [e])) (visible (mem_of (ws @ [e]) # version_levels E (db_version d)))"
    and "seqs_below (ws_next_seq (db_write d)) (mem_of (ws @ [e]) # version_levels E (db_version d))"
    and "entries_size (ws @ [e]) + total_size (version_levels E (db_version d)) \<le> entries_size (filter (\<lambda>x. x \<in> F \<union> set (ws @ [e])) cs)"
proof -
  note i = db_logsD [OF l] and j = db_diskD [OF db_logsD(1) [OF l]]
  have mem: "(k, v) \<in> set (ws @ [e])" if "map_of (mem_of (ws @ [e])) k = Some v" for k v
    using map_of_SomeD [OF that] set_mem_of by blast
  have sub: "set (ws @ [e]) \<subseteq> set cs" using i(8) e(1) by simp
  have th: "th \<le> seq v" if "(k, v) \<in> set (ws @ [e])" for k v using i(6) [of "(k, v)"] e(3) that by auto
  have lt: "seq w < th" if "holds_version (version_levels E (db_version d)) k w" for k w
    using i(4) that by (auto simp: seqs_below_def)
  have "newest_first (mem_of (ws @ [e]) # version_levels E (db_version d))"
    using j(5) th lt mem unfolding levels_ok_def newest_first.simps by (meson less_le_trans)
  then show "levels_ok E (ws @ [e]) (db_version d)"
    using j(5) fit e(1) by (auto simp: levels_ok_def list_all_iff)
  have newer: "seq (snd f) < seq (snd x)" if "f \<in> F" "x \<in> set (ws @ [e])" for f x
    using i(5) [OF that(1)] th [of "fst x" "snd x"] that(2) unfolding prod.collapse by (blast intro: less_le_trans)
  have "seqs_unique (set (ws @ [e]))" by (rule claims_unique [OF s sub])
  then show "latest (F \<union> set (ws @ [e])) (visible (mem_of (ws @ [e]) # version_levels E (db_version d)))"
    by (intro latest_on_top [OF i(3)] newer)
  have "seq v < ws_next_seq (db_write d)" if "map_of (mem_of (ws @ [e])) k = Some v" for k v
    using below [of "(k, v)"] mem [OF that] sub by auto
  then show "seqs_below (ws_next_seq (db_write d)) (mem_of (ws @ [e]) # version_levels E (db_version d))"
    using j(7) by simp
  have "distinct cs" using s by (simp add: strict_sorted_iff distinct_map)
  from entries_size_insert [OF this e(1,2)] i(9)
  have "entries_size (ws @ [e]) + total_size (version_levels E (db_version d)) \<le> entries_size (filter (\<lambda>x. x \<in> insert e (F \<union> set ws)) cs)"
    by (simp only: entries_size_append)
  moreover have "insert e (F \<union> set ws) = F \<union> set (ws @ [e])" by auto
  ultimately show "entries_size (ws @ [e]) + total_size (version_levels E (db_version d)) \<le> entries_size (filter (\<lambda>x. x \<in> F \<union> set (ws @ [e])) cs)"
    by (simp only:)
qed

end
