(* ===== verification/Db_Threads_Steps.thy ===== *)
theory Db_Threads_Steps imports Db_Threads_Inv begin

text \<open>
  Every step of every thread preserves the invariant: logging a record, inserting it, a flush that finds
  no write in flight; and a thread that has no step is at rest or waits for another one.
\<close>

section \<open>Logging a record\<close>

context crash_fs
begin

lemma live_log:
  assumes live: "db_live xxh crc dir (Suc b) cs ak g" and c: "db_ctl n opts dir cs ak g" and p: "dt_pc g t = Logging e" and opts: "open_opts opts"
    and fit: "writes_fit (\<exists>s D. down s D) crc cs" and sz: "entries_size cs + 100 < 2 ^ 32"
    and a: "wal_append crc S (db_cfg (dt_db g)) (rec_bytes e) (db_wal (dt_db g)) = Some (r, W)"
  shows "db_live xxh crc dir b cs ak (dt_at t (case r of Inl err \<Rightarrow> Failing e err | Inr _ \<Rightarrow> Applying e) ((dt_db g)\<lparr>db_wal := W\<rparr>) g)
    \<or> db_gone xxh crc dir cs ak (dt_at t (case r of Inl err \<Rightarrow> Failing e err | Inr _ \<Rightarrow> Applying e) ((dt_db g)\<lparr>db_wal := W\<rparr>) g)"
proof -
  let ?d = "dt_db g" and ?p = "case r of Inl err \<Rightarrow> Failing e err | Inr _ \<Rightarrow> Applying e"
  let ?g = "dt_at t ?p (?d\<lparr>db_wal := W\<rparr>) g"
  from live obtain E ws as F th where up: "up (db_fs ?d)" "quiet_coord (coord (db_wal ?d))"
    and i: "db_logs xxh crc dir (Suc b) E ws F th cs ?d (disk (db_fs ?d))"
    "active_table (db_mem ?d) = apply_writes as memtable_new" "frozen_tables (db_mem ?d) = []" "db_tied F ws as th ak (dt_pc g)"
    by (rule db_liveE)
  note k = db_ctlD [OF c] and j = db_logsD [OF i(1)]
  have fits: "list_all kv_fits cs" and e: "kv_fits e" "(\<exists>s D. down s D) \<longrightarrow> flip_safe crc (rec_bytes e)"
    using fit k(4) [OF p] by (auto simp: writes_fit_def list_all_iff)
  note add = logs_add [OF i(1) k(7) k(4) [OF p] db_tiedD(3,4) [OF i(4) p] fits k(8)]
  let ?v = "db_version ?d"
  let ?M' = "visible (mem_of (ws @ [e]) # version_levels E ?v)"
  have room: "db_room (Suc b) (entries_size [e] + 0) E ws ?d"
    using j(2) add(4) entries_size_filter [of "\<lambda>x. x \<in> F \<union> set (ws @ [e])" cs] sz by (simp add: db_room_def)
  have dur: "is_durable (o_durability (db_options ?d))" using opts k(13) by (simp add: open_opts_def)
  from log_append_ok [OF up(1) j(1) up(2) dur e add(1) room refl refl] a
  have q: "r = Inr () \<Longrightarrow> quiet_coord (coord W)" "r = Inr () \<Longrightarrow> unat (next_seq (coord W)) \<le> unat (next_seq (coord (db_wal ?d))) + 1"
    and o: "(up (wfs W) \<and> r = Inr () \<and> store_inv xxh crc dir E (db_manifest ?d) (disk (wfs W))
          \<and> readers_ok xxh crc dir (v_next_id ?v) (db_readers ?d) (d_view (disk (wfs W)))
          \<and> log_at crc dir (disk (wfs W)) (active W) (map rec_bytes (ws @ [e]))
          \<and> unat (seg_id (active W)) \<le> unat (seg_id (active (db_wal ?d))) + 1)
       \<or> lost xxh crc dir {db_content E ws ?d, ?M'} (wfs W) \<and> (r = Inr () \<longrightarrow> lost xxh crc dir {?M'} (wfs W))"
    by auto
  have owed: "owed ak ?g \<subseteq> F \<union> set ws \<union> applying ?p"
    using owed_at [of ak "{}" t ?p "?d\<lparr>db_wal := W\<rparr>" g] tied_owed [OF i(4)] by (auto split: sum.splits)
  have sub: "F \<union> set (ws @ [e]) \<subseteq> set cs" using j(8) k(4) [OF p] by simp
  from o show ?thesis
  proof (elim disjE conjE)
    assume u: "up (wfs W)" "r = Inr ()" "store_inv xxh crc dir E (db_manifest ?d) (disk (wfs W))"
      "readers_ok xxh crc dir (v_next_id ?v) (db_readers ?d) (d_view (disk (wfs W)))"
      "log_at crc dir (disk (wfs W)) (active W) (map rec_bytes (ws @ [e]))"
      "unat (seg_id (active W)) \<le> unat (seg_id (active (db_wal ?d))) + 1"
    have "db_disk xxh crc dir E (ws @ [e]) (?d\<lparr>db_wal := W\<rparr>) (disk (wfs W))"
      using db_diskD [OF j(1)] u add by (simp add: db_disk_def)
    moreover have "db_room b 0 E (ws @ [e]) (?d\<lparr>db_wal := W\<rparr>)"
      using room u(6) q(2) [OF u(2)] by (simp add: db_room_def)
    ultimately have "db_logs xxh crc dir b E (ws @ [e]) F th cs (?d\<lparr>db_wal := W\<rparr>) (disk (wfs W))"
      using j sub add(4) db_tiedD(4) [OF i(4) p] unfolding db_logs_def by auto
    moreover have "db_tied F (ws @ [e]) as th ak ((dt_pc g)(t := Applying e))" by (rule tied_log [OF i(4) p k(6) [OF _ p]])
    ultimately have "db_live xxh crc dir b cs ak ?g"
      using i(2,3) u(1,2) q(1) by (intro db_liveI [where E = E and ws = "ws @ [e]" and as = as and F = F and th = th]) simp_all
    then show ?thesis ..
  next
    assume l: "lost xxh crc dir {db_content E ws ?d, ?M'} (wfs W)" "r = Inr () \<longrightarrow> lost xxh crc dir {?M'} (wfs W)"
    have new: ?thesis if "lost xxh crc dir {?M'} (wfs W)"
    proof -
      have "applying ?p \<subseteq> {e}" by (auto split: sum.splits)
      then have "owed ak ?g \<subseteq> F \<union> set (ws @ [e])" using owed by auto
      then show ?thesis using that by (intro disjI2 db_goneI [OF _ add(2) _ sub]) simp_all
    qed
    show ?thesis
    proof (cases r)
      case (Inl err)
      then have none: "owed ak ?g \<subseteq> F \<union> set ws" using owed by simp
      from l(1) have "lost xxh crc dir {db_content E ws ?d} (wfs W) \<or> lost xxh crc dir {?M'} (wfs W)" by (auto simp: lost_def)
      then show ?thesis
      proof
        assume "lost xxh crc dir {db_content E ws ?d} (wfs W)"
        then show ?thesis using none j(8) by (intro disjI2 db_goneI [OF _ logs_latest [OF i(1) k(7)]]) simp_all
      qed (rule new)
    next
      case (Inr x)
      then show ?thesis using l(2) new by simp
    qed
  qed
qed

lemma inv_log:
  assumes inv: "db_inv xxh crc (Suc b) opts dir cs ak g" and p: "dt_pc g t = Logging e" and opts: "open_opts opts"
    and fit: "writes_fit (\<exists>s D. down s D) crc cs" and sz: "entries_size cs + 100 < 2 ^ 32"
  shows "\<exists>r d. write_log crc S (seq (snd e)) (fst e) (kind (snd e)) (dt_db g) = Some (r, d)
    \<and> db_inv xxh crc b opts dir cs ak (dt_at t (case r of Inl err \<Rightarrow> Failing e err | Inr _ \<Rightarrow> Applying e) d g)"
proof -
  let ?d = "dt_db g" and ?p = "\<lambda>r. case r of Inl err \<Rightarrow> Failing e err | Inr _ \<Rightarrow> Applying e"
  have c: "db_ctl (Suc b) opts dir cs ak g" using inv by (simp add: db_inv_def)
  note k = db_ctlD [OF c]
  have dur: "is_durable (wal_durability (db_cfg ?d))" using opts k(13) by (simp add: open_opts_def db_cfg_def)
  have room: "unat (next_seq (coord (db_wal ?d))) + 1 < 2 ^ 64" using k(10) by simp
  obtain r W where a: "wal_append crc S (db_cfg ?d) (rec_bytes e) (db_wal ?d) = Some (r, W)" and tame: "tame_coord (coord W)"
    "unat (next_seq (coord W)) \<le> unat (next_seq (coord (db_wal ?d))) + 1"
    using wal_append_tame [OF dur k(11) room] by blast
  let ?d' = "?d\<lparr>db_wal := W\<rparr>" and ?g = "dt_at t (?p r) (?d\<lparr>db_wal := W\<rparr>) g"
  have w: "write_log crc S (seq (snd e)) (fst e) (kind (snd e)) ?d = Some (r, ?d')"
    using a by (simp add: write_log_def rec_bytes_def)
  have cl: "claimed (?p r) = []" "acked (?p r) = {}" by (cases r; simp)+
  have "db_ctl b opts dir (cs @ claimed (?p r)) (ak \<union> acked (?p r)) ?g"
    by (rule ctl_at [OF c]) (use tame p k(3) flying_room [OF c, of t] cl in \<open>auto split: sum.split\<close>)
  then have ctl: "db_ctl b opts dir cs ak ?g" by (simp only: cl append_Nil2 Un_empty_right)
  have "db_live xxh crc dir b cs ak ?g \<or> db_gone xxh crc dir cs ak ?g"
    using inv unfolding db_inv_def
  proof (elim conjE disjE)
    assume gone: "db_gone xxh crc dir cs ak g"
    obtain D where "down (wfs (db_wal ?d)) D" using gone_down [OF gone] by blast
    from wal_append_tame_down [OF this dur k(11) room, of crc "rec_bytes e"] a obtain err where "r = Inl err" "wfs W = db_fs ?d" by fastforce
    then show ?thesis using gone_at [OF gone, of ?d' "?p r" "{}" t "[]"] by simp
  next
    assume "db_live xxh crc dir (Suc b) cs ak g"
    then show ?thesis by (rule live_log [OF _ c p opts fit sz a])
  qed
  then show ?thesis using w ctl by (blast intro: db_invI)
qed

section \<open>Applying and flushing\<close>

lemma inv_apply:
  assumes inv: "db_inv xxh crc (Suc b) opts dir cs ak g" and p: "dt_pc g t = Applying e"
  shows "db_inv xxh crc b opts dir cs ak (dt_at t (Leaving e) (write_apply (seq (snd e)) (fst e) (kind (snd e)) (dt_db g)) g)"
proof (rule db_invI)
  let ?d = "dt_db g" and ?m = "set_insert_if_newer (fst e) (snd e) (db_mem (dt_db g))"
  have w: "write_apply (seq (snd e)) (fst e) (kind (snd e)) ?d = ?d\<lparr>db_mem := ?m\<rparr>"
    by (cases "snd e") (simp add: write_apply_def)
  have c: "db_ctl (Suc b) opts dir cs ak g" using inv by (simp add: db_inv_def)
  have "db_ctl b opts dir (cs @ claimed (Leaving e)) (ak \<union> acked (Leaving e)) (dt_at t (Leaving e) (?d\<lparr>db_mem := ?m\<rparr>) g)"
    by (rule ctl_at [OF c]) (use p db_ctlD(3,11) [OF c] flying_room [OF c, of t] in auto)
  then show "db_ctl b opts dir cs ak (dt_at t (Leaving e) (write_apply (seq (snd e)) (fst e) (kind (snd e)) ?d) g)"
    by (simp only: w pc_simps append_Nil2 Un_empty_right)
  show "db_live xxh crc dir b cs ak (dt_at t (Leaving e) (write_apply (seq (snd e)) (fst e) (kind (snd e)) ?d) g)
    \<or> db_gone xxh crc dir cs ak (dt_at t (Leaving e) (write_apply (seq (snd e)) (fst e) (kind (snd e)) ?d) g)"
    using inv unfolding db_inv_def
  proof (elim conjE disjE)
    assume "db_live xxh crc dir (Suc b) cs ak g"
    then obtain E ws as F th where up: "up (db_fs ?d)" "quiet_coord (coord (db_wal ?d))"
      and i: "db_logs xxh crc dir (Suc b) E ws F th cs ?d (disk (db_fs ?d))"
      "active_table (db_mem ?d) = apply_writes as memtable_new" "frozen_tables (db_mem ?d) = []" "db_tied F ws as th ak (dt_pc g)"
      by (rule db_liveE)
    have "db_logs xxh crc dir b E ws F th cs ?d (disk (db_fs ?d))" using logs_room [OF i(1)] by simp
    moreover have "active_table ?m = apply_writes (as @ [e]) memtable_new" "frozen_tables ?m = []"
      using i(2,3) apply_writes_snoc [of as "fst e" "snd e"] by (simp_all add: set_insert_if_newer_def)
    ultimately have "db_live xxh crc dir b cs ak (dt_at t (Leaving e) (?d\<lparr>db_mem := ?m\<rparr>) g)"
      using up tied_apply [OF i(4) p]
      by (intro db_liveI [where E = E and ws = ws and as = "as @ [e]" and F = F and th = th]) (simp_all add: logs_mem)
    then show ?thesis unfolding w ..
  next
    assume "db_gone xxh crc dir cs ak g"
    from gone_at [OF this, of "?d\<lparr>db_mem := ?m\<rparr>" "Leaving e" "{}" t "[]"] p show ?thesis unfolding w by simp
  qed
qed

lemma live_flush:
  assumes live: "db_live xxh crc dir (Suc b) cs ak g" and c: "db_ctl n opts dir cs ak g" and p: "dt_pc g t = Quiescing eo"
    and idle: "ws_in_flight (db_write (dt_db g)) = 0" and opts: "open_opts opts" and sz: "entries_size cs + 100 < 2 ^ 32"
  shows "\<exists>r d. flush_quiesced xxh crc S (dt_db g) = Some (r, d) \<and> same_memory (dt_db g) d
    \<and> (db_live xxh crc dir b cs (ak \<union> acked (Returned eo r)) (dt_at t (Returned eo r) (set_pending False d) g)
      \<or> db_gone xxh crc dir cs (ak \<union> acked (Returned eo r)) (dt_at t (Returned eo r) (set_pending False d) g))"
proof -
  let ?d = "dt_db g"
  from live obtain E ws as F th where up: "up (db_fs ?d)" "quiet_coord (coord (db_wal ?d))"
    and i: "db_logs xxh crc dir (Suc b) E ws F th cs ?d (disk (db_fs ?d))"
    "active_table (db_mem ?d) = apply_writes as memtable_new" "frozen_tables (db_mem ?d) = []" "db_tied F ws as th ak (dt_pc g)"
    by (rule db_liveE)
  note k = db_ctlD [OF c] and j = db_logsD [OF i(1)] and quiet = no_flying [OF c idle]
  note tied = tied_flush [OF i(4) quiet p]
  let ?L = "version_levels E (db_version ?d)" and ?M = "db_content E ws ?d"
  have u: "seqs_unique (set ws)" by (rule claims_unique [OF k(7)]) (use j(8) in blast)
  have mem: "mem_is ws ?d" using i(2,3) mem_of_same [OF u tied(2)] by (simp add: mem_is_def)
  have fan: "2 \<le> o_tier_fanout (db_options ?d)" using opts k(13) by (simp add: open_opts_def)
  have small: "entries_size ws + total_size ?L + 100 < 2 ^ 32" using j(2) by (simp add: db_room_def)
  then obtain U where U: "entries_size ws + total_size ?L + U + 101 = 2 ^ 32"
    by (intro that [of "2 ^ 32 - 101 - (entries_size ws + total_size ?L)"]) simp
  have room: "db_room (Suc b) U E ws ?d" using j(2) U by (simp add: db_room_def)
  have M: "latest (F \<union> set ws) ?M" by (rule logs_latest [OF i(1) k(7)])
  from flush_quiesced_ok [OF up(1) j(1) mem fan room] obtain r d where f: "flush_quiesced xxh crc S ?d = Some (r, d)" "same_memory ?d d"
    and o: "(up (db_fs d) \<and> r = Inr () \<and> mem_is [] d \<and> (\<exists>E'. db_disk xxh crc dir E' [] d (disk (db_fs d))
        \<and> db_content E' [] d = ?M \<and> db_room b U E' [] d)) \<or> lost xxh crc dir {?M} (db_fs d)" by blast
  let ?g = "dt_at t (Returned eo r) (set_pending False d) g"
  from o have "db_live xxh crc dir b cs (ak \<union> acked (Returned eo r)) ?g \<or> db_gone xxh crc dir cs (ak \<union> acked (Returned eo r)) ?g"
  proof (elim disjE conjE exE)
    fix E' assume d: "up (db_fs d)" "r = Inr ()" "mem_is [] d" "db_disk xxh crc dir E' [] d (disk (db_fs d))"
      "db_content E' [] d = ?M" "db_room b U E' [] d"
    have vis: "visible (version_levels E' (db_version d)) = ?M" using d(5) by (simp add: db_content_def)
    have wr: "db_write d = db_write ?d" "coord (db_wal d) = coord (db_wal ?d)" using f(2) by (simp_all add: same_memory_def)
    have "total_size (version_levels E' (db_version d)) \<le> entries_size ws + total_size ?L"
      using d(6) U unfolding db_room_def by linarith
    then have size: "total_size (version_levels E' (db_version d)) \<le> entries_size (filter (\<lambda>e. e \<in> F \<union> set ws) cs)" using j(9) by simp
    have "db_room b 0 E' [] d" using d(6) by (simp add: db_room_def)
    then have "db_logs xxh crc dir b E' [] (F \<union> set ws) (ws_next_seq (db_write ?d)) cs d (disk (db_fs d))"
      using d(4) M j(8) k(8) size db_diskD(7) [OF d(4)] unfolding db_logs_def vis by (auto simp: wr entries_size_def)
    then have "db_live xxh crc dir b cs (ak \<union> acked (Returned eo r)) ?g"
      using d(1,2,3) up(2) tied(1) wr
      by (intro db_liveI [where E = E' and ws = "[]" and as = "[]" and F = "F \<union> set ws" and th = "ws_next_seq (db_write ?d)"])
         (simp_all add: mem_is_def db_logs_def)
    then show ?thesis ..
  next
    assume l: "lost xxh crc dir {?M} (db_fs d)"
    have "acked (Returned eo r) \<subseteq> applied (dt_pc g t)" unfolding p by (cases r) auto
    then have "acked (Returned eo r) \<subseteq> F \<union> set ws" using tied_owed [OF i(4)] owed_mem [of _ g t ak] by blast
    then have "owed (ak \<union> acked (Returned eo r)) ?g \<subseteq> F \<union> set ws"
      using owed_at [of ak "acked (Returned eo r)" t "Returned eo r" "set_pending False d" g] tied_owed [OF i(4)]
      by (simp only: pc_simps Un_empty_right) blast
    then show ?thesis using l j(8) M by (intro disjI2 db_goneI [OF _ M]) simp_all
  qed
  then show ?thesis using f by blast
qed

lemma inv_flush:
  assumes inv: "db_inv xxh crc (Suc b) opts dir cs ak g" and p: "dt_pc g t = Quiescing eo"
    and idle: "ws_in_flight (db_write (dt_db g)) = 0" and opts: "open_opts opts" and sz: "entries_size cs + 100 < 2 ^ 32"
  shows "\<exists>r d. flush_quiesced xxh crc S (dt_db g) = Some (r, d)
    \<and> db_inv xxh crc b opts dir cs (ak \<union> acked (Returned eo r)) (dt_at t (Returned eo r) (set_pending False d) g)"
proof -
  let ?d = "dt_db g"
  have c: "db_ctl (Suc b) opts dir cs ak g" using inv by (simp add: db_inv_def)
  note k = db_ctlD [OF c]
  have ctl: "db_ctl b opts dir cs (ak \<union> acked (Returned eo r)) (dt_at t (Returned eo r) (set_pending False d) g)"
    if m: "same_memory ?d d" for r d
  proof -
    have "db_ctl b opts dir (cs @ claimed (Returned eo r)) (ak \<union> acked (Returned eo r)) (dt_at t (Returned eo r) (set_pending False d) g)"
      by (rule ctl_at [OF c]) (use m p k(11) in \<open>cases r; auto simp: same_memory_def\<close>)+
    then show ?thesis by simp
  qed
  have "\<exists>r d. flush_quiesced xxh crc S ?d = Some (r, d) \<and> same_memory ?d d
    \<and> (db_live xxh crc dir b cs (ak \<union> acked (Returned eo r)) (dt_at t (Returned eo r) (set_pending False d) g)
      \<or> db_gone xxh crc dir cs (ak \<union> acked (Returned eo r)) (dt_at t (Returned eo r) (set_pending False d) g))"
    using inv unfolding db_inv_def
  proof (elim conjE disjE)
    assume "db_live xxh crc dir (Suc b) cs ak g"
    then show ?thesis by (rule live_flush [OF _ c p idle opts sz])
  next
    assume gone: "db_gone xxh crc dir cs ak g"
    obtain D where "down (db_fs ?d) D" using gone_down [OF gone] by blast
    then obtain e d where f: "flush_quiesced xxh crc S ?d = Some (Inl e, d)" "same_memory ?d d" "db_fs d = db_fs ?d"
      using flush_quiesced_down by blast
    have "db_gone xxh crc dir cs (ak \<union> acked (Returned eo (Inl e))) (dt_at t (Returned eo (Inl e)) (set_pending False d) g)"
      using gone_at [OF gone, of "set_pending False d" "Returned eo (Inl e)" "{}" t "[]"] f(3) by simp
    then show ?thesis using f by blast
  qed
  then show ?thesis using ctl by (blast intro: db_invI)
qed

section \<open>Every step\<close>

definition db_next :: "hash128 \<Rightarrow> crc \<Rightarrow> nat \<Rightarrow> options \<Rightarrow> path \<Rightarrow> entry list \<Rightarrow> entry set \<Rightarrow> nat \<Rightarrow> 'fs dbt \<Rightarrow> bool" where
  "db_next xxh crc b opts dir cs ak t g \<longleftrightarrow> db_inv xxh crc b opts dir (cs @ claimed (dt_pc g t)) (ak \<union> acked (dt_pc g t)) g"

lemma next_control:
  "db_inv xxh crc (Suc b) opts dir cs ak g \<Longrightarrow>
   ws_in_flight w = ws_in_flight (db_write (dt_db g)) - (if flying (dt_pc g t) then 1 else 0) + (if flying p then 1 else 0) \<Longrightarrow>
   (ws_flush_pending w \<Longrightarrow> quiescing p \<or> ws_flush_pending (db_write (dt_db g)) \<and> \<not> quiescing (dt_pc g t)) \<Longrightarrow>
   claimed p = [] \<and> ws_next_seq w = ws_next_seq (db_write (dt_db g))
      \<or> (\<exists>k vk. p = Logging (k, \<lparr>seq = ws_next_seq (db_write (dt_db g)), kind = vk\<rparr>) \<and> ws_next_seq w = ws_next_seq (db_write (dt_db g)) + 1) \<Longrightarrow>
   applying p = {} \<Longrightarrow> applying (dt_pc g t) = {} \<Longrightarrow> applied p \<union> acked p \<subseteq> applied (dt_pc g t) \<Longrightarrow>
   (failed p \<Longrightarrow> failed (dt_pc g t)) \<Longrightarrow> d = (dt_db g)\<lparr>db_write := w\<rparr> \<Longrightarrow> c \<le> b \<Longrightarrow>
   db_next xxh crc c opts dir cs ak t (dt_at t p d g)"
  unfolding db_next_def using inv_control [of xxh crc b opts dir cs ak g w t p] db_inv_mono by simp

lemma finish_flush_next:
  assumes "db_inv xxh crc (Suc b) opts dir cs ak g" and "dt_pc g t = Quiescing eo"
    and "ws_in_flight (db_write (dt_db g)) = 0" and "open_opts opts" and "entries_size cs + 100 < 2 ^ 32"
  shows "\<exists>g'. finish_flush xxh crc S t eo g = Some g' \<and> db_next xxh crc b opts dir cs ak t g'"
  using inv_flush [OF assms] by (auto simp: finish_flush_def db_next_def)

lemma finish_flush_at: "finish_flush xxh crc S t eo (dt_at t p d g) = finish_flush xxh crc S t eo (g\<lparr>dt_db := d\<rparr>)"
  by (simp add: finish_flush_def dt_at_def)

lemma enter_flush_next:
  assumes inv: "db_inv xxh crc (Suc (Suc b)) opts dir cs ak g" and opts: "open_opts opts" and sz: "entries_size cs + 100 < 2 ^ 32"
    and w: "ws_in_flight w = ws_in_flight (db_write (dt_db g)) - (if flying (dt_pc g t) then 1 else 0)"
      "ws_next_seq w = ws_next_seq (db_write (dt_db g))"
    and p: "applying (dt_pc g t) = {}" "set_option eo \<subseteq> applied (dt_pc g t)"
  shows "\<exists>g'. enter_flush xxh crc S t eo (g\<lparr>dt_db := (dt_db g)\<lparr>db_write := w\<rparr>\<rparr>) = Some g' \<and> db_next xxh crc b opts dir cs ak t g'"
proof -
  let ?d = "(dt_db g)\<lparr>db_write := w\<lparr>ws_flush_pending := True\<rparr>\<rparr>"
  let ?g = "dt_at t (Quiescing eo) ?d g"
  have "db_next xxh crc (Suc b) opts dir cs ak t ?g"
    by (rule next_control [OF inv, of "w\<lparr>ws_flush_pending := True\<rparr>"]) (use w p in simp_all)
  then have inv1: "db_inv xxh crc (Suc b) opts dir cs ak ?g" by (simp add: db_next_def)
  have e: "enter_flush xxh crc S t eo (g\<lparr>dt_db := (dt_db g)\<lparr>db_write := w\<rparr>\<rparr>)
    = (if 0 < ws_in_flight w then Some ?g else finish_flush xxh crc S t eo ?g)"
    unfolding finish_flush_at by (simp add: enter_flush_def set_pending_def Let_def dt_at_def)
  show ?thesis
  proof (cases "0 < ws_in_flight w")
    case True
    have "db_next xxh crc b opts dir cs ak t ?g" using db_inv_mono [OF inv1, of b] by (simp add: db_next_def)
    then show ?thesis using e True by simp
  next
    case False
    then show ?thesis using e finish_flush_next [OF inv1 _ _ opts sz, of t eo] by simp
  qed
qed

text \<open>A thread that cannot step is at rest, or waits for a flush, or waits for the writes in flight.\<close>

definition waits :: "nat \<Rightarrow> 'fs dbt \<Rightarrow> bool" where
  "waits t g \<longleftrightarrow> dt_pc g t = Resting \<or> (\<not> flying (dt_pc g t) \<and> \<not> quiescing (dt_pc g t) \<and> ws_flush_pending (db_write (dt_db g)))
     \<or> (quiescing (dt_pc g t) \<and> 0 < ws_in_flight (db_write (dt_db g)))"

lemma step_next:
  assumes inv: "db_inv xxh crc (Suc (Suc b)) opts dir cs ak g" and opts: "open_opts opts"
    and fit: "writes_fit (\<exists>s D. down s D) crc cs" and sz: "entries_size cs + 100 < 2 ^ 32"
  shows "(case dt_step xxh crc S t g of None \<Rightarrow> waits t g | Some g' \<Rightarrow> db_next xxh crc b opts dir cs ak t g')"
proof (cases "dt_pc g t")
  case Resting
  then show ?thesis by (simp add: dt_step_def waits_def)
next
  case (Claiming k vk)
  let ?ws = "db_write (dt_db g)"
  have "db_next xxh crc b opts dir cs ak t (dt_at t (Logging (k, \<lparr>seq = ws_next_seq ?ws, kind = vk\<rparr>))
      ((dt_db g)\<lparr>db_write := ?ws\<lparr>ws_next_seq := ws_next_seq ?ws + 1, ws_in_flight := ws_in_flight ?ws + 1\<rparr>\<rparr>) g)"
    if "\<not> ws_flush_pending ?ws"
    by (rule next_control [OF inv]) (use Claiming that in simp_all)
  then show ?thesis using Claiming by (auto simp: dt_step_def waits_def write_claim_def Let_def)
next
  case (Logging e)
  obtain r d where w: "write_log crc S (seq (snd e)) (fst e) (kind (snd e)) (dt_db g) = Some (r, d)"
    and n: "db_inv xxh crc (Suc b) opts dir cs ak (dt_at t (case r of Inl err \<Rightarrow> Failing e err | Inr _ \<Rightarrow> Applying e) d g)"
    using inv_log [OF inv Logging opts fit sz] by blast
  from db_inv_mono [OF n, of b] show ?thesis
    using Logging w by (cases r) (simp_all add: dt_step_def db_next_def)
next
  case (Failing e err)
  have "db_next xxh crc b opts dir cs ak t (dt_at t (Returned (Some e) (Inl (Db_storage err)))
      ((dt_db g)\<lparr>db_write := (db_write (dt_db g))\<lparr>ws_in_flight := ws_in_flight (db_write (dt_db g)) - 1\<rparr>\<rparr>) g)"
    by (rule next_control [OF inv]) (use Failing in simp_all)
  then show ?thesis using Failing by (simp add: dt_step_def write_leave_def Let_def)
next
  case (Applying e)
  then show ?thesis using inv_apply [OF inv Applying] db_inv_mono by (auto simp: dt_step_def db_next_def Let_def)
next
  case (Leaving e)
  let ?w = "(db_write (dt_db g))\<lparr>ws_in_flight := ws_in_flight (db_write (dt_db g)) - 1\<rparr>"
  have "\<exists>g'. enter_flush xxh crc S t (Some e) (g\<lparr>dt_db := (dt_db g)\<lparr>db_write := ?w\<rparr>\<rparr>) = Some g' \<and> db_next xxh crc b opts dir cs ak t g'"
    by (rule enter_flush_next [OF inv opts sz]) (use Leaving in simp_all)
  moreover have "db_next xxh crc b opts dir cs ak t (dt_at t (Returned (Some e) (Inr ())) ((dt_db g)\<lparr>db_write := ?w\<rparr>) g)"
    by (rule next_control [OF inv]) (use Leaving in simp_all)
  ultimately show ?thesis using Leaving by (auto simp: dt_step_def write_leave_def Let_def)
next
  case (Quiescing eo)
  then show ?thesis
    using finish_flush_next [OF db_inv_mono [OF inv, of "Suc b"] Quiescing _ opts sz] by (auto simp: dt_step_def waits_def Let_def)
next
  case (Returned eo r)
  then show ?thesis
    by (auto simp: dt_step_def Let_def intro!: next_control [OF inv, of "db_write (dt_db g)"])
qed

lemma call_next:
  assumes inv: "db_inv xxh crc (Suc (Suc b)) opts dir cs ak g" and opts: "open_opts opts" and sz: "entries_size cs + 100 < 2 ^ 32"
    and rest: "dt_pc g t = Resting"
  shows "\<exists>g'. dt_call xxh crc S t c g = Some g' \<and> db_inv xxh crc b opts dir cs ak g'"
proof (cases c)
  case (Call_write k vk)
  have "db_next xxh crc b opts dir cs ak t (dt_at t (Claiming k vk) (dt_db g) g)"
    by (rule next_control [OF inv, of "db_write (dt_db g)"]) (use rest in simp_all)
  then show ?thesis by (simp add: Call_write dt_call_def db_next_def)
next
  case Call_flush
  have "\<exists>g'. enter_flush xxh crc S t None (g\<lparr>dt_db := (dt_db g)\<lparr>db_write := db_write (dt_db g)\<rparr>\<rparr>) = Some g' \<and> db_next xxh crc b opts dir cs ak t g'"
    by (rule enter_flush_next [OF inv opts sz]) (use rest in simp_all)
  then obtain g' where e: "enter_flush xxh crc S t None g = Some g'" "db_next xxh crc b opts dir cs ak t g'" by auto
  have "dt_pc g' t = Quiescing None \<or> (\<exists>r. dt_pc g' t = Returned None r)"
    using e(1) by (auto simp: enter_flush_def finish_flush_def Let_def split: if_splits)
  then have "claimed (dt_pc g' t) = []" "acked (dt_pc g' t) = {}" by (auto simp: acked_def)
  then show ?thesis using e by (simp add: Call_flush dt_call_def db_next_def)
qed

end

end
