(* ===== verification/Db_Threads_Run.thy ===== *)
theory Db_Threads_Run imports Db_Threads_Steps begin

text \<open>
  Runs of the engine with many threads, from opening: what is read while it runs, what the reopened
  engine shows after a power loss, and that the threads never all wait for one another.
\<close>

section \<open>Runs\<close>

lemma writes_fit_append [simp]: "writes_fit c crc (xs @ ys) \<longleftrightarrow> writes_fit c crc xs \<and> writes_fit c crc ys"
  by (simp add: writes_fit_def)

context crash_fs
begin

lemma reach_inv:
  assumes "dt_reach xxh crc S g0 n cs ak g" and "db_inv xxh crc (2 * n + b) opts dir [] {} g0" and "open_opts opts"
    and "writes_fit (\<exists>s D. down s D) crc cs" and "entries_size cs + 100 < 2 ^ 32"
  shows "db_inv xxh crc b opts dir cs ak g"
  using assms
proof (induction arbitrary: b)
  case (call n cs ak g t c g')
  have "db_inv xxh crc (Suc (Suc b)) opts dir cs ak g" using call.prems by (intro call.IH) simp_all
  from call_next [OF this call.prems(2,4) call.hyps(2), of c] show ?case using call.hyps(3) by auto
next
  case (step n cs ak g t g')
  have "db_inv xxh crc (Suc (Suc b)) opts dir cs ak g" using step.prems by (intro step.IH) simp_all
  from step_next [OF this step.prems(2), of t] show ?case using step.hyps(2) step.prems(3,4) by (simp add: db_next_def)
qed simp

lemma start_ctl:
  assumes o: "db_open crc S dir opts s = (Inr d, s1)" and q: "unat (ws_next_seq (db_write d)) + b + 1 < 2 ^ 63"
  shows "db_ctl b opts dir [] {} (dt_start d)"
proof -
  note mem = db_open_memory [OF o]
  show ?thesis using mem(2-6) q by (simp add: db_ctl_def dt_start_def owed_def tame_coord_def default_coord_def)
qed

text \<open>Opening an empty directory.\<close>

lemma open_start:
  assumes s: "up s" and set: "settled dir (disk s)" and st: "stored_or_new xxh crc dir E version_empty (d_view (disk s))"
    and log: "log_has crc dir (d_view (disk s)) (map rec_bytes [])" and free: "\<And>p. d_view (disk s) p = None"
    and b: "b < 2 ^ 30" and opts: "open_opts opts" and o: "db_open crc S dir opts s = (r, s1)"
  shows "(\<exists>d. r = Inr d \<and> up s1 \<and> db_inv xxh crc b opts dir [] {} (dt_start d)) \<or> lost xxh crc dir {Map.empty} s1"
proof -
  let ?T = "{i :: u64. unat i + 2 * b + 1 < 2 ^ 63}"
  have lv: "levels_ok E [] version_empty" and M: "Map.empty = visible (mem_of [] # version_levels E version_empty)"
    using fresh_dir(3,4) by simp_all
  have T: "insert 1 {i. d_view (disk s) (segment_path dir i) \<noteq> None} \<subseteq> ?T" using b free by simp
  from db_open_ok [OF s set st log lv M T o] show ?thesis
  proof (elim disjE exE conjE)
    fix d assume d: "r = Inr d" "up s1" "db_opened xxh crc dir E version_empty [] ?T d (disk s1)"
      "(\<forall>tid. v_next_id version_empty \<le> tid \<longrightarrow> d_view (disk s) (table_path dir tid) = None) \<longrightarrow> store_inv xxh crc dir E (db_manifest d) (disk s1)"
    note mem = db_open_memory [OF o [unfolded d(1)]]
    have room: "open_room b 0 E version_empty []"
      using b by (simp add: open_room_def entries_size_def total_size_def version_levels_def version_empty_def table_count_def all_tables_def tables_newest_first_def)
    have v: "db_version d = version_empty" "mem_is [] d" "ws_next_seq (db_write d) = 1"
      using d(3) fresh_dir(5) by (simp_all add: db_opened_def opened_manifest_def)
    have "store_inv xxh crc dir E (db_manifest d) (disk s1)" using d(4) free by blast
    from db_opened_good [OF o [unfolded d(1)] opts d(2,3) this lv room] have "db_good xxh crc dir Map.empty b 0 d" by (simp only: M)
    then obtain E' ws where g: "db_disk xxh crc dir E' ws d (disk (db_fs d))" "mem_is ws d" "db_room b 0 E' ws d" "quiet_coord (coord (db_wal d))"
      by (auto simp: db_good_def db_idle_def)
    have "apply_writes ws memtable_new = memtable_new" using g(2) v(2) by (simp add: mem_is_def)
    then have ws: "ws = []" using mem_of_nonempty [of ws] by (cases "ws = []") (simp_all add: mem_of_def memtable_new_def)
    have lvl: "version_levels E' (db_version d) = []"
      unfolding v(1) by (simp add: version_levels_def version_empty_def tables_newest_first_def)
    have "db_logs xxh crc dir b E' [] {} 0 [] d (disk (db_fs d))"
      using g(1,3) unfolding ws db_logs_def lvl by (simp add: latest_def newest_def entries_size_def total_size_def visible_def)
    moreover have "db_tied {} [] [] 0 {} (dt_pc (dt_start d))" by (simp add: db_tied_def dt_start_def)
    ultimately have "db_live xxh crc dir b [] {} (dt_start d)"
      using d(2) mem(1) g(4) v(2)
      by (intro db_liveI [where E = E' and ws = "[]" and as = "[]" and F = "{}" and th = 0]) (simp_all add: dt_start_def mem_is_def)
    moreover have "db_ctl b opts dir [] {} (dt_start d)"
      by (rule start_ctl [OF o [unfolded d(1)]]) (use b v(3) in simp)
    ultimately show ?thesis using d(1,2) by (blast intro: db_invI)
  qed simp
qed

text \<open>What the invariant promises of a running engine, of a power loss, and of the threads.\<close>

lemma live_reads:
  assumes l: "db_live xxh crc dir b cs ak g" and c: "db_ctl n opts dir cs ak g"
  shows "\<exists>A M. ak \<subseteq> A \<and> A \<subseteq> set cs \<and> latest A M \<and> (\<forall>key. fst (db_get xxh crc S key (dt_db g)) = Inr (M key))"
    and "\<not> failed (dt_pc g t)"
proof -
  let ?d = "dt_db g"
  from l obtain E ws as F th where up: "up (db_fs ?d)" "quiet_coord (coord (db_wal ?d))"
    and i: "db_logs xxh crc dir b E ws F th cs ?d (disk (db_fs ?d))"
    "active_table (db_mem ?d) = apply_writes as memtable_new" "frozen_tables (db_mem ?d) = []" "db_tied F ws as th ak (dt_pc g)"
    by (rule db_liveE)
  note j = db_logsD [OF i(1)] and k = db_diskD [OF db_logsD(1) [OF i(1)]]
  show "\<not> failed (dt_pc g t)" by (rule db_tiedD(5) [OF i(4)])
  have as: "set as \<subseteq> set ws" using db_tiedD(1) [OF i(4)] by blast
  let ?M = "visible (mem_of as # version_levels E (db_version ?d))"
  have "seqs_unique (set as)" by (rule claims_unique [OF db_ctlD(7) [OF c]]) (use as j(8) in blast)
  then have M: "latest (F \<union> set as) ?M"
    by (rule latest_on_top [OF j(3), rotated]) (meson as j(5,6) less_le_trans subsetD)
  have "mem_levels (db_mem ?d) @ version_levels E (db_version ?d) = mem_of as # version_levels E (db_version ?d)"
    using i(2,3) by (simp add: mem_levels_def mem_of_def)
  then have "fst (db_get xxh crc S key ?d) = Inr (?M key)" for key
    using db_get_ok [OF up(1) k(1) refl k(4) db_disk_tables(2) [OF j(1)], of key] by auto
  moreover have "ak \<subseteq> F \<union> set as" "F \<union> set as \<subseteq> set cs" using db_tiedD(2) [OF i(4)] as j(8) by blast+
  ultimately show "\<exists>A M. ak \<subseteq> A \<and> A \<subseteq> set cs \<and> latest A M \<and> (\<forall>key. fst (db_get xxh crc S key ?d) = Inr (M key))"
    using M by blast
qed

lemma live_image:
  assumes l: "db_live xxh crc dir b cs ak g" and c: "db_ctl n opts dir cs ak g"
    and vw: "\<And>p. vw p \<in> d_images (disk (db_fs (dt_db g))) p"
  shows "\<exists>A M. ak \<subseteq> A \<and> A \<subseteq> set cs \<and> latest A M \<and> db_image xxh crc dir M vw"
proof -
  from l obtain E ws as F th where i: "db_logs xxh crc dir b E ws F th cs (dt_db g) (disk (db_fs (dt_db g)))" "db_tied F ws as th ak (dt_pc g)"
    by (rule db_liveE)
  note j = db_logsD [OF i(1)]
  have "ak \<subseteq> F \<union> set ws" using tied_owed [OF i(2)] by (auto simp: owed_def)
  then show ?thesis
    using j(8) logs_latest [OF i(1) db_ctlD(7) [OF c]] safe_disk_image [OF db_disk_safe [OF j(1)] vw] by blast
qed

lemma inv_progress:
  assumes inv: "db_inv xxh crc (Suc (Suc b)) opts dir cs ak g" and opts: "open_opts opts"
    and fit: "writes_fit (\<exists>s D. down s D) crc cs" and sz: "entries_size cs + 100 < 2 ^ 32" and busy: "dt_pc g t \<noteq> Resting"
  shows "\<exists>u g'. dt_step xxh crc S u g = Some g'"
proof (rule ccontr)
  assume "\<not> ?thesis"
  then have w: "waits u g" for u using step_next [OF inv opts fit sz, of u] by (simp split: option.splits)
  have c: "db_ctl (Suc (Suc b)) opts dir cs ak g" using inv by (simp add: db_inv_def)
  have none: "\<not> flying (dt_pc g u)" for u using w [of u] by (cases "dt_pc g u") (auto simp: waits_def)
  then have idle: "ws_in_flight (db_write (dt_db g)) = 0" using db_ctlD(2) [OF c] by simp
  then have "ws_flush_pending (db_write (dt_db g))" using w [of t] busy by (simp add: waits_def)
  then obtain u where "quiescing (dt_pc g u)" using db_ctlD(3) [OF c] by blast
  then show False using w [of u] idle by (auto simp: waits_def)
qed

end

section \<open>On the simulator\<close>

text \<open>A fresh simulated disk behind the injector, armed or not.\<close>

definition fresh_injector :: "nat option \<Rightarrow> (u64 \<Rightarrow> 'r) \<Rightarrow> u64 \<Rightarrow> 'r injector" where
  "fresh_injector ko seeded seed = injector_new ((sim_new seeded seed)\<lparr>crash_after := ko\<rparr>)"

lemma fresh_injector_up:
  "gen_ok G \<Longrightarrow> inj_up G (fresh_injector ko seeded seed)" "inj_disk (fresh_injector ko seeded seed) = sim_disk (sim_new seeded seed)"
  using sim_new_ok [of seeded seed]
  by (simp_all add: fresh_injector_def inj_up_def injector_new_def inj_disk_def sim_ok_def sim_disk_def)

lemma threads_start_inj:
  assumes G: "gen_ok G" and opts: "open_opts opts" and b: "b < 2 ^ 30"
    and o: "db_open crc (injector G) dir opts (fresh_injector ko seeded seed) = (Inr d0, s0)" and up: "\<not> halted s0"
  shows "crash_fs.db_inv (inj_up G) inj_disk (inj_down G) inj_survivor xxh crc b opts dir [] {} (dt_start d0)"
proof -
  note fresh = sim_new_fresh [where seeded = seeded and seed = seed]
  have "(\<exists>d. Inr d0 = (Inr d :: db_error + 'a injector db) \<and> inj_up G s0
        \<and> crash_fs.db_inv (inj_up G) inj_disk (inj_down G) inj_survivor xxh crc b opts dir [] {} (dt_start d))
      \<or> crash_fs.lost (inj_down G) inj_survivor xxh crc dir {Map.empty} s0"
    by (rule crash_fs.open_start [OF inj.crash_fs_axioms fresh_injector_up(1) [OF G] _ _ _ _ b opts o, where E = "\<lambda>_. []"])
       (use fresh fresh_dir in \<open>auto simp: fresh_injector_up(2)\<close>)
  moreover have "\<not> inj_down G s0 D" for D using up by (simp add: inj_down_def)
  ultimately show ?thesis by (auto simp: crash_fs.lost_def [OF inj.crash_fs_axioms])
qed

lemma threads_inv_inj:
  assumes G: "gen_ok G" and opts: "is_durable (o_durability opts)" "2 \<le> o_tier_fanout opts"
    and o: "db_open crc (injector G) dir opts (fresh_injector ko seeded seed) = (Inr d0, s0)" and up: "\<not> halted s0"
    and run: "dt_reach xxh crc (injector G) (dt_start d0) n cs ak g"
    and room: "n < 2 ^ 28" "entries_size cs + 100 < 2 ^ 32" "writes_fit True crc cs"
  shows "crash_fs.db_inv (inj_up G) inj_disk (inj_down G) inj_survivor xxh crc 2 opts dir cs ak g"
proof -
  have opn: "open_opts opts" using opts by (simp add: open_opts_def)
  have "2 * n + 2 < 2 ^ 30" using room(1) by simp
  from threads_start_inj [OF G opn this o up]
  show ?thesis by (intro crash_fs.reach_inv [OF inj.crash_fs_axioms run _ opn writes_fit_mono [OF room(3)] room(2)])
qed

lemma threads_power_lost:
  assumes inv: "crash_fs.db_inv (inj_up G) inj_disk (inj_down G) inj_survivor xxh crc b opts dir cs ak g"
  shows "\<exists>A M. ak \<subseteq> A \<and> A \<subseteq> set cs \<and> latest A M \<and> db_image xxh crc dir M (sim_view (power_lost G (db_fs (dt_db g))))"
    and "sim_ok (power_lost G (db_fs (dt_db g))) \<and> settled dir (sim_disk (power_lost G (db_fs (dt_db g))))"
proof -
  let ?h = "db_fs (dt_db g)"
  note defs = crash_fs.db_inv_def [OF inj.crash_fs_axioms] crash_fs.db_gone_def [OF inj.crash_fs_axioms] crash_fs.lost_def [OF inj.crash_fs_axioms]
  have c: "db_ctl b opts dir cs ak g" using inv by (simp add: defs)
  have "(inj_up G ?h \<or> (\<exists>D. inj_down G ?h D)) \<and> (\<exists>A M. ak \<subseteq> A \<and> A \<subseteq> set cs \<and> latest A M \<and> db_image xxh crc dir M (sim_view (power_lost G ?h)))"
    using inv unfolding crash_fs.db_inv_def [OF inj.crash_fs_axioms]
  proof (elim conjE disjE)
    assume l: "crash_fs.db_live (inj_up G) inj_disk xxh crc dir b cs ak g"
    then have u: "inj_up G ?h" by (rule crash_fs.db_liveE [OF inj.crash_fs_axioms])
    show ?thesis using u crash_fs.live_image [OF inj.crash_fs_axioms l c power_lost_up(2) [OF u]] by blast
  next
    assume "crash_fs.db_gone (inj_down G) inj_survivor xxh crc dir cs ak g"
    then obtain A M D where g: "owed ak g \<subseteq> A" "A \<subseteq> set cs" "latest A M" "inj_down G ?h D" "db_image xxh crc dir M (inj_survivor ?h)"
      by (auto simp: defs)
    moreover have "inj_survivor ?h = sim_view (power_lost G ?h)" by (simp add: inj_survivor_def [abs_def] power_lost_down [OF g(4)])
    moreover have "ak \<subseteq> A" using g(1) by (auto simp: owed_def)
    ultimately show ?thesis by auto
  qed
  then show "\<exists>A M. ak \<subseteq> A \<and> A \<subseteq> set cs \<and> latest A M \<and> db_image xxh crc dir M (sim_view (power_lost G ?h))"
    and "sim_ok (power_lost G ?h) \<and> settled dir (sim_disk (power_lost G ?h))"
    using power_lost_settled by blast+
qed

text \<open>An engine reopened on an image shows what the image holds.\<close>

lemma reopened_reads:
  assumes "sim_ok s \<and> settled dir (sim_disk s)" and "db_image xxh crc dir M (sim_view s)"
  shows "\<exists>d s'. db_open crc (sim_storage G) dir opts s = (Inr d, s') \<and> (\<forall>key. fst (db_get xxh crc (sim_storage G) key d) = Inr (M key))"
proof -
  obtain r s' where o: "db_open crc (sim_storage G) dir opts s = (r, s')" by force
  from crash_fs.db_reopen_shows [OF sim_run.crash_fs_axioms assms(1) [THEN conjunct1] assms(1) [THEN conjunct2] _ o, of xxh M]
  obtain d where d: "r = Inr d" "crash_fs.db_shows sim_ok sim_disk xxh crc dir M d"
    using assms(2) by (simp add: crash_fs.lost_def [OF sim_run.crash_fs_axioms]) blast
  have "fst (db_get xxh crc (sim_storage G) key d) = Inr (M key)" for key
    using crash_fs.db_shows_get [OF sim_run.crash_fs_axioms d(2), of G key] by auto
  then show ?thesis using o d(1) by blast
qed

text \<open>C2 (db_threads_durability): durability with any number of threads. Threads write, delete and flush
  in any interleaving on a fresh directory in a durable mode, and the power fails at any operation of
  the backend after opening, with any tear, or when the run is over. The engine that is reopened shows,
  for every key, the newest record in the order of the claims, of a set of records that contains every
  write that was acknowledged and nothing that was not written.\<close>

theorem db_threads_durability:
  assumes G: "gen_ok G" and opts: "is_durable (o_durability opts)" "2 \<le> o_tier_fanout opts"
    and o: "db_open crc (injector G) dir opts (fresh_injector ko seeded seed) = (Inr d0, s0)" and up: "\<not> halted s0"
    and run: "dt_reach xxh crc (injector G) (dt_start d0) n cs ak g"
    and room: "n < 2 ^ 28" "entries_size cs + 100 < 2 ^ 32" "writes_fit True crc cs"
  shows "\<exists>d s A M. db_open crc (sim_storage G) dir opts (power_lost G (db_fs (dt_db g))) = (Inr d, s)
    \<and> ak \<subseteq> A \<and> A \<subseteq> set cs \<and> sorted_wrt (<) (map (seq \<circ> snd) cs) \<and> latest A M
    \<and> (\<forall>key. fst (db_get xxh crc (sim_storage G) key d) = Inr (M key))"
proof -
  note inv = threads_inv_inj [OF G opts o up run room]
  have "db_ctl 2 opts dir cs ak g" using inv by (simp add: crash_fs.db_inv_def [OF inj.crash_fs_axioms])
  then have "sorted_wrt (<) (map (seq \<circ> snd) cs)" by (rule db_ctlD(7))
  moreover obtain A M where "ak \<subseteq> A" "A \<subseteq> set cs" "latest A M" "db_image xxh crc dir M (sim_view (power_lost G (db_fs (dt_db g))))"
    using threads_power_lost(1) [OF inv] by blast
  moreover from reopened_reads [OF threads_power_lost(2) [OF inv] this(4), of G opts]
  obtain d s where "db_open crc (sim_storage G) dir opts (power_lost G (db_fs (dt_db g))) = (Inr d, s)"
    "\<forall>key. fst (db_get xxh crc (sim_storage G) key d) = Inr (M key)" by blast
  ultimately show ?thesis by blast
qed



section \<open>A concrete run\<close>

text \<open>Behind an injector that is not armed the power does not fail.\<close>

definition quiet_sim :: "'r sim_state \<Rightarrow> bool" where
  "quiet_sim st \<longleftrightarrow> crash_after st = None \<and> last_report st = None"

lemma quiet_ops:
  assumes "quiet_sim st"
  shows "quiet_sim (snd (sim_create G p st))" "quiet_sim (snd (sim_append G p x st))" "quiet_sim (snd (sim_sync_file G p st))"
    "quiet_sim (snd (sim_sync_dir G p st))" "quiet_sim (snd (sim_rename G p q st))" "quiet_sim (snd (sim_delete G p st))"
  using assms
  by (simp_all add: quiet_sim_def sim_create_def sim_append_def sim_sync_file_def sim_sync_dir_def sim_rename_def sim_delete_def
      bump_def collect_unreferenced_inodes_def Let_def split: option.split)

definition inj_calm :: "'r gen \<Rightarrow> 'r injector \<Rightarrow> bool" where
  "inj_calm G h \<longleftrightarrow> inj_up G h \<and> crash_after (inner h) = None"

lemma calm_forward:
  assumes c: "inj_calm G h" and q: "\<And>st. quiet_sim st \<Longrightarrow> quiet_sim (snd (f st))" and f: "forward p f h = (Inr y, h')"
    and o: "inj_up G h' \<and> inj_disk h' = D \<or> inj_down G h' D"
  shows "inj_calm G h' \<and> inj_disk h' = D \<or> False"
proof -
  have "quiet_sim (inner h)" using c by (simp add: inj_calm_def inj_up_def quiet_sim_def)
  from q [OF this] have "quiet_sim (inner h') \<and> \<not> halted h'"
    using f c by (auto simp: forward_def guard_def observe_def inj_calm_def inj_up_def quiet_sim_def split: prod.splits if_splits)
  then show ?thesis using o by (auto simp: inj_calm_def inj_down_def quiet_sim_def)
qed

interpretation calm: crash_fs "injector G" "inj_calm G" inj_disk "\<lambda>_ _. False" inj_survivor
proof (rule crash_fs.intro)
  fix h :: "'a injector" and p q c x dir
  show "read_fs (injector G) (inj_calm G) (\<lambda>h. d_view (inj_disk h))"
    using sim_reads [of "inj_calm G" inner "injector G"] by (simp add: injector_def inj_disk_def inj_calm_def inj_up_def)
  assume calm: "inj_calm G h"
  then have up: "inj_up G h" by (simp add: inj_calm_def)
  show "\<exists>h'. st_sync_dir (injector G) dir h = (Inr (), h') \<and> (inj_calm G h' \<and> inj_disk h' = disk_sync_dir dir (inj_disk h) \<or> False)"
    using inj.cf_sync_dir [OF up, of dir] calm_forward [OF calm, of "sim_sync_dir G dir" dir "()"] quiet_ops(4)
    by (simp add: injector_def) blast
  show "\<exists>h'. st_create (injector G) p h = (Inr (), h') \<and> (inj_calm G h' \<and> inj_disk h' = disk_create p (inj_disk h) \<or> False)"
    if "d_view (inj_disk h) p = None"
    using inj.cf_create [OF up that] calm_forward [OF calm, of "sim_create G p" p "()"] quiet_ops(1)
    by (simp add: injector_def) blast
  show "st_delete (injector G) p h = (Inl (NotFound p), h)" "st_append (injector G) p x h = (Inl (NotFound p), h)"
    "st_sync_file (injector G) p h = (Inl (NotFound p), h)" "st_rename (injector G) p q h = (Inl (NotFound p), h)"
    if "d_view (inj_disk h) p = None"
    using inj.cf_delete_missing [OF up that] inj.cf_missing [OF up that] by simp_all
  assume v: "d_view (inj_disk h) p = Some c"
  show "st_create (injector G) p h = (Inl (AlreadyExists p), h)" by (rule inj.cf_create_exists [OF up v])
  show "\<exists>h'. st_append (injector G) p x h = (Inr (length c), h') \<and> (inj_calm G h' \<and> inj_disk h' = disk_append p x (inj_disk h) \<or> False)"
    using inj.cf_append [OF up v, of x] calm_forward [OF calm, of "sim_append G p x" p "length c"] quiet_ops(2)
    by (simp add: injector_def) blast
  show "\<exists>h'. st_sync_file (injector G) p h = (Inr (), h') \<and> (inj_calm G h' \<and> inj_disk h' = disk_sync_file p (inj_disk h) \<or> False)"
    using inj.cf_sync_file [OF up v] calm_forward [OF calm, of "sim_sync_file G p" p "()"] quiet_ops(3)
    by (simp add: injector_def) blast
  show "\<exists>h'. st_delete (injector G) p h = (Inr (), h') \<and> (inj_calm G h' \<and> inj_disk h' = disk_delete p (inj_disk h) \<or> False)"
    using inj.cf_delete [OF up v] calm_forward [OF calm, of "sim_delete G p" p "()"] quiet_ops(6)
    by (simp add: injector_def) blast
  show "\<exists>h'. st_rename (injector G) p q h = (Inr (), h') \<and> (inj_calm G h' \<and> inj_disk h' = disk_rename p q (inj_disk h) \<or> False)"
    if "p \<noteq> q" "parent p = parent q"
    using inj.cf_rename [OF up v that] calm_forward [OF calm, of "sim_rename G p q" p "()"] quiet_ops(5)
    by (simp add: injector_def) blast
qed (simp_all add: read_fs_def)

context crash_fs
begin

text \<open>One thread writes while the others rest.\<close>

lemma write_run:
  assumes no: "\<And>s D. \<not> down s D" and inv: "db_inv xxh crc 10 opts dir [] {} (dt_start d)" and opts: "open_opts opts"
    and free: "ws_in_flight (db_write d) = 0" "\<not> ws_flush_pending (db_write d)"
    and e: "e = (k, \<lparr>seq = ws_next_seq (db_write d), kind = vk\<rparr>)" "kv_fits e" "entries_size [e] + 100 < 2 ^ 32"
  shows "\<exists>g. dt_reach xxh crc S (dt_start d) 5 [e] {e} g \<and> dt_pc g 0 = Returned (Some e) (Inr ())"
proof -
  have fit: "writes_fit (\<exists>s D. down s D) crc [e]" using e(2) no by (simp add: writes_fit_def)
  have ok: "\<not> failed (dt_pc g t)" if r: "dt_reach xxh crc S (dt_start d) n [e] ak g" "n \<le> 5" for n ak g t
  proof -
    have "db_inv xxh crc (2 * n + (10 - 2 * n)) opts dir [] {} (dt_start d)" using inv r(2) by simp
    from reach_inv [OF r(1) this opts fit e(3)] have c: "db_ctl (10 - 2 * n) opts dir [e] ak g" and l: "db_live xxh crc dir (10 - 2 * n) [e] ak g"
      using no by (auto simp: db_inv_def db_gone_def lost_def)
    show ?thesis by (rule live_reads(2) [OF l c])
  qed
  have go: "\<exists>g'. dt_step xxh crc S 0 g = Some g'" if r: "dt_reach xxh crc S (dt_start d) n [e] ak g" "n \<le> 4" "flying (dt_pc g 0)" for n ak g
  proof -
    have "db_inv xxh crc (2 * n + Suc (Suc (8 - 2 * n))) opts dir [] {} (dt_start d)" using inv r(2) by simp
    from step_next [OF reach_inv [OF r(1) this opts fit e(3)] opts fit e(3), of 0] show ?thesis
      using r(3) by (cases "dt_pc g 0") (auto simp: waits_def split: option.splits)
  qed
  let ?d1 = "d\<lparr>db_write := (db_write d)\<lparr>ws_next_seq := ws_next_seq (db_write d) + 1, ws_in_flight := 1\<rparr>\<rparr>"
  have r1: "dt_reach xxh crc S (dt_start d) 1 [] {} (dt_at 0 (Claiming k vk) d (dt_start d))" (is "dt_reach _ _ _ _ _ _ _ ?g1")
    using dt_reach.call [OF dt_reach.start, of "dt_start d" 0 xxh crc S "Call_write k vk"] by (simp add: dt_call_def dt_start_def)
  have "dt_step xxh crc S 0 ?g1 = Some (dt_at 0 (Logging e) ?d1 ?g1)"
    using free by (simp add: dt_step_def write_claim_def Let_def e(1))
  from dt_reach.step [OF r1 this] have r2: "dt_reach xxh crc S (dt_start d) 2 [e] {} (dt_at 0 (Logging e) ?d1 ?g1)" (is "dt_reach _ _ _ _ _ _ _ ?g2")
    by (simp add: numeral_2_eq_2)
  obtain g3 where s3: "dt_step xxh crc S 0 ?g2 = Some g3" using go [OF r2] by auto
  then obtain r d3 where w: "write_log crc S (seq (snd e)) (fst e) (kind (snd e)) ?d1 = Some (r, d3)"
    and g3: "g3 = dt_at 0 (case r of Inl err \<Rightarrow> Failing e err | Inr _ \<Rightarrow> Applying e) d3 ?g2"
    by (auto simp: dt_step_def)
  have "claimed (dt_pc g3 0) = []" "acked (dt_pc g3 0) = {}" unfolding g3 by (cases r; simp)+
  then have r3: "dt_reach xxh crc S (dt_start d) 3 [e] {} g3" using dt_reach.step [OF r2 s3] by (simp add: numeral_3_eq_3 numeral_2_eq_2)
  obtain u where r: "r = Inr u" using ok [OF r3, of 0] unfolding g3 by (cases r) auto
  have d3: "db_write d3 = db_write ?d1" using w by (auto simp: write_log_def)
  let ?d4 = "write_apply (seq (snd e)) (fst e) (kind (snd e)) d3"
  have "dt_step xxh crc S 0 g3 = Some (dt_at 0 (Leaving e) ?d4 g3)" unfolding g3 r by (simp add: dt_step_def)
  from dt_reach.step [OF r3 this] have r4: "dt_reach xxh crc S (dt_start d) 4 [e] {} (dt_at 0 (Leaving e) ?d4 g3)" (is "dt_reach _ _ _ _ _ _ _ ?g4") by simp
  obtain g5 where s5: "dt_step xxh crc S 0 ?g4 = Some g5" using go [OF r4] by auto
  have "ws_in_flight (db_write (write_leave ?d4)) = 0" by (simp add: write_leave_def write_apply_def d3)
  then obtain q where p5: "dt_pc g5 0 = Returned (Some e) q"
    using s5 by (auto simp: dt_step_def enter_flush_def finish_flush_def Let_def split: if_splits)
  have "\<exists>ak. dt_reach xxh crc S (dt_start d) 5 [e] ak g5" using dt_reach.step [OF r4 s5] p5 by auto
  then have "\<not> failed (dt_pc g5 0)" using ok by blast
  then have q: "q = Inr ()" unfolding p5 by (cases q) auto
  then show ?thesis using dt_reach.step [OF r4 s5] p5 by auto
qed

end

text \<open>The run on a disk behind an injector that is not armed, and on the simulator.\<close>

definition demo_entry :: "u64 \<Rightarrow> entry" where
  "demo_entry n = ([1], \<lparr>seq = n, kind = Value [2, 3]\<rparr>)"

lemma demo_entry_fits: "kv_fits (demo_entry n)" "writes_fit True sum_crc [demo_entry n]" "entries_size [demo_entry n] + 100 < 2 ^ 32"
proof -
  show "writes_fit True sum_crc [demo_entry n]"
    by (rule writes_fit_small) (simp add: demo_entry_def payload_bytes_def)
qed (simp_all add: demo_entry_def kv_fits_def payload_bytes_def entries_size_def row_def entry_of_def value_ref_def encode_entry_def)

lemma demo_run_injector:
  "\<exists>d0 s0 e g. db_open sum_crc (injector first_choice) [''db''] demo_opts (fresh_injector None (\<lambda>_. 0) 0) = (Inr d0, s0) \<and> \<not> halted s0
     \<and> dt_reach (\<lambda>_. 0) sum_crc (injector first_choice) (dt_start d0) 5 [e] {e} g \<and> dt_pc g 0 \<noteq> Resting
     \<and> entries_size [e] + 100 < 2 ^ 32 \<and> writes_fit True sum_crc [e]"
proof -
  let ?s = "fresh_injector None (\<lambda>_. 0 :: nat) 0 :: nat injector"
  note fresh = sim_new_fresh [where seeded = "\<lambda>_. 0 :: nat" and seed = 0]
  have opn: "open_opts demo_opts" by (simp add: open_opts_def demo_opts_def is_durable_def)
  have up: "inj_calm first_choice ?s" using fresh_injector_up(1) [OF first_choice_ok, of None "\<lambda>_. 0" 0]
    by (simp add: inj_calm_def) (simp add: fresh_injector_def injector_new_def)
  obtain r s0 where o: "db_open sum_crc (injector first_choice) [''db''] demo_opts ?s = (r, s0)" by force
  have "(\<exists>d. r = Inr d \<and> inj_calm first_choice s0
        \<and> crash_fs.db_inv (inj_calm first_choice) inj_disk (\<lambda>_ _. False) inj_survivor (\<lambda>_. 0) sum_crc 10 demo_opts [''db''] [] {} (dt_start d))
      \<or> crash_fs.lost (\<lambda>_ _. False) inj_survivor (\<lambda>_. 0) sum_crc [''db''] {Map.empty} s0"
    by (rule crash_fs.open_start [OF calm.crash_fs_axioms up _ _ _ _ _ opn o, where E = "\<lambda>_. []"])
       (use fresh fresh_dir in \<open>auto simp: fresh_injector_up(2)\<close>)
  then obtain d where d: "r = Inr d" "inj_calm first_choice s0"
    and inv: "crash_fs.db_inv (inj_calm first_choice) inj_disk (\<lambda>_ _. False) inj_survivor (\<lambda>_. 0) sum_crc 10 demo_opts [''db''] [] {} (dt_start d)"
    by (auto simp: crash_fs.lost_def [OF calm.crash_fs_axioms])
  let ?e = "demo_entry (ws_next_seq (db_write d))"
  note mem = db_open_memory [OF o [unfolded d(1)]]
  from crash_fs.write_run [OF calm.crash_fs_axioms _ inv opn mem(5,6) _ demo_entry_fits(1,3), where k = "[1]" and vk = "Value [2, 3]"]
  obtain g where "dt_reach (\<lambda>_. 0) sum_crc (injector first_choice) (dt_start d) 5 [?e] {?e} g" "dt_pc g 0 = Returned (Some ?e) (Inr ())"
    by (auto simp: demo_entry_def)
  moreover have "\<not> halted s0" using d(2) by (simp add: inj_calm_def inj_up_def)
  ultimately show ?thesis using o [unfolded d(1)] demo_entry_fits(2,3) by (intro exI conjI) (assumption | simp)+
qed


theorem db_threads_durability_witness:
  "\<exists>d0 s0 e g d s A M. db_open sum_crc (injector first_choice) [''db''] demo_opts (fresh_injector None (\<lambda>_. 0) 0) = (Inr d0, s0)
     \<and> dt_reach (\<lambda>_. 0) sum_crc (injector first_choice) (dt_start d0) 5 [e] {e} g
     \<and> db_open sum_crc (sim_storage first_choice) [''db''] demo_opts (power_lost first_choice (db_fs (dt_db g))) = (Inr d, s)
     \<and> {e} \<subseteq> A \<and> A \<subseteq> set [e] \<and> latest A M
     \<and> (\<forall>key. fst (db_get (\<lambda>_. 0) sum_crc (sim_storage first_choice) key d) = Inr (M key))"
proof -
  from demo_run_injector obtain d0 s0 e g where h:
    "db_open sum_crc (injector first_choice) [''db''] demo_opts (fresh_injector None (\<lambda>_. 0) 0) = (Inr d0, s0)" "\<not> halted s0"
    "dt_reach (\<lambda>_. 0) sum_crc (injector first_choice) (dt_start d0) 5 [e] {e} g"
    "entries_size [e] + 100 < 2 ^ 32" "writes_fit True sum_crc [e]" by blast
  have o: "is_durable (o_durability demo_opts)" "2 \<le> o_tier_fanout demo_opts" "(5 :: nat) < 2 ^ 28"
    by (simp_all add: demo_opts_def is_durable_def)
  from db_threads_durability [OF first_choice_ok o(1,2) h(1,2,3) o(3) h(4,5)] obtain d s A M where
    "db_open sum_crc (sim_storage first_choice) [''db''] demo_opts (power_lost first_choice (db_fs (dt_db g))) = (Inr d, s)"
    "{e} \<subseteq> A" "A \<subseteq> set [e]" "latest A M" "\<forall>key. fst (db_get (\<lambda>_. 0) sum_crc (sim_storage first_choice) key d) = Inr (M key)"
    by (elim exE conjE)
  then show ?thesis using h(1,3) by (intro exI conjI)
qed



text \<open>When two flushes wait, the first to run clears the mark that keeps new writers out, for both.\<close>

lemma flush_reopens_gate:
  assumes "dt_pc g t = Quiescing eo" and "dt_pc g u = Quiescing eo'" and "t \<noteq> u" and "dt_step xxh crc S t g = Some g'"
  shows "dt_pc g' u = Quiescing eo' \<and> \<not> ws_flush_pending (db_write (dt_db g'))"
  using assms by (auto simp: dt_step_def finish_flush_def Let_def split: if_splits)

end
