(* ===== verification/Spec2Isabelle.thy ===== *)
theory Spec2Isabelle
  imports Wal_Durability Sst_Table Levels Log_Frame Wal_Reset Store_Flush Store_Facts Codec_Facts Reader_Safety Group_Commit
    Crashtest Bench_Hist Bench_Work Bench_Main Bench_Sled Real_Torn Db_Entry Probe Db_Threads_Run
begin

text \<open>
  Accretion-db is an embedded key-value store: a log-structured merge tree with a write-ahead log, sorted
  table files, size-tiered compaction, and a simulator of power loss that the whole engine can be run
  on. This is a model of it, written from the Rust sources under \<open>src/src/\<close>, with the theorems that make
  it correct. The sections below give the parts and their theories, then the model's conventions, the
  results, the bounds, and what is not modelled.

  \<^bold>\<open>The program and where it is modelled.\<close> Everything the engine does to files goes through the trait
  \<open>Storage\<close> (\<open>storage/mod.rs\<close>), which is the record \<open>storage\<close> of operations over a backend state; every
  definition of the engine takes this record as an argument, as the code holds an \<open>Arc<dyn Storage>\<close>.

  \<^item> \<^bold>\<open>Backends.\<close> \<open>Storage\<close> has the trait and its errors, \<open>SimFs\<close> the simulator (\<open>storage/sim.rs\<close>: live and
    durable bindings of paths to file generations, live and durable bytes of a generation, the three
    kinds of tear, the armed crash), \<open>Testkit\<close> the injector that stops the process at the simulated power
    loss and the sweep over all crash points (\<open>testkit/mod.rs\<close>), \<open>Real_Fs\<close> the backend on \<open>std::fs\<close>
    (\<open>storage/real.rs\<close>) over the tree of files and directories of \<open>Os_Tree\<close>. \<open>Ordered_Map\<close> is the standard library's
    \<open>BTreeMap\<close> as a sorted association list, with the interface \<open>ordered_map\<close>.
  \<^item> \<^bold>\<open>The log.\<close> \<open>Frame\<close> (\<open>wal/frame.rs\<close>), \<open>Segment\<close> (\<open>wal/segment.rs\<close>), \<open>Recovery\<close> (\<open>wal/recovery.rs\<close>) and \<open>Wal\<close>
    (\<open>wal/mod.rs\<close>: opening, the three durability modes, rotation, reset). \<open>Group_Commit\<close> has the threads of
    \<open>commit_group\<close> as a step relation \<open>gc_step\<close>, one step for each critical section of the coordinator.
  \<^item> \<^bold>\<open>Tables.\<close> \<open>Sstable\<close> (\<open>sstable/mod.rs\<close>), \<open>Bloom\<close> (\<open>sstable/bloom.rs\<close>, with the rounding of double
    precision written out), \<open>Sst_Builder\<close> (\<open>sstable/builder.rs\<close>), \<open>Sst_Reader\<close> (\<open>sstable/reader.rs\<close>; \<open>Slices\<close>
    has the binary searches it calls).
  \<^item> \<^bold>\<open>Memory.\<close> \<open>Memtable\<close> (\<open>memtable/mod.rs\<close>: versioned values, the sorted table with its byte count, the
    active and the frozen tables) and \<open>MergeIter\<close> (\<open>iter/mod.rs\<close>: the k-way merge and the live iterator).
  \<^item> \<^bold>\<open>The store.\<close> \<open>Manifest\<close> (\<open>manifest.rs\<close>: versions, their file, the atomic switch, the collection) and
    \<open>Compaction\<close> (\<open>compaction.rs\<close>).
  \<^item> \<^bold>\<open>The engine.\<close> \<open>Db\<close> (\<open>db.rs\<close>): opening with recovery, the write path in its phases, reads, scans,
    flushing with the cascade of compactions. A put claims a sequence number, appends a record to the
    log, enters it into the memtable, and flushes when the memtable is full; a flush writes each frozen
    memtable as a table, installs a version that names it, resets the log, and compacts. \<open>Db_Entry\<close> has the
    two entry points, of which the one on the real filesystem makes the directory first. \<open>Db_Threads\<close> has
    the threads of \<open>write\<close> and \<open>flush_locked\<close>: \<open>dt_step\<close> is a critical section of the write lock, an append
    or an insertion of one thread, and \<open>dt_reach\<close> the states that an interleaving reaches.
  \<^item> \<^bold>\<open>Programs.\<close> \<open>Crashtest\<close> (\<open>bin/accretion-crashtest.rs\<close>); the benchmark (\<open>bin/accretion-bench\<close>) in
    \<open>Bench_Hist\<close> (\<open>hist.rs\<close>), \<open>Bench_Work\<close> (\<open>workload.rs\<close>), \<open>Bench_Run\<close> (\<open>kv.rs\<close>, \<open>runner.rs\<close>) and \<open>Bench_Main\<close>
    (\<open>main.rs\<close>), \<open>Bench_Sled\<close>
    (\<open>sled_shim.rs\<close>, the baseline behind a feature that is off); the script \<open>fsync_probe.rs\<close> in \<open>Probe\<close>.

  \<^bold>\<open>Conventions.\<close> A \<open>Result\<close> is a sum, \<open>Inl\<close> the error; an operation on state returns the result and the
  new state, \<open>ok_then\<close> is the question mark. \<open>u32\<close>, \<open>u64\<close> and \<open>u128\<close> are words; sizes, offsets and lengths
  of buffers are natural numbers, with the casts and the width of a length field written out where the
  code narrows them. A call of the engine is \<open>option\<close>: \<open>None\<close> is a call that panics, waits for ever, or
  runs an unending cascade, so that a theorem that has \<open>Some\<close> says that the call returns. Shared
  pointers whose identity the code compares or counts are numbers (\<open>Memtable\<close>) or a multiset of
  references (\<open>Manifest\<close>). Crates are parameters: \<open>crc\<close> of \<open>crc32fast\<close>, \<open>xxh\<close> of \<open>xxhash-rust\<close>, the
  generator of \<open>rand\<close>. Nothing is assumed of the hash and the generator (but that a shuffle permutes and
  a sample is in its range), and of the checksum only, where corrupted bytes are to be noticed, that it
  tells the two buffers apart. Crash points are all covered: the injector stops before any operation,
  and the tear and the torn file are arbitrary.

  \<^bold>\<open>Interfaces.\<close> The engine relies on a backend by contract, not by its definition. \<open>read_fs\<close> and \<open>live_fs\<close>
  (\<open>Storage\<close>) say what calls return on a backend that does not fail. \<open>crash_fs\<close> (\<open>Crash\<close>) says what they
  do on one whose power may be cut at any call: it relates the state to an abstract \<open>disk\<close> (what the
  process sees, what is synced, which entries are durable, what a power loss may leave), and its rules
  carry an invariant through a protocol. The simulator is an interpretation of the first two
  (\<open>SimFs_Laws\<close>), and both it and the injector of \<open>crash_fs\<close> (\<open>Testkit\<close>), so that what is proved of the
  log, the store and the engine inside \<open>crash_fs\<close> holds with and without a power loss. The file formats
  share the contract \<open>codec\<close> of an encoder and a decoder (\<open>Codec\<close>); the benchmark runs on any engine that
  satisfies \<open>kv_engine\<close> (\<open>Bench_Client\<close>, interpreted on the engine in \<open>Bench_Db\<close>).

  \<^bold>\<open>Results, from the bottom up.\<close>

  \<^item> \<open>Sim_Disk\<close>: the simulator refines the abstract disk, and a power loss leaves what the disk allows.
    \<open>Real_Fs\<close>: the simulator and the real backend answer alike while the machine works; what it may fail
    at is a parameter (\<open>faults\<close>). \<open>Real_Tree\<close>: whatever fails, the file tree stays well-formed. \<open>Real_Torn\<close>: a
    write that fails part way, and what it does to the log behind it.
  \<^item> \<open>Frame\<close>, \<open>Recovery\<close>, \<open>Codec_Facts\<close>: round trips, torn and corrupted frames, names. \<open>Wal_Crash\<close>,
    \<open>Wal_Open\<close>, \<open>Wal_Reset\<close>: each step of the log keeps \<open>wal_inv\<close>, and whatever a power loss leaves recovers
    to the synced records and at most a tail; opening is itself crash-safe; resetting is atomic.
    \<open>Wal_Durability\<close> puts the steps together to sessions; \<open>Group_Commit\<close> proves the same of every
    interleaving, and that it does not get stuck.
  \<^item> \<open>Sst_Image\<close>, \<open>Sst_Write\<close>, \<open>Sst_Read\<close>, \<open>Sst_Table\<close>: the builder leaves the file \<open>table_image\<close>, and the
    reader serves it; \<open>Reader_Safety\<close>: the reader on arbitrary bytes, with every operation that can panic an
    operation with an error (\<open>Sstable\<close>).
  \<^item> \<open>Levels\<close>: a list of sorted sources, newest first, as a map; merging and dropping tombstones at the
    bottom keep it. \<open>Versions\<close>, \<open>Manifest_Crash\<close>, \<open>Store\<close>, \<open>Store_Steps\<close>, \<open>Store_Flush\<close>, \<open>Store_Compact\<close>: the
    store keeps \<open>store_inv\<close>, its steps are atomic under power loss, the cascade ends. \<open>Store_Facts\<close> has
    the statements, and what goes wrong outside the working conditions.
  \<^item> \<open>Db_Log\<close>, \<open>Db_Read\<close>, \<open>Log_Frame\<close>, \<open>Db_Frames\<close>, \<open>Db_Inv\<close>: the engine's content is what is visible in the
    records of the log on top of the tables; log and store do not disturb each other. \<open>Db_Flush\<close>,
    \<open>Db_Write\<close>, \<open>Db_Open\<close>: each operation keeps the content or updates it as a map, whatever a power loss
    interrupts. \<open>Db_Session\<close>, \<open>Db_Durability\<close>, \<open>Db_Refine\<close>: sessions of calls, with a power loss (the
    acknowledged calls are there, and at most one more) and without (the engine is the map).
    \<open>Db_Threads_Inv\<close>, \<open>Db_Threads_Steps\<close>, \<open>Db_Threads_Run\<close>: with many threads the tables, the log and the
    memtable hold the newest records of sets of claimed ones, related by where each thread is; so every
    acknowledged write survives a power loss and is read, and the threads never all wait.
  \<^item> The programs are clients of these: the crash test lists every record it announced, and the
    benchmark never finds a key missing, on the engine or on a baseline that acts as a map; the probe
    leaves nothing behind.

  \<^bold>\<open>Bounds and fuel.\<close> No definition takes fuel. Loops are structural or have a measure, but for the
  cascade of compactions, which need not end: \<open>cascade\<close> is a partial function into \<open>option\<close>, and its
  theorems prove that it is \<open>Some\<close> for a fanout of at least two (the number of tables falls with every
  pass) and that for a smaller one every pass asks for another. The hypotheses bound what the code
  leaves unchecked: fewer than \<open>2 ^ 30\<close> calls and about \<open>2 ^ 32\<close> bytes of entries in a session (block
  offsets' lengths and the filter's bit count are 32 bits wide; table identifiers and sequence numbers
  have 64 and do not run out), keys and values that fit their length fields, a tier fanout of at least
  two. Quantiles in double precision are exact for fewer than \<open>2 ^ 45\<close> samples.

  \<^bold>\<open>Not modelled.\<close> An append to the log is one step of \<open>dt_step\<close> (how threads meet inside it is in
  \<open>Group_Commit\<close>), and a read is one step between those of the threads. In the model of one call at a
  time (\<open>Db\<close>) the wait for writes in flight is a call that does not return. Fairness of the scheduler, lock
  poisoning. Failures of the operating system that its tree does not
  explain (permissions, a full disk, an interrupted sync), and the durability of the real disk. The panic
  hook of the crash harness, \<open>Display\<close> and \<open>Debug\<close>, the rendering of a report as text and what the
  programs print; the temporary directory that is made when the benchmark is given none. The tests and the
  benchmarks under \<open>src/tests\<close> and \<open>src/benches\<close>.
\<close>

end
